(* ===== verification/Prelude.thy ===== *)
theory Prelude
  imports Main "HOL-Library.Word"
begin

text \<open>
  Shared vocabulary of the development: machine integer types, the memory image of an
  integer on the little-endian 32-bit targets the project is built for, overwriting a
  stretch of a byte list (what a write to a file at a position does), and the result type
  of C functions that may leave the process or run into undefined behaviour.
\<close>

unbundle bit_operations_syntax

type_synonym byte = "8 word"
type_synonym u16 = "16 word"
type_synonym u32 = "32 word"
type_synonym u64 = "64 word"
type_synonym bytes = "byte list"

named_theorems stdio_simps
named_theorems codec_simps
named_theorems run_simps

section \<open>Results of C functions\<close>

text \<open>
  \<open>Ret x\<close>: the function returned \<open>x\<close>; \<open>Exit n\<close>: the process was left through
  \<^verbatim>\<open>exit(n)\<close>; \<open>Undef\<close>: the execution has no defined behaviour (a write or read outside a buffer).
\<close>

datatype 'a cresult = Ret 'a | Exit int | Undef

fun cbind :: "'a cresult \<Rightarrow> ('a \<Rightarrow> 'b cresult) \<Rightarrow> 'b cresult" where
  "cbind (Ret x) f = f x"
| "cbind (Exit n) f = Exit n"
| "cbind Undef f = Undef"

lemma cbind_eq_Ret:
  "cbind m f = Ret y \<longleftrightarrow> (\<exists>x. m = Ret x \<and> f x = Ret y)"
  by (cases m) auto

text \<open>
  Programs that touch files leave a state behind even when they stop: \<open>Cont s\<close> goes on in
  state \<open>s\<close>, \<open>Leave n s\<close> has called \<^verbatim>\<open>exit(n)\<close> in state \<open>s\<close>.  A whole program run returns from
  \<^verbatim>\<open>main\<close>, exits, or has no defined behaviour.
\<close>

datatype 's ctl = Cont 's | Leave int 's

fun ctl_bind :: "'s ctl \<Rightarrow> ('s \<Rightarrow> 's ctl) \<Rightarrow> 's ctl" where
  "ctl_bind (Cont s) f = f s"
| "ctl_bind (Leave n s) f = Leave n s"

datatype 's outcome = Returned int 's | Exited int 's | Undefined

section \<open>Memory images of integers\<close>

primrec le_bytes :: "nat \<Rightarrow> nat \<Rightarrow> bytes" where
  "le_bytes 0 v = []"
| "le_bytes (Suc n) v = of_nat v # le_bytes n (v div 256)"

primrec le_val :: "bytes \<Rightarrow> nat" where
  "le_val [] = 0"
| "le_val (b # bs) = unat b + 256 * le_val bs"

definition be_val :: "bytes \<Rightarrow> nat" where
  "be_val bs = foldl (\<lambda>v b. v * 256 + unat b) 0 bs"

primrec be_bytes :: "nat \<Rightarrow> nat \<Rightarrow> bytes" where
  "be_bytes 0 v = []"
| "be_bytes (Suc n) v = be_bytes n (v div 256) @ [of_nat v]"

definition le_int32 :: "bytes \<Rightarrow> int" where
  "le_int32 bs = sint (of_nat (le_val bs) :: u32)"

lemma length_le_bytes [simp]: "length (le_bytes n v) = n"
  by (induction n arbitrary: v) auto

lemma unat_of_nat_byte [simp]: "unat (of_nat v :: byte) = v mod 256"
  by (simp add: unat_of_nat)

lemma unat_byte_lt [simp]: "unat (b :: byte) < 256"
proof -
  have "unat b < 2 ^ LENGTH(8)" by (rule unsigned_less)
  then show ?thesis by simp
qed

lemma le_val_le_bytes [codec_simps]: "le_val (le_bytes n v) = v mod 256 ^ n"
  by (induction n arbitrary: v) (auto simp: mod_mult2_eq)

lemma le_val_le_bytes_id [codec_simps]:
  "v < 256 ^ n \<Longrightarrow> le_val (le_bytes n v) = v"
  by (simp add: le_val_le_bytes)

lemma le_val_lt: "le_val bs < 256 ^ length bs"
proof (induction bs)
  case (Cons b bs)
  have "unat b + 256 * le_val bs < 256 + 256 * le_val bs" by simp
  also have "\<dots> = 256 * Suc (le_val bs)" by simp
  also have "\<dots> \<le> 256 * 256 ^ length bs"
    using Cons by (intro mult_le_mono2) simp
  finally show ?case by simp
qed simp

lemma byte_256_mult: "256 * (w :: byte) = 0"
proof -
  have "(256 :: byte) = 0" by simp
  then show ?thesis by (metis mult_zero_left)
qed

lemma le_bytes_le_val [codec_simps]: "le_bytes (length bs) (le_val bs) = bs"
proof (induction bs)
  case (Cons b bs)
  have "(of_nat (unat b + 256 * le_val bs) :: byte) = b"
    by (simp add: byte_256_mult)
  with Cons show ?case by simp
qed simp

lemma le_val_inject: "length b = length c \<Longrightarrow> le_val b = le_val c \<longleftrightarrow> b = c"
  by (metis le_bytes_le_val)

lemma le_val_append: "le_val (xs @ ys) = le_val xs + 256 ^ length xs * le_val ys"
  by (induction xs) (simp_all add: algebra_simps)

lemma le_int32_le_bytes [codec_simps]:
  assumes "v < 2 ^ 31" shows "le_int32 (le_bytes 4 v) = int v"
proof -
  have "le_val (le_bytes 4 v) = v" using assms by (simp add: codec_simps)
  moreover have "sint (of_nat v :: u32) = int v"
    using assms by (simp add: signed_take_bit_int_eq_self sint_uint uint_nat unat_of_nat)
  ultimately show ?thesis by (simp add: le_int32_def)
qed

definition le_int64 :: "bytes \<Rightarrow> int" where
  "le_int64 bs = sint (of_nat (le_val bs) :: u64)"

lemma le_int64_le_bytes [codec_simps]:
  assumes "v < 2 ^ 63" shows "le_int64 (le_bytes 8 v) = int v"
proof -
  have "le_val (le_bytes 8 v) = v" using assms by (simp add: codec_simps)
  moreover have "sint (of_nat v :: u64) = int v"
    using assms by (simp add: signed_take_bit_int_eq_self sint_uint uint_nat unat_of_nat)
  ultimately show ?thesis by (simp add: le_int64_def)
qed

section \<open>Integers assembled from bytes by shifts\<close>

lemma length_be_bytes [simp]: "length (be_bytes n v) = n"
  by (induction n arbitrary: v) auto

lemma be_val_snoc [codec_simps]: "be_val (bs @ [b]) = be_val bs * 256 + unat b"
  by (simp add: be_val_def)

lemma be_val_be_bytes [codec_simps]: "be_val (be_bytes n v) = v mod 256 ^ n"
  by (induction n arbitrary: v) (auto simp: codec_simps mod_mult2_eq be_val_def [of "[]"])

lemma be_val_lt: "be_val bs < 256 ^ length bs"
proof (induction bs rule: rev_induct)
  case (snoc b bs)
  have "be_val bs * 256 + unat b < be_val bs * 256 + 256" by simp
  also have "\<dots> = Suc (be_val bs) * 256" by simp
  also have "\<dots> \<le> 256 ^ length bs * 256"
    using snoc by (intro mult_le_mono1) simp
  finally show ?case by (simp add: be_val_snoc)
qed (simp add: be_val_def)

lemma bit_ucast_byte: "bit (ucast (b :: byte) :: 'a::len word) n \<longleftrightarrow> bit b n \<and> n < 8 \<and> n < LENGTH('a)"
  by (auto simp: bit_simps dest: bit_imp_le_length)

lemma ucast_byte_nat: "(ucast (b :: byte) :: 'a::len word) = of_nat (unat b)"
  by simp

lemma push_bit_word: "push_bit n (w :: 'a::len word) = w * 2 ^ n"
  by (simp add: push_bit_eq_mult)

lemma word_be2:
  "push_bit 8 (ucast (b0 :: byte)) OR ucast (b1 :: byte) = (of_nat (be_val [b0, b1]) :: 'a::len word)"
proof -
  have "push_bit 8 (ucast b0) OR ucast b1 = (push_bit 8 (ucast b0) + ucast b1 :: 'a word)"
    by (rule disjunctive_add [symmetric]) (auto simp: bit_push_bit_iff bit_ucast_byte)
  also have "\<dots> = of_nat (be_val [b0, b1])"
    by (simp add: be_val_def push_bit_word)
  finally show ?thesis .
qed

lemma word_be3:
  "push_bit 16 (ucast (b0 :: byte)) OR push_bit 8 (ucast (b1 :: byte)) OR ucast (b2 :: byte)
     = (of_nat (be_val [b0, b1, b2]) :: 'a::len word)"
proof -
  have "push_bit 16 (ucast b0) OR (push_bit 8 (ucast b1) OR ucast b2)
      = (push_bit 16 (ucast b0) + (push_bit 8 (ucast b1) OR ucast b2) :: 'a word)"
    by (rule disjunctive_add [symmetric]) (auto simp: bit_push_bit_iff bit_or_iff bit_ucast_byte)
  also have "\<dots> = of_nat (be_val [b0, b1, b2])"
    unfolding word_be2 by (simp add: be_val_def push_bit_word)
  finally show ?thesis by (simp add: or.assoc)
qed

lemma word_be4:
  "push_bit 24 (ucast (b0 :: byte)) OR push_bit 16 (ucast (b1 :: byte)) OR push_bit 8 (ucast (b2 :: byte)) OR ucast (b3 :: byte)
     = (of_nat (be_val [b0, b1, b2, b3]) :: 'a::len word)"
proof -
  have "push_bit 24 (ucast b0) OR (push_bit 16 (ucast b1) OR push_bit 8 (ucast b2) OR ucast b3)
      = (push_bit 24 (ucast b0) + (push_bit 16 (ucast b1) OR push_bit 8 (ucast b2) OR ucast b3) :: 'a word)"
    by (rule disjunctive_add [symmetric]) (auto simp: bit_push_bit_iff bit_or_iff bit_ucast_byte)
  also have "\<dots> = of_nat (be_val [b0, b1, b2, b3])"
    unfolding word_be3 by (simp add: be_val_def push_bit_word)
  finally show ?thesis by (simp add: or.assoc)
qed

lemma word_be2_nth [codec_simps]:
  "length b = 2 \<Longrightarrow> push_bit 8 (ucast (b ! 0 :: byte)) OR ucast (b ! Suc 0) = (of_nat (be_val b) :: 'a::len word)"
  using word_be2 [of "b ! 0" "b ! 1"] by (auto simp: numeral_2_eq_2 length_Suc_conv)

lemma word_be3_nth [codec_simps]:
  "length b = 3 \<Longrightarrow> push_bit 16 (ucast (b ! 0 :: byte)) OR push_bit 8 (ucast (b ! Suc 0)) OR ucast (b ! 2)
     = (of_nat (be_val b) :: 'a::len word)"
  using word_be3 [of "b ! 0" "b ! 1" "b ! 2"] by (auto simp: numeral_3_eq_3 numeral_2_eq_2 length_Suc_conv)

lemma word_be4_nth [codec_simps]:
  "length b = 4 \<Longrightarrow> push_bit 24 (ucast (b ! 0 :: byte)) OR push_bit 16 (ucast (b ! Suc 0)) OR push_bit 8 (ucast (b ! 2)) OR ucast (b ! 3)
     = (of_nat (be_val b) :: 'a::len word)"
  using word_be4 [of "b ! 0" "b ! 1" "b ! 2" "b ! 3"]
  by (auto simp: numeral_eq_Suc length_Suc_conv)

lemma be_val_be_bytes_id [codec_simps]: "v < 256 ^ n \<Longrightarrow> be_val (be_bytes n v) = v"
  by (simp add: be_val_be_bytes)

lemma be_val_rev: "be_val bs = le_val (rev bs)"
proof (induction bs rule: rev_induct)
  case (snoc b bs) then show ?case by (simp add: be_val_snoc)
qed (simp add: be_val_def)

lemma word_le4:
  "ucast (b0 :: byte) OR push_bit 8 (ucast (b1 :: byte)) OR push_bit 16 (ucast (b2 :: byte)) OR push_bit 24 (ucast (b3 :: byte))
     = (of_nat (le_val [b0, b1, b2, b3]) :: 'a::len word)"
  using word_be4 [of b3 b2 b1 b0] by (simp add: be_val_rev or.commute or.left_commute or.assoc)

lemma word_le4_bytes:
  "of_nat (le_val [ucast v, ucast (drop_bit 8 v), ucast (drop_bit 16 v), ucast (drop_bit 24 v)]) = (v :: u32)"
proof -
  have "bit (ucast (ucast v :: byte) OR push_bit 8 (ucast (ucast (drop_bit 8 v) :: byte)) OR push_bit 16 (ucast (ucast (drop_bit 16 v) :: byte))
      OR push_bit 24 (ucast (ucast (drop_bit 24 v) :: byte)) :: u32) n \<longleftrightarrow> bit v n" if "n < 32" for n
  proof -
    have "n < 8 \<or> 8 \<le> n \<and> n < 16 \<or> 16 \<le> n \<and> n < 24 \<or> 24 \<le> n \<and> n < 32" using that by auto
    then show ?thesis by (elim disjE) (auto simp: bit_simps)
  qed
  then show ?thesis unfolding word_le4 [symmetric] by (intro bit_word_eqI) simp
qed

lemma word_of_nat_neq_0:
  "0 < v \<Longrightarrow> v < 2 ^ LENGTH('a) \<Longrightarrow> (of_nat v :: 'a::len word) \<noteq> 0"
  by (auto simp: word_of_nat_eq_0_iff dest: nat_dvd_not_less)

lemma list_eq_nth3: "length b = 3 \<Longrightarrow> b = [b ! 0, b ! 1, b ! 2]"
  by (auto simp: numeral_3_eq_3 numeral_2_eq_2 length_Suc_conv)

lemma list_eq_nth4: "length b = 4 \<Longrightarrow> b = [b ! 0, b ! 1, b ! 2, b ! 3]"
  by (auto simp: numeral_eq_Suc length_Suc_conv)

lemma unat_word_of_nat_id [simp]: "v < 2 ^ LENGTH('a) \<Longrightarrow> unat (of_nat v :: 'a::len word) = v"
  by (simp add: unat_of_nat)
lemma not_bit_word_of_nat:
  assumes "v < 2 ^ n" shows "\<not> bit (of_nat v :: 'a::len word) n"
proof -
  have "\<not> bit v n" using assms by (simp only: bit_iff_odd div_less even_zero not_not)
  then show ?thesis by (simp add: bit_of_nat_iff)
qed

lemma word_of_nat_or_high:
  assumes "v < 2 ^ n"
  shows "(of_nat v OR push_bit n 1 :: 'a::len word) = of_nat (v + 2 ^ n)"
proof -
  have "(of_nat v OR push_bit n 1 :: 'a word) = of_nat v + push_bit n 1"
    using not_bit_word_of_nat [OF assms]
    by (intro disjunctive_add [symmetric]) (auto simp: bit_exp_iff)
  then show ?thesis by (simp add: push_bit_eq_mult)
qed

lemma unat_take_bit: "unat (take_bit n w) = unat w mod 2 ^ n" for w :: "'a::len word"
proof -
  have "unat (take_bit n w) = take_bit n (unat w)" by (rule unsigned_take_bit_eq)
  also have "\<dots> = unat w mod 2 ^ n" by (rule take_bit_eq_mod)
  finally show ?thesis .
qed

lemma unat_drop_bit: "unat (drop_bit n w) = unat w div 2 ^ n" for w :: "'a::len word"
proof -
  have "unat (drop_bit n w) = drop_bit n (take_bit LENGTH('a) (unat w))" by (rule unsigned_drop_bit_eq)
  also have "\<dots> = unat w div 2 ^ n" by (simp add: drop_bit_eq_div take_bit_eq_mod)
  finally show ?thesis .
qed

lemma and_mask_take_bit:
  "w AND 0xffffff = take_bit 24 w" "w AND 0xff = take_bit 8 w" "w AND 0x7f = take_bit 7 w" "w AND 0x1f = take_bit 5 w"
  "w AND 3 = take_bit 2 w" for w :: "'a::len word"
  by (simp_all add: take_bit_eq_mask mask_eq_exp_minus_1)

lemma unat_and_mask24: "unat ((w :: u32) AND 0xffffff) = unat w mod 2 ^ 24"
  unfolding and_mask_take_bit by (rule unat_take_bit)

lemma unat_info_byte: "unat (drop_bit 24 (w :: u32) AND 0xff) = unat w div 2 ^ 24 mod 2 ^ 8"
  unfolding and_mask_take_bit unat_take_bit unat_drop_bit ..
lemma and_mask32: "(w :: u32) AND 0xffffffff = w"
proof -
  have "w AND 0xffffffff = w AND mask 32" by (simp add: mask_eq_exp_minus_1)
  also have "\<dots> = take_bit 32 w" by (rule take_bit_eq_mask [symmetric])
  finally show ?thesis using take_bit_length_eq [of w] by simp
qed

lemma sint_word_of_nat32: "v < 2 ^ 31 \<Longrightarrow> sint (of_nat v :: u32) = int v"
  by (simp add: signed_take_bit_int_eq_self sint_uint uint_nat unat_of_nat)

lemma le_int32_small: "le_val b = v \<Longrightarrow> v < 2 ^ 31 \<Longrightarrow> le_int32 b = int v"
  by (simp add: le_int32_def sint_word_of_nat32)

lemma ucast_le_val_Cons: "(ucast (of_nat (le_val (b # xs)) :: u32) :: byte) = b"
proof -
  have "(ucast (of_nat (le_val (b # xs)) :: u32) :: byte) = of_nat (le_val (b # xs))"
    by (rule unsigned_word_eqI [where 'a = nat])
      (simp add: unsigned_ucast_eq unsigned_of_nat take_bit_eq_mod mod_mod_cancel del: le_val.simps)
  then show ?thesis by (simp add: byte_256_mult)
qed

lemma ucast_word_of_nat:
  "v < 2 ^ LENGTH('b) \<Longrightarrow> (ucast (of_nat v :: 'b::len word) :: 'a::len word) = of_nat v"
  by (simp add: unsigned_of_nat take_bit_nat_eq_self)

section \<open>Overwriting a stretch of a byte list\<close>

text \<open>
  \<open>overwrite p bs d\<close> is the content of a file \<open>d\<close> after \<open>bs\<close> was written at position
  \<open>p\<close>: a gap behind the old end reads as zero bytes, and writing nothing changes nothing.
\<close>

definition overwrite :: "nat \<Rightarrow> bytes \<Rightarrow> bytes \<Rightarrow> bytes" where
  "overwrite p bs d =
     (if bs = [] then d
      else take p (d @ replicate (p - length d) 0) @ bs @ drop (p + length bs) d)"

lemma overwrite_Nil [simp]: "overwrite p [] d = d"
  by (simp add: overwrite_def)

lemma length_overwrite [run_simps]:
  "length (overwrite p bs d) = (if bs = [] then length d else max (length d) (p + length bs))"
  by (auto simp: overwrite_def)

lemma length_overwrite_le [run_simps]:
  "p + length bs \<le> length d \<Longrightarrow> length (overwrite p bs d) = length d"
  by (auto simp: length_overwrite)

lemma nth_overwrite [run_simps]:
  assumes "i < length (overwrite p bs d)"
  shows "overwrite p bs d ! i =
    (if p \<le> i \<and> i < p + length bs then bs ! (i - p)
     else if i < length d then d ! i else 0)"
proof (cases "bs = []")
  case False
  then show ?thesis using assms
    by (auto simp: overwrite_def nth_append min_def)
qed (use assms in auto)

lemma overwrite_at_end [run_simps]: "overwrite (length d) bs d = d @ bs"
  by (simp add: overwrite_def)

lemma overwrite_append [run_simps]:
  "overwrite (p + length as) bs (overwrite p as d) = overwrite p (as @ bs) d"
proof (cases "as = [] \<or> bs = []")
  case False
  show ?thesis
  proof (rule nth_equalityI)
    show "length (overwrite (p + length as) bs (overwrite p as d)) = length (overwrite p (as @ bs) d)"
      using False by (auto simp: length_overwrite)
    fix i assume "i < length (overwrite (p + length as) bs (overwrite p as d))"
    with False show "overwrite (p + length as) bs (overwrite p as d) ! i = overwrite p (as @ bs) d ! i"
      by (subst nth_overwrite, simp)+ (auto simp: length_overwrite nth_overwrite nth_append split: if_splits)
  qed
qed auto

lemma overwrite_same [run_simps]:
  assumes "p + length bs \<le> length d" "bs = take (length bs) (drop p d)"
  shows "overwrite p bs d = d"
proof (rule nth_equalityI)
  fix i assume i: "i < length (overwrite p bs d)"
  with assms(1) have "i < length d" by (simp add: length_overwrite_le)
  moreover have "bs ! (i - p) = d ! i" if "p \<le> i" "i < p + length bs"
    using that assms(1) by (subst assms(2)) (simp add: add.commute less_diff_conv2)
  ultimately show "overwrite p bs d ! i = d ! i"
    using i by (simp add: nth_overwrite)
qed (simp add: length_overwrite_le assms(1))

end
