(* ===== verification/CStdio.thy ===== *)
theory CStdio
  imports Prelude
begin

text \<open>
  The part of the C library the patchers use: buffered streams
  (\<^verbatim>\<open>fread\<close>, \<^verbatim>\<open>fwrite\<close>, \<^verbatim>\<open>fgetc\<close>, \<^verbatim>\<open>fputc\<close>, \<^verbatim>\<open>fseek\<close>, \<^verbatim>\<open>ftell\<close>, \<^verbatim>\<open>feof\<close>)
  and a file system that maps paths to contents; two names are two files.  A stream carries the content
  of its file and \<open>fclose_to\<close> stores it back.  Whether a file can be open twice at the same time, and what the
  one stream then sees of the other, is left to the implementation by the C standard: where a program
  can be given one name twice, opening for writing empties the file for the stream that is already open
  (\<open>truncated\<close>), and a run that goes on to read what it writes has no result (\<open>Undef\<close>, \<open>Undefined\<close>), so
  that theorems about such a program assume different names.  Reading and writing an open stream never fails here (no full disk, no
  I/O error), every other failure the sources test for is a value.

  The two interfaces every patcher relies on, a byte source and a byte sink, are locales,
  interpreted on \<open>fread\<close> and \<open>fwrite\<close>.
\<close>

section \<open>Streams\<close>

record stream =
  sdata :: bytes
  spos :: nat
  seof :: bool

definition sopen :: "bytes \<Rightarrow> stream" where
  "sopen d = \<lparr>sdata = d, spos = 0, seof = False\<rparr>"

definition srest :: "stream \<Rightarrow> bytes" where
  "srest s = drop (spos s) (sdata s)"

text \<open>\<open>fread n s\<close>: up to \<open>n\<close> bytes; coming short sets the end-of-file flag.\<close>

definition fread :: "nat \<Rightarrow> stream \<Rightarrow> bytes \<times> stream" where
  "fread n s =
     (take n (srest s),
      s\<lparr>spos := spos s + min n (length (srest s)), seof := seof s \<or> length (srest s) < n\<rparr>)"

text \<open>
  \<open>fread_into buf n s\<close>: the same into a buffer that already has a content, of which a
  short read leaves the tail; the number of bytes read comes with it.
\<close>

definition fread_into :: "bytes \<Rightarrow> nat \<Rightarrow> stream \<Rightarrow> nat \<times> bytes \<times> stream" where
  "fread_into buf n s =
     (let (bs, s') = fread n s in (length bs, bs @ drop (length bs) buf, s'))"

definition fgetc :: "stream \<Rightarrow> int \<times> stream" where
  "fgetc s = (case srest s of
      [] \<Rightarrow> (-1, s\<lparr>seof := True\<rparr>)
    | b # _ \<Rightarrow> (uint b, s\<lparr>spos := Suc (spos s)\<rparr>))"

definition fwrite :: "bytes \<Rightarrow> stream \<Rightarrow> stream" where
  "fwrite bs s = s\<lparr>sdata := overwrite (spos s) bs (sdata s), spos := spos s + length bs\<rparr>"

definition fputc :: "byte \<Rightarrow> stream \<Rightarrow> stream" where
  "fputc b s = fwrite [b] s"

text \<open>A seek to a negative position is refused and changes nothing.\<close>

definition seek_to :: "int \<Rightarrow> stream \<Rightarrow> int \<times> stream" where
  "seek_to p s = (if p < 0 then (-1, s) else (0, s\<lparr>spos := nat p, seof := False\<rparr>))"

definition fseek_set :: "int \<Rightarrow> stream \<Rightarrow> int \<times> stream" where
  "fseek_set p s = seek_to p s"

definition fseek_cur :: "int \<Rightarrow> stream \<Rightarrow> int \<times> stream" where
  "fseek_cur p s = seek_to (int (spos s) + p) s"

definition fseek_end :: "int \<Rightarrow> stream \<Rightarrow> int \<times> stream" where
  "fseek_end p s = seek_to (int (length (sdata s)) + p) s"

text \<open>The result type is \<^verbatim>\<open>long\<close>, 32 bits wide on the targets: a larger position is an error.\<close>

definition ftell :: "stream \<Rightarrow> int" where
  "ftell s = (if spos s < 2 ^ 31 then int (spos s) else -1)"

text \<open>The 64-bit variant always has the position.\<close>

definition ftello64 :: "stream \<Rightarrow> int" where
  "ftello64 s = int (spos s)"

text \<open>The content of local variables no statement has set yet is arbitrary: a function from
  addresses to bytes is passed to the models that read such memory.\<close>

type_synonym memory = "nat \<Rightarrow> byte"

definition uninit :: "memory \<Rightarrow> nat \<Rightarrow> nat \<Rightarrow> bytes" where
  "uninit junk a n = map (\<lambda>i. junk (a + i)) [0..<n]"

section \<open>Files\<close>

record fsys =
  content :: "string \<Rightarrow> bytes option"
  writable :: "string \<Rightarrow> bool"

definition fopen_rb :: "string \<Rightarrow> fsys \<Rightarrow> stream option" where
  "fopen_rb p fs = map_option sopen (content fs p)"

definition fopen_rbp :: "string \<Rightarrow> fsys \<Rightarrow> stream option" where
  "fopen_rbp p fs = (if writable fs p then map_option sopen (content fs p) else None)"

definition put_file :: "string \<Rightarrow> bytes \<Rightarrow> fsys \<Rightarrow> fsys" where
  "put_file p d fs = fs\<lparr>content := (content fs)(p := Some d)\<rparr>"

definition fopen_wb :: "string \<Rightarrow> fsys \<Rightarrow> (stream \<times> fsys) option" where
  "fopen_wb p fs = (if writable fs p then Some (sopen [], put_file p [] fs) else None)"

text \<open>What a stream open on \<open>q\<close> without anything buffered is when \<open>p\<close> has been opened for writing.\<close>

definition truncated :: "string \<Rightarrow> string \<Rightarrow> stream \<Rightarrow> stream" where
  "truncated p q s = (if p = q then s\<lparr>sdata := []\<rparr> else s)"

definition fclose_to :: "string \<Rightarrow> stream \<Rightarrow> fsys \<Rightarrow> fsys" where
  "fclose_to p s fs = put_file p (sdata s) fs"

definition unlink :: "string \<Rightarrow> fsys \<Rightarrow> fsys" where
  "unlink p fs = fs\<lparr>content := (content fs)(p := None)\<rparr>"

section \<open>Basic facts\<close>

lemma stream_update_id [simp]: "s\<lparr>spos := spos s\<rparr> = s" "s\<lparr>sdata := sdata s\<rparr> = s" "s\<lparr>seof := seof s\<rparr> = s"
  by simp_all

lemma sdata_sopen [stdio_simps]: "sdata (sopen d) = d"
  and spos_sopen [stdio_simps]: "spos (sopen d) = 0"
  and seof_sopen [stdio_simps]: "seof (sopen d) = False"
  by (simp_all add: sopen_def)

lemma srest_sopen [stdio_simps]: "srest (sopen d) = d"
  by (simp add: srest_def stdio_simps)

lemma fread_0 [stdio_simps]: "fread 0 s = ([], s)"
  by (simp add: fread_def)

lemma sdata_fread [stdio_simps]: "sdata (snd (fread n s)) = sdata s"
  by (simp add: fread_def)

lemma fst_fread: "fst (fread n s) = take n (srest s)"
  by (simp add: fread_def)

lemma srest_fread: "srest (snd (fread n s)) = drop n (srest s)"
  by (auto simp: fread_def srest_def min_def add.commute)

lemma sdata_fwrite [stdio_simps]: "sdata (fwrite bs s) = overwrite (spos s) bs (sdata s)"
  and spos_fwrite [stdio_simps]: "spos (fwrite bs s) = spos s + length bs"
  and seof_fwrite [stdio_simps]: "seof (fwrite bs s) = seof s"
  by (simp_all add: fwrite_def)

lemma fwrite_Nil [stdio_simps]: "fwrite [] s = s"
  by (simp add: fwrite_def)

lemma fwrite_fwrite [stdio_simps]: "fwrite bs (fwrite as s) = fwrite (as @ bs) s"
  by (simp add: fwrite_def overwrite_append)

lemma fseek_set_nonneg [stdio_simps]:
  "0 \<le> p \<Longrightarrow> fseek_set p s = (0, s\<lparr>spos := nat p, seof := False\<rparr>)"
  by (simp add: fseek_set_def seek_to_def)

lemma fseek_set_neg [stdio_simps]: "p < 0 \<Longrightarrow> fseek_set p s = (-1, s)"
  by (simp add: fseek_set_def seek_to_def)

lemma fseek_end_0 [stdio_simps]:
  "fseek_end 0 s = (0, s\<lparr>spos := length (sdata s), seof := False\<rparr>)"
  by (simp add: fseek_end_def seek_to_def)

lemma truncated_other [stdio_simps]: "p \<noteq> q \<Longrightarrow> truncated p q s = s"
  by (simp add: truncated_def)

lemma truncated_same: "truncated p p s = s\<lparr>sdata := []\<rparr>"
  by (simp add: truncated_def)

lemma length_uninit [simp]: "length (uninit junk a n) = n"
  by (simp add: uninit_def)

lemma content_put_file [stdio_simps]:
  "content (put_file p d fs) q = (if q = p then Some d else content fs q)"
  by (simp add: put_file_def)

lemma writable_put_file [stdio_simps]: "writable (put_file p d fs) = writable fs"
  by (simp add: put_file_def)

lemma put_file_same: "content fs p = Some d \<Longrightarrow> put_file p d fs = fs"
  by (simp add: put_file_def fun_upd_idem)

lemma put_file_put_file [stdio_simps]: "put_file p d (put_file p d' fs) = put_file p d fs"
  by (simp add: put_file_def)

lemma unlink_put_file [stdio_simps]: "unlink p (put_file p d fs) = unlink p fs"
  by (simp add: put_file_def unlink_def)

section \<open>A source of bytes\<close>

text \<open>
  What a reader of a patch relies on: a read returns the next bytes of what is left and
  leaves what follows them.
\<close>

locale byte_source =
  fixes get :: "nat \<Rightarrow> 's \<Rightarrow> bytes \<times> 's"
    and rest :: "'s \<Rightarrow> bytes"
  assumes get_data: "fst (get n s) = take n (rest s)"
    and get_rest: "rest (snd (get n s)) = drop n (rest s)"
begin

lemma get_field:
  assumes "rest s = xs @ ys" "length xs = n"
  shows "fst (get n s) = xs" and "rest (snd (get n s)) = ys"
  using assms by (auto simp: get_data get_rest)

lemma get_fieldE:
  assumes "rest s = xs @ ys" "length xs = n"
  obtains s' where "get n s = (xs, s')" "rest s' = ys"
  using get_field [OF assms] by (metis prod.collapse)

lemma get_short:
  assumes "length (rest s) < n"
  shows "fst (get n s) = rest s" and "rest (snd (get n s)) = []"
  using assms by (auto simp: get_data get_rest)

lemma get_split:
  "fst (get (m + n) s) = fst (get m s) @ fst (get n (snd (get m s)))"
  by (simp add: get_data get_rest take_add)

end

interpretation src: byte_source fread srest
  by unfold_locales (simp_all add: fst_fread srest_fread)

section \<open>A sink of bytes\<close>

text \<open>
  What a writer relies on: a write replaces the stretch of the file at the position and
  moves behind it.  Writing byte by byte is then the same as writing the whole list.
\<close>

locale byte_sink =
  fixes put :: "bytes \<Rightarrow> 's \<Rightarrow> 's"
    and image :: "'s \<Rightarrow> bytes"
    and pos :: "'s \<Rightarrow> nat"
  assumes image_put: "image (put bs s) = overwrite (pos s) bs (image s)"
    and pos_put: "pos (put bs s) = pos s + length bs"
begin

lemma image_put_put: "image (put bs (put as s)) = image (put (as @ bs) s)"
  by (simp add: image_put pos_put overwrite_append)

lemma pos_fold_put: "pos (fold (\<lambda>b. put [b]) bs s) = pos s + length bs"
  by (induction bs arbitrary: s) (simp_all add: pos_put)

lemma image_fold_put: "image (fold (\<lambda>b. put [b]) bs s) = overwrite (pos s) bs (image s)"
proof (induction bs arbitrary: s)
  case (Cons b bs)
  have "image (fold (\<lambda>b. put [b]) (b # bs) s) = overwrite (pos s + length [b]) bs (overwrite (pos s) [b] (image s))"
    by (simp add: Cons.IH image_put pos_put)
  then show ?case
    by (simp only: overwrite_append append_Cons append_Nil)
qed simp

lemma image_put_at_end:
  "pos s = length (image s) \<Longrightarrow> image (put bs s) = image s @ bs"
  by (simp add: image_put overwrite_at_end)

end

interpretation snk: byte_sink fwrite sdata spos
  by unfold_locales (simp_all add: stdio_simps)

text \<open>Repeated \<open>fputc\<close> of one byte, the run-length loops of the patchers.\<close>

primrec fputc_times :: "nat \<Rightarrow> byte \<Rightarrow> stream \<Rightarrow> stream" where
  "fputc_times 0 b s = s"
| "fputc_times (Suc n) b s = fputc_times n b (fputc b s)"

lemma fputc_times_fwrite [stdio_simps]: "fputc_times n b s = fwrite (replicate n b) s"
  by (induction n arbitrary: s) (simp_all add: fputc_def stdio_simps)

section \<open>Fields read in sequence\<close>

text \<open>The form in which the readers below consume a stream: the expected field is known to
  stand at the front of what is left.\<close>

definition advance :: "nat \<Rightarrow> stream \<Rightarrow> stream" where
  "advance n s = s\<lparr>spos := spos s + n\<rparr>"

lemma advance_0 [stdio_simps]: "advance 0 s = s"
  by (simp add: advance_def)

lemma advance_advance [stdio_simps]: "advance m (advance n s) = advance (n + m) s"
  by (simp add: advance_def add.assoc)

lemma srest_advance [stdio_simps]: "srest (advance n s) = drop n (srest s)"
  by (simp add: advance_def srest_def add.commute)

lemma sdata_advance [stdio_simps]: "sdata (advance n s) = sdata s"
  and spos_advance [stdio_simps]: "spos (advance n s) = spos s + n"
  and seof_advance [stdio_simps]: "seof (advance n s) = seof s"
  by (simp_all add: advance_def)

lemma fread_enough:
  "n \<le> length (srest s) \<Longrightarrow> fread n s = (take n (srest s), advance n s)"
  by (auto simp: fread_def advance_def)

lemma fread_front:
  "srest s = xs @ ys \<Longrightarrow> length xs = n \<Longrightarrow> fread n s = (xs, advance n s)"
  by (auto simp: fread_enough)

lemma fread_into_enough:
  "n \<le> length (srest s) \<Longrightarrow>
     fread_into buf n s = (n, take n (srest s) @ drop n buf, advance n s)"
  by (simp add: fread_into_def fread_enough)

lemma fread_into_front:
  "srest s = xs @ ys \<Longrightarrow> length xs = n \<Longrightarrow> fread_into buf n s = (n, xs @ drop n buf, advance n s)"
  by (auto simp: fread_into_enough)

lemma fread_into_empty:
  "srest s = [] \<Longrightarrow> 0 < n \<Longrightarrow> fread_into buf n s = (0, buf, s\<lparr>seof := True\<rparr>)"
  by (simp add: fread_into_def fread_def)

lemma fgetc_front: "srest s = b # ys \<Longrightarrow> fgetc s = (uint b, advance 1 s)"
  by (simp add: fgetc_def advance_def)

lemma fgetc_empty: "srest s = [] \<Longrightarrow> fgetc s = (-1, s\<lparr>seof := True\<rparr>)"
  by (simp add: fgetc_def)

lemma length_fread_into_buf:
  "n \<le> length buf \<Longrightarrow> length (fst (snd (fread_into buf n s))) = length buf"
  by (auto simp: fread_into_def fread_def)

lemma fread_eq_lengths:
  assumes "fread n s = (b, s')"
  shows "length (srest s') = length (srest s) - n \<and> length b = min n (length (srest s))"
  using assms srest_fread [of n s] fst_fread [of n s] by auto

lemma fread_into_eq_le:
  assumes "fread_into buf n s = (k, b, s')"
  shows "length (srest s') \<le> length (srest s)"
  using assms srest_fread [of n s] by (auto simp: fread_into_def split: prod.splits)


lemma fread_into_eq_lengths:
  assumes "fread_into buf n s = (k, b, s')"
  shows "k = min n (length (srest s)) \<and> length (srest s') = length (srest s) - n"
  using assms fread_eq_lengths [of n s] by (auto simp: fread_into_def split: prod.splits)

lemma fread_into_at:
  assumes "p + n \<le> length (sdata s)"
  shows "fread_into buf n (s\<lparr>spos := p, seof := e\<rparr>)
    = (n, take n (drop p (sdata s)) @ drop n buf, s\<lparr>spos := p + n, seof := e\<rparr>)"
  proof -
  have "\<not> length (sdata s) - p < n" using assms by arith
  then show ?thesis using assms by (simp add: fread_into_def fread_def srest_def)
qed

lemma fread_into_sopen:
  "n \<le> length d \<Longrightarrow> fread_into buf n (sopen d) = (n, take n d @ drop n buf, (sopen d)\<lparr>spos := n\<rparr>)"
  using fread_into_at [of 0 n "sopen d" buf False] by (simp add: sopen_def)

lemma sopen_rewind: "(sopen d)\<lparr>spos := 0, seof := False\<rparr> = sopen d"
  by (simp add: sopen_def)

lemma fread_into_one: "srest s = b # ys \<Longrightarrow> fread_into buf 1 s = (1, b # drop 1 buf, advance 1 s)"
  using fread_into_front [of s "[b]" ys 1 buf] by simp

lemma srest_fseek_cur: "srest (snd (fseek_cur (int n) q)) = drop n (srest q)"
  by (simp add: fseek_cur_def seek_to_def srest_def nat_int_add add.commute)

lemma fseek_end_back:
  "k \<le> length (sdata s) \<Longrightarrow> fseek_end (- int k) s = (0, s\<lparr>spos := length (sdata s) - k, seof := False\<rparr>)"
  by (simp add: fseek_end_def seek_to_def nat_minus_as_int)

section \<open>Loops that end at the end of the file\<close>

text \<open>What is left to read, counting the end-of-file flag.\<close>

definition chars_left :: "stream \<Rightarrow> nat" where
  "chars_left s = (if seof s then 0 else Suc (length (srest s)))"

lemma chars_left_fgetc: "\<not> seof s \<Longrightarrow> chars_left (snd (fgetc s)) < chars_left s"
  by (cases "srest s") (auto simp: fgetc_def chars_left_def srest_def drop_Suc tl_drop [symmetric])

lemma chars_left_fgetc_le: "chars_left (snd (fgetc s)) \<le> chars_left s"
  using chars_left_fgetc [of s] by (cases "seof s") (auto simp: fgetc_def chars_left_def split: list.split)

lemma chars_left_fread_into: "chars_left (snd (snd (fread_into buf n s))) \<le> chars_left s"
  by (auto simp: fread_into_def fread_def chars_left_def srest_def)

end
