(* ===== verification/Runs.thy ===== *)
theory Runs
  imports CStdio
begin

text \<open>
  What a binary patch means: a list of runs, each a position and the bytes to put there.
  The formats IPS, APS, PPF, DPS and XPC all denote such lists.  The locale
  \<open>run_differ\<close> is the contract of a patch maker: its runs agree with the new file and cover
  every position where the files differ; then applying them to the old file gives the new one.
\<close>

type_synonym run = "nat \<times> bytes"

fun apply_run :: "run \<Rightarrow> bytes \<Rightarrow> bytes" where
  "apply_run (p, bs) d = overwrite p bs d"

definition apply_runs :: "run list \<Rightarrow> bytes \<Rightarrow> bytes" where
  "apply_runs rs d = fold apply_run rs d"

definition run_ok :: "bytes \<Rightarrow> run \<Rightarrow> bool" where
  "run_ok new r \<longleftrightarrow> fst r + length (snd r) \<le> length new
     \<and> snd r = take (length (snd r)) (drop (fst r) new)"

definition covered :: "run list \<Rightarrow> nat \<Rightarrow> bool" where
  "covered rs i \<longleftrightarrow> list_ex (\<lambda>r. fst r \<le> i \<and> i < fst r + length (snd r)) rs"

lemma apply_runs_Nil [run_simps]: "apply_runs [] d = d"
  and apply_runs_Cons [run_simps]: "apply_runs (r # rs) d = apply_runs rs (apply_run r d)"
  by (simp_all add: apply_runs_def)

lemma apply_runs_append [run_simps]:
  "apply_runs (rs @ rs') d = apply_runs rs' (apply_runs rs d)"
  by (simp add: apply_runs_def)

lemma covered_simps [run_simps]:
  "covered [] i \<longleftrightarrow> False"
  "covered (r # rs) i \<longleftrightarrow> (fst r \<le> i \<and> i < fst r + length (snd r)) \<or> covered rs i"
  "covered (rs @ rs') i \<longleftrightarrow> covered rs i \<or> covered rs' i"
  by (auto simp: covered_def)

lemma length_apply_run_ok:
  "run_ok new r \<Longrightarrow> length d = length new \<Longrightarrow> length (apply_run r d) = length new"
  by (cases r) (auto simp: run_ok_def length_overwrite)

lemma nth_apply_run_ok:
  assumes "run_ok new r" "length d = length new" "i < length new"
  shows "apply_run r d ! i = (if fst r \<le> i \<and> i < fst r + length (snd r) then new ! i else d ! i)"
proof -
  obtain p bs where r: "r = (p, bs)" by (cases r)
  have bs: "bs ! (i - p) = new ! i" if "p \<le> i" "i < p + length bs"
  proof -
    from assms(1) r have "bs = take (length bs) (drop p new)" by (simp add: run_ok_def)
    then have "bs ! (i - p) = take (length bs) (drop p new) ! (i - p)" by simp
    also have "\<dots> = new ! i" using that assms(3) by (simp add: less_diff_conv2 add.commute)
    finally show ?thesis .
  qed
  have "i < length (overwrite p bs d)"
    using assms r by (auto simp: length_overwrite less_max_iff_disj)
  then show ?thesis
    using assms bs by (simp add: r nth_overwrite)
qed

lemma apply_runs_ok:
  assumes "\<forall>r \<in> set rs. run_ok new r" "length d = length new"
  shows "length (apply_runs rs d) = length new"
    and "i < length new \<Longrightarrow> apply_runs rs d ! i = (if covered rs i then new ! i else d ! i)"
  using assms
proof (induction rs arbitrary: d)
  case Nil
  { case 1 then show ?case by (simp add: run_simps) }
  { case 2 then show ?case by (simp add: run_simps) }
next
  case (Cons r rs)
  { case 1 with Cons.IH(1) [of "apply_run r d"] show ?case
      by (simp add: run_simps length_apply_run_ok) }
  { case 2 with Cons.IH(2) [of "apply_run r d"] show ?case
      by (auto simp: run_simps length_apply_run_ok nth_apply_run_ok [of new]) }
qed

lemma apply_runs_cover:
  assumes "\<forall>r \<in> set rs. run_ok new r" "length d = length new"
    and "\<And>i. i < length new \<Longrightarrow> d ! i \<noteq> new ! i \<Longrightarrow> covered rs i"
  shows "apply_runs rs d = new"
proof (rule nth_equalityI)
  show "length (apply_runs rs d) = length new"
    using assms by (simp add: apply_runs_ok)
  fix i assume "i < length (apply_runs rs d)"
  with assms show "apply_runs rs d ! i = new ! i"
    by (auto simp: apply_runs_ok)
qed

text \<open>Runs that agree with the new file, have a length that fits a byte, and cover the differences in a
  range of positions: what the makers establish range by range.\<close>

definition diff_runs :: "bytes \<Rightarrow> bytes \<Rightarrow> nat \<Rightarrow> nat \<Rightarrow> run list \<Rightarrow> bool" where
  "diff_runs old new lo hi rs \<longleftrightarrow>
     (\<forall>r \<in> set rs. run_ok new r \<and> 0 < length (snd r) \<and> length (snd r) < 256)
     \<and> (\<forall>j. lo \<le> j \<longrightarrow> j < hi \<longrightarrow> old ! j \<noteq> new ! j \<longrightarrow> covered rs j)"

lemma diff_runs_append:
  "diff_runs old new lo mid rs \<Longrightarrow> diff_runs old new mid hi rs' \<Longrightarrow> diff_runs old new lo hi (rs @ rs')"
  unfolding diff_runs_def by (auto simp: run_simps not_le)

lemma diff_runs_single:
  assumes "run_ok new (lo, bs)" "bs \<noteq> []" "length bs < 256" "hi \<le> lo + length bs"
  shows "diff_runs old new lo hi [(lo, bs)]"
  using assms unfolding diff_runs_def by (auto simp: run_simps)

lemma run_ok_slice:
  assumes "\<forall>j < n. N ! j = new ! (p + j)" "n \<le> length N" "k + l \<le> n" "p + n \<le> length new"
  shows "run_ok new (p + k, take l (drop k N))"
proof -
  have "take l (drop k N) = take l (drop (p + k) new)"
    using assms by (intro nth_equalityI) (auto simp: add.assoc)
  then show ?thesis using assms by (simp add: run_ok_def)
qed

lemma diff_runs_Nil: "(\<And>j. lo \<le> j \<Longrightarrow> j < hi \<Longrightarrow> old ! j = new ! j) \<Longrightarrow> diff_runs old new lo hi []"
  by (auto simp: diff_runs_def)

lemma diff_runs_one: "old ! p = new ! p \<Longrightarrow> diff_runs old new p (Suc p) []"
  by (rule diff_runs_Nil) (metis le_less_Suc_eq)

locale run_differ =
  fixes runs :: "bytes \<Rightarrow> bytes \<Rightarrow> run list"
  assumes runs_ok: "length old = length new \<Longrightarrow> r \<in> set (runs old new) \<Longrightarrow> run_ok new r"
    and runs_cover: "length old = length new \<Longrightarrow> i < length new \<Longrightarrow> old ! i \<noteq> new ! i
      \<Longrightarrow> covered (runs old new) i"
begin

lemma differ_correct: "length old = length new \<Longrightarrow> apply_runs (runs old new) old = new"
  by (rule apply_runs_cover) (auto intro: runs_ok runs_cover)

lemma differ_idem:
  "length old = length new \<Longrightarrow> apply_runs (runs old new) new = new"
  by (rule apply_runs_cover) (auto intro: runs_ok)

end

section \<open>Loops over encoded records\<close>

text \<open>
  The patch loops all have one shape: the unread part of the patch starts with the encoding of
  an item, one round consumes it and applies its run to the ROM.  \<open>view p d ys\<close> reads: in
  state \<open>p\<close> the ROM holds \<open>d\<close> and \<open>ys\<close> is left of the patch.  What a whole list of items does
  follows once for all formats.
\<close>

locale record_loop =
  fixes loop :: "'p \<Rightarrow> 'r"
    and view :: "'p \<Rightarrow> bytes \<Rightarrow> bytes \<Rightarrow> bool"
    and enc :: "'i \<Rightarrow> bytes"
    and ok :: "'i \<Rightarrow> bool"
    and run_of :: "'i \<Rightarrow> run"
  assumes loop_item: "view p d (enc it @ ys) \<Longrightarrow> ok it
    \<Longrightarrow> \<exists>p'. loop p = loop p' \<and> view p' (apply_run (run_of it) d) ys"
begin

lemma loop_items:
  assumes "view p d (concat (map enc its) @ ys)" "list_all ok its"
  shows "\<exists>p'. loop p = loop p' \<and> view p' (apply_runs (map run_of its) d) ys"
  using assms
proof (induction its arbitrary: p d)
  case Nil
  then show ?case by (auto simp: run_simps)
next
  case (Cons it its)
  from loop_item [of p d it "concat (map enc its) @ ys"] Cons.prems
  obtain p1 where "loop p = loop p1" "view p1 (apply_run (run_of it) d) (concat (map enc its) @ ys)"
    by auto
  with Cons.IH [of p1] Cons.prems show ?case by (auto simp: run_simps)
qed

end

section \<open>Runs written through a stream\<close>

text \<open>Seeking to a run's position and writing its bytes is applying the run to the content.\<close>

lemma fwrite_at_run:
  "sdata (fwrite bs (s\<lparr>spos := p, seof := e\<rparr>)) = apply_run (p, bs) (sdata s)"
  by (simp add: stdio_simps)

end
