(* ===== verification/Ips.thy ===== *)
theory Ips
  imports Runs
begin

text \<open>
  The IPS patcher, \<^verbatim>\<open>jni/ipspatcher/ips.c\<close> and the loop of
  \<^verbatim>\<open>jni/ipspatcher/nativelink.c\<close>: opening the patch and the ROM, the backup copy, reading and
  processing one record, the patch loop.  The abstract meaning of a patch is a list of items;
  the theorems show that a well-formed file drives the code to exactly that meaning, what a
  truncated file does, and how the loop ends.
\<close>

section \<open>Model\<close>

abbreviation IPS_OK :: int where "IPS_OK \<equiv> 1"
abbreviation IPS_ERROR :: int where "IPS_ERROR \<equiv> -1"
abbreviation IPS_ERROR_FILE_TYPE :: int where "IPS_ERROR_FILE_TYPE \<equiv> -2"
abbreviation IPS_ERROR_OPEN :: int where "IPS_ERROR_OPEN \<equiv> -3"
abbreviation IPS_ERROR_READ :: int where "IPS_ERROR_READ \<equiv> -5"
abbreviation IPS_PATCH_END :: int where "IPS_PATCH_END \<equiv> 0"

record IPSRecord =
  rec_offset :: u32
  rec_size :: u16
  rleData :: byte

definition IPS_RECORD_OFFSET :: "IPSRecord \<Rightarrow> u32" where
  "IPS_RECORD_OFFSET r = rec_offset r AND 0x00ffffff"

definition IPS_RECORD_INFO :: "IPSRecord \<Rightarrow> u32" where
  "IPS_RECORD_INFO r = drop_bit 24 (rec_offset r) AND 0xff"

definition IPS_RECORD_RLE :: u32 where
  "IPS_RECORD_RLE = 1"

text \<open>A \<^verbatim>\<open>FILE *\<close> that may be \<^verbatim>\<open>NULL\<close> is an option; the ROM's carries the path it is written back to.\<close>

record IPSPatch =
  rom :: "(string \<times> stream) option"
  romSize :: u32
  patch :: "stream option"
  ips_record :: IPSRecord

definition IPSReset :: "IPSPatch \<Rightarrow> IPSPatch" where
  "IPSReset ips = ips\<lparr>patch := None, rom := None, romSize := 0,
     ips_record := \<lparr>rec_offset = 0, rec_size = 0, rleData = 0\<rparr>\<rparr>"

definition IPSOpenPatch :: "IPSPatch \<Rightarrow> string \<Rightarrow> fsys \<Rightarrow> int \<times> IPSPatch" where
  "IPSOpenPatch ips fileName fs =
     (case fopen_rb fileName fs of
        None \<Rightarrow> (IPS_ERROR, ips\<lparr>patch := None\<rparr>)
      | Some f0 \<Rightarrow>
          let (_, f1) = fseek_set 0 f0;
              (header, f2) = fread 5 f1;
              ips' = ips\<lparr>patch := Some f2\<rparr>
          in if length header \<noteq> 5 then (IPS_ERROR_FILE_TYPE, ips')
             else if header ! 0 \<noteq> 0x50 \<or> header ! 1 \<noteq> 0x41 \<or> header ! 2 \<noteq> 0x54 \<or>
                     header ! 3 \<noteq> 0x43 \<or> header ! 4 \<noteq> 0x48
             then (IPS_ERROR_FILE_TYPE, ips')
             else (IPS_OK, ips'))"

text \<open>The name of the backup: the first 512 characters of the path and \<^verbatim>\<open>.bak\<close>.\<close>

definition backupFileName :: "string \<Rightarrow> string" where
  "backupFileName romName = take 512 romName @ ''.bak''"

text \<open>The copy loop; \<open>None\<close> when a read makes no progress, in which case the loop would not end.\<close>

function copy_rom :: "nat \<Rightarrow> nat \<Rightarrow> stream \<Rightarrow> stream \<Rightarrow> (stream \<times> stream) option" where
  "copy_rom n nTotal r backup =
     (if nTotal < n then
        let (buffer, r') = fread 256 r;
            nRead = length buffer;
            backup' = fwrite buffer backup
        in if nRead = 0 then None else copy_rom n (nTotal + nRead) r' backup'
      else Some (r, backup))"
  by pat_completeness auto
termination
  by (relation "measure (\<lambda>(n, t, _). n - t)") (auto simp flip: length_greater_0_conv)

declare copy_rom.simps [simp del]

definition IPSOpenInOUT ::
  "IPSPatch \<Rightarrow> string option \<Rightarrow> fsys \<Rightarrow> (int \<times> IPSPatch \<times> fsys) option" where
  "IPSOpenInOUT ips romName_opt fs =
     (case romName_opt of None \<Rightarrow> Some (IPS_ERROR, ips, fs) | Some romName \<Rightarrow>
     (case fopen_rbp romName fs of
        None \<Rightarrow> Some (IPS_ERROR, ips\<lparr>rom := None\<rparr>, fs)
      | Some r0 \<Rightarrow>
          let (_, r1) = fseek_end 0 r0;
              nTotal = ftell r1;
              (_, r2) = fseek_set 0 r1;
              nTotal = nTotal - ftell r2;
              ips' = ips\<lparr>rom := Some (romName, r2), romSize := word_of_int nTotal\<rparr>
          in if nTotal \<le> 0 then Some (IPS_ERROR, ips', fs)
             else (case fopen_wb (backupFileName romName) fs of
                 None \<Rightarrow> Some (IPS_ERROR, ips', fs)
               | Some (b0, fs1) \<Rightarrow>
                   let (_, b1) = fseek_set 0 b0;
                       r2 = truncated (backupFileName romName) romName r2
                   in
                   (case copy_rom (unat (romSize ips')) 0 r2 b1 of
                      None \<Rightarrow> None
                    | Some (r3, b2) \<Rightarrow>
                        let fs2 = fclose_to (backupFileName romName) b2 fs1;
                            (_, r4) = fseek_set 0 r3
                        in Some (IPS_OK, ips'\<lparr>rom := Some (romName, r4)\<rparr>, fs2)))))"

definition IPSClose :: "IPSPatch \<Rightarrow> fsys \<Rightarrow> IPSPatch \<times> fsys" where
  "IPSClose ips fs =
     (let (ips1, fs1) = (case rom ips of
            None \<Rightarrow> (ips, fs)
          | Some (p, s) \<Rightarrow> (ips\<lparr>rom := None\<rparr>, fclose_to p s fs))
      in (case patch ips1 of None \<Rightarrow> (ips1, fs1) | Some _ \<Rightarrow> (ips1\<lparr>patch := None\<rparr>, fs1)))"

definition IPSOpen ::
  "IPSPatch \<Rightarrow> string \<Rightarrow> string option \<Rightarrow> fsys \<Rightarrow> (int \<times> IPSPatch \<times> fsys) option" where
  "IPSOpen ips patchName romName fs =
     (let ips0 = ips\<lparr>patch := None, rom := None, romSize := 0,
            ips_record := (ips_record ips)\<lparr>rec_offset := 0, rec_size := 0\<rparr>\<rparr>;
          (err, ips1) = IPSOpenPatch ips0 patchName fs
      in if err \<noteq> IPS_OK then
           (let (ips2, fs2) = IPSClose ips1 fs in Some (IPS_ERROR_OPEN, ips2, fs2))
         else (case IPSOpenInOUT ips1 romName fs of
             None \<Rightarrow> None
           | Some (err, ips2, fs2) \<Rightarrow>
               if err \<noteq> IPS_OK then
                 (let (ips3, fs3) = IPSClose ips2 fs2 in Some (IPS_ERROR_OPEN, ips3, fs3))
               else Some (IPS_OK, ips2, fs2)))"

definition IPSReadRecord :: "IPSPatch \<Rightarrow> (int \<times> IPSPatch) cresult" where
  "IPSReadRecord ips =
     (case patch ips of None \<Rightarrow> Undef | Some f0 \<Rightarrow>
      let (b, f1) = fread 3 f0; ips1 = ips\<lparr>patch := Some f1\<rparr> in
      if length b < 3 then Ret (IPS_ERROR_READ, ips1)
      else if b ! 0 = 0x45 \<and> b ! 1 = 0x4F \<and> b ! 2 = 0x46 then Ret (IPS_PATCH_END, ips1)
      else
        let r1 = (ips_record ips)\<lparr>rec_offset :=
              push_bit 16 (ucast (b ! 0)) OR push_bit 8 (ucast (b ! 1)) OR ucast (b ! 2)\<rparr>;
            (c, f2) = fread 2 f1 in
        if length c < 2 then Ret (IPS_ERROR_READ, ips\<lparr>patch := Some f2, ips_record := r1\<rparr>)
        else
          let r2 = r1\<lparr>rec_size := push_bit 8 (ucast (c ! 0)) OR ucast (c ! 1)\<rparr> in
          if rec_size r2 = 0 then
            let r3 = r2\<lparr>rec_offset := rec_offset r2 OR push_bit 24 IPS_RECORD_RLE\<rparr>;
                (d, f3) = fread 2 f2 in
            if length d < 2 then Ret (IPS_ERROR_READ, ips\<lparr>patch := Some f3, ips_record := r3\<rparr>)
            else
              let r4 = r3\<lparr>rec_size := push_bit 8 (ucast (d ! 0)) OR ucast (d ! 1)\<rparr>;
                  (n, e, f4) = fread_into [rleData r4] 1 f3;
                  r5 = r4\<lparr>rleData := e ! 0\<rparr> in
              if n < 1 then Ret (IPS_ERROR_READ, ips\<lparr>patch := Some f4, ips_record := r5\<rparr>)
              else Ret (IPS_OK, ips\<lparr>patch := Some f4, ips_record := r5\<rparr>)
          else Ret (IPS_OK, ips\<lparr>patch := Some f2, ips_record := r2\<rparr>))"

text \<open>The byte-wise copy of a record's data; a failing read leaves the old value of \<^verbatim>\<open>byte\<close>.\<close>

fun copy_bytes :: "nat \<Rightarrow> byte \<Rightarrow> stream \<Rightarrow> stream \<Rightarrow> stream \<times> stream" where
  "copy_bytes 0 b p r = (p, r)"
| "copy_bytes (Suc n) b p r =
     (let (_, buf, p') = fread_into [b] 1 p in copy_bytes n (buf ! 0) p' (fwrite [buf ! 0] r))"

text \<open>The bookkeeping of the ROM's size before and after the data is written.\<close>

definition grow_romSize :: "u32 \<Rightarrow> u32 \<Rightarrow> u32 \<Rightarrow> u32" where
  "grow_romSize offset sz rs =
     (let rs1 = (if offset > rs then rs + sz else rs)
      in if offset + sz > rs1 then rs1 + sz else rs1)"

definition IPSProcessRecord :: "memory \<Rightarrow> IPSPatch \<Rightarrow> (int \<times> IPSPatch) cresult" where
  "IPSProcessRecord junk ips =
     (case (patch ips, rom ips) of
        (Some p, Some (path, r)) \<Rightarrow>
          let rc = ips_record ips;
              size = ucast (rec_size rc) :: u32;
              offset = IPS_RECORD_OFFSET rc;
              (_, r1) = fseek_set (uint offset) r;
              (p2, r2) = (if IPS_RECORD_INFO rc = IPS_RECORD_RLE
                then (p, fputc_times (unat size) (rleData rc) r1)
                else copy_bytes (unat size) (junk 0) p r1)
          in Ret (IPS_OK, ips\<lparr>patch := Some p2, rom := Some (path, r2),
               romSize := grow_romSize offset size (romSize ips)\<rparr>)
      | _ \<Rightarrow> Undef)"

section \<open>Reading consumes the patch\<close>

definition left :: "IPSPatch \<Rightarrow> nat" where
  "left ips = (case patch ips of None \<Rightarrow> 0 | Some f \<Rightarrow> length (srest f))"

lemma IPSReadRecord_shrinks:
  assumes "IPSReadRecord ips = Ret (e, ips')" "e = IPS_OK"
  shows "left ips' < left ips"
  using assms
  by (auto simp: IPSReadRecord_def left_def Let_def split: option.splits prod.splits if_splits
      dest!: fread_eq_lengths fread_into_eq_le)

lemma copy_bytes_left: "length (srest (fst (copy_bytes n b p r))) \<le> length (srest p)"
proof (induction n b p r rule: copy_bytes.induct)
  case (2 n b p r)
  obtain k buf p' where f: "fread_into [b] 1 p = (k, buf, p')" by (metis prod_cases3)
  have "length (srest p') \<le> length (srest p)" using f by (rule fread_into_eq_le)
  moreover have "length (srest (fst (copy_bytes n (buf ! 0) p' (fwrite [buf ! 0] r)))) \<le> length (srest p')"
    using 2 f by simp
  ultimately show ?case using f by simp
qed simp

lemma IPSProcessRecord_left:
  assumes "IPSProcessRecord junk ips = Ret (e, ips')"
  shows "left ips' \<le> left ips"
  using assms copy_bytes_left
  by (auto simp: IPSProcessRecord_def left_def Let_def split: option.splits prod.splits if_splits)
     (metis fst_conv)+

section \<open>The patch loop\<close>

function ips_loop :: "memory \<Rightarrow> IPSPatch \<Rightarrow> (int \<times> IPSPatch) cresult" where
  "ips_loop junk ips =
     (case IPSReadRecord ips of
        Ret (err, ips1) \<Rightarrow>
          if err = IPS_OK then
            (case IPSProcessRecord junk ips1 of
               Ret (err2, ips2) \<Rightarrow> if err2 = IPS_OK then ips_loop junk ips2 else Ret (err2, ips2)
             | Exit n \<Rightarrow> Exit n
             | Undef \<Rightarrow> Undef)
          else Ret (err, ips1)
      | Exit n \<Rightarrow> Exit n
      | Undef \<Rightarrow> Undef)"
  by pat_completeness auto
termination
proof (relation "measure (\<lambda>(_, ips). left ips)", goal_cases)
  case (2 junk ips x err ips1 y err2 ips2)
  then show ?case
    using IPSReadRecord_shrinks [of ips err ips1] IPSProcessRecord_left [of junk ips1 err2 ips2]
    by simp
qed simp

declare ips_loop.simps [simp del]

text \<open>The native entry point: \<open>None\<close> when the backup loop does not end, as when the ROM is its own backup;
  \<open>Undef\<close> when the patch is one of the files that are written while it is read.\<close>

definition ipsPatchRom :: "memory \<Rightarrow> IPSPatch \<Rightarrow> string \<Rightarrow> string \<Rightarrow> fsys \<Rightarrow> (int \<times> fsys) cresult option" where
  "ipsPatchRom junk patch0 romPath patchPath fs =
     (case IPSOpen (IPSReset patch0) patchPath (Some romPath) fs of
        None \<Rightarrow> None
      | Some (err, ips1, fs1) \<Rightarrow>
          if err = IPS_OK then
            (if patchPath = romPath \<or> patchPath = backupFileName romPath then Some Undef
             else case ips_loop junk ips1 of
               Ret (err2, ips2) \<Rightarrow>
                 let (ips3, fs2) = IPSClose ips2 fs1; (ips4, fs3) = IPSClose ips3 fs2
                 in Some (Ret (err2, fs3))
             | Exit n \<Rightarrow> Some (Exit n)
             | Undef \<Rightarrow> Some Undef)
          else Some (Ret (err, fs1)))"

section \<open>The meaning of an IPS file\<close>

text \<open>A patch is a list of items: bytes to put at a position, or one byte to repeat there.\<close>

datatype ips_item = IData nat bytes | IRle nat nat byte

fun ips_enc :: "ips_item \<Rightarrow> bytes" where
  "ips_enc (IData off bs) = be_bytes 3 off @ be_bytes 2 (length bs) @ bs"
| "ips_enc (IRle off n b) = be_bytes 3 off @ [0, 0] @ be_bytes 2 n @ [b]"

fun ips_run :: "ips_item \<Rightarrow> run" where
  "ips_run (IData off bs) = (off, bs)"
| "ips_run (IRle off n b) = (off, replicate n b)"

fun ips_item_ok :: "ips_item \<Rightarrow> bool" where
  "ips_item_ok (IData off bs) \<longleftrightarrow> off < 2 ^ 24 \<and> off \<noteq> 0x454F46 \<and> 0 < length bs \<and> length bs < 2 ^ 16"
| "ips_item_ok (IRle off n b) \<longleftrightarrow> off < 2 ^ 24 \<and> off \<noteq> 0x454F46 \<and> n < 2 ^ 16"

lemma be_val_EOF: "length b = 3 \<Longrightarrow> b ! 0 = 0x45 \<and> b ! 1 = 0x4F \<and> b ! 2 = 0x46 \<Longrightarrow> be_val b = 0x454F46"
  using list_eq_nth3 [of b] by (simp add: be_val_def)

lemma IPSReadRecord_data:
  assumes "patch ips = Some f" "srest f = ips_enc (IData off bs) @ ys" "ips_item_ok (IData off bs)"
  shows "IPSReadRecord ips = Ret (IPS_OK, ips\<lparr>patch := Some (advance 5 f),
    ips_record := (ips_record ips)\<lparr>rec_offset := of_nat off, rec_size := of_nat (length bs)\<rparr>\<rparr>)"
proof -
  have f1: "fread 3 f = (be_bytes 3 off, advance 3 f)"
    using assms(2) by (intro fread_front) auto
  have f2: "fread 2 (advance 3 f) = (be_bytes 2 (length bs), advance 2 (advance 3 f))"
    using assms(2) by (intro fread_front) (auto simp: stdio_simps)
  have n: "\<not> (be_bytes 3 off ! 0 = 0x45 \<and> be_bytes 3 off ! 1 = 0x4F \<and> be_bytes 3 off ! 2 = 0x46)"
    using be_val_EOF [of "be_bytes 3 off"] assms(3) by (auto simp: codec_simps)
  have z: "(of_nat (length bs) :: u16) \<noteq> 0"
    using assms(3) by (intro word_of_nat_neq_0) auto
  show ?thesis
    unfolding IPSReadRecord_def
    using n z assms(3) by (simp add: assms(1) f1 f2 codec_simps advance_advance Let_def)
qed

lemma IPSReadRecord_rle:
  assumes "patch ips = Some f" "srest f = ips_enc (IRle off n b) @ ys" "ips_item_ok (IRle off n b)"
  shows "IPSReadRecord ips = Ret (IPS_OK, ips\<lparr>patch := Some (advance 8 f),
    ips_record := \<lparr>rec_offset = of_nat (off + 2 ^ 24), rec_size = of_nat n, rleData = b\<rparr>\<rparr>)"
proof -
  have f1: "fread 3 f = (be_bytes 3 off, advance 3 f)"
    using assms(2) by (intro fread_front) auto
  have f2: "fread 2 (advance 3 f) = ([0, 0], advance 2 (advance 3 f))"
    using assms(2) by (intro fread_front) (auto simp: stdio_simps)
  have f3: "fread 2 (advance 5 f) = (be_bytes 2 n, advance 2 (advance 5 f))"
    using assms(2) by (intro fread_front) (auto simp: stdio_simps)
  have f4: "fread_into [x] (Suc 0) (advance 7 f) = (1, [b], advance 1 (advance 7 f))" for x
    using assms(2) fread_into_front [of "advance 7 f" "[b]" ys 1 "[x]"] by (auto simp: stdio_simps)
  have m: "\<not> (be_bytes 3 off ! 0 = 0x45 \<and> be_bytes 3 off ! 1 = 0x4F \<and> be_bytes 3 off ! 2 = 0x46)"
    using be_val_EOF [of "be_bytes 3 off"] assms(3) by (auto simp: codec_simps)
  show ?thesis
    unfolding IPSReadRecord_def
    using m assms(3)
    by (simp add: assms(1) f1 f2 f3 f4 codec_simps advance_advance Let_def IPS_RECORD_RLE_def
        word_of_nat_or_high del: push_bit_of_1)
qed

lemma copy_bytes_front:
  "srest p = bs @ ys \<Longrightarrow> copy_bytes (length bs) b p r = (advance (length bs) p, fwrite bs r)"
proof (induction bs arbitrary: b p r)
  case Nil
  then show ?case by (simp add: stdio_simps)
next
  case (Cons x bs)
  have "fread_into [b] 1 p = (1, [x], advance 1 p)"
    using Cons.prems fread_into_front [of p "[x]" "bs @ ys" 1 "[b]"] by simp
  moreover have "srest (advance 1 p) = bs @ ys"
    using Cons.prems by (simp add: stdio_simps)
  ultimately show ?case
    by (simp add: Cons.IH stdio_simps)
qed

lemma IPSProcessRecord_data:
  assumes "patch ips = Some p" "rom ips = Some (path, r)" "srest p = bs @ ys"
    and "ips_record ips = rc" "rec_offset rc = of_nat off" "rec_size rc = of_nat (length bs)"
    and "ips_item_ok (IData off bs)"
  shows "IPSProcessRecord junk ips = Ret (IPS_OK, ips\<lparr>patch := Some (advance (length bs) p),
    rom := Some (path, fwrite bs (r\<lparr>spos := off, seof := False\<rparr>)),
    romSize := grow_romSize (of_nat off) (of_nat (length bs)) (romSize ips)\<rparr>)"
proof -
  have o: "IPS_RECORD_OFFSET rc = of_nat off"
    using assms(5,7) by (intro unsigned_word_eqI [where 'a = nat]) (simp add: IPS_RECORD_OFFSET_def unat_and_mask24)
  have i: "IPS_RECORD_INFO rc \<noteq> IPS_RECORD_RLE"
  proof
    assume "IPS_RECORD_INFO rc = IPS_RECORD_RLE"
    then have "unat (IPS_RECORD_INFO rc) = 1" by (simp add: IPS_RECORD_RLE_def)
    with assms(5,7) show False by (simp add: IPS_RECORD_INFO_def unat_info_byte)
  qed
  have u: "(ucast (of_nat (length bs) :: u16) :: u32) = of_nat (length bs)"
    "unat (of_nat (length bs) :: u32) = length bs" "unat (of_nat off :: u32) = off"
    using assms(7) by (simp_all add: ucast_word_of_nat)
  show ?thesis
    by (simp add: IPSProcessRecord_def assms(1,2,4,6) o i u Let_def
        copy_bytes_front [OF assms(3)] stdio_simps)
qed

lemma IPSProcessRecord_rle:
  assumes "patch ips = Some p" "rom ips = Some (path, r)"
    and "ips_record ips = rc" "rec_offset rc = of_nat (off + 2 ^ 24)" "rec_size rc = of_nat n"
    and "ips_item_ok (IRle off n b)" "rleData rc = b"
  shows "IPSProcessRecord junk ips = Ret (IPS_OK, ips\<lparr>patch := Some p,
    rom := Some (path, fwrite (replicate n b) (r\<lparr>spos := off, seof := False\<rparr>)),
    romSize := grow_romSize (of_nat off) (of_nat n) (romSize ips)\<rparr>)"
proof -
  have w: "unat (of_nat (off + 2 ^ 24) :: u32) = off + 2 ^ 24"
    using assms(6) by (intro unat_word_of_nat_id) simp
  have o: "IPS_RECORD_OFFSET rc = of_nat off"
    using assms(4,6) w by (intro unsigned_word_eqI [where 'a = nat]) (simp add: IPS_RECORD_OFFSET_def unat_and_mask24)
  have d: "(off + 2 ^ 24) div 2 ^ 24 = 1"
    using assms(6) by (intro div_nat_eqI) auto
  have i: "IPS_RECORD_INFO rc = IPS_RECORD_RLE"
    using assms(4,6) w d by (intro unsigned_word_eqI [where 'a = nat]) (simp add: IPS_RECORD_INFO_def IPS_RECORD_RLE_def unat_info_byte)
  have u: "(ucast (of_nat n :: u16) :: u32) = of_nat n"
    "unat (of_nat n :: u32) = n" "unat (of_nat off :: u32) = off"
    using assms(6) by (simp_all add: ucast_word_of_nat)
  show ?thesis
    by (simp add: IPSProcessRecord_def assms(1,2,3,5,7) o i u Let_def stdio_simps)
qed
definition rom_is :: "IPSPatch \<Rightarrow> string \<Rightarrow> bytes \<Rightarrow> bytes \<Rightarrow> bool" where
  "rom_is ips path d ys \<longleftrightarrow> (\<exists>r p. rom ips = Some (path, r) \<and> sdata r = d \<and> patch ips = Some p \<and> srest p = ys)"

lemma ips_loop_item:
  assumes "rom_is ips path d (ips_enc it @ ys)" "ips_item_ok it"
  shows "\<exists>ips'. ips_loop junk ips = ips_loop junk ips' \<and> rom_is ips' path (apply_run (ips_run it) d) ys"
proof -
  from assms(1) obtain r p where rp: "rom ips = Some (path, r)" "sdata r = d" "patch ips = Some p" "srest p = ips_enc it @ ys"
    by (auto simp: rom_is_def)
  show ?thesis
  proof (cases it)
    case (IData off bs)
    let ?ips1 = "ips\<lparr>patch := Some (advance 5 p),
      ips_record := (ips_record ips)\<lparr>rec_offset := of_nat off, rec_size := of_nat (length bs)\<rparr>\<rparr>"
    have r1: "IPSReadRecord ips = Ret (IPS_OK, ?ips1)"
      using rp assms(2) IData by (intro IPSReadRecord_data) auto
    have "srest (advance 5 p) = bs @ ys" using rp IData by (simp add: stdio_simps)
    then have "IPSProcessRecord junk ?ips1 = Ret (IPS_OK, ?ips1\<lparr>patch := Some (advance (length bs) (advance 5 p)),
        rom := Some (path, fwrite bs (r\<lparr>spos := off, seof := False\<rparr>)),
        romSize := grow_romSize (of_nat off) (of_nat (length bs)) (romSize ?ips1)\<rparr>)"
      using rp assms(2) IData by (intro IPSProcessRecord_data) auto
    with r1 rp IData show ?thesis
      by (subst ips_loop.simps) (auto simp: rom_is_def stdio_simps)
  next
    case (IRle off n b)
    let ?ips1 = "ips\<lparr>patch := Some (advance 8 p),
      ips_record := \<lparr>rec_offset = of_nat (off + 2 ^ 24), rec_size = of_nat n, rleData = b\<rparr>\<rparr>"
    have r1: "IPSReadRecord ips = Ret (IPS_OK, ?ips1)"
      using rp assms(2) IRle by (intro IPSReadRecord_rle) auto
    have "IPSProcessRecord junk ?ips1 = Ret (IPS_OK, ?ips1\<lparr>patch := Some (advance 8 p),
        rom := Some (path, fwrite (replicate n b) (r\<lparr>spos := off, seof := False\<rparr>)),
        romSize := grow_romSize (of_nat off) (of_nat n) (romSize ?ips1)\<rparr>)"
      using rp assms(2) IRle by (intro IPSProcessRecord_rle) auto
    with r1 rp IRle show ?thesis
      by (subst ips_loop.simps) (auto simp: rom_is_def stdio_simps)
  qed
qed

interpretation ips_records: record_loop "ips_loop junk" "\<lambda>ips. rom_is ips path" ips_enc ips_item_ok ips_run
  for junk path
  by unfold_locales (rule ips_loop_item)

definition ips_tail_code :: "bytes \<Rightarrow> int option" where
  "ips_tail_code t = (if length t < 3 then Some IPS_ERROR_READ
     else if take 3 t = [0x45, 0x4F, 0x46] then Some IPS_PATCH_END else None)"

lemma ips_loop_tail:
  assumes "rom_is ips path d t" "ips_tail_code t = Some e"
  shows "\<exists>ips'. ips_loop junk ips = Ret (e, ips') \<and> rom_is ips' path d (drop 3 t)"
proof -
  from assms(1) obtain r p where rp: "rom ips = Some (path, r)" "sdata r = d" "patch ips = Some p" "srest p = t"
    by (auto simp: rom_is_def)
  obtain b p' where f: "fread 3 p = (b, p')" by (cases "fread 3 p")
  then have b: "b = take 3 t" "srest p' = drop 3 t"
    using rp srest_fread [of 3 p] fst_fread [of 3 p] by auto
  have "IPSReadRecord ips = Ret (e, ips\<lparr>patch := Some p'\<rparr>)"
  proof (cases "length t < 3")
    case True
    then show ?thesis using assms(2) rp f b by (simp add: IPSReadRecord_def ips_tail_code_def)
  next
    case False
    with assms(2) b have "b = [0x45, 0x4F, 0x46]" "e = IPS_PATCH_END"
      by (auto simp: ips_tail_code_def split: if_splits)
    then show ?thesis using rp f by (simp add: IPSReadRecord_def)
  qed
  moreover have "e \<noteq> IPS_OK" using assms(2) by (auto simp: ips_tail_code_def split: if_splits)
  ultimately show ?thesis
    using rp b by (subst ips_loop.simps) (auto simp: rom_is_def)
qed

lemma copy_rom_all:
  assumes "n = length (sdata r)" "spos r = t" "t \<le> n" "sdata b = take t (sdata r)" "spos b = t"
  shows "\<exists>r' b'. copy_rom n t r b = Some (r', b') \<and> sdata r' = sdata r \<and> sdata b' = sdata r"
  using assms
proof (induction n t r b rule: copy_rom.induct)
  case (1 n t r b)
  show ?case
  proof (cases "t < n")
    case False
    with 1 show ?thesis by (subst copy_rom.simps) simp
  next
    case True
    let ?c = "take 256 (drop t (sdata r))"
    have f: "fread 256 r = (?c, r\<lparr>spos := t + length ?c, seof := seof r \<or> n - t < 256\<rparr>)"
      using 1 by (simp add: fread_def srest_def min.commute)
    let ?r = "r\<lparr>spos := t + length ?c, seof := seof r \<or> n - t < 256\<rparr>"
    have c: "length ?c \<noteq> 0" using True 1 by simp
    have w: "sdata (fwrite ?c b) = take (t + length ?c) (sdata r)" "spos (fwrite ?c b) = t + length ?c"
      using 1 True overwrite_at_end [of "sdata b" ?c] by (auto simp: stdio_simps min_def take_add)
    have "\<exists>r' b'. copy_rom n (t + length ?c) ?r (fwrite ?c b) = Some (r', b') \<and> sdata r' = sdata ?r \<and> sdata b' = sdata ?r"
      by (rule "1.IH" [OF True f [symmetric] refl refl refl c]) (use 1 True w in auto)
    then show ?thesis using True c f by (subst copy_rom.simps) (simp add: Let_def)
  qed
qed

lemma IPSOpen_ok:
  assumes "content fs patchPath = Some ([0x50, 0x41, 0x54, 0x43, 0x48] @ body)"
    and "content fs romPath = Some d" "0 < length d" "length d < 2 ^ 31"
    and "writable fs romPath" "writable fs (backupFileName romPath)" "backupFileName romPath \<noteq> romPath"
  shows "\<exists>ips1. IPSOpen ips patchPath (Some romPath) fs
      = Some (IPS_OK, ips1, put_file (backupFileName romPath) d (put_file (backupFileName romPath) [] fs))
    \<and> rom_is ips1 romPath d body"
proof -
  let ?hd = "[0x50, 0x41, 0x54, 0x43, 0x48] :: bytes"
  let ?f = "sopen (?hd @ body)"
  let ?ips0 = "ips\<lparr>patch := None, rom := None, romSize := 0,
            ips_record := (ips_record ips)\<lparr>rec_offset := 0, rec_size := 0\<rparr>\<rparr>"
  have "fread 5 (snd (fseek_set 0 ?f)) = (?hd, advance 5 (snd (fseek_set 0 ?f)))"
    by (rule fread_front [where ys = body]) (simp_all add: stdio_simps srest_def)
  then have p: "IPSOpenPatch ?ips0 patchPath fs = (IPS_OK, ?ips0\<lparr>patch := Some (advance 5 (snd (fseek_set 0 ?f)))\<rparr>)"
    using assms(1) by (simp add: IPSOpenPatch_def fopen_rb_def stdio_simps Let_def)
  have r: "srest (advance 5 (snd (fseek_set 0 ?f))) = body"
    by (simp add: stdio_simps srest_def)
  let ?r = "snd (fseek_set 0 (snd (fseek_end 0 (sopen d))))"
  have rs: "unat (word_of_int (int (length d)) :: u32) = length d"
    using assms(4) by simp
  from copy_rom_all [of "length d" ?r 0 "sopen []"]
  obtain r' b' where c: "copy_rom (length d) 0 ?r (snd (fseek_set 0 (sopen []))) = Some (r', b')" "sdata r' = d" "sdata b' = d"
    by (auto simp: stdio_simps sopen_def)
  show ?thesis
    using assms p r c rs
    by (simp add: IPSOpen_def IPSOpenInOUT_def fopen_rbp_def fopen_wb_def fclose_to_def stdio_simps ftell_def Let_def rom_is_def)
qed

definition ips_file :: "ips_item list \<Rightarrow> bytes \<Rightarrow> bytes" where
  "ips_file its t = [0x50, 0x41, 0x54, 0x43, 0x48] @ concat (map ips_enc its) @ t"

lemma IPSClose_rom:
  "rom_is ips path d ys \<Longrightarrow> \<exists>ips'. IPSClose ips fs = (ips', put_file path d fs) \<and> rom ips' = None \<and> patch ips' = None"
  by (auto simp: rom_is_def IPSClose_def fclose_to_def)

lemma IPSClose_closed: "rom ips = None \<Longrightarrow> patch ips = None \<Longrightarrow> IPSClose ips fs = (ips, fs)"
  by (simp add: IPSClose_def)

section \<open>Every run ends with a return code\<close>

definition is_open :: "IPSPatch \<Rightarrow> bool" where
  "is_open ips \<longleftrightarrow> rom ips \<noteq> None \<and> patch ips \<noteq> None"

lemma IPSReadRecord_open:
  assumes "is_open ips"
  shows "\<exists>e ips'. IPSReadRecord ips = Ret (e, ips') \<and> is_open ips' \<and> e \<in> {IPS_OK, IPS_ERROR_READ, IPS_PATCH_END}"
  using assms by (auto simp: is_open_def IPSReadRecord_def Let_def split: prod.splits)

lemma IPSProcessRecord_open:
  assumes "is_open ips"
  shows "\<exists>ips'. IPSProcessRecord junk ips = Ret (IPS_OK, ips') \<and> is_open ips'"
  using assms by (auto simp: is_open_def IPSProcessRecord_def Let_def split: prod.splits)

lemma ips_loop_open:
  assumes "is_open ips"
  shows "\<exists>e ips'. ips_loop junk ips = Ret (e, ips') \<and> is_open ips' \<and> e \<in> {IPS_ERROR_READ, IPS_PATCH_END}"
  using assms
proof (induction junk ips rule: ips_loop.induct)
  case (1 junk ips)
  from IPSReadRecord_open [OF "1.prems"] obtain e ips1 where
    r: "IPSReadRecord ips = Ret (e, ips1)" "is_open ips1" "e \<in> {IPS_OK, IPS_ERROR_READ, IPS_PATCH_END}" by blast
  from IPSProcessRecord_open [OF r(2), of junk] obtain ips2 where
    p: "IPSProcessRecord junk ips1 = Ret (IPS_OK, ips2)" "is_open ips2" by blast
  show ?case
  proof (cases "e = IPS_OK")
    case True
    with "1.IH" [OF r(1) refl True p(1) refl refl p(2)] r p show ?thesis
      by (subst ips_loop.simps) simp
  next
    case False
    with r show ?thesis by (subst ips_loop.simps) auto
  qed
qed

lemma copy_rom_from_start:
  assumes "length d < 2 ^ 31"
  shows "\<exists>r' b'. copy_rom (unat (word_of_int (int (length d)) :: u32)) 0 (snd (fseek_set 0 (snd (fseek_end 0 (sopen d)))))
    (snd (fseek_set 0 (sopen []))) = Some (r', b')"
  using copy_rom_all [of "length d" "snd (fseek_set 0 (snd (fseek_end 0 (sopen d))))" 0 "sopen []"] assms
  by (auto simp: stdio_simps sopen_def)

lemma IPSOpenInOUT_cases:
  assumes "backupFileName romPath \<noteq> romPath"
  shows "\<exists>e ips' fs'. IPSOpenInOUT ips (Some romPath) fs = Some (e, ips', fs') \<and> patch ips' = patch ips
     \<and> (e = IPS_OK \<longrightarrow> rom ips' \<noteq> None)"
  using copy_rom_from_start assms
  by (auto simp: IPSOpenInOUT_def fopen_rbp_def fopen_wb_def ftell_def stdio_simps Let_def
      split: option.splits prod.splits if_splits) fastforce+

lemma IPSOpenPatch_OK:
  "IPSOpenPatch ips p fs = (e, ips') \<Longrightarrow> e = IPS_OK \<Longrightarrow> patch ips' \<noteq> None"
  by (auto simp: IPSOpenPatch_def Let_def split: option.splits prod.splits if_splits)

lemma IPSClose_closes: "\<exists>ips' fs'. IPSClose ips fs = (ips', fs') \<and> rom ips' = None \<and> patch ips' = None"
  by (auto simp: IPSClose_def split: option.splits prod.splits)

lemma IPSOpen_cases:
  assumes "backupFileName romPath \<noteq> romPath"
  shows "\<exists>e ips' fs'. IPSOpen ips patchPath (Some romPath) fs = Some (e, ips', fs') \<and>
     (e = IPS_OK \<and> is_open ips' \<or> e = IPS_ERROR_OPEN \<and> rom ips' = None \<and> patch ips' = None)"
proof -
  let ?ips0 = "ips\<lparr>patch := None, rom := None, romSize := 0,
            ips_record := (ips_record ips)\<lparr>rec_offset := 0, rec_size := 0\<rparr>\<rparr>"
  obtain e1 ips1 where p: "IPSOpenPatch ?ips0 patchPath fs = (e1, ips1)" by (cases "IPSOpenPatch ?ips0 patchPath fs")
  from IPSOpenInOUT_cases [OF assms, of ips1 fs] obtain e2 ips2 fs2 where
    q: "IPSOpenInOUT ips1 (Some romPath) fs = Some (e2, ips2, fs2)" "patch ips2 = patch ips1" "e2 = IPS_OK \<longrightarrow> rom ips2 \<noteq> None" by blast
  show ?thesis
    using p q IPSOpenPatch_OK [OF p] IPSClose_closes [of ips1 fs] IPSClose_closes [of ips2 fs2]
    by (auto simp: IPSOpen_def is_open_def Let_def)
qed

section \<open>Properties\<close>

text \<open>C5: applying a well-formed IPS file.  A file that is the magic, the encodings of items in
  the format's range and a tail changes the ROM by exactly those items in order, keeps a backup of
  the old content and leaves the patch alone; the entry point returns 0 when the tail starts with
  the end marker and the read error -5 when the file stops instead.\<close>

theorem ips_apply_correct:
  assumes "content fs patchPath = Some (ips_file its t)"
    and "list_all ips_item_ok its" "ips_tail_code t = Some e"
    and "content fs romPath = Some d" "0 < length d" "length d < 2 ^ 31"
    and "writable fs romPath" "writable fs (backupFileName romPath)"
    and "distinct [romPath, patchPath, backupFileName romPath]"
  shows "\<exists>fs'. ipsPatchRom junk ips romPath patchPath fs = Some (Ret (e, fs'))
    \<and> content fs' romPath = Some (apply_runs (map ips_run its) d)
    \<and> content fs' (backupFileName romPath) = Some d
    \<and> content fs' patchPath = content fs patchPath"
proof -
  let ?bak = "backupFileName romPath"
  let ?fs1 = "put_file ?bak d (put_file ?bak [] fs)"
  from IPSOpen_ok [of fs patchPath "concat (map ips_enc its) @ t" romPath d "IPSReset ips"] assms
  obtain ips1 where o: "IPSOpen (IPSReset ips) patchPath (Some romPath) fs = Some (IPS_OK, ips1, ?fs1)"
    "rom_is ips1 romPath d (concat (map ips_enc its) @ t)"
    by (auto simp: ips_file_def)
  from ips_records.loop_items [OF o(2) assms(2), of junk] obtain ips2 where l1: "ips_loop junk ips1 = ips_loop junk ips2"
    "rom_is ips2 romPath (apply_runs (map ips_run its) d) t" by auto
  from ips_loop_tail [OF l1(2) assms(3), of junk] obtain ips3 where l2: "ips_loop junk ips2 = Ret (e, ips3)"
    "rom_is ips3 romPath (apply_runs (map ips_run its) d) (drop 3 t)" by auto
  from IPSClose_rom [OF l2(2), of ?fs1] obtain ips4 where
    "IPSClose ips3 ?fs1 = (ips4, put_file romPath (apply_runs (map ips_run its) d) ?fs1)" "rom ips4 = None" "patch ips4 = None"
    by auto
  then show ?thesis using o(1) l1(1) l2(1) assms(9)
    by (auto simp: ipsPatchRom_def IPSClose_closed stdio_simps)
qed
theorem ips_apply_correct_witness:
  "\<exists>fs'. ipsPatchRom (\<lambda>_. 0) \<lparr>rom = None, romSize = 0, patch = None, ips_record = \<lparr>rec_offset = 0, rec_size = 0, rleData = 0\<rparr>\<rparr>
       ''r'' ''p'' \<lparr>content = [''r'' \<mapsto> [1, 2, 3, 4], ''p'' \<mapsto> ips_file [IData 1 [9], IRle 3 3 7] [0x45, 0x4F, 0x46]], writable = \<lambda>_. True\<rparr>
     = Some (Ret (0, fs'))
   \<and> content fs' ''r'' = Some [1, 9, 3, 7, 7, 7] \<and> content fs' ''r.bak'' = Some [1, 2, 3, 4]"
  using ips_apply_correct [of "\<lparr>content = [''r'' \<mapsto> [1, 2, 3, 4], ''p'' \<mapsto> ips_file [IData 1 [9], IRle 3 3 7] [0x45, 0x4F, 0x46]], writable = \<lambda>_. True\<rparr>"
     "''p''" "[IData 1 [9], IRle 3 3 7]" "[0x45, 0x4F, 0x46]" 0 "''r''" "[1, 2, 3, 4]"  "\<lambda>_. 0"
     "\<lparr>rom = None, romSize = 0, patch = None, ips_record = \<lparr>rec_offset = 0, rec_size = 0, rleData = 0\<rparr>\<rparr>"]
  by (auto simp: ips_tail_code_def backupFileName_def run_simps overwrite_def numeral_3_eq_3)

text \<open>C31: whatever the files hold, when the ROM, the patch and the backup have different names, the entry point returns: the backup loop and the patch loop
  end, no null stream is used, and the code is 0 (end marker), -3 (open) or -5 (read).\<close>

theorem ips_always_returns:
  assumes "distinct [romPath, patchPath, backupFileName romPath]"
  shows "\<exists>e fs'. ipsPatchRom junk ips romPath patchPath fs = Some (Ret (e, fs'))
     \<and> e \<in> {IPS_PATCH_END, IPS_ERROR_OPEN, IPS_ERROR_READ}"
proof -
  have b: "backupFileName romPath \<noteq> romPath" using assms by auto
  from IPSOpen_cases [OF b, of "IPSReset ips" patchPath fs] obtain e ips1 fs1 where
    o: "IPSOpen (IPSReset ips) patchPath (Some romPath) fs = Some (e, ips1, fs1)"
    "e = IPS_OK \<and> is_open ips1 \<or> e = IPS_ERROR_OPEN" by blast
  show ?thesis
  proof (cases "e = IPS_OK")
    case True
    with o ips_loop_open [of ips1 junk] assms show ?thesis
      by (auto simp: ipsPatchRom_def split: prod.splits)
  next
    case False
    with o show ?thesis by (simp add: ipsPatchRom_def)
  qed
qed

theorem ips_always_returns_witness:
  "\<exists>e fs'. ipsPatchRom (\<lambda>_. 0) \<lparr>rom = None, romSize = 0, patch = None, ips_record = \<lparr>rec_offset = 0, rec_size = 0, rleData = 0\<rparr>\<rparr> ''r'' ''p''
       \<lparr>content = [''r'' \<mapsto> [1, 2], ''p'' \<mapsto> [0x50, 0x41, 0x54, 0x43, 0x48] @ [0, 0, 1]], writable = \<lambda>_. True\<rparr> = Some (Ret (e, fs'))
     \<and> e \<in> {IPS_PATCH_END, IPS_ERROR_OPEN, IPS_ERROR_READ}"
  by (rule ips_always_returns) (simp add: backupFileName_def)

text \<open>The name of the backup is cut off: a ROM whose path has 512 characters before its \<^verbatim>\<open>.bak\<close> is its own backup.  It is
  emptied, and the copy loop then never ends.\<close>

theorem ips_own_backup_never_returns:
  assumes "content fs patchPath = Some ([0x50, 0x41, 0x54, 0x43, 0x48] @ body)" "content fs romPath = Some d" "0 < length d" "length d < 2 ^ 31"
    and "writable fs romPath" "backupFileName romPath = romPath"
  shows "ipsPatchRom junk ips romPath patchPath fs = None"
proof -
  let ?f = "sopen ([0x50, 0x41, 0x54, 0x43, 0x48] @ body)"
  have h: "fread 5 (snd (fseek_set 0 ?f)) = ([0x50, 0x41, 0x54, 0x43, 0x48], advance 5 (snd (fseek_set 0 ?f)))"
    by (rule fread_front [where ys = body]) (simp_all add: stdio_simps srest_def)
  have n: "unat (word_of_int (int (length d)) :: u32) = length d" using assms(4) by simp
  have e: "copy_rom (length d) 0 (r\<lparr>sdata := []\<rparr>) b = None" for r b
    using assms(3) by (subst copy_rom.simps) (simp add: fread_def srest_def)
  have "IPSOpenInOUT i (Some romPath) fs = None" for i
    using assms n e by (simp add: IPSOpenInOUT_def fopen_rbp_def fopen_wb_def ftell_def truncated_same stdio_simps Let_def)
  then show ?thesis
    using assms(1) h by (simp add: ipsPatchRom_def IPSOpen_def IPSOpenPatch_def fopen_rb_def stdio_simps Let_def)
qed

theorem ips_own_backup_never_returns_witness:
  "let r = replicate 512 CHR ''x'' @ ''.bak'' in
   ipsPatchRom (\<lambda>_. 0) \<lparr>rom = None, romSize = 0, patch = None, ips_record = \<lparr>rec_offset = 0, rec_size = 0, rleData = 0\<rparr>\<rparr> r ''p'' \<lparr>content = [r \<mapsto> [1], ''p'' \<mapsto> [0x50, 0x41, 0x54, 0x43, 0x48]], writable = \<lambda>_. True\<rparr> = None"
proof -
  let ?r = "replicate 512 CHR ''x'' @ ''.bak''"
  have "hd ?r \<noteq> hd ''p''" by simp
  then have "?r \<noteq> ''p''" by metis
  then show ?thesis unfolding Let_def
    by (intro ips_own_backup_never_returns [where body = "[]" and d = "[1]"]) (simp_all add: backupFileName_def)
qed

text \<open>A patch that is missing or does not start with the five magic bytes is refused with
  -3 and no file changes.\<close>

theorem ips_rejects_other_files:
  assumes "case content fs patchPath of None \<Rightarrow> True | Some d \<Rightarrow> take 5 d \<noteq> [0x50, 0x41, 0x54, 0x43, 0x48]"
  shows "ipsPatchRom junk ips romPath patchPath fs = Some (Ret (IPS_ERROR_OPEN, fs))"
proof -
  let ?ips0 = "(IPSReset ips)\<lparr>patch := None, rom := None, romSize := 0,
            ips_record := (ips_record (IPSReset ips))\<lparr>rec_offset := 0, rec_size := 0\<rparr>\<rparr>"
  have "fst (IPSOpenPatch ?ips0 patchPath fs) \<noteq> IPS_OK \<and> rom (snd (IPSOpenPatch ?ips0 patchPath fs)) = None"
  proof (cases "content fs patchPath")
    case None
    then show ?thesis by (simp add: IPSOpenPatch_def fopen_rb_def)
  next
    case (Some d)
    have h: "header = [header ! 0, header ! 1, header ! 2, header ! 3, header ! 4]" if "length header = 5" for header :: bytes
      using that by (auto simp: numeral_eq_Suc length_Suc_conv)
    show ?thesis using Some assms h [of "take 5 d"]
      by (auto simp: IPSOpenPatch_def fopen_rb_def stdio_simps fread_def srest_def Let_def)
  qed
  then show ?thesis
    by (auto simp: ipsPatchRom_def IPSOpen_def IPSClose_def Let_def split: prod.splits option.splits)
qed

theorem ips_rejects_other_files_witness:
  "ipsPatchRom (\<lambda>_. 0) \<lparr>rom = None, romSize = 0, patch = None, ips_record = \<lparr>rec_offset = 0, rec_size = 0, rleData = 0\<rparr>\<rparr>
       ''r'' ''p'' \<lparr>content = [''p'' \<mapsto> [0x50, 0x41, 0x54]], writable = \<lambda>_. True\<rparr>
     = Some (Ret (-3, \<lparr>content = [''p'' \<mapsto> [0x50, 0x41, 0x54]], writable = \<lambda>_. True\<rparr>))"
  by (rule ips_rejects_other_files) simp

text \<open>The size kept in the structure is not the size of the file: a record that overlaps the end
  counts its whole length.\<close>

lemma ips_romSize_drifts:
  "grow_romSize 8 4 10 = 14 \<and> length (overwrite 8 [1, 2, 3, 4] (replicate 10 0)) = 12"
  by (simp add: grow_romSize_def length_overwrite)
end
