(* ===== verification/Ips32.thy ===== *)
theory Ips32
  imports Ips
begin

text \<open>
  The IPS32 patcher, \<^verbatim>\<open>jni/ips32patcher/ips.c\<close> and its native loop: the IPS code with
  32-bit offsets, a run-length flag of its own and the end marker \<^verbatim>\<open>EEOF\<close>.  The backup copy and the
  byte-wise copy loop are those of the IPS model.  \<^verbatim>\<open>buffer[0] << 24\<close> shifts a promoted \<^verbatim>\<open>int\<close>; for bytes from 128 on it is taken as the
  compilers for Android take it, as a shift of the bits.
\<close>

section \<open>Model\<close>

abbreviation IPS32_OK :: int where "IPS32_OK \<equiv> 1"
abbreviation IPS32_ERROR :: int where "IPS32_ERROR \<equiv> -1"
abbreviation IPS32_ERROR_FILE_TYPE :: int where "IPS32_ERROR_FILE_TYPE \<equiv> -2"
abbreviation IPS32_ERROR_OPEN :: int where "IPS32_ERROR_OPEN \<equiv> -3"
abbreviation IPS32_ERROR_READ :: int where "IPS32_ERROR_READ \<equiv> -5"
abbreviation IPS32_PATCH_END :: int where "IPS32_PATCH_END \<equiv> 0"

record IPS32Record =
  rec_offset32 :: u32
  rec_size32 :: u32
  rleSwitch :: byte
  rleData32 :: u32

definition IPS32_RECORD_OFFSET :: "IPS32Record \<Rightarrow> u32" where
  "IPS32_RECORD_OFFSET r = rec_offset32 r AND 0xffffffff"

text \<open>A \<^verbatim>\<open>FILE *\<close> that may be \<^verbatim>\<open>NULL\<close> is an option; the ROM's carries the path it is written back to.\<close>

record IPS32Patch =
  rom32 :: "(string \<times> stream) option"
  romSize32 :: u32
  patch32 :: "stream option"
  ips32_record :: IPS32Record

definition IPS32Reset :: "IPS32Patch \<Rightarrow> IPS32Patch" where
  "IPS32Reset ips = ips\<lparr>patch32 := None, rom32 := None, romSize32 := 0,
     ips32_record := (ips32_record ips)\<lparr>rec_offset32 := 0, rec_size32 := 0, rleData32 := 0\<rparr>\<rparr>"

definition IPS32OpenPatch :: "IPS32Patch \<Rightarrow> string \<Rightarrow> fsys \<Rightarrow> int \<times> IPS32Patch" where
  "IPS32OpenPatch ips fileName fs =
     (case fopen_rb fileName fs of
        None \<Rightarrow> (IPS32_ERROR, ips\<lparr>patch32 := None\<rparr>)
      | Some f0 \<Rightarrow>
          let (_, f1) = fseek_set 0 f0;
              (header, f2) = fread 5 f1;
              ips' = ips\<lparr>patch32 := Some f2\<rparr>
          in if length header \<noteq> 5 then (IPS32_ERROR_FILE_TYPE, ips')
             else if header ! 0 \<noteq> 0x49 \<or> header ! 1 \<noteq> 0x50 \<or> header ! 2 \<noteq> 0x53 \<or>
                     header ! 3 \<noteq> 0x33 \<or> header ! 4 \<noteq> 0x32
             then (IPS32_ERROR_FILE_TYPE, ips')
             else (IPS32_OK, ips'))"

definition IPS32OpenInOUT ::
  "IPS32Patch \<Rightarrow> string option \<Rightarrow> fsys \<Rightarrow> (int \<times> IPS32Patch \<times> fsys) option" where
  "IPS32OpenInOUT ips romName_opt fs =
     (case romName_opt of None \<Rightarrow> Some (IPS32_ERROR, ips, fs) | Some romName \<Rightarrow>
     (case fopen_rbp romName fs of
        None \<Rightarrow> Some (IPS32_ERROR, ips\<lparr>rom32 := None\<rparr>, fs)
      | Some r0 \<Rightarrow>
          let (_, r1) = fseek_end 0 r0;
              nTotal = ftell r1;
              (_, r2) = fseek_set 0 r1;
              nTotal = nTotal - ftell r2;
              ips' = ips\<lparr>rom32 := Some (romName, r2), romSize32 := word_of_int nTotal\<rparr>
          in if nTotal \<le> 0 then Some (IPS32_ERROR, ips', fs)
             else (case fopen_wb (backupFileName romName) fs of
                 None \<Rightarrow> Some (IPS32_ERROR, ips', fs)
               | Some (b0, fs1) \<Rightarrow>
                   let (_, b1) = fseek_set 0 b0;
                       r2 = truncated (backupFileName romName) romName r2
                   in
                   (case copy_rom (unat (romSize32 ips')) 0 r2 b1 of
                      None \<Rightarrow> None
                    | Some (r3, b2) \<Rightarrow>
                        let fs2 = fclose_to (backupFileName romName) b2 fs1;
                            (_, r4) = fseek_set 0 r3
                        in Some (IPS32_OK, ips'\<lparr>rom32 := Some (romName, r4)\<rparr>, fs2)))))"

definition IPS32Close :: "IPS32Patch \<Rightarrow> fsys \<Rightarrow> IPS32Patch \<times> fsys" where
  "IPS32Close ips fs =
     (let (ips1, fs1) = (case rom32 ips of
            None \<Rightarrow> (ips, fs)
          | Some (p, s) \<Rightarrow> (ips\<lparr>rom32 := None\<rparr>, fclose_to p s fs))
      in (case patch32 ips1 of None \<Rightarrow> (ips1, fs1) | Some _ \<Rightarrow> (ips1\<lparr>patch32 := None\<rparr>, fs1)))"

definition IPS32Open ::
  "IPS32Patch \<Rightarrow> string \<Rightarrow> string option \<Rightarrow> fsys \<Rightarrow> (int \<times> IPS32Patch \<times> fsys) option" where
  "IPS32Open ips patchName romName fs =
     (let ips0 = ips\<lparr>patch32 := None, rom32 := None, romSize32 := 0,
            ips32_record := (ips32_record ips)\<lparr>rec_offset32 := 0, rec_size32 := 0\<rparr>\<rparr>;
          (err, ips1) = IPS32OpenPatch ips0 patchName fs
      in if err \<noteq> IPS32_OK then
           (let (ips2, fs2) = IPS32Close ips1 fs in Some (IPS32_ERROR_OPEN, ips2, fs2))
         else (case IPS32OpenInOUT ips1 romName fs of
             None \<Rightarrow> None
           | Some (err, ips2, fs2) \<Rightarrow>
               if err \<noteq> IPS32_OK then
                 (let (ips3, fs3) = IPS32Close ips2 fs2 in Some (IPS32_ERROR_OPEN, ips3, fs3))
               else Some (IPS32_OK, ips2, fs2)))"

definition IPS32ReadRecord :: "IPS32Patch \<Rightarrow> (int \<times> IPS32Patch) cresult" where
  "IPS32ReadRecord ips =
     (case patch32 ips of None \<Rightarrow> Undef | Some f0 \<Rightarrow>
      let r0 = (ips32_record ips)\<lparr>rleSwitch := 0\<rparr>;
          (b, f1) = fread 4 f0; ips1 = ips\<lparr>patch32 := Some f1, ips32_record := r0\<rparr> in
      if length b < 4 then Ret (IPS32_ERROR_READ, ips1)
      else if b ! 0 = 0x45 \<and> b ! 1 = 0x45 \<and> b ! 2 = 0x4F \<and> b ! 3 = 0x46 then Ret (IPS32_PATCH_END, ips1)
      else
        let r1 = r0\<lparr>rec_offset32 :=
              push_bit 24 (ucast (b ! 0)) OR push_bit 16 (ucast (b ! 1)) OR push_bit 8 (ucast (b ! 2)) OR ucast (b ! 3)\<rparr>;
            (c, f2) = fread 2 f1 in
        if length c < 2 then Ret (IPS32_ERROR_READ, ips\<lparr>patch32 := Some f2, ips32_record := r1\<rparr>)
        else
          let r2 = r1\<lparr>rec_size32 := push_bit 8 (ucast (c ! 0)) OR ucast (c ! 1)\<rparr> in
          if rec_size32 r2 = 0 then
            let r3 = r2\<lparr>rleSwitch := 1\<rparr>;
                (d, f3) = fread 2 f2 in
            if length d < 2 then Ret (IPS32_ERROR_READ, ips\<lparr>patch32 := Some f3, ips32_record := r3\<rparr>)
            else
              let r4 = r3\<lparr>rec_size32 := push_bit 8 (ucast (d ! 0)) OR ucast (d ! 1)\<rparr>;
                  (n, e, f4) = fread_into (le_bytes 4 (unat (rleData32 r4))) 1 f3;
                  r5 = r4\<lparr>rleData32 := of_nat (le_val e)\<rparr> in
              if n < 1 then Ret (IPS32_ERROR_READ, ips\<lparr>patch32 := Some f4, ips32_record := r5\<rparr>)
              else Ret (IPS32_OK, ips\<lparr>patch32 := Some f4, ips32_record := r5\<rparr>)
          else Ret (IPS32_OK, ips\<lparr>patch32 := Some f2, ips32_record := r2\<rparr>))"

text \<open>\<^verbatim>\<open>fseek\<close> takes a signed 32-bit \<^verbatim>\<open>long\<close>: an offset with the top bit set is negative there,
  the seek fails and its result is not looked at.\<close>

definition IPS32ProcessRecord :: "memory \<Rightarrow> IPS32Patch \<Rightarrow> (int \<times> IPS32Patch) cresult" where
  "IPS32ProcessRecord junk ips =
     (case (patch32 ips, rom32 ips) of
        (Some p, Some (path, r)) \<Rightarrow>
          let rc = ips32_record ips;
              sz = rec_size32 rc;
              offset = IPS32_RECORD_OFFSET rc;
              (_, r1) = fseek_set (sint offset) r;
              (p2, r2) = (if rleSwitch rc \<noteq> 0
                then (p, fputc_times (unat sz) (ucast (rleData32 rc)) r1)
                else copy_bytes (unat sz) (junk 0) p r1)
          in Ret (IPS32_OK, ips\<lparr>patch32 := Some p2, rom32 := Some (path, r2),
               romSize32 := grow_romSize offset sz (romSize32 ips)\<rparr>)
      | _ \<Rightarrow> Undef)"

section \<open>Reading consumes the patch32\<close>

definition left32 :: "IPS32Patch \<Rightarrow> nat" where
  "left32 ips = (case patch32 ips of None \<Rightarrow> 0 | Some f \<Rightarrow> length (srest f))"

lemma IPS32ReadRecord_shrinks:
  assumes "IPS32ReadRecord ips = Ret (e, ips')" "e = IPS32_OK"
  shows "left32 ips' < left32 ips"
  using assms
  by (auto simp: IPS32ReadRecord_def left32_def Let_def split: option.splits prod.splits if_splits
      dest!: fread_eq_lengths fread_into_eq_le)

lemma IPS32ProcessRecord_left:
  assumes "IPS32ProcessRecord junk ips = Ret (e, ips')"
  shows "left32 ips' \<le> left32 ips"
  using assms copy_bytes_left
  by (auto simp: IPS32ProcessRecord_def left32_def Let_def split: option.splits prod.splits if_splits)
     (metis fst_conv)+

section \<open>The patch32 loop\<close>

function ips32_loop :: "memory \<Rightarrow> IPS32Patch \<Rightarrow> (int \<times> IPS32Patch) cresult" where
  "ips32_loop junk ips =
     (case IPS32ReadRecord ips of
        Ret (err, ips1) \<Rightarrow>
          if err = IPS32_OK then
            (case IPS32ProcessRecord junk ips1 of
               Ret (err2, ips2) \<Rightarrow> if err2 = IPS32_OK then ips32_loop junk ips2 else Ret (err2, ips2)
             | Exit n \<Rightarrow> Exit n
             | Undef \<Rightarrow> Undef)
          else Ret (err, ips1)
      | Exit n \<Rightarrow> Exit n
      | Undef \<Rightarrow> Undef)"
  by pat_completeness auto
termination
proof (relation "measure (\<lambda>(_, ips). left32 ips)", goal_cases)
  case (2 junk ips x err ips1 y err2 ips2)
  then show ?case
    using IPS32ReadRecord_shrinks [of ips err ips1] IPS32ProcessRecord_left [of junk ips1 err2 ips2]
    by simp
qed simp

declare ips32_loop.simps [simp del]

text \<open>The native entry point: \<open>None\<close> when the backup loop does not end, as when the ROM is its own backup;
  \<open>Undef\<close> when the patch is one of the files that are written while it is read.\<close>

definition ips32PatchRom :: "memory \<Rightarrow> IPS32Patch \<Rightarrow> string \<Rightarrow> string \<Rightarrow> fsys \<Rightarrow> (int \<times> fsys) cresult option" where
  "ips32PatchRom junk patch0 romPath patchPath fs =
     (case IPS32Open (IPS32Reset patch0) patchPath (Some romPath) fs of
        None \<Rightarrow> None
      | Some (err, ips1, fs1) \<Rightarrow>
          if err = IPS32_OK then
            (if patchPath = romPath \<or> patchPath = backupFileName romPath then Some Undef
             else case ips32_loop junk ips1 of
               Ret (err2, ips2) \<Rightarrow>
                 let (ips3, fs2) = IPS32Close ips2 fs1; (ips4, fs3) = IPS32Close ips3 fs2
                 in Some (Ret (err2, fs3))
             | Exit n \<Rightarrow> Some (Exit n)
             | Undef \<Rightarrow> Some Undef)
          else Some (Ret (err, fs1)))"

section \<open>The meaning of an IPS file\<close>

text \<open>A patch32 is a list of items: bytes to put at a position, or one byte to repeat there.\<close>

datatype ips32_item = IData32 nat bytes | IRle32 nat nat byte

fun ips32_enc :: "ips32_item \<Rightarrow> bytes" where
  "ips32_enc (IData32 off bs) = be_bytes 4 off @ be_bytes 2 (length bs) @ bs"
| "ips32_enc (IRle32 off n b) = be_bytes 4 off @ [0, 0] @ be_bytes 2 n @ [b]"

fun ips32_run :: "ips32_item \<Rightarrow> run" where
  "ips32_run (IData32 off bs) = (off, bs)"
| "ips32_run (IRle32 off n b) = (off, replicate n b)"

fun ips32_item_ok :: "ips32_item \<Rightarrow> bool" where
  "ips32_item_ok (IData32 off bs) \<longleftrightarrow> off < 2 ^ 31 \<and> off \<noteq> 0x45454F46 \<and> 0 < length bs \<and> length bs < 2 ^ 16"
| "ips32_item_ok (IRle32 off n b) \<longleftrightarrow> off < 2 ^ 31 \<and> off \<noteq> 0x45454F46 \<and> n < 2 ^ 16"

lemma be_val_EEOF:
  "length b = 4 \<Longrightarrow> b ! 0 = 0x45 \<and> b ! 1 = 0x45 \<and> b ! 2 = 0x4F \<and> b ! 3 = 0x46 \<Longrightarrow> be_val b = 0x45454F46"
  using list_eq_nth4 [of b] by (simp add: be_val_def)

lemma IPS32ReadRecord_data:
  assumes "patch32 ips = Some f" "srest f = ips32_enc (IData32 off bs) @ ys" "ips32_item_ok (IData32 off bs)"
  shows "IPS32ReadRecord ips = Ret (IPS32_OK, ips\<lparr>patch32 := Some (advance 6 f),
    ips32_record := (ips32_record ips)\<lparr>rec_offset32 := of_nat off, rec_size32 := of_nat (length bs), rleSwitch := 0\<rparr>\<rparr>)"
proof -
  have f1: "fread 4 f = (be_bytes 4 off, advance 4 f)"
    using assms(2) by (intro fread_front) auto
  have f2: "fread 2 (advance 4 f) = (be_bytes 2 (length bs), advance 2 (advance 4 f))"
    using assms(2) by (intro fread_front) (auto simp: stdio_simps)
  have n: "\<not> (be_bytes 4 off ! 0 = 0x45 \<and> be_bytes 4 off ! 1 = 0x45 \<and> be_bytes 4 off ! 2 = 0x4F \<and> be_bytes 4 off ! 3 = 0x46)"
    using be_val_EEOF [of "be_bytes 4 off"] assms(3) by (auto simp: codec_simps)
  have z: "(of_nat (length bs) :: u32) \<noteq> 0"
    using assms(3) by (intro word_of_nat_neq_0) auto
  show ?thesis
    unfolding IPS32ReadRecord_def
    using n z assms(3) by (simp add: assms(1) f1 f2 codec_simps advance_advance Let_def)
qed

lemma IPS32ReadRecord_rle:
  assumes "patch32 ips = Some f" "srest f = ips32_enc (IRle32 off n b) @ ys" "ips32_item_ok (IRle32 off n b)"
  shows "\<exists>w. IPS32ReadRecord ips = Ret (IPS32_OK, ips\<lparr>patch32 := Some (advance 9 f),
    ips32_record := \<lparr>rec_offset32 = of_nat off, rec_size32 = of_nat n, rleSwitch = 1, rleData32 = w\<rparr>\<rparr>) \<and> ucast w = b"
proof -
  have f1: "fread 4 f = (be_bytes 4 off, advance 4 f)"
    using assms(2) by (intro fread_front) auto
  have f2: "fread 2 (advance 4 f) = ([0, 0], advance 2 (advance 4 f))"
    using assms(2) by (intro fread_front) (auto simp: stdio_simps)
  have f3: "fread 2 (advance 6 f) = (be_bytes 2 n, advance 2 (advance 6 f))"
    using assms(2) by (intro fread_front) (auto simp: stdio_simps)
  have f4: "fread_into x (Suc 0) (advance 8 f) = (1, b # drop 1 x, advance 1 (advance 8 f))" for x
    using assms(2) fread_into_front [of "advance 8 f" "[b]" ys 1 x] by (auto simp: stdio_simps)
  have m: "\<not> (be_bytes 4 off ! 0 = 0x45 \<and> be_bytes 4 off ! 1 = 0x45 \<and> be_bytes 4 off ! 2 = 0x4F \<and> be_bytes 4 off ! 3 = 0x46)"
    using be_val_EEOF [of "be_bytes 4 off"] assms(3) by (auto simp: codec_simps)
  show ?thesis
    unfolding IPS32ReadRecord_def
    using m assms(3)
    by (intro exI [of _ "of_nat (le_val (b # drop 1 (le_bytes 4 (unat (rleData32 (ips32_record ips))))))"])
      (simp add: assms(1) f1 f2 f3 f4 codec_simps advance_advance Let_def ucast_le_val_Cons del: le_val.simps)
qed

lemma IPS32ProcessRecord_data:
  assumes "patch32 ips = Some p" "rom32 ips = Some (path, r)" "srest p = bs @ ys"
    and "ips32_record ips = rc" "rec_offset32 rc = of_nat off" "rec_size32 rc = of_nat (length bs)" "rleSwitch rc = 0"
    and "ips32_item_ok (IData32 off bs)"
  shows "IPS32ProcessRecord junk ips = Ret (IPS32_OK, ips\<lparr>patch32 := Some (advance (length bs) p),
    rom32 := Some (path, fwrite bs (r\<lparr>spos := off, seof := False\<rparr>)),
    romSize32 := grow_romSize (of_nat off) (of_nat (length bs)) (romSize32 ips)\<rparr>)"
proof -
  have o: "IPS32_RECORD_OFFSET rc = of_nat off" using assms(5) by (simp add: IPS32_RECORD_OFFSET_def and_mask32)
  have u: "unat (of_nat (length bs) :: u32) = length bs" "sint (of_nat off :: u32) = int off"
    using assms(8) by (simp_all add: sint_word_of_nat32)
  show ?thesis
    by (simp add: IPS32ProcessRecord_def assms(1,2,4,6,7) o u Let_def
        copy_bytes_front [OF assms(3)] stdio_simps)
qed

lemma IPS32ProcessRecord_rle:
  assumes "patch32 ips = Some p" "rom32 ips = Some (path, r)"
    and "ips32_record ips = rc" "rec_offset32 rc = of_nat off" "rec_size32 rc = of_nat n" "rleSwitch rc = 1"
    and "ips32_item_ok (IRle32 off n b)" "ucast (rleData32 rc) = b"
  shows "IPS32ProcessRecord junk ips = Ret (IPS32_OK, ips\<lparr>patch32 := Some p,
    rom32 := Some (path, fwrite (replicate n b) (r\<lparr>spos := off, seof := False\<rparr>)),
    romSize32 := grow_romSize (of_nat off) (of_nat n) (romSize32 ips)\<rparr>)"
proof -
  have o: "IPS32_RECORD_OFFSET rc = of_nat off" using assms(4) by (simp add: IPS32_RECORD_OFFSET_def and_mask32)
  have u: "unat (of_nat n :: u32) = n" "sint (of_nat off :: u32) = int off"
    using assms(7) by (simp_all add: sint_word_of_nat32)
  show ?thesis
    by (simp add: IPS32ProcessRecord_def assms(1,2,3,5,6,8) o u Let_def stdio_simps)
qed

definition rom32_is :: "IPS32Patch \<Rightarrow> string \<Rightarrow> bytes \<Rightarrow> bytes \<Rightarrow> bool" where
  "rom32_is ips path d ys \<longleftrightarrow> (\<exists>r p. rom32 ips = Some (path, r) \<and> sdata r = d \<and> patch32 ips = Some p \<and> srest p = ys)"

lemma ips32_loop_item:
  assumes "rom32_is ips path d (ips32_enc it @ ys)" "ips32_item_ok it"
  shows "\<exists>ips'. ips32_loop junk ips = ips32_loop junk ips' \<and> rom32_is ips' path (apply_run (ips32_run it) d) ys"
proof -
  from assms(1) obtain r p where rp: "rom32 ips = Some (path, r)" "sdata r = d" "patch32 ips = Some p" "srest p = ips32_enc it @ ys"
    by (auto simp: rom32_is_def)
  show ?thesis
  proof (cases it)
    case (IData32 off bs)
    let ?ips1 = "ips\<lparr>patch32 := Some (advance 6 p),
      ips32_record := (ips32_record ips)\<lparr>rec_offset32 := of_nat off, rec_size32 := of_nat (length bs), rleSwitch := 0\<rparr>\<rparr>"
    have r1: "IPS32ReadRecord ips = Ret (IPS32_OK, ?ips1)"
      using rp assms(2) IData32 by (intro IPS32ReadRecord_data) auto
    have "srest (advance 6 p) = bs @ ys" using rp IData32 by (simp add: stdio_simps)
    then have "IPS32ProcessRecord junk ?ips1 = Ret (IPS32_OK, ?ips1\<lparr>patch32 := Some (advance (length bs) (advance 6 p)),
        rom32 := Some (path, fwrite bs (r\<lparr>spos := off, seof := False\<rparr>)),
        romSize32 := grow_romSize (of_nat off) (of_nat (length bs)) (romSize32 ?ips1)\<rparr>)"
      using rp assms(2) IData32 by (intro IPS32ProcessRecord_data) auto
    with r1 rp IData32 show ?thesis
      by (subst ips32_loop.simps) (auto simp: rom32_is_def stdio_simps)
  next
    case (IRle32 off n b)
    have "srest p = ips32_enc (IRle32 off n b) @ ys" using rp IRle32 by simp
    from IPS32ReadRecord_rle [OF rp(3) this] assms(2) IRle32 obtain w where
      r1: "IPS32ReadRecord ips = Ret (IPS32_OK, ips\<lparr>patch32 := Some (advance 9 p),
        ips32_record := \<lparr>rec_offset32 = of_nat off, rec_size32 = of_nat n, rleSwitch = 1, rleData32 = w\<rparr>\<rparr>)" and w: "ucast w = b"
      by auto
    let ?ips1 = "ips\<lparr>patch32 := Some (advance 9 p),
        ips32_record := \<lparr>rec_offset32 = of_nat off, rec_size32 = of_nat n, rleSwitch = 1, rleData32 = w\<rparr>\<rparr>"
    have "IPS32ProcessRecord junk ?ips1 = Ret (IPS32_OK, ?ips1\<lparr>patch32 := Some (advance 9 p),
        rom32 := Some (path, fwrite (replicate n b) (r\<lparr>spos := off, seof := False\<rparr>)),
        romSize32 := grow_romSize (of_nat off) (of_nat n) (romSize32 ?ips1)\<rparr>)"
      using rp assms(2) IRle32 w by (intro IPS32ProcessRecord_rle) auto
    with r1 rp IRle32 show ?thesis
      by (subst ips32_loop.simps) (auto simp: rom32_is_def stdio_simps)
  qed
qed

interpretation ips32_records: record_loop "ips32_loop junk" "\<lambda>ips. rom32_is ips path" ips32_enc ips32_item_ok ips32_run
  for junk path
  by unfold_locales (rule ips32_loop_item)

definition ips32_tail_code :: "bytes \<Rightarrow> int option" where
  "ips32_tail_code t = (if length t < 4 then Some IPS32_ERROR_READ
     else if take 4 t = [0x45, 0x45, 0x4F, 0x46] then Some IPS32_PATCH_END else None)"

lemma ips32_loop_tail:
  assumes "rom32_is ips path d t" "ips32_tail_code t = Some e"
  shows "\<exists>ips'. ips32_loop junk ips = Ret (e, ips') \<and> rom32_is ips' path d (drop 4 t)"
proof -
  from assms(1) obtain r p where rp: "rom32 ips = Some (path, r)" "sdata r = d" "patch32 ips = Some p" "srest p = t"
    by (auto simp: rom32_is_def)
  obtain b p' where f: "fread 4 p = (b, p')" by (cases "fread 4 p")
  then have b: "b = take 4 t" "srest p' = drop 4 t"
    using rp srest_fread [of 4 p] fst_fread [of 4 p] by auto
  have "IPS32ReadRecord ips = Ret (e, ips\<lparr>patch32 := Some p', ips32_record := (ips32_record ips)\<lparr>rleSwitch := 0\<rparr>\<rparr>)"
  proof (cases "length t < 4")
    case True
    then show ?thesis using assms(2) rp f b by (simp add: IPS32ReadRecord_def ips32_tail_code_def)
  next
    case False
    with assms(2) b have "b = [0x45, 0x45, 0x4F, 0x46]" "e = IPS32_PATCH_END"
      by (auto simp: ips32_tail_code_def split: if_splits)
    then show ?thesis using rp f by (simp add: IPS32ReadRecord_def)
  qed
  moreover have "e \<noteq> IPS32_OK" using assms(2) by (auto simp: ips32_tail_code_def split: if_splits)
  ultimately show ?thesis
    using rp b by (subst ips32_loop.simps) (auto simp: rom32_is_def)
qed

lemma IPS32Open_ok:
  assumes "content fs patchPath = Some ([0x49, 0x50, 0x53, 0x33, 0x32] @ body)"
    and "content fs romPath = Some d" "0 < length d" "length d < 2 ^ 31"
    and "writable fs romPath" "writable fs (backupFileName romPath)" "backupFileName romPath \<noteq> romPath"
  shows "\<exists>ips1. IPS32Open ips patchPath (Some romPath) fs
      = Some (IPS32_OK, ips1, put_file (backupFileName romPath) d (put_file (backupFileName romPath) [] fs))
    \<and> rom32_is ips1 romPath d body"
proof -
  let ?hd = "[0x49, 0x50, 0x53, 0x33, 0x32] :: bytes"
  let ?f = "sopen (?hd @ body)"
  let ?ips0 = "ips\<lparr>patch32 := None, rom32 := None, romSize32 := 0,
            ips32_record := (ips32_record ips)\<lparr>rec_offset32 := 0, rec_size32 := 0\<rparr>\<rparr>"
  have "fread 5 (snd (fseek_set 0 ?f)) = (?hd, advance 5 (snd (fseek_set 0 ?f)))"
    by (rule fread_front [where ys = body]) (simp_all add: stdio_simps srest_def)
  then have p: "IPS32OpenPatch ?ips0 patchPath fs = (IPS32_OK, ?ips0\<lparr>patch32 := Some (advance 5 (snd (fseek_set 0 ?f)))\<rparr>)"
    using assms(1) by (simp add: IPS32OpenPatch_def fopen_rb_def stdio_simps Let_def)
  have r: "srest (advance 5 (snd (fseek_set 0 ?f))) = body"
    by (simp add: stdio_simps srest_def)
  let ?r = "snd (fseek_set 0 (snd (fseek_end 0 (sopen d))))"
  have rs: "unat (word_of_int (int (length d)) :: u32) = length d"
    using assms(4) by simp
  from copy_rom_all [of "length d" ?r 0 "sopen []"]
  obtain r' b' where c: "copy_rom (length d) 0 ?r (snd (fseek_set 0 (sopen []))) = Some (r', b')" "sdata r' = d" "sdata b' = d"
    by (auto simp: stdio_simps sopen_def)
  show ?thesis
    using assms p r c rs
    by (simp add: IPS32Open_def IPS32OpenInOUT_def fopen_rbp_def fopen_wb_def fclose_to_def stdio_simps ftell_def Let_def rom32_is_def)
qed

definition ips32_file :: "ips32_item list \<Rightarrow> bytes \<Rightarrow> bytes" where
  "ips32_file its t = [0x49, 0x50, 0x53, 0x33, 0x32] @ concat (map ips32_enc its) @ t"

lemma IPS32Close_rom:
  "rom32_is ips path d ys \<Longrightarrow> \<exists>ips'. IPS32Close ips fs = (ips', put_file path d fs) \<and> rom32 ips' = None \<and> patch32 ips' = None"
  by (auto simp: rom32_is_def IPS32Close_def fclose_to_def)

lemma IPS32Close_closed: "rom32 ips = None \<Longrightarrow> patch32 ips = None \<Longrightarrow> IPS32Close ips fs = (ips, fs)"
  by (simp add: IPS32Close_def)

section \<open>Every run ends with a return code\<close>

definition is_open32 :: "IPS32Patch \<Rightarrow> bool" where
  "is_open32 ips \<longleftrightarrow> rom32 ips \<noteq> None \<and> patch32 ips \<noteq> None"

lemma IPS32ReadRecord_open:
  assumes "is_open32 ips"
  shows "\<exists>e ips'. IPS32ReadRecord ips = Ret (e, ips') \<and> is_open32 ips' \<and> e \<in> {IPS32_OK, IPS32_ERROR_READ, IPS32_PATCH_END}"
  using assms by (auto simp: is_open32_def IPS32ReadRecord_def Let_def split: prod.splits)

lemma IPS32ProcessRecord_open:
  assumes "is_open32 ips"
  shows "\<exists>ips'. IPS32ProcessRecord junk ips = Ret (IPS32_OK, ips') \<and> is_open32 ips'"
  using assms by (auto simp: is_open32_def IPS32ProcessRecord_def Let_def split: prod.splits)

lemma ips32_loop_open:
  assumes "is_open32 ips"
  shows "\<exists>e ips'. ips32_loop junk ips = Ret (e, ips') \<and> is_open32 ips' \<and> e \<in> {IPS32_ERROR_READ, IPS32_PATCH_END}"
  using assms
proof (induction junk ips rule: ips32_loop.induct)
  case (1 junk ips)
  from IPS32ReadRecord_open [OF "1.prems"] obtain e ips1 where
    r: "IPS32ReadRecord ips = Ret (e, ips1)" "is_open32 ips1" "e \<in> {IPS32_OK, IPS32_ERROR_READ, IPS32_PATCH_END}" by blast
  from IPS32ProcessRecord_open [OF r(2), of junk] obtain ips2 where
    p: "IPS32ProcessRecord junk ips1 = Ret (IPS32_OK, ips2)" "is_open32 ips2" by blast
  show ?case
  proof (cases "e = IPS32_OK")
    case True
    with "1.IH" [OF r(1) refl True p(1) refl refl p(2)] r p show ?thesis
      by (subst ips32_loop.simps) simp
  next
    case False
    with r show ?thesis by (subst ips32_loop.simps) auto
  qed
qed

lemma IPS32OpenInOUT_cases:
  assumes "backupFileName romPath \<noteq> romPath"
  shows "\<exists>e ips' fs'. IPS32OpenInOUT ips (Some romPath) fs = Some (e, ips', fs') \<and> patch32 ips' = patch32 ips
     \<and> (e = IPS32_OK \<longrightarrow> rom32 ips' \<noteq> None)"
  using copy_rom_from_start assms
  by (auto simp: IPS32OpenInOUT_def fopen_rbp_def fopen_wb_def ftell_def stdio_simps Let_def
      split: option.splits prod.splits if_splits) fastforce+

lemma IPS32OpenPatch_OK:
  "IPS32OpenPatch ips p fs = (e, ips') \<Longrightarrow> e = IPS32_OK \<Longrightarrow> patch32 ips' \<noteq> None"
  by (auto simp: IPS32OpenPatch_def Let_def split: option.splits prod.splits if_splits)

lemma IPS32Close_closes: "\<exists>ips' fs'. IPS32Close ips fs = (ips', fs') \<and> rom32 ips' = None \<and> patch32 ips' = None"
  by (auto simp: IPS32Close_def split: option.splits prod.splits)

lemma IPS32Open_cases:
  assumes "backupFileName romPath \<noteq> romPath"
  shows "\<exists>e ips' fs'. IPS32Open ips patchPath (Some romPath) fs = Some (e, ips', fs') \<and>
     (e = IPS32_OK \<and> is_open32 ips' \<or> e = IPS32_ERROR_OPEN \<and> rom32 ips' = None \<and> patch32 ips' = None)"
proof -
  let ?ips0 = "ips\<lparr>patch32 := None, rom32 := None, romSize32 := 0,
            ips32_record := (ips32_record ips)\<lparr>rec_offset32 := 0, rec_size32 := 0\<rparr>\<rparr>"
  obtain e1 ips1 where p: "IPS32OpenPatch ?ips0 patchPath fs = (e1, ips1)" by (cases "IPS32OpenPatch ?ips0 patchPath fs")
  from IPS32OpenInOUT_cases [OF assms, of ips1 fs] obtain e2 ips2 fs2 where
    q: "IPS32OpenInOUT ips1 (Some romPath) fs = Some (e2, ips2, fs2)" "patch32 ips2 = patch32 ips1" "e2 = IPS32_OK \<longrightarrow> rom32 ips2 \<noteq> None" by blast
  show ?thesis
    using p q IPS32OpenPatch_OK [OF p] IPS32Close_closes [of ips1 fs] IPS32Close_closes [of ips2 fs2]
    by (auto simp: IPS32Open_def is_open32_def Let_def)
qed

section \<open>Properties\<close>

text \<open>C20: applying a well-formed IPS32 file.  A file that is the magic, the encodings of items in
  the format's range and a tail changes the ROM by exactly those items in order, keeps a backup of
  the old content and leaves the patch32 alone; the entry point returns 0 when the tail starts with
  the end marker and the read error -5 when the file stops instead.\<close>

theorem ips32_apply_correct:
  assumes "content fs patchPath = Some (ips32_file its t)"
    and "list_all ips32_item_ok its" "ips32_tail_code t = Some e"
    and "content fs romPath = Some d" "0 < length d" "length d < 2 ^ 31"
    and "writable fs romPath" "writable fs (backupFileName romPath)"
    and "distinct [romPath, patchPath, backupFileName romPath]"
  shows "\<exists>fs'. ips32PatchRom junk ips romPath patchPath fs = Some (Ret (e, fs'))
    \<and> content fs' romPath = Some (apply_runs (map ips32_run its) d)
    \<and> content fs' (backupFileName romPath) = Some d
    \<and> content fs' patchPath = content fs patchPath"
proof -
  let ?bak = "backupFileName romPath"
  let ?fs1 = "put_file ?bak d (put_file ?bak [] fs)"
  from IPS32Open_ok [of fs patchPath "concat (map ips32_enc its) @ t" romPath d "IPS32Reset ips"] assms
  obtain ips1 where o: "IPS32Open (IPS32Reset ips) patchPath (Some romPath) fs = Some (IPS32_OK, ips1, ?fs1)"
    "rom32_is ips1 romPath d (concat (map ips32_enc its) @ t)"
    by (auto simp: ips32_file_def)
  from ips32_records.loop_items [OF o(2) assms(2), of junk] obtain ips2 where l1: "ips32_loop junk ips1 = ips32_loop junk ips2"
    "rom32_is ips2 romPath (apply_runs (map ips32_run its) d) t" by auto
  from ips32_loop_tail [OF l1(2) assms(3), of junk] obtain ips3 where l2: "ips32_loop junk ips2 = Ret (e, ips3)"
    "rom32_is ips3 romPath (apply_runs (map ips32_run its) d) (drop 4 t)" by auto
  from IPS32Close_rom [OF l2(2), of ?fs1] obtain ips4 where
    "IPS32Close ips3 ?fs1 = (ips4, put_file romPath (apply_runs (map ips32_run its) d) ?fs1)" "rom32 ips4 = None" "patch32 ips4 = None"
    by auto
  then show ?thesis using o(1) l1(1) l2(1) assms(9)
    by (auto simp: ips32PatchRom_def IPS32Close_closed stdio_simps)
qed
theorem ips32_apply_correct_witness:
  "\<exists>fs'. ips32PatchRom (\<lambda>_. 0) \<lparr>rom32 = None, romSize32 = 0, patch32 = None, ips32_record = \<lparr>rec_offset32 = 0, rec_size32 = 0, rleSwitch = 0, rleData32 = 0\<rparr>\<rparr>
       ''r'' ''p'' \<lparr>content = [''r'' \<mapsto> [1, 2, 3, 4], ''p'' \<mapsto> ips32_file [IData32 1 [9], IRle32 3 3 7] [0x45, 0x45, 0x4F, 0x46]], writable = \<lambda>_. True\<rparr>
     = Some (Ret (0, fs'))
   \<and> content fs' ''r'' = Some [1, 9, 3, 7, 7, 7] \<and> content fs' ''r.bak'' = Some [1, 2, 3, 4]"
  using ips32_apply_correct [of "\<lparr>content = [''r'' \<mapsto> [1, 2, 3, 4], ''p'' \<mapsto> ips32_file [IData32 1 [9], IRle32 3 3 7] [0x45, 0x45, 0x4F, 0x46]], writable = \<lambda>_. True\<rparr>"
     "''p''" "[IData32 1 [9], IRle32 3 3 7]" "[0x45, 0x45, 0x4F, 0x46]" 0 "''r''" "[1, 2, 3, 4]"  "\<lambda>_. 0"
     "\<lparr>rom32 = None, romSize32 = 0, patch32 = None, ips32_record = \<lparr>rec_offset32 = 0, rec_size32 = 0, rleSwitch = 0, rleData32 = 0\<rparr>\<rparr>"]
  by (auto simp: ips32_tail_code_def backupFileName_def run_simps overwrite_def numeral_3_eq_3)

text \<open>Whatever the files hold, the entry point returns: the backup loop and the patch32 loop
  end, no null stream is used, and the code is 0 (end marker), -3 (open) or -5 (read).\<close>

theorem ips32_always_returns:
  assumes "distinct [romPath, patchPath, backupFileName romPath]"
  shows "\<exists>e fs'. ips32PatchRom junk ips romPath patchPath fs = Some (Ret (e, fs'))
     \<and> e \<in> {IPS32_PATCH_END, IPS32_ERROR_OPEN, IPS32_ERROR_READ}"
proof -
  have b: "backupFileName romPath \<noteq> romPath" using assms by auto
  from IPS32Open_cases [OF b, of "IPS32Reset ips" patchPath fs] obtain e ips1 fs1 where
    o: "IPS32Open (IPS32Reset ips) patchPath (Some romPath) fs = Some (e, ips1, fs1)"
    "e = IPS32_OK \<and> is_open32 ips1 \<or> e = IPS32_ERROR_OPEN" by blast
  show ?thesis
  proof (cases "e = IPS32_OK")
    case True
    with o ips32_loop_open [of ips1 junk] assms show ?thesis
      by (auto simp: ips32PatchRom_def split: prod.splits)
  next
    case False
    with o show ?thesis by (simp add: ips32PatchRom_def)
  qed
qed

theorem ips32_always_returns_witness:
  "\<exists>e fs'. ips32PatchRom (\<lambda>_. 0) \<lparr>rom32 = None, romSize32 = 0, patch32 = None, ips32_record = \<lparr>rec_offset32 = 0, rec_size32 = 0, rleSwitch = 0, rleData32 = 0\<rparr>\<rparr> ''r'' ''p''
       \<lparr>content = [''r'' \<mapsto> [1, 2], ''p'' \<mapsto> [0x49, 0x50, 0x53, 0x33, 0x32] @ [0, 0, 1]], writable = \<lambda>_. True\<rparr> = Some (Ret (e, fs'))
     \<and> e \<in> {IPS32_PATCH_END, IPS32_ERROR_OPEN, IPS32_ERROR_READ}"
  by (rule ips32_always_returns) (simp add: backupFileName_def)

text \<open>The name of the backup is cut off: a ROM whose path has 512 characters before its \<^verbatim>\<open>.bak\<close> is its own backup.  It is
  emptied, and the copy loop then never ends.\<close>

theorem ips32_own_backup_never_returns:
  assumes "content fs patchPath = Some ([0x49, 0x50, 0x53, 0x33, 0x32] @ body)" "content fs romPath = Some d" "0 < length d" "length d < 2 ^ 31"
    and "writable fs romPath" "backupFileName romPath = romPath"
  shows "ips32PatchRom junk ips romPath patchPath fs = None"
proof -
  let ?f = "sopen ([0x49, 0x50, 0x53, 0x33, 0x32] @ body)"
  have h: "fread 5 (snd (fseek_set 0 ?f)) = ([0x49, 0x50, 0x53, 0x33, 0x32], advance 5 (snd (fseek_set 0 ?f)))"
    by (rule fread_front [where ys = body]) (simp_all add: stdio_simps srest_def)
  have n: "unat (word_of_int (int (length d)) :: u32) = length d" using assms(4) by simp
  have e: "copy_rom (length d) 0 (r\<lparr>sdata := []\<rparr>) b = None" for r b
    using assms(3) by (subst copy_rom.simps) (simp add: fread_def srest_def)
  have "IPS32OpenInOUT i (Some romPath) fs = None" for i
    using assms n e by (simp add: IPS32OpenInOUT_def fopen_rbp_def fopen_wb_def ftell_def truncated_same stdio_simps Let_def)
  then show ?thesis
    using assms(1) h by (simp add: ips32PatchRom_def IPS32Open_def IPS32OpenPatch_def fopen_rb_def stdio_simps Let_def)
qed

theorem ips32_own_backup_never_returns_witness:
  "let r = replicate 512 CHR ''x'' @ ''.bak'' in
   ips32PatchRom (\<lambda>_. 0) \<lparr>rom32 = None, romSize32 = 0, patch32 = None, ips32_record = \<lparr>rec_offset32 = 0, rec_size32 = 0, rleSwitch = 0, rleData32 = 0\<rparr>\<rparr> r ''p'' \<lparr>content = [r \<mapsto> [1], ''p'' \<mapsto> [0x49, 0x50, 0x53, 0x33, 0x32]], writable = \<lambda>_. True\<rparr> = None"
proof -
  let ?r = "replicate 512 CHR ''x'' @ ''.bak''"
  have "hd ?r \<noteq> hd ''p''" by simp
  then have "?r \<noteq> ''p''" by metis
  then show ?thesis unfolding Let_def
    by (intro ips32_own_backup_never_returns [where body = "[]" and d = "[1]"]) (simp_all add: backupFileName_def)
qed

text \<open>A patch32 that is missing or does not start with the five magic bytes is refused with
  -3 and no file changes.\<close>

theorem ips32_rejects_other_files:
  assumes "case content fs patchPath of None \<Rightarrow> True | Some d \<Rightarrow> take 5 d \<noteq> [0x49, 0x50, 0x53, 0x33, 0x32]"
  shows "ips32PatchRom junk ips romPath patchPath fs = Some (Ret (IPS32_ERROR_OPEN, fs))"
proof -
  let ?ips0 = "(IPS32Reset ips)\<lparr>patch32 := None, rom32 := None, romSize32 := 0,
            ips32_record := (ips32_record (IPS32Reset ips))\<lparr>rec_offset32 := 0, rec_size32 := 0\<rparr>\<rparr>"
  have "fst (IPS32OpenPatch ?ips0 patchPath fs) \<noteq> IPS32_OK \<and> rom32 (snd (IPS32OpenPatch ?ips0 patchPath fs)) = None"
  proof (cases "content fs patchPath")
    case None
    then show ?thesis by (simp add: IPS32OpenPatch_def fopen_rb_def)
  next
    case (Some d)
    have h: "header = [header ! 0, header ! 1, header ! 2, header ! 3, header ! 4]" if "length header = 5" for header :: bytes
      using that by (auto simp: numeral_eq_Suc length_Suc_conv)
    show ?thesis using Some assms h [of "take 5 d"]
      by (auto simp: IPS32OpenPatch_def fopen_rb_def stdio_simps fread_def srest_def Let_def)
  qed
  then show ?thesis
    by (auto simp: ips32PatchRom_def IPS32Open_def IPS32Close_def Let_def split: prod.splits option.splits)
qed

theorem ips32_rejects_other_files_witness:
  "ips32PatchRom (\<lambda>_. 0) \<lparr>rom32 = None, romSize32 = 0, patch32 = None, ips32_record = \<lparr>rec_offset32 = 0, rec_size32 = 0, rleSwitch = 0, rleData32 = 0\<rparr>\<rparr>
       ''r'' ''p'' \<lparr>content = [''p'' \<mapsto> [0x49, 0x50, 0x53]], writable = \<lambda>_. True\<rparr>
     = Some (Ret (-3, \<lparr>content = [''p'' \<mapsto> [0x49, 0x50, 0x53]], writable = \<lambda>_. True\<rparr>))"
  by (rule ips32_rejects_other_files) simp

text \<open>An offset with the top bit set is not reached: the data of the record lands wherever the
  ROM's stream happens to stand.\<close>

lemma ips32_high_offset_misplaced:
  "IPS32ProcessRecord (\<lambda>_. 0) \<lparr>rom32 = Some (''r'', sopen [1, 2, 3]), romSize32 = 3, patch32 = Some (sopen [9]),
     ips32_record = \<lparr>rec_offset32 = 0x80000000, rec_size32 = 1, rleSwitch = 0, rleData32 = 0\<rparr>\<rparr>
   = Ret (1, \<lparr>rom32 = Some (''r'', \<lparr>sdata = [9, 2, 3], spos = 1, seof = False\<rparr>), romSize32 = 5,
       patch32 = Some \<lparr>sdata = [9], spos = 1, seof = False\<rparr>,
       ips32_record = \<lparr>rec_offset32 = 0x80000000, rec_size32 = 1, rleSwitch = 0, rleData32 = 0\<rparr>\<rparr>)"
  by (simp add: IPS32ProcessRecord_def IPS32_RECORD_OFFSET_def stdio_simps grow_romSize_def fread_into_def
      fread_def srest_def sopen_def fwrite_def overwrite_def)

end
