(* ===== verification/Aps.thy ===== *)
theory Aps
  imports Runs
begin

text \<open>
  Applying an APS patch to a Nintendo 64 image, \<^verbatim>\<open>jni/apsn64patcher/n64aps.c\<close>: the three
  headers with their checks, the resizing of the image, the record loop and \<^verbatim>\<open>main\<close> after the
  options have been read.  \<^verbatim>\<open>long\<close> is 32 bits wide and little-endian on the targets.  Local variables
  that a short read leaves unset take their content from the \<open>junk\<close> argument.  A patch that is the image itself, which
  the records would overwrite while they are read, has no result.
\<close>

section \<open>Model\<close>

definition Magic :: bytes where
  "Magic = [0x41, 0x50, 0x53, 0x31, 0x30]"

abbreviation DESCRIPTION_LEN :: nat where "DESCRIPTION_LEN \<equiv> 50"

datatype fmode = RB | RBP | WB

definition CheckFile :: "string \<Rightarrow> fmode \<Rightarrow> fsys \<Rightarrow> bool \<times> fsys" where
  "CheckFile Filename mode fs = (case mode of
      RB \<Rightarrow> (fopen_rb Filename fs \<noteq> None, fs)
    | RBP \<Rightarrow> (fopen_rbp Filename fs \<noteq> None, fs)
    | WB \<Rightarrow> (case fopen_wb Filename fs of
               None \<Rightarrow> (False, fs)
             | Some (_, fs') \<Rightarrow> (True, unlink Filename fs')))"

record aps_state =
  APSFile :: stream
  ORGFile :: stream
  PatchType :: byte
  EncodingMethod :: byte

definition ReadStdHeader :: "memory \<Rightarrow> aps_state \<Rightarrow> aps_state ctl" where
  "ReadStdHeader junk s =
     (let (_, aMagic, a1) = fread_into (uninit junk 0 5) 5 (APSFile s);
          s = s\<lparr>APSFile := a1\<rparr> in
      if aMagic \<noteq> Magic then Leave 1 s
      else
        let (_, pt, a2) = fread_into [PatchType s] 1 (APSFile s);
            s = s\<lparr>APSFile := a2, PatchType := pt ! 0\<rparr> in
        if PatchType s \<noteq> 1 then Leave 1 s
        else
          let (_, em, a3) = fread_into [EncodingMethod s] 1 (APSFile s);
              s = s\<lparr>APSFile := a3, EncodingMethod := em ! 0\<rparr> in
          if EncodingMethod s \<noteq> 0 then Leave 1 s
          else
            let (_, a4) = fread DESCRIPTION_LEN (APSFile s) in Cont (s\<lparr>APSFile := a4\<rparr>))"

text \<open>Exchanging the bytes of each 16-bit unit, as a Doctor V64 image stores them.\<close>

fun swap16 :: "bytes \<Rightarrow> bytes" where
  "swap16 (a # b # r) = b # a # swap16 r"
| "swap16 r = r"

definition getc_skip :: "stream \<Rightarrow> stream" where
  "getc_skip s = snd (fgetc s)"

definition ReadN64Header :: "memory \<Rightarrow> bool \<Rightarrow> aps_state \<Rightarrow> aps_state ctl" where
  "ReadN64Header junk Force s =
     (let (_, o1) = fseek_set 0 (ORGFile s);
          (_, magicbuf, o2) = fread_into (uninit junk 10 4) 4 o1;
          MagicTest = le_val magicbuf;
          (_, Buffer, a1) = fread_into (uninit junk 20 8) 1 (APSFile s);
          s = s\<lparr>ORGFile := o2, APSFile := a1\<rparr> in
      if (MagicTest = 0x12408037 \<and> Buffer ! 0 = 1) \<or> (MagicTest \<noteq> 0x12408037 \<and> Buffer ! 0 = 0)
      then Leave 1 s
      else
        let (_, o3) = fseek_set 60 (ORGFile s);
            (_, CartID, o4) = fread_into (uninit junk 30 2) 2 o3;
            (_, Buffer, a2) = fread_into Buffer 2 (APSFile s);
            CartID = (if MagicTest = 0x12408037 then swap16 CartID else CartID);
            s = s\<lparr>ORGFile := o4, APSFile := a2\<rparr> in
        if Buffer ! 0 \<noteq> CartID ! 0 \<or> Buffer ! 1 \<noteq> CartID ! 1 then Leave 1 s
        else
          let (_, o5) = fseek_set (if MagicTest = 0x12408037 then 63 else 62) (ORGFile s);
              (_, Teritory, o6) = fread_into (uninit junk 40 1) 1 o5;
              (_, APSTeritory, a3) = fread_into (uninit junk 41 1) 1 (APSFile s);
              s = s\<lparr>ORGFile := o6, APSFile := a3\<rparr> in
          if Teritory ! 0 \<noteq> APSTeritory ! 0 \<and> \<not> Force then Leave 1 s
          else
            let (_, o7) = fseek_set 0x10 (ORGFile s);
                (_, Buffer, o8) = fread_into Buffer 8 o7;
                (_, APSBuffer, a4) = fread_into (uninit junk 50 8) 8 (APSFile s);
                Buffer = (if MagicTest = 0x12408037 then swap16 Buffer else Buffer);
                s = s\<lparr>ORGFile := o8, APSFile := a4\<rparr> in
            if APSBuffer \<noteq> Buffer \<and> \<not> Force then Leave 1 s
            else
              let (_, o9) = fseek_set 0 (ORGFile s);
                  a5 = getc_skip (getc_skip (getc_skip (getc_skip (getc_skip (APSFile s)))))
              in Cont (s\<lparr>ORGFile := o9, APSFile := a5\<rparr>))"

definition ftruncate :: "int \<Rightarrow> bytes \<Rightarrow> bytes" where
  "ftruncate n d = (if n < 0 then d else take (nat n) (d @ replicate (nat n - length d) 0))"

definition ReadSizeHeader :: "memory \<Rightarrow> aps_state \<Rightarrow> aps_state" where
  "ReadSizeHeader junk s =
     (let (_, o1) = fseek_end 0 (ORGFile s);
          OrigSize = ftell o1;
          (_, szbuf, a1) = fread_into (uninit junk 60 4) 4 (APSFile s);
          APSOrigSize = le_int32 szbuf;
          o2 = (if OrigSize \<noteq> APSOrigSize then
                  (if APSOrigSize < OrigSize then sopen (ftruncate APSOrigSize (sdata o1))
                   else fputc_times (nat (APSOrigSize - OrigSize)) 0 o1)
                else o1);
          (_, o3) = fseek_set 0 o2
      in s\<lparr>ORGFile := o3, APSFile := a1\<rparr>)"

text \<open>The record loop.  \<open>offbuf\<close>, \<open>Size\<close> and \<open>Buffer\<close> are the locals that live across rounds.\<close>

function ReadPatch_loop :: "memory \<Rightarrow> bytes \<Rightarrow> byte \<Rightarrow> bytes \<Rightarrow> aps_state \<Rightarrow> aps_state ctl" where
  "ReadPatch_loop junk offbuf Size Buffer s =
     (let (n, offbuf, a1) = fread_into offbuf 4 (APSFile s) in
      if n < 4 then Cont (s\<lparr>APSFile := a1\<rparr>)
      else
        let Offset = le_int32 offbuf;
            (_, sz, a2) = fread_into [Size] 1 a1;
            Size = sz ! 0 in
        if Size \<noteq> 0 then
          let (_, Buffer, a3) = fread_into Buffer (unat Size) a2;
              (r, o1) = fseek_set Offset (ORGFile s) in
          if r \<noteq> 0 then Leave 1 (s\<lparr>APSFile := a3\<rparr>)
          else ReadPatch_loop junk offbuf Size Buffer
                 (s\<lparr>APSFile := a3, ORGFile := fwrite (take (unat Size) Buffer) o1\<rparr>)
        else
          let (_, data, a3) = fread_into (uninit junk 70 1) 1 a2;
              (_, len, a4) = fread_into (uninit junk 71 1) 1 a3;
              (r, o1) = fseek_set Offset (ORGFile s) in
          if r \<noteq> 0 then Leave 1 (s\<lparr>APSFile := a4\<rparr>)
          else ReadPatch_loop junk offbuf Size Buffer
                 (s\<lparr>APSFile := a4, ORGFile := fputc_times (unat (len ! 0)) (data ! 0) o1\<rparr>))"
  by pat_completeness auto
termination
  by (relation "measure (\<lambda>(_, _, _, _, s). length (srest (APSFile s)))")
    (auto dest!: fread_into_eq_lengths [OF sym] simp: min_def split: if_splits)

declare ReadPatch_loop.simps [simp del]

definition ReadPatch :: "memory \<Rightarrow> aps_state \<Rightarrow> aps_state ctl" where
  "ReadPatch junk s = ReadPatch_loop junk (uninit junk 80 4) (junk 84) (uninit junk 100 256) s"

text \<open>\<^verbatim>\<open>main\<close> with the options read: \<open>args\<close> are the arguments behind them.  The paths are copied into
  buffers of 1024 bytes.\<close>

definition n64aps_main :: "memory \<Rightarrow> bool \<Rightarrow> string list \<Rightarrow> fsys \<Rightarrow> fsys outcome" where
  "n64aps_main junk Force args fs =
     (if length args \<noteq> 2 then Returned 1 fs
      else if length (args ! 0) \<ge> 1024 \<or> length (args ! 1) \<ge> 1024 then Undefined
      else
        let File1 = args ! 0; File2 = args ! 1;
            (ok1, fs) = CheckFile File1 RBP fs in
        if \<not> ok1 then Returned 1 fs
        else
          let (ok2, fs) = CheckFile File2 RB fs in
          if \<not> ok2 then Returned 1 fs
          else (case (fopen_rbp File1 fs, fopen_rb File2 fs) of
              (Some org, Some aps) \<Rightarrow>
                if File1 = File2 then Undefined
                else
                let s0 = \<lparr>APSFile = aps, ORGFile = org, PatchType = 1, EncodingMethod = 0\<rparr> in
                (case ctl_bind (ctl_bind (ReadStdHeader junk s0) (ReadN64Header junk Force))
                        (\<lambda>s. ReadPatch junk (ReadSizeHeader junk s)) of
                   Cont s \<Rightarrow> Returned 0 (fclose_to File1 (ORGFile s) fs)
                 | Leave n s \<Rightarrow> Exited n (fclose_to File1 (ORGFile s) fs))
            | _ \<Rightarrow> Undefined))"

text \<open>The native entry point passes \<^verbatim>\<open>-f\<close>.\<close>

definition apsN64PatchRom :: "memory \<Rightarrow> string \<Rightarrow> string \<Rightarrow> fsys \<Rightarrow> fsys outcome" where
  "apsN64PatchRom junk romPath patchPath fs = n64aps_main junk True [romPath, patchPath] fs"

section \<open>Records\<close>

datatype aps_item = ARun nat bytes | ARle nat nat byte

fun aps_enc :: "aps_item \<Rightarrow> bytes" where
  "aps_enc (ARun off bs) = le_bytes 4 off @ [of_nat (length bs)] @ bs"
| "aps_enc (ARle off n b) = le_bytes 4 off @ [0, b, of_nat n]"

fun aps_run :: "aps_item \<Rightarrow> run" where
  "aps_run (ARun off bs) = (off, bs)"
| "aps_run (ARle off n b) = (off, replicate n b)"

fun aps_item_ok :: "aps_item \<Rightarrow> bool" where
  "aps_item_ok (ARun off bs) \<longleftrightarrow> off < 2 ^ 31 \<and> 0 < length bs \<and> length bs < 256"
| "aps_item_ok (ARle off n b) \<longleftrightarrow> off < 2 ^ 31 \<and> n < 256"

text \<open>The loop in a state where the ROM holds \<open>d\<close> and \<open>ys\<close> is left of the patch; the buffers of
  the locals have the sizes of their declarations.\<close>

definition aps_loop_view :: "bytes \<times> byte \<times> bytes \<times> aps_state \<Rightarrow> bytes \<Rightarrow> bytes \<Rightarrow> bool" where
  "aps_loop_view p d ys \<longleftrightarrow> (case p of (offbuf, Size, Buffer, s) \<Rightarrow>
     length offbuf = 4 \<and> sdata (ORGFile s) = d \<and> srest (APSFile s) = ys)"

definition aps_loop :: "memory \<Rightarrow> bytes \<times> byte \<times> bytes \<times> aps_state \<Rightarrow> aps_state ctl" where
  "aps_loop junk p = (case p of (offbuf, Size, Buffer, s) \<Rightarrow> ReadPatch_loop junk offbuf Size Buffer s)"

lemma aps_loop_item:
  assumes v: "aps_loop_view p d (aps_enc it @ ys)" and ok: "aps_item_ok it"
  shows "\<exists>p'. aps_loop junk p = aps_loop junk p' \<and> aps_loop_view p' (apply_run (aps_run it) d) ys"
proof -
  obtain ob Sz Buf s where p: "p = (ob, Sz, Buf, s)" by (metis prod_cases4)
  have s: "length ob = 4" "sdata (ORGFile s) = d" "srest (APSFile s) = aps_enc it @ ys"
    using v p by (auto simp: aps_loop_view_def)
  let ?a = "APSFile s"
  show ?thesis
  proof (cases it)
    case (ARun off bs)
    have f1: "fread_into ob 4 ?a = (4, le_bytes 4 off, advance 4 ?a)"
      using s ARun fread_into_front [of ?a "le_bytes 4 off" _ 4 ob] by simp
    have f2: "fread_into [Sz] 1 (advance 4 ?a) = (1, [of_nat (length bs)], advance 1 (advance 4 ?a))"
      using s ARun fread_into_front [of "advance 4 ?a" "[of_nat (length bs)]" "bs @ ys" 1 "[Sz]"]
      by (simp add: stdio_simps)
    have z: "(of_nat (length bs) :: byte) \<noteq> 0" "unat (of_nat (length bs) :: byte) = length bs"
      using ok ARun word_of_nat_neq_0 [of "length bs", where 'a = 8] by auto
    have f3: "fread_into Buf (length bs) (advance 5 ?a) = (length bs, bs @ drop (length bs) Buf, advance (length bs) (advance 5 ?a))"
      using s ARun by (intro fread_into_front [where ys = ys]) (simp_all add: stdio_simps)
    let ?s' = "s\<lparr>APSFile := advance (length bs) (advance 5 ?a), ORGFile := fwrite bs (ORGFile s\<lparr>spos := off, seof := False\<rparr>)\<rparr>"
    have "aps_loop junk p = aps_loop junk (le_bytes 4 off, of_nat (length bs), bs @ drop (length bs) Buf, ?s')"
      unfolding aps_loop_def p
      using ok ARun z(1)
      by (simp add: ReadPatch_loop.simps [of _ ob] f1 f2 f3 z(2) codec_simps stdio_simps del: unat_of_nat_byte One_nat_def)
    moreover have "aps_loop_view (le_bytes 4 off, of_nat (length bs), bs @ drop (length bs) Buf, ?s') (apply_run (aps_run it) d) ys"
      using s ARun by (simp add: aps_loop_view_def stdio_simps)
    ultimately show ?thesis by blast
  next
    case (ARle off n b)
    have f1: "fread_into ob 4 ?a = (4, le_bytes 4 off, advance 4 ?a)"
      using s ARle fread_into_front [of ?a "le_bytes 4 off" _ 4 ob] by simp
    have f2: "fread_into [Sz] 1 (advance 4 ?a) = (1, [0], advance 1 (advance 4 ?a))"
      using s ARle fread_into_front [of "advance 4 ?a" "[0]" "b # of_nat n # ys" 1 "[Sz]"]
      by (simp add: stdio_simps)
    have f3: "fread_into (uninit junk 70 1) 1 (advance 5 ?a) = (1, [b], advance 1 (advance 5 ?a))"
      using s ARle fread_into_front [of "advance 5 ?a" "[b]" "of_nat n # ys" 1 "uninit junk 70 1"]
      by (simp add: stdio_simps uninit_def)
    have f4: "fread_into (uninit junk 71 1) 1 (advance 6 ?a) = (1, [of_nat n], advance 1 (advance 6 ?a))"
      using s ARle fread_into_front [of "advance 6 ?a" "[of_nat n]" "ys" 1 "uninit junk 71 1"]
      by (simp add: stdio_simps uninit_def)
    have z: "unat (of_nat n :: byte) = n" using ok ARle by simp
    let ?s' = "s\<lparr>APSFile := advance 7 ?a, ORGFile := fwrite (replicate n b) (ORGFile s\<lparr>spos := off, seof := False\<rparr>)\<rparr>"
    have "aps_loop junk p = aps_loop junk (le_bytes 4 off, 0, Buf, ?s')"
      unfolding aps_loop_def p
      using ok ARle
      by (simp add: ReadPatch_loop.simps [of _ ob] f1 f2 f3 f4 z codec_simps stdio_simps del: unat_of_nat_byte One_nat_def)
    moreover have "aps_loop_view (le_bytes 4 off, 0, Buf, ?s') (apply_run (aps_run it) d) ys"
      using s ARle by (simp add: aps_loop_view_def stdio_simps)
    ultimately show ?thesis by blast
  qed
qed

interpretation aps_records: record_loop "aps_loop junk" aps_loop_view aps_enc aps_item_ok aps_run for junk
  by unfold_locales (rule aps_loop_item)

lemma ReadPatch_items:
  assumes "srest (APSFile s) = concat (map aps_enc its)" "list_all aps_item_ok its"
  shows "\<exists>s'. ReadPatch junk s = Cont s' \<and> sdata (ORGFile s') = apply_runs (map aps_run its) (sdata (ORGFile s))"
proof -
  let ?p = "(uninit junk 80 4, junk 84, uninit junk 100 256, s)"
  have "aps_loop_view ?p (sdata (ORGFile s)) (concat (map aps_enc its) @ [])"
    using assms by (simp add: aps_loop_view_def)
  from aps_records.loop_items [OF this assms(2), of junk] obtain p' where
    l: "aps_loop junk ?p = aps_loop junk p'" "aps_loop_view p' (apply_runs (map aps_run its) (sdata (ORGFile s))) []"
    by blast
  obtain ob Sz Buf s1 where p': "p' = (ob, Sz, Buf, s1)" by (metis prod_cases4)
  have "srest (APSFile s1) = []" using l(2) p' by (simp add: aps_loop_view_def)
  then have "ReadPatch_loop junk ob Sz Buf s1 = Cont (s1\<lparr>APSFile := (APSFile s1)\<lparr>seof := True\<rparr>\<rparr>)"
    by (subst ReadPatch_loop.simps) (simp add: fread_into_empty)
  then show ?thesis
    using l p' by (auto simp: ReadPatch_def aps_loop_def aps_loop_view_def)
qed

section \<open>Headers\<close>

definition n64_doc :: "bytes \<Rightarrow> bool" where
  "n64_doc org \<longleftrightarrow> le_val (take 4 org) = 0x12408037"

definition n64_field :: "nat \<Rightarrow> nat \<Rightarrow> bytes \<Rightarrow> bytes" where
  "n64_field p n org = (let c = take n (drop p org) in if n64_doc org then swap16 c else c)"

definition n64_terr :: "bytes \<Rightarrow> bytes" where
  "n64_terr org = take 1 (drop (if n64_doc org then 63 else 62) org)"

definition n64_id :: "bytes \<Rightarrow> bytes" where
  "n64_id org = [if n64_doc org then 0 else 1] @ n64_field 60 2 org @ n64_terr org @ n64_field 16 8 org"

definition aps_std :: "bytes \<Rightarrow> bytes" where
  "aps_std desc = Magic @ [1, 0] @ desc"

lemma length_swap16 [simp]: "length (swap16 xs) = length xs"
  by (induction xs rule: swap16.induct) simp_all

lemma length_n64_field [simp]: "p + n \<le> length org \<Longrightarrow> length (n64_field p n org) = n"
  by (simp add: n64_field_def Let_def)

lemma length_n64_terr [simp]: "64 \<le> length org \<Longrightarrow> length (n64_terr org) = 1"
  by (auto simp: n64_terr_def)

lemma getc_skip_front: "srest s = b # ys \<Longrightarrow> getc_skip s = advance 1 s"
  by (simp add: getc_skip_def fgetc_front)

lemma ReadStdHeader_ok:
  assumes "srest (APSFile s) = aps_std desc @ ys" "length desc = 50"
  shows "ReadStdHeader junk s = Cont (s\<lparr>APSFile := advance 57 (APSFile s), PatchType := 1, EncodingMethod := 0\<rparr>)"
proof -
  let ?a = "APSFile s"
  have r: "srest ?a = Magic @ 1 # 0 # desc @ ys" "length Magic = 5"
    using assms(1) by (simp_all add: aps_std_def Magic_def)
  have f1: "fread_into (uninit junk 0 5) 5 ?a = (5, Magic, advance 5 ?a)"
    using fread_into_front [of ?a Magic] r by simp
  have f2: "fread_into [b] 1 (advance 5 ?a) = (1, [1], advance 1 (advance 5 ?a))" for b
    using r by (subst fread_into_one [where b = 1]) (simp_all add: stdio_simps)
  have f3: "fread_into [b] 1 (advance 6 ?a) = (1, [0], advance 1 (advance 6 ?a))" for b
    using r by (subst fread_into_one [where b = 0]) (simp_all add: stdio_simps)
  have f4: "fread 50 (advance 7 ?a) = (desc, advance 50 (advance 7 ?a))"
    using r assms(2) by (intro fread_front) (simp_all add: stdio_simps)
  show ?thesis
    using f2 f3 f4 by (simp add: ReadStdHeader_def f1 stdio_simps)
qed

lemma ReadN64Header_ok:
  assumes "srest (APSFile s) = n64_id org @ [p1, p2, p3, p4, p5] @ ys" "sdata (ORGFile s) = org" "64 \<le> length org"
  shows "ReadN64Header junk Force s = Cont (s\<lparr>APSFile := advance 17 (APSFile s), ORGFile := sopen org\<rparr>)"
proof -
  let ?a = "APSFile s" and ?o = "ORGFile s"
  let ?c = "n64_field 60 2 org" and ?t = "n64_terr org" and ?k = "n64_field 16 8 org"
  have r: "srest ?a = (if n64_doc org then 0 else 1) # ?c @ ?t @ ?k @ [p1, p2, p3, p4, p5] @ ys"
    using assms(1) by (simp add: n64_id_def)
  have l: "length ?c = 2" "length ?t = 1" "length ?k = 8" using assms(3) by simp_all
  have a1: "fread_into buf 1 ?a = (1, (if n64_doc org then 0 else 1) # drop 1 buf, advance 1 ?a)" for buf
    using fread_into_front [of ?a "[if n64_doc org then 0 else 1]" _ 1] r by simp
  have a2: "fread_into buf 2 (advance 1 ?a) = (2, ?c @ drop 2 buf, advance 2 (advance 1 ?a))" for buf
    using r l by (intro fread_into_front) (simp_all add: stdio_simps)
  have a3: "fread_into buf 1 (advance 3 ?a) = (1, ?t @ drop 1 buf, advance 1 (advance 3 ?a))" for buf
    using r l by (intro fread_into_front) (simp_all add: stdio_simps)
  have a4: "fread_into buf 8 (advance 4 ?a) = (8, ?k @ drop 8 buf, advance 8 (advance 4 ?a))" for buf
    using r l by (intro fread_into_front) (simp_all add: stdio_simps)
  have pad: "srest (advance 12 ?a) = p1 # p2 # p3 # p4 # p5 # ys" "srest (advance 13 ?a) = p2 # p3 # p4 # p5 # ys"
    "srest (advance 14 ?a) = p3 # p4 # p5 # ys" "srest (advance 15 ?a) = p4 # p5 # ys" "srest (advance 16 ?a) = p5 # ys"
    using r l by (simp_all add: stdio_simps)
  have g: "getc_skip (getc_skip (getc_skip (getc_skip (getc_skip (advance 12 ?a))))) = advance 17 ?a"
    using pad [THEN getc_skip_front] by (simp add: advance_advance)
  have so: "?o\<lparr>spos := 0, seof := False\<rparr> = sopen org" using assms(2) by (simp add: sopen_def)
  have m: "le_val (take 4 org) = 0x12408037 \<longleftrightarrow> n64_doc org" by (simp add: n64_doc_def)
  note rd = ReadN64Header_def Let_def stdio_simps so fread_into_sopen fread_into_at m g
  show ?thesis
  proof (cases "n64_doc org")
    case True
    then have "swap16 (take 2 (drop 60 org)) = ?c" "take 1 (drop 63 org) = ?t" "swap16 (take 8 (drop 16 org)) = ?k"
      by (simp_all add: n64_field_def n64_terr_def)
    with True a1 a2 a3 a4 l assms(2,3) show ?thesis by (simp add: rd nth_append sopen_rewind del: One_nat_def)
  next
    case False
    then have "take 2 (drop 60 org) = ?c" "take 1 (drop 62 org) = ?t" "take 8 (drop 16 org) = ?k"
      by (simp_all add: n64_field_def n64_terr_def)
    with False a1 a2 a3 a4 l assms(2,3) show ?thesis by (simp add: rd nth_append sopen_rewind del: One_nat_def)
  qed
qed

lemma ReadSizeHeader_ok:
  assumes "srest (APSFile s) = le_bytes 4 n @ ys" "n < 2 ^ 31" "length (sdata (ORGFile s)) < 2 ^ 31"
  shows "\<exists>o'. ReadSizeHeader junk s = s\<lparr>APSFile := advance 4 (APSFile s), ORGFile := o'\<rparr>
    \<and> sdata o' = ftruncate (int n) (sdata (ORGFile s))"
proof -
  have f: "fread_into (uninit junk 60 4) 4 (APSFile s) = (4, le_bytes 4 n, advance 4 (APSFile s))"
    using fread_into_front [OF assms(1), of 4] by simp
  have t: "ftell ((ORGFile s)\<lparr>spos := length (sdata (ORGFile s)), seof := False\<rparr>) = int (length (sdata (ORGFile s)))"
    using assms(3) by (simp add: ftell_def)
  have n: "le_int32 (le_bytes 4 n) = int n" using assms(2) by (simp add: codec_simps)
  let ?d = "sdata (ORGFile s)" and ?o = "(ORGFile s)\<lparr>spos := length (sdata (ORGFile s)), seof := False\<rparr>"
  let ?o2 = "if length ?d = n then ?o else if n < length ?d then sopen (ftruncate (int n) ?d)
      else fwrite (replicate (n - length ?d) 0) ?o"
  have "ReadSizeHeader junk s = s\<lparr>APSFile := advance 4 (APSFile s), ORGFile := ?o2\<lparr>spos := 0, seof := False\<rparr>\<rparr>"
    unfolding ReadSizeHeader_def f Let_def prod.case fseek_end_0 t n by (auto simp: stdio_simps nat_minus_as_int)
  moreover have "sdata (?o2\<lparr>spos := 0, seof := False\<rparr>) = ftruncate (int n) ?d"
    by (auto simp: ftruncate_def stdio_simps overwrite_at_end)
  ultimately show ?thesis by blast
qed

section \<open>Applying a patch\<close>

definition aps_file :: "bytes \<Rightarrow> bytes \<Rightarrow> bytes \<Rightarrow> nat \<Rightarrow> bytes \<Rightarrow> bytes" where
  "aps_file desc org pad n records = aps_std desc @ n64_id org @ pad @ le_bytes 4 n @ records"

lemma length_aps_std: "length desc = 50 \<Longrightarrow> length (aps_std desc) = 57"
  by (simp add: aps_std_def Magic_def)

lemma length_n64_id: "64 \<le> length org \<Longrightarrow> length (n64_id org) = 12"
  by (simp add: n64_id_def)

lemma list5: "length pad = 5 \<Longrightarrow> \<exists>p1 p2 p3 p4 p5. pad = [p1, p2, p3, p4, p5]"
  by (auto simp: length_Suc_conv numeral_eq_Suc)

text \<open>The checks succeed, the image is brought to the size in the patch, and the records are applied.\<close>

lemma aps_phases:
  assumes p: "srest (APSFile s) = aps_file desc org pad n (concat (map aps_enc its))"
    and o: "sdata (ORGFile s) = org" "64 \<le> length org" "length org < 2 ^ 31"
    and l: "length desc = 50" "length pad = 5" "n < 2 ^ 31" "list_all aps_item_ok its"
  shows "\<exists>s'. ctl_bind (ctl_bind (ReadStdHeader junk s) (ReadN64Header junk Force))
      (\<lambda>s. ReadPatch junk (ReadSizeHeader junk s)) = Cont s'
    \<and> sdata (ORGFile s') = apply_runs (map aps_run its) (ftruncate (int n) org)"
proof -
  let ?body = "le_bytes 4 n @ concat (map aps_enc its)"
  let ?s1 = "s\<lparr>APSFile := advance 57 (APSFile s), PatchType := 1, EncodingMethod := 0\<rparr>"
  have 1: "ReadStdHeader junk s = Cont ?s1"
    using p l by (intro ReadStdHeader_ok) (simp_all add: aps_file_def)
  obtain p1 p2 p3 p4 p5 where pad: "pad = [p1, p2, p3, p4, p5]" using list5 l(2) by blast
  have r1: "srest (APSFile ?s1) = n64_id org @ [p1, p2, p3, p4, p5] @ ?body"
    using p l pad by (simp add: stdio_simps aps_file_def length_aps_std)
  let ?s2 = "?s1\<lparr>APSFile := advance 17 (APSFile ?s1), ORGFile := sopen org\<rparr>"
  have 2: "ReadN64Header junk Force ?s1 = Cont ?s2"
    using ReadN64Header_ok [OF r1] o by simp
  have r2: "srest (APSFile ?s2) = ?body"
    using p l pad o by (simp add: stdio_simps aps_file_def length_aps_std length_n64_id)
  obtain o' where 3: "ReadSizeHeader junk ?s2 = ?s2\<lparr>APSFile := advance 4 (APSFile ?s2), ORGFile := o'\<rparr>"
    "sdata o' = ftruncate (int n) org"
    using ReadSizeHeader_ok [OF r2 l(3), of junk] o by (auto simp: stdio_simps)
  let ?s3 = "?s2\<lparr>APSFile := advance 4 (APSFile ?s2), ORGFile := o'\<rparr>"
  have r3: "srest (APSFile ?s3) = concat (map aps_enc its)"
    using p l pad o by (simp add: stdio_simps aps_file_def length_aps_std length_n64_id)
  show ?thesis
    using ReadPatch_items [OF r3 l(4), of junk] 3 unfolding 1 2 by (simp add: 2 3)
qed

lemma ReadN64Header_other:
  assumes "srest (APSFile s) = fmt # cart @ ys" "length cart = 2" "sdata (ORGFile s) = org" "64 \<le> length org"
    and "cart \<noteq> n64_field 60 2 org"
  shows "\<exists>s'. ReadN64Header junk Force s = Leave 1 s' \<and> sdata (ORGFile s') = org"
proof -
  let ?a = "APSFile s" and ?o = "ORGFile s" and ?c = "n64_field 60 2 org"
  have a1: "fread_into buf 1 ?a = (1, fmt # drop 1 buf, advance 1 ?a)" for buf
    using fread_into_one [OF assms(1)] by simp
  have a2: "fread_into buf 2 (advance 1 ?a) = (2, cart @ drop 2 buf, advance 2 (advance 1 ?a))" for buf
    using assms by (intro fread_into_front) (simp_all add: stdio_simps)
  have so: "?o\<lparr>spos := 0, seof := False\<rparr> = sopen org" using assms by (simp add: sopen_def)
  have m: "le_val (take 4 org) = 0x12408037 \<longleftrightarrow> n64_doc org" by (simp add: n64_doc_def)
  have ne: "cart ! 0 \<noteq> ?c ! 0 \<or> cart ! 1 \<noteq> ?c ! 1"
    using assms nth_equalityI [of cart ?c] by (auto dest: less_2_cases)
  have c: "?c = (if n64_doc org then swap16 (take 2 (drop 60 org)) else take 2 (drop 60 org))"
    by (simp add: n64_field_def)
  show ?thesis
    using a1 a2 ne assms(2,3,4) c
    by (simp add: ReadN64Header_def Let_def stdio_simps so fread_into_sopen fread_into_at m nth_append del: One_nat_def)
qed

lemma n64aps_main_phases:
  assumes "content fs rom = Some org" "content fs patch = Some p" "writable fs rom" "length rom < 1024" "length patch < 1024"
    and "rom \<noteq> patch"
    and "ctl_bind (ctl_bind (ReadStdHeader junk \<lparr>APSFile = sopen p, ORGFile = sopen org, PatchType = 1, EncodingMethod = 0\<rparr>)
      (ReadN64Header junk Force)) (\<lambda>s. ReadPatch junk (ReadSizeHeader junk s)) = c"
  shows "n64aps_main junk Force [rom, patch] fs = (case c of
      Cont s \<Rightarrow> Returned 0 (put_file rom (sdata (ORGFile s)) fs)
    | Leave n s \<Rightarrow> Exited n (put_file rom (sdata (ORGFile s)) fs))"
  using assms by (cases c) (simp_all add: n64aps_main_def CheckFile_def fopen_rb_def fopen_rbp_def fclose_to_def Let_def)

definition n64_image :: "bytes \<Rightarrow> bytes" where
  "n64_image body = [0x80, 0x37, 0x12, 0x40] @ replicate 60 0 @ body"

text \<open>C22: for every list of well-formed records, runs and repeated bytes, a patch whose header carries the
  identification of the image makes \<^verbatim>\<open>n64aps\<close> return 0 and leave in the image file the image brought to the size in
  the patch with all records applied, whether or not the force option is given.  The image and the patch are different files.\<close>

theorem aps_apply_correct:
  assumes "content fs rom = Some org" "content fs patch = Some (aps_file desc org pad n (concat (map aps_enc its)))"
    and "writable fs rom" "length rom < 1024" "length patch < 1024" "rom \<noteq> patch"
    and "64 \<le> length org" "length org < 2 ^ 31"
    and "length desc = 50" "length pad = 5" "n < 2 ^ 31" "list_all aps_item_ok its"
  shows "n64aps_main junk Force [rom, patch] fs
    = Returned 0 (put_file rom (apply_runs (map aps_run its) (ftruncate (int n) org)) fs)"
proof -
  let ?p = "aps_file desc org pad n (concat (map aps_enc its))"
  let ?s0 = "\<lparr>APSFile = sopen ?p, ORGFile = sopen org, PatchType = 1, EncodingMethod = 0\<rparr>"
  have "srest (APSFile ?s0) = ?p" "sdata (ORGFile ?s0) = org" by (simp_all add: stdio_simps)
  from aps_phases [OF this assms(7-12), of junk Force] obtain s' where
    "ctl_bind (ctl_bind (ReadStdHeader junk ?s0) (ReadN64Header junk Force)) (\<lambda>s. ReadPatch junk (ReadSizeHeader junk s)) = Cont s'"
    "sdata (ORGFile s') = apply_runs (map aps_run its) (ftruncate (int n) org)" by blast
  with n64aps_main_phases [OF assms(1-6) this(1)] show ?thesis by simp
qed

theorem aps_apply_correct_witness:
  "n64aps_main (\<lambda>_. 0) False [''r'', ''p'']
     \<lparr>content = [''r'' \<mapsto> n64_image [1, 2, 3], ''p'' \<mapsto> aps_file (replicate 50 0x20) (n64_image [1, 2, 3]) (replicate 5 0) 70
        (concat (map aps_enc [ARun 64 [9], ARle 68 2 7]))], writable = \<lambda>_. True\<rparr>
   = Returned 0 (put_file ''r'' (n64_image [9, 2, 3, 0, 7, 7])
     \<lparr>content = [''r'' \<mapsto> n64_image [1, 2, 3], ''p'' \<mapsto> aps_file (replicate 50 0x20) (n64_image [1, 2, 3]) (replicate 5 0) 70
        (concat (map aps_enc [ARun 64 [9], ARle 68 2 7]))], writable = \<lambda>_. True\<rparr>)"
proof -
  have "apply_runs (map aps_run [ARun 64 [9], ARle 68 2 7]) (ftruncate (int 70) (n64_image [1, 2, 3]))
    = n64_image [9, 2, 3, 0, 7, 7]"
    by (simp add: run_simps overwrite_def ftruncate_def n64_image_def numeral_eq_Suc)
  moreover have "64 \<le> length (n64_image [1, 2, 3])" "length (n64_image [1, 2, 3]) < 2 ^ 31"
    by (simp_all add: n64_image_def)
  ultimately show ?thesis
    by (subst aps_apply_correct [where org = "n64_image [1, 2, 3]" and desc = "replicate 50 0x20" and pad = "replicate 5 0"
       and n = 70 and its = "[ARun 64 [9], ARle 68 2 7]"]) (simp_all del: aps_enc.simps)
qed

text \<open>A patch file that does not start with \<^verbatim>\<open>APS10\<close> ends the program with exit code 1 and no file is changed.\<close>

theorem aps_rejects_other_files:
  assumes "content fs rom = Some org" "content fs patch = Some p" "writable fs rom"
    and "length rom < 1024" "length patch < 1024" "rom \<noteq> patch" "5 \<le> length p" "take 5 p \<noteq> Magic"
  shows "n64aps_main junk Force [rom, patch] fs = Exited 1 fs"
proof -
  have "fread_into (uninit junk 0 5) 5 (sopen p) = (5, take 5 p, advance 5 (sopen p))"
    using assms(7) by (simp add: fread_into_enough stdio_simps)
  then show ?thesis using assms
    by (simp add: n64aps_main_def CheckFile_def fopen_rb_def fopen_rbp_def fclose_to_def Let_def ReadStdHeader_def
       put_file_same stdio_simps)
qed

theorem aps_rejects_other_files_witness:
  "n64aps_main (\<lambda>_. 0) True [''r'', ''p''] \<lparr>content = [''r'' \<mapsto> [1], ''p'' \<mapsto> [0, 0, 0, 0, 0, 0]], writable = \<lambda>_. True\<rparr>
   = Exited 1 \<lparr>content = [''r'' \<mapsto> [1], ''p'' \<mapsto> [0, 0, 0, 0, 0, 0]], writable = \<lambda>_. True\<rparr>"
  by (rule aps_rejects_other_files [where org = "[1]" and p = "[0, 0, 0, 0, 0, 0]"]) (simp_all add: Magic_def)

text \<open>A patch whose cartridge identification is not that of the image is refused with exit code 1 even
  under the force option, and no file is changed.\<close>

theorem aps_rejects_other_image:
  assumes "content fs rom = Some org" "content fs patch = Some (aps_std desc @ fmt # cart @ ys)" "writable fs rom"
    and "length rom < 1024" "length patch < 1024" "rom \<noteq> patch" "64 \<le> length org" "length desc = 50" "length cart = 2"
    and "cart \<noteq> n64_field 60 2 org"
  shows "n64aps_main junk Force [rom, patch] fs = Exited 1 fs"
proof -
  let ?p = "aps_std desc @ fmt # cart @ ys"
  let ?s0 = "\<lparr>APSFile = sopen ?p, ORGFile = sopen org, PatchType = 1, EncodingMethod = 0\<rparr>"
  have 1: "ReadStdHeader junk ?s0 = Cont (?s0\<lparr>APSFile := advance 57 (sopen ?p)\<rparr>)"
    using assms(8) by (subst ReadStdHeader_ok) (simp_all add: stdio_simps)
  obtain s' where "ReadN64Header junk Force (?s0\<lparr>APSFile := advance 57 (sopen ?p)\<rparr>) = Leave 1 s'"
    "sdata (ORGFile s') = org"
    using ReadN64Header_other [of "?s0\<lparr>APSFile := advance 57 (sopen ?p)\<rparr>" fmt cart ys org junk Force] assms(7-10)
    by (auto simp: stdio_simps length_aps_std)
  with n64aps_main_phases [OF assms(1-6) refl] 1 assms(1) show ?thesis by (simp add: put_file_same)
qed

theorem aps_rejects_other_image_witness:
  "n64aps_main (\<lambda>_. 0) True [''r'', ''p'']
     \<lparr>content = [''r'' \<mapsto> n64_image [], ''p'' \<mapsto> aps_std (replicate 50 0) @ 1 # [1, 1] @ []], writable = \<lambda>_. True\<rparr>
   = Exited 1 \<lparr>content = [''r'' \<mapsto> n64_image [], ''p'' \<mapsto> aps_std (replicate 50 0) @ 1 # [1, 1] @ []], writable = \<lambda>_. True\<rparr>"
  by (rule aps_rejects_other_image [where org = "n64_image []" and desc = "replicate 50 0" and fmt = 1 and cart = "[1, 1]" and ys = "[]"])
    (simp_all add: n64_image_def n64_field_def n64_doc_def le_val_def numeral_2_eq_2 Let_def)

text \<open>whatever the two files hold, with two paths that fit the buffers \<^verbatim>\<open>n64aps\<close> ends with a
  return or an exit; the record loop ends on every patch file.\<close>

theorem aps_never_undefined:
  assumes "length rom < 1024" "length patch < 1024" "rom \<noteq> patch"
  shows "n64aps_main junk Force [rom, patch] fs \<noteq> Undefined"
  using assms
  by (auto simp: n64aps_main_def CheckFile_def Let_def split: option.splits ctl.splits)

theorem aps_never_undefined_witness:
  "n64aps_main (\<lambda>_. 0) True [''r'', ''p''] \<lparr>content = Map.empty, writable = \<lambda>_. True\<rparr> \<noteq> Undefined"
  by (rule aps_never_undefined) simp_all

end
