(* ===== verification/Aps_Make.thy ===== *)
theory Aps_Make
  imports Aps
begin

text \<open>
  Making an APS patch from two Nintendo 64 images, \<^verbatim>\<open>jni/apsn64patcher/n64caps.c\<close>: the header
  writers, the state machine that scans blocks of 255 bytes for differing stretches, and
  \<^verbatim>\<open>main\<close> after the options have been read.  The main results: the scanner's runs cover all differences,
  and the patch applied by \<^verbatim>\<open>n64aps.c\<close> to the original image gives the modified one.
\<close>

section \<open>Model\<close>

abbreviation BUFFERSIZE :: nat where "BUFFERSIZE \<equiv> 255"

definition caps_CheckFile :: "memory \<Rightarrow> string \<Rightarrow> fmode \<Rightarrow> bool \<Rightarrow> fsys \<Rightarrow> bool \<times> fsys" where
  "caps_CheckFile junk Filename mode isImage fs =
     (let (fp, fs1) = (case mode of
            RB \<Rightarrow> (fopen_rb Filename fs, fs)
          | RBP \<Rightarrow> (fopen_rbp Filename fs, fs)
          | WB \<Rightarrow> (case fopen_wb Filename fs of None \<Rightarrow> (None, fs) | Some (f, fs') \<Rightarrow> (Some f, fs')))
      in (case fp of
            None \<Rightarrow> (False, fs1)
          | Some f \<Rightarrow>
              if isImage then
                let (_, mbuf, _) = fread_into (uninit junk 0 4) 4 f;
                    MagicTest = le_val mbuf;
                    fs2 = (if mode = WB then unlink Filename fs1 else fs1)
                in (\<not> (MagicTest \<noteq> 0x12408037 \<and> MagicTest \<noteq> 0x40123780), fs2)
              else (True, fs1)))"

record caps_state =
  cAPS :: stream
  cORG :: stream
  cNEW :: stream
  ChangeFound :: bool

text \<open>The description goes through a buffer of 50 bytes filled with blanks; a text of 50 or more
  characters does not fit (\<open>None\<close>).\<close>

definition WriteStdHeader :: "bytes \<Rightarrow> caps_state \<Rightarrow> caps_state option" where
  "WriteStdHeader Desc s =
     (if length Desc \<ge> DESCRIPTION_LEN then None
      else
        let a1 = fwrite Magic (cAPS s);
            a2 = fwrite [1] a1;
            a3 = fwrite [0] a2;
            Description = Desc @ [0x20] @ drop (Suc (length Desc)) (replicate DESCRIPTION_LEN 0x20)
        in Some (s\<lparr>cAPS := fwrite Description a3\<rparr>))"

definition WriteN64Header :: "memory \<Rightarrow> caps_state \<Rightarrow> caps_state" where
  "WriteN64Header junk s =
     (let (_, mbuf, o1) = fread_into (uninit junk 10 4) 4 (cORG s);
          MagicTest = le_val mbuf;
          doc = (MagicTest = 0x12408037);
          a1 = fputc (if doc then 0 else 1) (cAPS s);
          (_, o2) = fseek_set 60 o1;
          (_, CartID, o3) = fread_into (uninit junk 20 2) 2 o2;
          CartID = (if doc then swap16 CartID else CartID);
          a2 = fwrite CartID a1;
          (_, o4) = fseek_set (if doc then 63 else 62) o3;
          (_, Teritory, o5) = fread_into (uninit junk 30 1) 1 o4;
          a3 = fwrite Teritory a2;
          (_, o6) = fseek_set 0x10 o5;
          (_, Buffer, o7) = fread_into (uninit junk 40 8) 8 o6;
          Buffer = (if doc then swap16 Buffer else Buffer);
          a4 = fwrite Buffer a3;
          (_, o8) = fseek_set 0 o7;
          a5 = fputc 0 (fputc 0 (fputc 0 (fputc 0 (fputc 0 a4))))
      in s\<lparr>cAPS := a5, cORG := o8\<rparr>)"

definition WriteSizeHeader :: "caps_state \<Rightarrow> caps_state" where
  "WriteSizeHeader s =
     (let (_, n1) = fseek_end 0 (cNEW s);
          (_, o1) = fseek_end 0 (cORG s);
          NEWSize = ftell n1;
          ORGSize = ftell o1;
          a1 = fwrite (le_bytes 4 (nat (NEWSize mod 2 ^ 32))) (cAPS s);
          cf = (if ORGSize \<noteq> NEWSize then True else ChangeFound s);
          (_, n2) = fseek_set 0 n1;
          (_, o2) = fseek_set 0 o1
      in s\<lparr>cAPS := a1, cNEW := n2, cORG := o2, ChangeFound := cf\<rparr>)"

text \<open>The scanner of one block, with the three states of the \<^verbatim>\<open>switch\<close>.\<close>

datatype scan_state = S0 | S1 | S2

record scan =
  sc_i :: nat
  sc_State :: scan_state
  ChangedStart :: nat
  ChangedOffset :: nat
  ChangedLen :: nat
  sc_found :: bool
  sc_out :: stream

definition emit_run :: "bytes \<Rightarrow> scan \<Rightarrow> stream" where
  "emit_run NEWBuffer s =
     fwrite (take (ChangedLen s) (drop (ChangedOffset s) NEWBuffer))
       (fputc (of_nat (ChangedLen s)) (fwrite (le_bytes 4 (ChangedStart s)) (sc_out s)))"

definition scan_rank :: "scan_state \<Rightarrow> nat" where
  "scan_rank st = (case st of S0 \<Rightarrow> 0 | S1 \<Rightarrow> 2 | S2 \<Rightarrow> 1)"

function scan_block :: "bytes \<Rightarrow> bytes \<Rightarrow> nat \<Rightarrow> nat \<Rightarrow> scan \<Rightarrow> scan" where
  "scan_block ORGBuffer NEWBuffer NEWReadLen FilePos s =
     (let i = sc_i s in
      if i < NEWReadLen then
        (case sc_State s of
           S0 \<Rightarrow>
             scan_block ORGBuffer NEWBuffer NEWReadLen FilePos
               ((if NEWBuffer ! i \<noteq> ORGBuffer ! i
                 then s\<lparr>sc_State := S1, ChangedStart := FilePos + i, ChangedOffset := i,
                        ChangedLen := 1, sc_found := True\<rparr>
                 else s)\<lparr>sc_i := i + 1\<rparr>)
         | S1 \<Rightarrow>
             (if NEWBuffer ! i \<noteq> ORGBuffer ! i
              then scan_block ORGBuffer NEWBuffer NEWReadLen FilePos
                     (s\<lparr>ChangedLen := ChangedLen s + 1, sc_i := i + 1\<rparr>)
              else scan_block ORGBuffer NEWBuffer NEWReadLen FilePos (s\<lparr>sc_State := S2\<rparr>))
         | S2 \<Rightarrow>
             scan_block ORGBuffer NEWBuffer NEWReadLen FilePos
               (s\<lparr>sc_out := emit_run NEWBuffer s, sc_State := S0\<rparr>))
      else s)"
  by pat_completeness auto
termination
  by (relation "measure (\<lambda>(_, _, n, _, s). 3 * (n - sc_i s) + scan_rank (sc_State s))")
    (auto simp: scan_rank_def)

declare scan_block.simps [simp del]

definition flush_run :: "bytes \<Rightarrow> scan \<Rightarrow> scan" where
  "flush_run NEWBuffer s =
     (if sc_State s \<noteq> S0 then
        let s = (if ChangedLen s = 0 then s\<lparr>ChangedLen := 255\<rparr> else s)
        in s\<lparr>sc_out := emit_run NEWBuffer s\<rparr>
      else s)"

text \<open>The loop over blocks; the part of the original's buffer the read did not fill is zeroed up
  to the length of the new block.\<close>

function WritePatch_loop :: "bytes \<Rightarrow> bytes \<Rightarrow> nat \<Rightarrow> scan \<Rightarrow> stream \<Rightarrow> stream \<Rightarrow> scan \<times> stream \<times> stream" where
  "WritePatch_loop ORGBuffer NEWBuffer FilePos s org new =
     (let (ORGReadLen, ORGBuffer, org) = fread_into ORGBuffer BUFFERSIZE org;
          (NEWReadLen, NEWBuffer, new) = fread_into NEWBuffer BUFFERSIZE new;
          ORGBuffer = (if ORGReadLen \<noteq> NEWReadLen
            then take ORGReadLen ORGBuffer @ replicate (NEWReadLen - ORGReadLen) 0
                   @ drop (max ORGReadLen NEWReadLen) ORGBuffer
            else ORGBuffer);
          s = s\<lparr>sc_i := 0, sc_State := S0\<rparr>;
          s = (if NEWReadLen \<noteq> 0 then scan_block ORGBuffer NEWBuffer NEWReadLen FilePos s else s);
          s = flush_run NEWBuffer s
      in if NEWReadLen = 0 then (s, org, new)
         else WritePatch_loop ORGBuffer NEWBuffer (FilePos + NEWReadLen) s org new)"
  by pat_completeness auto
termination
  by (relation "measure (\<lambda>(_, _, _, _, _, new). length (srest new))")
    (auto dest!: fread_into_eq_lengths [OF sym] simp: min_def split: if_splits)

declare WritePatch_loop.simps [simp del]

definition WritePatch :: "memory \<Rightarrow> caps_state \<Rightarrow> caps_state" where
  "WritePatch junk s =
     (let (_, o1) = fseek_set 0 (cORG s);
          (_, n1) = fseek_set 0 (cNEW s);
          s0 = \<lparr>sc_i = 0, sc_State = S0, ChangedStart = 0, ChangedOffset = 0, ChangedLen = 0,
                 sc_found = ChangeFound s, sc_out = cAPS s\<rparr>;
          (s1, o2, n2) = WritePatch_loop (uninit junk 100 255) (uninit junk 400 255) 0 s0 o1 n1
      in s\<lparr>cAPS := sc_out s1, cORG := o2, cNEW := n2, ChangeFound := sc_found s1\<rparr>)"

text \<open>\<^verbatim>\<open>main\<close> with the options read: the description, the quiet flag and the remaining arguments.  The
  description is first copied into a buffer of 81 bytes, the paths into buffers of 256.\<close>

definition n64caps_main :: "memory \<Rightarrow> bytes \<Rightarrow> bool \<Rightarrow> string list \<Rightarrow> fsys \<Rightarrow> fsys outcome" where
  "n64caps_main junk Description Quiet args fs =
     (if length Description \<ge> 81 then Undefined
      else if length args \<noteq> 3 then Returned 1 fs
      else if \<not> list_all (\<lambda>p. length p < 256) args then Undefined
      else
        let File1 = args ! 0; File2 = args ! 1; OutFile = args ! 2;
            (ok1, fs) = caps_CheckFile junk File1 RB True fs in
        if \<not> ok1 then Returned 1 fs
        else let (ok2, fs) = caps_CheckFile junk File2 RB True fs in
        if \<not> ok2 then Returned 1 fs
        else let (ok3, fs) = caps_CheckFile junk OutFile WB False fs in
        if \<not> ok3 then Returned 1 fs
        else (case (fopen_wb OutFile fs, fopen_rb File1 fs, fopen_rb File2 fs) of
            (Some (aps, fs), Some org, Some new) \<Rightarrow>
              (case WriteStdHeader Description \<lparr>cAPS = aps, cORG = org, cNEW = new, ChangeFound = False\<rparr> of
                 None \<Rightarrow> Undefined
               | Some s1 \<Rightarrow>
                   let s2 = WriteN64Header junk s1;
                       s3 = WriteSizeHeader s2;
                       s4 = WritePatch junk s3;
                       fs = fclose_to OutFile (cAPS s4) fs
                   in Returned 0 (if \<not> Quiet \<and> \<not> ChangeFound s4 then unlink OutFile fs else fs))
          | _ \<Rightarrow> Undefined))"

section \<open>The scanner finds all differences\<close>

abbreviation enc_runs :: "run list \<Rightarrow> bytes" where
  "enc_runs rs \<equiv> concat (map (\<lambda>r. aps_enc (ARun (fst r) (snd r))) rs)"

text \<open>A scanner state at or behind position \<open>p\<close> of the files: \<open>scan_lo\<close> is the first position whose
  difference is not yet in the output.\<close>

definition scan_lo :: "scan \<Rightarrow> nat" where
  "scan_lo s = (if sc_State s = S0 then sc_i s else ChangedOffset s)"

definition scan_ok :: "nat \<Rightarrow> nat \<Rightarrow> scan \<Rightarrow> bool" where
  "scan_ok n p s \<longleftrightarrow> sc_i s \<le> n \<and> spos (sc_out s) = length (sdata (sc_out s))
     \<and> (sc_State s \<noteq> S0 \<longrightarrow> ChangedOffset s + ChangedLen s = sc_i s \<and> 0 < ChangedLen s
          \<and> ChangedStart s = p + ChangedOffset s \<and> sc_found s)"

lemma emit_run_enc:
  assumes "scan_ok n p s" "sc_State s \<noteq> S0" "n \<le> length N"
  shows "emit_run N s = fwrite (enc_runs [(p + ChangedOffset s, take (ChangedLen s) (drop (ChangedOffset s) N))]) (sc_out s)"
  using assms by (auto simp: emit_run_def scan_ok_def fputc_def stdio_simps)

lemma sdata_fwrite_end: "spos s = length (sdata s) \<Longrightarrow> sdata (fwrite bs s) = sdata s @ bs"
  by (rule snk.image_put_at_end)


text \<open>What scanning from state \<open>s\<close> to the end of the block must have done in state \<open>s'\<close>.\<close>

definition scan_done :: "bytes \<Rightarrow> bytes \<Rightarrow> nat \<Rightarrow> nat \<Rightarrow> scan \<Rightarrow> scan \<Rightarrow> bool" where
  "scan_done old new p n s s' \<longleftrightarrow>
     (\<exists>rs. sdata (sc_out s') = sdata (sc_out s) @ enc_runs rs \<and> diff_runs old new (p + scan_lo s) (p + n) rs)
     \<and> spos (sc_out s') = length (sdata (sc_out s'))
     \<and> (sc_found s' \<longleftrightarrow> sc_found s \<or> (\<exists>j. p + sc_i s \<le> j \<and> j < p + n \<and> old ! j \<noteq> new ! j))"

lemma scan_done_append:
  assumes "scan_done old new p n s1 s'" "sdata (sc_out s1) = sdata (sc_out s) @ enc_runs rs"
    and "diff_runs old new (p + scan_lo s) (p + scan_lo s1) rs"
    and "sc_found s1 \<longleftrightarrow> sc_found s \<or> sc_i s < sc_i s1 \<and> old ! (p + sc_i s) \<noteq> new ! (p + sc_i s)"
    and "sc_i s1 = sc_i s \<or> sc_i s1 = Suc (sc_i s) \<and> sc_i s < n"
  shows "scan_done old new p n s s'"
proof -
  obtain rs' where rs': "sdata (sc_out s') = sdata (sc_out s1) @ enc_runs rs'"
    "diff_runs old new (p + scan_lo s1) (p + n) rs'"
    using assms(1) by (auto simp: scan_done_def)
  have 1: "sdata (sc_out s') = sdata (sc_out s) @ enc_runs (rs @ rs')" using rs' assms(2) by simp
  have 2: "diff_runs old new (p + scan_lo s) (p + n) (rs @ rs')"
    using diff_runs_append assms(3) rs'(2) by blast
  have 3: "(\<exists>j. p + sc_i s \<le> j \<and> j < p + n \<and> old ! j \<noteq> new ! j) \<longleftrightarrow>
      (sc_i s < sc_i s1 \<and> old ! (p + sc_i s) \<noteq> new ! (p + sc_i s))
      \<or> (\<exists>j. p + sc_i s1 \<le> j \<and> j < p + n \<and> old ! j \<noteq> new ! j)"
  proof (cases "sc_i s1 = sc_i s")
    case False
    then have "sc_i s1 = Suc (sc_i s)" "sc_i s < n" using assms(5) by auto
    moreover have "p + sc_i s \<le> j \<longleftrightarrow> j = p + sc_i s \<or> p + Suc (sc_i s) \<le> j" for j by auto
    ultimately show ?thesis by auto
  qed simp
  have 4: "sc_found s' \<longleftrightarrow> sc_found s1 \<or> (\<exists>j. p + sc_i s1 \<le> j \<and> j < p + n \<and> old ! j \<noteq> new ! j)"
    "spos (sc_out s') = length (sdata (sc_out s'))"
    using assms(1) by (auto simp: scan_done_def)
  show ?thesis unfolding scan_done_def using 1 2 3 4 assms(4) by blast
qed

lemma scan_block_runs:
  assumes N: "\<forall>j < n. NB ! j = new ! (p + j)" and O: "\<forall>j < n. OB ! j = old ! (p + j)"
    and n: "n \<le> length NB" "n < 256" "p + n \<le> length new" and s: "scan_ok n p s"
  shows "scan_done old new p n s (flush_run NB (scan_block OB NB n p s))"
  using s
proof (induction "3 * (n - sc_i s) + scan_rank (sc_State s)" arbitrary: s rule: less_induct)
  case less
  note s = less.prems
  let ?d = "old ! (p + sc_i s) \<noteq> new ! (p + sc_i s)"
  let ?bs = "take (ChangedLen s) (drop (ChangedOffset s) NB)"
  have emit: "emit_run NB s = fwrite (enc_runs [(p + ChangedOffset s, ?bs)]) (sc_out s)"
      "diff_runs old new (p + ChangedOffset s) (p + sc_i s) [(p + ChangedOffset s, ?bs)]"
    if "sc_State s \<noteq> S0"
    using emit_run_enc [OF s that n(1)] that s n N
    by (auto simp: scan_ok_def intro!: diff_runs_single run_ok_slice [where n = n])
  show ?case
  proof (cases "sc_i s < n")
    case False
    then have fin: "scan_block OB NB n p s = s" by (simp add: scan_block.simps)
    have i: "sc_i s = n" using False s by (simp add: scan_ok_def)
    show ?thesis
    proof (cases "sc_State s = S0")
      case True
      then show ?thesis using s i fin
        by (auto simp: flush_run_def scan_done_def scan_lo_def scan_ok_def intro!: exI [of _ "[]"] diff_runs_Nil)
    next
      case False
      then have "ChangedLen s \<noteq> 0" using s by (simp add: scan_ok_def)
      then show ?thesis using emit [OF False] False s i
        by (auto simp: fin flush_run_def scan_done_def scan_lo_def scan_ok_def stdio_simps overwrite_at_end
            intro!: exI [of _ "[(p + ChangedOffset s, ?bs)]"])
    qed
  next
    case True
    have d: "NB ! sc_i s \<noteq> OB ! sc_i s \<longleftrightarrow> ?d" using N O True by metis
    obtain s1 rs where s1: "scan_block OB NB n p s = scan_block OB NB n p s1" "scan_ok n p s1"
      "3 * (n - sc_i s1) + scan_rank (sc_State s1) < 3 * (n - sc_i s) + scan_rank (sc_State s)"
      "sdata (sc_out s1) = sdata (sc_out s) @ enc_runs rs"
      "diff_runs old new (p + scan_lo s) (p + scan_lo s1) rs"
      "sc_found s1 \<longleftrightarrow> sc_found s \<or> sc_i s < sc_i s1 \<and> ?d"
      "sc_i s1 = sc_i s \<or> sc_i s1 = Suc (sc_i s)"
    proof (cases "sc_State s")
      case S0
      show thesis
        by (rule that [of "(if ?d then s\<lparr>sc_State := S1, ChangedStart := p + sc_i s, ChangedOffset := sc_i s,
                        ChangedLen := 1, sc_found := True\<rparr> else s)\<lparr>sc_i := Suc (sc_i s)\<rparr>" "[]"])
          (use S0 True s d in \<open>auto simp: scan_block.simps [of _ _ _ _ s] scan_ok_def scan_lo_def scan_rank_def Let_def
             intro!: diff_runs_Nil dest: le_less_Suc_eq\<close>)
    next
      case S1
      show thesis
        by (rule that [of "if ?d then s\<lparr>ChangedLen := ChangedLen s + 1, sc_i := sc_i s + 1\<rparr> else s\<lparr>sc_State := S2\<rparr>" "[]"])
          (use S1 True s d in \<open>auto simp: scan_block.simps [of _ _ _ _ s] scan_ok_def scan_lo_def scan_rank_def
             intro!: diff_runs_Nil\<close>)
    next
      case S2
      show thesis
        by (rule that [of "s\<lparr>sc_out := emit_run NB s, sc_State := S0\<rparr>" "[(p + ChangedOffset s, ?bs)]"])
          (use S2 True s emit in \<open>auto simp: scan_block.simps [of _ _ _ _ s] scan_ok_def scan_lo_def scan_rank_def
             stdio_simps overwrite_at_end\<close>)
    qed
    have "scan_done old new p n s1 (flush_run NB (scan_block OB NB n p s1))"
      by (rule less.hyps [OF s1(3,2)])
    then show ?thesis using s1(1,4-7) True by (auto intro: scan_done_append)
  qed
qed


text \<open>The original image brought to the length of the new one, as the patch loop of the applier will
  see it and as the zeroing of the block buffer makes the scanner see it.\<close>

abbreviation resized :: "bytes \<Rightarrow> bytes \<Rightarrow> bytes" where
  "resized org new \<equiv> ftruncate (int (length new)) org"

lemma length_resized [simp]: "length (resized org new) = length new"
  by (simp add: ftruncate_def)

lemma nth_resized:
  "j < length new \<Longrightarrow> resized org new ! j = (if j < length org then org ! j else 0)"
  by (simp add: ftruncate_def nth_append)

lemma WritePatch_loop_block:
  assumes "srest org = drop p orgd \<or> srest new = []" "srest new = drop p newd" "p \<le> length newd"
    and "length OB = 255" "length NB = 255" and out: "spos (sc_out s) = length (sdata (sc_out s))"
  shows "\<exists>OB' NB' s' org' new'. let n = min 255 (length (srest new)) in
      WritePatch_loop OB NB p s org new
        = (if n = 0 then (s', org', new') else WritePatch_loop OB' NB' (p + n) s' org' new')
      \<and> (srest org' = drop (p + n) orgd \<or> srest new' = []) \<and> srest new' = drop (p + n) newd
      \<and> length OB' = 255 \<and> length NB' = 255
      \<and> scan_done (resized orgd newd) newd p n (s\<lparr>sc_i := 0, sc_State := S0\<rparr>) s'"
proof -
  let ?m = "length (srest org)" and ?n = "min 255 (length (srest new))"
  obtain k ob o1 where 1: "fread_into OB 255 org = (k, ob, o1)" by (metis prod_cases3)
  obtain l nb n1 where 2: "fread_into NB 255 new = (l, nb, n1)" by (metis prod_cases3)
  have r: "k = min 255 ?m" "ob = take k (srest org) @ drop k OB" "srest o1 = drop 255 (srest org)"
     "l = ?n" "nb = take l (srest new) @ drop l NB" "srest n1 = drop 255 (srest new)"
    using 1 2 by (auto simp: fread_into_def fread_def srest_def min_def add.commute)
  let ?ob = "if k \<noteq> l then take k ob @ replicate (l - k) 0 @ drop (max k l) ob else ob"
  let ?s = "s\<lparr>sc_i := 0, sc_State := S0\<rparr>"
  let ?s' = "flush_run nb (if l \<noteq> 0 then scan_block ?ob nb l p ?s else ?s)"
  have le: "k \<le> 255" "l \<le> 255" "k \<le> length (srest org)" using r(1,4) by auto
  have len: "length nb = 255" "length ob = 255" using r(1,2,4,5) assms(4,5) by auto
  have lob: "length ?ob = 255" using len(2) le by (simp add: max_def)
  have W: "WritePatch_loop OB NB p s org new
    = (if l = 0 then (?s', o1, n1) else WritePatch_loop ?ob nb (p + l) ?s' o1 n1)"
    by (simp add: WritePatch_loop.simps [of OB] 1 2 Let_def)
  have nb: "\<forall>j < l. nb ! j = newd ! (p + j)" using r assms by (simp add: nth_append)
  have ob: "\<forall>j < l. ?ob ! j = resized orgd newd ! (p + j)"
  proof (intro allI impI)
    fix j assume j: "j < l"
    then have so: "srest org = drop p orgd" using assms r(4) by auto
    have pj: "p + j < length newd" using j r(4) assms(2) by auto
    show "?ob ! j = resized orgd newd ! (p + j)"
    proof (cases "j < k")
      case True
      then have "?ob ! j = ob ! j" "ob ! j = orgd ! (p + j)" "p + j < length orgd"
        using r(2) le len so by (simp_all add: nth_append)
      then show ?thesis using pj by (simp add: nth_resized)
    next
      case False
      then have "?ob ! j = 0" "length orgd \<le> p + j"
        using j le len so r(1) by (auto simp: nth_append min_def split: if_splits)
      then show ?thesis using pj by (simp add: nth_resized)
    qed
  qed
  have done1: "scan_done (resized orgd newd) newd p l ?s ?s'"
  proof (cases "l = 0")
    case True
    then show ?thesis using out
      by (auto simp: scan_done_def flush_run_def scan_lo_def intro!: exI [of _ "[]"] diff_runs_Nil)
  next
    case False
    have "l \<le> length nb" "l < 256" "p + l \<le> length newd" "scan_ok l p ?s"
      using le len r(4) assms(2,3) out by (auto simp: scan_ok_def)
    from scan_block_runs [OF nb ob this] False show ?thesis by simp
  qed
  have "srest o1 = drop (p + l) orgd \<or> srest n1 = []" "srest n1 = drop (p + l) newd"
    using r assms by (auto simp: add.commute min_def)
  with W done1 len(1) lob show ?thesis
    unfolding Let_def r(4) [symmetric] by blast
qed

lemma WritePatch_loop_runs:
  assumes "srest org = drop p orgd \<or> srest new = []" "srest new = drop p newd" "p \<le> length newd"
    and "length OB = 255" "length NB = 255" "spos (sc_out s) = length (sdata (sc_out s))"
    and "WritePatch_loop OB NB p s org new = (s', org', new')"
  shows "\<exists>rs. sdata (sc_out s') = sdata (sc_out s) @ enc_runs rs
      \<and> diff_runs (resized orgd newd) newd p (length newd) rs
      \<and> (sc_found s' \<longleftrightarrow> sc_found s \<or> (\<exists>j. p \<le> j \<and> j < length newd \<and> resized orgd newd ! j \<noteq> newd ! j))"
  using assms
proof (induction "length (srest new)" arbitrary: OB NB p s org new rule: less_induct)
  case less
  let ?n = "min 255 (length (srest new))" and ?old = "resized orgd newd"
  from WritePatch_loop_block [OF less.prems(1-6)]
  obtain OB' NB' s1 o1 n1 where W:
    "WritePatch_loop OB NB p s org new
        = (if ?n = 0 then (s1, o1, n1) else WritePatch_loop OB' NB' (p + ?n) s1 o1 n1)"
    "srest o1 = drop (p + ?n) orgd \<or> srest n1 = []" "srest n1 = drop (p + ?n) newd"
    "length OB' = 255" "length NB' = 255"
    and sd: "scan_done ?old newd p ?n (s\<lparr>sc_i := 0, sc_State := S0\<rparr>) s1"
    by (auto simp: Let_def)
  from sd obtain rs where rs: "sdata (sc_out s1) = sdata (sc_out s) @ enc_runs rs"
      "diff_runs ?old newd p (p + ?n) rs" "spos (sc_out s1) = length (sdata (sc_out s1))"
      "sc_found s1 \<longleftrightarrow> sc_found s \<or> (\<exists>j. p \<le> j \<and> j < p + ?n \<and> ?old ! j \<noteq> newd ! j)"
    by (auto simp: scan_done_def scan_lo_def)
  show ?case
  proof (cases "?n = 0")
    case True
    then have "p = length newd" "s' = s1" using less.prems W by auto
    then show ?thesis using rs True by auto
  next
    case False
    have pn: "p + ?n \<le> length newd" using less.prems by auto
    have "length (srest n1) < length (srest new)"
      using W(3) less.prems(2) False by auto
    have "WritePatch_loop OB' NB' (p + ?n) s1 o1 n1 = (s', org', new')"
      using less.prems(7) unfolding W(1) if_not_P [OF False] .
    from less.hyps [OF \<open>length (srest n1) < length (srest new)\<close> W(2,3) pn W(4,5) rs(3) this] obtain rs' where rs':
      "sdata (sc_out s') = sdata (sc_out s1) @ enc_runs rs'"
      "diff_runs ?old newd (p + ?n) (length newd) rs'"
      "sc_found s' \<longleftrightarrow> sc_found s1 \<or> (\<exists>j. p + ?n \<le> j \<and> j < length newd \<and> ?old ! j \<noteq> newd ! j)"
      by blast
    have "(\<exists>j. p \<le> j \<and> j < length newd \<and> ?old ! j \<noteq> newd ! j) \<longleftrightarrow>
      (\<exists>j. p \<le> j \<and> j < p + ?n \<and> ?old ! j \<noteq> newd ! j) \<or>
      (\<exists>j. p + ?n \<le> j \<and> j < length newd \<and> ?old ! j \<noteq> newd ! j)"
      using pn by (meson le_add1 le_trans linorder_not_less order_less_le_trans)
    then show ?thesis
      using rs(1,4) rs'(1,3) diff_runs_append [OF rs(2) rs'(2)]
      by (intro exI [of _ "rs @ rs'"]) simp
  qed
qed

section \<open>The headers written\<close>

lemma WriteStdHeader_out:
  assumes "length Desc < 50"
  shows "WriteStdHeader Desc s
    = Some (s\<lparr>cAPS := fwrite (aps_std (Desc @ replicate (50 - length Desc) 0x20)) (cAPS s)\<rparr>)"
proof -
  obtain k where "50 - length Desc = Suc k" using assms by (cases "50 - length Desc") auto
  moreover from this have "50 - Suc (length Desc) = k" by simp
  ultimately show ?thesis using assms
    by (simp add: WriteStdHeader_def aps_std_def stdio_simps Let_def drop_replicate)
qed

lemma WriteN64Header_out:
  assumes "sdata (cORG s) = org" "64 \<le> length org" "spos (cORG s) = 0" "seof (cORG s) = False"
  shows "WriteN64Header junk s
    = s\<lparr>cAPS := fwrite (n64_id org @ [0, 0, 0, 0, 0]) (cAPS s), cORG := sopen org\<rparr>"
proof -
  have o: "cORG s = sopen org" using assms by (simp add: sopen_def)
  show ?thesis
    unfolding WriteN64Header_def o using assms(2)
    by (cases "n64_doc org")
      (simp_all add: fread_into_sopen fread_into_at sopen_rewind stdio_simps n64_id_def n64_field_def n64_terr_def
        n64_doc_def Let_def fputc_def)
qed

lemma WriteSizeHeader_out:
  assumes "length (sdata (cNEW s)) < 2 ^ 31" "length (sdata (cORG s)) < 2 ^ 31"
  shows "WriteSizeHeader s = s\<lparr>cAPS := fwrite (le_bytes 4 (length (sdata (cNEW s)))) (cAPS s),
      cNEW := sopen (sdata (cNEW s)), cORG := sopen (sdata (cORG s)),
      ChangeFound := ChangeFound s \<or> length (sdata (cORG s)) \<noteq> length (sdata (cNEW s))\<rparr>"
  using assms by (simp add: WriteSizeHeader_def stdio_simps ftell_def Let_def sopen_def nat_mod_distrib)

section \<open>Making and applying\<close>

definition n64_valid :: "bytes \<Rightarrow> bool" where
  "n64_valid d \<longleftrightarrow> le_val (take 4 d) \<in> {0x12408037, 0x40123780}"

lemma caps_CheckFile_image:
  assumes "content fs f = Some d" "64 \<le> length d" "n64_valid d"
  shows "caps_CheckFile junk f RB True fs = (True, fs)"
  using assms by (auto simp: caps_CheckFile_def fopen_rb_def fread_into_sopen n64_valid_def Let_def)

lemma WritePatch_runs:
  assumes "sdata (cORG s) = org" "sdata (cNEW s) = new" "spos (cAPS s) = length (sdata (cAPS s))"
  shows "\<exists>rs. sdata (cAPS (WritePatch junk s)) = sdata (cAPS s) @ enc_runs rs
      \<and> diff_runs (resized org new) new 0 (length new) rs
      \<and> (ChangeFound (WritePatch junk s) \<longleftrightarrow> ChangeFound s \<or> resized org new \<noteq> new)"
proof -
  let ?s0 = "\<lparr>sc_i = 0, sc_State = S0, ChangedStart = 0, ChangedOffset = 0, ChangedLen = 0,
                 sc_found = ChangeFound s, sc_out = cAPS s\<rparr>"
  obtain s1 o2 n2 where W: "WritePatch_loop (uninit junk 100 255) (uninit junk 400 255) 0 ?s0
      ((cORG s)\<lparr>spos := 0, seof := False\<rparr>) ((cNEW s)\<lparr>spos := 0, seof := False\<rparr>) = (s1, o2, n2)"
    by (metis prod_cases3)
  have "(\<exists>j. j < length new \<and> resized org new ! j \<noteq> new ! j) \<longleftrightarrow> resized org new \<noteq> new"
    using nth_equalityI [of "resized org new" new] by auto
  then show ?thesis
    using WritePatch_loop_runs [OF _ _ _ _ _ _ W, of org new] assms
    by (simp add: WritePatch_def stdio_simps W Let_def srest_def)
qed

definition aps_records_of :: "run list \<Rightarrow> aps_item list" where
  "aps_records_of rs = map (\<lambda>r. ARun (fst r) (snd r)) rs"

lemma aps_records_of_simps [run_simps]:
  "concat (map aps_enc (aps_records_of rs)) = enc_runs rs"
  "map aps_run (aps_records_of rs) = rs"
  by (simp_all add: aps_records_of_def comp_def)

lemma diff_runs_items_ok:
  "diff_runs old new lo hi rs \<Longrightarrow> length new < 2 ^ 31 \<Longrightarrow> list_all aps_item_ok (aps_records_of rs)"
  by (fastforce simp: diff_runs_def aps_records_of_def list_all_iff run_ok_def)

lemma resized_eq_iff: "resized org new = new \<and> length org = length new \<longleftrightarrow> org = new"
  by (auto simp: ftruncate_def)

text \<open>The patch made has the header of the original image, the size of the new one and runs that
  cover all their differences; it is removed again when the images are equal and the
  quiet option is off.\<close>

lemma n64caps_makes:
  assumes "content fs File1 = Some org" "content fs File2 = Some new" "writable fs OutFile"
    and "distinct [File1, File2, OutFile]" "list_all (\<lambda>p. length p < 256) [File1, File2, OutFile]"
    and "64 \<le> length org" "64 \<le> length new" "n64_valid org" "n64_valid new"
    and "length org < 2 ^ 31" "length new < 2 ^ 31" "length Desc < 50"
  shows "\<exists>rs. diff_runs (resized org new) new 0 (length new) rs
    \<and> n64caps_main junk Desc Quiet [File1, File2, OutFile] fs = Returned 0
        (if \<not> Quiet \<and> org = new then unlink OutFile fs
         else put_file OutFile (aps_file (Desc @ replicate (50 - length Desc) 0x20) org [0, 0, 0, 0, 0] (length new)
            (enc_runs rs)) fs)"
proof -
  let ?a0 = "sopen []" and ?std = "aps_std (Desc @ replicate (50 - length Desc) 0x20)"
  let ?hdr = "?std @ n64_id org @ 0 # 0 # 0 # 0 # 0 # le_bytes 4 (length new)"
  let ?s3 = "\<lparr>cAPS = fwrite ?hdr ?a0, cORG = sopen org, cNEW = sopen new, ChangeFound = (length org \<noteq> length new)\<rparr>"
  have hd: "WriteStdHeader Desc \<lparr>cAPS = ?a0, cORG = sopen org, cNEW = sopen new, ChangeFound = False\<rparr>
      = Some \<lparr>cAPS = fwrite ?std ?a0, cORG = sopen org, cNEW = sopen new, ChangeFound = False\<rparr>"
    using assms(12) by (simp add: WriteStdHeader_out)
  have s3: "WriteSizeHeader (WriteN64Header junk \<lparr>cAPS = fwrite ?std ?a0, cORG = sopen org, cNEW = sopen new, ChangeFound = False\<rparr>) = ?s3"
    using assms(6,10,11) by (simp add: WriteN64Header_out WriteSizeHeader_out stdio_simps)
  have "spos (cAPS ?s3) = length (sdata (cAPS ?s3))" by (simp add: stdio_simps length_overwrite)
  from WritePatch_runs [of ?s3 org new, OF _ _ this, of junk] obtain rs where
    rs0: "sdata (cAPS (WritePatch junk ?s3)) = sdata (cAPS ?s3) @ enc_runs rs" "diff_runs (resized org new) new 0 (length new) rs"
      "ChangeFound (WritePatch junk ?s3) \<longleftrightarrow> ChangeFound ?s3 \<or> resized org new \<noteq> new"
    by (auto simp: stdio_simps)
  have "sdata (cAPS ?s3) = ?hdr" by (simp add: sdata_sopen spos_sopen sdata_fwrite overwrite_def)
  moreover have "ChangeFound ?s3 \<or> resized org new \<noteq> new \<longleftrightarrow> org \<noteq> new"
    using resized_eq_iff [of new org] by auto
  ultimately have rs: "sdata (cAPS (WritePatch junk ?s3)) = ?hdr @ enc_runs rs"
    "ChangeFound (WritePatch junk ?s3) \<longleftrightarrow> org \<noteq> new" using rs0(1,3) by (simp_all del: aps_enc.simps)
  then obtain w where w: "WritePatch junk ?s3 = w" "sdata (cAPS w) = ?hdr @ enc_runs rs" "ChangeFound w \<longleftrightarrow> org \<noteq> new"
    by blast
  have cf: "caps_CheckFile junk File1 RB True fs = (True, fs)" "caps_CheckFile junk File2 RB True fs = (True, fs)"
    using assms by (auto intro: caps_CheckFile_image)
  have wf: "caps_CheckFile junk OutFile WB False fs = (True, put_file OutFile [] fs)"
    using assms by (simp add: caps_CheckFile_def fopen_wb_def)
  have "n64caps_main junk Desc Quiet [File1, File2, OutFile] fs = Returned 0
        (if \<not> Quiet \<and> org = new then unlink OutFile fs
         else put_file OutFile (?hdr @ enc_runs rs) fs)"
    using assms by (simp add: n64caps_main_def cf wf hd s3 w fopen_wb_def fopen_rb_def fclose_to_def stdio_simps Let_def
       )
  then show ?thesis using rs0(2) by (auto simp: aps_file_def)
qed

text \<open>C7: a patch made by \<^verbatim>\<open>n64caps\<close> from two valid images of any sizes and applied to the original by the native
  entry point gives exactly the modified image: both programs return 0 and the image file then holds the new content.\<close>

theorem aps_make_apply_roundtrip:
  assumes "content fs File1 = Some org" "content fs File2 = Some new" "writable fs OutFile" "writable fs File1"
    and "distinct [File1, File2, OutFile]" "list_all (\<lambda>p. length p < 256) [File1, File2, OutFile]"
    and "64 \<le> length org" "64 \<le> length new" "n64_valid org" "n64_valid new"
    and "length org < 2 ^ 31" "length new < 2 ^ 31" "length Desc < 50" "Quiet \<or> org \<noteq> new"
  shows "\<exists>fs1 fs2. n64caps_main junk Desc Quiet [File1, File2, OutFile] fs = Returned 0 fs1
    \<and> apsN64PatchRom junk' File1 OutFile fs1 = Returned 0 fs2 \<and> content fs2 File1 = Some new"
proof -
  let ?p = "aps_file (Desc @ replicate (50 - length Desc) 0x20) org [0, 0, 0, 0, 0] (length new)"
  obtain rs where rs: "diff_runs (resized org new) new 0 (length new) rs"
    "n64caps_main junk Desc Quiet [File1, File2, OutFile] fs = Returned 0 (put_file OutFile (?p (enc_runs rs)) fs)"
    using n64caps_makes [OF assms(1,2,3,5-13), of junk Quiet] assms(14) by auto
  let ?fs1 = "put_file OutFile (?p (enc_runs rs)) fs"
  have ph: "apply_runs rs (resized org new) = new"
    using rs(1) by (intro apply_runs_cover) (auto simp: diff_runs_def)
  let ?s0 = "\<lparr>APSFile = sopen (?p (enc_runs rs)), ORGFile = sopen org, PatchType = 1, EncodingMethod = 0\<rparr>"
  have "\<exists>s'. ctl_bind (ctl_bind (ReadStdHeader junk' ?s0) (ReadN64Header junk' True))
      (\<lambda>s. ReadPatch junk' (ReadSizeHeader junk' s)) = Cont s' \<and> sdata (ORGFile s') = new"
    using aps_phases [of ?s0 "Desc @ replicate (50 - length Desc) 0x20" org "[0, 0, 0, 0, 0]" "length new" "aps_records_of rs"
        junk' True] assms diff_runs_items_ok [OF rs(1)] ph
    by (simp add: run_simps stdio_simps del: aps_enc.simps)
  then obtain s' where s': "ctl_bind (ctl_bind (ReadStdHeader junk' ?s0) (ReadN64Header junk' True))
      (\<lambda>s. ReadPatch junk' (ReadSizeHeader junk' s)) = Cont s'" "sdata (ORGFile s') = new" by blast
  have "n64aps_main junk' True [File1, OutFile] ?fs1 = Returned 0 (put_file File1 new ?fs1)"
    using n64aps_main_phases [of ?fs1 File1 org OutFile _ junk' True, OF _ _ _ _ _ _ s'(1)] s'(2) assms
    by (simp add: stdio_simps del: aps_enc.simps)
  then have "apsN64PatchRom junk' File1 OutFile ?fs1 = Returned 0 (put_file File1 new ?fs1)"
    by (simp only: apsN64PatchRom_def)
  with rs(2) show ?thesis by (auto simp: stdio_simps)
qed


theorem aps_make_apply_roundtrip_witness:
  "\<exists>fs1 fs2. n64caps_main (\<lambda>_. 0) [0x68, 0x69] False [''a'', ''b'', ''p'']
       \<lparr>content = [''a'' \<mapsto> n64_image [1, 2, 3], ''b'' \<mapsto> n64_image [1, 9, 3, 4]], writable = \<lambda>_. True\<rparr> = Returned 0 fs1
    \<and> apsN64PatchRom (\<lambda>_. 7) ''a'' ''p'' fs1 = Returned 0 fs2 \<and> content fs2 ''a'' = Some (n64_image [1, 9, 3, 4])"
  by (rule aps_make_apply_roundtrip [where org = "n64_image [1, 2, 3]"])
    (simp_all add: n64_image_def n64_valid_def le_val_def)

end
