(* ===== verification/Ppf.thy ===== *)
theory Ppf
  imports Runs
begin

text \<open>
  Applying a PlayStation patch, \<^verbatim>\<open>jni/ppfpatcher/applyppf3_linux.c\<close>: the three versions of the
  format, validation of the image, the file id at the end of a patch, undo, and \<^verbatim>\<open>main\<close>.  The patch loops
  are \<^verbatim>\<open>do\<close>-loops that stop when a counter hits 0; whether they stop depends on the file, so they
  are partial functions: \<open>None\<close> means that the program does not return.  The
  questions to the user read from \<open>user\<close>, the bytes on standard input.  What the C standard leaves to the
  compiler and its library and the code depends on is the argument \<open>cc\<close>.  A patch that is the image itself, which
  would be written while it is read, has no result.
\<close>

section \<open>Model\<close>

record ppf_state =
  ppf :: stream
  bin :: stream
  binblock :: bytes
  ppfblock :: bytes
  ppfmem :: bytes
  user :: bytes

datatype ppf_mode = APPLY | UNDO

text \<open>The code stores a terminator one byte behind its array \<^verbatim>\<open>desc\<close>: \<open>desc_slack\<close> is the number of bytes the frame of a
  function has there that belong to no other object.  With none the store has no defined result.  The result of
  \<^verbatim>\<open>memcmp\<close> for two unequal blocks may be any number but 0.\<close>

record c_impl =
  desc_slack :: "string \<Rightarrow> nat"
  memcmp_unequal :: "bytes \<Rightarrow> bytes \<Rightarrow> int"

definition desc_store_ok :: "c_impl \<Rightarrow> string \<Rightarrow> bool" where
  "desc_store_ok cc f \<longleftrightarrow> 0 < desc_slack cc f"

definition memcmp :: "c_impl \<Rightarrow> bytes \<Rightarrow> bytes \<Rightarrow> int" where
  "memcmp cc a b = (if a = b then 0 else memcmp_unequal cc a b)"

text \<open>A compiler that aligns the objects of a frame to four bytes leaves two bytes behind an array of 50.\<close>

definition padded :: c_impl where
  "padded = \<lparr>desc_slack = (\<lambda>_. 2), memcmp_unequal = (\<lambda>_ _. 1)\<rparr>"

text \<open>A question with the answers y and Y for going on; \<open>getc\<close> at the end of the input is neither.\<close>

definition ask_continue :: "ppf_state \<Rightarrow> bool \<times> ppf_state" where
  "ask_continue s = (case user s of
      [] \<Rightarrow> (False, s)
    | c # r \<Rightarrow> (c = 0x79 \<or> c = 0x59, s\<lparr>user := r\<rparr>))"

text \<open>The loop of the versions 1 and 2, with 32-bit counters that wrap.\<close>

partial_function (option) ppf12_loop ::
  "bytes \<Rightarrow> byte \<Rightarrow> u32 \<Rightarrow> u32 \<Rightarrow> ppf_state \<Rightarrow> ppf_state option" where
  "ppf12_loop posbuf anz seekpos count s =
     (let (_, p1) = fseek_set (uint seekpos) (ppf s);
          (_, posbuf, p2) = fread_into posbuf 4 p1;
          (_, a, p3) = fread_into [anz] 1 p2;
          anz = a ! 0;
          (_, mem, p4) = fread_into (ppfmem s) (unat anz) p3;
          (_, b1) = fseek_set (le_int32 posbuf) (bin s);
          s = s\<lparr>ppf := p4, ppfmem := mem, bin := fwrite (take (unat anz) mem) b1\<rparr>;
          seekpos = seekpos + 5 + ucast anz;
          count = count - 5 - ucast anz
      in if count \<noteq> 0 then ppf12_loop posbuf anz seekpos count s else Some s)"

definition ApplyPPF1Patch :: "c_impl \<Rightarrow> memory \<Rightarrow> ppf_state \<Rightarrow> ppf_state cresult option" where
  "ApplyPPF1Patch cc junk s =
     (if \<not> desc_store_ok cc ''ApplyPPF1Patch'' then Some Undef
      else
      let (_, p1) = fseek_set 6 (ppf s);
          (_, p2) = fread 50 p1;
          (_, p3) = fseek_end 0 p2;
          count = of_int (ftell p3) - 56
      in map_option Ret (ppf12_loop (uninit junk 0 4) (junk 4) 56 count (s\<lparr>ppf := p3\<rparr>)))"

text \<open>\<open>Undef\<close> when a negative length is read into the text buffer.\<close>

definition ShowFileId :: "memory \<Rightarrow> stream \<Rightarrow> nat \<Rightarrow> (int \<times> stream) cresult" where
  "ShowFileId junk f ppfver =
     (let lenidx = (if ppfver = 2 then 4 else 2);
          (_, f1) = fseek_end (- (int lenidx + 4)) f;
          (_, idmagic, f2) = fread_into (uninit junk 10 4) 4 f1
      in if le_val idmagic \<noteq> 0x5A49442E then Ret (0, f2)
         else
           let (_, f3) = fseek_end (- int lenidx) f2;
               (_, lenbuf, f4) = fread_into [0, 0, 0, 0] lenidx f3;
               orglen = le_int32 lenbuf;
               idlen = (if orglen > 3072 then 3072 else orglen)
           in if idlen < 0 then Undef
              else
                let (_, f5) = fseek_end (- (int lenidx + 16 + idlen)) f4;
                    (_, f6) = fread (nat idlen) f5
                in Ret (orglen, f6))"

text \<open>Comparing the validation block: the result of \<^verbatim>\<open>memcmp\<close> is cut to the 8 bits of a \<^verbatim>\<open>char\<close> before it is
  compared with 0.\<close>

definition block_check :: "c_impl \<Rightarrow> int \<Rightarrow> ppf_state \<Rightarrow> bool \<times> ppf_state" where
  "block_check cc where_bin s =
     (let (_, p1) = fseek_set 60 (ppf s);
          (_, pb, p2) = fread_into (ppfblock s) 1024 p1;
          (_, b1) = fseek_set where_bin (bin s);
          (_, bb, b2) = fread_into (binblock s) 1024 b1;
          s = s\<lparr>ppf := p2, ppfblock := pb, bin := b2, binblock := bb\<rparr>
      in if (of_int (memcmp cc pb bb) :: byte) \<noteq> 0 then ask_continue s else (True, s))"

definition ApplyPPF2Patch :: "c_impl \<Rightarrow> memory \<Rightarrow> ppf_state \<Rightarrow> ppf_state cresult option" where
  "ApplyPPF2Patch cc junk s =
     (if \<not> desc_store_ok cc ''ApplyPPF2Patch'' then Some Undef
      else
      let (_, p1) = fseek_set 6 (ppf s);
          (_, p2) = fread 50 p1
      in case ShowFileId junk p2 2 of
           Undef \<Rightarrow> Some Undef
         | Exit n \<Rightarrow> Some (Exit n)
         | Ret (idlen, p3) \<Rightarrow>
             (let (_, p4) = fseek_set 56 p3;
                  (_, olbuf, p5) = fread_into (uninit junk 20 4) 4 p4;
                  obinlen = (of_nat (le_val olbuf) :: u32);
                  (_, b1) = fseek_end 0 (bin s);
                  binlen = (of_int (ftell b1) :: u32);
                  s = s\<lparr>ppf := p5, bin := b1\<rparr>;
                  (go, s) = (if obinlen \<noteq> binlen then ask_continue s else (True, s))
              in if \<not> go then Some (Ret s)
                 else
                   let (go, s) = block_check cc 0x9320 s
                   in if \<not> go then Some (Ret s)
                      else
                        let (_, p6) = fseek_end 0 (ppf s);
                            count = of_int (ftell p6) - 1084;
                            count = (if idlen \<noteq> 0 then count - of_int (idlen + 38) else count)
                        in map_option Ret (ppf12_loop (uninit junk 0 4) (junk 4) 1084 count (s\<lparr>ppf := p6\<rparr>))))"

text \<open>The bytes of one record: the new ones, or the undo data behind them.\<close>

definition ppf3_data :: "ppf_mode \<Rightarrow> bool \<Rightarrow> nat \<Rightarrow> bytes \<Rightarrow> stream \<Rightarrow> bytes \<times> stream" where
  "ppf3_data mode undo n mem p = (case mode of
      APPLY \<Rightarrow>
        (let (_, mem, q) = fread_into mem n p
         in (mem, if undo then snd (fseek_cur (int n) q) else q))
    | UNDO \<Rightarrow>
        (let (_, mem, q) = fread_into mem n (snd (fseek_cur (int n) p))
         in (mem, q)))"

text \<open>The loop of version 3; \<open>count\<close> has 64 bits.\<close>

partial_function (option) ppf3_loop ::
  "ppf_mode \<Rightarrow> bool \<Rightarrow> bytes \<Rightarrow> byte \<Rightarrow> int \<Rightarrow> ppf_state \<Rightarrow> ppf_state option" where
  "ppf3_loop mode undo offbuf anz count s =
     (let (_, offbuf, p1) = fread_into offbuf 8 (ppf s);
          (_, a, p2) = fread_into [anz] 1 p1;
          anz = a ! 0;
          (mem, p3) = ppf3_data mode undo (unat anz) (ppfmem s) p2;
          (_, b1) = fseek_set (le_int64 offbuf) (bin s);
          s = s\<lparr>ppf := p3, ppfmem := mem, bin := fwrite (take (unat anz) mem) b1\<rparr>;
          count = count - (int (unat anz) + 9);
          count = (if undo then count - int (unat anz) else count)
      in if count \<noteq> 0 then ppf3_loop mode undo offbuf anz count s else Some s)"

definition ApplyPPF3Patch :: "c_impl \<Rightarrow> memory \<Rightarrow> ppf_mode \<Rightarrow> ppf_state \<Rightarrow> ppf_state cresult option" where
  "ApplyPPF3Patch cc junk mode s =
     (if \<not> desc_store_ok cc ''ApplyPPF3Patch'' then Some Undef
      else
      let (_, p1) = fseek_set 6 (ppf s);
          (_, p2) = fread 50 p1
      in case ShowFileId junk p2 3 of
           Undef \<Rightarrow> Some Undef
         | Exit n \<Rightarrow> Some (Exit n)
         | Ret (idlen, p3) \<Rightarrow>
             (let (_, p4) = fseek_set 56 p3;
                  (_, imagetype, p5) = fread_into [0] 1 p4;
                  (_, p6) = fseek_set 57 p5;
                  (_, blockcheck, p7) = fread_into [0] 1 p6;
                  (_, p8) = fseek_set 58 p7;
                  (_, undo, p9) = fread_into [0] 1 p8;
                  imagetype = (imagetype ! 0 \<noteq> 0); blockcheck = (blockcheck ! 0 \<noteq> 0); undo = (undo ! 0 \<noteq> 0);
                  s = s\<lparr>ppf := p9\<rparr>
              in if mode = UNDO \<and> \<not> undo then Some (Ret s)
                 else
                   let (go, s) = (if blockcheck
                         then block_check cc (if imagetype then 0x80A0 else 0x9320) s else (True, s))
                   in if \<not> go then Some (Ret s)
                      else
                        let (_, q1) = fseek_end 0 (ppf s);
                            count = ftello64 q1;
                            (_, q2) = fseek_set 0 q1;
                            seekpos = (if blockcheck then 1084 else 60);
                            count = count - seekpos;
                            count = (if idlen \<noteq> 0 then count - (idlen + 18 + 16 + 2) else count);
                            (_, q3) = fseek_set seekpos q2
                        in map_option Ret (ppf3_loop mode undo (uninit junk 30 8) 0 count (s\<lparr>ppf := q3\<rparr>))))"

definition PPFVersion :: "memory \<Rightarrow> stream \<Rightarrow> nat \<times> stream" where
  "PPFVersion junk f =
     (let (_, f1) = fseek_set 0 f;
          (_, magic, f2) = fread_into (uninit junk 50 4) 4 f1;
          m = le_val magic
      in (if m = 0x31465050 then 1 else if m = 0x32465050 then 2 else if m = 0x33465050 then 3 else 0, f2))"

definition OpenFiles :: "string \<Rightarrow> string \<Rightarrow> fsys \<Rightarrow> (stream \<times> stream) option" where
  "OpenFiles file1 file2 fs = (case fopen_rbp file1 fs of
      None \<Rightarrow> None
    | Some b \<Rightarrow> (case fopen_rb file2 fs of None \<Rightarrow> None | Some p \<Rightarrow> Some (b, p)))"

text \<open>\<^verbatim>\<open>main\<close>: \<open>cmd\<close> is the first character of the command.\<close>

definition ppf_run :: "c_impl \<Rightarrow> memory \<Rightarrow> char \<Rightarrow> ppf_state \<Rightarrow> ppf_state cresult option" where
  "ppf_run cc junk cmd s =
     (let (x, f) = PPFVersion junk (ppf s); s = s\<lparr>ppf := f\<rparr> in
      if cmd = CHR ''a'' then
        (if x = 1 then ApplyPPF1Patch cc junk s
         else if x = 2 then ApplyPPF2Patch cc junk s
         else if x = 3 then ApplyPPF3Patch cc junk APPLY s
         else Some (Ret s))
      else if x = 3 then ApplyPPF3Patch cc junk UNDO s else Some (Ret s))"

definition applyppf_main :: "c_impl \<Rightarrow> memory \<Rightarrow> bytes \<Rightarrow> string list \<Rightarrow> fsys \<Rightarrow> fsys outcome option" where
  "applyppf_main cc junk stdin args fs =
     (if length args \<noteq> 3 then Some (Returned 0 fs)
      else
        let cmd = (case args ! 0 of [] \<Rightarrow> CHR 0x00 | c # _ \<Rightarrow> c) in
        if cmd \<noteq> CHR ''a'' \<and> cmd \<noteq> CHR ''u'' then Some (Returned 0 fs)
        else (case OpenFiles (args ! 1) (args ! 2) fs of
            None \<Rightarrow> Some (Returned 0 fs)
          | Some (b, p) \<Rightarrow>
              if args ! 1 = args ! 2 then Some Undefined
              else map_option (\<lambda>r. case r of
                  Ret s \<Rightarrow> Returned 0 (fclose_to (args ! 1) (bin s) fs)
                | Exit n \<Rightarrow> Exited n fs
                | Undef \<Rightarrow> Undefined)
                (ppf_run cc junk cmd \<lparr>ppf = p, bin = b, binblock = replicate 1024 0, ppfblock = replicate 1024 0,
                   ppfmem = replicate 512 0, user = stdin\<rparr>)))"

section \<open>The patch loops on encoded records\<close>

text \<open>A record of the format: a position, the new bytes and, in patches that can be undone, the old
  ones.\<close>

datatype ppf_item = PItem (p_off: nat) (p_new: bytes) (p_old: bytes)

definition ppf3_enc :: "bool \<Rightarrow> ppf_item \<Rightarrow> bytes" where
  "ppf3_enc undo it = le_bytes 8 (p_off it) @ [of_nat (length (p_new it))] @ p_new it @ (if undo then p_old it else [])"

definition ppf3_run :: "ppf_mode \<Rightarrow> ppf_item \<Rightarrow> run" where
  "ppf3_run mode it = (p_off it, if mode = APPLY then p_new it else p_old it)"

definition ppf3_ok :: "ppf_mode \<Rightarrow> bool \<Rightarrow> ppf_item \<Rightarrow> bool" where
  "ppf3_ok mode undo it \<longleftrightarrow> p_off it < 2 ^ 63 \<and> length (p_new it) < 256 \<and> length (p_old it) = length (p_new it)
     \<and> (mode = UNDO \<longrightarrow> undo)"

type_synonym ppf3_locals = "bytes \<times> byte \<times> int \<times> ppf_state"

definition ppf3_while :: "ppf_mode \<Rightarrow> bool \<Rightarrow> ppf3_locals \<Rightarrow> ppf_state option" where
  "ppf3_while mode undo p = (case p of (offbuf, anz, count, s) \<Rightarrow>
     if count = 0 then Some s else ppf3_loop mode undo offbuf anz count s)"

definition ppf3_view :: "bytes \<Rightarrow> ppf3_locals \<Rightarrow> bytes \<Rightarrow> bytes \<Rightarrow> bool" where
  "ppf3_view tail p d ys \<longleftrightarrow> (case p of (offbuf, anz, count, s) \<Rightarrow>
     length offbuf = 8 \<and> count = int (length ys) \<and> srest (ppf s) = ys @ tail \<and> sdata (bin s) = d)"

lemma ppf3_while_item:
  assumes v: "ppf3_view tail p d (ppf3_enc undo it @ ys)" and ok: "ppf3_ok mode undo it"
  shows "\<exists>p'. ppf3_while mode undo p = ppf3_while mode undo p'
    \<and> ppf3_view tail p' (apply_run (ppf3_run mode it) d) ys"
proof -
  obtain ob anz count s where p: "p = (ob, anz, count, s)" by (metis prod_cases4)
  obtain off new old where it: "it = PItem off new old" by (cases it)
  let ?n = "length new" and ?a = "ppf s"
  let ?od = "if undo then old else []"
  have s: "length ob = 8" "sdata (bin s) = d" "count = int (length (ppf3_enc undo it @ ys))"
    "srest ?a = le_bytes 8 off @ [of_nat ?n] @ new @ ?od @ ys @ tail"
    using v by (simp_all add: p it ppf3_view_def ppf3_enc_def)
  have o: "off < 2 ^ 63" "?n < 256" "length old = ?n" "mode = UNDO \<Longrightarrow> undo" using ok by (auto simp: it ppf3_ok_def)
  have f1: "fread_into ob 8 ?a = (8, le_bytes 8 off, advance 8 ?a)"
    using s fread_into_front [of ?a "le_bytes 8 off" _ 8 ob] by simp
  have f2: "fread_into [anz] 1 (advance 8 ?a) = (1, [of_nat ?n], advance 1 (advance 8 ?a))"
    using s by (subst fread_into_one [where b = "of_nat ?n"]) (simp_all add: stdio_simps)
  let ?b = "advance 9 ?a"
  have rb: "srest ?b = new @ ?od @ ys @ tail" using s by (simp add: stdio_simps)
  obtain mem p3 where m: "ppf3_data mode undo ?n (ppfmem s) ?b = (mem, p3)"
      "take ?n mem = snd (ppf3_run mode it)" "srest p3 = ys @ tail"
  proof (cases mode)
    case APPLY
    have "fread_into (ppfmem s) ?n ?b = (?n, new @ drop ?n (ppfmem s), advance ?n ?b)"
      by (rule fread_into_front [OF rb]) simp
    then show thesis using that APPLY rb o by (auto simp: ppf3_data_def ppf3_run_def it srest_fseek_cur srest_advance)
  next
    case UNDO
    let ?q = "snd (fseek_cur (int ?n) ?b)"
    have rq: "srest ?q = old @ ys @ tail" using rb o UNDO by (simp add: srest_fseek_cur)
    have "fread_into (ppfmem s) ?n ?q = (?n, old @ drop ?n (ppfmem s), advance ?n ?q)"
      by (rule fread_into_front [OF rq]) (simp add: o)
    then show thesis using that UNDO rq o by (auto simp: ppf3_data_def ppf3_run_def it srest_advance)
  qed
  let ?s' = "s\<lparr>ppf := p3, ppfmem := mem, bin := fwrite (snd (ppf3_run mode it)) (bin s\<lparr>spos := off, seof := False\<rparr>)\<rparr>"
  let ?p' = "(le_bytes 8 off, of_nat ?n :: byte, int (length ys), ?s')"
  have c: "count \<noteq> 0" using s(3) by (simp add: ppf3_enc_def)
  have c': "count - (int ?n + 9) = int (length ys) + int (length ?od)" using s(3) by (simp add: ppf3_enc_def it)
  have u: "unat (of_nat ?n :: byte) = ?n" "uint (of_nat ?n :: byte) = int ?n"
    using o(2) by (simp_all add: uint_nat)
  have "ppf3_while mode undo p = ppf3_while mode undo ?p'"
    using m(1,2) o c c'
    by (simp add: u p ppf3_while_def ppf3_loop.simps [of _ _ ob] f1 f2 codec_simps stdio_simps Let_def del: unat_of_nat_byte One_nat_def)
  moreover have "ppf3_view tail ?p' (apply_run (ppf3_run mode it) d) ys"
    using s m(3) by (simp add: ppf3_view_def stdio_simps ppf3_run_def it)
  ultimately show ?thesis by blast
qed

interpretation ppf3_records: record_loop "ppf3_while mode undo" "ppf3_view tail" "ppf3_enc undo" "ppf3_ok mode undo" "ppf3_run mode"
  for mode undo tail
  by unfold_locales (rule ppf3_while_item)


text \<open>Versions 1 and 2 have positions of 32 bits and no undo data.\<close>

definition ppf12_enc :: "ppf_item \<Rightarrow> bytes" where
  "ppf12_enc it = le_bytes 4 (p_off it) @ [of_nat (length (p_new it))] @ p_new it"

definition ppf12_run :: "ppf_item \<Rightarrow> run" where
  "ppf12_run it = (p_off it, p_new it)"

definition ppf12_ok :: "ppf_item \<Rightarrow> bool" where
  "ppf12_ok it \<longleftrightarrow> p_off it < 2 ^ 31 \<and> length (p_new it) < 256"

type_synonym ppf12_locals = "bytes \<times> byte \<times> u32 \<times> u32 \<times> ppf_state"

definition ppf12_while :: "ppf12_locals \<Rightarrow> ppf_state option" where
  "ppf12_while p = (case p of (posbuf, anz, seekpos, count, s) \<Rightarrow>
     if count = 0 then Some s else ppf12_loop posbuf anz seekpos count s)"

definition ppf12_view :: "bytes \<Rightarrow> ppf12_locals \<Rightarrow> bytes \<Rightarrow> bytes \<Rightarrow> bool" where
  "ppf12_view tail p d ys \<longleftrightarrow> (case p of (posbuf, anz, seekpos, count, s) \<Rightarrow>
     length posbuf = 4 \<and> count = of_nat (length ys) \<and> drop (unat seekpos) (sdata (ppf s)) = ys @ tail
     \<and> unat seekpos \<le> length (sdata (ppf s)) \<and> length (sdata (ppf s)) < 2 ^ 31 \<and> sdata (bin s) = d)"

lemma ppf12_while_item:
  assumes v: "ppf12_view tail p d (ppf12_enc it @ ys)" and ok: "ppf12_ok it"
  shows "\<exists>p'. ppf12_while p = ppf12_while p' \<and> ppf12_view tail p' (apply_run (ppf12_run it) d) ys"
proof -
  obtain ob anz sk count s where p: "p = (ob, anz, sk, count, s)" by (metis prod_cases5)
  obtain off new old where it: "it = PItem off new old" by (cases it)
  let ?n = "length new" and ?P = "sdata (ppf s)"
  let ?a = "(ppf s)\<lparr>spos := unat sk, seof := False\<rparr>"
  have s: "length ob = 4" "sdata (bin s) = d" "count = of_nat (5 + ?n + length ys)"
    "drop (unat sk) ?P = le_bytes 4 off @ [of_nat ?n] @ new @ ys @ tail" "length ?P < 2 ^ 31"
    using v by (simp_all add: p it ppf12_view_def ppf12_enc_def)
  have o: "off < 2 ^ 31" "?n < 256" using ok by (auto simp: it ppf12_ok_def)
  have len: "unat sk + (5 + ?n + length ys + length tail) = length ?P"
    using arg_cong [OF s(4), of length] by simp
  have ra: "srest ?a = le_bytes 4 off @ [of_nat ?n] @ new @ ys @ tail" using s(4) by (simp add: srest_def)
  have sk: "fseek_set (uint sk) (ppf s) = (0, ?a)" by (simp add: stdio_simps)
  have f1: "fread_into ob 4 ?a = (4, le_bytes 4 off, advance 4 ?a)"
    using s ra fread_into_front [of ?a "le_bytes 4 off" _ 4 ob] by simp
  have f2: "fread_into [anz] 1 (advance 4 ?a) = (1, [of_nat ?n], advance 1 (advance 4 ?a))"
    using ra by (subst fread_into_one [where b = "of_nat ?n"]) (simp_all add: stdio_simps)
  have f3: "fread_into (ppfmem s) ?n (advance 5 ?a) = (?n, new @ drop ?n (ppfmem s), advance ?n (advance 5 ?a))"
    using ra by (intro fread_into_front [where ys = "ys @ tail"]) (simp_all add: stdio_simps)
  have u: "unat (of_nat ?n :: byte) = ?n" "ucast (of_nat ?n :: byte) = (of_nat ?n :: u32)"
    using o(2) by (simp_all add: ucast_byte_nat)
  let ?s' = "s\<lparr>ppf := advance (5 + ?n) ?a, ppfmem := new @ drop ?n (ppfmem s),
     bin := fwrite new (bin s\<lparr>spos := off, seof := False\<rparr>)\<rparr>"
  let ?p' = "(le_bytes 4 off, of_nat ?n :: byte, sk + 5 + of_nat ?n, of_nat (length ys) :: u32, ?s')"
  have "unat (of_nat (5 + ?n + length ys) :: u32) = 5 + ?n + length ys"
    using len s(5) by (simp only: unat_of_nat) (simp add: mod_less)
  then have c: "count \<noteq> 0" using s(3) by (metis add_is_0 unat_0 zero_neq_numeral)
  have c': "count - 5 - of_nat ?n = of_nat (length ys)" using s(3) by simp
  have "ppf12_while p = ppf12_while ?p'"
    unfolding p ppf12_while_def prod.case if_not_P [OF c] ppf12_loop.simps [of ob] sk f1 Let_def f2 nth_Cons_0
    using o c c' by (simp add: f3 u codec_simps stdio_simps del: unat_of_nat_byte One_nat_def)
  moreover have "unat (sk + 5 + of_nat ?n) = unat sk + 5 + ?n"
    using len s(5) o by (simp add: unat_word_ariths)
  then have "ppf12_view tail ?p' (apply_run (ppf12_run it) d) ys"
    using s len drop_drop [of "5 + ?n" "unat sk" ?P]
    by (simp add: ppf12_view_def stdio_simps ppf12_run_def it add.commute add.left_commute)
  ultimately show ?thesis by blast
qed

interpretation ppf12_records: record_loop ppf12_while "ppf12_view tail" ppf12_enc ppf12_ok ppf12_run for tail
  by unfold_locales (rule ppf12_while_item)

lemma ppf12_loop_items:
  assumes "drop (unat sk) (sdata (ppf s)) = concat (map ppf12_enc its) @ tail" "its \<noteq> []" "list_all ppf12_ok its"
    and "length (sdata (ppf s)) < 2 ^ 31" "length ob = 4" "c = of_nat (length (concat (map ppf12_enc its)))"
  shows "\<exists>s'. ppf12_loop ob anz sk c s = Some s' \<and> sdata (bin s') = apply_runs (map ppf12_run its) (sdata (bin s))"
proof -
  let ?ys = "concat (map ppf12_enc its)" and ?p = "(ob, anz, sk, c, s)"
  have "0 < length ?ys" using assms(2) by (cases its) (simp_all add: ppf12_enc_def)
  moreover have l: "unat sk + length ?ys \<le> length (sdata (ppf s))"
    using arg_cong [OF assms(1), of length] \<open>0 < length ?ys\<close> unfolding length_drop length_append by arith
  ultimately have c: "c \<noteq> 0"
    using assms(4,6) word_of_nat_neq_0 [of "length ?ys", where 'a = 32] by auto
  have "ppf12_view tail ?p (sdata (bin s)) (?ys @ [])"
    using assms l by (simp add: ppf12_view_def)
  from ppf12_records.loop_items [OF this assms(3)] obtain p' where
    p': "ppf12_while ?p = ppf12_while p'" "ppf12_view tail p' (apply_runs (map ppf12_run its) (sdata (bin s))) []"
    by blast
  then show ?thesis using c by (auto simp: ppf12_view_def ppf12_while_def)
qed

lemma ppf3_loop_items:
  assumes "srest (ppf s) = concat (map (ppf3_enc undo) its) @ tail" "its \<noteq> []" "list_all (ppf3_ok mode undo) its"
    and "length ob = 8" "c = int (length (concat (map (ppf3_enc undo) its)))"
  shows "\<exists>s'. ppf3_loop mode undo ob anz c s = Some s' \<and> sdata (bin s') = apply_runs (map (ppf3_run mode) its) (sdata (bin s))"
proof -
  let ?ys = "concat (map (ppf3_enc undo) its)" and ?p = "(ob, anz, c, s)"
  have c: "c \<noteq> 0" using assms(2,5) by (cases its) (simp_all add: ppf3_enc_def)
  have "ppf3_view tail ?p (sdata (bin s)) (?ys @ [])"
    using assms by (simp add: ppf3_view_def)
  from ppf3_records.loop_items [OF this assms(3)] obtain p' where
    p': "ppf3_while mode undo ?p = ppf3_while mode undo p'"
      "ppf3_view tail p' (apply_runs (map (ppf3_run mode) its) (sdata (bin s))) []"
    by blast
  then show ?thesis using c by (auto simp: ppf3_view_def ppf3_while_def)
qed

text \<open>A loop that starts with a counter of 0 or below never gets back to 0.\<close>

lemma ppf3_loop_positive:
  "ppf3_loop mode undo ob anz c s = Some s' \<Longrightarrow> 0 < c"
proof (erule ppf3_loop.raw_induct [where P = "\<lambda>mode undo ob anz c s s'. 0 < c", rotated])
  fix f mode undo ob anz and c :: int and s s'
  assume IH: "\<And>mode undo ob anz c s s'. f mode undo ob anz c s = Some s' \<Longrightarrow> 0 < c"
    and eq: "(let (_, offbuf, p1) = fread_into ob 8 (ppf s);
          (_, a, p2) = fread_into [anz] 1 p1;
          anz = a ! 0;
          (mem, p3) = ppf3_data mode undo (unat anz) (ppfmem s) p2;
          (_, b1) = fseek_set (le_int64 offbuf) (bin s);
          s = s\<lparr>ppf := p3, ppfmem := mem, bin := fwrite (take (unat anz) mem) b1\<rparr>;
          count = c - (int (unat anz) + 9);
          count = (if undo then count - int (unat anz) else count)
      in if count \<noteq> 0 then f mode undo offbuf anz count s else Some s) = Some s'"
  from eq obtain ob' c' s1 and a :: byte where
    "c' = c - (int (unat a) + 9) - (if undo then int (unat a) else 0)" "c' = 0 \<or> f mode undo ob' a c' s1 = Some s'"
    by (simp add: Let_def split: prod.splits if_splits) blast+
  note c' = this
  then have "0 \<le> c'" using IH [of mode undo ob' a c' s1 s'] by fastforce
  moreover have "0 \<le> (if undo then int (unat a) else 0)" "0 \<le> int (unat a)" by simp_all
  ultimately show "0 < c" using c'(1) by linarith
qed


lemma ppf3_loop_nonpos: "c \<le> 0 \<Longrightarrow> ppf3_loop mode undo ob anz c s = None"
  by (meson ppf3_loop_positive linorder_not_less not_Some_eq)

section \<open>File ids\<close>

definition fileidstart :: bytes where
  "fileidstart = map of_char ''@BEGIN_FILE_ID.DIZ''"

definition fileidend :: bytes where
  "fileidend = map of_char ''@END_FILE_ID.DIZ''"

text \<open>The block at the end of a patch; the length field has 4 bytes in version 2 and 2 bytes in
  version 3.\<close>

definition file_id :: "nat \<Rightarrow> bytes \<Rightarrow> bytes" where
  "file_id lenidx text = fileidstart @ text @ fileidend @ le_bytes lenidx (length text)"

definition id_magic_at :: "nat \<Rightarrow> bytes \<Rightarrow> bool" where
  "id_magic_at lenidx p \<longleftrightarrow> take 4 (drop (length p - (lenidx + 4)) p) = [0x2E, 0x44, 0x49, 0x5A]"

text \<open>What may stand behind the records: nothing, or a file id with a text of 1 to 3072 bytes.\<close>

definition id_tail :: "nat \<Rightarrow> bytes option \<Rightarrow> bytes" where
  "id_tail lenidx diz = (case diz of None \<Rightarrow> [] | Some t \<Rightarrow> file_id lenidx t)"

definition id_ok :: "nat \<Rightarrow> bytes \<Rightarrow> bytes option \<Rightarrow> bool" where
  "id_ok lenidx p diz \<longleftrightarrow> (case diz of None \<Rightarrow> \<not> id_magic_at lenidx p | Some t \<Rightarrow> t \<noteq> [] \<and> length t \<le> 3072)"

definition id_len :: "bytes option \<Rightarrow> nat" where
  "id_len diz = (case diz of None \<Rightarrow> 0 | Some t \<Rightarrow> length t)"

lemma length_fileid_parts: "length fileidstart = 18" "length fileidend = 16"
  by (simp_all add: fileidstart_def fileidend_def)

lemma idmagic_word:
  assumes "length b = 4" shows "le_val b = 0x5A49442E \<longleftrightarrow> b = [0x2E, 0x44, 0x49, 0x5A]"
proof -
  have "le_val [0x2E, 0x44, 0x49, 0x5A :: byte] = 0x5A49442E" by simp
  with le_val_inject [of b "[0x2E, 0x44, 0x49, 0x5A]"] assms show ?thesis by simp
qed

lemma ShowFileId_tail:
  assumes "sdata f = body @ id_tail lenidx diz" "id_ok lenidx (sdata f) diz" "8 \<le> length body"
    and "lenidx = (if ver = 2 then 4 else 2)"
  shows "\<exists>f'. ShowFileId junk f ver = Ret (int (id_len diz), f') \<and> sdata f' = sdata f"
proof (cases diz)
  case None
  let ?P = "sdata f" and ?k = "lenidx + 4"
  have k: "?k \<le> length ?P" "lenidx \<ge> 2" using assms by auto
  then have 1: "fseek_end (- (int lenidx + 4)) f = (0, f\<lparr>spos := length ?P - ?k, seof := False\<rparr>)"
    using fseek_end_back [of ?k f] by simp
  have 2: "fread_into (uninit junk 10 4) 4 (f\<lparr>spos := length ?P - ?k, seof := False\<rparr>)
     = (4, take 4 (drop (length ?P - ?k) ?P), f\<lparr>spos := length ?P - ?k + 4, seof := False\<rparr>)"
    using k by (subst fread_into_at) auto
  have "le_val (take 4 (drop (length ?P - ?k) ?P)) \<noteq> 0x5A49442E"
    using assms(2) None k by (subst idmagic_word) (auto simp: id_ok_def id_magic_at_def)
  with 1 2 show ?thesis
    unfolding ShowFileId_def assms(4) [symmetric] Let_def by (simp add: None id_len_def)
next
  case (Some t)
  let ?P = "sdata f" and ?n = "length t" and ?k = "lenidx + 4"
  let ?pre = "body @ fileidstart @ t @ take 12 fileidend"
  have li: "lenidx = 2 \<or> lenidx = 4" using assms(4) by auto
  have n: "?n \<le> 3072" using assms(2) Some by (simp add: id_ok_def)
  have m: "drop 12 fileidend = [0x2E, 0x44, 0x49, 0x5A]" by (simp add: fileidend_def)
  have fe: "fileidend @ xs = take 12 fileidend @ [0x2E, 0x44, 0x49, 0x5A] @ xs" for xs
    using append_take_drop_id [of 12 fileidend] m by (metis append_assoc)
  have P: "?P = ?pre @ [0x2E, 0x44, 0x49, 0x5A] @ le_bytes lenidx ?n"
    using assms(1) unfolding Some id_tail_def file_id_def option.case fe [of "le_bytes lenidx ?n"] by simp
  define q where "q = length ?pre"
  have lP: "length ?P - ?k = q" "length ?P - lenidx = q + 4" "lenidx + 16 + ?n \<le> length ?P" "?k \<le> length ?P"
    unfolding P q_def using assms(3) by (simp_all add: length_fileid_parts)
  have e1: "fseek_end (- int lenidx - 4) g = (0, g\<lparr>spos := q, seof := False\<rparr>)" if "sdata g = ?P" for g
    using fseek_end_back [of ?k g] lP that by simp
  have e2: "fseek_end (- int lenidx) g = (0, g\<lparr>spos := q + 4, seof := False\<rparr>)" if "sdata g = ?P" for g
    using fseek_end_back [of lenidx g] lP that by simp
  have e3: "fseek_end (- int lenidx - 16 - int ?n) g = (0, g\<lparr>spos := length ?P - (lenidx + 16 + ?n), seof := False\<rparr>)" if "sdata g = ?P" for g
    using fseek_end_back [of "lenidx + 16 + ?n" g] lP that by (simp add: algebra_simps)
  have r1: "fread_into (uninit junk 10 4) 4 (f\<lparr>spos := q, seof := False\<rparr>)
     = (4, [0x2E, 0x44, 0x49, 0x5A], f\<lparr>spos := q + 4, seof := False\<rparr>)"
    by (subst fread_into_at) (simp_all add: P q_def)
  have r2: "fread_into [0, 0, 0, 0] lenidx (f\<lparr>spos := q + 4, seof := False\<rparr>)
     = (lenidx, le_bytes lenidx ?n @ drop lenidx [0, 0, 0, 0], f\<lparr>spos := q + 4 + lenidx, seof := False\<rparr>)"
    by (subst fread_into_at) (simp_all add: P q_def)
  have v: "le_int32 (le_bytes lenidx ?n @ drop lenidx [0, 0, 0, 0]) = int ?n"
    using li n by (intro le_int32_small) (auto simp: le_val_append le_val_le_bytes)
  show ?thesis
    unfolding ShowFileId_def assms(4) [symmetric] Let_def
    using n by (simp add: e1 e2 e3 r1 r2 v Some id_len_def fread_def)
qed


section \<open>Whole patches\<close>

text \<open>States that agree in the contents of both files and in the input left.\<close>

definition same_files :: "ppf_state \<Rightarrow> ppf_state \<Rightarrow> bool" where
  "same_files s s' \<longleftrightarrow> sdata (ppf s') = sdata (ppf s) \<and> sdata (bin s') = sdata (bin s) \<and> user s' = user s"

lemma block_check_files:
  assumes "1084 \<le> length (sdata (ppf s))" "q + 1024 \<le> length (sdata (bin s))"
    and "length (ppfblock s) = 1024" "length (binblock s) = 1024"
    and "take 1024 (drop 60 (sdata (ppf s))) = take 1024 (drop q (sdata (bin s)))"
  shows "\<exists>s'. block_check cc (int q) s = (True, s') \<and> same_files s s'"
  using assms
  by (intro exI [of _ "s\<lparr>ppf := (ppf s)\<lparr>spos := 1084, seof := False\<rparr>, ppfblock := take 1024 (drop 60 (sdata (ppf s))),
      bin := (bin s)\<lparr>spos := q + 1024, seof := False\<rparr>, binblock := take 1024 (drop q (sdata (bin s)))\<rparr>"])
    (simp add: block_check_def memcmp_def stdio_simps fread_into_at same_files_def Let_def)

definition ppf1_file :: "bytes \<Rightarrow> ppf_item list \<Rightarrow> bytes" where
  "ppf1_file hdr its = [0x50, 0x50, 0x46, 0x31] @ hdr @ concat (map ppf12_enc its)"

lemma ApplyPPF1Patch_items:
  assumes "sdata (ppf s) = ppf1_file hdr its" "length hdr = 52" "its \<noteq> []" "list_all ppf12_ok its"
    and "length (ppf1_file hdr its) < 2 ^ 31" "desc_store_ok cc ''ApplyPPF1Patch''"
  shows "\<exists>s'. ApplyPPF1Patch cc junk s = Some (Ret s') \<and> sdata (bin s') = apply_runs (map ppf12_run its) (sdata (bin s))"
proof -
  let ?P = "sdata (ppf s)" and ?c = "(of_nat (length (concat (map ppf12_enc its))) :: u32)"
  let ?p = "(ppf s)\<lparr>spos := length ?P, seof := False\<rparr>"
  have "ftell ?p = int (56 + length (concat (map ppf12_enc its)))"
    using assms(1,2,5) by (simp add: ftell_def ppf1_file_def)
  then have "ApplyPPF1Patch cc junk s = map_option Ret (ppf12_loop (uninit junk 0 4) (junk 4) 56 ?c (s\<lparr>ppf := ?p\<rparr>))"
    using assms(6) by (simp add: ApplyPPF1Patch_def stdio_simps fread_def Let_def)
  moreover have "drop (unat (56 :: u32)) (sdata (ppf (s\<lparr>ppf := ?p\<rparr>))) = concat (map ppf12_enc its) @ []"
    using assms(1,2) by (simp add: ppf1_file_def)
  ultimately show ?thesis
    using ppf12_loop_items [of 56 "s\<lparr>ppf := ?p\<rparr>" its "[]"] assms by auto
qed

definition ppf2_file :: "bytes \<Rightarrow> nat \<Rightarrow> bytes \<Rightarrow> ppf_item list \<Rightarrow> bytes option \<Rightarrow> bytes" where
  "ppf2_file hdr n blk its diz = [0x50, 0x50, 0x46, 0x32] @ hdr @ le_bytes 4 n @ blk @ concat (map ppf12_enc its)
     @ id_tail 4 diz"

lemma length_id_tail: "length (id_tail k diz) = (case diz of None \<Rightarrow> 0 | Some t \<Rightarrow> 34 + length t + k)"
  by (cases diz) (simp_all add: id_tail_def file_id_def length_fileid_parts)

lemma ApplyPPF2Patch_items:
  assumes P: "sdata (ppf s) = ppf2_file hdr n blk its diz" "length hdr = 52" "length blk = 1024"
    "its \<noteq> []" "list_all ppf12_ok its" "length (sdata (ppf s)) < 2 ^ 31" "id_ok 4 (sdata (ppf s)) diz"
    and d: "sdata (bin s) = d" "n = length d" "0x9720 \<le> length d" "length d < 2 ^ 31" "blk = take 1024 (drop 0x9320 d)"
    and b: "length (ppfblock s) = 1024" "length (binblock s) = 1024" and cc: "desc_store_ok cc ''ApplyPPF2Patch''"
  shows "\<exists>s'. ApplyPPF2Patch cc junk s = Some (Ret s') \<and> sdata (bin s') = apply_runs (map ppf12_run its) d"
proof -
  let ?P = "sdata (ppf s)" and ?rec = "concat (map ppf12_enc its)"
  have P0: "?P = ([0x50, 0x50, 0x46, 0x32] @ hdr @ le_bytes 4 n @ blk @ ?rec) @ id_tail 4 diz"
    using P(1) by (simp add: ppf2_file_def)
  have lP: "length ?P = 1084 + length ?rec + length (id_tail 4 diz)" using P0 P(2,3) by simp
  obtain x2 p2 where p2: "fread 50 ((ppf s)\<lparr>spos := 6, seof := False\<rparr>) = (x2, p2)" "sdata p2 = ?P"
    by (simp add: fread_def)
  obtain p3 where p3: "ShowFileId junk p2 2 = Ret (int (id_len diz), p3)" "sdata p3 = ?P"
    using ShowFileId_tail [of p2 _ 4 diz 2 junk] P0 P(2,7) p2(2) by auto
  let ?p5 = "p3\<lparr>spos := 60, seof := False\<rparr>"
  have p5: "fread_into (uninit junk 20 4) 4 (p3\<lparr>spos := 56, seof := False\<rparr>) = (4, le_bytes 4 n, ?p5)"
    using lP p3(2) P(2) by (subst fread_into_at) (simp_all add: P0)
  let ?b1 = "(bin s)\<lparr>spos := length d, seof := False\<rparr>"
  let ?s1 = "s\<lparr>ppf := ?p5, bin := ?b1\<rparr>"
  have eq: "(of_nat (le_val (le_bytes 4 n)) :: u32) = of_int (ftell ?b1)"
    using d by (simp add: codec_simps ftell_def)
  have "take 1024 (drop 60 ?P) = take 1024 (drop 0x9320 d)" using P0 P(2,3) d by simp
  then obtain s2 where s2: "block_check cc 0x9320 ?s1 = (True, s2)" "same_files ?s1 s2"
    using block_check_files [of ?s1 "0x9320"] lP p3(2) d b by auto
  let ?p6 = "(ppf s2)\<lparr>spos := length ?P, seof := False\<rparr>"
  let ?c = "of_int (ftell ?p6) - 1084 - (if id_len diz \<noteq> 0 then of_int (int (id_len diz) + 38) else 0) :: u32"
  have f2: "sdata (ppf s2) = ?P" "sdata (bin s2) = d" using s2(2) p3(2) d by (simp_all add: same_files_def)
  have c: "?c = of_nat (length ?rec)"
    using lP P(6,7) by (cases diz) (auto simp: ftell_def length_id_tail id_len_def id_ok_def)
  have "ApplyPPF2Patch cc junk s = map_option Ret (ppf12_loop (uninit junk 0 4) (junk 4) 1084 ?c (s2\<lparr>ppf := ?p6\<rparr>))"
    using p2(1) p3(1) d(1) s2(1) eq f2(1) cc
    by (simp add: ApplyPPF2Patch_def stdio_simps p5 Let_def)
  moreover have "drop (unat (1084 :: u32)) (sdata (ppf (s2\<lparr>ppf := ?p6\<rparr>))) = ?rec @ id_tail 4 diz"
    using P0 P(2,3) f2 by simp
  ultimately show ?thesis
    using ppf12_loop_items [of 1084 "s2\<lparr>ppf := ?p6\<rparr>" its "id_tail 4 diz" _ ?c] P c f2 by auto
qed


definition block_pos :: "byte \<Rightarrow> nat" where
  "block_pos imagetype = (if imagetype \<noteq> 0 then 0x80A0 else 0x9320)"

definition ppf3_file :: "bytes \<Rightarrow> byte \<Rightarrow> byte \<Rightarrow> byte \<Rightarrow> byte \<Rightarrow> bytes \<Rightarrow> bytes \<Rightarrow> bytes option \<Rightarrow> bytes" where
  "ppf3_file hdr imagetype blockcheck undo dummy blk records diz =
     [0x50, 0x50, 0x46, 0x33] @ hdr @ [imagetype, blockcheck, undo, dummy] @ (if blockcheck \<noteq> 0 then blk else [])
     @ records @ id_tail 2 diz"

definition block_fits :: "byte \<Rightarrow> byte \<Rightarrow> bytes \<Rightarrow> bytes \<Rightarrow> bool" where
  "block_fits imagetype blockcheck blk d \<longleftrightarrow>
     blockcheck \<noteq> 0 \<longrightarrow> block_pos imagetype + 1024 \<le> length d \<and> blk = take 1024 (drop (block_pos imagetype) d)"

lemma ApplyPPF3Patch_loop:
  assumes P: "sdata (ppf s) = ppf3_file hdr it bc un dm blk recs diz" "length hdr = 52" "id_ok 2 (sdata (ppf s)) diz"
    and d: "sdata (bin s) = d" "block_fits it bc blk d" and m: "mode = UNDO \<Longrightarrow> un \<noteq> 0"
    and b: "length (ppfblock s) = 1024" "length (binblock s) = 1024" and cc: "desc_store_ok cc ''ApplyPPF3Patch''"
  shows "\<exists>s'. ApplyPPF3Patch cc junk mode s = map_option Ret (ppf3_loop mode (un \<noteq> 0) (uninit junk 30 8) 0 (int (length recs)) s')
    \<and> srest (ppf s') = recs @ id_tail 2 diz \<and> sdata (bin s') = d"
proof -
  let ?P = "sdata (ppf s)" and ?blk = "if bc \<noteq> 0 then blk else []" and ?sk = "if bc \<noteq> 0 then 1084 else 60 :: nat"
  have P0: "?P = ([0x50, 0x50, 0x46, 0x33] @ hdr @ [it, bc, un, dm] @ ?blk @ recs) @ id_tail 2 diz"
    using P(1) by (simp add: ppf3_file_def)
  have lb: "length ?blk = ?sk - 60" using d(2) by (auto simp: block_fits_def)
  have lP: "length ?P = ?sk + length recs + length (id_tail 2 diz)" using P0 P(2) lb by simp
  obtain x2 p2 where p2: "fread 50 ((ppf s)\<lparr>spos := 6, seof := False\<rparr>) = (x2, p2)" "sdata p2 = ?P"
    by (simp add: fread_def)
  obtain p3 where p3: "ShowFileId junk p2 3 = Ret (int (id_len diz), p3)" "sdata p3 = ?P"
    using ShowFileId_tail [of p2 _ 2 diz 3 junk] P0 P(2,3) p2(2) by auto
  have l60: "60 \<le> length ?P" using lP by simp
  have fl: "take 1 (drop 56 ?P) = [it]" "take 1 (drop 57 ?P) = [bc]" "take 1 (drop 58 ?P) = [un]"
    using P(2) by (simp_all add: P0)
  let ?s1 = "s\<lparr>ppf := p3\<lparr>spos := 59, seof := False\<rparr>\<rparr>"
  obtain s2 where s2: "(if bc \<noteq> 0 then block_check cc (if it \<noteq> 0 then 0x80A0 else 0x9320) ?s1 else (True, ?s1)) = (True, s2)"
    "same_files ?s1 s2"
  proof (cases "bc = 0")
    case False
    have "take 1024 (drop 60 ?P) = take 1024 (drop (block_pos it) d)"
      using P(2) d(2) False by (auto simp: P0 block_fits_def)
    then obtain s2 where "block_check cc (int (block_pos it)) ?s1 = (True, s2)" "same_files ?s1 s2"
      using block_check_files [of ?s1 "block_pos it"] lP p3(2) d b False by (auto simp: block_fits_def)
    moreover have "int (block_pos it) = (if it \<noteq> 0 then 0x80A0 else 0x9320)" by (simp add: block_pos_def)
    ultimately show thesis using that False by simp
  qed (use that in \<open>simp add: same_files_def\<close>)
  let ?q3 = "(ppf s2)\<lparr>spos := ?sk, seof := False\<rparr>"
  have f2: "sdata (ppf s2) = ?P" "sdata (bin s2) = d" using s2(2) p3(2) d by (simp_all add: same_files_def)
  have c: "int (length ?P) - int ?sk - (if id_len diz \<noteq> 0 then int (id_len diz) + 18 + 16 + 2 else 0) = int (length recs)"
    using lP P(3) by (cases diz) (auto simp: length_id_tail id_len_def id_ok_def)
  have m2: "\<not> (mode = UNDO \<and> un = 0)" using m by blast
  have "ApplyPPF3Patch cc junk mode s = map_option Ret (ppf3_loop mode (un \<noteq> 0) (uninit junk 30 8) 0 (int (length recs)) (s2\<lparr>ppf := ?q3\<rparr>))"
    using p2(1) p3 s2(1) f2(1) fl m2 l60 c cc
    by (cases "bc = 0"; cases "id_len diz = 0")
      (auto simp: ApplyPPF3Patch_def stdio_simps fread_into_at Let_def ftello64_def simp del: One_nat_def)
  moreover have "srest ?q3 = recs @ id_tail 2 diz"
    using P0 P(2) f2(1) lb by (cases "bc = 0") (simp_all add: srest_def)
  ultimately show ?thesis using f2 by auto
qed


section \<open>The program\<close>

abbreviation ppf_init :: "bytes \<Rightarrow> bytes \<Rightarrow> bytes \<Rightarrow> ppf_state" where
  "ppf_init p d stdin \<equiv> \<lparr>ppf = sopen p, bin = sopen d, binblock = replicate 1024 0, ppfblock = replicate 1024 0,
     ppfmem = replicate 512 0, user = stdin\<rparr>"

lemma applyppf_main_run:
  assumes "content fs binf = Some d" "content fs ppff = Some p" "writable fs binf" "binf \<noteq> ppff" "c \<in> {CHR ''a'', CHR ''u''}"
  shows "applyppf_main cc junk stdin [c # cs, binf, ppff] fs = map_option (\<lambda>r. case r of
      Ret s \<Rightarrow> Returned 0 (put_file binf (sdata (bin s)) fs) | Exit n \<Rightarrow> Exited n fs | Undef \<Rightarrow> Undefined)
      (ppf_run cc junk c (ppf_init p d stdin))"
  using assms by (auto simp: applyppf_main_def OpenFiles_def fopen_rb_def fopen_rbp_def fclose_to_def)

lemma padded_ok: "desc_store_ok padded f"
  by (simp add: desc_store_ok_def padded_def)

lemma PPFVersion_front:
  assumes "sdata f = m @ ys" "length m = 4"
  shows "PPFVersion junk f = (if le_val m = 0x31465050 then 1 else if le_val m = 0x32465050 then 2
     else if le_val m = 0x33465050 then 3 else 0, f\<lparr>spos := 4, seof := False\<rparr>)"
  using assms fread_into_at [of 0 4 f "uninit junk 50 4" False] by (simp add: PPFVersion_def stdio_simps Let_def)

text \<open>A version 1 patch with at least one record is applied: the program returns and the image has
  exactly the records' bytes at their positions.\<close>

theorem ppf1_apply_correct:
  assumes "content fs binf = Some d" "content fs ppff = Some (ppf1_file hdr its)" "writable fs binf" "binf \<noteq> ppff"
    and "length hdr = 52" "its \<noteq> []" "list_all ppf12_ok its" "length (ppf1_file hdr its) < 2 ^ 31" "desc_store_ok cc ''ApplyPPF1Patch''"
  shows "applyppf_main cc junk stdin [''a'', binf, ppff] fs
    = Some (Returned 0 (put_file binf (apply_runs (map ppf12_run its) d) fs))"
proof -
  let ?s = "ppf_init (ppf1_file hdr its) d stdin"
  have "PPFVersion junk (ppf ?s) = (1, (ppf ?s)\<lparr>spos := 4, seof := False\<rparr>)"
    by (subst PPFVersion_front [of _ "[0x50, 0x50, 0x46, 0x31]"]) (simp_all add: stdio_simps ppf1_file_def)
  then show ?thesis
    using ApplyPPF1Patch_items [of "?s\<lparr>ppf := (ppf ?s)\<lparr>spos := 4, seof := False\<rparr>\<rparr>" hdr its cc junk]
      applyppf_main_run [OF assms(1-4), of "CHR ''a''" cc junk stdin "[]"] assms(5-9)
    by (auto simp: ppf_run_def stdio_simps)
qed

theorem ppf1_apply_correct_witness:
  "applyppf_main padded (\<lambda>_. 0) [] [''a'', ''b'', ''p'']
     \<lparr>content = [''b'' \<mapsto> [1, 2, 3, 4], ''p'' \<mapsto> ppf1_file (replicate 52 0) [PItem 1 [7, 8] [], PItem 5 [9] []]], writable = \<lambda>_. True\<rparr>
   = Some (Returned 0 (put_file ''b'' [1, 7, 8, 4, 0, 9]
     \<lparr>content = [''b'' \<mapsto> [1, 2, 3, 4], ''p'' \<mapsto> ppf1_file (replicate 52 0) [PItem 1 [7, 8] [], PItem 5 [9] []]], writable = \<lambda>_. True\<rparr>))"
proof -
  have "apply_runs (map ppf12_run [PItem 1 [7, 8] [], PItem 5 [9] []]) [1, 2, 3, 4] = [1, 7, 8, 4, 0, 9]"
    by (simp add: ppf12_run_def run_simps overwrite_def)
  then show ?thesis
    using ppf1_apply_correct [of "\<lparr>content = [''b'' \<mapsto> [1, 2, 3, 4], ''p'' \<mapsto> ppf1_file (replicate 52 0) [PItem 1 [7, 8] [], PItem 5 [9] []]],
        writable = \<lambda>_. True\<rparr>" "''b''" "[1, 2, 3, 4]" "''p''" "replicate 52 0" "[PItem 1 [7, 8] [], PItem 5 [9] []]" padded "\<lambda>_. 0" "[]"]
    by (simp add: ppf12_ok_def ppf1_file_def ppf12_enc_def padded_ok)
qed

text \<open>a version 2 patch for an image of the recorded size with the recorded validation block is applied
  without a question, with or without a file id at its end.\<close>

theorem ppf2_apply_correct:
  assumes "content fs binf = Some d" "content fs ppff = Some p" "writable fs binf" "binf \<noteq> ppff"
    and "p = ppf2_file hdr (length d) (take 1024 (drop 0x9320 d)) its diz" "length hdr = 52" "its \<noteq> []"
    and "list_all ppf12_ok its" "length p < 2 ^ 31" "id_ok 4 p diz" "0x9720 \<le> length d" "length d < 2 ^ 31" "desc_store_ok cc ''ApplyPPF2Patch''"
  shows "applyppf_main cc junk stdin [''a'', binf, ppff] fs
    = Some (Returned 0 (put_file binf (apply_runs (map ppf12_run its) d) fs))"
proof -
  let ?s = "ppf_init p d stdin"
  let ?s1 = "?s\<lparr>ppf := (ppf ?s)\<lparr>spos := 4, seof := False\<rparr>\<rparr>"
  have "PPFVersion junk (ppf ?s) = (2, (ppf ?s)\<lparr>spos := 4, seof := False\<rparr>)"
    by (subst PPFVersion_front [of _ "[0x50, 0x50, 0x46, 0x32]"]) (simp_all add: stdio_simps assms(5) ppf2_file_def)
  moreover have "\<exists>s'. ApplyPPF2Patch cc junk ?s1 = Some (Ret s') \<and> sdata (bin s') = apply_runs (map ppf12_run its) d"
    using assms(5-13) by (intro ApplyPPF2Patch_items) (simp_all add: stdio_simps)
  ultimately show ?thesis
    using applyppf_main_run [OF assms(1-4), of "CHR ''a''" cc junk stdin "[]"] by (auto simp: ppf_run_def)
qed

theorem ppf2_apply_correct_witness:
  "\<exists>fs'. applyppf_main padded (\<lambda>_. 0) [] [''a'', ''b'', ''p''] \<lparr>content = [''b'' \<mapsto> replicate 0x9720 0,
       ''p'' \<mapsto> ppf2_file (replicate 52 0) 0x9720 (replicate 1024 0) [PItem 1 [7] []] (Some [0x41])], writable = \<lambda>_. True\<rparr>
     = Some (Returned 0 fs') \<and> content fs' ''b'' = Some (apply_runs [(1, [7])] (replicate 0x9720 0))"
  using ppf2_apply_correct [of "\<lparr>content = [''b'' \<mapsto> replicate 0x9720 0,
       ''p'' \<mapsto> ppf2_file (replicate 52 0) 0x9720 (replicate 1024 0) [PItem 1 [7] []] (Some [0x41])], writable = \<lambda>_. True\<rparr>"
      "''b''" "replicate 0x9720 0" "''p''" _ "replicate 52 0" "[PItem 1 [7] []]" "Some [0x41]" padded "\<lambda>_. 0" "[]"]
  by (simp add: padded_ok ppf12_ok_def ppf2_file_def ppf12_enc_def ppf12_run_def id_ok_def length_id_tail put_file_def)

lemma ppf3_run_loop:
  assumes "content fs binf = Some d" "content fs ppff = Some p" "writable fs binf" "binf \<noteq> ppff" "desc_store_ok cc ''ApplyPPF3Patch''"
    and "p = ppf3_file hdr it bc un dm blk recs diz" "length hdr = 52"
    and "id_ok 2 p diz" "block_fits it bc blk d" "mode = UNDO \<Longrightarrow> un \<noteq> 0"
  shows "\<exists>s'. srest (ppf s') = recs @ id_tail 2 diz \<and> sdata (bin s') = d \<and>
    applyppf_main cc junk stdin [[if mode = APPLY then CHR ''a'' else CHR ''u''], binf, ppff] fs
    = map_option (\<lambda>s. Returned 0 (put_file binf (sdata (bin s)) fs))
        (ppf3_loop mode (un \<noteq> 0) (uninit junk 30 8) 0 (int (length recs)) s')"
proof -
  let ?s = "ppf_init p d stdin" and ?c = "if mode = APPLY then CHR ''a'' else CHR ''u''"
  let ?s1 = "?s\<lparr>ppf := (ppf ?s)\<lparr>spos := 4, seof := False\<rparr>\<rparr>"
  have "PPFVersion junk (ppf ?s) = (3, (ppf ?s)\<lparr>spos := 4, seof := False\<rparr>)"
    by (subst PPFVersion_front [of _ "[0x50, 0x50, 0x46, 0x33]"]) (simp_all add: stdio_simps assms(6) ppf3_file_def)
  then have r: "ppf_run cc junk ?c ?s = ApplyPPF3Patch cc junk mode ?s1"
    by (cases mode) (simp_all add: ppf_run_def)
  obtain s' where "ApplyPPF3Patch cc junk mode ?s1
      = map_option Ret (ppf3_loop mode (un \<noteq> 0) (uninit junk 30 8) 0 (int (length recs)) s')"
    "srest (ppf s') = recs @ id_tail 2 diz" "sdata (bin s') = d"
    using ApplyPPF3Patch_loop [of ?s1 hdr it bc un dm blk recs diz d mode cc junk] assms(5-10)
    by (auto simp: stdio_simps)
  with r show ?thesis
    using applyppf_main_run [OF assms(1-4), of ?c cc junk stdin "[]"]
    by (intro exI [of _ s']) (simp add: option.map_comp comp_def)
qed

text \<open>C39: a version 3 patch whose validation block is that of the image is applied or, where it has undo
  data, undone: the program returns and the image has the new or the old bytes at all positions.  The two names are different, and
  the compiler leaves a byte behind the description.\<close>

theorem ppf3_apply_correct:
  assumes "content fs binf = Some d" "content fs ppff = Some p" "writable fs binf" "binf \<noteq> ppff" "desc_store_ok cc ''ApplyPPF3Patch''"
    and "p = ppf3_file hdr it bc un dm blk (concat (map (ppf3_enc (un \<noteq> 0)) its)) diz" "length hdr = 52"
    and "id_ok 2 p diz" "block_fits it bc blk d" "mode = UNDO \<Longrightarrow> un \<noteq> 0"
    and "its \<noteq> []" "list_all (ppf3_ok mode (un \<noteq> 0)) its"
  shows "applyppf_main cc junk stdin [[if mode = APPLY then CHR ''a'' else CHR ''u''], binf, ppff] fs
    = Some (Returned 0 (put_file binf (apply_runs (map (ppf3_run mode) its) d) fs))"
  using ppf3_run_loop [OF assms(1-10), where junk = junk and stdin = stdin] ppf3_loop_items [OF _ assms(11,12) length_uninit refl]
  by fastforce

theorem ppf3_apply_correct_witness:
  "\<exists>fs'. applyppf_main padded (\<lambda>_. 0) [] [''a'', ''b'', ''p''] \<lparr>content = [''b'' \<mapsto> [1, 2, 3, 4],
       ''p'' \<mapsto> ppf3_file (replicate 52 0) 0 0 1 0 [] (concat (map (ppf3_enc True) [PItem 1 [7, 8] [2, 3]])) (Some [0x41])], writable = \<lambda>_. True\<rparr> = Some (Returned 0 fs') \<and> content fs' ''b'' = Some [1, 7, 8, 4]"
proof -
  have "apply_runs (map (ppf3_run APPLY) [PItem 1 [7, 8] [2, 3]]) [1, 2, 3, 4] = [1, 7, 8, 4]"
    by (simp add: ppf3_run_def run_simps overwrite_def)
  then show ?thesis
    using ppf3_apply_correct [of "\<lparr>content = [''b'' \<mapsto> [1, 2, 3, 4],
       ''p'' \<mapsto> ppf3_file (replicate 52 0) 0 0 1 0 [] (concat (map (ppf3_enc True) [PItem 1 [7, 8] [2, 3]])) (Some [0x41])], writable = \<lambda>_. True\<rparr>" "''b''" "[1, 2, 3, 4]" "''p''" _ padded "replicate 52 0" 0 0 1 0 "[]" "[PItem 1 [7, 8] [2, 3]]" "Some [0x41]"
        APPLY "\<lambda>_. 0" "[]"]
    by (simp add: padded_ok ppf3_ok_def id_ok_def block_fits_def put_file_def)
qed

text \<open>a version 3 patch without records, as it is made from two equal images, makes the program run
  forever: the counter of the \<^verbatim>\<open>do\<close>-loop starts at 0 and is first lowered, then compared with 0.\<close>

theorem ppf3_empty_never_returns:
  assumes "content fs binf = Some d" "content fs ppff = Some p" "writable fs binf" "binf \<noteq> ppff" "desc_store_ok cc ''ApplyPPF3Patch''"
    and "p = ppf3_file hdr it bc un dm blk [] diz" "length hdr = 52"
    and "id_ok 2 p diz" "block_fits it bc blk d"
  shows "applyppf_main cc junk stdin [''a'', binf, ppff] fs = None"
  using ppf3_run_loop [OF assms, where mode = APPLY and junk = junk and stdin = stdin] by (auto simp: ppf3_loop_nonpos)

theorem ppf3_empty_never_returns_witness:
  "applyppf_main padded (\<lambda>_. 0) [] [''a'', ''b'', ''p''] \<lparr>content = [''b'' \<mapsto> [1, 2, 3, 4],
       ''p'' \<mapsto> ppf3_file (replicate 52 0) 0 0 1 0 [] ([]) (Some [0x41])], writable = \<lambda>_. True\<rparr> = None"
  by (rule ppf3_empty_never_returns [of _ _ "[1, 2, 3, 4]" _ _ _ "replicate 52 0" 0 0 1 0 "[]" "Some [0x41]"])
    (simp_all add: padded_ok id_ok_def block_fits_def)

text \<open>Where the compiler leaves no byte behind the description, every patch of version 3 makes the program store outside of its
  objects, whatever else it holds.\<close>

theorem ppf3_description_overrun:
  assumes "content fs binf = Some d" "content fs ppff = Some ([0x50, 0x50, 0x46, 0x33] @ r)" "writable fs binf" "binf \<noteq> ppff"
    and "\<not> desc_store_ok cc ''ApplyPPF3Patch''" "c \<in> {CHR ''a'', CHR ''u''}"
  shows "applyppf_main cc junk stdin [[c], binf, ppff] fs = Some Undefined"
proof -
  let ?p = "[0x50, 0x50, 0x46, 0x33] @ r"
  have "PPFVersion junk (sopen ?p) = (3, (sopen ?p)\<lparr>spos := 4, seof := False\<rparr>)"
    by (subst PPFVersion_front [of _ "[0x50, 0x50, 0x46, 0x33]" r]) (simp_all add: stdio_simps)
  then have "ppf_run cc junk c (ppf_init ?p d stdin) = Some Undef"
    using assms(5) by (simp add: ppf_run_def ApplyPPF3Patch_def Let_def)
  then show ?thesis using applyppf_main_run [OF assms(1-4,6), of cc junk stdin "[]"] by simp
qed

theorem ppf3_description_overrun_witness:
  "applyppf_main (padded\<lparr>desc_slack := \<lambda>_. 0\<rparr>) (\<lambda>_. 0) [] [''a'', ''b'', ''p'']
     \<lparr>content = [''b'' \<mapsto> [1], ''p'' \<mapsto> [0x50, 0x50, 0x46, 0x33] @ []], writable = \<lambda>_. True\<rparr> = Some Undefined"
  by (rule ppf3_description_overrun [where d = "[1]"]) (simp_all add: desc_store_ok_def)

text \<open>A file that is no patch of a known version changes nothing; the program returns 0.\<close>

theorem ppf_rejects_other_files:
  assumes "content fs binf = Some d" "content fs ppff = Some p" "writable fs binf" "binf \<noteq> ppff" "4 \<le> length p"
    and "take 3 p \<noteq> [0x50, 0x50, 0x46]" "c \<in> {CHR ''a'', CHR ''u''}"
  shows "applyppf_main cc junk stdin [[c], binf, ppff] fs = Some (Returned 0 fs)"
proof -
  have w: "le_val (take 4 p) \<noteq> le_val [0x50, 0x50, 0x46, k]" for k
  proof
    assume "le_val (take 4 p) = le_val [0x50, 0x50, 0x46, k]"
    then have "take 4 p = [0x50, 0x50, 0x46, k]" using assms(5) by (subst (asm) le_val_inject) simp_all
    then have "take 3 (take 4 p) = take 3 [0x50, 0x50, 0x46, k]" by (rule arg_cong)
    then show False using assms(6) by simp
  qed
  have "PPFVersion junk (sopen p) = (0, (sopen p)\<lparr>spos := 4, seof := False\<rparr>)"
    using w [of "0x31"] w [of "0x32"] w [of "0x33"] assms(5)
    by (subst PPFVersion_front [of _ "take 4 p" "drop 4 p"]) (simp_all add: stdio_simps)
  then show ?thesis
    using applyppf_main_run [OF assms(1-4,7), where cc = cc and junk = junk and stdin = stdin and cs = "[]"] assms(1)
    by (simp add: ppf_run_def stdio_simps put_file_same Let_def)
qed

theorem ppf_rejects_other_files_witness:
  "applyppf_main padded (\<lambda>_. 0) [] [''u'', ''b'', ''p''] \<lparr>content = [''b'' \<mapsto> [1], ''p'' \<mapsto> [0, 0, 0, 0]], writable = \<lambda>_. True\<rparr>
   = Some (Returned 0 \<lparr>content = [''b'' \<mapsto> [1], ''p'' \<mapsto> [0, 0, 0, 0]], writable = \<lambda>_. True\<rparr>)"
  by (rule ppf_rejects_other_files [of _ _ "[1]" _ "[0, 0, 0, 0]"]) simp_all

end
