(* ===== verification/Ppf_Make.thy ===== *)
theory Ppf_Make
  imports Ppf
begin

text \<open>
  Making a PlayStation patch of version 3, \<^verbatim>\<open>jni/ppfpatcher/makeppf3_linux.c\<close>: the command line
  switches, the header, the search for differences in chunks of a megabyte, the file id, and
  the commands of \<^verbatim>\<open>main\<close>.  The main results: the records cover all differences, a patch applied to the
  original image gives the modified one, and undoing it gives the original back.  Allocating memory
  never fails here.  A patch file that is one of the files read has no result: it would be emptied and written while it is read.
\<close>

section \<open>Model\<close>

record Argumentblock =
  Arg_undo :: bool
  Arg_blockcheck :: bool
  Arg_imagetype :: bool
  Arg_desc :: bool
  Arg_fileid :: bool
  Arg_description :: "string option"
  Arg_fileidname :: "string option"
  Arg_origname :: string
  Arg_modname :: string
  Arg_ppfname :: string

text \<open>The switches; \<open>None\<close> is the null pointer behind the last argument, and reading through it
  (the value of \<^verbatim>\<open>-i\<close>) is \<open>Undef\<close>.\<close>

fun switches :: "string list \<Rightarrow> Argumentblock \<Rightarrow> Argumentblock cresult" where
  "switches [] a = Ret a"
| "switches (x # rest) a =
     (if take 1 x = ''-'' then
        (let sw = (case drop 1 x of [] \<Rightarrow> CHR 0x00 | c # _ \<Rightarrow> c) in
         if sw = CHR ''u'' then switches rest (a\<lparr>Arg_undo := True\<rparr>)
         else if sw = CHR ''x'' then switches rest (a\<lparr>Arg_blockcheck := False\<rparr>)
         else if sw = CHR ''i'' then
           (case rest of
              [] \<Rightarrow> Undef
            | v # rest' \<Rightarrow> switches rest'
                (if take 1 v = ''0'' then a\<lparr>Arg_imagetype := False\<rparr>
                 else if take 1 v = ''1'' then a\<lparr>Arg_imagetype := True\<rparr> else a))
         else if sw = CHR ''d'' then
           (case rest of
              [] \<Rightarrow> Ret (a\<lparr>Arg_desc := True, Arg_description := None\<rparr>)
            | v # rest' \<Rightarrow> switches rest' (a\<lparr>Arg_desc := True, Arg_description := Some v\<rparr>))
         else if sw = CHR ''f'' then
           (case rest of
              [] \<Rightarrow> Ret (a\<lparr>Arg_fileid := True, Arg_fileidname := None\<rparr>)
            | v # rest' \<Rightarrow> switches rest' (a\<lparr>Arg_fileid := True, Arg_fileidname := Some v\<rparr>))
         else switches rest a)
      else switches rest a)"

definition CheckSwitches :: "string list \<Rightarrow> Argumentblock \<Rightarrow> Argumentblock cresult" where
  "CheckSwitches argv a =
     cbind (switches (drop 2 argv) a) (\<lambda>a. Ret (a\<lparr>Arg_ppfname := argv ! (length argv - 1),
       Arg_modname := argv ! (length argv - 2), Arg_origname := argv ! (length argv - 3)\<rparr>))"

record mk_state =
  m_ppf :: stream
  m_bin :: stream
  m_mod :: stream
  m_fileid :: stream

definition OpenFilesForCreate :: "Argumentblock \<Rightarrow> fsys \<Rightarrow> (mk_state \<times> fsys) option cresult" where
  "OpenFilesForCreate a fs = (case (fopen_rb (Arg_origname a) fs, fopen_rb (Arg_modname a) fs) of
      (Some b, Some m) \<Rightarrow>
        (let (_, b1) = fseek_end 0 b;
             (_, m1) = fseek_end 0 m;
             fl1 = ftello64 b1;
             fl2 = ftello64 b1
         in if fl1 \<noteq> fl2 then Ret None
            else
              cbind
                (if Arg_fileid a
                 then (case Arg_fileidname a of None \<Rightarrow> Undef | Some n \<Rightarrow> Ret (fopen_rb n fs))
                 else Ret (Some (sopen [])))
                (\<lambda>id. case id of
                   None \<Rightarrow> Ret None
                 | Some f \<Rightarrow> (case fopen_wb (Arg_ppfname a) fs of
                       None \<Rightarrow> Ret None
                     | Some (p, fs') \<Rightarrow>
                         if Arg_ppfname a = Arg_origname a \<or> Arg_ppfname a = Arg_modname a \<or> (Arg_fileid a \<and> Arg_fileidname a = Some (Arg_ppfname a))
                         then Undef
                         else Ret (Some (\<lparr>m_ppf = p, m_bin = b1, m_mod = m1, m_fileid = f\<rparr>, fs')))))
    | _ \<Rightarrow> Ret None)"

text \<open>A description of more than 128 characters runs over its buffer, of shorter ones the first 50
  characters are written.\<close>

definition bytes_of :: "string \<Rightarrow> bytes" where
  "bytes_of s = map of_char s"

definition PPFCreateHeader :: "memory \<Rightarrow> Argumentblock \<Rightarrow> mk_state \<Rightarrow> mk_state cresult" where
  "PPFCreateHeader junk a s =
     cbind
       (if Arg_desc a
        then (case Arg_description a of
                None \<Rightarrow> Undef
              | Some d \<Rightarrow> if length d > 128 then Undef
                          else Ret (take 50 (bytes_of d @ drop (length d) (replicate 50 0x20))))
        else Ret (replicate 50 0x20))
       (\<lambda>description.
          let p1 = fwrite [0x50, 0x50, 0x46, 0x33, 0x30] (m_ppf s);
              p2 = fwrite [2] p1;
              p3 = fwrite description p2;
              p4 = fwrite [of_bool (Arg_imagetype a)] p3;
              p5 = fwrite [of_bool (Arg_blockcheck a)] p4;
              p6 = fwrite [of_bool (Arg_undo a)] p5;
              p7 = fwrite [0] p6;
              s = s\<lparr>m_ppf := p7\<rparr>
          in if Arg_blockcheck a then
               let (_, b1) = fseek_set (if Arg_imagetype a then 0x80A0 else 0x9320) (m_bin s);
                   (_, binblock, b2) = fread_into (uninit junk 0 1024) 1024 b1
               in Ret (s\<lparr>m_bin := b2, m_ppf := fwrite binblock (m_ppf s)\<rparr>)
             else Ret s)"

text \<open>The inner loop measures a stretch of differing bytes, at most 255.\<close>

function diff_stretch :: "bytes \<Rightarrow> bytes \<Rightarrow> nat \<Rightarrow> nat \<Rightarrow> nat \<Rightarrow> nat \<times> nat" where
  "diff_stretch x y amount i k =
     (let k = k + 1; i = i + 1
      in if i < amount \<and> x ! i \<noteq> y ! i \<and> k \<noteq> 255 then diff_stretch x y amount i k else (i, k))"
  by pat_completeness auto
termination
  by (relation "measure (\<lambda>(_, _, amount, i, _). amount - i)") auto

declare diff_stretch.simps [simp del]

lemma diff_stretch_progress: "diff_stretch x y amount i k = (i', k') \<Longrightarrow> i' = i + (k' - k) \<and> k < k'"
proof (induction x y amount i k rule: diff_stretch.induct)
  case (1 x y amount i k)
  then show ?case
    by (subst (asm) (2) diff_stretch.simps) (fastforce simp: Let_def split: if_splits)
qed

function WriteChanges_loop ::
  "bool \<Rightarrow> bytes \<Rightarrow> bytes \<Rightarrow> nat \<Rightarrow> nat \<Rightarrow> nat \<Rightarrow> nat \<Rightarrow> stream \<Rightarrow> nat \<times> stream" where
  "WriteChanges_loop undo x y amount chunk i found p =
     (if i < amount then
        (if x ! i \<noteq> y ! i then
           (let p1 = fwrite (le_bytes 8 (chunk + i)) p;
                (i, k) = diff_stretch x y amount i 0;
                p2 = fwrite [of_nat k] p1;
                p3 = fwrite (take k (drop (i - k) y)) p2;
                p4 = (if undo then fwrite (take k (drop (i - k) x)) p3 else p3);
                i = (if k = 255 then i - 1 else i)
            in WriteChanges_loop undo x y amount chunk (i + 1) (found + 1) p4)
         else WriteChanges_loop undo x y amount chunk (i + 1) found p)
      else (found, p))"
  by pat_completeness auto
termination
  by (relation "measure (\<lambda>(_, _, _, amount, _, i, _, _). amount - i)")
    (auto dest!: diff_stretch_progress [OF sym])

declare WriteChanges_loop.simps [simp del]

definition WriteChanges :: "bool \<Rightarrow> bytes \<Rightarrow> bytes \<Rightarrow> nat \<Rightarrow> nat \<Rightarrow> stream \<Rightarrow> nat \<times> stream" where
  "WriteChanges undo x y amount chunk p = WriteChanges_loop undo x y amount chunk 0 0 p"

abbreviation eightmb :: nat where "eightmb \<equiv> 1048576"

function PPFGetChanges_loop ::
  "bool \<Rightarrow> bytes \<Rightarrow> bytes \<Rightarrow> nat \<Rightarrow> nat \<Rightarrow> nat \<Rightarrow> mk_state \<Rightarrow> nat \<times> mk_state" where
  "PPFGetChanges_loop undo x y chunk changes found s =
     (let (read, x, b) = fread_into x eightmb (m_bin s);
          s = s\<lparr>m_bin := b\<rparr>
      in if read \<noteq> 0 then
           let (_, y, m) = fread_into y (if read = eightmb then eightmb else read) (m_mod s);
               (changes, p) = WriteChanges undo x y (if read = eightmb then eightmb else read) chunk (m_ppf s)
           in PPFGetChanges_loop undo x y (chunk + eightmb) changes (found + changes) (s\<lparr>m_mod := m, m_ppf := p\<rparr>)
         else (found + changes, s))"
  by pat_completeness auto
termination
  by (relation "measure (\<lambda>(_, _, _, _, _, _, s). length (srest (m_bin s)))")
    (auto dest!: fread_into_eq_lengths [OF sym] simp: min_def split: if_splits)

declare PPFGetChanges_loop.simps [simp del]

definition PPFGetChanges :: "memory \<Rightarrow> Argumentblock \<Rightarrow> mk_state \<Rightarrow> int \<times> mk_state" where
  "PPFGetChanges junk a s =
     (let (_, b1) = fseek_end 0 (m_bin s);
          filesize = ftello64 b1
      in if filesize = 0 then (1, s\<lparr>m_bin := b1\<rparr>)
         else
           let (_, b2) = fseek_set 0 b1;
               (_, m1) = fseek_set 0 (m_mod s);
               (_, s) = PPFGetChanges_loop (Arg_undo a) (uninit junk 2000 eightmb) (uninit junk 2000000 eightmb) 0 0 0
                          (s\<lparr>m_bin := b2, m_mod := m1\<rparr>)
           in (0, s))"

definition PPFAddFileId :: "memory \<Rightarrow> stream \<Rightarrow> stream \<Rightarrow> stream \<times> stream" where
  "PPFAddFileId junk f p =
     (let (_, f1) = fseek_end 0 f;
          fileidlength = nat (ftell f1 mod 65536);
          fileidlength = (if fileidlength > 3072 then 3072 else fileidlength);
          (_, f2) = fseek_set 0 f1;
          (_, buffer, f3) = fread_into (uninit junk 5000 3072) fileidlength f2;
          (_, p1) = fseek_end 0 p;
          p2 = fwrite fileidstart p1;
          p3 = fwrite (take fileidlength buffer) p2;
          p4 = fwrite fileidend p3;
          p5 = fwrite (le_bytes 2 fileidlength) p4
      in (f3, p5))"

definition PPFCreatePatch :: "memory \<Rightarrow> Argumentblock \<Rightarrow> mk_state \<Rightarrow> mk_state cresult" where
  "PPFCreatePatch junk a s =
     cbind (PPFCreateHeader junk a s) (\<lambda>s.
       let (_, s) = PPFGetChanges junk a s
       in Ret (if Arg_fileid a
               then let (f, p) = PPFAddFileId junk (m_fileid s) (m_ppf s) in s\<lparr>m_fileid := f, m_ppf := p\<rparr>
               else s))"

definition CheckIfFileId :: "memory \<Rightarrow> stream \<Rightarrow> bool \<times> stream" where
  "CheckIfFileId junk p =
     (let (_, p1) = fseek_end (- 6) p;
          (_, chkmagic, p2) = fread_into (uninit junk 9000 4) 4 p1
      in (le_val chkmagic = 0x5A49442E, p2))"

definition CheckIfPPF3 :: "memory \<Rightarrow> stream \<Rightarrow> bool \<times> stream" where
  "CheckIfPPF3 junk p =
     (let (_, p1) = fseek_set 0 p;
          (_, chkmagic, p2) = fread_into (uninit junk 9010 4) 4 p1
      in (le_val chkmagic = 0x33465050, p2))"

text \<open>What the command \<^verbatim>\<open>s\<close> prints.\<close>

record ppf_info =
  i_gi :: bool
  i_validation :: bool
  i_undo :: bool
  i_description :: bytes
  i_diz :: "bytes option"

definition PPFShowPatchInfo :: "c_impl \<Rightarrow> memory \<Rightarrow> stream \<Rightarrow> ppf_info cresult" where
  "PPFShowPatchInfo cc junk p =
     (if \<not> desc_store_ok cc ''PPFShowPatchInfo'' then Undef
      else
      let (_, p1) = fseek_set 56 p;
          (_, x1, p2) = fread_into (uninit junk 9020 1) 1 p1;
          (_, p3) = fseek_set 57 p2;
          (_, x2, p4) = fread_into x1 1 p3;
          (_, p5) = fseek_set 58 p4;
          (_, x3, p6) = fread_into x2 1 p5;
          (_, p7) = fseek_set 6 p6;
          (_, desc, p8) = fread_into (uninit junk 9030 50) 50 p7;
          (has, p9) = CheckIfFileId junk p8
      in Ret \<lparr>i_gi = (x1 ! 0 \<noteq> 0), i_validation = (x2 ! 0 \<noteq> 0), i_undo = (x3 ! 0 \<noteq> 0), i_description = desc,
          i_diz =
            (if has then
               let (_, q1) = fseek_end (- 2) p9;
                   (_, ybuf, q2) = fread_into (uninit junk 9090 2) 2 q1;
                   y = le_val ybuf;
                   y = (if y > 3072 then 3072 else y);
                   (_, q3) = fseek_end (- (int y + 18)) q2;
                   (_, idt, _) = fread_into (uninit junk 9100 3073) y q3
               in Some (take y idt)
             else None)\<rparr>)"

definition makeppf_defaults :: Argumentblock where
  "makeppf_defaults = \<lparr>Arg_undo = False, Arg_blockcheck = True, Arg_imagetype = False, Arg_desc = False, Arg_fileid = False,
     Arg_description = None, Arg_fileidname = None, Arg_origname = [], Arg_modname = [], Arg_ppfname = []\<rparr>"

definition makeppf_create :: "memory \<Rightarrow> string list \<Rightarrow> fsys \<Rightarrow> fsys cresult" where
  "makeppf_create junk argv fs =
     (if length argv < 5 then Ret fs
      else
        cbind (CheckSwitches argv makeppf_defaults) (\<lambda>a.
          cbind (OpenFilesForCreate a fs) (\<lambda>opened. case opened of
            None \<Rightarrow> Ret fs
          | Some (s, fs) \<Rightarrow> cbind (PPFCreatePatch junk a s) (\<lambda>s. Ret (fclose_to (Arg_ppfname a) (m_ppf s) fs)))))"

definition makeppf_add :: "memory \<Rightarrow> string list \<Rightarrow> fsys \<Rightarrow> fsys" where
  "makeppf_add junk argv fs =
     (if length argv < 4 then fs
      else (case (fopen_rbp (argv ! 2) fs, fopen_rb (argv ! 3) fs) of
          (Some p, Some f) \<Rightarrow>
            (let (is3, p) = CheckIfPPF3 junk p
             in if \<not> is3 then fs
                else
                  let (has, p) = CheckIfFileId junk p
                  in if has then fs else fclose_to (argv ! 2) (snd (PPFAddFileId junk f p)) fs)
        | _ \<Rightarrow> fs))"

text \<open>The command \<^verbatim>\<open>s\<close> changes no file.\<close>

definition makeppf_show :: "c_impl \<Rightarrow> memory \<Rightarrow> string list \<Rightarrow> fsys \<Rightarrow> fsys outcome" where
  "makeppf_show cc junk argv fs =
     (if length argv < 3 then Returned 0 fs
      else case fopen_rb (argv ! 2) fs of
          None \<Rightarrow> Returned 0 fs
        | Some p \<Rightarrow>
            (let (is3, p) = CheckIfPPF3 junk p
             in if \<not> is3 then Returned 0 fs
                else (case PPFShowPatchInfo cc junk p of Ret _ \<Rightarrow> Returned 0 fs | Exit n \<Rightarrow> Exited n fs | Undef \<Rightarrow> Undefined)))"

definition makeppf_main :: "c_impl \<Rightarrow> memory \<Rightarrow> string list \<Rightarrow> fsys \<Rightarrow> fsys outcome" where
  "makeppf_main cc junk argv fs =
     (if length argv = 1 then Returned 0 fs
      else if take 1 (argv ! 1) = ''c'' then
        (case makeppf_create junk argv fs of
           Ret fs' \<Rightarrow> Returned 0 fs' | Exit n \<Rightarrow> Exited n fs | Undef \<Rightarrow> Undefined)
      else if take 1 (argv ! 1) = ''s'' then makeppf_show cc junk argv fs
      else if take 1 (argv ! 1) = ''a'' then Returned 0 (makeppf_add junk argv fs)
      else Returned 0 fs)"

section \<open>The records found\<close>





















section \<open>The patch made\<close>











lemma PPFAddFileId_out:
  assumes "sdata f = t" "length t \<le> 3072"
  shows "sdata (snd (PPFAddFileId junk f p)) = sdata p @ file_id 2 t"
proof -
  have "ftell (f\<lparr>spos := length t, seof := False\<rparr>) mod 65536 = int (length t)" using assms(2) by (simp add: ftell_def)
  then show ?thesis
    using assms fread_into_at [of 0 "length t" f "uninit junk 5000 3072" False]
    by (simp add: PPFAddFileId_def stdio_simps Let_def overwrite_at_end file_id_def)
qed














section \<open>File ids added and shown\<close>

lemma CheckIfFileId_at:
  assumes "6 \<le> length (sdata p)"
  shows "CheckIfFileId junk p = (id_magic_at 2 (sdata p), p\<lparr>spos := length (sdata p) - 2, seof := False\<rparr>)"
proof -
  have "fseek_end (- 6) p = (0, p\<lparr>spos := length (sdata p) - 6, seof := False\<rparr>)"
    using fseek_end_back [of 6 p] assms by simp
  moreover have "length (sdata p) - 6 + 4 = length (sdata p) - 2" using assms by simp
  ultimately show ?thesis
    using assms idmagic_word [of "take 4 (drop (length (sdata p) - 6) (sdata p))"]
    by (simp add: CheckIfFileId_def fread_into_at id_magic_at_def)
qed

lemma id_magic_at_file_id: "id_magic_at 2 (P @ file_id 2 t)"
proof -
  have m: "take 12 fileidend @ [0x2E, 0x44, 0x49, 0x5A] = fileidend" by (simp add: fileidend_def)
  have "P @ file_id 2 t = (P @ fileidstart @ t @ take 12 fileidend) @ [0x2E, 0x44, 0x49, 0x5A] @ le_bytes 2 (length t)"
    unfolding file_id_def by (subst m [symmetric]) simp
  then show ?thesis by (simp add: id_magic_at_def)
qed

lemma PPFShowPatchInfo_diz:
  assumes "sdata p = P @ file_id 2 t" "length t \<le> 3072" "60 \<le> length P" "desc_store_ok cc ''PPFShowPatchInfo''"
  shows "\<exists>i. PPFShowPatchInfo cc junk p = Ret i \<and> i_diz i = Some t"
proof -
  let ?D = "sdata p" and ?n = "length t"
  have l: "length ?D = length P + 36 + ?n" using assms(1) by (simp add: file_id_def length_fileid_parts)
  have ck: "CheckIfFileId junk q = (True, q\<lparr>spos := length ?D - 2, seof := False\<rparr>)" if "sdata q = ?D" for q
    using CheckIfFileId_at [of q junk] id_magic_at_file_id [of P t] that l assms(1) by simp
  have e2: "fseek_end (- 2) q = (0, q\<lparr>spos := length P + 34 + ?n, seof := False\<rparr>)" if "sdata q = ?D" for q
    using fseek_end_back [of 2 q] that l by simp
  have e3: "fseek_end (- int ?n - 18) q = (0, q\<lparr>spos := length P + 18, seof := False\<rparr>)" if "sdata q = ?D" for q
    using fseek_end_back [of "?n + 18" q] that l by simp
  have r2: "fread_into b 2 (q\<lparr>spos := length P + 34 + ?n, seof := False\<rparr>) = (2, le_bytes 2 ?n @ drop 2 b, q\<lparr>spos := length P + 36 + ?n, seof := False\<rparr>)"
    if "sdata q = ?D" for q b
    using that l assms(1) by (subst fread_into_at) (simp_all add: file_id_def length_fileid_parts)
  have r3: "fread_into b ?n (q\<lparr>spos := length P + 18, seof := False\<rparr>) = (?n, t @ drop ?n b, q\<lparr>spos := length P + 18 + ?n, seof := False\<rparr>)"
    if "sdata q = ?D" for q b
    using that l assms(1) by (subst fread_into_at) (simp_all add: file_id_def length_fileid_parts)
  have v: "le_val (le_bytes 2 ?n) = ?n" using assms(2) by (simp add: codec_simps)
  have lD: "60 \<le> length ?D" using l assms(3) by simp
  show ?thesis
    using assms(2,4) lD by (simp add: PPFShowPatchInfo_def stdio_simps fread_into_at ck e2 e3 r2 r3 v Let_def)
qed

text \<open>Adding a file id to a version 3 patch that has none appends it, and showing the patch then shows its text.\<close>

theorem ppf_add_file_id_shown:
  assumes "content fs p = Some P" "content fs i = Some t" "writable fs p" "take 4 P = [0x50, 0x50, 0x46, 0x33]"
    and "60 \<le> length P" "\<not> id_magic_at 2 P" "length t \<le> 3072" "desc_store_ok cc ''PPFShowPatchInfo''"
  shows "makeppf_main cc junk [prog, ''a'', p, i] fs = Returned 0 (put_file p (P @ file_id 2 t) fs)
    \<and> (\<exists>i. PPFShowPatchInfo cc junk' (sopen (P @ file_id 2 t)) = Ret i \<and> i_diz i = Some t)"
proof -
  have v: "le_val (take 4 P) = 0x33465050" by (simp add: assms(4))
  let ?f1 = "(sopen P)\<lparr>spos := 4, seof := False\<rparr>"
  have c3: "CheckIfPPF3 junk (sopen P) = (True, ?f1)"
    using assms(5) v fread_into_at [of 0 4 "sopen P" "uninit junk 9010 4" False]
    by (simp add: CheckIfPPF3_def stdio_simps)
  have ci: "CheckIfFileId junk ?f1 = (False, ?f1\<lparr>spos := length P - 2, seof := False\<rparr>)"
    using CheckIfFileId_at [of ?f1 junk] assms(5,6) by (simp add: stdio_simps)
  have "makeppf_add junk [prog, ''a'', p, i] fs = put_file p (P @ file_id 2 t) fs"
    using assms(1-3,7) c3 ci PPFAddFileId_out [of "sopen t" t junk]
    by (simp add: makeppf_add_def fopen_rb_def fopen_rbp_def fclose_to_def stdio_simps)
  moreover have "\<exists>i. PPFShowPatchInfo cc junk' (sopen (P @ file_id 2 t)) = Ret i \<and> i_diz i = Some t"
    using assms(5,7,8) by (intro PPFShowPatchInfo_diz [where P = P]) (simp_all add: stdio_simps)
  ultimately show ?thesis by (simp add: makeppf_main_def)
qed

theorem ppf_add_file_id_shown_witness:
  "makeppf_main padded (\<lambda>_. 0) [''ppf'', ''a'', ''p'', ''i'']
     \<lparr>content = [''p'' \<mapsto> [0x50, 0x50, 0x46, 0x33] @ replicate 60 0, ''i'' \<mapsto> [0x41]], writable = \<lambda>_. True\<rparr>
     = Returned 0 (put_file ''p'' (([0x50, 0x50, 0x46, 0x33] @ replicate 60 0) @ file_id 2 [0x41])
     \<lparr>content = [''p'' \<mapsto> [0x50, 0x50, 0x46, 0x33] @ replicate 60 0, ''i'' \<mapsto> [0x41]], writable = \<lambda>_. True\<rparr>)
    \<and> (\<exists>i. PPFShowPatchInfo padded (\<lambda>_. 0) (sopen (([0x50, 0x50, 0x46, 0x33] @ replicate 60 0) @ file_id 2 [0x41])) = Ret i \<and> i_diz i = Some [0x41])"
proof -
  have "replicate 4 (0 :: byte) = [0, 0, 0, 0]" by (simp add: numeral_eq_Suc)
  then show ?thesis by (intro ppf_add_file_id_shown) (simp_all add: id_magic_at_def padded_ok)
qed

end
