(* ===== verification/Ecm.thy ===== *)
theory Ecm
  imports CStdio
begin

text \<open>
  The sector codes of \<^verbatim>\<open>jni/ecmpatcher/ecm.c\<close>: the tables, the checksum (EDC), the P and Q parity
  (ECC), recognising a sector whose redundant bytes can be left out, and rebuilding it.  Main
  results: the table-driven checksum is the bitwise one, the parity bytes make both
  syndromes of every column zero, and rebuilding a recognised sector from the
  bytes kept gives the sector.
\<close>

section \<open>Model\<close>

definition get32lsb :: "bytes \<Rightarrow> u32" where
  "get32lsb src = ucast (src ! 0) OR push_bit 8 (ucast (src ! 1)) OR push_bit 16 (ucast (src ! 2))
     OR push_bit 24 (ucast (src ! 3))"

definition put32lsb :: "nat \<Rightarrow> u32 \<Rightarrow> bytes \<Rightarrow> bytes" where
  "put32lsb ofs value dest = dest[ofs := ucast value, ofs + 1 := ucast (drop_bit 8 value),
     ofs + 2 := ucast (drop_bit 16 value), ofs + 3 := ucast (drop_bit 24 value)]"

text \<open>The tables, filled in one pass over all byte values.\<close>

definition ecc_j :: "u32 \<Rightarrow> u32" where
  "ecc_j i = (push_bit 1 i) XOR (if bit i 7 then 0x11D else 0)"

definition edc_shift :: "u32 \<Rightarrow> u32" where
  "edc_shift edc = drop_bit 1 edc XOR (if bit edc 0 then 0xD8018001 else 0)"

record luts =
  ecc_f_lut :: bytes
  ecc_b_lut :: bytes
  edc_lut :: "u32 list"

definition eccedc_init :: luts where
  "eccedc_init = fold (\<lambda>i t. t\<lparr>ecc_f_lut := (ecc_f_lut t)[i := ucast (ecc_j (of_nat i))],
       ecc_b_lut := (ecc_b_lut t)[unat (of_nat i XOR ecc_j (of_nat i)) := of_nat i],
       edc_lut := (edc_lut t)[i := (edc_shift ^^ 8) (of_nat i)]\<rparr>)
     [0..<256] \<lparr>ecc_f_lut = replicate 256 0, ecc_b_lut = replicate 256 0, edc_lut = replicate 256 0\<rparr>"

abbreviation f_lut :: "byte \<Rightarrow> byte" where "f_lut b \<equiv> ecc_f_lut eccedc_init ! unat b"
abbreviation b_lut :: "byte \<Rightarrow> byte" where "b_lut b \<equiv> ecc_b_lut eccedc_init ! unat b"

fun edc_compute :: "u32 \<Rightarrow> bytes \<Rightarrow> u32" where
  "edc_compute edc [] = edc"
| "edc_compute edc (b # src) =
     edc_compute (drop_bit 8 edc XOR edc_lut eccedc_init ! unat ((edc XOR ucast b) AND 0xFF)) src"

text \<open>The inner loop over one column: \<open>ecc_a\<close> and \<open>ecc_b\<close> after \<open>minor_count\<close> steps.\<close>

fun ecc_column :: "bytes \<Rightarrow> bytes \<Rightarrow> nat \<Rightarrow> nat \<Rightarrow> nat \<Rightarrow> nat \<Rightarrow> byte \<Rightarrow> byte \<Rightarrow> byte \<times> byte" where
  "ecc_column address data siz minor_inc 0 index ecc_a ecc_b = (ecc_a, ecc_b)"
| "ecc_column address data siz minor_inc (Suc minor) index ecc_a ecc_b =
     (let temp = (if index < 4 then address ! index else data ! (index - 4));
          index = index + minor_inc;
          index = (if index \<ge> siz then index - siz else index)
      in ecc_column address data siz minor_inc minor index (f_lut (ecc_a XOR temp)) (ecc_b XOR temp))"

definition ecc_pair :: "bytes \<Rightarrow> bytes \<Rightarrow> nat \<Rightarrow> nat \<Rightarrow> nat \<Rightarrow> nat \<Rightarrow> nat \<Rightarrow> byte \<times> byte" where
  "ecc_pair address data major_count minor_count major_mult minor_inc major =
     (let siz = major_count * minor_count;
          index = (major div 2) * major_mult + major mod 2;
          (ecc_a, ecc_b) = ecc_column address data siz minor_inc minor_count index 0 0;
          ecc_a = b_lut (f_lut ecc_a XOR ecc_b)
      in (ecc_a, ecc_a XOR ecc_b))"

definition ecc_checkpq :: "bytes \<Rightarrow> bytes \<Rightarrow> nat \<Rightarrow> nat \<Rightarrow> nat \<Rightarrow> nat \<Rightarrow> bytes \<Rightarrow> bool" where
  "ecc_checkpq address data major_count minor_count major_mult minor_inc ecc =
     list_all (\<lambda>major. let (a, ab) = ecc_pair address data major_count minor_count major_mult minor_inc major
                       in ecc ! major = a \<and> ecc ! (major + major_count) = ab) [0..<major_count]"

text \<open>The write goes into the buffer the data is read from: \<open>data\<close> and \<open>ecc\<close> are offsets into it.\<close>

definition ecc_writepq :: "bytes \<Rightarrow> nat \<Rightarrow> nat \<Rightarrow> nat \<Rightarrow> nat \<Rightarrow> nat \<Rightarrow> nat \<Rightarrow> bytes \<Rightarrow> bytes" where
  "ecc_writepq address data major_count minor_count major_mult minor_inc ecc buf =
     fold (\<lambda>major buf.
         let (a, ab) = ecc_pair address (drop data buf) major_count minor_count major_mult minor_inc major
         in buf[ecc + major := a, ecc + (major + major_count) := ab])
       [0..<major_count] buf"

definition ecc_checksector :: "bytes \<Rightarrow> bytes \<Rightarrow> bytes \<Rightarrow> bool" where
  "ecc_checksector address data ecc \<longleftrightarrow>
     ecc_checkpq address data 86 24 2 86 ecc \<and> ecc_checkpq address data 52 43 86 88 (drop 0xAC ecc)"

definition ecc_writesector :: "bytes \<Rightarrow> nat \<Rightarrow> nat \<Rightarrow> bytes \<Rightarrow> bytes" where
  "ecc_writesector address data ecc buf =
     ecc_writepq address data 52 43 86 88 (ecc + 0xAC) (ecc_writepq address data 86 24 2 86 ecc buf)"

definition zeroaddress :: bytes where
  "zeroaddress = [0, 0, 0, 0]"

definition sync_bytes :: bytes where
  "sync_bytes = [0x00, 0xFF, 0xFF, 0xFF, 0xFF, 0xFF, 0xFF, 0xFF, 0xFF, 0xFF, 0xFF, 0x00]"

text \<open>The sector types 0 (literal), 1, 2 and 3.\<close>

definition detect_sector :: "bytes \<Rightarrow> nat \<Rightarrow> nat" where
  "detect_sector sector size_available =
     (if size_available \<ge> 2352 \<and> take 12 sector = sync_bytes \<and> sector ! 0x00F = 0x01
         \<and> take 8 (drop 0x814 sector) = replicate 8 0x00 then
        (if ecc_checksector (take 4 (drop 0xC sector)) (drop 0x10 sector) (drop 0x81C sector)
            \<and> edc_compute 0 (take 0x810 sector) = get32lsb (drop 0x810 sector) then 1 else 0)
      else if size_available \<ge> 2336 \<and> sector ! 0 = sector ! 4 \<and> sector ! 1 = sector ! 5
         \<and> sector ! 2 = sector ! 6 \<and> sector ! 3 = sector ! 7 then
        (if ecc_checksector zeroaddress sector (drop 0x80C sector)
            \<and> edc_compute 0 (take 0x808 sector) = get32lsb (drop 0x808 sector) then 2
         else if edc_compute 0 (take 0x91C sector) = get32lsb (drop 0x91C sector) then 3 else 0)
      else 0)"

definition reconstruct_sector :: "nat \<Rightarrow> bytes \<Rightarrow> bytes" where
  "reconstruct_sector type sector =
     (let sector = overwrite 0 sync_bytes sector;
          sector = (if type = 1 then overwrite 0x814 (replicate 8 0x00) (sector[0x00F := 0x01])
                    else if type = 2 \<or> type = 3
                    then (sector[0x00F := 0x02])[0x010 := sector ! 0x014, 0x011 := sector ! 0x015,
                             0x012 := sector ! 0x016, 0x013 := sector ! 0x017]
                    else sector);
          sector = (if type = 1 then put32lsb 0x810 (edc_compute 0 (take 0x810 sector)) sector
                    else if type = 2 then put32lsb 0x818 (edc_compute 0 (take 0x808 (drop 0x10 sector))) sector
                    else if type = 3 then put32lsb 0x92C (edc_compute 0 (take 0x91C (drop 0x10 sector))) sector
                    else sector)
      in if type = 1 then ecc_writesector (take 4 (drop 0xC sector)) 0x10 0x81C sector
         else if type = 2 then ecc_writesector zeroaddress 0x10 0x81C sector
         else sector)"

section \<open>The checksum\<close>

lemma edc_compute_append [simp]: "edc_compute e (xs @ ys) = edc_compute (edc_compute e xs) ys"
  by (induction xs arbitrary: e) simp_all

lemma edc_shift_xor: "edc_shift (x XOR y) = edc_shift x XOR edc_shift y"
  by (rule bit_word_eqI) (auto simp: edc_shift_def bit_simps)

lemma edc_shift_pow_xor: "(edc_shift ^^ n) (x XOR y) = (edc_shift ^^ n) x XOR (edc_shift ^^ n) y"
  by (induction n) (simp_all add: edc_shift_xor)

lemma edc_shift_pow_high:
  "n \<le> 8 \<Longrightarrow> (edc_shift ^^ n) (push_bit 8 x) = drop_bit n (push_bit 8 x)"
proof (induction n)
  case (Suc n)
  have "\<not> bit (push_bit 8 x) n" using Suc.prems by (simp add: bit_push_bit_iff)
  with Suc show ?case by (simp add: edc_shift_def bit_drop_bit_eq)
qed simp

text \<open>Looking up what a pass of updates has stored.\<close>

lemma nth_fold_update:
  assumes "distinct is" "inj_on g (set is)" "k \<in> set is" "g k < length xs"
  shows "fold (\<lambda>i xs. xs[g i := h i]) is xs ! g k = h k"
proof -
  have len: "length (fold (\<lambda>i xs. xs[g i := h i]) js xs) = length xs" for js by (induction js arbitrary: xs) simp_all
  have "fold (\<lambda>i xs. xs[g i := h i]) is xs ! g k = (if k \<in> set is then h k else xs ! g k)"
    if "distinct is" "inj_on g (insert k (set is))" for "is"
    using that
  proof (induction "is" rule: rev_induct)
    case (snoc i js)
    then have "inj_on g (insert k (set js))" by (simp add: inj_on_def)
    with snoc have IH: "fold (\<lambda>i xs. xs[g i := h i]) js xs ! g k = (if k \<in> set js then h k else xs ! g k)" by simp
    show ?case
    proof (cases "i = k")
      case True
      then show ?thesis using assms(4) len by simp
    next
      case False
      then have "g i \<noteq> g k" using snoc.prems(2) by (auto simp: inj_on_def)
      then show ?thesis using IH False by simp
    qed
  qed simp
  from this [OF assms(1)] assms(2,3) show ?thesis by (simp add: insert_absorb)
qed

lemma luts_fields:
  "ecc_f_lut (fold (\<lambda>i t. t\<lparr>ecc_f_lut := (ecc_f_lut t)[i := f i], ecc_b_lut := (ecc_b_lut t)[g i := b i],
      edc_lut := (edc_lut t)[i := e i]\<rparr>) is t) = fold (\<lambda>i xs. xs[i := f i]) is (ecc_f_lut t)"
  "ecc_b_lut (fold (\<lambda>i t. t\<lparr>ecc_f_lut := (ecc_f_lut t)[i := f i], ecc_b_lut := (ecc_b_lut t)[g i := b i],
      edc_lut := (edc_lut t)[i := e i]\<rparr>) is t) = fold (\<lambda>i xs. xs[g i := b i]) is (ecc_b_lut t)"
  "edc_lut (fold (\<lambda>i t. t\<lparr>ecc_f_lut := (ecc_f_lut t)[i := f i], ecc_b_lut := (ecc_b_lut t)[g i := b i],
      edc_lut := (edc_lut t)[i := e i]\<rparr>) is t) = fold (\<lambda>i xs. xs[i := e i]) is (edc_lut t)"
  by (induction "is" arbitrary: t) simp_all

lemma edc_lut_nth: "i < 256 \<Longrightarrow> edc_lut eccedc_init ! i = (edc_shift ^^ 8) (of_nat i)"
  unfolding eccedc_init_def luts_fields
  using nth_fold_update [of "[0..<256]" "\<lambda>i. i" i "replicate 256 0" "\<lambda>i. (edc_shift ^^ 8) (of_nat i)"] by simp

lemma edc_step: "drop_bit 8 e XOR edc_lut eccedc_init ! unat (e AND 0xFF) = (edc_shift ^^ 8) e"
proof -
  have mask: "x AND 0xFF = take_bit 8 x" for x :: u32
    by (simp add: take_bit_eq_mask mask_eq_exp_minus_1)
  have "unat (e AND 0xFF) = unat e mod 256"
    using mask [of e] by (simp add: unat_take_bit)
  then have "unat (e AND 0xFF) < 256" by simp
  from edc_lut_nth [OF this] have l: "edc_lut eccedc_init ! unat (e AND 0xFF) = (edc_shift ^^ 8) (e AND 0xFF)"
    by (simp only: of_nat_unat ucast_id)
  have "e = push_bit 8 (drop_bit 8 e) XOR (e AND 0xFF)"
    by (rule bit_word_eqI) (auto simp: bit_simps mask)
  then have "(edc_shift ^^ 8) e = drop_bit 8 (push_bit 8 (drop_bit 8 e)) XOR (edc_shift ^^ 8) (e AND 0xFF)"
    using edc_shift_pow_xor [of 8 "push_bit 8 (drop_bit 8 e)" "e AND 0xFF"] edc_shift_pow_high [of 8 "drop_bit 8 e"] by simp
  moreover have "drop_bit 8 (push_bit 8 (drop_bit 8 e)) = drop_bit 8 e"
    by (rule bit_word_eqI) (auto simp: bit_simps dest: bit_imp_le_length)
  ultimately show ?thesis using l by simp
qed

text \<open>The bitwise checksum, one shift per bit of the input.\<close>

definition edc_bitwise :: "u32 \<Rightarrow> bytes \<Rightarrow> u32" where
  "edc_bitwise e bs = foldl (\<lambda>e b. (edc_shift ^^ 8) (e XOR ucast b)) e bs"

text \<open>C18: the table-driven checksum of \<^verbatim>\<open>edc_compute\<close> is the bitwise cyclic redundancy check with the
  polynomial \<^verbatim>\<open>0xD8018001\<close>, for every start value and every block.\<close>

theorem edc_compute_bitwise: "edc_compute e bs = edc_bitwise e bs"
proof (induction bs arbitrary: e)
  case (Cons b bs)
  have "drop_bit 8 e = drop_bit 8 (e XOR ucast b)"
    by (rule bit_word_eqI) (auto simp: bit_simps dest: bit_imp_le_length)
  then show ?case using Cons edc_step [of "e XOR ucast b"] by (simp add: edc_bitwise_def)
qed (simp add: edc_bitwise_def)


section \<open>The parity\<close>

text \<open>Doubling in the field with 256 elements.\<close>

definition f_mul :: "byte \<Rightarrow> byte" where
  "f_mul b = push_bit 1 b XOR (if bit b 7 then 0x1D else 0)"

lemma bit_f_mul: "bit (f_mul b) n \<longleftrightarrow> (1 \<le> n \<and> n < 8 \<and> bit b (n - 1)) \<noteq> (bit b 7 \<and> bit (0x1D :: byte) n)"
  unfolding f_mul_def bit_xor_iff bit_push_bit_iff by (cases "bit b 7") (auto simp del: One_nat_def)

lemma bit_ecc_j: "bit (ecc_j w) n \<longleftrightarrow> (1 \<le> n \<and> n < 32 \<and> bit w (n - 1)) \<noteq> (bit w 7 \<and> bit (0x11D :: u32) n)"
  unfolding ecc_j_def bit_xor_iff bit_push_bit_iff by (cases "bit w 7") (auto simp del: One_nat_def)

lemma ecc_j_ucast: "ecc_j (ucast b) = ucast (f_mul b)"
proof (rule bit_word_eqI)
  fix n assume n: "n < LENGTH(32)"
  have "n = 0 \<or> n = 1 \<or> n = 2 \<or> n = 3 \<or> n = 4 \<or> n = 5 \<or> n = 6 \<or> n = 7 \<or> n = 8 \<or> 9 \<le> n" by arith
  moreover have "\<not> bit (0x11D :: u32) n" if "9 \<le> n"
    using not_bit_word_of_nat [of "0x11D" n, where 'a = 32] power_increasing [of 9 n "2::nat"] that by simp
  moreover have "\<not> bit b m" if "8 \<le> m" for m using that bit_imp_le_length [of b m] by auto
  ultimately show "bit (ecc_j (ucast b)) n \<longleftrightarrow> bit (ucast (f_mul b) :: u32) n"
    by (elim disjE) (auto simp: bit_ecc_j bit_f_mul bit_ucast_byte)
qed

lemma f_mul_xor: "f_mul (x XOR y) = f_mul x XOR f_mul y"
  by (rule bit_word_eqI) (auto simp: bit_f_mul bit_xor_iff)

lemma f_mul_fix: "f_mul x = x \<Longrightarrow> x = 0"
proof -
  assume a: "f_mul x = x"
  have b: "bit x n \<longleftrightarrow> bit (f_mul x) n" for n using a by simp
  have c: "bit x 0 = bit x 7" "bit x 1 = bit x 0" "bit x 2 = (bit x 1 \<noteq> bit x 7)" "bit x 3 = (bit x 2 \<noteq> bit x 7)"
    "bit x 4 = (bit x 3 \<noteq> bit x 7)" "bit x 5 = bit x 4" "bit x 6 = bit x 5" "bit x 7 = bit x 6"
    by (subst (1) b, simp add: bit_f_mul)+
  have z2: "\<not> bit x 2" using c(1-3) by simp
  then have z4: "\<not> bit x 4" using c(4,5) by simp
  then have z7: "\<not> bit x 7" using c(6-8) by simp
  note z = z2 z4 z7 c(1,2,4,6,7)
  have "\<not> bit x n" if "n < 8" for n
  proof -
    have "n = 0 \<or> n = 1 \<or> n = 2 \<or> n = 3 \<or> n = 4 \<or> n = 5 \<or> n = 6 \<or> n = 7" using that by arith
    then show ?thesis using z by (elim disjE) simp_all
  qed
  then show "x = 0" by (intro bit_word_eqI) simp
qed

lemma unat_ucast_byte: "unat (ucast (b :: byte) :: u32) = unat b"
proof -
  have "unat b < 2 ^ LENGTH(32)" by (rule order_less_trans [OF unat_byte_lt]) simp
  then show ?thesis unfolding ucast_byte_nat by (rule unat_word_of_nat_id)
qed

lemma ucast_ucast_byte: "ucast (ucast (b :: byte) :: u32) = b"
  by (rule bit_word_eqI) (simp add: bit_simps)

lemma inj_triple: "inj (\<lambda>x. x XOR f_mul x)"
proof (rule injI)
  fix x y assume "x XOR f_mul x = y XOR f_mul y"
  from arg_cong [OF this, of bit] have a: "(bit x n \<noteq> bit (f_mul x) n) = (bit y n \<noteq> bit (f_mul y) n)" for n
    by (simp add: fun_eq_iff bit_xor_iff)
  have "f_mul (x XOR y) = x XOR y"
    unfolding f_mul_xor by (rule bit_word_eqI) (use a in \<open>auto simp: bit_xor_iff\<close>)
  then have "x XOR y = 0" by (rule f_mul_fix)
  from arg_cong [OF this, of bit] have "bit x n = bit y n" for n by (simp add: fun_eq_iff bit_xor_iff)
  then show "x = y" by (intro bit_word_eqI)
qed

lemma f_lut_mul: "f_lut b = f_mul b"
proof -
  have "ecc_f_lut eccedc_init ! unat b = ucast (ecc_j (of_nat (unat b)))"
    unfolding eccedc_init_def luts_fields
    using nth_fold_update [of "[0..<256]" "\<lambda>i. i" "unat b" "replicate 256 0" "\<lambda>i. ucast (ecc_j (of_nat i))"] by simp
  also have "\<dots> = f_mul b"
    using ecc_j_ucast [of b] unfolding ucast_byte_nat [symmetric] by (simp add: ucast_ucast_byte)
  finally show ?thesis .
qed

lemma b_lut_triple: "b_lut (b XOR f_mul b) = b"
proof -
  let ?g = "\<lambda>i. unat (of_nat i XOR ecc_j (of_nat i))"
  have g: "?g i = unat (of_nat i XOR f_mul (of_nat i) :: byte)" if "i < 256" for i
  proof -
    have "(of_nat i :: u32) = ucast (of_nat i :: byte)" using that by (simp add: ucast_byte_nat)
    then have "of_nat i XOR ecc_j (of_nat i) = (ucast (of_nat i XOR f_mul (of_nat i) :: byte) :: u32)"
      by (simp add: ecc_j_ucast unsigned_xor_eq)
    then show ?thesis by (simp only: unat_ucast_byte)
  qed
  have "inj_on ?g (set [0..<256])"
  proof (rule inj_onI)
    fix i j assume ij: "i \<in> set [0..<256]" "j \<in> set [0..<256]" "?g i = ?g j"
    then have "(of_nat i XOR f_mul (of_nat i) :: byte) = of_nat j XOR f_mul (of_nat j)"
      using g [of i] g [of j] by (simp add: word_unat_eq_iff)
    then have "(of_nat i :: byte) = of_nat j" using inj_triple by (auto dest: injD)
    from arg_cong [OF this, of unat] show "i = j" using ij by simp
  qed
  moreover have "?g (unat b) = unat (b XOR f_mul b)" using g [of "unat b"] by simp
  ultimately show ?thesis
    unfolding eccedc_init_def luts_fields
    using nth_fold_update [of "[0..<256]" ?g "unat b" "replicate 256 0" "of_nat :: nat \<Rightarrow> byte"] by simp
qed

lemma b_lut_solves: "b_lut y XOR f_mul (b_lut y) = y"
proof -
  have "surj (\<lambda>x. x XOR f_mul x)" using inj_triple finite_UNIV_inj_surj [of "\<lambda>x. x XOR f_mul x"] finite by blast
  then obtain x where "y = x XOR f_mul x" by (auto simp: surj_def)
  then show ?thesis using b_lut_triple [of x] by simp
qed

lemma ecc_column_cong:
  assumes "\<And>i. i + 4 < siz \<Longrightarrow> data ! i = data' ! i" "index < siz" "minor_inc \<le> siz"
  shows "ecc_column address data siz minor_inc minor index a b = ecc_column address data' siz minor_inc minor index a b"
  using assms(2)
proof (induction minor arbitrary: index a b)
  case (Suc minor)
  let ?i = "if siz \<le> index + minor_inc then index + minor_inc - siz else index + minor_inc"
  have "?i < siz" using Suc.prems assms(3) by auto
  moreover have "\<not> index < 4 \<Longrightarrow> data ! (index - 4) = data' ! (index - 4)" using Suc.prems assms(1) by simp
  ultimately show ?case using Suc.IH by (simp add: Let_def)
qed simp

text \<open>The geometry of a code: all columns start and step inside the block.\<close>

definition ecc_geometry :: "nat \<Rightarrow> nat \<Rightarrow> nat \<Rightarrow> nat \<Rightarrow> bool" where
  "ecc_geometry mc mn mm mi \<longleftrightarrow> (\<forall>m < mc. (m div 2) * mm + m mod 2 < mc * mn) \<and> mi \<le> mc * mn"

lemma ecc_geometry_PQ: "ecc_geometry 86 24 2 86" "ecc_geometry 52 43 86 88"
proof -
  have "m div 2 * 2 + m mod 2 < 2064" if "m < 86" for m :: nat using that by simp
  moreover have "m div 2 * 86 + m mod 2 < 2236" if "m < 52" for m :: nat
  proof -
    have "m div 2 \<le> 25" using that by simp
    then have "m div 2 * 86 \<le> 25 * 86" by (rule mult_le_mono1)
    moreover have "m mod 2 < 2" by simp
    ultimately show ?thesis by linarith
  qed
  ultimately show "ecc_geometry 86 24 2 86" "ecc_geometry 52 43 86 88" by (simp_all add: ecc_geometry_def)
qed

lemma ecc_pair_cong:
  assumes "ecc_geometry mc mn mm mi" "m < mc" "\<And>i. i + 4 < mc * mn \<Longrightarrow> data ! i = data' ! i"
  shows "ecc_pair address data mc mn mm mi m = ecc_pair address data' mc mn mm mi m"
  using ecc_column_cong [of "mc * mn" data data', OF assms(3)] assms(1,2)
  by (simp add: ecc_pair_def ecc_geometry_def Let_def)

definition ecc_bytes :: "bytes \<Rightarrow> bytes \<Rightarrow> nat \<Rightarrow> nat \<Rightarrow> nat \<Rightarrow> nat \<Rightarrow> bytes" where
  "ecc_bytes address data mc mn mm mi =
     map (\<lambda>m. fst (ecc_pair address data mc mn mm mi m)) [0..<mc]
     @ map (\<lambda>m. snd (ecc_pair address data mc mn mm mi m)) [0..<mc]"

lemma length_ecc_bytes [simp]: "length (ecc_bytes address data mc mn mm mi) = 2 * mc"
  by (simp add: ecc_bytes_def)

lemma ecc_bytes_cong:
  assumes "ecc_geometry mc mn mm mi" "\<And>i. i + 4 < mc * mn \<Longrightarrow> data ! i = data' ! i"
  shows "ecc_bytes address data mc mn mm mi = ecc_bytes address data' mc mn mm mi"
  unfolding ecc_bytes_def using ecc_pair_cong [OF assms(1) _ assms(2)] by simp

lemma ecc_checkpq_bytes:
  assumes "2 * mc \<le> length ecc"
  shows "ecc_checkpq address data mc mn mm mi ecc \<longleftrightarrow> take (2 * mc) ecc = ecc_bytes address data mc mn mm mi"
proof -
  let ?p = "ecc_pair address data mc mn mm mi"
  have "ecc_checkpq address data mc mn mm mi ecc
     \<longleftrightarrow> (\<forall>m < mc. ecc ! m = fst (?p m)) \<and> (\<forall>m < mc. ecc ! (mc + m) = snd (?p m))"
    by (auto simp: ecc_checkpq_def list_all_iff case_prod_beta Let_def add.commute)
  also have "\<dots> \<longleftrightarrow> take mc ecc = map (\<lambda>m. fst (?p m)) [0..<mc] \<and> take mc (drop mc ecc) = map (\<lambda>m. snd (?p m)) [0..<mc]"
    using assms by (simp add: list_eq_iff_nth_eq)
  also have "\<dots> \<longleftrightarrow> take (2 * mc) ecc = ecc_bytes address data mc mn mm mi"
    using assms by (simp add: ecc_bytes_def mult_2 take_add append_eq_append_conv)
  finally show ?thesis .
qed

lemma ecc_writepq_overwrite:
  assumes g: "ecc_geometry mc mn mm mi" and e: "dofs + mc * mn \<le> e + 4" "e + 2 * mc \<le> length buf"
  shows "ecc_writepq address dofs mc mn mm mi e buf
    = overwrite e (ecc_bytes address (drop dofs buf) mc mn mm mi) buf"
proof -
  let ?p = "ecc_pair address (drop dofs buf) mc mn mm mi"
  define st where "st = (\<lambda>major buf. let (a, ab) = ecc_pair address (drop dofs buf) mc mn mm mi major
         in buf[e + major := a, e + (major + mc) := ab])"
  let ?F = "\<lambda>m. fold st [0..<m] buf"
  have inv: "length (?F m) = length buf \<and> (\<forall>i < length buf. ?F m ! i =
      (if e \<le> i \<and> i < e + m then fst (?p (i - e)) else if e + mc \<le> i \<and> i < e + mc + m then snd (?p (i - e - mc)) else buf ! i))"
    if "m \<le> mc" for m
    using that
  proof (induction m)
    case (Suc m)
    let ?B = "?F m"
    have B: "length ?B = length buf" "\<forall>i < length buf. ?B ! i =
      (if e \<le> i \<and> i < e + m then fst (?p (i - e)) else if e + mc \<le> i \<and> i < e + mc + m then snd (?p (i - e - mc)) else buf ! i)"
      using Suc by simp_all
    have "drop dofs ?B ! i = drop dofs buf ! i" if "i + 4 < mc * mn" for i
      using B e that by (simp add: add.commute)
    then have p: "ecc_pair address (drop dofs ?B) mc mn mm mi m = ?p m"
      using Suc.prems by (intro ecc_pair_cong [OF g]) auto
    have F: "?F (Suc m) = ?B[e + m := fst (?p m), e + (m + mc) := snd (?p m)]"
    proof -
      have "?F (Suc m) = st m ?B" by simp
      also have "\<dots> = ?B[e + m := fst (?p m), e + (m + mc) := snd (?p m)]"
        unfolding st_def [THEN fun_cong, of m, THEN fun_cong, of ?B] p by (simp add: case_prod_beta)
      finally show ?thesis .
    qed
    show ?case unfolding F using B e(2) Suc.prems by (auto simp: nth_list_update)
  qed auto
  have "?F mc = overwrite e (ecc_bytes address (drop dofs buf) mc mn mm mi) buf"
    using inv [of mc] e(2)
    by (intro nth_equalityI) (auto simp: length_overwrite_le nth_overwrite ecc_bytes_def nth_append length_overwrite)
  then show ?thesis by (simp add: ecc_writepq_def st_def)
qed


section \<open>Syndromes\<close>

text \<open>The bytes of a column in the order in which the loop visits them.\<close>

fun column_bytes :: "bytes \<Rightarrow> bytes \<Rightarrow> nat \<Rightarrow> nat \<Rightarrow> nat \<Rightarrow> nat \<Rightarrow> bytes" where
  "column_bytes address data siz minor_inc 0 index = []"
| "column_bytes address data siz minor_inc (Suc minor) index =
     (if index < 4 then address ! index else data ! (index - 4))
     # column_bytes address data siz minor_inc minor
         (if index + minor_inc \<ge> siz then index + minor_inc - siz else index + minor_inc)"

text \<open>A list of bytes as the coefficients of a polynomial, evaluated at 1 and at 2.\<close>

definition syndrome0 :: "bytes \<Rightarrow> byte" where
  "syndrome0 bs = foldl (XOR) 0 bs"

definition syndrome1 :: "bytes \<Rightarrow> byte" where
  "syndrome1 bs = foldl (\<lambda>h b. f_mul h XOR b) 0 bs"

lemma ecc_column_foldl:
  "ecc_column address data siz mi minor index a b =
    (foldl (\<lambda>a t. f_mul (a XOR t)) a (column_bytes address data siz mi minor index),
     foldl (XOR) b (column_bytes address data siz mi minor index))"
  by (induction minor arbitrary: index a b) (simp_all add: f_lut_mul Let_def)

lemma foldl_f_mul: "foldl (\<lambda>a t. f_mul (a XOR t)) (f_mul h) bs = f_mul (foldl (\<lambda>h b. f_mul h XOR b) h bs)"
  by (induction bs arbitrary: h) simp_all

lemma f_mul_0 [simp]: "f_mul 0 = 0"
  by (simp add: f_mul_def)

text \<open>C32: the two parity bytes computed for a column make both syndromes of the column with the parity
  appended zero: the column is a codeword of the Reed-Solomon code with the roots 1 and 2.\<close>

theorem ecc_parity_codeword:
  assumes "ecc_pair address data mc mn mm mi m = (p, q)"
  shows "let col = column_bytes address data (mc * mn) mi mn (m div 2 * mm + m mod 2) @ [p, q]
    in syndrome0 col = 0 \<and> syndrome1 col = 0"
proof -
  let ?c = "column_bytes address data (mc * mn) mi mn (m div 2 * mm + m mod 2)"
  let ?b = "foldl (XOR) 0 ?c" and ?h = "foldl (\<lambda>h b. f_mul h XOR b) 0 ?c"
  let ?y = "f_mul (f_mul ?h) XOR ?b"
  have a: "foldl (\<lambda>a t. f_mul (a XOR t)) 0 ?c = f_mul ?h" using foldl_f_mul [of 0 ?c] by simp
  have p: "p = b_lut ?y" "q = p XOR ?b"
    using assms a by (auto simp: ecc_pair_def ecc_column_foldl f_lut_mul Let_def)
  have "p XOR f_mul p = ?y" unfolding p(1) by (rule b_lut_solves)
  from arg_cong [OF this, of bit] have y: "(bit p n \<noteq> bit (f_mul p) n) = (bit (f_mul (f_mul ?h)) n \<noteq> bit ?b n)" for n
    by (simp add: fun_eq_iff bit_xor_iff)
  have "syndrome0 (?c @ [p, q]) = 0"
    by (rule bit_word_eqI) (auto simp: syndrome0_def p(2) bit_xor_iff)
  moreover have "syndrome1 (?c @ [p, q]) = f_mul (f_mul ?h) XOR f_mul p XOR (p XOR ?b)"
    by (simp add: syndrome1_def p(2) f_mul_xor xor.assoc)
  moreover have "\<dots> = 0" by (rule bit_word_eqI) (use y in \<open>auto simp: bit_xor_iff\<close>)
  ultimately show ?thesis by (simp add: Let_def)
qed

theorem ecc_parity_codeword_witness:
  "let col = column_bytes zeroaddress (replicate 2064 7) (86 * 24) 86 24 (5 div 2 * 2 + 5 mod 2)
        @ [fst (ecc_pair zeroaddress (replicate 2064 7) 86 24 2 86 5), snd (ecc_pair zeroaddress (replicate 2064 7) 86 24 2 86 5)]
   in syndrome0 col = 0 \<and> syndrome1 col = 0"
  by (rule ecc_parity_codeword) simp

section \<open>Rebuilding a recognised sector\<close>

lemma put32lsb_get32lsb:
  assumes "4 \<le> length bs" "ofs + 4 \<le> length dest"
  shows "put32lsb ofs (get32lsb bs) dest = overwrite ofs (take 4 bs) dest"
proof -
  let ?v = "get32lsb bs"
  have nb: "\<not> bit (b :: byte) m" if "8 \<le> m" for b m using that bit_imp_le_length [of b m] by auto
  have v: "ucast ?v = bs ! 0" "ucast (drop_bit 8 ?v) = bs ! 1" "ucast (drop_bit 16 ?v) = bs ! 2" "ucast (drop_bit 24 ?v) = bs ! 3"
    unfolding get32lsb_def by (rule bit_word_eqI; simp add: bit_simps nb)+
  have t: "take 4 bs = [bs ! 0, bs ! 1, bs ! 2, bs ! 3]"
    using list_eq_nth4 [of "take 4 bs"] assms(1) by simp
  show ?thesis unfolding put32lsb_def v t
    using assms(2) by (intro nth_equalityI) (auto simp: length_overwrite nth_overwrite nth_list_update nth_Cons' length_overwrite_le)
qed

lemma length_put32lsb [simp]: "length (put32lsb ofs v b) = length b"
  by (simp add: put32lsb_def)

text \<open>Two buffers that agree up to a position, and extending the agreement by a field.\<close>

lemma agree_overwrite:
  assumes "take n b = take n u" "n + k \<le> length u" "n \<le> length b"
  shows "take (n + k) (overwrite n (take k (drop n u)) b) = take (n + k) u"
  using assms by (simp add: overwrite_def take_add)

definition sector_size :: "nat \<Rightarrow> nat" where
  "sector_size t = (if t = 0 then 1 else if t = 1 then 2352 else 2336)"

text \<open>What the encoder keeps of a sector, where the decoder puts it, and what it writes back.\<close>

definition strip :: "nat \<Rightarrow> bytes \<Rightarrow> bytes" where
  "strip t u = (if t = 1 then take 0x003 (drop 0x00C u) @ take 0x800 (drop 0x010 u)
     else if t = 2 then take 0x804 (drop 0x004 u) else if t = 3 then take 0x918 (drop 0x004 u) else u)"

definition load :: "nat \<Rightarrow> bytes \<Rightarrow> bytes \<Rightarrow> bytes" where
  "load t pl buf = (if t = 1 then overwrite 0x010 (drop 3 pl) (overwrite 0x00C (take 3 pl) buf) else overwrite 0x014 pl buf)"

definition sector_out :: "nat \<Rightarrow> bytes \<Rightarrow> bytes" where
  "sector_out t sec = (if t = 1 then sec else drop 0x10 sec)"

lemma ecc_checksector_bytes:
  assumes "ecc_checksector address (drop d u) (drop e u)" "e + 0x114 \<le> length u"
  shows "take 172 (drop e u) = ecc_bytes address (drop d u) 86 24 2 86"
    and "take 104 (drop (e + 0xAC) u) = ecc_bytes address (drop d u) 52 43 86 88"
  using assms ecc_checkpq_bytes [of 86 "drop e u"] ecc_checkpq_bytes [of 52 "drop (e + 0xAC) u"]
  by (simp_all add: ecc_checksector_def add.commute)

lemma ecc_writesector_restores:
  assumes "take e b = take e u" "length b = length u" "e + 0x114 = length u" "d + 2060 = e"
    and "take 172 (drop e u) = ecc_bytes address (drop d u) 86 24 2 86"
    and "take 104 (drop (e + 0xAC) u) = ecc_bytes address (drop d u) 52 43 86 88"
  shows "ecc_writesector address d e b = u"
proof -
  have nth: "drop d x ! i = drop d u ! i" if "take n x = take n u" "d + i < n" "n \<le> length u" "length x = length u" for n x i
    using that by (metis add_diff_cancel_left' le_add1 nth_drop nth_take order_le_less_trans leD not_le_imp_less less_imp_le order_less_le_trans)
  let ?b1 = "ecc_writepq address d 86 24 2 86 e b"
  have "ecc_bytes address (drop d b) 86 24 2 86 = ecc_bytes address (drop d u) 86 24 2 86"
    using assms by (intro ecc_bytes_cong ecc_geometry_PQ nth [of e]) auto
  then have b1: "?b1 = overwrite e (take 172 (drop e u)) b"
    using assms by (subst ecc_writepq_overwrite [OF ecc_geometry_PQ(1)]) simp_all
  have a1: "take (e + 172) ?b1 = take (e + 172) u" "length ?b1 = length u"
    unfolding b1 using assms agree_overwrite [of e b u 172] by (simp_all add: length_overwrite)
  have "ecc_bytes address (drop d ?b1) 52 43 86 88 = ecc_bytes address (drop d u) 52 43 86 88"
    using assms a1 by (intro ecc_bytes_cong ecc_geometry_PQ nth [of "e + 172"]) auto
  then have b2: "ecc_writepq address d 52 43 86 88 (e + 0xAC) ?b1 = overwrite (e + 172) (take 104 (drop (e + 172) u)) ?b1"
    using assms a1 by (subst ecc_writepq_overwrite [OF ecc_geometry_PQ(2)]) simp_all
  have "take (e + 172 + 104) (ecc_writepq address d 52 43 86 88 (e + 0xAC) ?b1) = take (e + 172 + 104) u"
    unfolding b2 using assms a1 by (intro agree_overwrite) simp_all
  moreover have "length (ecc_writepq address d 52 43 86 88 (e + 0xAC) ?b1) = length u"
    unfolding b2 using assms a1(2) by (simp add: length_overwrite)
  ultimately show ?thesis using assms(3) by (simp add: ecc_writesector_def)
qed


lemma detect_sector_1:
  "detect_sector s a = 1 \<Longrightarrow> 2352 \<le> a \<and> take 12 s = sync_bytes \<and> s ! 0x00F = 0x01 \<and> take 8 (drop 0x814 s) = replicate 8 0x00
     \<and> ecc_checksector (take 4 (drop 0xC s)) (drop 0x10 s) (drop 0x81C s)
     \<and> edc_compute 0 (take 0x810 s) = get32lsb (drop 0x810 s)"
  by (simp add: detect_sector_def split: if_splits)

lemma detect_sector_2:
  "detect_sector s a = 2 \<Longrightarrow> 2336 \<le> a \<and> s ! 0 = s ! 4 \<and> s ! 1 = s ! 5 \<and> s ! 2 = s ! 6 \<and> s ! 3 = s ! 7
     \<and> ecc_checksector zeroaddress s (drop 0x80C s) \<and> edc_compute 0 (take 0x808 s) = get32lsb (drop 0x808 s)"
  by (simp add: detect_sector_def split: if_splits)

lemma detect_sector_3:
  "detect_sector s a = 3 \<Longrightarrow> 2336 \<le> a \<and> s ! 0 = s ! 4 \<and> s ! 1 = s ! 5 \<and> s ! 2 = s ! 6 \<and> s ! 3 = s ! 7
     \<and> edc_compute 0 (take 0x91C s) = get32lsb (drop 0x91C s)"
  by (simp add: detect_sector_def split: if_splits)

lemma detect_sector_cases: "detect_sector s a = 0 \<or> detect_sector s a = 1 \<or> detect_sector s a = 2 \<or> detect_sector s a = 3"
  by (simp add: detect_sector_def)

lemma sector_size_fits:
  "detect_sector s a = t \<Longrightarrow> 0 < a \<Longrightarrow> sector_size t \<le> a \<and> t \<le> 3"
  using detect_sector_cases [of s a] detect_sector_1 [of s a] detect_sector_2 [of s a] detect_sector_3 [of s a]
  by (auto simp: sector_size_def)

text \<open>A checked sector at the front of a longer stretch of data.\<close>

lemma ecc_checksector_front:
  assumes "ecc_checksector address (drop d s) (drop e s)" "e + 0x114 \<le> n" "n \<le> length s" "d + 2060 = e"
  shows "take 172 (drop e (take n s)) = ecc_bytes address (drop d (take n s)) 86 24 2 86"
    and "take 104 (drop (e + 0xAC) (take n s)) = ecc_bytes address (drop d (take n s)) 52 43 86 88"
proof -
  have le: "e + 0x114 \<le> length s" and fits: "172 \<le> n - e" "104 \<le> n - (e + 172)" using assms by simp_all
  have "ecc_bytes address (drop d s) 86 24 2 86 = ecc_bytes address (drop d (take n s)) 86 24 2 86"
    "ecc_bytes address (drop d s) 52 43 86 88 = ecc_bytes address (drop d (take n s)) 52 43 86 88"
    using assms by (intro ecc_bytes_cong ecc_geometry_PQ; simp)+
  then show "take 172 (drop e (take n s)) = ecc_bytes address (drop d (take n s)) 86 24 2 86"
    "take 104 (drop (e + 0xAC) (take n s)) = ecc_bytes address (drop d (take n s)) 52 43 86 88"
    using ecc_checksector_bytes [OF assms(1) le] fits by (simp_all add: drop_take take_take min_def)
qed

lemma rebuild_mode1:
  assumes "detect_sector s a = 1" "a \<le> length s" "length buf = 2352" and u: "u = take 2352 s"
  shows "reconstruct_sector 1 (load 1 (strip 1 u) buf) = u"
proof -
  have d: "2352 \<le> length s" "take 12 s = sync_bytes" "s ! 15 = 1" "take 8 (drop 0x814 s) = replicate 8 0"
     "ecc_checksector (take 4 (drop 0xC s)) (drop 0x10 s) (drop 0x81C s)"
     "edc_compute 0 (take 0x810 s) = get32lsb (drop 0x810 s)"
    using detect_sector_1 [OF assms(1)] assms(2) by auto
  let ?b0 = "load 1 (strip 1 u) buf"
  define b1 where "b1 = overwrite 0x814 (replicate 8 0x00) ((overwrite 0 sync_bytes ?b0)[0x00F := 0x01])"
  have lu: "length u = 2352" using u d(1) by simp
  have sy: "sync_bytes ! i = u ! i" if "i < 12" for i
  proof -
    have "sync_bytes ! i = take 12 s ! i" using d(2) by simp
    then show ?thesis using that u by simp
  qed
  have rs: "u ! i = 0" if "0x814 \<le> i" "i < 0x81C" for i
  proof -
    have "take 8 (drop 0x814 s) ! (i - 0x814) = 0" unfolding d(4) using that by simp
    then show ?thesis using that d(1) u by simp
  qed
  have l1: "length b1 = 2352" using assms(3) lu by (simp add: b1_def load_def strip_def length_overwrite sync_bytes_def)
  have n0: "?b0 ! i = u ! i" if "0xC \<le> i" "i < 0xF \<or> 0x10 \<le> i" "i < 0x810" for i
    using that lu assms(3) by (auto simp: load_def strip_def nth_overwrite length_overwrite min_def)
  have n1: "b1 ! i = u ! i" if ir: "i < 0x810 \<or> 0x814 \<le> i \<and> i < 0x81C" for i
  proof -
    have l0: "length ?b0 = 2352" using assms(3) lu by (simp add: load_def strip_def length_overwrite)
    consider "i < 12" | "12 \<le> i" "i < 15" | "i = 15" | "16 \<le> i" "i < 0x810" | "0x814 \<le> i" "i < 0x81C"
      using ir by linarith
    then show ?thesis
    proof cases
      case 1 then show ?thesis using l0 sy [of i] by (simp add: b1_def nth_overwrite length_overwrite sync_bytes_def)
    next
      case 2 then show ?thesis using l0 n0 [of i] by (simp add: b1_def nth_overwrite length_overwrite sync_bytes_def)
    next
      case 3 then show ?thesis using l0 d(1,3) u by (simp add: b1_def nth_overwrite length_overwrite sync_bytes_def)
    next
      case 4 then show ?thesis using l0 n0 [of i] by (simp add: b1_def nth_overwrite length_overwrite sync_bytes_def)
    next
      case 5 then show ?thesis using l0 rs [of i] by (simp add: b1_def nth_overwrite length_overwrite sync_bytes_def)
    qed
  qed
  have t1: "take 0x810 b1 = take 0x810 u" using n1 l1 lu by (intro nth_equalityI) auto
  let ?b2 = "put32lsb 0x810 (edc_compute 0 (take 0x810 b1)) b1"
  have v: "edc_compute 0 (take 0x810 b1) = get32lsb (drop 0x810 s)" unfolding t1 using d(6) u by simp
  have eq: "take 4 (drop 0x810 u) = take 4 (drop 0x810 s)" using u d(1) by (simp add: drop_take)
  have b2: "?b2 = overwrite 0x810 (take 4 (drop 0x810 u)) b1"
    unfolding v eq by (rule put32lsb_get32lsb) (use d(1) l1 in auto)
  have t2: "take 0x81C ?b2 = take 0x81C u"
    unfolding b2 using n1 l1 lu by (intro nth_equalityI) (auto simp: length_overwrite nth_overwrite)
  have l2: "length ?b2 = 2352" using l1 by simp
  have ad: "take 4 (drop 0xC ?b2) = take 4 (drop 0xC s)"
    using arg_cong [OF t2, of "\<lambda>x. take 4 (drop 0xC x)"] u d(1) by (simp add: drop_take take_take)
  have "ecc_writesector (take 4 (drop 0xC s)) 0x10 0x81C ?b2 = u"
    using ecc_checksector_front [OF d(5), of 2352] d(1) t2 l2 lu u by (intro ecc_writesector_restores) simp_all
  then show ?thesis unfolding reconstruct_sector_def Let_def using ad by (simp add: b1_def)
qed


text \<open>The forms of mode 2: \<open>n\<close> bytes of the sector are kept or copied from the flags, the checksum follows.\<close>

definition mode2_flags :: "bytes \<Rightarrow> bytes" where
  "mode2_flags b = (let sector = overwrite 0 sync_bytes b in (sector[0x00F := 0x02])[0x010 := sector ! 0x014,
     0x011 := sector ! 0x015, 0x012 := sector ! 0x016, 0x013 := sector ! 0x017])"

lemma mode2_prefix:
  assumes "length buf = 2352" "length u = 2336" "u ! 0 = u ! 4" "u ! 1 = u ! 5" "u ! 2 = u ! 6" "u ! 3 = u ! 7"
    and "8 \<le> n" "n \<le> 2336"
    and b: "b = mode2_flags (overwrite 0x014 (take (n - 4) (drop 0x004 u)) buf)"
  shows "length b = 2352" "take n (drop 0x10 b) = take n u"
proof -
  let ?c = "overwrite 0 sync_bytes (overwrite 0x014 (take (n - 4) (drop 0x004 u)) buf)"
  have lc: "length ?c = 2352" using assms(1,2,8) by (simp add: length_overwrite sync_bytes_def)
  then show l: "length b = 2352" by (simp add: b mode2_flags_def Let_def)
  have c: "?c ! i = u ! (i - 0x10)" if "0x14 \<le> i" "i < n + 0x10" for i
    using that assms by (auto simp: nth_overwrite length_overwrite sync_bytes_def)
  have "b ! (0x10 + i) = u ! i" if "i < n" for i
  proof -
    have "i = 0 \<or> i = 1 \<or> i = 2 \<or> i = 3 \<or> 4 \<le> i" by arith
    then show ?thesis
    proof (elim disjE)
      assume "4 \<le> i" then show ?thesis using c [of "0x10 + i"] that lc by (simp add: b mode2_flags_def Let_def nth_list_update)
    qed (use c [of "0x14"] c [of "0x15"] c [of "0x16"] c [of "0x17"] assms lc in
        \<open>simp_all add: b mode2_flags_def Let_def nth_list_update\<close>)
  qed
  then show "take n (drop 0x10 b) = take n u" using l assms by (intro nth_equalityI) auto
qed

lemma mode2_checksum:
  assumes "length b = 2352" "length u = 2336" "take n (drop 0x10 b) = take n u" "n + 4 \<le> 2336"
    and "v = get32lsb (drop n u)"
  shows "length (put32lsb (0x10 + n) v b) = 2352"
    "take (0x10 + n + 4) (put32lsb (0x10 + n) v b) = take (0x10 + n + 4) (take 0x10 b @ u)"
proof -
  have p: "put32lsb (0x10 + n) v b = overwrite (0x10 + n) (take 4 (drop n u)) b"
    unfolding assms(5) using assms(1,2,4) by (intro put32lsb_get32lsb) simp_all
  have "take (0x10 + n) b = take (0x10 + n) (take 0x10 b @ u)"
    using assms(1,3) by (simp add: take_add)
  from agree_overwrite [OF this, of 4] assms(1,2,4)
  show "take (0x10 + n + 4) (put32lsb (0x10 + n) v b) = take (0x10 + n + 4) (take 0x10 b @ u)"
    by (simp add: p)
  show "length (put32lsb (0x10 + n) v b) = 2352" using assms by simp
qed

lemma rebuild_mode2_form1:
  assumes "detect_sector s a = 2" "a \<le> length s" "length buf = 2352" and u: "u = take 2336 s"
  shows "drop 0x10 (reconstruct_sector 2 (load 2 (strip 2 u) buf)) = u"
proof -
  have d: "2336 \<le> length s" "s ! 0 = s ! 4" "s ! 1 = s ! 5" "s ! 2 = s ! 6" "s ! 3 = s ! 7"
     "ecc_checksector zeroaddress s (drop 0x80C s)" "edc_compute 0 (take 0x808 s) = get32lsb (drop 0x808 s)"
    using detect_sector_2 [OF assms(1)] assms(2) by auto
  have lu: "length u = 2336" using u d(1) by simp
  define b where "b = mode2_flags (overwrite 0x014 (take (0x808 - 4) (drop 0x004 u)) buf)"
  have b: "length b = 2352" "take 0x808 (drop 0x10 b) = take 0x808 u"
    using mode2_prefix [OF assms(3) lu, of "0x808" b] d(2-5) u b_def by simp_all
  let ?v = "edc_compute 0 (take 0x808 (drop 0x10 b))" and ?w = "take 0x10 b @ u"
  let ?b2 = "put32lsb 0x818 ?v b"
  have "?v = get32lsb (drop 0x808 u)"
    using b(2) d(1,7) u by (simp add: get32lsb_def)
  from mode2_checksum [OF b(1) lu b(2) _ this] have b2: "length ?b2 = 2352" "take 0x81C ?b2 = take 0x81C ?w" by simp_all
  have dw: "drop 0x10 ?w = u" "drop 0x81C ?w = drop 0x80C u" "drop (0x81C + 0xAC) ?w = drop (0x80C + 0xAC) u"
    using b(1) by simp_all
  have "ecc_writesector zeroaddress 0x10 0x81C ?b2 = ?w"
    using ecc_checksector_front [of zeroaddress 0 s "0x80C" 2336] d(1,6) u b2 b(1) lu dw
    by (intro ecc_writesector_restores) simp_all
  then have "reconstruct_sector 2 (load 2 (strip 2 u) buf) = ?w"
    by (simp add: reconstruct_sector_def load_def strip_def b_def mode2_flags_def Let_def)
  then show ?thesis using b(1) by simp
qed

lemma rebuild_mode2_form2:
  assumes "detect_sector s a = 3" "a \<le> length s" "length buf = 2352" and u: "u = take 2336 s"
  shows "drop 0x10 (reconstruct_sector 3 (load 3 (strip 3 u) buf)) = u"
proof -
  have d: "2336 \<le> length s" "s ! 0 = s ! 4" "s ! 1 = s ! 5" "s ! 2 = s ! 6" "s ! 3 = s ! 7"
     "edc_compute 0 (take 0x91C s) = get32lsb (drop 0x91C s)"
    using detect_sector_3 [OF assms(1)] assms(2) by auto
  have lu: "length u = 2336" using u d(1) by simp
  define b where "b = mode2_flags (overwrite 0x014 (take (0x91C - 4) (drop 0x004 u)) buf)"
  have b: "length b = 2352" "take 0x91C (drop 0x10 b) = take 0x91C u"
    using mode2_prefix [OF assms(3) lu, of "0x91C" b] d(2-5) u b_def by simp_all
  let ?v = "edc_compute 0 (take 0x91C (drop 0x10 b))" and ?w = "take 0x10 b @ u"
  let ?b2 = "put32lsb 0x92C ?v b"
  have "?v = get32lsb (drop 0x91C u)"
    using b(2) d(1,6) u by (simp add: get32lsb_def)
  from mode2_checksum [OF b(1) lu b(2) _ this] have b2: "length ?b2 = 2352" "take 0x930 ?b2 = take 0x930 ?w"
    by (simp_all add: lu)
  then have "?b2 = ?w" using b(1) by (simp add: lu)
  then have "reconstruct_sector 3 (load 3 (strip 3 u) buf) = ?w"
    by (simp add: reconstruct_sector_def load_def strip_def b_def mode2_flags_def Let_def)
  then show ?thesis using b(1) by simp
qed


text \<open>C17: rebuilding a sector of type 1, 2 or 3 that was recognised in the input from the bytes the encoder keeps gives exactly
  the bytes of the sector, whatever the buffer held before.\<close>

theorem sector_rebuild:
  assumes "detect_sector s a = t" "t \<noteq> 0" "a \<le> length s" "length buf = 2352"
  shows "sector_out t (reconstruct_sector t (load t (strip t (take (sector_size t) s)) buf)) = take (sector_size t) s"
  using detect_sector_cases [of s a] assms rebuild_mode1 [of s a buf] rebuild_mode2_form1 [of s a buf]
    rebuild_mode2_form2 [of s a buf]
  by (auto simp: sector_out_def sector_size_def)

text \<open>A sector of zeros is one of mode 2, form 1.\<close>

lemma edc_compute_zeros: "edc_compute 0 (replicate n 0) = 0"
proof -
  have "(edc_shift ^^ k) 0 = 0" for k by (induction k) (simp_all add: edc_shift_def)
  then have "edc_lut eccedc_init ! 0 = 0" by (simp add: edc_lut_nth)
  then show ?thesis by (induction n) simp_all
qed

lemma ecc_column_zeros:
  "index < siz \<Longrightarrow> mi \<le> siz \<Longrightarrow> siz \<le> k + 4 \<Longrightarrow> ecc_column zeroaddress (replicate k 0) siz mi minor index 0 0 = (0, 0)"
proof (induction minor arbitrary: index)
  case (Suc minor)
  have t: "(if index < 4 then zeroaddress ! index else replicate k 0 ! (index - 4)) = 0"
    using Suc.prems by (auto simp: zeroaddress_def nth_Cons' numeral_eq_Suc)
  have "f_lut 0 = 0" using f_lut_mul [of 0] by simp
  then show ?case using Suc by (simp add: Let_def t)
qed simp

lemma ecc_bytes_zeros:
  assumes "ecc_geometry mc mn mm mi" "mc * mn \<le> k + 4"
  shows "ecc_bytes zeroaddress (replicate k 0) mc mn mm mi = replicate (2 * mc) 0"
proof -
  have "b_lut 0 = 0" "f_lut 0 = 0" using b_lut_triple [of 0] f_lut_mul [of 0] by simp_all
  then have "ecc_pair zeroaddress (replicate k 0) mc mn mm mi m = (0, 0)" if "m < mc" for m
    using assms that ecc_column_zeros [of "m div 2 * mm + m mod 2" "mc * mn" mi k mn]
    by (simp add: ecc_pair_def ecc_geometry_def Let_def)
  then show ?thesis by (intro nth_equalityI) (auto simp: ecc_bytes_def nth_append)
qed

lemma detect_zero_sector: "detect_sector (replicate 2336 0) 2336 = 2"
proof -
  have "ecc_checksector zeroaddress (replicate 2336 0) (replicate 276 0)"
    using ecc_bytes_zeros [OF ecc_geometry_PQ(1), of 2336] ecc_bytes_zeros [OF ecc_geometry_PQ(2), of 2336]
    by (simp add: ecc_checksector_def ecc_checkpq_bytes)
  then show ?thesis by (simp add: detect_sector_def edc_compute_zeros get32lsb_def)
qed

theorem sector_rebuild_witness:
  "sector_out 2 (reconstruct_sector 2 (load 2 (strip 2 (take (sector_size 2) (replicate 2336 0))) (replicate 2352 5)))
    = take (sector_size 2) (replicate 2336 0)"
  by (rule sector_rebuild [OF detect_zero_sector]) simp_all

end
