(* ===== verification/Ecm_Roundtrip.thy ===== *)
theory Ecm_Roundtrip
  imports Ecm_File
begin

text \<open>
  Decoding what the encoder of \<^verbatim>\<open>jni/ecmpatcher/ecm.c\<close> wrote.  An encoded file is a sequence of runs of
  sectors of one type; \<open>enc_runs\<close> is its byte form.  The encoder keeps an invariant that ties its output,
  its current run and its queue to the input read so far, the decoder undoes one run after the other.
\<close>

section \<open>The type/count records\<close>

fun tc_tail :: "nat \<Rightarrow> bytes" where
  "tc_tail n = (if n = 0 then [] else of_nat ((if n \<ge> 128 then 128 else 0) + n mod 128) # tc_tail (n div 128))"

declare tc_tail.simps [simp del]

definition type_count :: "nat \<Rightarrow> nat \<Rightarrow> bytes" where
  "type_count t n = of_nat ((if n \<ge> 32 then 128 else 0) + n mod 32 * 4 + t) # tc_tail (n div 32)"

lemma word_or_disjoint_add:
  assumes "a < 2 ^ n" shows "of_nat a OR push_bit n (of_nat b) = (of_nat (a + b * 2 ^ n) :: 'a::len word)"
proof -
  have "\<not> bit (of_nat a :: 'a word) k" if "n \<le> k" for k
  proof -
    have "a < 2 ^ k" using assms power_increasing [OF that, of "2::nat"] by linarith
    then show ?thesis by (rule not_bit_word_of_nat)
  qed
  then have "of_nat a OR push_bit n (of_nat b) = (of_nat a + push_bit n (of_nat b) :: 'a word)"
    by (intro disjunctive_add [symmetric]) (auto simp: bit_push_bit_iff)
  then show ?thesis by (simp add: push_bit_word)
qed

lemma word_and_mod:
  "(w :: u32) AND 127 = of_nat (unat w mod 128)" "(w :: u32) AND 31 = of_nat (unat w mod 32)" "(w :: u32) AND 3 = of_nat (unat w mod 4)"
proof -
  have "w AND mask n = of_nat (unat w mod 2 ^ n)" for n
  proof -
    have "unat (w AND mask n) = unat w mod 2 ^ n" by (simp add: take_bit_eq_mask [symmetric] unat_take_bit)
    then show ?thesis by (metis of_nat_unat ucast_id)
  qed
  from this [of 7] this [of 5] this [of 2] show "w AND 127 = of_nat (unat w mod 128)" "w AND 31 = of_nat (unat w mod 32)"
    "w AND 3 = of_nat (unat w mod 4)" by (simp_all add: mask_eq_exp_minus_1)
qed

lemma tail_byte:
  "(ucast ((if w \<ge> 128 then 0x80 else 0) OR (w AND 127) :: u32) :: byte)
     = of_nat ((if unat w \<ge> 128 then 128 else 0) + unat w mod 128)"
proof -
  have "w \<ge> 128 \<longleftrightarrow> unat w \<ge> 128" by (simp add: word_le_nat_alt)
  then have "(if w \<ge> 128 then 0x80 else 0) = push_bit 7 (of_nat (if unat w \<ge> 128 then 1 else 0) :: u32)"
    by (simp add: push_bit_word)
  then have "(if w \<ge> 128 then 0x80 else 0) OR (w AND 127) = of_nat (unat w mod 128 + (if unat w \<ge> 128 then 1 else 0) * 2 ^ 7)"
    unfolding word_and_mod using word_or_disjoint_add [of "unat w mod 128" 7 "if unat w \<ge> 128 then 1 else 0", where 'a = 32]
    by (simp only: or.commute) simp
  moreover have "unat w mod 128 + (if unat w \<ge> 128 then 1 else 0) * 2 ^ 7 = (if unat w \<ge> 128 then 128 else 0) + unat w mod 128"
    by simp
  moreover have "(if unat w \<ge> 128 then 128 else 0) + unat w mod 128 < 2 ^ LENGTH(32)"
    using mod_less_divisor [of 128 "unat w"] by (simp del: mod_less_divisor)
  ultimately show ?thesis by (simp only: ucast_word_of_nat)
qed

lemma type_count_loop_tail: "type_count_loop w out = fwrite (tc_tail (unat w)) out"
proof (induction w out rule: type_count_loop.induct)
  case (1 w out)
  show ?case
  proof (cases "w = 0")
    case False
    then have "unat w \<noteq> 0" by (simp add: unat_eq_0)
    then show ?thesis using False 1
      by (subst type_count_loop.simps, subst tc_tail.simps) (simp add: tail_byte fputc_def stdio_simps unat_drop_bit)
  qed (simp add: type_count_loop.simps tc_tail.simps stdio_simps)
qed

lemma first_byte:
  assumes "t < 4"
  shows "(ucast ((if w \<ge> 32 then 0x80 else 0) OR push_bit 2 (w AND 31) OR of_nat t :: u32) :: byte)
     = of_nat ((if unat w \<ge> 32 then 128 else 0) + unat w mod 32 * 4 + t)"
proof -
  have "w \<ge> 32 \<longleftrightarrow> unat w \<ge> 32" by (simp add: word_le_nat_alt)
  then have h: "(if w \<ge> 32 then 0x80 else 0) = push_bit 7 (of_nat (if unat w \<ge> 32 then 1 else 0) :: u32)"
    by (simp add: push_bit_word)
  have m: "of_nat t OR push_bit 2 (w AND 31) = (of_nat (t + unat w mod 32 * 4) :: u32)"
    unfolding word_and_mod using word_or_disjoint_add [of t 2 "unat w mod 32", where 'a = 32] assms by simp
  have lt: "t + unat w mod 32 * 4 < 2 ^ 7"
    using assms mod_less_divisor [of 32 "unat w"] by (simp del: mod_less_divisor)
  have "(if w \<ge> 32 then 0x80 else 0) OR push_bit 2 (w AND 31) OR of_nat t
      = (of_nat t OR push_bit 2 (w AND 31)) OR (if w \<ge> 32 then 0x80 else 0)"
    by (simp only: or.commute or.left_commute or.assoc)
  also have "\<dots> = of_nat (t + unat w mod 32 * 4 + (if unat w \<ge> 32 then 1 else 0) * 2 ^ 7)"
    unfolding h m by (rule word_or_disjoint_add [OF lt])
  finally have "(if w \<ge> 32 then 0x80 else 0) OR push_bit 2 (w AND 31) OR of_nat t
    = (of_nat (t + unat w mod 32 * 4 + (if unat w \<ge> 32 then 1 else 0) * 2 ^ 7) :: u32)" .
  moreover have "t + unat w mod 32 * 4 + (if unat w \<ge> 32 then 1 else 0) * 2 ^ 7 < 2 ^ LENGTH(32)"
    using lt by simp
  moreover have "t + unat w mod 32 * 4 + (if unat w \<ge> 32 then 1 else 0) * 2 ^ 7 = (if unat w \<ge> 32 then 128 else 0) + unat w mod 32 * 4 + t"
    by simp
  ultimately show ?thesis by (simp only: ucast_word_of_nat)
qed

lemma write_type_count_bytes:
  "t < 4 \<Longrightarrow> write_type_count out t w = fwrite (type_count t (unat (w - 1))) out"
  unfolding write_type_count_def Let_def first_byte type_count_def fputc_def type_count_loop_tail unat_drop_bit fwrite_fwrite
  by (simp only: append_Cons append_Nil) (simp only: power_numeral Num.pow.simps Num.sqr.simps Num.num.case mult_num_simps)

text \<open>The decoder's loop over the following bytes inverts it; its overflow test never fires on a count below \<open>2 ^ 32\<close>.\<close>

lemma bit7_nat: "n < 256 \<Longrightarrow> bit (int n) 7 \<longleftrightarrow> 128 \<le> n"
proof -
  assume "n < 256"
  then have "n div 128 = (if 128 \<le> n then 1 else 0)"
    using div_nat_eqI [of 128 1 n] by auto
  then have "int n div 128 = (if 128 \<le> n then 1 else 0)"
    using zdiv_int [of n 128] by (simp split: if_splits)
  then show ?thesis by (simp add: bit_iff_odd split: if_splits)
qed

lemma tail_byte_value: "uint (of_nat ((if n \<ge> 128 then 128 else 0) + n mod 128) :: byte) = int ((if n \<ge> 128 then 128 else 0) + n mod 128)"
proof -
  let ?v = "(if n \<ge> 128 then 128 else 0) + n mod 128"
  have "?v < 2 ^ LENGTH(8)" using mod_less_divisor [of 128 n] by (simp del: mod_less_divisor)
  then have "unat (of_nat ?v :: byte) = ?v" by (rule unat_word_of_nat_id)
  then show ?thesis by (simp only: uint_nat)
qed

lemma count_loop_tail:
  assumes "c < 256" "128 \<le> c \<longleftrightarrow> n \<noteq> 0" "num < 2 ^ bits" "n < 2 ^ (32 - bits)" "0 < bits" "srest i = tc_tail n @ ys"
  shows "count_loop (int c) bits (of_nat num) i = Some (of_nat (num + n * 2 ^ bits), advance (length (tc_tail n)) i)"
  using assms
proof (induction n arbitrary: c bits num i rule: tc_tail.induct)
  case (1 n)
  show ?case
  proof (cases "n = 0")
    case True
    then show ?thesis using 1 by (subst count_loop.simps) (simp add: bit7_nat tc_tail.simps stdio_simps)
  next
    case False
    let ?c = "(if n \<ge> 128 then 128 else 0) + n mod 128"
    have cm: "?c < 256" "?c mod 128 = n mod 128" "128 \<le> ?c \<longleftrightarrow> n div 128 \<noteq> 0"
      using mod_less_divisor [of 128 n] by (auto simp: div_eq_0_iff simp del: mod_less_divisor)
    have rest: "srest i = of_nat ?c # tc_tail (n div 128) @ ys" using 1(7) False by (simp add: tc_tail.simps [of n])
    have len: "length (tc_tail n) = Suc (length (tc_tail (n div 128)))" using False by (simp add: tc_tail.simps [of n])
    have g: "fgetc i = (int ?c, advance 1 i)" unfolding fgetc_front [OF rest] tail_byte_value ..
    have b31: "bits \<le> 31"
    proof (rule ccontr)
      assume "\<not> bits \<le> 31" then have "32 - bits = 0" by simp
      then show False using 1(5) False by simp
    qed
    have "unat (of_int (int ?c) :: u32) = ?c" using cm(1) by (simp only: of_int_of_nat_eq) (rule unat_word_of_nat_id, simp)
    then have a: "(of_int (int ?c) :: u32) AND 0x7F = of_nat (n mod 128)" using word_and_mod(1) [of "of_int (int ?c)"] cm(2) by simp
    have "unat (drop_bit (bits - 1) (0x80000000 :: u32)) = 2 ^ 31 div 2 ^ (bits - 1)" by (simp add: unat_drop_bit)
    also have "\<dots> = 2 ^ (31 - (bits - 1))" using b31 by (intro power_diff [symmetric]) simp_all
    also have "31 - (bits - 1) = 32 - bits" using b31 1(6) by simp
    finally have lim: "unat (drop_bit (bits - 1) (0x80000000 :: u32)) = 2 ^ (32 - bits)" .
    have "n mod 128 < 2 ^ (32 - bits)" using 1(5) mod_less_eq_dividend [of n 128] by linarith
    then have nov: "\<not> (of_nat (n mod 128) :: u32) \<ge> drop_bit (bits - 1) 0x80000000"
      using mod_less_divisor [of 128 n] lim by (simp add: word_le_nat_alt unat_of_nat del: mod_less_divisor)
    have or: "of_nat num OR push_bit bits (of_nat (n mod 128)) = (of_nat (num + n mod 128 * 2 ^ bits) :: u32)"
      by (rule word_or_disjoint_add [OF 1(4)])
    have "num + n mod 128 * 2 ^ bits < 2 ^ (bits + 7)"
    proof -
      have "num + n mod 128 * 2 ^ bits < Suc (n mod 128) * 2 ^ bits" using 1(4) by simp
      also have "\<dots> \<le> 128 * 2 ^ bits" using mod_less_divisor [of 128 n] by (intro mult_le_mono1) (simp del: mod_less_divisor)
      finally show ?thesis by (simp add: power_add)
    qed
    moreover have "n div 128 < 2 ^ (32 - (bits + 7))"
    proof (cases "bits + 7 \<le> 32")
      case True
      then have "2 ^ (32 - bits) = 2 ^ (32 - (bits + 7)) * (128 :: nat)"
        using power_add [of "2::nat" "32 - (bits + 7)" 7] by simp
      then show ?thesis using 1(5) by (simp add: less_mult_imp_div_less)
    next
      case False
      then have "2 ^ (32 - bits) \<le> (2 ^ 6 :: nat)" by (intro power_increasing) simp_all
      then show ?thesis using 1(5) by simp
    qed
    moreover have "srest (advance 1 i) = tc_tail (n div 128) @ ys" using rest by (simp add: stdio_simps)
    ultimately have "count_loop (int ?c) (bits + 7) (of_nat (num + n mod 128 * 2 ^ bits)) (advance 1 i)
      = Some (of_nat (num + n mod 128 * 2 ^ bits + n div 128 * 2 ^ (bits + 7)), advance (length (tc_tail (n div 128))) (advance 1 i))"
      by (intro 1(1) [OF False cm(1) cm(3)]) simp_all
    moreover have "num + n mod 128 * 2 ^ bits + n div 128 * 2 ^ (bits + 7) = num + n * 2 ^ bits"
    proof -
      have "n mod 128 * 2 ^ bits + n div 128 * 2 ^ (bits + 7) = (n mod 128 + n div 128 * 128) * 2 ^ bits"
        by (simp only: power_add distrib_right) simp
      then show ?thesis by (simp only: mod_div_mult_eq add.assoc)
    qed
    moreover have "bit (int c) 7" "int ?c \<noteq> -1" using 1(2,3) False by (simp_all add: bit7_nat)
    ultimately show ?thesis using g a nov or b31
      by (subst count_loop.simps) (simp add: len stdio_simps)
  qed
qed


lemma fgetc_first:
  assumes "t < 4" "srest i = type_count t n @ ys"
  shows "fgetc i = (int ((if n \<ge> 32 then 128 else 0) + n mod 32 * 4 + t), advance 1 i)"
    and "srest (advance 1 i) = tc_tail (n div 32) @ ys"
proof -
  let ?c = "(if n \<ge> 32 then 128 else 0) + n mod 32 * 4 + t"
  have r: "srest i = of_nat ?c # tc_tail (n div 32) @ ys" using assms(2) by (simp only: type_count_def append_Cons)
  have "?c < 2 ^ LENGTH(8)" using assms(1) mod_less_divisor [of 32 n] by (simp del: mod_less_divisor)
  then have "uint (of_nat ?c :: byte) = int ?c" by (simp only: uint_nat unat_word_of_nat_id)
  then show "fgetc i = (int ?c, advance 1 i)" using fgetc_front [OF r] by (simp only:)
  show "srest (advance 1 i) = tc_tail (n div 32) @ ys" using r by (simp add: stdio_simps)
qed

lemma read_type_count:
  assumes "t < 4" "n < 2 ^ 32" "srest i = type_count t n @ ys"
  obtains c where "fgetc i = (c, advance 1 i)" "c \<noteq> -1" "unat ((of_int c :: u32) AND 3) = t"
    "count_loop c 5 (drop_bit 2 (of_int c) AND 0x1F) (advance 1 i) = Some (of_nat n, advance (length (type_count t n)) i)"
proof
  let ?c = "(if n \<ge> 32 then 128 else 0) + n mod 32 * 4 + t"
  note f = fgetc_first [OF assms(1,3)]
  show "fgetc i = (int ?c, advance 1 i)" by (rule f(1))
  show "int ?c \<noteq> -1" by simp
  have c256: "?c < 256" using assms(1) mod_less_divisor [of 32 n] by (simp del: mod_less_divisor)
  then have u: "unat (of_int (int ?c) :: u32) = ?c" by (simp only: of_int_of_nat_eq) (rule unat_word_of_nat_id, simp)
  have split: "?c = t + (n mod 32 + (if n \<ge> 32 then 1 else 0) * 32) * 4" by simp
  have "?c mod 4 = t mod 4" "?c div 4 = n mod 32 + (if n \<ge> 32 then 1 else 0) * 32 + t div 4"
    unfolding split by (simp_all only: mod_mult_self1 div_mult_self1 zero_neq_numeral not_False_eq_True)
  then have c: "?c mod 4 = t" "?c div 4 mod 32 = n mod 32" "128 \<le> ?c \<longleftrightarrow> n div 32 \<noteq> 0"
    using assms(1) mod_less_divisor [of 32 n] by (simp_all add: div_eq_0_iff del: mod_less_divisor)
  have "unat ((of_int (int ?c) :: u32) AND 3) = unat (of_nat (?c mod 4) :: u32)" unfolding word_and_mod(3) u ..
  then show "unat ((of_int (int ?c) :: u32) AND 3) = t" unfolding c(1) using assms(1) by (simp add: unat_of_nat)
  have "unat (drop_bit 2 (of_int (int ?c) :: u32)) = ?c div 4" unfolding unat_drop_bit u by simp
  then have a: "drop_bit 2 (of_int (int ?c) :: u32) AND 0x1F = of_nat (n mod 32)" unfolding word_and_mod(2) by (simp only: c(2))
  have "n div 32 < 2 ^ (32 - 5)" using assms(2) by (simp add: less_mult_imp_div_less)
  then have "count_loop (int ?c) 5 (of_nat (n mod 32)) (advance 1 i)
    = Some (of_nat (n mod 32 + n div 32 * 2 ^ 5), advance (length (tc_tail (n div 32))) (advance 1 i))"
    using c256 c(3) f(2) by (intro count_loop_tail) simp_all
  moreover have "n mod 32 + n div 32 * 2 ^ 5 = n" using mod_div_mult_eq [of n 32] by simp
  ultimately show "count_loop (int ?c) 5 (drop_bit 2 (of_int (int ?c)) AND 0x1F) (advance 1 i) = Some (of_nat n, advance (length (type_count t n)) i)"
    unfolding a by (simp add: stdio_simps type_count_def)
qed

section \<open>The decoder on one run\<close>

definition sector_ok :: "nat \<Rightarrow> bytes \<Rightarrow> bool" where
  "sector_ok t u \<longleftrightarrow> t \<le> 3 \<and> length u = sector_size t \<and>
     (t \<noteq> 0 \<longrightarrow> (\<forall>buf. length buf = 2352 \<longrightarrow> sector_out t (reconstruct_sector t (load t (strip t u) buf)) = u))"

lemma detected_sector_ok:
  assumes "detect_sector s a = t" "a = length s" "s \<noteq> []"
  shows "sector_ok t (take (sector_size t) s)"
  using detect_sector_cases [of s a] assms sector_size_fits [OF assms(1)] rebuild_mode1 [of s a] rebuild_mode2_form1 [of s a]
    rebuild_mode2_form2 [of s a]
  by (auto simp: sector_ok_def sector_out_def sector_size_def)

lemma length_ecc_writepq [simp]: "length (ecc_writepq address d mc mn mm mi e buf) = length buf"
proof -
  have "length (fold (\<lambda>major buf. let (a, ab) = ecc_pair address (drop d buf) mc mn mm mi major
         in buf[e + major := a, e + (major + mc) := ab]) ms buf) = length buf" for ms
    by (induction ms arbitrary: buf) (simp_all add: Let_def split: prod.splits)
  then show ?thesis by (simp add: ecc_writepq_def)
qed

lemma length_reconstruct_sector: "length buf = 2352 \<Longrightarrow> length (reconstruct_sector t buf) = 2352"
  by (simp add: reconstruct_sector_def ecc_writesector_def Let_def length_overwrite sync_bytes_def)

definition dec_after :: "bytes \<Rightarrow> nat \<Rightarrow> dec_state \<Rightarrow> dec_state \<Rightarrow> bool" where
  "dec_after xs n s s' \<longleftrightarrow> d_in s' = advance n (d_in s) \<and> d_out s' = fwrite xs (d_out s)
     \<and> output_edc s' = edc_compute (output_edc s) xs \<and> length (d_buffer s') = 2352"

lemma dec_after_trans:
  "dec_after xs m s s' \<Longrightarrow> dec_after ys n s' s'' \<Longrightarrow> dec_after (xs @ ys) (m + n) s s''"
  by (simp add: dec_after_def stdio_simps)

lemma fread_at_front:
  assumes "srest (d_in s) = xs @ ys" "length xs = n"
  shows "fread_at ofs n s = (True, s\<lparr>d_in := advance n (d_in s), d_buffer := overwrite ofs xs (d_buffer s)\<rparr>)"
  using fread_front [OF assms] assms(2) by (simp add: fread_at_def)

lemma dec_literals_run:
  assumes "srest (d_in s) = xs @ ys" "length (d_buffer s) = 2352"
  shows "\<exists>s'. dec_literals (length xs) s = Cont s' \<and> dec_after xs (length xs) s s'"
  using assms
proof (induction xs arbitrary: s rule: length_induct)
  case (1 xs)
  show ?case
  proof (cases "xs = []")
    case True
    then show ?thesis using 1(3) by (simp add: dec_literals.simps dec_after_def stdio_simps)
  next
    case False
    define b where "b = (if length xs > 2352 then 2352 else length xs)"
    have b: "b \<le> length xs" "0 < b" "b \<le> 2352" using False by (auto simp: b_def)
    let ?s = "s\<lparr>d_in := advance b (d_in s), d_buffer := overwrite 0 (take b xs) (d_buffer s)\<rparr>"
    have r: "fread_at 0 b s = (True, ?s)" using 1(2) b by (intro fread_at_front [where ys = "drop b xs @ ys"]) simp_all
    have buf: "length (overwrite 0 (take b xs) (d_buffer s)) = 2352" using 1(3) b by (simp add: length_overwrite)
    have "take b (overwrite 0 (take b xs) (d_buffer s)) = take b xs" using b False by (simp add: overwrite_def)
    then have e: "dec_after (take b xs) b s (dec_emit 0 b ?s)" using buf by (simp add: dec_after_def dec_emit_def Let_def)
    have "\<exists>s'. dec_literals (length (drop b xs)) (dec_emit 0 b ?s) = Cont s' \<and> dec_after (drop b xs) (length (drop b xs)) (dec_emit 0 b ?s) s'"
      using b 1(2) e by (intro 1(1) [rule_format]) (auto simp: dec_after_def stdio_simps)
    then obtain s' where s': "dec_literals (length xs - b) (dec_emit 0 b ?s) = Cont s'" "dec_after (drop b xs) (length xs - b) (dec_emit 0 b ?s) s'"
      by auto
    have "dec_literals (length xs) s = Cont s'"
      by (subst dec_literals.simps) (simp add: b_def [symmetric] r s' False)
    then show ?thesis using dec_after_trans [OF e s'(2)] b by auto
  qed
qed

lemma length_load: "length buf = 2352 \<Longrightarrow> length pl \<le> 2332 \<Longrightarrow> 3 \<le> length pl \<Longrightarrow> length (load t pl buf) = 2352"
  by (auto simp: load_def length_overwrite)

lemma length_strip:
  "length u = sector_size t \<Longrightarrow> 0 < t \<Longrightarrow> t \<le> 3 \<Longrightarrow> length (strip t u) = (if t = 1 then 0x803 else if t = 2 then 0x804 else 0x918)"
  by (auto simp: strip_def sector_size_def)

lemma dec_sector_step:
  assumes "srest (d_in s) = strip t u @ ys" "length (d_buffer s) = 2352" "sector_ok t u" "t \<noteq> 0"
  shows "\<exists>s'. (\<forall>num. dec_sectors t (Suc num) s = dec_sectors t num s') \<and> dec_after u (length (strip t u)) s s'"
proof -
  have t: "t = 1 \<or> t = 2 \<or> t = 3" and lu: "length u = sector_size t" using assms(3,4) by (auto simp: sector_ok_def)
  let ?b = "load t (strip t u) (d_buffer s)"
  let ?s = "s\<lparr>d_in := advance (length (strip t u)) (d_in s), d_buffer := reconstruct_sector t ?b\<rparr>"
  let ?e = "if t = 1 then dec_emit 0 2352 ?s else dec_emit 0x10 2336 ?s"
  have ls: "length (strip t u) = (if t = 1 then 0x803 else if t = 2 then 0x804 else 0x918)" using length_strip [OF lu] t by auto
  then have lb: "length (reconstruct_sector t ?b) = 2352"
    using assms(2) by (intro length_reconstruct_sector length_load) auto
  have o: "sector_out t (reconstruct_sector t ?b) = u" using assms(2-4) by (simp add: sector_ok_def)
  then have "(if t = 1 then take 2352 (reconstruct_sector t ?b) else take 2336 (drop 0x10 (reconstruct_sector t ?b))) = u"
    using lb by (simp add: sector_out_def split: if_splits)
  then have "dec_after u (length (strip t u)) s ?e"
    using lb by (auto simp: dec_after_def dec_emit_def Let_def)
  moreover have "dec_sectors t (Suc num) s = dec_sectors t num ?e" for num
  proof (cases "t = 1")
    case True
    let ?x = "take 3 (strip t u)" and ?y = "drop 3 (strip t u)"
    let ?s1 = "s\<lparr>d_in := advance 3 (d_in s), d_buffer := overwrite 0x00C ?x (d_buffer s)\<rparr>"
    have "fread_at 0x00C 0x003 s = (True, ?s1)"
      using assms(1) ls True by (intro fread_at_front [where ys = "?y @ ys"]) (simp_all flip: append_assoc)
    moreover have "fread_at 0x010 0x800 ?s1 = (True, ?s1\<lparr>d_in := advance 0x800 (d_in ?s1), d_buffer := overwrite 0x010 ?y (d_buffer ?s1)\<rparr>)"
      using assms(1) ls True by (intro fread_at_front [where ys = ys]) (simp_all add: stdio_simps)
    ultimately show ?thesis using True ls by (simp add: load_def stdio_simps)
  next
    case False
    have "fread_at 0x014 (length (strip t u)) s = (True, s\<lparr>d_in := advance (length (strip t u)) (d_in s), d_buffer := overwrite 0x014 (strip t u) (d_buffer s)\<rparr>)"
      using assms(1) by (rule fread_at_front) simp
    then show ?thesis using False t ls by (auto simp: load_def)
  qed
  ultimately show ?thesis by blast
qed

lemma dec_sectors_run:
  assumes "srest (d_in s) = concat (map (strip t) us) @ ys" "length (d_buffer s) = 2352" "\<forall>u\<in>set us. sector_ok t u" "t \<noteq> 0"
  shows "\<exists>s'. dec_sectors t (length us) s = Cont s' \<and> dec_after (concat us) (length (concat (map (strip t) us))) s s'"
  using assms
proof (induction us arbitrary: s)
  case Nil
  then show ?case by (simp add: dec_after_def stdio_simps)
next
  case (Cons u us)
  then have "\<exists>s1. (\<forall>num. dec_sectors t (Suc num) s = dec_sectors t num s1) \<and> dec_after u (length (strip t u)) s s1"
    by (intro dec_sector_step [where ys = "concat (map (strip t) us) @ ys"]) simp_all
  then obtain s1 where s1: "\<And>num. dec_sectors t (Suc num) s = dec_sectors t num s1" "dec_after u (length (strip t u)) s s1" by blast
  have "\<exists>s'. dec_sectors t (length us) s1 = Cont s' \<and> dec_after (concat us) (length (concat (map (strip t) us))) s1 s'"
    using Cons.prems s1(2) by (intro Cons.IH) (simp_all add: dec_after_def stdio_simps)
  then show ?case using s1(1) dec_after_trans [OF s1(2)] by auto
qed

section \<open>The byte form of an encoded file\<close>

type_synonym sector_run = "nat \<times> bytes list"

definition enc_run :: "sector_run \<Rightarrow> bytes" where
  "enc_run r = (case r of (t, us) \<Rightarrow> type_count t (length us - 1) @ concat (map (strip t) us))"

definition enc_runs :: "sector_run list \<Rightarrow> bytes" where
  "enc_runs rs = concat (map enc_run rs)"

definition runs_data :: "sector_run list \<Rightarrow> bytes" where
  "runs_data rs = concat (map (\<lambda>(t, us). concat us) rs)"

definition run_fits :: "sector_run \<Rightarrow> bool" where
  "run_fits r \<longleftrightarrow> (case r of (t, us) \<Rightarrow> us \<noteq> [] \<and> length us < 2 ^ 32 \<and> (\<forall>u\<in>set us. sector_ok t u))"

lemma run_fits_type: "run_fits (t, us) \<Longrightarrow> t < 4"
  by (cases us) (auto simp: run_fits_def sector_ok_def)

lemma literal_units: "\<forall>u\<in>set us. sector_ok 0 u \<Longrightarrow> length (concat us) = length us \<and> concat (map (strip 0) us) = concat us"
  by (induction us) (auto simp: sector_ok_def sector_size_def strip_def)

lemma length_units: "\<forall>u\<in>set us. sector_ok t u \<Longrightarrow> length us \<le> length (concat us)"
proof (induction us)
  case (Cons u us)
  then have "0 < length u" by (auto simp: sector_ok_def sector_size_def)
  moreover have "length us \<le> length (concat us)" using Cons by simp
  ultimately show ?case by (simp del: length_greater_0_conv)
qed simp

lemma unecmify_run:
  assumes "srest (d_in s) = enc_run r @ ys" "run_fits r" "length (d_buffer s) = 2352"
  shows "\<exists>s'. unecmify_loop s = unecmify_loop s' \<and> dec_after (concat (snd r)) (length (enc_run r)) s s'"
proof -
  obtain t us where r: "r = (t, us)" by (cases r)
  then have us: "us \<noteq> []" "length us < 2 ^ 32" "\<forall>u\<in>set us. sector_ok t u" using assms(2) by (simp_all add: run_fits_def)
  let ?n = "length us - 1" and ?p = "concat (map (strip t) us)"
  have rest: "srest (d_in s) = type_count t ?n @ ?p @ ys" using assms(1) r by (simp add: enc_run_def)
  have "?n < 2 ^ 32" using us(2) by simp
  from read_type_count [OF run_fits_type [OF assms(2) [unfolded r]] this rest] obtain c where
    c: "fgetc (d_in s) = (c, advance 1 (d_in s))" "c \<noteq> -1" "unat ((of_int c :: u32) AND 3) = t"
    "count_loop c 5 (drop_bit 2 (of_int c) AND 0x1F) (advance 1 (d_in s)) = Some (of_nat ?n, advance (length (type_count t ?n)) (d_in s))"
    by blast
  define s1 where "s1 = s\<lparr>d_in := advance (length (type_count t ?n)) (d_in s)\<rparr>"
  have s1: "dec_after [] (length (type_count t ?n)) s s1" "srest (d_in s1) = ?p @ ys" "length (d_buffer s1) = 2352"
    using rest assms(3) by (simp_all add: s1_def dec_after_def stdio_simps)
  have "\<exists>s'. (if t = 0 then dec_literals (length us) s1 else dec_sectors t (length us) s1) = Cont s' \<and> dec_after (concat us) (length ?p) s1 s'"
    using dec_sectors_run [OF s1(2,3) us(3)] dec_literals_run [of s1 "concat us" ys] s1(2,3) literal_units [of us] us(3) by auto
  then obtain s' where s': "(if t = 0 then dec_literals (length us) s1 else dec_sectors t (length us) s1) = Cont s'"
    "dec_after (concat us) (length ?p) s1 s'" by blast
  have num: "(of_nat ?n :: u32) \<noteq> 0xFFFFFFFF" "unat (of_nat ?n + 1 :: u32) = length us"
  proof -
    have "(of_nat ?n + 1 :: u32) = of_nat (length us)" using us(1) by (simp add: of_nat_diff Suc_le_eq)
    then show "unat (of_nat ?n + 1 :: u32) = length us" using us(2) by (simp only: unat_word_of_nat_id len_num1 len_bit0) simp
    then have "(of_nat ?n + 1 :: u32) \<noteq> 0" using us(1) by (metis length_0_conv unat_0)
    then show "(of_nat ?n :: u32) \<noteq> 0xFFFFFFFF" by auto
  qed
  have "unecmify_loop s = unecmify_loop s'"
    using s'(1) num c by (subst unecmify_loop.simps) (simp only: Let_def prod.case option.case ctl.case if_False s1_def [symmetric])
  then show ?thesis using dec_after_trans [OF s1(1) s'(2)] r by (auto simp: enc_run_def)
qed

lemma unecmify_runs:
  assumes "srest (d_in s) = enc_runs rs @ type_count 0 (2 ^ 32 - 1) @ ys" "\<forall>r\<in>set rs. run_fits r" "length (d_buffer s) = 2352"
  shows "\<exists>s'. unecmify_loop s = Cont s' \<and> dec_after (runs_data rs) (length (enc_runs rs @ type_count 0 (2 ^ 32 - 1))) s s'"
  using assms
proof (induction rs arbitrary: s)
  case Nil
  then have "srest (d_in s) = type_count 0 (2 ^ 32 - 1) @ ys" by (simp add: enc_runs_def)
  from read_type_count [OF _ _ this] obtain c where
    "fgetc (d_in s) = (c, advance 1 (d_in s))" "c \<noteq> -1"
    "count_loop c 5 (drop_bit 2 (of_int c) AND 0x1F) (advance 1 (d_in s))
      = Some (of_nat (2 ^ 32 - 1), advance (length (type_count 0 (2 ^ 32 - 1))) (d_in s))" by auto
  moreover have "(of_nat (2 ^ 32 - 1) :: u32) = 0xFFFFFFFF" by simp
  ultimately have "unecmify_loop s = Cont (s\<lparr>d_in := advance (length (type_count 0 (2 ^ 32 - 1))) (d_in s)\<rparr>)"
    by (subst unecmify_loop.simps) (simp only: prod.case Let_def option.case if_False if_True simp_thms)
  then show ?case using Nil(3) by (simp add: dec_after_def enc_runs_def runs_data_def stdio_simps)
next
  case (Cons r rs)
  then have "\<exists>s1. unecmify_loop s = unecmify_loop s1 \<and> dec_after (concat (snd r)) (length (enc_run r)) s s1"
    by (intro unecmify_run [where ys = "enc_runs rs @ type_count 0 (2 ^ 32 - 1) @ ys"]) (simp_all add: enc_runs_def)
  then obtain s1 where s1: "unecmify_loop s = unecmify_loop s1" "dec_after (concat (snd r)) (length (enc_run r)) s s1" by blast
  have "\<exists>s'. unecmify_loop s1 = Cont s' \<and> dec_after (runs_data rs) (length (enc_runs rs @ type_count 0 (2 ^ 32 - 1))) s1 s'"
    using Cons.prems s1(2) by (intro Cons.IH) (simp_all add: dec_after_def enc_runs_def stdio_simps)
  then show ?case using s1(1) dec_after_trans [OF s1(2)] by (auto simp: enc_runs_def runs_data_def add.assoc split: prod.splits)
qed

section \<open>The encoder on one run\<close>

text \<open>What writing a run does: the input file is only read, the output grows by some bytes.\<close>

definition enc_after :: "bytes \<Rightarrow> enc_state \<Rightarrow> enc_state \<Rightarrow> bool" where
  "enc_after ys s s' \<longleftrightarrow> sdata (e_in s') = sdata (e_in s) \<and> e_out s' = fwrite ys (e_out s) \<and> length (e_buffer s') = 2352"

lemma enc_after_trans: "enc_after xs s s' \<Longrightarrow> enc_after ys s' s'' \<Longrightarrow> enc_after (xs @ ys) s s''"
  by (simp add: enc_after_def stdio_simps)

lemma write_literals_run:
  assumes "srest (e_in s) = xs @ zs" "length (e_buffer s) = 2352"
  shows "\<exists>s'. write_literals (length xs) s = Cont s' \<and> enc_after xs s s'"
  using assms
proof (induction xs arbitrary: s rule: length_induct)
  case (1 xs)
  show ?case
  proof (cases "xs = []")
    case True
    then show ?thesis using 1(3) by (simp add: write_literals.simps enc_after_def stdio_simps)
  next
    case False
    define b where "b = (if length xs > 2352 then 2352 else length xs)"
    have b: "b \<le> length xs" "0 < b" "b \<le> 2352" using False by (auto simp: b_def)
    have r: "fread_into (e_buffer s) b (e_in s) = (b, take b xs @ drop b (e_buffer s), advance b (e_in s))"
      using 1(2) b by (intro fread_into_front [where ys = "drop b xs @ zs"]) simp_all
    define s1 where "s1 = s\<lparr>e_in := advance b (e_in s), e_buffer := take b xs @ drop b (e_buffer s), e_out := fwrite (take b xs) (e_out s)\<rparr>"
    have e: "enc_after (take b xs) s s1" using b 1(3) by (simp add: enc_after_def s1_def stdio_simps)
    have "\<exists>s'. write_literals (length (drop b xs)) s1 = Cont s' \<and> enc_after (drop b xs) s1 s'"
      using b 1(2,3) by (intro 1(1) [rule_format]) (auto simp: s1_def stdio_simps)
    then obtain s' where s': "write_literals (length xs - b) s1 = Cont s'" "enc_after (drop b xs) s1 s'" by auto
    have "write_literals (length xs) s = Cont s'"
      using False b by (subst write_literals.simps) (simp add: b_def [symmetric] r s' s1_def [symmetric])
    then show ?thesis using enc_after_trans [OF e s'(2)] by auto
  qed
qed

lemma write_kept_run:
  assumes "srest (e_in s) = concat us @ zs" "length (e_buffer s) = 2352" "\<forall>u\<in>set us. sector_ok t u" "t \<noteq> 0"
  shows "\<exists>s'. write_kept t (length us) s = Cont s' \<and> enc_after (concat (map (strip t) us)) s s'"
  using assms
proof (induction us arbitrary: s)
  case Nil
  then show ?case by (simp add: enc_after_def stdio_simps)
next
  case (Cons u us)
  let ?w = "if t = 1 then 2352 else 2336 :: nat"
  have t: "t = 1 \<or> t = 2 \<or> t = 3" and lu: "length u = ?w" using Cons.prems by (auto simp: sector_ok_def sector_size_def)
  have r: "fread_into (e_buffer s) ?w (e_in s) = (?w, u @ drop ?w (e_buffer s), advance ?w (e_in s))"
    using Cons.prems lu by (intro fread_into_front [where ys = "concat us @ zs"]) simp_all
  define s1 where "s1 = s\<lparr>e_in := advance ?w (e_in s), e_buffer := u @ drop ?w (e_buffer s), e_out := fwrite (strip t u) (e_out s)\<rparr>"
  have e: "enc_after (strip t u) s s1" using lu Cons.prems(2) by (simp add: enc_after_def s1_def stdio_simps)
  have "\<exists>s'. write_kept t (length us) s1 = Cont s' \<and> enc_after (concat (map (strip t) us)) s1 s'"
    using Cons.prems lu by (intro Cons.IH) (simp_all add: s1_def stdio_simps)
  then obtain s' where s': "write_kept t (length us) s1 = Cont s'" "enc_after (concat (map (strip t) us)) s1 s'" by blast
  have "write_kept t (length (u # us)) s = write_kept t (length us) s1"
    using t lu r by (auto simp: s1_def strip_def stdio_simps)
  then show ?case using s' enc_after_trans [OF e] by auto
qed

lemma write_sectors_run:
  assumes "srest (e_in s) = concat us @ zs" "length (e_buffer s) = 2352" "run_fits (t, us)"
  shows "\<exists>s'. write_sectors t (length us) s = Cont s' \<and> enc_after (enc_run (t, us)) s s'"
proof -
  have us: "us \<noteq> []" "length us < 2 ^ 32" "\<forall>u\<in>set us. sector_ok t u" using assms(3) by (simp_all add: run_fits_def)
  have "(of_nat (length us) - 1 :: u32) = of_nat (length us - 1)" using us(1) by (simp add: of_nat_diff Suc_le_eq)
  then have n: "unat (of_nat (length us) - 1 :: u32) = length us - 1" using us(2) by (simp only:) (rule unat_word_of_nat_id, simp)
  define s1 where "s1 = s\<lparr>e_out := write_type_count (e_out s) t (of_nat (length us)), e_myError := 1\<rparr>"
  have e: "enc_after (type_count t (length us - 1)) s s1"
    using assms(2) run_fits_type [OF assms(3)] n by (simp add: s1_def enc_after_def write_type_count_bytes)
  have "srest (e_in s1) = concat us @ zs" "length (e_buffer s1) = 2352" using assms by (simp_all add: s1_def)
  note r = write_kept_run [OF this us(3)] write_literals_run [OF this]
  have "\<exists>s'. (if t = 0 then write_literals (length us) s1 else write_kept t (length us) s1) = Cont s' \<and> enc_after (concat (map (strip t) us)) s1 s'"
    using r literal_units [of us] us(3) by auto
  then show ?thesis using enc_after_trans [OF e]
    by (auto simp: write_sectors_def s1_def [symmetric] Let_def enc_run_def)
qed

section \<open>The invariant of the encoder\<close>

text \<open>
  The queue is a window of the input behind the checked part, the checksum covers what was queued.  The runs
  written so far and the current run together hold the checked part of the input.
\<close>

definition window_inv :: "bytes \<Rightarrow> enc_loop \<Rightarrow> bool" where
  "window_inv f q \<longleftrightarrow> input_bytes_checked q \<le> input_bytes_queued q \<and> input_bytes_queued q \<le> length f
     \<and> queue q = take (input_bytes_queued q - input_bytes_checked q) (drop (input_bytes_checked q) f)
     \<and> input_edc q = edc_compute 0 (take (input_bytes_queued q) f)"

definition run_inv :: "bytes \<Rightarrow> stream \<Rightarrow> enc_state \<Rightarrow> enc_loop \<Rightarrow> sector_run list \<Rightarrow> bytes list \<Rightarrow> bool" where
  "run_inv f out s q rs us \<longleftrightarrow> sdata (e_in s) = f \<and> length (e_buffer s) = 2352 \<and> e_out s = fwrite (enc_runs rs) out
     \<and> (\<forall>r\<in>set rs. run_fits r) \<and> runs_data rs @ concat us = take (input_bytes_checked q) f
     \<and> curtype_in_start q = length (runs_data rs) \<and> curtype_count q = length us
     \<and> (if us = [] then curtype q = -1 else 0 \<le> curtype q \<and> (\<forall>u\<in>set us. sector_ok (nat (curtype q)) u))"

lemma length_queue: "window_inv f q \<Longrightarrow> length (queue q) = input_bytes_queued q - input_bytes_checked q"
  by (auto simp: window_inv_def)

lemma refill_keeps:
  assumes "window_inv f q" "sdata (e_in s) = f"
  shows "\<exists>s' q'. refill (length f) s q = Some (s', q') \<and> window_inv f q' \<and> (queue q' = [] \<longrightarrow> input_bytes_checked q' = length f)
    \<and> (\<forall>out rs us. run_inv f out s q rs us \<longrightarrow> run_inv f out s' q' rs us) \<and> sdata (e_in s') = f"
proof -
  have w: "input_bytes_checked q \<le> input_bytes_queued q" "input_bytes_queued q \<le> length f"
    "queue q = take (input_bytes_queued q - input_bytes_checked q) (drop (input_bytes_checked q) f)"
    "input_edc q = edc_compute 0 (take (input_bytes_queued q) f)" using assms(1) by (simp_all add: window_inv_def)
  note lq = length_queue [OF assms(1)]
  show ?thesis
  proof (cases "length (queue q) < 2352 \<and> int (length (queue q)) < int (length f) - int (input_bytes_queued q)")
    case False
    then have "queue q = [] \<longrightarrow> input_bytes_checked q = length f" using lq w(1,2) by auto
    moreover have "refill (length f) s q = Some (s, q)" by (simp only: refill_def if_not_P [OF False])
    ultimately show ?thesis using assms by blast
  next
    case True
    define n where "n = min (length f - input_bytes_queued q) (0x40000 - length (queue q))"
    have n: "0 < n" "input_bytes_queued q + n \<le> length f" using True w(2) by (auto simp: n_def)
    let ?i = "(e_in s)\<lparr>spos := input_bytes_queued q, seof := False\<rparr>" and ?d = "take n (drop (input_bytes_queued q) f)"
    have rest: "srest ?i = drop (input_bytes_queued q) f" using assms(2) by (simp add: srest_def)
    have fr: "fread n ?i = (?d, advance n ?i)" using n fread_enough [of n ?i] rest by simp
    define q' where "q' = q\<lparr>queue := queue q @ ?d, input_edc := edc_compute (input_edc q) ?d, input_bytes_queued := input_bytes_queued q + n\<rparr>"
    have "refill (length f) s q = Some (s\<lparr>e_in := advance n ?i\<rparr>, q')"
      using True n fr by (simp add: refill_def Let_def n_def [symmetric] q'_def fseek_set_nonneg)
    moreover have "input_bytes_queued q + n - input_bytes_checked q = (input_bytes_queued q - input_bytes_checked q) + n" using w(1) by simp
    then have "queue q @ ?d = take (input_bytes_queued q + n - input_bytes_checked q) (drop (input_bytes_checked q) f)"
      using w(1) by (simp only: w(3) take_add drop_drop le_add_diff_inverse2)
    then have "window_inv f q'" using w n by (simp add: window_inv_def q'_def take_add)
    moreover have "queue q' \<noteq> []" using n by (simp add: q'_def)
    moreover have "run_inv f out (s\<lparr>e_in := advance n ?i\<rparr>) q' rs us" if "run_inv f out s q rs us" for out rs us
      using that assms(2) by (simp add: run_inv_def q'_def stdio_simps)
    ultimately show ?thesis using assms(2) by (auto simp: stdio_simps)
  qed
qed

lemma detect_next_ok:
  assumes "detect_next q = (d, q')" "queue q \<noteq> []"
  shows "0 \<le> d" "sector_ok (nat d) (take (sector_size (nat d)) (queue q))"
proof -
  have lit: "sector_ok 0 (take (sector_size 0) (queue q))" using assms(2) by (cases "queue q") (simp_all add: sector_ok_def sector_size_def)
  then show "0 \<le> d" "sector_ok (nat d) (take (sector_size (nat d)) (queue q))"
    using assms detected_sector_ok [of "queue q" "length (queue q)"] by (auto simp: detect_next_def split: if_splits)
qed

lemma run_inv_fits:
  assumes "run_inv f out s q rs us" "us \<noteq> []" "length f < 2 ^ 31"
  shows "run_fits (nat (curtype q), us)"
proof -
  have ok: "\<forall>u\<in>set us. sector_ok (nat (curtype q)) u" and t: "runs_data rs @ concat us = take (input_bytes_checked q) f"
    using assms(1,2) by (simp_all add: run_inv_def)
  have "length us \<le> length (runs_data rs @ concat us)" using length_units [OF ok] by simp
  also have "\<dots> \<le> length f" unfolding t by simp
  finally show ?thesis using ok assms(2,3) by (simp add: run_fits_def)
qed

lemma run_inv_flush:
  assumes "run_inv f out s q rs us" "us \<noteq> []" "length f < 2 ^ 31"
  shows "\<exists>s'. write_sectors (nat (curtype q)) (curtype_count q) (s\<lparr>e_in := snd (fseek_set (int (curtype_in_start q)) (e_in s))\<rparr>) = Cont s'
    \<and> sdata (e_in s') = f \<and> length (e_buffer s') = 2352 \<and> e_out s' = fwrite (enc_runs (rs @ [(nat (curtype q), us)])) out
    \<and> (\<forall>r\<in>set (rs @ [(nat (curtype q), us)]). run_fits r)"
proof -
  have i: "sdata (e_in s) = f" "length (e_buffer s) = 2352" "e_out s = fwrite (enc_runs rs) out" "curtype_count q = length us"
    "curtype_in_start q = length (runs_data rs)" "runs_data rs @ concat us = take (input_bytes_checked q) f" "\<forall>r\<in>set rs. run_fits r"
    using assms(1) by (simp_all add: run_inv_def)
  have fit: "run_fits (nat (curtype q), us)" by (rule run_inv_fits [OF assms])
  let ?s = "s\<lparr>e_in := snd (fseek_set (int (curtype_in_start q)) (e_in s))\<rparr>"
  have "f = runs_data rs @ concat us @ drop (input_bytes_checked q) f" using i(6) by (metis append_assoc append_take_drop_id)
  then have "srest (e_in ?s) = concat us @ drop (input_bytes_checked q) f"
    using i(1,5) by (simp add: fseek_set_nonneg srest_def) (metis append_eq_conv_conj)
  then have "\<exists>s'. write_sectors (nat (curtype q)) (length us) ?s = Cont s' \<and> enc_after (enc_run (nat (curtype q), us)) ?s s'"
    using i(2) by (intro write_sectors_run [OF _ _ fit]) simp_all
  then show ?thesis using i fit by (auto simp: enc_after_def enc_runs_def stdio_simps fseek_set_nonneg)
qed

lemma window_advance:
  assumes "window_inv f q" "n \<le> length (queue q)" "n = sectorsize (nat (curtype q))"
  shows "window_inv f (advance_sector q)" "take (input_bytes_checked (advance_sector q)) f = take (input_bytes_checked q) f @ take n (queue q)"
proof -
  note lq = length_queue [OF assms(1)]
  have w: "input_bytes_checked q \<le> input_bytes_queued q" "input_bytes_queued q \<le> length f"
    "queue q = take (input_bytes_queued q - input_bytes_checked q) (drop (input_bytes_checked q) f)"
    "input_edc q = edc_compute 0 (take (input_bytes_queued q) f)" using assms(1) by (simp_all add: window_inv_def)
  then show "window_inv f (advance_sector q)"
    using assms(2,3) lq by (simp add: window_inv_def advance_sector_def Let_def drop_take add.commute)
  have "take n (queue q) = take n (drop (input_bytes_checked q) f)" using assms(2) lq w(3) by (metis min.absorb1 take_take)
  then show "take (input_bytes_checked (advance_sector q)) f = take (input_bytes_checked q) f @ take n (queue q)"
    using assms(3) by (simp add: advance_sector_def Let_def take_add)
qed

text \<open>One round of the loop on a sector.\<close>

lemma same_or_flush_sector:
  assumes "run_inv f out s q rs us" "window_inv f q" "length f < 2 ^ 31" "0 \<le> d"
    and u: "sector_ok (nat d) u" "u = take (sector_size (nat d)) (queue q)"
  shows "\<exists>s' q'. same_or_flush d s q = Cont (s', q') \<and> curtype q' = d \<and> window_inv f (advance_sector q')
    \<and> (\<exists>rs us. run_inv f out s' (advance_sector q') rs us)"
proof -
  have d3: "nat d \<le> 3" "sectorsize (nat d) = sector_size (nat d)" "sector_size (nat d) \<le> length (queue q)"
    using u by (auto simp: sector_ok_def sectorsize_def sector_size_def nth_Cons' split: if_splits)
  have adv: "window_inv f (advance_sector q') \<and> take (input_bytes_checked (advance_sector q')) f = take (input_bytes_checked q) f @ u"
    if "curtype q' = d" "queue q' = queue q" "input_bytes_checked q' = input_bytes_checked q" "window_inv f q'" for q'
    using window_advance [OF that(4), of "sector_size (nat d)"] d3(2,3) unfolding that(1-3) u(2) by metis
  have i: "sdata (e_in s) = f" "length (e_buffer s) = 2352" "e_out s = fwrite (enc_runs rs) out" "curtype_count q = length us"
    "curtype_in_start q = length (runs_data rs)" "runs_data rs @ concat us = take (input_bytes_checked q) f" "\<forall>r\<in>set rs. run_fits r"
    using assms(1) by (simp_all add: run_inv_def)
  show ?thesis
  proof (cases "d = curtype q \<and> curtype_count q \<le> 0x7FFFFFFF")
    case True
    let ?q = "q\<lparr>curtype_count := curtype_count q + 1\<rparr>"
    have "us \<noteq> []" using True assms(1,4) by (auto simp: run_inv_def)
    moreover have "window_inv f ?q" using assms(2) by (simp add: window_inv_def)
    ultimately have "run_inv f out s (advance_sector ?q) rs (us @ [u])"
      using adv [of ?q] True assms(1) u(1) by (simp add: run_inv_def advance_sector_def Let_def flip: append_assoc)
    then show ?thesis using adv [of ?q] True \<open>window_inv f ?q\<close> by (auto simp: same_or_flush_def)
  next
    case False
    let ?q = "q\<lparr>curtype := d, curtype_in_start := input_bytes_checked q, curtype_count := 1\<rparr>"
    let ?rs = "if us = [] then rs else rs @ [(nat (curtype q), us)]"
    have w: "window_inv f ?q" using assms(2) by (simp add: window_inv_def)
    have "\<exists>s'. (if curtype_count q > 0
              then let (_, i) = fseek_set (int (curtype_in_start q)) (e_in s)
                   in write_sectors (nat (curtype q)) (curtype_count q) (s\<lparr>e_in := i\<rparr>)
              else Cont s) = Cont s' \<and> sdata (e_in s') = f \<and> length (e_buffer s') = 2352 \<and> e_out s' = fwrite (enc_runs ?rs) out
              \<and> (\<forall>r\<in>set ?rs. run_fits r)"
      using run_inv_flush [OF assms(1) _ assms(3)] i by (cases "us = []") (auto simp: fseek_set_nonneg)
    then obtain s' where s': "same_or_flush d s q = Cont (s', ?q)" "sdata (e_in s') = f" "length (e_buffer s') = 2352"
      "e_out s' = fwrite (enc_runs ?rs) out" "\<forall>r\<in>set ?rs. run_fits r"
      using False by (auto simp: same_or_flush_def)
    have data: "runs_data ?rs = take (input_bytes_checked q) f" using i(6) by (auto simp: runs_data_def)
    have "input_bytes_checked q \<le> length f" using assms(2) by (simp add: window_inv_def)
    then have "run_inv f out s' (advance_sector ?q) ?rs [u]"
      using adv [of ?q] s'(2-5) data u(1) w assms(4) by (simp add: run_inv_def advance_sector_def Let_def)
    then show ?thesis using s'(1) adv [of ?q] w by (auto simp: same_or_flush_def)
  qed
qed

text \<open>The last round.\<close>

lemma same_or_flush_end:
  assumes "run_inv f out s q rs us" "window_inv f q" "length f < 2 ^ 31" "input_bytes_checked q = length f"
  shows "\<exists>s' q' rs'. same_or_flush (-1) s q = Cont (s', q') \<and> e_out s' = fwrite (enc_runs rs') out \<and> (\<forall>r\<in>set rs'. run_fits r)
    \<and> runs_data rs' = f \<and> input_edc q' = edc_compute 0 f \<and> length (e_buffer s') = 2352 \<and> curtype q' = -1"
proof -
  have i: "runs_data rs @ concat us = f" "curtype_count q = length us" "input_edc q = edc_compute 0 f"
    using assms by (simp_all add: run_inv_def window_inv_def)
  show ?thesis
  proof (cases "us = []")
    case True
    then show ?thesis using assms(1) i by (auto simp: run_inv_def same_or_flush_def)
  next
    case False
    then have "curtype q \<noteq> -1" using assms(1) by (auto simp: run_inv_def)
    moreover have "runs_data (rs @ [(nat (curtype q), us)]) = f" using i(1) by (simp add: runs_data_def)
    moreover obtain s' where
      "write_sectors (nat (curtype q)) (curtype_count q) (s\<lparr>e_in := snd (fseek_set (int (curtype_in_start q)) (e_in s))\<rparr>) = Cont s'"
      "length (e_buffer s') = 2352" "e_out s' = fwrite (enc_runs (rs @ [(nat (curtype q), us)])) out"
      "\<forall>r\<in>set (rs @ [(nat (curtype q), us)]). run_fits r"
      using run_inv_flush [OF assms(1) False assms(3)] by blast
    ultimately show ?thesis using i(2,3) False
      by (intro exI [of _ s'] exI [of _ "q\<lparr>curtype := -1, curtype_in_start := input_bytes_checked q, curtype_count := 1\<rparr>"]
          exI [of _ "rs @ [(nat (curtype q), us)]"]) (simp add: same_or_flush_def fseek_set_nonneg)
  qed
qed

lemma ecmify_loop_ok:
  assumes "window_inv f q" "run_inv f out s q rs us" "length f < 2 ^ 31"
  shows "\<exists>s' q' rs'. ecmify_loop (length f) s q = Cont (s', q') \<and> e_out s' = fwrite (enc_runs rs') out \<and> (\<forall>r\<in>set rs'. run_fits r)
    \<and> runs_data rs' = f \<and> input_edc q' = edc_compute 0 f \<and> length (e_buffer s') = 2352"
  using assms
proof (induction "(length f - input_bytes_queued q) + length (queue q)" arbitrary: s q rs us rule: less_induct)
  case less
  have "sdata (e_in s) = f" using less.prems(2) by (simp add: run_inv_def)
  from refill_keeps [OF less.prems(1) this] obtain s1 q1 where
    r: "refill (length f) s q = Some (s1, q1)" "window_inv f q1" "queue q1 = [] \<Longrightarrow> input_bytes_checked q1 = length f" "run_inv f out s1 q1 rs us"
    using less.prems(2) by blast
  obtain d q2 where d: "detect_next q1 = (d, q2)" by fastforce
  note facts = detect_next_facts [OF d]
  have i2: "window_inv f q2" "run_inv f out s1 q2 rs us" using r facts by (simp_all add: window_inv_def run_inv_def)
  show ?case
  proof (cases "queue q1 = []")
    case True
    then have "d = -1" "input_bytes_checked q2 = length f" using facts r(3) by simp_all
    then show ?thesis using same_or_flush_end [OF i2(2,1) less.prems(3)] r(1) d by (subst ecmify_loop.simps) auto
  next
    case False
    note ok = detect_next_ok [OF d False]
    from same_or_flush_sector [OF i2(2,1) less.prems(3) ok(1,2)] facts(1) obtain s3 q3 rs' us' where
      s3: "same_or_flush d s1 q2 = Cont (s3, q3)" "curtype q3 = d" "window_inv f (advance_sector q3)" "run_inv f out s3 (advance_sector q3) rs' us'"
      by auto
    have "\<not> curtype q3 < 0" using s3(2) ok(1) by simp
    note m = ecmify_step_measure [OF r(1) d s3(1) this]
    have "ecmify_loop (length f) s q = ecmify_loop (length f) s3 (advance_sector q3)"
      using r(1) d s3 ok(1) by (subst ecmify_loop.simps) simp
    then show ?thesis using less.hyps [OF m s3(3,4) less.prems(3)] by simp
  qed
qed

section \<open>Whole files\<close>

lemma take4_put32lsb:
  assumes "4 \<le> length buf"
  shows "take 4 (put32lsb 0 v buf) = [ucast v, ucast (drop_bit 8 v), ucast (drop_bit 16 v), ucast (drop_bit 24 v)]"
proof -
  have "buf \<noteq> []" using assms by auto
  then show ?thesis using assms list_eq_nth4 [of "take 4 (put32lsb 0 v buf)"] by (simp add: put32lsb_def nth_list_update)
qed

lemma get32lsb_put32lsb: "4 \<le> length buf \<Longrightarrow> get32lsb (overwrite 0 (take 4 (put32lsb 0 v buf)) buf') = v"
  using word_le4_bytes [of v, folded word_le4] by (simp add: take4_put32lsb get32lsb_def overwrite_def del: drop_bit_drop_bit)

definition ecm_file :: "sector_run list \<Rightarrow> u32 \<Rightarrow> bytes" where
  "ecm_file rs edc = [0x45, 0x43, 0x4D, 0x00] @ enc_runs rs @ type_count 0 (2 ^ 32 - 1) @ take 4 (put32lsb 0 edc (replicate 4 0))"

lemma take_put32lsb: "4 \<le> length buf \<Longrightarrow> take 4 (put32lsb 0 v buf) = take 4 (put32lsb 0 v (replicate 4 0))"
  by (simp only: take4_put32lsb length_replicate order.refl)

lemma ecmify_writes:
  assumes "content fs a = Some f" "content fs b = None" "writable fs b" "length f < 2 ^ 31" "length buf = 2352"
  shows "\<exists>rs. (\<forall>r\<in>set rs. run_fits r) \<and> runs_data rs = f \<and>
    ecmify buf err a b fs = (0, 1, put_file b (ecm_file rs (edc_compute 0 f)) fs)"
proof -
  let ?in = "(sopen f)\<lparr>spos := length f, seof := False\<rparr>"
  let ?out = "fputc 0x00 (fputc 0x4D (fputc 0x43 (fputc 0x45 (sopen []))))"
  let ?s = "\<lparr>e_in = ?in, e_out = ?out, e_buffer = buf, e_myError = err\<rparr>"
  have "window_inv f enc_start" "run_inv f ?out ?s enc_start [] []"
    using assms(5) by (simp_all add: window_inv_def run_inv_def enc_start_def enc_runs_def runs_data_def stdio_simps)
  from ecmify_loop_ok [OF this assms(4)] obtain s q rs where
    l: "ecmify_loop (length f) ?s enc_start = Cont (s, q)" "e_out s = fwrite (enc_runs rs) ?out" "\<forall>r\<in>set rs. run_fits r" "runs_data rs = f"
    "input_edc q = edc_compute 0 f" "length (e_buffer s) = 2352" by blast
  have fin: "write_type_count out 0 0 = fwrite (type_count 0 (2 ^ 32 - 1)) out" for out
    by (subst write_type_count_bytes) (simp_all add: unsigned_minus_1_eq_mask mask_eq_exp_minus_1)
  have "sdata (fwrite (take 4 (put32lsb 0 (input_edc q) (e_buffer s))) (write_type_count (e_out s) 0 0)) = ecm_file rs (edc_compute 0 f)"
    unfolding fin l(2,5) take_put32lsb [of "e_buffer s", unfolded l(6), simplified]
    by (simp add: fputc_def stdio_simps overwrite_def ecm_file_def)
  then have "ecmify buf err a b fs = (0, 1, put_file b (ecm_file rs (edc_compute 0 f)) fs)"
    using assms l(1) by (simp add: ecmify_def fopen_rb_def fopen_wb_def fseek_end_0 ftell_def sdata_sopen fclose_to_def put_file_put_file Let_def)
  then show ?thesis using l(3,4) by blast
qed

text \<open>The encoded file is at most about twice as long: enough for the position to fit 31 bits.\<close>

lemma length_tc_tail: "n < 128 ^ k \<Longrightarrow> length (tc_tail n) \<le> k"
proof (induction k arbitrary: n)
  case (Suc k)
  then have "n div 128 < 128 ^ k" by (simp add: less_mult_imp_div_less mult.commute)
  from Suc.IH [OF this] show ?case by (simp add: tc_tail.simps [of n])
qed (simp add: tc_tail.simps)

lemma length_tc_tail_le: "length (tc_tail n) \<le> n"
proof (induction n rule: tc_tail.induct)
  case (1 n)
  show ?case
  proof (cases "n = 0")
    case False
    then have "length (tc_tail n) = Suc (length (tc_tail (n div 128)))" "n div 128 < n" by (simp_all add: tc_tail.simps [of n])
    then show ?thesis using 1 [OF False] by linarith
  qed (simp add: tc_tail.simps)
qed

lemma length_type_count_le: "length (type_count t n) \<le> Suc n"
  using length_tc_tail_le [of "n div 32"] div_le_dividend [of n 32] by (simp add: type_count_def)

lemma length_enc_run: "run_fits r \<Longrightarrow> length (enc_run r) \<le> 2 * length (concat (snd r))"
proof -
  assume r: "run_fits r"
  obtain t us where r': "r = (t, us)" by (cases r)
  have us: "us \<noteq> []" "\<forall>u\<in>set us. sector_ok t u" using r r' by (simp_all add: run_fits_def)
  have "length (type_count t (length us - 1)) \<le> length us"
    using length_type_count_le [of t "length us - 1"] us(1) by (simp add: Suc_le_eq)
  moreover have "length (concat (map (strip t) us)) \<le> length (concat us)"
    using us(2)
  proof (induction us)
    case (Cons u us)
    have "length (strip t u) \<le> length u" by (auto simp: strip_def)
    then show ?case using Cons by simp
  qed simp
  ultimately show ?thesis using length_units [OF us(2)] r' by (simp add: enc_run_def)
qed

lemma length_enc_runs: "\<forall>r\<in>set rs. run_fits r \<Longrightarrow> length (enc_runs rs) \<le> 2 * length (runs_data rs)"
proof (induction rs)
  case (Cons r rs)
  then show ?case using length_enc_run [of r] by (cases r) (simp add: enc_runs_def runs_data_def)
qed (simp add: enc_runs_def)

lemma length_ecm_file:
  assumes "\<forall>r\<in>set rs. run_fits r" "length (runs_data rs) < 2 ^ 30 - 8"
  shows "length (ecm_file rs edc) < 2 ^ 31"
proof -
  have "length (type_count 0 (2 ^ 32 - 1)) \<le> 6" using length_tc_tail [of "(2 ^ 32 - 1) div 32" 5] by (simp add: type_count_def)
  then show ?thesis using length_enc_runs [OF assms(1)] assms(2) by (simp add: ecm_file_def)
qed

lemma unecmify_start:
  assumes "content fs a = Some d" "content fs b = None" "writable fs b" "length d < 2 ^ 31"
    and d: "d = 0x45 # 0x43 # 0x4D # 0x00 # body"
  shows "unecmify buf a b fs =
    (case unecmify_loop \<lparr>d_in = advance 4 (sopen d), d_out = sopen [], d_buffer = buf, output_edc = 0\<rparr> of
       Leave n s \<Rightarrow> (n, put_file b (sdata (d_out s)) fs)
     | Cont s \<Rightarrow> let (ok, s) = fread_at 0 4 s
                in (if \<not> ok \<or> get32lsb (d_buffer s) \<noteq> output_edc s then 4 else 0, put_file b (sdata (d_out s)) fs))"
proof -
  have r: "srest (advance k (sopen d)) = drop k d" for k by (simp add: stdio_simps)
  have g: "fgetc (sopen d) = (0x45, advance 1 (sopen d))" "fgetc (advance 1 (sopen d)) = (0x43, advance 2 (sopen d))"
    "fgetc (advance 2 (sopen d)) = (0x4D, advance 3 (sopen d))" "fgetc (advance 3 (sopen d)) = (0, advance 4 (sopen d))"
    using r [of 0] r [of 1] r [of 2] r [of 3] d by (simp_all add: fgetc_front stdio_simps)
  have o: "fopen_rb b fs = None" "fopen_rb a fs = Some (sopen d)" "fopen_wb b fs = Some (sopen [], put_file b [] fs)"
    using assms(1-3) by (simp_all add: fopen_rb_def fopen_wb_def)
  have t: "ftell ((sopen d)\<lparr>spos := length d, seof := False\<rparr>) = int (length d)" using assms(4) by (simp add: ftell_def)
  have s: "fseek_set 0 ((sopen d)\<lparr>spos := length d, seof := False\<rparr>) = (0, sopen d)"
    by (simp add: fseek_set_nonneg sopen_def)
  show ?thesis
    by (simp add: unecmify_def o fseek_end_0 sdata_sopen t s g g(1,2) [unfolded One_nat_def] fclose_to_def stdio_simps split: ctl.split)
qed

text \<open>Decoding a well-formed encoded file: the checksum decides the result, the data is written either way.\<close>

lemma unecmify_reads:
  assumes "content fs a = Some (ecm_file rs edc)" "content fs b = None" "writable fs b" "length buf = 2352"
    and "\<forall>r\<in>set rs. run_fits r" "length (ecm_file rs edc) < 2 ^ 31"
  shows "unecmify buf a b fs = (if edc = edc_compute 0 (runs_data rs) then 0 else 4, put_file b (runs_data rs) fs)"
proof -
  let ?e = "take 4 (put32lsb 0 edc (replicate 4 0))" and ?f = "ecm_file rs edc"
  let ?s = "\<lparr>d_in = advance 4 (sopen ?f), d_out = sopen [], d_buffer = buf, output_edc = 0\<rparr>"
  let ?n = "length (enc_runs rs @ type_count 0 (2 ^ 32 - 1))"
  have f: "?f = 0x45 # 0x43 # 0x4D # 0x00 # enc_runs rs @ type_count 0 (2 ^ 32 - 1) @ ?e" by (simp add: ecm_file_def)
  then have r: "srest (d_in ?s) = enc_runs rs @ type_count 0 (2 ^ 32 - 1) @ ?e" by (simp add: stdio_simps)
  from unecmify_runs [OF this assms(5)] assms(4) obtain s' where
    s': "unecmify_loop ?s = Cont s'" "dec_after (runs_data rs) ?n ?s s'" by auto
  have "fread_at 0 4 s' = (True, s'\<lparr>d_in := advance 4 (d_in s'), d_buffer := overwrite 0 ?e (d_buffer s')\<rparr>)"
  proof (rule fread_at_front [where ys = "[]"])
    have "srest (d_in s') = drop ?n (srest (d_in ?s))" using s'(2) by (simp only: dec_after_def srest_advance)
    then show "srest (d_in s') = ?e @ []" by (simp only: r append_assoc [symmetric]) simp
  qed (simp add: put32lsb_def)
  moreover have "get32lsb (overwrite 0 ?e (d_buffer s')) = edc" by (rule get32lsb_put32lsb) simp
  moreover have "sdata (d_out s') = runs_data rs" "output_edc s' = edc_compute 0 (runs_data rs)"
    using s'(2) by (auto simp: dec_after_def stdio_simps overwrite_def)
  ultimately show ?thesis
    unfolding unecmify_start [OF assms(1-3,6) f] s'(1) by simp
qed

text \<open>C6: encoding a disc image and decoding the result gives the image back, for every image below one gigabyte: the encoder
  succeeds, the decoder accepts the file and its checksum, and the output is byte for byte the image, which itself is unchanged.\<close>

theorem ecm_roundtrip:
  assumes "content fs img = Some f" "content fs ecm = None" "content fs out = None" "ecm \<noteq> out" "writable fs ecm" "writable fs out"
    and "length f < 2 ^ 30 - 8" "length buf = 2352" "length buf' = 2352"
  shows "\<exists>fs' fs''. ecmify buf err img ecm fs = (0, 1, fs') \<and> unecmify buf' ecm out fs' = (0, fs'')
    \<and> content fs'' out = Some f \<and> content fs'' img = Some f"
proof -
  have "length f < 2 ^ 31" using assms(7) by simp
  from ecmify_writes [OF assms(1,2,5) this assms(8)] obtain rs where
    rs: "\<forall>r\<in>set rs. run_fits r" "runs_data rs = f" "ecmify buf err img ecm fs = (0, 1, put_file ecm (ecm_file rs (edc_compute 0 f)) fs)" by blast
  let ?fs = "put_file ecm (ecm_file rs (edc_compute 0 f)) fs"
  have "length (ecm_file rs (edc_compute 0 f)) < 2 ^ 31" using assms(7) rs(1,2) by (intro length_ecm_file) simp_all
  then have "unecmify buf' ecm out ?fs = (0, put_file out f ?fs)"
    using assms rs(1,2) unecmify_reads [of ?fs ecm rs "edc_compute 0 f" out buf'] by (simp add: stdio_simps)
  moreover have "img \<noteq> ecm" "img \<noteq> out" using assms(1-3) by auto
  ultimately show ?thesis using rs(3) assms(1) by (auto simp: stdio_simps)
qed

definition ecm_example :: fsys where
  "ecm_example = \<lparr>content = [''disc'' \<mapsto> [1, 2, 3]], writable = \<lambda>_. True\<rparr>"

theorem ecm_roundtrip_witness:
  "\<exists>fs' fs''. ecmify (replicate 2352 9) 0 ''disc'' ''disc.ecm'' ecm_example = (0, 1, fs')
    \<and> unecmify (replicate 2352 8) ''disc.ecm'' ''disc2'' fs' = (0, fs'')
    \<and> content fs'' ''disc2'' = Some [1, 2, 3] \<and> content fs'' ''disc'' = Some [1, 2, 3]"
  by (rule ecm_roundtrip) (simp_all add: ecm_example_def)

text \<open>The invariant of the encoder's loop.\<close>

definition enc_inv :: "bytes \<Rightarrow> stream \<Rightarrow> enc_state \<Rightarrow> enc_loop \<Rightarrow> bool" where
  "enc_inv f out s q \<longleftrightarrow> window_inv f q \<and> (\<exists>rs us. run_inv f out s q rs us)"

text \<open>C16: one round of the encoder's loop never stops with a read error and keeps the invariant: the queue is the window of
  the input behind the checked part, the checksum covers what was queued, and the runs already written together with the
  current run hold exactly the checked part of the input, every kept sector being one the decoder can rebuild.\<close>

theorem ecm_encoder_invariant:
  assumes "enc_inv f out s q" "length f < 2 ^ 31"
  shows "\<exists>s1 q1 d q2 s2 q3. refill (length f) s q = Some (s1, q1) \<and> detect_next q1 = (d, q2)
    \<and> same_or_flush d s1 q2 = Cont (s2, q3) \<and> (curtype q3 < 0 \<or> enc_inv f out s2 (advance_sector q3))"
proof -
  obtain rs us where i: "window_inv f q" "run_inv f out s q rs us" using assms(1) by (auto simp: enc_inv_def)
  have "sdata (e_in s) = f" using i(2) by (simp add: run_inv_def)
  from refill_keeps [OF i(1) this] obtain s1 q1 where
    r: "refill (length f) s q = Some (s1, q1)" "window_inv f q1" "queue q1 = [] \<Longrightarrow> input_bytes_checked q1 = length f" "run_inv f out s1 q1 rs us"
    using i(2) by blast
  obtain d q2 where d: "detect_next q1 = (d, q2)" by fastforce
  note facts = detect_next_facts [OF d]
  have i2: "window_inv f q2" "run_inv f out s1 q2 rs us" using r facts by (simp_all add: window_inv_def run_inv_def)
  show ?thesis
  proof (cases "queue q1 = []")
    case True
    then have "d = -1" "input_bytes_checked q2 = length f" using facts r(3) by simp_all
    then show ?thesis using same_or_flush_end [OF i2(2,1) assms(2)] r(1) d by fastforce
  next
    case False
    from same_or_flush_sector [OF i2(2,1) assms(2) detect_next_ok [OF d False]] facts(1) show ?thesis
      unfolding enc_inv_def using r(1) d by fastforce
  qed
qed

theorem ecm_encoder_invariant_witness:
  "let s = \<lparr>e_in = sopen [7], e_out = sopen [], e_buffer = replicate 2352 0, e_myError = 0\<rparr>
   in \<exists>s1 q1 d q2 s2 q3. refill (length [7]) s enc_start = Some (s1, q1) \<and> detect_next q1 = (d, q2)
    \<and> same_or_flush d s1 q2 = Cont (s2, q3) \<and> (curtype q3 < 0 \<or> enc_inv [7] (sopen []) s2 (advance_sector q3))"
proof -
  have "enc_inv [7] (sopen []) \<lparr>e_in = sopen [7], e_out = sopen [], e_buffer = replicate 2352 0, e_myError = 0\<rparr> enc_start"
    unfolding enc_inv_def
    by (intro conjI exI [of _ "[]"]) (simp_all add: window_inv_def run_inv_def enc_start_def enc_runs_def runs_data_def stdio_simps)
  from ecm_encoder_invariant [OF this] show ?thesis unfolding Let_def by simp
qed

text \<open>a well-formed encoded file whose stored checksum is not that of the decoded data is refused: the decoder
  returns 4, and the native entry point reports 5.\<close>

theorem ecm_wrong_checksum_refused:
  assumes "content fs ecm = Some (ecm_file rs edc)" "content fs out = None" "writable fs out" "length buf = 2352"
    and "\<forall>r\<in>set rs. run_fits r" "length (runs_data rs) < 2 ^ 30 - 8" "edc \<noteq> edc_compute 0 (runs_data rs)"
  shows "fst (unecmify buf ecm out fs) = 4 \<and> fst (ecmPatchRom buf err ecm out True fs) = 5"
  using unecmify_reads [OF assms(1-5) length_ecm_file [OF assms(5,6)]] assms(7)
  by (simp add: ecmPatchRom_def ecm_main_def)

theorem ecm_wrong_checksum_refused_witness:
  "let fs = \<lparr>content = [''a'' \<mapsto> ecm_file [] 1], writable = \<lambda>_. True\<rparr>
   in fst (unecmify (replicate 2352 0) ''a'' ''b'' fs) = 4 \<and> fst (ecmPatchRom (replicate 2352 0) 0 ''a'' ''b'' True fs) = 5"
  unfolding Let_def by (rule ecm_wrong_checksum_refused [where rs = "[]" and edc = 1]) (simp_all add: runs_data_def)

lemma fgetc_eq_byte:
  assumes "fgetc i = (uint (b :: byte), i')" shows "srest i = b # srest i'"
proof (cases "srest i")
  case Nil
  then show ?thesis using assms uint_ge_0 [of b] by (simp add: fgetc_empty del: uint_ge_0)
next
  case (Cons c ys)
  then have "uint c = uint b" "i' = advance 1 i" using assms by (simp_all add: fgetc_front)
  then show ?thesis using Cons by (simp add: stdio_simps word_uint_eq_iff)
qed

lemma fgetc_magic:
  assumes "fgetc i = (0x45, i0)" "fgetc i0 = (0x43, i1)" "fgetc i1 = (0x4D, i2)" "fgetc i2 = (0x00, i3)"
  shows "take 4 (srest i) = [0x45, 0x43, 0x4D, 0x00]"
  using fgetc_eq_byte [of i "0x45" i0] fgetc_eq_byte [of i0 "0x43" i1] fgetc_eq_byte [of i1 "0x4D" i2] fgetc_eq_byte [of i2 "0" i3] assms
  by simp

text \<open>The decoder touches no file when the output exists already, when the input is missing, or when it does not start with
  the four bytes of the format; the native entry point then reports 5.\<close>

theorem ecm_refuses:
  assumes "content fs out \<noteq> None \<or> content fs ecm = None \<or> take 4 (the (content fs ecm)) \<noteq> [0x45, 0x43, 0x4D, 0x00]"
  shows "ecmPatchRom buf err ecm out True fs = (5, fs)"
proof -
  have "unecmify buf ecm out fs = (4, fs)"
  proof (cases "content fs out = None \<and> (\<exists>d. content fs ecm = Some d \<and> length d < 2 ^ 31)")
    case False
    then show ?thesis
      by (auto simp: unecmify_def fopen_rb_def fseek_end_0 ftell_def sdata_sopen split: option.split)
  next
    case True
    then obtain d where d: "content fs ecm = Some d" "length d < 2 ^ 31" "content fs out = None" "take 4 d \<noteq> [0x45, 0x43, 0x4D, 0x00]"
      using assms by auto
    have s: "fseek_set 0 ((sopen d)\<lparr>spos := length d, seof := False\<rparr>) = (0, sopen d)" by (simp add: fseek_set_nonneg sopen_def)
    obtain c0 i0 c1 i1 c2 i2 c3 i3 where c: "fgetc (sopen d) = (c0, i0)" "fgetc i0 = (c1, i1)" "fgetc i1 = (c2, i2)" "fgetc i2 = (c3, i3)"
      by (meson surj_pair)
    have "c0 \<noteq> 0x45 \<or> c1 \<noteq> 0x43 \<or> c2 \<noteq> 0x4D \<or> c3 \<noteq> 0x00"
      using fgetc_magic [of "sopen d" i0 i1 i2 i3] c d(4) by (auto simp: srest_sopen)
    then show ?thesis
      using d(1-3) c s by (simp add: unecmify_def fopen_rb_def fseek_end_0 ftell_def sdata_sopen)
  qed
  then show ?thesis by (simp add: ecmPatchRom_def ecm_main_def)
qed

theorem ecm_refuses_witness:
  "ecmPatchRom (replicate 2352 0) 0 ''disc'' ''out'' True ecm_example = (5, ecm_example)"
  by (rule ecm_refuses) (simp add: ecm_example_def)

text \<open>What the native entry point returns after a successful decoding is the error variable an earlier call left, not 0: once a call
  has failed with 5, every later success reports 5 too.\<close>

theorem ecm_success_reports_old_error:
  assumes "unecmify buf ecm out fs = (0, fs')"
  shows "ecmPatchRom buf err ecm out True fs = (err, fs')"
  using assms by (simp add: ecmPatchRom_def ecm_main_def)

theorem ecm_success_reports_old_error_witness:
  "let fs = \<lparr>content = [''a'' \<mapsto> ecm_file [] 0], writable = \<lambda>_. True\<rparr>
   in ecmPatchRom (replicate 2352 0) 5 ''a'' ''b'' True fs = (5, put_file ''b'' [] fs)"
  unfolding Let_def
proof (rule ecm_success_reports_old_error)
  have "length (ecm_file [] 0) < 2 ^ 31" by (rule length_ecm_file) (simp_all add: runs_data_def)
  then show "unecmify (replicate 2352 0) ''a'' ''b'' \<lparr>content = [''a'' \<mapsto> ecm_file [] 0], writable = \<lambda>_. True\<rparr>
    = (0, put_file ''b'' [] \<lparr>content = [''a'' \<mapsto> ecm_file [] 0], writable = \<lambda>_. True\<rparr>)"
    by (subst unecmify_reads [where rs = "[]" and edc = 0]) (simp_all add: runs_data_def)
qed

end
