(* ===== verification/Dps.thy ===== *)
theory Dps
  imports CStdio
begin

text \<open>
  The DPS patcher, \<^verbatim>\<open>jni/dpspatcher/dpspatcher.c\<close>.  A DPS file has a header of three texts, a flag, a version
  and the size of the original, then records: data to put at an offset of the output, or a stretch of the original
  to copy there.  The output is a new file, which is never closed.  Main results: a well-formed patch leaves an output stream whose
  content, once the C library writes it out, makes exactly the file its records describe; an original of another size is refused;
  a file that cannot be opened and a text without its terminator are undefined behaviour.
\<close>

section \<open>Model\<close>

text \<open>\<^verbatim>\<open>for (i = 0; i < length; i++) fputc(fgetc(from), to)\<close>; at the end of the file 0xFF is written.\<close>

primrec copy_chars :: "nat \<Rightarrow> stream \<Rightarrow> stream \<Rightarrow> stream \<times> stream" where
  "copy_chars 0 from to = (from, to)"
| "copy_chars (Suc n) from to = (let (c, from) = fgetc from in copy_chars n from (fputc (of_int c) to))"

record dps_io =
  fin :: stream
  fout :: stream
  fpatch :: stream

lemma chars_left_copy_chars: "chars_left (fst (copy_chars n from to)) \<le> chars_left from"
proof (induction n arbitrary: "from" to)
  case (Suc n)
  show ?case using Suc [of "snd (fgetc from)"] chars_left_fgetc_le [of "from"] by (fastforce simp: Let_def split: prod.splits intro: order_trans)
qed simp

text \<open>
  The record loop.  The local variables of one round hold whatever the memory has until they are read; \<open>None\<close> is undefined
  behaviour: a length of \<open>2 ^ 31\<close> or more overflows the \<^verbatim>\<open>int\<close> that counts.
\<close>

definition local_int :: "memory \<Rightarrow> dps_io \<Rightarrow> nat \<Rightarrow> bytes" where
  "local_int junk s k = uninit junk (256 + 16 * spos (fpatch s) + 4 * k) 4"

definition dps_record :: "memory \<Rightarrow> dps_io \<Rightarrow> dps_io option" where
  "dps_record junk s =
     (let (c, p) = fgetc (fpatch s);
          mode = (of_int c :: byte);
          (_, offset, p) = fread_into (local_int junk s 0) 4 p;
          (_, out) = fseek_set (le_int32 offset) (fout s)
      in if mode = 1 then
           let (_, len, p) = fread_into (local_int junk s 1) 4 p in
           if le_val len \<ge> 2 ^ 31 then None
           else let (p, out) = copy_chars (le_val len) p out in Some (s\<lparr>fout := out, fpatch := p\<rparr>)
         else if mode = 0 then
           let (_, copy_offset, p) = fread_into (local_int junk s 1) 4 p;
               (_, len, p) = fread_into (local_int junk s 2) 4 p;
               (_, i) = fseek_set (le_int32 copy_offset) (fin s)
           in if le_val len \<ge> 2 ^ 31 then None
              else let (i, out) = copy_chars (le_val len) i out in Some (s\<lparr>fin := i, fout := out, fpatch := p\<rparr>)
         else Some (s\<lparr>fout := out, fpatch := p\<rparr>))"

lemma dps_record_decreases:
  assumes "dps_record junk s = Some s'" "\<not> seof (fpatch s)"
  shows "chars_left (fpatch s') < chars_left (fpatch s)"
proof -
  obtain c p0 where g: "fgetc (fpatch s) = (c, p0)" by fastforce
  obtain n0 o0 p1 where r1: "fread_into (local_int junk s 0) 4 p0 = (n0, o0, p1)" by (metis surj_pair)
  obtain n1 o1 p2 where r2: "fread_into (local_int junk s 1) 4 p1 = (n1, o1, p2)" by (metis surj_pair)
  obtain n2 o2 p3 where r3: "fread_into (local_int junk s 2) 4 p2 = (n2, o2, p3)" by (metis surj_pair)
  have lt: "chars_left p0 < chars_left (fpatch s)" using chars_left_fgetc [OF assms(2)] g by simp
  have le: "chars_left p1 \<le> chars_left p0" "chars_left p2 \<le> chars_left p1" "chars_left p3 \<le> chars_left p2"
    using chars_left_fread_into [of "local_int junk s 0" 4 p0] chars_left_fread_into [of "local_int junk s 1" 4 p1]
      chars_left_fread_into [of "local_int junk s 2" 4 p2] r1 r2 r3 by simp_all
  have "chars_left (fst (copy_chars n p2 out)) \<le> chars_left p2" for n out by (rule chars_left_copy_chars)
  then have cc: "chars_left p \<le> chars_left p2" if "copy_chars n p2 out = (p, out')" for n out p out' using that by (metis fst_conv)
  show ?thesis using assms(1) lt le
    by (auto simp: dps_record_def g r1 r2 [unfolded One_nat_def] r3 Let_def dest!: cc split: if_splits prod.splits)
qed

function dps_loop :: "memory \<Rightarrow> dps_io \<Rightarrow> dps_io option" where
  "dps_loop junk s =
     (if seof (fpatch s) then Some s
      else case dps_record junk s of None \<Rightarrow> None | Some s \<Rightarrow> dps_loop junk s)"
  by pat_completeness auto
termination
  by (relation "measure (\<lambda>(junk, s). chars_left (fpatch s))") (auto intro: dps_record_decreases)

declare dps_loop.simps [simp del]

text \<open>
  The patcher.  A null stream is undefined behaviour, and so is printing a text that has no terminator in its 64 bytes.  On success
  none of the streams is closed: the result carries the output stream, whose content reaches the file only when the C library
  writes its buffers out, at the latest at a regular end of the process (\<open>written_out\<close>).
\<close>

definition unterminated :: "bytes \<Rightarrow> bool" where
  "unterminated text \<longleftrightarrow> 0 \<notin> set text"

definition written_out :: "string \<Rightarrow> fsys \<times> stream option \<Rightarrow> fsys" where
  "written_out name r = (case r of (fs, None) \<Rightarrow> fs | (fs, Some f) \<Rightarrow> fclose_to name f fs)"

definition dpspatch :: "memory \<Rightarrow> string list \<Rightarrow> fsys \<Rightarrow> (fsys \<times> stream option) outcome" where
  "dpspatch junk argv fs =
     (if length argv \<noteq> 4 then Returned (-1) (fs, None)
      else
        let i = fopen_rb (argv ! 1) fs;
            (out, fs) = (case fopen_wb (argv ! 2) fs of None \<Rightarrow> (None, fs) | Some (out, fs) \<Rightarrow> (Some out, fs));
            i = (if out = None then i else map_option (truncated (argv ! 2) (argv ! 1)) i);
            p = fopen_rb (argv ! 3) fs
        in case (i, out, p) of
             (Some i, Some out, Some p) \<Rightarrow>
               (let (_, patch_name, p) = fread_into (uninit junk 0 64) 64 p;
                    (_, patch_author, p) = fread_into (uninit junk 64 64) 64 p;
                    (_, patch_version, p) = fread_into (uninit junk 128 64) 64 p;
                    (_, patch_flag, p) = fread_into (uninit junk 192 1) 1 p;
                    (_, dps_version, p) = fread_into (uninit junk 193 1) 1 p;
                    (_, original_size, p) = fread_into (uninit junk 194 4) 4 p;
                    (_, i) = fseek_end 0 i
                in if (of_int (ftell i) :: u32) \<noteq> of_nat (le_val original_size)
                   then Returned (-2) (fclose_to (argv ! 2) out fs, None)
                   else if unterminated patch_name \<or> unterminated patch_version \<or> unterminated patch_author then Undefined
                   else
                     let (_, i) = fseek_set 0 i;
                         ret = (if bit (patch_flag ! 0) 0 then -3 else 0)
                     in case dps_loop junk \<lparr>fin = i, fout = out, fpatch = p\<rparr> of
                          None \<Rightarrow> Undefined
                        | Some s \<Rightarrow> Returned ret (fs, Some (fout s)))
           | _ \<Rightarrow> Undefined)"

definition dpsPatchRom :: "memory \<Rightarrow> string \<Rightarrow> string \<Rightarrow> string \<Rightarrow> fsys \<Rightarrow> (fsys \<times> stream option) outcome" where
  "dpsPatchRom junk romPath patchPath outFile fs = dpspatch junk [''dpspatch'', romPath, outFile, patchPath] fs"

section \<open>The format\<close>

datatype dps_item = Enclosed nat bytes | Copied nat nat nat

fun dps_item_bytes :: "dps_item \<Rightarrow> bytes" where
  "dps_item_bytes (Enclosed off data) = 1 # le_bytes 4 off @ le_bytes 4 (length data) @ data"
| "dps_item_bytes (Copied off src n) = 0 # le_bytes 4 off @ le_bytes 4 src @ le_bytes 4 n"

fun dps_item_fits :: "dps_item \<Rightarrow> bool" where
  "dps_item_fits (Enclosed off data) \<longleftrightarrow> off < 2 ^ 31 \<and> length data < 2 ^ 31"
| "dps_item_fits (Copied off src n) \<longleftrightarrow> off < 2 ^ 31 \<and> src < 2 ^ 31 \<and> n < 2 ^ 31"

text \<open>A stretch of \<open>n\<close> bytes of a file: behind its end reading gives -1, written as 0xFF.\<close>

definition stretch :: "nat \<Rightarrow> bytes \<Rightarrow> bytes" where
  "stretch n d = take n d @ replicate (n - length d) 0xFF"

fun dps_apply :: "bytes \<Rightarrow> bytes \<Rightarrow> dps_item \<Rightarrow> bytes" where
  "dps_apply rom d (Enclosed off data) = overwrite off data d"
| "dps_apply rom d (Copied off src n) = overwrite off (stretch n (drop src rom)) d"

definition dps_file :: "bytes \<Rightarrow> bytes \<Rightarrow> bytes \<Rightarrow> byte \<Rightarrow> byte \<Rightarrow> nat \<Rightarrow> dps_item list \<Rightarrow> bytes" where
  "dps_file name author version flag dps_version original_size items =
     name @ author @ version @ [flag] @ [dps_version] @ le_bytes 4 original_size @ concat (map dps_item_bytes items)"

section \<open>Correctness\<close>

lemma copy_chars_out: "snd (copy_chars n from to) = fwrite (stretch n (srest from)) to"
proof (induction n arbitrary: "from" to)
  case (Suc n)
  show ?case
  proof (cases "srest from")
    case Nil
    then have "srest (from\<lparr>seof := True\<rparr>) = []" by (simp add: srest_def)
    moreover have "fputc (of_int (- 1)) to = fwrite [0xFF] to"
      unfolding fputc_def by (rule arg_cong [where f = "\<lambda>x. fwrite [x] to"]) simp
    ultimately have "snd (copy_chars (Suc n) from to) = fwrite (stretch n []) (fwrite [0xFF] to)"
      using Suc [of "from\<lparr>seof := True\<rparr>"] by (simp only: copy_chars.simps fgetc_empty [OF Nil] Let_def prod.case)
    then show ?thesis using Nil by (simp add: stretch_def stdio_simps)
  next
    case (Cons b bs)
    then show ?thesis using Suc [of "advance 1 from"]
      by (simp add: fgetc_front [OF Cons] stretch_def fputc_def stdio_simps)
  qed
qed (simp add: stretch_def stdio_simps)

lemma copy_chars_from:
  "srest from = xs @ ys \<Longrightarrow> fst (copy_chars (length xs) from to) = advance (length xs) from"
  by (induction xs arbitrary: "from" to) (simp_all add: stdio_simps fgetc_front)

lemma sdata_copy_chars_from: "sdata (fst (copy_chars n from to)) = sdata from"
proof (induction n arbitrary: "from" to)
  case (Suc n)
  then show ?case by (cases "srest from") (simp_all add: fgetc_def)
qed simp

lemma le_val_4: "v < 2 ^ 31 \<Longrightarrow> le_val (le_bytes 4 v) = v"
  by (simp add: codec_simps)

lemma read_local:
  "srest p = xs @ le_bytes 4 v @ zs \<Longrightarrow> length xs = k \<Longrightarrow>
     fread_into (local_int junk s j) 4 (advance k p) = (4, le_bytes 4 v, advance (k + 4) p)"
  using fread_into_front [of "advance k p" "le_bytes 4 v" zs 4] by (simp add: stdio_simps local_int_def)

text \<open>One record of the format.\<close>

lemma dps_record_item:
  assumes "srest (fpatch s) = dps_item_bytes it @ ys" "dps_item_fits it" "sdata (fin s) = rom"
  shows "\<exists>s'. dps_record junk s = Some s' \<and> sdata (fin s') = rom \<and> fpatch s' = advance (length (dps_item_bytes it)) (fpatch s)
    \<and> sdata (fout s') = dps_apply rom (sdata (fout s)) it"
proof (cases it)
  case (Enclosed off data)
  let ?p = "\<lambda>n. advance n (fpatch s)"
  have r: "srest (fpatch s) = 1 # le_bytes 4 off @ le_bytes 4 (length data) @ data @ ys" using assms(1) Enclosed by simp
  have f: "off < 2 ^ 31" "length data < 2 ^ 31" using assms(2) Enclosed by simp_all
  have g: "fgetc (fpatch s) = (1, ?p 1)" using fgetc_front [OF r] by simp
  have r1: "fread_into (local_int junk s 0) 4 (?p 1) = (4, le_bytes 4 off, ?p 5)"
    using read_local [of "fpatch s" "[1]"] r by simp
  have r2: "fread_into (local_int junk s 1) 4 (?p 5) = (4, le_bytes 4 (length data), ?p 9)"
    using read_local [of "fpatch s" "1 # le_bytes 4 off"] r by simp
  have r9: "srest (?p 9) = data @ ys" using r by (simp add: stdio_simps)
  let ?out = "(fout s)\<lparr>spos := off, seof := False\<rparr>"
  obtain p out where c: "copy_chars (length data) (?p 9) ?out = (p, out)" by fastforce
  have "p = advance (length data) (?p 9)" using copy_chars_from [OF r9, of ?out] c by simp
  moreover have "out = fwrite data ?out" using copy_chars_out [of "length data" "?p 9" ?out] c r9 by (simp add: stretch_def)
  moreover have "dps_record junk s = Some (s\<lparr>fout := out, fpatch := p\<rparr>)"
    using f c by (simp add: dps_record_def g r1 [unfolded One_nat_def] r2 [unfolded One_nat_def] le_int32_le_bytes fseek_set_nonneg le_val_4)
  ultimately show ?thesis using Enclosed assms(3) by (simp add: stdio_simps)
next
  case (Copied off src n)
  let ?p = "\<lambda>n. advance n (fpatch s)"
  have r: "srest (fpatch s) = 0 # le_bytes 4 off @ le_bytes 4 src @ le_bytes 4 n @ ys" using assms(1) Copied by simp
  have f: "off < 2 ^ 31" "src < 2 ^ 31" "n < 2 ^ 31" using assms(2) Copied by simp_all
  have g: "fgetc (fpatch s) = (0, ?p 1)" using fgetc_front [OF r] by simp
  have r1: "fread_into (local_int junk s 0) 4 (?p 1) = (4, le_bytes 4 off, ?p 5)"
    using read_local [of "fpatch s" "[0]"] r by simp
  have r2: "fread_into (local_int junk s 1) 4 (?p 5) = (4, le_bytes 4 src, ?p 9)"
    using read_local [of "fpatch s" "0 # le_bytes 4 off"] r by simp
  have r3: "fread_into (local_int junk s 2) 4 (?p 9) = (4, le_bytes 4 n, ?p 13)"
    using read_local [of "fpatch s" "0 # le_bytes 4 off @ le_bytes 4 src"] r by simp
  let ?out = "(fout s)\<lparr>spos := off, seof := False\<rparr>" and ?i = "(fin s)\<lparr>spos := src, seof := False\<rparr>"
  obtain i out where c: "copy_chars n ?i ?out = (i, out)" by fastforce
  have "sdata i = rom" using sdata_copy_chars_from [of n ?i ?out] c assms(3) by simp
  moreover have "out = fwrite (stretch n (drop src rom)) ?out" using copy_chars_out [of n ?i ?out] c assms(3) by (simp add: srest_def)
  moreover have "dps_record junk s = Some (s\<lparr>fin := i, fout := out, fpatch := ?p 13\<rparr>)"
    using f c by (simp add: dps_record_def g r1 [unfolded One_nat_def] r2 [unfolded One_nat_def] r3 le_int32_le_bytes fseek_set_nonneg le_val_4)
  ultimately show ?thesis using Copied by (simp add: stdio_simps)
qed

text \<open>At the end of the patch the loop goes round once more, with -1 for a mode.\<close>

lemma dps_record_end:
  assumes "srest (fpatch s) = []"
  shows "\<exists>s'. dps_record junk s = Some s' \<and> seof (fpatch s') \<and> sdata (fout s') = sdata (fout s)"
proof -
  have "srest ((fpatch s)\<lparr>seof := True\<rparr>) = []" using assms by (simp add: srest_def)
  moreover have "sdata (snd (fseek_set v t)) = sdata t" for v t by (simp add: fseek_set_def seek_to_def)
  ultimately show ?thesis
    by (auto simp: dps_record_def fgetc_empty [OF assms] fread_into_empty Let_def split: prod.split)
       (metis snd_conv)
qed

lemma dps_loop_items:
  assumes "srest (fpatch s) = concat (map dps_item_bytes items)" "\<forall>it\<in>set items. dps_item_fits it" "sdata (fin s) = rom" "\<not> seof (fpatch s)"
  shows "\<exists>s'. dps_loop junk s = Some s' \<and> sdata (fout s') = foldl (dps_apply rom) (sdata (fout s)) items"
  using assms
proof (induction items arbitrary: s)
  case Nil
  then obtain s' where "dps_record junk s = Some s'" "seof (fpatch s')" "sdata (fout s') = sdata (fout s)"
    using dps_record_end [of s junk] by auto
  then show ?case using Nil.prems(4) by (subst dps_loop.simps) (simp add: dps_loop.simps [of junk s'])
next
  case (Cons it items)
  then have "srest (fpatch s) = dps_item_bytes it @ concat (map dps_item_bytes items)" by simp
  from dps_record_item [OF this _ Cons.prems(3)] Cons.prems(2) obtain s1 where
    s1: "dps_record junk s = Some s1" "sdata (fin s1) = rom" "fpatch s1 = advance (length (dps_item_bytes it)) (fpatch s)"
      "sdata (fout s1) = dps_apply rom (sdata (fout s)) it" by auto
  have "\<exists>s'. dps_loop junk s1 = Some s' \<and> sdata (fout s') = foldl (dps_apply rom) (sdata (fout s1)) items"
    using Cons.prems s1 by (intro Cons.IH) (simp_all add: stdio_simps)
  then show ?case using Cons.prems(4) s1 by (subst dps_loop.simps) simp
qed

lemma fread_into_header:
  assumes "d = name @ author @ version @ [flag] @ [dv] @ le_bytes 4 v @ body" "length name = 64" "length author = 64" "length version = 64"
  shows "fread_into (uninit junk a 64) 64 (sopen d) = (64, name, advance 64 (sopen d))"
    "fread_into (uninit junk b 64) 64 (advance 64 (sopen d)) = (64, author, advance 128 (sopen d))"
    "fread_into (uninit junk c 64) 64 (advance 128 (sopen d)) = (64, version, advance 192 (sopen d))"
    "fread_into (uninit junk e 1) 1 (advance 192 (sopen d)) = (1, [flag], advance 193 (sopen d))"
    "fread_into (uninit junk g 1) 1 (advance 193 (sopen d)) = (1, [dv], advance 194 (sopen d))"
    "fread_into (uninit junk h 4) 4 (advance 194 (sopen d)) = (4, le_bytes 4 v, advance 198 (sopen d))"
    "srest (advance 198 (sopen d)) = body"
proof -
  have r: "fread_into (uninit junk a n) n (advance k (sopen d)) = (n, xs, advance (k + n) (sopen d))"
    if "drop k d = xs @ ys" "length xs = n" for a n k xs ys
    using fread_into_front [of "advance k (sopen d)" xs ys n] that by (simp add: stdio_simps)
  show "fread_into (uninit junk a 64) 64 (sopen d) = (64, name, advance 64 (sopen d))"
    "fread_into (uninit junk b 64) 64 (advance 64 (sopen d)) = (64, author, advance 128 (sopen d))"
    "fread_into (uninit junk c 64) 64 (advance 128 (sopen d)) = (64, version, advance 192 (sopen d))"
    "fread_into (uninit junk e 1) 1 (advance 192 (sopen d)) = (1, [flag], advance 193 (sopen d))"
    "fread_into (uninit junk g 1) 1 (advance 193 (sopen d)) = (1, [dv], advance 194 (sopen d))"
    "fread_into (uninit junk h 4) 4 (advance 194 (sopen d)) = (4, le_bytes 4 v, advance 198 (sopen d))"
    "srest (advance 198 (sopen d)) = body"
    using r [of 0 name "drop 64 d" 64 a] r [of 64 author "drop 128 d" 64 b] r [of 128 version "drop 192 d" 64 c] r [of 192 "[flag]" "drop 193 d" 1 e]
      r [of 193 "[dv]" "drop 194 d" 1 g] r [of 194 "le_bytes 4 v" body 4 h] assms
    by (simp_all add: stdio_simps)
qed

lemma dpspatch_header:
  assumes "content fs rom = Some r" "content fs patch = Some d" "writable fs out" "rom \<noteq> out" "patch \<noteq> out" "length r < 2 ^ 31"
    and d: "d = name @ author @ version @ [flag] @ [dv] @ le_bytes 4 v @ body" "length name = 64" "length author = 64" "length version = 64" "v < 2 ^ 32"
  shows "dpsPatchRom junk rom patch out fs =
    (if length r \<noteq> v then Returned (-2) (put_file out [] fs, None)
     else if unterminated name \<or> unterminated version \<or> unterminated author then Undefined
     else case dps_loop junk \<lparr>fin = sopen r, fout = sopen [], fpatch = advance 198 (sopen d)\<rparr> of
         None \<Rightarrow> Undefined
       | Some s \<Rightarrow> Returned (if bit flag 0 then -3 else 0) (put_file out [] fs, Some (fout s)))"
proof -
  note h = fread_into_header [OF d(1-4)]
  have o: "fopen_rb rom fs = Some (sopen r)" "fopen_wb out fs = Some (sopen [], put_file out [] fs)" "fopen_rb patch (put_file out [] fs) = Some (sopen d)"
    using assms(1-5) by (simp_all add: fopen_rb_def fopen_wb_def stdio_simps)
  have "(of_int (ftell ((sopen r)\<lparr>spos := length r, seof := False\<rparr>)) :: u32) = of_nat (length r)" using assms(6) by (simp add: ftell_def)
  moreover have "(of_nat (length r) :: u32) = of_nat (le_val (le_bytes 4 v)) \<longleftrightarrow> length r = v"
    using assms(6) d(5) by (simp add: codec_simps word_of_nat_eq_iff take_bit_nat_eq_self)
  moreover have "(sopen r)\<lparr>spos := 0, seof := False\<rparr> = sopen r" by (simp add: sopen_def)
  ultimately show ?thesis
    using truncated_other [of out rom "sopen r"] assms(4)
    by (simp add: dpsPatchRom_def dpspatch_def o h h(4,5) [unfolded One_nat_def] fseek_end_0 sdata_sopen fseek_set_nonneg fclose_to_def put_file_put_file
        split: option.split)
qed

text \<open>C21: a well-formed DPS patch, its texts terminated, for an original of the recorded size: the result is 0, or -3 when the patch is
  flagged as unstable.  At that time the output file is empty and its stream still open; once the C library has written the stream
  out, the file is exactly what the records describe, starting from nothing: enclosed data at its offset, a copied stretch of the
  original at its offset (0xFF where the original is too short).  No other file changes.\<close>

theorem dps_apply_correct:
  assumes "content fs rom = Some r" "content fs patch = Some (dps_file name author version flag dv (length r) items)"
    and "writable fs out" "rom \<noteq> out" "patch \<noteq> out" "length r < 2 ^ 31"
    and "length name = 64" "length author = 64" "length version = 64" "0 \<in> set name" "0 \<in> set author" "0 \<in> set version"
    and "\<forall>it\<in>set items. dps_item_fits it"
  shows "\<exists>f. dpsPatchRom junk rom patch out fs = Returned (if bit flag 0 then -3 else 0) (put_file out [] fs, Some f)
    \<and> written_out out (put_file out [] fs, Some f) = put_file out (foldl (dps_apply r) [] items) fs"
proof -
  let ?d = "dps_file name author version flag dv (length r) items"
  have d: "?d = name @ author @ version @ [flag] @ [dv] @ le_bytes 4 (length r) @ concat (map dps_item_bytes items)" by (simp add: dps_file_def)
  have "length r < 2 ^ 32" using assms(6) by simp
  note h = dpspatch_header [OF assms(1-6) d assms(7-9) this]
  let ?s = "\<lparr>fin = sopen r, fout = sopen [], fpatch = advance 198 (sopen ?d)\<rparr>"
  have "\<exists>s'. dps_loop junk ?s = Some s' \<and> sdata (fout s') = foldl (dps_apply r) (sdata (fout ?s)) items"
    using fread_into_header(7) [OF d assms(7-9)] assms(13) by (intro dps_loop_items) (simp_all add: stdio_simps)
  then show ?thesis unfolding h using assms(10-12) by (auto simp: stdio_simps unterminated_def written_out_def fclose_to_def)
qed

definition dps_example :: fsys where
  "dps_example = \<lparr>content = [''rom'' \<mapsto> [1, 2, 3],
     ''dps'' \<mapsto> dps_file (replicate 64 0) (replicate 64 0) (replicate 64 0) 1 1 3 [Copied 0 1 2, Enclosed 2 [9]]], writable = \<lambda>_. True\<rparr>"

theorem dps_apply_correct_witness:
  "\<exists>f. dpsPatchRom (\<lambda>_. 0) ''rom'' ''dps'' ''out'' dps_example = Returned (-3) (put_file ''out'' [] dps_example, Some f)
     \<and> content (written_out ''out'' (put_file ''out'' [] dps_example, Some f)) ''out'' = Some [2, 3, 9]"
proof -
  have "foldl (dps_apply [1, 2, 3]) [] [Copied 0 1 2, Enclosed 2 [9]] = [2, 3, 9]" by (simp add: stretch_def overwrite_def)
  then show ?thesis
    using dps_apply_correct [of dps_example "''rom''" "[1, 2, 3]" "''dps''" "replicate 64 0" "replicate 64 0" "replicate 64 0" 1 1
        "[Copied 0 1 2, Enclosed 2 [9]]" "''out''" "\<lambda>_. 0"]
    by (auto simp: dps_example_def numeral_3_eq_3 stdio_simps)
qed

text \<open>An original whose size is not the recorded one is refused with -2: the records are not looked at, and the output
  file is left empty.\<close>

theorem dps_rejects_other_size:
  assumes "content fs rom = Some r" "content fs patch = Some (dps_file name author version flag dv v items)"
    and "writable fs out" "rom \<noteq> out" "patch \<noteq> out" "length r < 2 ^ 31"
    and "length name = 64" "length author = 64" "length version = 64" "v < 2 ^ 32" "length r \<noteq> v"
  shows "dpsPatchRom junk rom patch out fs = Returned (-2) (put_file out [] fs, None)"
  using dpspatch_header [OF assms(1-6) dps_file_def assms(7-10)] assms(11) by simp

theorem dps_rejects_other_size_witness:
  "let fs = put_file ''rom'' [1, 2] dps_example
   in dpsPatchRom (\<lambda>_. 0) ''rom'' ''dps'' ''out'' fs = Returned (-2) (put_file ''out'' [] fs, None)"
  unfolding Let_def
  by (rule dps_rejects_other_size [where r = "[1, 2]" and name = "replicate 64 0" and author = "replicate 64 0" and version = "replicate 64 0"
        and flag = 1 and dv = 1 and v = 3 and items = "[Copied 0 1 2, Enclosed 2 [9]]"])
    (simp_all add: dps_example_def stdio_simps)

text \<open>A text that fills its 64 bytes has no terminator: printing it reads behind the array.\<close>

theorem dps_long_text_undefined:
  assumes "content fs rom = Some r" "content fs patch = Some (dps_file name author version flag dv (length r) items)"
    and "writable fs out" "rom \<noteq> out" "patch \<noteq> out" "length r < 2 ^ 31"
    and "length name = 64" "length author = 64" "length version = 64" "0 \<notin> set name \<or> 0 \<notin> set author \<or> 0 \<notin> set version"
  shows "dpsPatchRom junk rom patch out fs = Undefined"
proof -
  have "length r < 2 ^ 32" using assms(6) by simp
  from dpspatch_header [OF assms(1-6) dps_file_def assms(7-9) this] show ?thesis using assms(10) by (auto simp: unterminated_def)
qed

theorem dps_long_text_undefined_witness:
  "dpsPatchRom (\<lambda>_. 0) ''rom'' ''dps'' ''out''
     \<lparr>content = [''rom'' \<mapsto> [1], ''dps'' \<mapsto> dps_file (replicate 64 65) (replicate 64 0) (replicate 64 0) 0 1 (length [1 :: byte]) []], writable = \<lambda>_. True\<rparr>
   = Undefined"
  by (rule dps_long_text_undefined [where r = "[1]" and name = "replicate 64 65" and author = "replicate 64 0" and version = "replicate 64 0"
      and flag = 0 and dv = 1 and items = "[]"]) simp_all

text \<open>Nothing checks whether the files could be opened: a missing original or patch, or an output that cannot be written,
  is undefined behaviour (a null stream is used).\<close>

theorem dps_missing_file_undefined:
  assumes "content fs rom = None \<or> content fs patch = None \<and> patch \<noteq> out \<or> \<not> writable fs out"
  shows "dpsPatchRom junk rom patch out fs = Undefined"
  using assms by (auto simp: dpsPatchRom_def dpspatch_def fopen_rb_def fopen_wb_def stdio_simps Let_def split: option.splits)

theorem dps_missing_file_undefined_witness:
  "dpsPatchRom (\<lambda>_. 0) ''rom'' ''none'' ''out'' dps_example = Undefined"
  by (rule dps_missing_file_undefined) (simp add: dps_example_def)

end
