(* ===== verification/Xpc.thy ===== *)
theory Xpc
  imports CStdio
begin

text \<open>
  The ExecROM patcher, \<^verbatim>\<open>jni/xpcpatcher/xpctools.h\<close> and \<^verbatim>\<open>xpcapply.c\<close>: a patch file holds blocks with a
  description and patches of up to 255 bytes for an address in a page of 8192 bytes.  Main results: reading
  undoes writing; what is read is well formed, so every position fits; applying a patch file puts
  exactly its bytes into a copy of the ROM; a description of 1024 characters overflows a buffer.
  Releasing memory (\<^verbatim>\<open>freexpc\<close>, never called) is left out.
\<close>

section \<open>Model: \<^verbatim>\<open>xpctools.h\<close>\<close>

record xpc_patch =
  psize :: byte
  page :: byte
  address :: int
  pdata :: bytes

record xpc_block =
  numpatches :: byte
  essential :: byte
  description :: bytes
  patches :: "xpc_patch list"

record xpc =
  version :: byte
  numblocks :: nat
  xpcblock :: "xpc_block list"

definition newxpc :: xpc where
  "newxpc = \<lparr>version = 0x10, numblocks = 0, xpcblock = []\<rparr>"

definition xpc_magic :: bytes where
  "xpc_magic = [0x45, 0x78, 0x65, 0x63, 0x52, 0x4F, 0x4D, 0x20, 0x70, 0x61, 0x74, 0x63, 0x68, 0x66, 0x69, 0x6C, 0x65, 0x1A]"

definition write_patch :: "xpc_patch \<Rightarrow> stream \<Rightarrow> stream" where
  "write_patch p f =
     (let f = fputc (psize p) f;
          f = fputc (of_int (address p AND 0xff)) f;
          f = fputc (of_int (drop_bit 8 (address p))) f;
          f = fputc (page p) f
      in fold fputc (take (unat (psize p)) (pdata p)) f)"

definition write_block :: "xpc_block \<Rightarrow> stream \<Rightarrow> stream" where
  "write_block b f =
     (let f = fputc (numpatches b) f;
          f = fputc (essential b) f;
          f = fwrite (description b) f;
          f = fputc 0x24 f
      in fold write_patch (take (unat (numpatches b)) (patches b)) f)"

text \<open>The file system after writing, and what went to the standard output for the name \<open>-\<close>.\<close>

definition writexpc :: "string \<Rightarrow> xpc \<Rightarrow> fsys \<Rightarrow> (bytes \<times> fsys) cresult" where
  "writexpc name txpc fs =
     (let write = (\<lambda>f.
        let f = fwrite xpc_magic f;
            f = fputc (version txpc) f;
            f = fold write_block (take (numblocks txpc) (xpcblock txpc)) f
        in fputc 0 f)
      in if name = ''-'' then Ret (sdata (write (sopen [])), fs)
         else case fopen_wb name fs of
             None \<Rightarrow> Exit 1
           | Some (f, fs) \<Rightarrow> Ret ([], fclose_to name (write f) fs))"

text \<open>The description up to the dollar sign; the buffer has 1024 bytes, one for the terminating zero.\<close>

function read_name :: "bytes \<Rightarrow> stream \<Rightarrow> (bytes \<times> stream) cresult" where
  "read_name patchname f =
     (let (n, f') = fgetc f in
      if n = 0x24 then (if length patchname \<ge> 1024 then Undef else Ret (patchname, f'))
      else if seof f' then Exit 1
      else if length patchname \<ge> 1024 then Undef
      else read_name (patchname @ [of_int n]) f')"
  by pat_completeness auto
termination
proof (relation "measure (\<lambda>(_, f). length (srest f))")
  fix f :: stream and x n and f' and patchname :: bytes
  assume "x = fgetc f" "(n, f') = x" "n \<noteq> 0x24" "\<not> seof f'" "\<not> length patchname \<ge> 1024"
  then show "((patchname @ [of_int n], f'), (patchname, f)) \<in> measure (\<lambda>(_, f). length (srest f))"
    by (cases "srest f") (auto simp: fgetc_front fgetc_empty srest_advance)
qed simp

declare read_name.simps [simp del]

text \<open>\<^verbatim>\<open>strdup\<close> copies up to the first zero.\<close>

definition c_string :: "bytes \<Rightarrow> bytes" where
  "c_string bs = takeWhile (\<lambda>b. b \<noteq> 0) bs"

primrec read_data :: "nat \<Rightarrow> stream \<Rightarrow> (bytes \<times> stream) cresult" where
  "read_data 0 f = Ret ([], f)"
| "read_data (Suc k) f =
     (let (c, f) = fgetc f in
      if seof f then Exit 1
      else cbind (read_data k f) (\<lambda>(bs, f). Ret (of_int c # bs, f)))"

definition read_patch :: "stream \<Rightarrow> (xpc_patch \<times> stream) cresult" where
  "read_patch f =
     (let (c, f) = fgetc f; s = (of_int c :: byte) in if seof f then Exit 1 else
      let (a, f) = fgetc f in if seof f then Exit 1 else
      let (a1, f) = fgetc f; a = a + 256 * a1 in if seof f then Exit 1 else
      let (p, f) = fgetc f in if seof f then Exit 1 else
      cbind (read_data (unat s) f) (\<lambda>(bs, f). Ret (\<lparr>psize = s, page = of_int p, address = a, pdata = bs\<rparr>, f)))"

primrec read_patches :: "nat \<Rightarrow> stream \<Rightarrow> (xpc_patch list \<times> stream) cresult" where
  "read_patches 0 f = Ret ([], f)"
| "read_patches (Suc n) f =
     cbind (read_patch f) (\<lambda>(p, f). cbind (read_patches n f) (\<lambda>(ps, f). Ret (p # ps, f)))"

text \<open>A block behind its first byte.\<close>

definition read_block :: "byte \<Rightarrow> stream \<Rightarrow> (xpc_block \<times> stream) cresult" where
  "read_block num f =
     (let (e, f) = fgetc f in
      cbind (read_name [] f) (\<lambda>(patchname, f).
        if seof f then Exit 1
        else cbind (read_patches (unat num) f) (\<lambda>(ps, f).
          Ret (\<lparr>numpatches = num, essential = of_int e, description = c_string patchname, patches = ps\<rparr>, f))))"

lemma fgetc_srest_le: "fgetc f = (c, f') \<Longrightarrow> length (srest f') \<le> length (srest f)"
  by (auto simp: fgetc_def srest_def split: list.splits)

lemma read_name_srest: "read_name acc f = Ret (r, f') \<Longrightarrow> length (srest f') \<le> length (srest f)"
proof (induction acc f rule: read_name.induct)
  case (1 acc f)
  obtain n f1 where g: "fgetc f = (n, f1)" by fastforce
  note le = fgetc_srest_le [OF g]
  show ?case
  proof (cases "n \<noteq> 0x24 \<and> \<not> seof f1 \<and> \<not> length acc \<ge> 1024")
    case True
    then have "read_name (acc @ [of_int n]) f1 = Ret (r, f')" using 1(2) g by (simp add: read_name.simps [of acc f])
    with 1(1) [OF refl g [symmetric]] True have "length (srest f') \<le> length (srest f1)" by blast
    then show ?thesis using le by simp
  next
    case False
    then show ?thesis using 1(2) g le by (auto simp: read_name.simps [of acc f] split: if_splits)
  qed
qed

lemma read_data_srest: "read_data k f = Ret (r, f') \<Longrightarrow> length (srest f') \<le> length (srest f)"
  by (induction k arbitrary: f r) (fastforce simp: cbind_eq_Ret dest: fgetc_srest_le split: prod.splits if_splits)+

lemma read_patch_srest: "read_patch f = Ret (r, f') \<Longrightarrow> length (srest f') \<le> length (srest f)"
  by (fastforce simp: read_patch_def Let_def cbind_eq_Ret dest: fgetc_srest_le read_data_srest split: prod.splits if_splits)

lemma read_patches_srest: "read_patches n f = Ret (r, f') \<Longrightarrow> length (srest f') \<le> length (srest f)"
  by (induction n arbitrary: f r) (fastforce simp: cbind_eq_Ret dest: read_patch_srest split: prod.splits)+

lemma read_block_srest: "read_block num f = Ret (r, f') \<Longrightarrow> length (srest f') \<le> length (srest f)"
  by (fastforce simp: read_block_def Let_def cbind_eq_Ret dest: fgetc_srest_le read_name_srest read_patches_srest split: prod.splits if_splits)

text \<open>The loop over the blocks: the array of blocks has 8192 entries.\<close>

function read_blocks :: "xpc \<Rightarrow> stream \<Rightarrow> xpc cresult" where
  "read_blocks txpc f =
     (if seof f then Exit 1
      else
        let (n, f') = fgetc f in
        if n = 0 then Ret txpc
        else if numblocks txpc \<ge> 8192 then Undef
        else if seof f' then Exit 1
        else (case read_block (of_int n) f' of
            Exit k \<Rightarrow> Exit k
          | Undef \<Rightarrow> Undef
          | Ret bf \<Rightarrow> read_blocks (txpc\<lparr>numblocks := numblocks txpc + 1, xpcblock := xpcblock txpc @ [fst bf]\<rparr>) (snd bf)))"
  by pat_completeness auto
termination
proof (relation "measure (\<lambda>(_, f). length (srest f))")
  fix txpc :: xpc and f f' :: stream and x n bf
  assume a: "x = fgetc f" "(n, f') = x" "\<not> seof f'" "read_block (of_int n) f' = Ret bf"
  have "length (srest f') < length (srest f)"
    using a(1-3) by (cases "srest f") (auto simp: fgetc_front fgetc_empty srest_advance)
  then show "((txpc\<lparr>numblocks := numblocks txpc + 1, xpcblock := xpcblock txpc @ [fst bf]\<rparr>, snd bf), txpc, f) \<in> measure (\<lambda>(_, f). length (srest f))"
    using read_block_srest [of "of_int n" f' "fst bf" "snd bf"] a(4) by simp
qed simp

declare read_blocks.simps [simp del]

definition readxpc :: "memory \<Rightarrow> bytes \<Rightarrow> string \<Rightarrow> fsys \<Rightarrow> xpc cresult" where
  "readxpc junk stdin name fs =
     (case (if name = ''-'' then Some (sopen stdin) else fopen_rb name fs) of
        None \<Rightarrow> Exit 1
      | Some f \<Rightarrow>
          (let (_, sig, f) = fread_into (uninit junk 0 19) 19 f in
           if take 18 sig \<noteq> xpc_magic then Exit 1
           else read_blocks (newxpc\<lparr>version := sig ! 18\<rparr>) f))"

section \<open>Model: \<^verbatim>\<open>xpcapply.c\<close>\<close>

datatype ask = ASKNONE | ASKSOME | ASKALL

record xpc_options =
  inrom :: "string option"
  outrom :: "string option"
  xpcfile :: "string option"
  xapply :: ask

fun xpc_args :: "string list \<Rightarrow> xpc_options \<Rightarrow> xpc_options option" where
  "xpc_args [] opt = Some opt"
| "xpc_args (a # as) opt =
     (if a = ''-o'' then (case as of [] \<Rightarrow> None | b # bs \<Rightarrow> xpc_args bs (opt\<lparr>outrom := Some b\<rparr>))
      else if a = ''-ask'' then xpc_args as (opt\<lparr>xapply := ASKSOME\<rparr>)
      else if a = ''-askall'' then xpc_args as (opt\<lparr>xapply := ASKALL\<rparr>)
      else if inrom opt = None then xpc_args as (opt\<lparr>inrom := Some a\<rparr>)
      else if xpcfile opt = None then xpc_args as (opt\<lparr>xpcfile := Some a\<rparr>)
      else None)"

function copy_file :: "stream \<Rightarrow> stream \<Rightarrow> stream" where
  "copy_file fi fo =
     (if seof fi then fo
      else let (buffer, fi) = fread 8192 fi in copy_file fi (fwrite buffer fo))"
  by pat_completeness auto
termination
  by (relation "measure (\<lambda>(fi, _). chars_left fi)") (auto simp: chars_left_def fread_def srest_def)

declare copy_file.simps [simp del]

text \<open>\<open>answer i\<close> is the first character of the buffer after the question for block \<open>i\<close>.\<close>

definition wants :: "ask \<Rightarrow> (nat \<Rightarrow> byte) \<Rightarrow> nat \<Rightarrow> xpc_block \<Rightarrow> bool" where
  "wants a answer i b \<longleftrightarrow>
     \<not> (((a = ASKSOME \<and> essential b = 0) \<or> a = ASKALL) \<and> (answer i = 0x4E \<or> answer i = 0x6E))"

definition apply_patch :: "xpc_patch \<Rightarrow> stream \<Rightarrow> stream" where
  "apply_patch p f =
     (let (_, f) = fseek_set (int (unat (page p)) * 8192 + address p) f
      in fold fputc (take (unat (psize p)) (pdata p)) f)"

fun apply_blocks :: "ask \<Rightarrow> (nat \<Rightarrow> byte) \<Rightarrow> nat \<Rightarrow> xpc_block list \<Rightarrow> stream \<Rightarrow> stream" where
  "apply_blocks a answer i [] f = f"
| "apply_blocks a answer i (b # bs) f =
     apply_blocks a answer (Suc i) bs
       (if wants a answer i b then fold apply_patch (take (unat (numpatches b)) (patches b)) f else f)"

definition xpc_apply_to :: "memory \<Rightarrow> bytes \<Rightarrow> (nat \<Rightarrow> byte) \<Rightarrow> ask \<Rightarrow> string \<Rightarrow> string \<Rightarrow> fsys \<Rightarrow> fsys outcome" where
  "xpc_apply_to junk stdin answer a rom patchfile fs =
     (case readxpc junk stdin patchfile fs of
        Undef \<Rightarrow> Undefined
      | Exit n \<Rightarrow> Exited n fs
      | Ret xpc \<Rightarrow>
          (case fopen_rbp rom fs of
             None \<Rightarrow> Exited 1 fs
           | Some fi \<Rightarrow>
               (let (_, fi) = fseek_end 0 fi in
                if ftell fi AND 0x1fff \<noteq> 0 then Exited 1 fs
                else
                  let (_, fi) = fseek_set 0 fi;
                      fi = apply_blocks a answer 0 (take (numblocks xpc) (xpcblock xpc)) fi
                  in Returned 0 (fclose_to rom fi fs))))"

definition xpc_main :: "memory \<Rightarrow> bytes \<Rightarrow> (nat \<Rightarrow> byte) \<Rightarrow> string list \<Rightarrow> fsys \<Rightarrow> fsys outcome" where
  "xpc_main junk stdin answer argv fs =
     (case xpc_args (tl argv) \<lparr>inrom = None, outrom = None, xpcfile = None, xapply = ASKNONE\<rparr> of
        None \<Rightarrow> Exited 1 fs
      | Some opt \<Rightarrow>
          (case inrom opt of
             None \<Rightarrow> Exited 1 fs
           | Some rom \<Rightarrow>
               if length argv > 6 \<or> length argv < 2 \<or> length argv = 2 \<and> argv ! 1 = ''--help'' then Exited 1 fs
               else if xpcfile opt = None \<and> xapply opt \<noteq> ASKNONE then Exited 1 fs
               else
                 let patchfile = (case xpcfile opt of None \<Rightarrow> ''-'' | Some p \<Rightarrow> p) in
                 case outrom opt of
                   None \<Rightarrow> xpc_apply_to junk stdin answer (xapply opt) rom patchfile fs
                 | Some out \<Rightarrow>
                     (case fopen_rb rom fs of
                        None \<Rightarrow> Exited 1 fs
                      | Some fi \<Rightarrow>
                          (case fopen_wb out fs of
                             None \<Rightarrow> Exited 1 fs
                           | Some (fo, fs) \<Rightarrow>
                               xpc_apply_to junk stdin answer (xapply opt) out patchfile (fclose_to out (copy_file (truncated out rom fi) fo) fs)))))"

definition xpcPatchRom :: "memory \<Rightarrow> bytes \<Rightarrow> (nat \<Rightarrow> byte) \<Rightarrow> string \<Rightarrow> string \<Rightarrow> string \<Rightarrow> fsys \<Rightarrow> fsys outcome" where
  "xpcPatchRom junk stdin answer romPath patchPath outputFile fs =
     xpc_main junk stdin answer [''xpcapply'', romPath, patchPath, ''-o'', outputFile] fs"

section \<open>What is read is well formed\<close>

definition patch_wf :: "xpc_patch \<Rightarrow> bool" where
  "patch_wf p \<longleftrightarrow> length (pdata p) = unat (psize p) \<and> 0 \<le> address p \<and> address p < 65536"

definition block_wf :: "xpc_block \<Rightarrow> bool" where
  "block_wf b \<longleftrightarrow> 0 < unat (numpatches b) \<and> length (patches b) = unat (numpatches b) \<and> list_all patch_wf (patches b)
     \<and> length (description b) < 1024 \<and> 0 \<notin> set (description b) \<and> 0x24 \<notin> set (description b)"

definition xpc_wf :: "xpc \<Rightarrow> bool" where
  "xpc_wf x \<longleftrightarrow> length (xpcblock x) = numblocks x \<and> numblocks x \<le> 8192 \<and> list_all block_wf (xpcblock x)"

lemma fgetc_char:
  assumes "fgetc f = (c, f')" "\<not> seof f'" shows "0 \<le> c \<and> c < 256"
proof (cases "srest f")
  case (Cons b bs)
  then have "c = uint b" using assms(1) by (simp add: fgetc_front)
  moreover have "uint b < 2 ^ LENGTH(8)" by (rule uint_bounded)
  ultimately show ?thesis by simp
qed (use assms in \<open>auto simp: fgetc_empty\<close>)

lemma read_data_length: "read_data n f = Ret (bs, f') \<Longrightarrow> length bs = n"
  by (induction n arbitrary: f bs) (auto simp: cbind_eq_Ret split: prod.splits if_splits)

lemma read_patch_wf: "read_patch f = Ret (p, f') \<Longrightarrow> patch_wf p"
  by (fastforce simp: read_patch_def Let_def cbind_eq_Ret patch_wf_def dest: fgetc_char read_data_length split: prod.splits if_splits)

lemma read_patches_wf: "read_patches n f = Ret (ps, f') \<Longrightarrow> length ps = n \<and> list_all patch_wf ps"
  by (induction n arbitrary: f ps) (fastforce simp: cbind_eq_Ret dest: read_patch_wf split: prod.splits)+

lemma read_name_wf:
  "read_name acc f = Ret (r, f') \<Longrightarrow> 0x24 \<notin> set acc \<Longrightarrow> length r < 1024 \<and> 0x24 \<notin> set r"
proof (induction acc f rule: read_name.induct)
  case (1 acc f)
  obtain n f1 where g: "fgetc f = (n, f1)" by fastforce
  show ?case
  proof (cases "n \<noteq> 0x24 \<and> \<not> seof f1 \<and> \<not> length acc \<ge> 1024")
    case True
    then have r: "read_name (acc @ [of_int n]) f1 = Ret (r, f')" using 1(2) g by (simp add: read_name.simps [of acc f])
    have "(of_int n :: byte) \<noteq> 0x24"
    proof
      assume "(of_int n :: byte) = 0x24"
      then have "uint (of_int n :: byte) = 0x24" by simp
      then show False using True fgetc_char [OF g] by (simp add: uint_word_of_int_eq take_bit_int_eq_self)
    qed
    with 1(1) [OF refl g [symmetric]] True r 1(3) show ?thesis by simp
  next
    case False
    then show ?thesis using 1(2,3) g by (auto simp: read_name.simps [of acc f] split: if_splits)
  qed
qed

lemma read_block_wf: "read_block num f = Ret (b, f') \<Longrightarrow> 0 < unat num \<Longrightarrow> block_wf b"
proof -
  assume a: "read_block num f = Ret (b, f')" "0 < unat num"
  have "length (c_string r) \<le> length r" "set (c_string r) \<subseteq> set r" "0 \<notin> set (c_string r)" for r :: bytes
    by (auto simp: c_string_def length_takeWhile_le dest: set_takeWhileD)
  note cs = this
  obtain e f0 where g: "fgetc f = (e, f0)" by fastforce
  from a(1) g obtain r f1 ps f2 where
    r: "read_name [] f0 = Ret (r, f1)" "read_patches (unat num) f1 = Ret (ps, f2)"
      "b = \<lparr>numpatches = num, essential = of_int e, description = c_string r, patches = ps\<rparr>"
    by (auto simp: read_block_def Let_def cbind_eq_Ret split: if_splits)
  show ?thesis
    using cs [of r] read_name_wf [OF r(1)] read_patches_wf [OF r(2)] a(2) r(3) by (auto simp: block_wf_def)
qed

lemma read_blocks_wf: "read_blocks x f = Ret y \<Longrightarrow> xpc_wf x \<Longrightarrow> xpc_wf y"
proof (induction x f rule: read_blocks.induct)
  case (1 x f)
  obtain n f1 where g: "fgetc f = (n, f1)" by fastforce
  show ?case
  proof (cases "n = 0")
    case True
    then show ?thesis using 1(2,3) g by (auto simp: read_blocks.simps [of x f] split: if_splits)
  next
    case False
    then have c: "\<not> seof f" "\<not> numblocks x \<ge> 8192" "\<not> seof f1" using 1(2) g by (auto simp: read_blocks.simps [of x f] split: if_splits)
    then obtain bf where b: "read_block (of_int n) f1 = Ret bf" using 1(2) g False by (auto simp: read_blocks.simps [of x f] split: cresult.splits)
    then have r: "read_blocks (x\<lparr>numblocks := numblocks x + 1, xpcblock := xpcblock x @ [fst bf]\<rparr>) (snd bf) = Ret y"
      using 1(2) g False c by (simp add: read_blocks.simps [of x f])
    have "0 < unat (of_int n :: byte)"
      using fgetc_char [OF g c(3)] False by (simp add: unat_gt_0 of_int_eq_0_iff word_of_int_eq_0_iff) (auto dest: zdvd_imp_le)
    then have "block_wf (fst bf)" using read_block_wf [of "of_int n" f1 "fst bf" "snd bf"] b by simp
    then have "xpc_wf (x\<lparr>numblocks := numblocks x + 1, xpcblock := xpcblock x @ [fst bf]\<rparr>)" using 1(3) c(2) by (simp add: xpc_wf_def)
    then show ?thesis using 1(1) [OF c(1) refl g [symmetric] False c(2,3) b r] by blast
  qed
qed

text \<open>C25: whatever the file holds, a patch set that is read is well formed: it has at most 8192 blocks, each block has as many patches as its
  count says and a description without dollar sign or zero that fits its buffer, each patch has as many bytes as its size says and an
  address below 65536.\<close>

theorem readxpc_well_formed:
  assumes "readxpc junk stdin name fs = Ret x"
  shows "xpc_wf x"
proof -
  obtain f sig where "read_blocks (newxpc\<lparr>version := sig ! 18\<rparr>) f = Ret x"
    using assms by (auto simp: readxpc_def Let_def split: option.splits if_splits prod.splits)
  then show ?thesis by (rule read_blocks_wf) (simp add: xpc_wf_def newxpc_def)
qed

section \<open>Reading undoes writing\<close>

definition patch_bytes :: "xpc_patch \<Rightarrow> bytes" where
  "patch_bytes p = psize p # of_int (address p mod 256) # of_int (address p div 256) # page p # pdata p"

definition block_bytes :: "xpc_block \<Rightarrow> bytes" where
  "block_bytes b = numpatches b # essential b # description b @ 0x24 # concat (map patch_bytes (patches b))"

definition xpc_bytes :: "xpc \<Rightarrow> bytes" where
  "xpc_bytes x = xpc_magic @ version x # concat (map block_bytes (xpcblock x)) @ [0]"

lemma fold_fputc [stdio_simps]: "fold fputc bs f = fwrite bs f"
  by (induction bs arbitrary: f) (simp_all add: fputc_def stdio_simps)

lemma fold_write:
  "(\<And>x f. P x \<Longrightarrow> w x f = fwrite (b x) f) \<Longrightarrow> list_all P xs \<Longrightarrow> fold w xs f = fwrite (concat (map b xs)) f"
  by (induction xs arbitrary: f) (simp_all add: stdio_simps)

lemma write_patch_bytes: "patch_wf p \<Longrightarrow> write_patch p f = fwrite (patch_bytes p) f"
proof -
  assume "patch_wf p"
  moreover have "address p AND 0xff = address p mod 256" using take_bit_eq_mask [of 8 "address p"] by (simp add: take_bit_eq_mod mask_eq_exp_minus_1)
  moreover have "drop_bit 8 (address p) = address p div 256" by (simp add: drop_bit_eq_div)
  ultimately show ?thesis by (simp add: write_patch_def patch_bytes_def patch_wf_def fputc_def stdio_simps)
qed

lemma write_block_bytes: "block_wf b \<Longrightarrow> write_block b f = fwrite (block_bytes b) f"
  by (simp add: write_block_def block_bytes_def block_wf_def fputc_def fold_write [of patch_wf, OF write_patch_bytes] stdio_simps)

lemma writexpc_bytes:
  assumes "xpc_wf x" "name \<noteq> ''-''" "writable fs name"
  shows "writexpc name x fs = Ret ([], put_file name (xpc_bytes x) fs)"
proof -
  have "fold write_block (xpcblock x) f = fwrite (concat (map block_bytes (xpcblock x))) f" for f
    using assms(1) by (intro fold_write [of block_wf]) (simp_all add: write_block_bytes xpc_wf_def)
  then show ?thesis using assms
    by (simp add: writexpc_def fopen_wb_def fclose_to_def xpc_wf_def xpc_bytes_def fputc_def stdio_simps overwrite_def)
qed

lemma read_data_front:
  "srest f = bs @ ys \<Longrightarrow> \<not> seof f \<Longrightarrow> read_data (length bs) f = Ret (bs, advance (length bs) f)"
  by (induction bs arbitrary: f) (simp_all add: stdio_simps fgetc_front)

lemma read_patch_front:
  assumes "patch_wf p" "srest f = patch_bytes p @ ys" "\<not> seof f"
  shows "read_patch f = Ret (p, advance (length (patch_bytes p)) f)"
proof -
  have r: "srest (advance k f) = drop k (patch_bytes p) @ drop (k - length (patch_bytes p)) ys" for k using assms(2) by (simp add: stdio_simps)
  have g: "fgetc f = (uint (psize p), advance 1 f)" "fgetc (advance 1 f) = (uint (of_int (address p mod 256) :: byte), advance 2 f)"
    "fgetc (advance 2 f) = (uint (of_int (address p div 256) :: byte), advance 3 f)" "fgetc (advance 3 f) = (uint (page p), advance 4 f)"
    using r [of 0] r [of 1] r [of 2] r [of 3] by (simp_all add: fgetc_front patch_bytes_def stdio_simps)
  have a: "0 \<le> address p" "address p < 65536" using assms(1) by (simp_all add: patch_wf_def)
  then have "address p div 256 < 256" "0 \<le> address p div 256" by linarith+
  then have u: "uint (of_int (address p mod 256) :: byte) + 256 * uint (of_int (address p div 256) :: byte) = address p"
    by (simp add: uint_word_of_int_eq take_bit_int_eq_self)
  have d: "read_data (unat (psize p)) (advance 4 f) = Ret (pdata p, advance (length (patch_bytes p)) f)"
    using read_data_front [of "advance 4 f" "pdata p" ys] assms r [of 4] by (simp add: patch_wf_def patch_bytes_def stdio_simps numeral_eq_Suc)
  show ?thesis using assms(1,3)
    by (simp add: read_patch_def g g(1,2) [unfolded One_nat_def] u d stdio_simps patch_wf_def Let_def)
qed

lemma read_patches_front:
  "list_all patch_wf ps \<Longrightarrow> srest f = concat (map patch_bytes ps) @ ys \<Longrightarrow> \<not> seof f \<Longrightarrow>
     read_patches (length ps) f = Ret (ps, advance (length (concat (map patch_bytes ps))) f)"
proof (induction ps arbitrary: f)
  case (Cons p ps)
  then have "read_patch f = Ret (p, advance (length (patch_bytes p)) f)"
    by (intro read_patch_front [where ys = "concat (map patch_bytes ps) @ ys"]) simp_all
  then show ?case using Cons by (simp add: stdio_simps)
qed (simp add: stdio_simps)

lemma read_name_front:
  "srest f = nm @ 0x24 # ys \<Longrightarrow> \<not> seof f \<Longrightarrow> 0x24 \<notin> set nm \<Longrightarrow> length acc + length nm < 1024 \<Longrightarrow>
     read_name acc f = Ret (acc @ nm, advance (Suc (length nm)) f)"
proof (induction nm arbitrary: acc f)
  case Nil
  then show ?case by (subst read_name.simps) (simp add: fgetc_front)
next
  case (Cons b nm)
  then have "uint b \<noteq> 0x24" by (auto simp: word_uint_eq_iff)
  then show ?case using Cons by (subst read_name.simps) (simp add: fgetc_front stdio_simps)
qed

lemma read_block_front:
  assumes "block_wf b" "srest f = tl (block_bytes b) @ ys" "\<not> seof f"
  shows "read_block (numpatches b) f = Ret (b, advance (length (block_bytes b) - 1) f)"
proof -
  let ?ps = "concat (map patch_bytes (patches b))" and ?n = "length (description b)"
  have r: "srest f = essential b # description b @ 0x24 # ?ps @ ys" using assms(2) by (simp add: block_bytes_def)
  have w: "0x24 \<notin> set (description b)" "?n < 1024" "length (patches b) = unat (numpatches b)" "list_all patch_wf (patches b)"
    "c_string (description b) = description b"
    using assms(1) by (auto simp: block_wf_def c_string_def takeWhile_eq_all_conv)
  have n: "read_name [] (advance 1 f) = Ret (description b, advance (Suc ?n) (advance 1 f))"
    using read_name_front [of "advance 1 f" "description b" "?ps @ ys" "[]"] r assms(3) w by (simp add: stdio_simps)
  have p: "read_patches (unat (numpatches b)) (advance (Suc (Suc ?n)) f) = Ret (patches b, advance (length ?ps) (advance (Suc (Suc ?n)) f))"
    using read_patches_front [of "patches b" "advance (Suc (Suc ?n)) f" ys] r assms(3) w by (simp add: stdio_simps)
  show ?thesis using n p w(5) assms(3)
    by (simp add: read_block_def fgetc_front [OF r] stdio_simps block_bytes_def)
qed

lemma read_blocks_front:
  "list_all block_wf bs \<Longrightarrow> srest f = concat (map block_bytes bs) @ 0 # ys \<Longrightarrow> \<not> seof f \<Longrightarrow> numblocks x + length bs \<le> 8192 \<Longrightarrow>
     read_blocks x f = Ret (x\<lparr>numblocks := numblocks x + length bs, xpcblock := xpcblock x @ bs\<rparr>)"
proof (induction bs arbitrary: x f)
  case Nil
  then show ?case by (subst read_blocks.simps) (simp add: fgetc_front)
next
  case (Cons b bs)
  have "block_bytes b = numpatches b # tl (block_bytes b)" by (simp add: block_bytes_def)
  then have r: "srest f = numpatches b # tl (block_bytes b) @ concat (map block_bytes bs) @ 0 # ys"
    using Cons.prems(2) by (metis append_Cons append_assoc concat.simps(2) list.simps(9))
  have nz: "uint (numpatches b) \<noteq> 0" using Cons.prems(1) by (simp add: block_wf_def unat_gt_0 uint_0_iff)
  have "read_block (numpatches b) (advance 1 f) = Ret (b, advance (length (block_bytes b) - 1) (advance 1 f))"
    using Cons.prems r by (intro read_block_front) (simp_all add: stdio_simps)
  moreover have "Suc (length (block_bytes b) - 1) = length (block_bytes b)" by (simp add: block_bytes_def)
  ultimately have b: "read_block (numpatches b) (advance 1 f) = Ret (b, advance (length (block_bytes b)) f)" by (simp add: stdio_simps)
  have "read_blocks x f = read_blocks (x\<lparr>numblocks := numblocks x + 1, xpcblock := xpcblock x @ [b]\<rparr>) (advance (length (block_bytes b)) f)"
    using Cons.prems nz b by (subst read_blocks.simps) (simp add: fgetc_front [OF r] stdio_simps)
  also have "\<dots> = Ret (x\<lparr>numblocks := numblocks x + 1 + length bs, xpcblock := (xpcblock x @ [b]) @ bs\<rparr>)"
    using Cons.prems by (subst Cons.IH) (simp_all add: stdio_simps)
  finally show ?case by simp
qed

lemma readxpc_bytes:
  assumes "xpc_wf x" "content fs name = Some (xpc_bytes x)" "name \<noteq> ''-''"
  shows "readxpc junk stdin name fs = Ret x"
proof -
  let ?f = "sopen (xpc_bytes x)"
  have "fread_into (uninit junk 0 19) 19 ?f = (19, xpc_magic @ [version x], advance 19 ?f)"
    using fread_into_front [of ?f "xpc_magic @ [version x]" "concat (map block_bytes (xpcblock x)) @ [0]" 19 "uninit junk 0 19"]
    by (simp add: xpc_bytes_def stdio_simps xpc_magic_def)
  moreover have "srest (advance 19 ?f) = concat (map block_bytes (xpcblock x)) @ 0 # []" by (simp add: stdio_simps xpc_bytes_def xpc_magic_def)
  then have "read_blocks (newxpc\<lparr>version := version x\<rparr>) (advance 19 ?f) = Ret x"
    using assms(1) read_blocks_front [of "xpcblock x" "advance 19 ?f" "[]" "newxpc\<lparr>version := version x\<rparr>"]
    by (simp add: xpc_wf_def newxpc_def stdio_simps)
  moreover have "length xpc_magic = 18" by (simp add: xpc_magic_def)
  ultimately show ?thesis using assms(2,3) by (simp add: readxpc_def fopen_rb_def nth_append)
qed

text \<open>C23: writing a well-formed patch set to a file and reading the file gives the patch set back.\<close>

theorem xpc_write_read:
  assumes "xpc_wf x" "name \<noteq> ''-''" "writable fs name"
  shows "\<exists>fs'. writexpc name x fs = Ret ([], fs') \<and> readxpc junk stdin name fs' = Ret x"
  using writexpc_bytes [OF assms] readxpc_bytes [OF assms(1) _ assms(2)] by (simp add: stdio_simps)

definition xpc_example :: xpc where
  "xpc_example = \<lparr>version = 0x10, numblocks = 1, xpcblock =
     [\<lparr>numpatches = 2, essential = 1, description = [0x68, 0x69],
        patches = [\<lparr>psize = 2, page = 0, address = 3, pdata = [7, 8]\<rparr>, \<lparr>psize = 1, page = 1, address = 0, pdata = [9]\<rparr>]\<rparr>]\<rparr>"

lemma xpc_example_wf: "xpc_wf xpc_example"
  by (simp add: xpc_example_def xpc_wf_def block_wf_def patch_wf_def)

definition xpc_files :: fsys where
  "xpc_files = \<lparr>content = [''rom'' \<mapsto> replicate 8192 5, ''xpc'' \<mapsto> xpc_bytes xpc_example, ''bad'' \<mapsto> replicate 18 0], writable = \<lambda>_. True\<rparr>"

theorem xpc_write_read_witness:
  "\<exists>fs'. writexpc ''p'' xpc_example xpc_files = Ret ([], fs') \<and> readxpc (\<lambda>_. 0) [] ''p'' fs' = Ret xpc_example"
  by (rule xpc_write_read [OF xpc_example_wf]) (simp_all add: xpc_files_def)

theorem readxpc_well_formed_witness: "xpc_wf xpc_example \<and> numblocks xpc_example = 1"
proof -
  have "readxpc (\<lambda>_. 0) [] ''xpc'' xpc_files = Ret xpc_example"
    by (rule readxpc_bytes [OF xpc_example_wf]) (simp_all add: xpc_files_def)
  from readxpc_well_formed [OF this] show ?thesis by (simp add: xpc_example_def)
qed

section \<open>Applying\<close>

definition patch_pos :: "xpc_patch \<Rightarrow> nat" where
  "patch_pos p = unat (page p) * 8192 + nat (address p)"

definition xpc_result :: "xpc \<Rightarrow> bytes \<Rightarrow> bytes" where
  "xpc_result x d = foldl (\<lambda>d p. overwrite (patch_pos p) (pdata p) d) d (concat (map patches (xpcblock x)))"

lemma copy_file_all: "\<not> seof fi \<Longrightarrow> copy_file fi fo = fwrite (srest fi) fo"
proof (induction fi fo rule: copy_file.induct)
  case (1 fi fo)
  obtain buf fi' where r: "fread 8192 fi = (buf, fi')" by fastforce
  have buf: "buf = take 8192 (srest fi)" "srest fi' = drop 8192 (srest fi)" "seof fi' \<longleftrightarrow> length (srest fi) < 8192"
    using r 1(2) srest_fread [of 8192 fi] by (auto simp: fread_def)
  show ?case
  proof (cases "seof fi'")
    case True
    then show ?thesis using 1(2) r buf by (simp add: copy_file.simps [of fi] copy_file.simps [of fi'])
  next
    case False
    then have "copy_file fi' (fwrite buf fo) = fwrite (srest fi') (fwrite buf fo)" using 1(1) [OF 1(2) refl r [symmetric]] by simp
    then show ?thesis using 1(2) r buf by (simp add: copy_file.simps [of fi] stdio_simps)
  qed
qed

lemma apply_patch_data:
  assumes "patch_wf p"
  shows "sdata (apply_patch p f) = overwrite (patch_pos p) (pdata p) (sdata f)"
  using assms by (simp add: apply_patch_def patch_wf_def patch_pos_def fseek_set_nonneg stdio_simps nat_add_distrib nat_mult_distrib)

lemma apply_patches_data:
  "list_all patch_wf ps \<Longrightarrow> sdata (fold apply_patch ps f) = foldl (\<lambda>d p. overwrite (patch_pos p) (pdata p) d) (sdata f) ps"
  by (induction ps arbitrary: f) (simp_all add: apply_patch_data)

lemma apply_blocks_data:
  "list_all block_wf bs \<Longrightarrow> sdata (apply_blocks ASKNONE answer i bs f)
     = foldl (\<lambda>d p. overwrite (patch_pos p) (pdata p) d) (sdata f) (concat (map patches bs))"
  by (induction bs arbitrary: i f) (simp_all add: wants_def block_wf_def apply_patches_data)

lemma and_1fff: "v AND 0x1fff = v mod 8192" for v :: int
  using take_bit_eq_mask [of 13 v] by (simp add: take_bit_eq_mod mask_eq_exp_minus_1)

text \<open>The copy is made before anything is checked.\<close>

lemma xpcPatchRom_start:
  assumes "content fs rom = Some r" "writable fs out" "rom \<noteq> out" "rom \<notin> {''-o'', ''-ask'', ''-askall''}" "patch \<notin> {''-o'', ''-ask'', ''-askall''}"
  shows "xpcPatchRom junk stdin answer rom patch out fs = xpc_apply_to junk stdin answer ASKNONE out patch (put_file out r fs)"
  using assms copy_file_all [of "sopen r" "sopen []"] truncated_other [of out rom "sopen r"]
  by (simp add: xpcPatchRom_def xpc_main_def fopen_rb_def fopen_wb_def fclose_to_def stdio_simps overwrite_def)

text \<open>C14: a well-formed patch file applied to a ROM whose size is a multiple of 8192 leaves in the output file the ROM with exactly the bytes
  of every patch put at their page and address; the ROM and the patch file are unchanged and the result is 0.  The output is neither the ROM
  nor the patch.\<close>

theorem xpc_apply_correct:
  assumes "content fs rom = Some r" "content fs patch = Some (xpc_bytes x)" "xpc_wf x" "writable fs out" "patch \<noteq> out" "rom \<noteq> out" "patch \<noteq> ''-''"
    and "rom \<notin> {''-o'', ''-ask'', ''-askall''}" "patch \<notin> {''-o'', ''-ask'', ''-askall''}" "length r mod 8192 = 0" "length r < 2 ^ 31"
  shows "xpcPatchRom junk stdin answer rom patch out fs = Returned 0 (put_file out (xpc_result x r) fs)"
proof -
  let ?fs = "put_file out r fs"
  have "readxpc junk stdin patch ?fs = Ret x" using assms(2,3,5,7) by (intro readxpc_bytes) (simp_all add: stdio_simps)
  moreover have "fopen_rbp out ?fs = Some (sopen r)" using assms(4) by (simp add: fopen_rbp_def stdio_simps)
  moreover have "int (length r) mod 8192 = 0" using assms(10) zmod_int [of "length r" 8192] by simp
  moreover have "(sopen r)\<lparr>spos := 0, seof := False\<rparr> = sopen r" by (simp add: sopen_def)
  moreover have "sdata (apply_blocks ASKNONE answer 0 (take (numblocks x) (xpcblock x)) (sopen r)) = xpc_result x r"
    using apply_blocks_data [of "xpcblock x" answer 0 "sopen r"] assms(3) by (simp add: xpc_wf_def xpc_result_def sdata_sopen)
  ultimately show ?thesis unfolding xpcPatchRom_start [OF assms(1,4,6,8,9)]
    using assms(11) by (simp add: xpc_apply_to_def fseek_end_0 fseek_set_nonneg ftell_def and_1fff sdata_sopen fclose_to_def put_file_put_file)
qed

theorem xpc_apply_correct_witness:
  "xpcPatchRom (\<lambda>_. 0) [] (\<lambda>_. 0) ''rom'' ''xpc'' ''out'' xpc_files
     = Returned 0 (put_file ''out'' (replicate 3 5 @ [7, 8] @ replicate 8187 5 @ [9]) xpc_files)"
proof -
  have "xpc_result xpc_example (replicate 8192 5) = replicate 3 5 @ [7, 8] @ replicate 8187 5 @ [9]"
  proof -
    have one: "overwrite 3 [7, 8] (replicate 8192 5) = replicate 3 5 @ [7, 8] @ replicate 8187 (5 :: byte)"
      by (simp add: overwrite_def take_replicate)
    have "overwrite 8192 [9] (replicate 3 5 @ [7, 8] @ replicate 8187 5) = (replicate 3 5 @ [7, 8] @ replicate 8187 5) @ [9 :: byte]"
      using overwrite_at_end [of "replicate 3 5 @ [7, 8] @ replicate 8187 5" "[9]"] by simp
    then show ?thesis by (simp add: xpc_result_def xpc_example_def patch_pos_def one)
  qed
  then show ?thesis
    using xpc_apply_correct [of xpc_files "''rom''" "replicate 8192 5" "''xpc''" xpc_example "''out''" "\<lambda>_. 0" "[]" "\<lambda>_. 0"] xpc_example_wf
    by (simp add: xpc_files_def)
qed

text \<open>A file without the signature is refused with exit code 1, and so is a ROM whose size is not a multiple of 8192; in both
  cases the output file holds an unchanged copy of the ROM.\<close>

theorem xpc_rejects:
  assumes "content fs rom = Some r" "writable fs out" "rom \<noteq> out" "patch \<noteq> out" "patch \<noteq> ''-''"
    and "rom \<notin> {''-o'', ''-ask'', ''-askall''}" "patch \<notin> {''-o'', ''-ask'', ''-askall''}"
    and "content fs patch = Some p" "18 \<le> length p" "take 18 p \<noteq> xpc_magic \<or> p = xpc_bytes x \<and> xpc_wf x \<and> length r mod 8192 \<noteq> 0"
  shows "xpcPatchRom junk stdin answer rom patch out fs = Exited 1 (put_file out r fs)"
proof -
  let ?fs = "put_file out r fs"
  have o: "fopen_rb patch ?fs = Some (sopen p)" using assms(4,8) by (simp add: fopen_rb_def stdio_simps)
  show ?thesis
  proof (cases "take 18 p = xpc_magic")
    case False
    obtain k sig f where r: "fread_into (uninit junk 0 19) 19 (sopen p) = (k, sig, f)" by (metis surj_pair)
    then have "take 18 sig = take 18 p" using assms(9) by (auto simp: fread_into_def fread_def srest_sopen min_def)
    then have "readxpc junk stdin patch ?fs = Exit 1" using False o r assms(5) by (simp add: readxpc_def)
    then show ?thesis unfolding xpcPatchRom_start [OF assms(1,2,3,6,7)] by (simp add: xpc_apply_to_def)
  next
    case True
    then have x: "p = xpc_bytes x" "xpc_wf x" "length r mod 8192 \<noteq> 0" using assms(10) by auto
    then have "readxpc junk stdin patch ?fs = Ret x" using assms(4,5,8) by (intro readxpc_bytes) (simp_all add: stdio_simps)
    moreover have "int (length r) mod 8192 \<noteq> 0" using x(3) zmod_int [of "length r" 8192] by simp
    moreover have "fopen_rbp out ?fs = Some (sopen r)" using assms(2) by (simp add: fopen_rbp_def stdio_simps)
    ultimately show ?thesis unfolding xpcPatchRom_start [OF assms(1,2,3,6,7)]
      by (simp add: xpc_apply_to_def fseek_end_0 ftell_def and_1fff sdata_sopen)
  qed
qed

theorem xpc_rejects_witness:
  "xpcPatchRom (\<lambda>_. 0) [] (\<lambda>_. 0) ''rom'' ''bad'' ''out'' xpc_files = Exited 1 (put_file ''out'' (replicate 8192 5) xpc_files)"
proof (rule xpc_rejects [where p = "replicate 18 0" and x = xpc_example])
  have "hd (replicate 18 (0 :: byte)) \<noteq> hd xpc_magic" by (simp add: xpc_magic_def)
  then have "replicate 18 0 \<noteq> xpc_magic" by metis
  then show "take 18 (replicate 18 0) \<noteq> xpc_magic
    \<or> replicate 18 0 = xpc_bytes xpc_example \<and> xpc_wf xpc_example \<and> length (replicate 8192 (5 :: byte)) mod 8192 \<noteq> 0" by simp
qed (simp_all add: xpc_files_def)

text \<open>An output that is the ROM itself empties the ROM before it is copied: the patches are applied to nothing, and 0 is returned.\<close>

theorem xpc_output_is_rom:
  assumes "content fs rom = Some r" "content fs patch = Some (xpc_bytes x)" "xpc_wf x" "writable fs rom" "patch \<noteq> rom" "patch \<noteq> ''-''"
    and "rom \<notin> {''-o'', ''-ask'', ''-askall''}" "patch \<notin> {''-o'', ''-ask'', ''-askall''}"
  shows "xpcPatchRom junk stdin answer rom patch rom fs = Returned 0 (put_file rom (xpc_result x []) fs)"
proof -
  let ?fs = "put_file rom [] fs"
  have e: "(sopen d)\<lparr>sdata := []\<rparr> = sopen []" for d by (simp add: sopen_def)
  have "xpcPatchRom junk stdin answer rom patch rom fs = xpc_apply_to junk stdin answer ASKNONE rom patch ?fs"
    using assms copy_file_all [of "sopen []" "sopen []"]
    by (simp add: xpcPatchRom_def xpc_main_def fopen_rb_def fopen_wb_def fclose_to_def truncated_same e stdio_simps)
  moreover have "readxpc junk stdin patch ?fs = Ret x" using assms(2,3,5,6) by (intro readxpc_bytes) (simp_all add: stdio_simps)
  moreover have "fopen_rbp rom ?fs = Some (sopen [])" using assms(4) by (simp add: fopen_rbp_def stdio_simps)
  moreover have "sdata (apply_blocks ASKNONE answer 0 (take (numblocks x) (xpcblock x)) (sopen [])) = xpc_result x []"
    using apply_blocks_data [of "xpcblock x" answer 0 "sopen []"] assms(3) by (simp add: xpc_wf_def xpc_result_def sdata_sopen)
  moreover have "(sopen [])\<lparr>spos := 0, seof := False\<rparr> = sopen []" by (simp add: sopen_def)
  ultimately show ?thesis
    by (simp add: xpc_apply_to_def fseek_end_0 fseek_set_nonneg ftell_def sdata_sopen spos_sopen fclose_to_def put_file_put_file)
qed

theorem xpc_output_is_rom_witness:
  "xpcPatchRom (\<lambda>_. 0) [] (\<lambda>_. 0) ''rom'' ''xpc'' ''rom'' xpc_files = Returned 0 (put_file ''rom'' (xpc_result xpc_example []) xpc_files)"
  by (rule xpc_output_is_rom [where r = "replicate 8192 5"]) (simp_all add: xpc_files_def xpc_example_wf)

text \<open>every position a patch that was read is written to fits an \<^verbatim>\<open>int\<close> with room to spare: page, address and size
  keep it below 2154751.\<close>

theorem xpc_positions_bounded:
  assumes "readxpc junk stdin name fs = Ret x" "b \<in> set (xpcblock x)" "p \<in> set (patches b)"
  shows "0 \<le> int (unat (page p)) * 8192 + address p \<and> int (unat (page p)) * 8192 + address p + int (length (pdata p)) < 2154751"
proof -
  obtain f sig where "read_blocks (newxpc\<lparr>version := sig ! 18\<rparr>) f = Ret x"
    using assms(1) by (auto simp: readxpc_def Let_def split: option.splits if_splits prod.splits)
  then have "xpc_wf x" by (rule read_blocks_wf) (simp add: xpc_wf_def newxpc_def)
  then have "patch_wf p" using assms(2,3) by (auto simp: xpc_wf_def block_wf_def list_all_iff)
  moreover have "int (unat (page p)) < 256" "int (unat (psize p)) < 256" using unat_byte_lt [of "page p"] unat_byte_lt [of "psize p"] by linarith+
  ultimately show ?thesis unfolding patch_wf_def by linarith
qed

theorem xpc_positions_bounded_witness:
  "let p = \<lparr>psize = 1, page = 1, address = 0, pdata = [9]\<rparr>
   in 0 \<le> int (unat (page p)) * 8192 + address p \<and> int (unat (page p)) * 8192 + address p + int (length (pdata p)) < 2154751"
proof -
  have r: "readxpc (\<lambda>_. 0) [] ''xpc'' xpc_files = Ret xpc_example"
    by (rule readxpc_bytes [OF xpc_example_wf]) (simp_all add: xpc_files_def)
  show ?thesis unfolding Let_def
    by (rule xpc_positions_bounded [OF r, of "hd (xpcblock xpc_example)"]) (simp_all add: xpc_example_def)
qed

text \<open>A description of 1024 characters or more runs over the buffer of 1024 bytes: reading such a file has no defined behaviour.\<close>

theorem xpc_long_description_undefined:
  assumes "content fs name = Some (xpc_magic @ [v, n, e] @ desc @ rest)" "name \<noteq> ''-''" "n \<noteq> 0" "1024 \<le> length desc" "0x24 \<notin> set desc" "rest \<noteq> []"
  shows "readxpc junk stdin name fs = Undef"
proof -
  have name_undef: "read_name acc f = Undef"
    if "srest f = ds @ y # ys" "\<not> seof f" "0x24 \<notin> set ds" "length acc \<le> 1024" "1024 \<le> length acc + length ds" for acc ds y ys f
    using that
  proof (induction ds arbitrary: acc f)
    case Nil
    then show ?case by (subst read_name.simps) (simp add: fgetc_front stdio_simps)
  next
    case (Cons d ds)
    then have "uint d \<noteq> 0x24" by (auto simp: word_uint_eq_iff)
    then show ?case using Cons by (subst read_name.simps) (cases "length acc = 1024", simp_all add: fgetc_front stdio_simps)
  qed
  obtain y ys where rest: "rest = y # ys" using assms(6) by (cases rest) auto
  define f where "f = sopen (xpc_magic @ [v, n, e] @ desc @ rest)"
  have f_seof: "\<not> seof f" by (simp add: f_def stdio_simps)
  have l: "length xpc_magic = 18" by (simp add: xpc_magic_def)
  have sig: "fread_into (uninit junk 0 19) 19 f = (19, xpc_magic @ [v], advance 19 f)"
    using fread_into_front [of f "xpc_magic @ [v]" "[n, e] @ desc @ rest" 19 "uninit junk 0 19"] l by (simp add: f_def stdio_simps)
  have r: "srest (advance 19 f) = n # e # desc @ rest" "srest (advance 20 f) = e # desc @ rest" "srest (advance 21 f) = desc @ y # ys"
    using l rest by (simp_all add: f_def stdio_simps)
  have "read_name [] (advance 21 f) = Undef" using assms(4,5) by (intro name_undef [OF r(3)]) (simp_all add: f_def stdio_simps)
  then have "read_block n (advance 20 f) = Undef" by (simp add: read_block_def fgetc_front [OF r(2)] stdio_simps)
  moreover have "uint n \<noteq> 0" using assms(3) by (simp add: uint_0_iff)
  ultimately have "read_blocks (newxpc\<lparr>version := v\<rparr>) (advance 19 f) = Undef"
    by (subst read_blocks.simps) (simp add: fgetc_front [OF r(1)] stdio_simps newxpc_def f_seof)
  then show ?thesis using assms(1,2) sig l by (simp add: readxpc_def fopen_rb_def nth_append f_def)
qed

theorem xpc_long_description_undefined_witness:
  "readxpc (\<lambda>_. 0) [] ''p'' \<lparr>content = [''p'' \<mapsto> xpc_magic @ [0x10, 1, 1] @ replicate 1024 65 @ [0x24]], writable = \<lambda>_. True\<rparr> = Undef"
  by (rule xpc_long_description_undefined [where v = "0x10" and n = 1 and e = 1 and desc = "replicate 1024 65" and rest = "[0x24]"]) simp_all

end
