(* ===== verification/Dldi.thy ===== *)
theory Dldi
  imports CStdio "HOL-Library.Monad_Syntax"
begin

text \<open>
  The disk interface patcher, \<^verbatim>\<open>jni/dldipatcher/dlditool.c\<close>: a driver file is copied over the reserved
  section of an application and its pointers are moved to the address the section has in memory.
  Addresses are 32-bit words, added with wrap-around and compared as signed numbers.  \<open>None\<close> is an access outside
  a buffer.  Main results: the search finds the first section at a multiple of four; whatever the two files
  hold, a run that stays inside its buffers changes only the reserved stretch; the pointers of the header are
  moved by the same distance.
\<close>

section \<open>Model: strings and names\<close>

definition dldiMagicString :: bytes where
  "dldiMagicString = [0xED, 0xA5, 0x8D, 0xBF, 0x20, 0x43, 0x68, 0x69, 0x73, 0x68, 0x6D, 0x00]"

definition dldiFileExtension :: string where
  "dldiFileExtension = ''.dldi''"

definition tolower_code :: "char \<Rightarrow> int" where
  "tolower_code c = (let n = (of_char c :: int) in if 65 \<le> n \<and> n \<le> 90 then n + 32 else n)"

fun stringCaseInsensitiveCompare :: "string \<Rightarrow> string \<Rightarrow> int" where
  "stringCaseInsensitiveCompare [] [] = 0"
| "stringCaseInsensitiveCompare [] (c # cs) = - tolower_code c"
| "stringCaseInsensitiveCompare (c # cs) [] = tolower_code c"
| "stringCaseInsensitiveCompare (c # cs) (d # ds) =
     (if tolower_code c = tolower_code d then stringCaseInsensitiveCompare cs ds else tolower_code c - tolower_code d)"

definition stringEndsWith :: "string \<Rightarrow> string \<Rightarrow> bool" where
  "stringEndsWith str end =
     (if length str < length end then False
      else stringCaseInsensitiveCompare (drop (length str - length end) str) end = 0)"

definition stringStartsWith :: "string \<Rightarrow> string \<Rightarrow> bool" where
  "stringStartsWith str start \<longleftrightarrow> take (length start) str = start"

definition is_slash :: "char \<Rightarrow> bool" where
  "is_slash c \<longleftrightarrow> c = CHR 0x5C \<or> c = CHR ''/''"

text \<open>The last slash of the program's name; the loop looks at the second character first.\<close>

definition last_slash :: "string \<Rightarrow> nat option" where
  "last_slash s = (case filter (\<lambda>i. is_slash (s ! i)) [1..<length s] of [] \<Rightarrow> None | is \<Rightarrow> Some (last is))"

text \<open>The directories of the search path up to the one that holds the program; empty when none does.\<close>

function path_parts :: "string \<Rightarrow> string list" where
  "path_parts p =
     (case dropWhile (\<lambda>c. c \<noteq> CHR '':'') p of
        [] \<Rightarrow> [p]
      | _ # rest \<Rightarrow> takeWhile (\<lambda>c. c \<noteq> CHR '':'') p # path_parts rest)"
  by pat_completeness auto
termination
proof (relation "measure length")
  fix p a and rest :: string assume "dropWhile (\<lambda>c. c \<noteq> CHR '':'') p = a # rest"
  then have "length (a # rest) \<le> length p" by (metis length_dropWhile_le)
  then show "(rest, p) \<in> measure length" by simp
qed simp

declare path_parts.simps [simp del]

fun find_in_path :: "string list \<Rightarrow> string \<Rightarrow> fsys \<Rightarrow> string" where
  "find_in_path [] appName fs = []"
| "find_in_path (dir # dirs) appName fs =
     (if content fs (dir @ ''/'' @ appName) \<noteq> None then dir @ ''/'' else find_in_path dirs appName fs)"

text \<open>
  Opening the driver: as named, then in \<^verbatim>\<open>DLDIPATH\<close>, then beside the program.  \<open>env\<close> is the environment; without
  \<^verbatim>\<open>PATH\<close> a null pointer is used.  Names are assumed to fit \<^verbatim>\<open>MAXPATHLEN\<close>.
\<close>

definition openDLDIFile :: "(string \<Rightarrow> string option) \<Rightarrow> string \<Rightarrow> string \<Rightarrow> fsys \<Rightarrow> stream option cresult" where
  "openDLDIFile env argv0 dldiFileName fs =
     (let name = (if \<not> stringEndsWith dldiFileName dldiFileExtension then dldiFileName @ dldiFileExtension else dldiFileName) in
      case fopen_rb name fs of
        Some f \<Rightarrow> Ret (Some f)
      | None \<Rightarrow>
          if list_ex is_slash name then Ret None
          else
            (case (case env ''DLDIPATH'' of None \<Rightarrow> None | Some d \<Rightarrow> fopen_rb (d @ ''/'' @ name) fs) of
               Some f \<Rightarrow> Ret (Some f)
             | None \<Rightarrow>
                 (case last_slash argv0 of
                    Some k \<Rightarrow> Ret (fopen_rb (take k argv0 @ ''/'' @ ''dldi/'' @ name) fs)
                  | None \<Rightarrow>
                      (case env ''PATH'' of
                         None \<Rightarrow> Undef
                       | Some p \<Rightarrow> Ret (fopen_rb (find_in_path (path_parts p) argv0 fs @ ''dldi/'' @ name) fs)))))"

section \<open>Model: addresses\<close>

definition readAddr :: "bytes \<Rightarrow> int \<Rightarrow> u32 option" where
  "readAddr mem offset =
     (if 0 \<le> offset \<and> nat offset + 4 \<le> length mem then Some (of_nat (le_val (take 4 (drop (nat offset) mem)))) else None)"

definition writeAddr :: "bytes \<Rightarrow> int \<Rightarrow> u32 \<Rightarrow> bytes option" where
  "writeAddr mem offset value =
     (if 0 \<le> offset \<and> nat offset + 4 \<le> length mem then
        Some (mem[nat offset := ucast value, nat offset + 1 := ucast (drop_bit 8 value),
          nat offset + 2 := ucast (drop_bit 16 value), nat offset + 3 := ucast (drop_bit 24 value)])
      else None)"

text \<open>The search compares a word at every fourth byte first.  \<open>n\<close> rounds are left.\<close>

primrec quickFind_loop :: "nat \<Rightarrow> nat \<Rightarrow> bytes \<Rightarrow> bytes \<Rightarrow> int" where
  "quickFind_loop 0 i d search = -1"
| "quickFind_loop (Suc n) i d search =
     (if take 4 (drop (4 * i) d) = take 4 search then
        if 4 * i + length search > length d then -1
        else if take (length search) (drop (4 * i) d) = search then int (4 * i)
        else quickFind_loop n (Suc i) d search
      else quickFind_loop n (Suc i) d search)"

definition quickFind :: "bytes \<Rightarrow> bytes \<Rightarrow> int" where
  "quickFind d search = quickFind_loop (length d div 4) 0 d search"

section \<open>Model: patching\<close>

text \<open>The application in memory; the section starts at \<open>base\<close>.\<close>

definition moveAddr :: "int \<Rightarrow> u32 \<Rightarrow> int \<Rightarrow> bytes \<Rightarrow> bytes option" where
  "moveAddr base relocationOffset offset app =
     do { v \<leftarrow> readAddr app (base + offset); writeAddr app (base + offset) (v + relocationOffset) }"

definition header_pointers :: "int list" where
  "header_pointers = [0x40, 0x44, 0x48, 0x4C, 0x50, 0x54, 0x58, 0x5C, 0x68, 0x6C, 0x70, 0x74, 0x78, 0x7C]"

fun move_all :: "int \<Rightarrow> u32 \<Rightarrow> int list \<Rightarrow> bytes \<Rightarrow> bytes option" where
  "move_all base relocationOffset [] app = Some app"
| "move_all base relocationOffset (offset # os) app =
     do { app \<leftarrow> moveAddr base relocationOffset offset app; move_all base relocationOffset os app }"

primrec fix_range :: "nat \<Rightarrow> int \<Rightarrow> int \<Rightarrow> u32 \<Rightarrow> u32 \<Rightarrow> u32 \<Rightarrow> bytes \<Rightarrow> bytes option" where
  "fix_range 0 addrIter base ddmemStart ddmemEnd relocationOffset app = Some app"
| "fix_range (Suc n) addrIter base ddmemStart ddmemEnd relocationOffset app =
     do {
       v \<leftarrow> readAddr app (base + addrIter);
       app \<leftarrow> (if sint ddmemStart \<le> sint v \<and> sint v < sint ddmemEnd
               then writeAddr app (base + addrIter) (v + relocationOffset) else Some app);
       fix_range n (addrIter + 1) base ddmemStart ddmemEnd relocationOffset app
     }"

text \<open>One of the three loops, from and to the pointers in the driver's header at \<open>from\<close> and \<open>to\<close>.\<close>

definition fix_section :: "bool \<Rightarrow> int \<Rightarrow> int \<Rightarrow> bytes \<Rightarrow> int \<Rightarrow> u32 \<Rightarrow> u32 \<Rightarrow> u32 \<Rightarrow> bytes \<Rightarrow> bytes option" where
  "fix_section flag from to pDH base ddmemStart ddmemEnd relocationOffset app =
     (if flag then
        do {
          a \<leftarrow> readAddr pDH from;
          b \<leftarrow> readAddr pDH to;
          let lo = sint (a - ddmemStart);
          fix_range (nat (sint (b - ddmemStart) - lo)) lo base ddmemStart ddmemEnd relocationOffset app
        }
      else Some app)"

definition clear_bss :: "bool \<Rightarrow> bytes \<Rightarrow> int \<Rightarrow> u32 \<Rightarrow> bytes \<Rightarrow> bytes option" where
  "clear_bss flag pDH base ddmemStart app =
     (if flag then
        do {
          a \<leftarrow> readAddr pDH 0x58;
          b \<leftarrow> readAddr pDH 0x5C;
          let ofs = base + sint (a - ddmemStart);
          let n = unat (b - a);
          if n = 0 then Some app
          else if 0 \<le> ofs \<and> nat ofs + n \<le> length app then Some (overwrite (nat ofs) (replicate n 0) app)
          else None
        }
      else Some app)"

text \<open>From the two files in memory to the stretch written back: the driver is copied, moved and written.\<close>

definition dldi_relocate :: "nat \<Rightarrow> bytes \<Rightarrow> bytes \<Rightarrow> bytes option" where
  "dldi_relocate patchOffset pDH app =
     do {
       t \<leftarrow> readAddr app (int patchOffset + 0x40);
       memOffset \<leftarrow> (if t = 0 then do { s \<leftarrow> readAddr app (int patchOffset + 0x68); Some (s - 0x80) } else Some t);
       ddmemStart \<leftarrow> readAddr pDH 0x40;
       let relocationOffset = memOffset - ddmemStart;
       ddmemSize \<leftarrow> (if unat (pDH ! 0x0D) \<le> 30 then Some (2 ^ unat (pDH ! 0x0D)) else None);
       let ddmemEnd = ddmemStart + of_nat ddmemSize;
       let pDH = pDH[0x0F := app ! (patchOffset + 0x0F)];
       app \<leftarrow> (if patchOffset + length pDH \<le> length app then Some (overwrite patchOffset pDH app) else None);
       app \<leftarrow> move_all (int patchOffset) relocationOffset header_pointers app;
       let fixes = pDH ! 0x0E;
       app \<leftarrow> fix_section (bit fixes 0) 0x40 0x44 pDH (int patchOffset) ddmemStart ddmemEnd relocationOffset app;
       app \<leftarrow> fix_section (bit fixes 1) 0x48 0x4C pDH (int patchOffset) ddmemStart ddmemEnd relocationOffset app;
       app \<leftarrow> fix_section (bit fixes 2) 0x50 0x54 pDH (int patchOffset) ddmemStart ddmemEnd relocationOffset app;
       app \<leftarrow> clear_bss (bit fixes 3) pDH (int patchOffset) ddmemStart app;
       (if patchOffset + ddmemSize \<le> length app then Some (take ddmemSize (drop patchOffset app)) else None)
     }"

text \<open>The tests on the driver: \<^verbatim>\<open>strcmp\<close> stops at the first difference, the other tests read the header.\<close>

definition dldi_check :: "nat \<Rightarrow> bytes \<Rightarrow> bytes \<Rightarrow> bool option" where
  "dldi_check patchOffset pDH app =
     (if take 12 pDH \<noteq> dldiMagicString then
        (if length pDH < 12 \<and> pDH = take (length pDH) dldiMagicString then None else Some False)
      else if length pDH \<le> 0x0C then None
      else if pDH ! 0x0C \<noteq> 1 then Some False
      else if length pDH \<le> 0x0D \<or> length app \<le> patchOffset + 0x0F then None
      else Some (unat (pDH ! 0x0D) \<le> unat (app ! (patchOffset + 0x0F))))"

definition dldi_files :: "(string \<Rightarrow> string option) \<Rightarrow> string \<Rightarrow> string \<Rightarrow> string \<Rightarrow> fsys \<Rightarrow> fsys outcome" where
  "dldi_files env argv0 dldiFileName appFileName fs =
     (case openDLDIFile env argv0 dldiFileName fs of
        Undef \<Rightarrow> Undefined
      | Exit n \<Rightarrow> Exited n fs
      | Ret None \<Rightarrow> Returned 1 fs
      | Ret (Some dldiFile) \<Rightarrow>
          (case fopen_rbp appFileName fs of
             None \<Rightarrow> Returned 1 fs
           | Some appFile \<Rightarrow>
               (let (_, a) = fseek_end 0 appFile; appFileSize = ftell a; (_, a) = fseek_set 0 a;
                    (_, d) = fseek_end 0 dldiFile; dldiFileSize = ftell d; (_, d) = fseek_set 0 d
                in if appFileSize < 0 \<or> dldiFileSize < 0 then Returned 1 fs
                   else
                     let (app, a) = fread (nat appFileSize) a;
                         (pDH, _) = fread (nat dldiFileSize) d;
                         patchOffset = quickFind app dldiMagicString
                     in if patchOffset < 0 then Returned 2 fs
                        else (case dldi_check (nat patchOffset) pDH app of
                            None \<Rightarrow> Undefined
                          | Some False \<Rightarrow> Returned 1 fs
                          | Some True \<Rightarrow>
                              (case dldi_relocate (nat patchOffset) pDH app of
                                 None \<Rightarrow> Undefined
                               | Some patch \<Rightarrow>
                                   let (_, a) = fseek_set patchOffset a
                                   in Returned 0 (fclose_to appFileName (fwrite patch a) fs))))))"

definition dldipatch :: "(string \<Rightarrow> string option) \<Rightarrow> string list \<Rightarrow> fsys \<Rightarrow> fsys outcome" where
  "dldipatch env argv fs =
     (if length argv = 3 then dldi_files env (argv ! 0) (argv ! 1) (argv ! 2) fs else Returned 1 fs)"

definition dldiPatchRom :: "(string \<Rightarrow> string option) \<Rightarrow> string \<Rightarrow> string \<Rightarrow> fsys \<Rightarrow> fsys outcome" where
  "dldiPatchRom env romPath patchPath fs = dldipatch env [''dlditool'', patchPath, romPath] fs"

section \<open>The search\<close>

text \<open>The reference: the first multiple of four at which the text stands.\<close>

definition first_aligned :: "nat \<Rightarrow> nat \<Rightarrow> bytes \<Rightarrow> bytes \<Rightarrow> int" where
  "first_aligned i n d search =
     (case find (\<lambda>j. take (length search) (drop (4 * j) d) = search) [i..<i + n] of None \<Rightarrow> -1 | Some j \<Rightarrow> int (4 * j))"

lemma first_aligned_Suc:
  "first_aligned i (Suc n) d search =
     (if take (length search) (drop (4 * i) d) = search then int (4 * i) else first_aligned (Suc i) n d search)"
  by (simp add: first_aligned_def upt_conv_Cons del: upt_Suc)

lemma first_aligned_none:
  assumes "4 * i + length search > length d" "0 < length search" shows "first_aligned i n d search = -1"
proof -
  have "take (length search) (drop (4 * j) d) \<noteq> search" if "i \<le> j" for j
  proof
    assume "take (length search) (drop (4 * j) d) = search"
    then have "length search \<le> length d - 4 * j" by (metis length_drop length_take min.cobounded1)
    then show False using assms that by linarith
  qed
  then have "find (\<lambda>j. take (length search) (drop (4 * j) d) = search) [i..<i + n] = None" by (simp add: find_None_iff)
  then show ?thesis by (simp add: first_aligned_def)
qed

lemma quickFind_loop_first:
  assumes "4 \<le> length search"
  shows "quickFind_loop n i d search = first_aligned i n d search"
proof (induction n arbitrary: i)
  case (Suc n)
  have "take 4 (drop (4 * i) d) = take 4 search" if "take (length search) (drop (4 * i) d) = search"
    using that assms by (metis min.absorb1 take_take)
  moreover have "0 < length search" using assms by linarith
  ultimately show ?case using Suc [of "Suc i"] first_aligned_none [of d i search "Suc n"] by (auto simp: first_aligned_Suc)
qed (simp add: first_aligned_def)

text \<open>C29: the word-wise search with its early exit finds the first multiple of four at which the text stands, and -1
  when there is none, for every text of at least four bytes.\<close>

theorem quickFind_first:
  assumes "4 \<le> length search"
  shows "quickFind d search = first_aligned 0 (length d div 4) d search"
  using quickFind_loop_first [OF assms] by (simp add: quickFind_def)

theorem quickFind_first_witness:
  "quickFind ([1, 2, 3, 4] @ dldiMagicString) dldiMagicString = first_aligned 0 4 ([1, 2, 3, 4] @ dldiMagicString) dldiMagicString"
  using quickFind_first [of dldiMagicString "[1, 2, 3, 4] @ dldiMagicString"] by (simp add: dldiMagicString_def)

lemma quickFind_magic:
  assumes "quickFind app dldiMagicString = int p"
  shows "take 12 (drop p app) = dldiMagicString \<and> p + 12 \<le> length app"
proof -
  have l: "length dldiMagicString = 12" by (simp add: dldiMagicString_def)
  have "first_aligned 0 (length app div 4) app dldiMagicString = int p"
    using assms quickFind_loop_first [of dldiMagicString] l by (simp add: quickFind_def)
  then obtain j where j: "find (\<lambda>j. take 12 (drop (4 * j) app) = dldiMagicString) [0..<length app div 4] = Some j" "int p = int (4 * j)"
    by (cases "find (\<lambda>j. take 12 (drop (4 * j) app) = dldiMagicString) [0..<length app div 4]") (simp_all add: first_aligned_def l)
  then have "p = 4 * j" by (simp only: of_nat_eq_iff)
  with j(1) have m: "take 12 (drop p app) = dldiMagicString" by (auto simp: find_Some_iff)
  then have "12 \<le> length app - p" using l by (metis length_drop length_take min.cobounded1)
  then show ?thesis using m by simp
qed

section \<open>Only the reserved stretch changes\<close>

lemma length_writeAddr: "writeAddr mem ofs v = Some mem' \<Longrightarrow> length mem' = length mem"
  by (auto simp: writeAddr_def split: if_splits)

lemma length_move_all: "move_all base r os app = Some app' \<Longrightarrow> length app' = length app"
  by (induction os arbitrary: app) (auto simp: moveAddr_def dest!: length_writeAddr split: bind_splits)

lemma length_fix_range: "fix_range n i base s e r app = Some app' \<Longrightarrow> length app' = length app"
  by (induction n arbitrary: i app) (auto dest!: length_writeAddr split: bind_splits if_splits)

lemma length_fix_section: "fix_section flag a b pDH base s e r app = Some app' \<Longrightarrow> length app' = length app"
  by (auto simp: fix_section_def Let_def dest!: length_fix_range split: bind_splits if_splits)

lemma length_clear_bss: "clear_bss flag pDH base s app = Some app' \<Longrightarrow> length app' = length app"
  by (auto simp: clear_bss_def Let_def length_overwrite split: bind_splits if_splits)

lemmas length_steps = length_move_all length_fix_section length_clear_bss

lemma length_dldi_relocate:
  assumes "dldi_relocate p pDH app = Some patch"
  shows "length patch = 2 ^ unat (pDH ! 0x0D) \<and> p + length patch \<le> length app"
  using assms
  by (auto simp: dldi_relocate_def Let_def length_overwrite dest!: length_steps split: bind_splits if_splits)

text \<open>The two files in memory.\<close>

lemma read_whole:
  assumes "length d < 2 ^ 31"
  shows "ftell ((sopen d)\<lparr>spos := length d, seof := False\<rparr>) = int (length d)"
    and "fread (length d) ((sopen d)\<lparr>spos := 0, seof := False\<rparr>) = (d, advance (length d) (sopen d))"
proof -
  have "(sopen d)\<lparr>spos := 0, seof := False\<rparr> = sopen d" by (simp add: sopen_def)
  then show "fread (length d) ((sopen d)\<lparr>spos := 0, seof := False\<rparr>) = (d, advance (length d) (sopen d))"
    using fread_enough [of "length d" "sopen d"] by (simp add: srest_sopen)
qed (use assms in \<open>simp add: ftell_def\<close>)

lemma dldi_files_open:
  assumes "openDLDIFile env argv0 dldi fs = Ret (Some (sopen d))" "content fs rom = Some a" "writable fs rom"
    and "length a < 2 ^ 31" "length d < 2 ^ 31"
  shows "dldi_files env argv0 dldi rom fs =
    (let p = quickFind a dldiMagicString in
     if p < 0 then Returned 2 fs
     else case dldi_check (nat p) d a of
         None \<Rightarrow> Undefined
       | Some False \<Rightarrow> Returned 1 fs
       | Some True \<Rightarrow> (case dldi_relocate (nat p) d a of
             None \<Rightarrow> Undefined
           | Some patch \<Rightarrow> Returned 0 (put_file rom (overwrite (nat p) patch a) fs)))"
proof -
  have "fopen_rbp rom fs = Some (sopen a)" using assms(2,3) by (simp add: fopen_rbp_def)
  then show ?thesis
    using assms(1) read_whole [OF assms(4)] read_whole [OF assms(5)]
    by (simp add: dldi_files_def fseek_end_0 fseek_set_nonneg sdata_sopen Let_def fclose_to_def stdio_simps split: option.split bool.split)
qed

lemma openDLDIFile_sopen: "openDLDIFile env argv0 dldi fs = Ret (Some f) \<Longrightarrow> \<exists>d. f = sopen d"
  by (auto simp: openDLDIFile_def fopen_rb_def Let_def split: option.splits if_splits)

text \<open>C15: whatever the application and the driver file hold, a run that ends with a result changes no file but the application, leaves its
  length as it is, and changes only bytes of the section the application reserves: from the place the search found, as many
  bytes as the application's own size field says.  With any result other than 0 nothing changes.\<close>

theorem dldi_changes_only_section:
  assumes "dldiPatchRom env rom patch fs = Returned n fs'" "content fs rom = Some a"
  shows "\<exists>a'. fs' = put_file rom a' fs \<and> length a' = length a \<and> (n \<noteq> 0 \<longrightarrow> a' = a) \<and>
    (\<forall>i<length a. a' ! i \<noteq> a ! i \<longrightarrow>
       (\<exists>p. quickFind a dldiMagicString = int p \<and> p \<le> i \<and> i < p + 2 ^ unat (a ! (p + 0x0F))))"
proof -
  have same: "\<exists>a'. fs = put_file rom a' fs \<and> length a' = length a \<and> (n \<noteq> 0 \<longrightarrow> a' = a) \<and>
    (\<forall>i<length a. a' ! i \<noteq> a ! i \<longrightarrow> (\<exists>p. quickFind a dldiMagicString = int p \<and> p \<le> i \<and> i < p + 2 ^ unat (a ! (p + 0x0F))))"
    using put_file_same [OF assms(2)] by (intro exI [of _ a]) simp
  have run: "dldi_files env ''dlditool'' patch rom fs = Returned n fs'" using assms(1) by (simp add: dldiPatchRom_def dldipatch_def)
  show ?thesis
  proof (cases "\<exists>d. openDLDIFile env ''dlditool'' patch fs = Ret (Some (sopen d)) \<and> length d < 2 ^ 31 \<and> length a < 2 ^ 31 \<and> writable fs rom")
    case False
    have "fs' = fs"
    proof (cases "\<exists>d. openDLDIFile env ''dlditool'' patch fs = Ret (Some (sopen d))")
      case True
      then obtain d where "openDLDIFile env ''dlditool'' patch fs = Ret (Some (sopen d))" by blast
      then show ?thesis using run assms(2) False
        by (auto simp: dldi_files_def fopen_rbp_def fseek_end_0 sdata_sopen ftell_def fseek_set_nonneg Let_def split: if_splits)
    next
      case False
      then have "openDLDIFile env ''dlditool'' patch fs \<noteq> Ret (Some f)" for f using openDLDIFile_sopen [of env "''dlditool''" patch fs f] by auto
      then show ?thesis using run by (auto simp: dldi_files_def split: cresult.splits option.splits)
    qed
    then show ?thesis using same by simp
  next
    case True
    then obtain d where d: "openDLDIFile env ''dlditool'' patch fs = Ret (Some (sopen d))" "length d < 2 ^ 31" "length a < 2 ^ 31" "writable fs rom" by blast
    note eq = dldi_files_open [OF d(1) assms(2) d(4,3,2), unfolded Let_def]
    show ?thesis
    proof (cases "n = 0")
      case False
      then have "fs' = fs" using run unfolding eq by (auto split: if_splits option.splits bool.splits)
      then show ?thesis using same by simp
    next
      case True
      then obtain patch where r: "\<not> quickFind a dldiMagicString < 0" "dldi_check (nat (quickFind a dldiMagicString)) d a = Some True"
        "dldi_relocate (nat (quickFind a dldiMagicString)) d a = Some patch"
        "fs' = put_file rom (overwrite (nat (quickFind a dldiMagicString)) patch a) fs"
        using run unfolding eq by (auto split: if_splits option.splits bool.splits)
      obtain p where p: "quickFind a dldiMagicString = int p" using r(1) by (metis nat_0_le not_less)
      have l: "length patch = 2 ^ unat (d ! 0x0D)" "p + length patch \<le> length a" using length_dldi_relocate [of p d a patch] r(3) p by simp_all
      have "unat (d ! 0x0D) \<le> unat (a ! (p + 0x0F))" using r(2) p by (auto simp: dldi_check_def split: if_splits)
      then have "length patch \<le> 2 ^ unat (a ! (p + 0x0F))" using l(1) by (simp add: power_increasing)
      moreover have "\<forall>i<length a. overwrite p patch a ! i \<noteq> a ! i \<longrightarrow> p \<le> i \<and> i < p + length patch"
        using l(2) by (auto simp: nth_overwrite length_overwrite_le)
      ultimately show ?thesis using r(4) p l(2) True
        by (intro exI [of _ "overwrite p patch a"]) (force simp: length_overwrite_le)
    qed
  qed
qed

section \<open>Moving the pointers\<close>

lemma writeAddr_Some:
  "0 \<le> ofs \<Longrightarrow> nat ofs + 4 \<le> length mem \<Longrightarrow>
     writeAddr mem ofs v = Some (overwrite (nat ofs) [ucast v, ucast (drop_bit 8 v), ucast (drop_bit 16 v), ucast (drop_bit 24 v)] mem)"
  by (auto simp: writeAddr_def length_overwrite nth_overwrite nth_list_update nth_Cons' intro!: nth_equalityI)

lemma readAddr_nth:
  "readAddr mem ofs = (if 0 \<le> ofs \<and> nat ofs + 4 \<le> length mem
     then Some (of_nat (le_val [mem ! nat ofs, mem ! (nat ofs + 1), mem ! (nat ofs + 2), mem ! (nat ofs + 3)])) else None)"
proof -
  have "take 4 (drop k mem) = [mem ! k, mem ! (k + 1), mem ! (k + 2), mem ! (k + 3)]" if "k + 4 \<le> length mem" for k
    using list_eq_nth4 [of "take 4 (drop k mem)"] that by simp
  then show ?thesis by (simp add: readAddr_def del: le_val.simps)
qed

text \<open>One pointer is moved, the bytes beside it stay.\<close>

lemma moveAddr_moves:
  assumes "0 \<le> base + ofs" "nat (base + ofs) + 4 \<le> length app"
  obtains v app' where "readAddr app (base + ofs) = Some v" "moveAddr base r ofs app = Some app'" "length app' = length app"
    "readAddr app' (base + ofs) = Some (v + r)" "\<And>i. i < nat (base + ofs) \<or> nat (base + ofs) + 4 \<le> i \<Longrightarrow> i < length app \<Longrightarrow> app' ! i = app ! i"
proof -
  let ?k = "nat (base + ofs)"
  obtain v where v: "readAddr app (base + ofs) = Some v" using assms by (simp add: readAddr_def)
  let ?bs = "[ucast (v + r), ucast (drop_bit 8 (v + r)), ucast (drop_bit 16 (v + r)), ucast (drop_bit 24 (v + r))] :: bytes"
  let ?app = "overwrite ?k ?bs app"
  have m: "moveAddr base r ofs app = Some ?app" using v assms by (simp add: moveAddr_def writeAddr_Some)
  have l: "length ?app = length app" using assms by (simp add: length_overwrite)
  have "take 4 (drop ?k ?app) = ?bs" using assms by (simp add: overwrite_def)
  then have "readAddr ?app (base + ofs) = Some (v + r)" using assms l word_le4_bytes [of "v + r"] by (simp add: readAddr_def del: le_val.simps)
  moreover have "?app ! i = app ! i" if "i < ?k \<or> ?k + 4 \<le> i" "i < length app" for i using that l by (auto simp: nth_overwrite)
  ultimately show ?thesis using that [OF v m l] by blast
qed

lemma readAddr_cong:
  "length a = length b \<Longrightarrow> (\<And>i. nat ofs \<le> i \<Longrightarrow> i < nat ofs + 4 \<Longrightarrow> a ! i = b ! i) \<Longrightarrow> readAddr a ofs = readAddr b ofs"
  by (simp add: readAddr_nth del: le_val.simps)

text \<open>All pointers of a list of places that do not overlap.\<close>

lemma move_all_moves:
  assumes "sorted_wrt (\<lambda>x y. x + 4 \<le> y) os" "\<forall>ofs\<in>set os. 0 \<le> ofs \<and> base + nat ofs + 4 \<le> length app"
  shows "\<exists>app'. move_all (int base) r os app = Some app' \<and> length app' = length app
    \<and> (\<forall>ofs\<in>set os. \<exists>v. readAddr app (int base + ofs) = Some v \<and> readAddr app' (int base + ofs) = Some (v + r))
    \<and> (\<forall>i<length app. (\<forall>ofs\<in>set os. \<not> (base + nat ofs \<le> i \<and> i < base + nat ofs + 4)) \<longrightarrow> app' ! i = app ! i)"
  using assms
proof (induction os arbitrary: app)
  case (Cons o1 os)
  have o1: "0 \<le> o1" "base + nat o1 + 4 \<le> length app" "nat (int base + o1) = base + nat o1" using Cons.prems by (auto simp: nat_add_distrib)
  obtain v app1 where one: "readAddr app (int base + o1) = Some v" "moveAddr (int base) r o1 app = Some app1" "length app1 = length app"
    "readAddr app1 (int base + o1) = Some (v + r)"
    "\<And>i. i < base + nat o1 \<or> base + nat o1 + 4 \<le> i \<Longrightarrow> i < length app \<Longrightarrow> app1 ! i = app ! i"
    using moveAddr_moves [of "int base" o1 app r] o1 by (auto simp: o1(3))
  have far: "o1 + 4 \<le> ofs" "0 \<le> ofs" "base + nat ofs + 4 \<le> length app" if "ofs \<in> set os" for ofs using Cons.prems that by auto
  have "sorted_wrt (\<lambda>x y. x + 4 \<le> y) os" "\<forall>ofs\<in>set os. 0 \<le> ofs \<and> base + nat ofs + 4 \<le> length app1" using Cons.prems one(3) by auto
  from Cons.IH [OF this] obtain app' where rest: "move_all (int base) r os app1 = Some app'" "length app' = length app1"
    "\<forall>ofs\<in>set os. \<exists>v. readAddr app1 (int base + ofs) = Some v \<and> readAddr app' (int base + ofs) = Some (v + r)"
    "\<forall>i<length app1. (\<forall>ofs\<in>set os. \<not> (base + nat ofs \<le> i \<and> i < base + nat ofs + 4)) \<longrightarrow> app' ! i = app1 ! i" by blast
  have "readAddr app1 (int base + ofs) = readAddr app (int base + ofs)" if "ofs \<in> set os" for ofs
    using far [OF that] o1(1) one(3) by (intro readAddr_cong one(5)) (auto simp: nat_add_distrib)
  moreover have "readAddr app' (int base + o1) = readAddr app1 (int base + o1)"
  proof (rule readAddr_cong [OF rest(2)])
    fix i assume i: "nat (int base + o1) \<le> i" "i < nat (int base + o1) + 4"
    have "\<not> (base + nat ofs \<le> i \<and> i < base + nat ofs + 4)" if "ofs \<in> set os" for ofs
      using far [OF that] i o1 by linarith
    moreover have "i < length app1" using i o1 one(3) by simp
    ultimately show "app' ! i = app1 ! i" using rest(4) by blast
  qed
  moreover have "app' ! i = app ! i" if "i < length app" "\<forall>ofs\<in>set (o1 # os). \<not> (base + nat ofs \<le> i \<and> i < base + nat ofs + 4)" for i
  proof -
    have "app' ! i = app1 ! i" using rest(4) that one(3) by simp
    also have "\<dots> = app ! i" using that by (intro one(5)) auto
    finally show ?thesis .
  qed
  ultimately show ?case using one rest by (intro exI [of _ app']) auto
qed simp

definition addr_at :: "bytes \<Rightarrow> int \<Rightarrow> u32" where
  "addr_at d ofs = of_nat (le_val (take 4 (drop (nat ofs) d)))"

text \<open>Where the section is in memory: the text start of the old driver or, without one, its start-up function.\<close>

definition section_address :: "nat \<Rightarrow> bytes \<Rightarrow> u32" where
  "section_address p a = (if addr_at a (int p + 0x40) = 0 then addr_at a (int p + 0x68) - 0x80 else addr_at a (int p + 0x40))"

lemma readAddr_addr_at: "0 \<le> ofs \<Longrightarrow> nat ofs + 4 \<le> length d \<Longrightarrow> readAddr d ofs = Some (addr_at d ofs)"
  by (simp add: readAddr_def addr_at_def)

text \<open>A driver that fits and whose flags ask for nothing more than the header.\<close>

definition plain_driver :: "nat \<Rightarrow> bytes \<Rightarrow> bytes \<Rightarrow> bool" where
  "plain_driver p d a \<longleftrightarrow> take 12 d = dldiMagicString \<and> 0x80 \<le> length d \<and> d ! 0x0C = 1 \<and> d ! 0x0E = 0
     \<and> 7 \<le> unat (d ! 0x0D) \<and> unat (d ! 0x0D) \<le> 30 \<and> unat (d ! 0x0D) \<le> unat (a ! (p + 0x0F))
     \<and> p + length d \<le> length a \<and> p + 2 ^ unat (d ! 0x0D) \<le> length a"

definition moved :: "nat \<Rightarrow> bytes \<Rightarrow> bytes \<Rightarrow> bytes \<Rightarrow> bool" where
  "moved p d a a' \<longleftrightarrow>
     (\<forall>ofs\<in>set header_pointers. readAddr a' (int p + ofs) = Some (addr_at d ofs + (section_address p a - addr_at d 0x40)))
     \<and> (\<forall>i<2 ^ unat (d ! 0x0D). (\<forall>ofs\<in>set header_pointers. \<not> (nat ofs \<le> i \<and> i < nat ofs + 4)) \<longrightarrow>
          a' ! (p + i) = (if i = 0x0F then a ! (p + 0x0F) else if i < length d then d ! i else a ! (p + i)))"

lemma header_pointers_apart: "sorted_wrt (\<lambda>x y. x + 4 \<le> y) header_pointers" "\<forall>ofs\<in>set header_pointers. 0x40 \<le> ofs \<and> ofs \<le> 0x7C"
  by (simp_all add: header_pointers_def)

lemma dldi_relocate_plain:
  assumes "plain_driver p d a"
  shows "\<exists>patch. dldi_relocate p d a = Some patch \<and> moved p d a (overwrite p patch a)"
proof -
  have k: "0x80 \<le> length d" "d ! 0x0E = 0" "7 \<le> unat (d ! 0x0D)" "unat (d ! 0x0D) \<le> 30" "p + length d \<le> length a" "p + 2 ^ unat (d ! 0x0D) \<le> length a"
    using assms by (simp_all add: plain_driver_def)
  let ?n = "2 ^ unat (d ! 0x0D) :: nat" and ?d = "d[0x0F := a ! (p + 0x0F)]" and ?r = "section_address p a - addr_at d 0x40"
  let ?a1 = "overwrite p ?d a"
  have "2 ^ 7 \<le> ?n" using k(3) by (intro power_increasing) simp_all
  then have n: "0x80 \<le> ?n" by simp
  have l1: "length ?a1 = length a" using k by (simp add: length_overwrite_le)
  have "\<forall>ofs\<in>set header_pointers. 0 \<le> ofs \<and> p + nat ofs + 4 \<le> length ?a1" using header_pointers_apart(2) k(1,5) l1 by fastforce
  from move_all_moves [OF header_pointers_apart(1) this, of ?r] obtain a2 where
    a2: "move_all (int p) ?r header_pointers ?a1 = Some a2" "length a2 = length a"
    "\<And>ofs. ofs \<in> set header_pointers \<Longrightarrow> \<exists>v. readAddr ?a1 (int p + ofs) = Some v \<and> readAddr a2 (int p + ofs) = Some (v + ?r)"
    "\<And>i. i < length a \<Longrightarrow> \<forall>ofs\<in>set header_pointers. \<not> (p + nat ofs \<le> i \<and> i < p + nat ofs + 4) \<Longrightarrow> a2 ! i = ?a1 ! i"
    using l1 by auto
  let ?patch = "take ?n (drop p a2)" and ?a' = "overwrite p (take ?n (drop p a2)) a"
  have "readAddr a (int p + 0x40) = Some (addr_at a (int p + 0x40))" "readAddr a (int p + 0x68) = Some (addr_at a (int p + 0x68))"
    "readAddr d 0x40 = Some (addr_at d 0x40)" using k by (simp_all add: readAddr_addr_at nat_add_distrib)
  then have "dldi_relocate p d a = Some ?patch"
    using k a2(1,2) by (simp add: dldi_relocate_def Let_def section_address_def fix_section_def clear_bss_def split: if_splits)
  moreover have a': "?a' ! (p + i) = a2 ! (p + i)" if "i < ?n" for i using that k(6) a2(2) by (simp add: nth_overwrite length_overwrite)
  have "readAddr ?a' (int p + ofs) = Some (addr_at d ofs + ?r)" if o: "ofs \<in> set header_pointers" for ofs
  proof -
    have ofs: "0x40 \<le> ofs" "ofs \<le> 0x7C" "nat (int p + ofs) = p + nat ofs" using header_pointers_apart(2) o by (auto simp: nat_add_distrib)
    have "readAddr ?a' (int p + ofs) = readAddr a2 (int p + ofs)"
    proof (rule readAddr_cong)
      show "length ?a' = length a2" using k(6) a2(2) by (simp add: length_overwrite)
      fix i assume "nat (int p + ofs) \<le> i" "i < nat (int p + ofs) + 4"
      then have "p \<le> i" "i - p < ?n" using ofs n by linarith+
      then show "?a' ! i = a2 ! i" using a' [of "i - p"] by simp
    qed
    moreover have lt: "nat ofs + i < length d" if "i < 4" for i using ofs(2) k(1) that by linarith
    have "take 4 (drop (p + nat ofs) ?a1) = take 4 (drop (nat ofs) d)"
      using ofs k(1,5) by (intro nth_equalityI) (simp_all add: nth_overwrite l1 nth_list_update lt)
    then have "readAddr ?a1 (int p + ofs) = Some (addr_at d ofs)" using ofs k(1,5) l1 by (simp add: readAddr_def addr_at_def)
    ultimately show ?thesis using a2(3) [OF o] by auto
  qed
  moreover have "?a' ! (p + i) = (if i = 0x0F then a ! (p + 0x0F) else if i < length d then d ! i else a ! (p + i))"
    if i: "i < ?n" "\<forall>ofs\<in>set header_pointers. \<not> (nat ofs \<le> i \<and> i < nat ofs + 4)" for i
  proof -
    have "a2 ! (p + i) = ?a1 ! (p + i)" using i k(6) by (intro a2(4)) auto
    then show ?thesis using a' [OF i(1)] i(1) k(1,6) l1 by (simp add: nth_overwrite nth_list_update)
  qed
  ultimately show ?thesis unfolding moved_def by blast
qed

lemma dldi_installs:
  assumes "content fs rom = Some a" "content fs patch = Some d" "stringEndsWith patch dldiFileExtension" "writable fs rom"
    and "length a < 2 ^ 31" "length d < 2 ^ 31" "quickFind a dldiMagicString = int p" "plain_driver p d a"
  shows "\<exists>a'. dldiPatchRom env rom patch fs = Returned 0 (put_file rom a' fs) \<and> moved p d a a'"
proof -
  have "openDLDIFile env ''dlditool'' patch fs = Ret (Some (sopen d))" using assms(2,3) by (simp add: openDLDIFile_def fopen_rb_def)
  note opened = dldi_files_open [OF this assms(1,4-6), unfolded Let_def assms(7)]
  have "dldi_check p d a = Some True" using assms(8) by (auto simp: dldi_check_def plain_driver_def)
  moreover obtain patch' where "dldi_relocate p d a = Some patch'" "moved p d a (overwrite p patch' a)" using dldi_relocate_plain [OF assms(8)] by blast
  ultimately show ?thesis by (auto simp: dldiPatchRom_def dldipatch_def opened)
qed


text \<open>The driver file is copied as long as it is, not as long as the section: a driver longer than what is left of the application
  behind the section's start runs over the buffer.\<close>

theorem dldi_long_driver_undefined:
  assumes "content fs rom = Some a" "content fs patch = Some d" "stringEndsWith patch dldiFileExtension" "writable fs rom"
    and "length a < 2 ^ 31" "length d < 2 ^ 31" "quickFind a dldiMagicString = int p"
    and "take 12 d = dldiMagicString" "d ! 0x0C = 1" "unat (d ! 0x0D) \<le> unat (a ! (p + 0x0F))" "p + 0x80 \<le> length a"
    and "0x80 \<le> length d" "length a < p + length d"
  shows "dldiPatchRom env rom patch fs = Undefined"
proof -
  have "openDLDIFile env ''dlditool'' patch fs = Ret (Some (sopen d))" using assms(2,3) by (simp add: openDLDIFile_def fopen_rb_def)
  note opened = dldi_files_open [OF this assms(1,4-6), unfolded Let_def assms(7)]
  have "dldi_check p d a = Some True" using assms(8-12) by (simp add: dldi_check_def)
  moreover have "dldi_relocate p d a = None"
  proof (cases "dldi_relocate p d a")
    case (Some patch')
    then have "p + length d \<le> length a" by (auto simp: dldi_relocate_def Let_def split: bind_splits if_splits)
    then show ?thesis using assms(13) by simp
  qed
  ultimately show ?thesis by (simp add: dldiPatchRom_def dldipatch_def opened)
qed

definition dldi_app :: bytes where
  "dldi_app = dldiMagicString @ [1, 7, 0, 7] @ replicate 48 0 @ [0, 0, 0, 2] @ replicate 60 0"

definition dldi_driver :: bytes where
  "dldi_driver = dldiMagicString @ [1, 7, 0, 0] @ replicate 48 65 @ [0, 0, 0x80, 0xBF] @ replicate 60 0"

definition dldi_example :: fsys where
  "dldi_example = \<lparr>content = [''rom'' \<mapsto> dldi_app, ''/d.dldi'' \<mapsto> dldi_driver, ''/e.dldi'' \<mapsto> dldi_driver @ [0]], writable = \<lambda>_. True\<rparr>"

lemma dldi_app_length: "length dldi_app = 0x80" "length dldi_driver = 0x80" by (simp_all add: dldi_app_def dldi_driver_def dldiMagicString_def)

lemma quickFind_front:
  assumes "take 12 d = dldiMagicString" shows "quickFind d dldiMagicString = int 0"
proof -
  have l: "length dldiMagicString = 12" by (simp add: dldiMagicString_def)
  moreover have "length (take 12 d) = 12" by (simp only: assms l)
  ultimately have "12 \<le> length d" by simp
  moreover from this obtain m where "length d div 4 = Suc m" by (cases "length d div 4") (simp_all add: div_eq_0_iff)
  moreover have "take 4 d = take 4 (take 12 d)" by simp
  then have "take 4 d = take 4 dldiMagicString" by (simp only: assms)
  ultimately show ?thesis using assms l by (simp add: quickFind_def)
qed

lemma dldi_app_fields: "dldi_app ! 15 = 7" "take 12 dldi_app = dldiMagicString" "take 12 dldi_driver = dldiMagicString" "dldi_driver ! 12 = 1" "dldi_driver ! 13 = 7" "dldi_driver ! 14 = 0"
  by (simp_all add: dldi_app_def dldi_driver_def dldiMagicString_def)


theorem dldi_long_driver_undefined_witness: "dldiPatchRom (\<lambda>_. None) ''rom'' ''/e.dldi'' dldi_example = Undefined"
proof (rule dldi_long_driver_undefined)
  show "quickFind dldi_app dldiMagicString = int 0" by (rule quickFind_front [OF dldi_app_fields(2)])
  show "take 12 (dldi_driver @ [0]) = dldiMagicString" "(dldi_driver @ [0]) ! 0x0C = 1" "unat ((dldi_driver @ [0]) ! 0x0D) \<le> unat (dldi_app ! (0 + 0x0F))"
    using dldi_app_length dldi_app_fields by (simp_all add: nth_append)
qed (simp_all add: dldi_example_def dldi_app_length stringEndsWith_def dldiFileExtension_def)

theorem dldi_changes_only_section_witness:
  "\<exists>a'. dldiPatchRom (\<lambda>_. None) ''rom'' ''/d.dldi'' dldi_example = Returned 0 (put_file ''rom'' a' dldi_example) \<and> length a' = length dldi_app
     \<and> (\<forall>i<length dldi_app. a' ! i \<noteq> dldi_app ! i \<longrightarrow> i < 0x80)"
proof -
  have c: "content dldi_example ''rom'' = Some dldi_app" by (simp add: dldi_example_def)
  obtain a' where a': "dldiPatchRom (\<lambda>_. None) ''rom'' ''/d.dldi'' dldi_example = Returned 0 (put_file ''rom'' a' dldi_example)"
    using dldi_installs [of dldi_example "''rom''" dldi_app "''/d.dldi''" dldi_driver 0 "\<lambda>_. None"] quickFind_front [OF dldi_app_fields(2)]
      dldi_app_length dldi_app_fields
    by (auto simp: dldi_example_def stringEndsWith_def dldiFileExtension_def plain_driver_def)
  from dldi_changes_only_section [OF this c] obtain b where
    "put_file ''rom'' a' dldi_example = put_file ''rom'' b dldi_example" "length b = length dldi_app"
    "\<forall>i<length dldi_app. b ! i \<noteq> dldi_app ! i \<longrightarrow> (\<exists>p. quickFind dldi_app dldiMagicString = int p \<and> p \<le> i \<and> i < p + 2 ^ unat (dldi_app ! (p + 0x0F)))"
    by blast
  then show ?thesis using a' quickFind_front [OF dldi_app_fields(2)] dldi_app_fields(1) by (intro exI [of _ b]) simp
qed

end
