(* ===== verification/Bspatch.thy ===== *)
theory Bspatch
  imports CStdio "HOL-Library.Monad_Syntax"
begin

text \<open>
  The bsdiff patcher, \<^verbatim>\<open>jni/bsdiffpatcher/bspatch.c\<close> and its native entry point.  A patch has a header and
  three bzip2 streams: control triples, differences and extra bytes.  The decompressor is a parameter: \<open>bunzip d\<close> are the
  bytes a reader delivers that was opened on \<open>d\<close>, up to the end of the stream or the first error.  Offsets are
  32-bit: a sum or a number that does not fit is undefined behaviour.  Main results: offsets survive writing and
  reading; a well-formed patch rebuilds exactly the new file; a patch that does not fit its own header is refused.
\<close>

section \<open>Model\<close>

definition fits32 :: "int \<Rightarrow> bool" where
  "fits32 x \<longleftrightarrow> - (2 ^ 31) \<le> x \<and> x < 2 ^ 31"

definition off_step :: "int \<Rightarrow> byte \<Rightarrow> int option" where
  "off_step y b = (let y = y * 256 + uint b in if fits32 y then Some y else None)"

definition offtin :: "bytes \<Rightarrow> int option" where
  "offtin buf =
     do {
       let y = uint (buf ! 7 AND 0x7F);
       y \<leftarrow> off_step y (buf ! 6);
       y \<leftarrow> off_step y (buf ! 5);
       y \<leftarrow> off_step y (buf ! 4);
       y \<leftarrow> off_step y (buf ! 3);
       y \<leftarrow> off_step y (buf ! 2);
       y \<leftarrow> off_step y (buf ! 1);
       y \<leftarrow> off_step y (buf ! 0);
       Some (if bit (buf ! 7) 7 then - y else y)
     }"

text \<open>How a part of the function ends: it goes on, the function returns a number, or the behaviour is undefined.\<close>

datatype 'a step = Go 'a | Return int | Ub

text \<open>Reading \<open>n\<close> bytes of what the decompressor still delivers; a negative count is a parameter error, and every error
  or short read is treated the same.\<close>

definition BZ2_bzRead :: "int \<Rightarrow> bytes \<Rightarrow> (bytes \<times> bytes) option" where
  "BZ2_bzRead n s = (if 0 \<le> n \<and> nat n \<le> length s then Some (take (nat n) s, drop (nat n) s) else None)"

record bs_state =
  cpfbz2 :: bytes
  dpfbz2 :: bytes
  epfbz2 :: bytes
  new :: bytes
  oldpos :: int

definition read_ctrl :: "bs_state \<Rightarrow> (int \<times> bs_state) step" where
  "read_ctrl s =
     (case BZ2_bzRead 8 (cpfbz2 s) of
        None \<Rightarrow> Return 2
      | Some (buf, rest) \<Rightarrow> (case offtin buf of None \<Rightarrow> Ub | Some v \<Rightarrow> Go (v, s\<lparr>cpfbz2 := rest\<rparr>)))"

text \<open>Adding the old bytes to the difference where there are any.\<close>

definition add_old :: "bytes \<Rightarrow> int \<Rightarrow> bytes \<Rightarrow> bytes" where
  "add_old old pos diff =
     map (\<lambda>i. if 0 \<le> pos + int i \<and> pos + int i < int (length old) then diff ! i + old ! nat (pos + int i) else diff ! i)
       [0..<length diff]"

text \<open>One round: \<open>new\<close> holds the bytes made so far, its length is \<^verbatim>\<open>newpos\<close>.\<close>

definition read_diff :: "bytes \<Rightarrow> int \<Rightarrow> int \<Rightarrow> bs_state \<Rightarrow> bs_state step" where
  "read_diff old newsize n s =
     (if \<not> fits32 (int (length (new s)) + n) then Ub
      else if int (length (new s)) + n > newsize then Return 2
      else case BZ2_bzRead n (dpfbz2 s) of
          None \<Rightarrow> Return 2
        | Some (d, rest) \<Rightarrow>
            if \<not> fits32 (oldpos s + n) then Ub
            else Go (s\<lparr>dpfbz2 := rest, new := new s @ add_old old (oldpos s) d, oldpos := oldpos s + n\<rparr>))"

definition read_extra :: "int \<Rightarrow> int \<Rightarrow> int \<Rightarrow> bs_state \<Rightarrow> bs_state step" where
  "read_extra newsize n z s =
     (if \<not> fits32 (int (length (new s)) + n) then Ub
      else if int (length (new s)) + n > newsize then Return 2
      else case BZ2_bzRead n (epfbz2 s) of
          None \<Rightarrow> Return 2
        | Some (e, rest) \<Rightarrow>
            if \<not> fits32 (oldpos s + z) then Ub
            else Go (s\<lparr>epfbz2 := rest, new := new s @ e, oldpos := oldpos s + z\<rparr>))"

fun step_bind :: "'a step \<Rightarrow> ('a \<Rightarrow> 'b step) \<Rightarrow> 'b step" where
  "step_bind (Go x) f = f x"
| "step_bind (Return n) f = Return n"
| "step_bind Ub f = Ub"

definition bs_round :: "bytes \<Rightarrow> int \<Rightarrow> bs_state \<Rightarrow> bs_state step" where
  "bs_round old newsize s =
     step_bind (read_ctrl s) (\<lambda>(c0, s).
     step_bind (read_ctrl s) (\<lambda>(c1, s).
     step_bind (read_ctrl s) (\<lambda>(c2, s).
     step_bind (read_diff old newsize c0 s) (read_extra newsize c1 c2))))"

lemma step_bind_Go: "step_bind m f = Go y \<longleftrightarrow> (\<exists>x. m = Go x \<and> f x = Go y)"
  by (cases m) auto

lemma read_ctrl_Go: "read_ctrl s = Go (v, s') \<Longrightarrow> length (cpfbz2 s') < length (cpfbz2 s)"
  by (auto simp: read_ctrl_def BZ2_bzRead_def split: option.splits if_splits)

lemma read_diff_Go: "read_diff old newsize n s = Go s' \<Longrightarrow> cpfbz2 s' = cpfbz2 s"
  by (auto simp: read_diff_def split: option.splits if_splits)

lemma read_extra_Go: "read_extra newsize n z s = Go s' \<Longrightarrow> cpfbz2 s' = cpfbz2 s"
  by (auto simp: read_extra_def split: option.splits if_splits)

lemma bs_round_Go: "bs_round old newsize s = Go s' \<Longrightarrow> length (cpfbz2 s') < length (cpfbz2 s)"
  by (auto simp: bs_round_def step_bind_Go dest!: read_ctrl_Go read_diff_Go read_extra_Go)

function bs_loop :: "bytes \<Rightarrow> int \<Rightarrow> bs_state \<Rightarrow> bs_state step" where
  "bs_loop old newsize s =
     (if int (length (new s)) < newsize
      then (case bs_round old newsize s of Go s \<Rightarrow> bs_loop old newsize s | Return n \<Rightarrow> Return n | Ub \<Rightarrow> Ub)
      else Go s)"
  by pat_completeness auto
termination
  by (relation "measure (\<lambda>(old, newsize, s). length (cpfbz2 s))") (auto intro: bs_round_Go)

declare bs_loop.simps [simp del]

definition bsdiff_magic :: bytes where
  "bsdiff_magic = [0x42, 0x53, 0x44, 0x49, 0x46, 0x46, 0x34, 0x30]"

text \<open>The part after the header's numbers were read.\<close>

definition bs_rebuild :: "(bytes \<Rightarrow> bytes) \<Rightarrow> bytes \<Rightarrow> int \<Rightarrow> int \<Rightarrow> int \<Rightarrow> string \<Rightarrow> string \<Rightarrow> fsys \<Rightarrow> fsys outcome" where
  "bs_rebuild bunzip patch bzctrllen bzdatalen newsize oldfile newfile fs =
     (if \<not> fits32 (32 + bzctrllen) \<or> \<not> fits32 (32 + bzctrllen + bzdatalen) then Undefined
      else case content fs oldfile of
          None \<Rightarrow> Returned 1 fs
        | Some old \<Rightarrow>
            if length old \<ge> 2 ^ 31 then Returned 1 fs
            else (case bs_loop old newsize
                  \<lparr>cpfbz2 = bunzip (drop 32 patch), dpfbz2 = bunzip (drop (nat (32 + bzctrllen)) patch),
                   epfbz2 = bunzip (drop (nat (32 + bzctrllen + bzdatalen)) patch), new = [], oldpos = 0\<rparr> of
                Ub \<Rightarrow> Undefined
              | Return n \<Rightarrow> Returned n fs
              | Go s \<Rightarrow> if writable fs newfile then Returned 0 (put_file newfile (new s) fs) else Returned 1 fs))"

definition bspatch_perform :: "(bytes \<Rightarrow> bytes) \<Rightarrow> string \<Rightarrow> string \<Rightarrow> string \<Rightarrow> fsys \<Rightarrow> fsys outcome" where
  "bspatch_perform bunzip oldfile newfile patchfile fs =
     (case fopen_rb patchfile fs of
        None \<Rightarrow> Returned 1 fs
      | Some f \<Rightarrow>
          (let (header, f) = fread 32 f in
           if length header < 32 then (if seof f then Returned 2 fs else Returned 1 fs)
           else if take 8 header \<noteq> bsdiff_magic then Returned 2 fs
           else case (offtin (take 8 (drop 8 header)), offtin (take 8 (drop 16 header)), offtin (take 8 (drop 24 header))) of
               (Some bzctrllen, Some bzdatalen, Some newsize) \<Rightarrow>
                 if bzctrllen < 0 \<or> bzdatalen < 0 \<or> newsize < 0 then Returned 2 fs
                 else bs_rebuild bunzip (sdata f) bzctrllen bzdatalen newsize oldfile newfile fs
             | _ \<Rightarrow> Undefined))"

text \<open>The entry point opens all three files first, which empties the output, and closes them at the end; closing a null
  stream is undefined.\<close>

definition bsdiffPatchRom :: "(bytes \<Rightarrow> bytes) \<Rightarrow> string \<Rightarrow> string \<Rightarrow> string \<Rightarrow> fsys \<Rightarrow> fsys outcome" where
  "bsdiffPatchRom bunzip romPath patchPath outputFile fs =
     (let InFile = fopen_rb patchPath fs;
          SrcFile = fopen_rb romPath fs;
          (OutFile, fs) = (case fopen_wb outputFile fs of None \<Rightarrow> (None, fs) | Some (f, fs) \<Rightarrow> (Some f, fs));
          r = bspatch_perform bunzip romPath outputFile patchPath fs
      in if InFile = None \<or> SrcFile = None \<or> OutFile = None then Undefined else r)"

section \<open>Offsets\<close>

text \<open>The writer, \<^verbatim>\<open>offtout\<close> of \<^verbatim>\<open>bsdiff.c\<close>: the magnitude in eight bytes, the sign in the top bit.\<close>

definition offtout :: "int \<Rightarrow> bytes" where
  "offtout x = (let buf = le_bytes 8 (nat (if x < 0 then - x else x)) in if x < 0 then buf[7 := buf ! 7 OR 0x80] else buf)"

lemma length_offtout [simp]: "length (offtout x) = 8"
  by (simp only: offtout_def Let_def split: if_split) (simp only: length_list_update length_le_bytes simp_thms)

lemma off_step_nat: "y * 256 + unat b < 2 ^ 31 \<Longrightarrow> off_step (int y) b = Some (int (y * 256 + unat b))"
proof -
  assume "y * 256 + unat b < 2 ^ 31"
  then have "int (y * 256 + unat b) < int (2 ^ 31)" by (simp only: of_nat_less_iff)
  moreover have "int (2 ^ 31) = 2 ^ 31" by simp
  moreover have "int y * 256 + uint b = int (y * 256 + unat b)" by simp
  moreover have "- (2 ^ 31) \<le> int (y * 256 + unat b)" by (rule order_trans [of _ 0]) simp_all
  ultimately have "fits32 (int y * 256 + uint b)" "int y * 256 + uint b = int (y * 256 + unat b)" by (simp_all only: fits32_def simp_thms)
  then show ?thesis by (simp only: off_step_def Let_def if_True)
qed

lemma offtin_val:
  assumes "length buf = 8" "le_val (take 7 buf @ [buf ! 7 AND 0x7F]) < 2 ^ 31"
  shows "offtin buf = Some ((if bit (buf ! 7) 7 then -1 else 1) * int (le_val (take 7 buf @ [buf ! 7 AND 0x7F])))"
proof -
  define y7 where "y7 = unat (buf ! 7 AND 0x7F)"
  define y6 where "y6 = y7 * 256 + unat (buf ! 6)"
  define y5 where "y5 = y6 * 256 + unat (buf ! 5)"
  define y4 where "y4 = y5 * 256 + unat (buf ! 4)"
  define y3 where "y3 = y4 * 256 + unat (buf ! 3)"
  define y2 where "y2 = y3 * 256 + unat (buf ! 2)"
  define y1 where "y1 = y2 * 256 + unat (buf ! 1)"
  define y0 where "y0 = y1 * 256 + unat (buf ! 0)"
  have "take 7 buf = [buf ! 0, buf ! 1, buf ! 2, buf ! 3, buf ! 4, buf ! 5, buf ! 6]"
    using assms(1) by (intro nth_equalityI) (auto simp: nth_Cons' numeral_eq_Suc less_Suc_eq)
  then have v: "le_val (take 7 buf @ [buf ! 7 AND 0x7F]) = y0"
    by (simp add: y0_def y1_def y2_def y3_def y4_def y5_def y6_def y7_def algebra_simps)
  then have "y0 < 2 ^ 31" using assms(2) by simp
  then have b: "y0 < 2 ^ 31" "y1 < 2 ^ 31" "y2 < 2 ^ 31" "y3 < 2 ^ 31" "y4 < 2 ^ 31" "y5 < 2 ^ 31" "y6 < 2 ^ 31"
  proof -
    have "y1 \<le> y0" "y2 \<le> y1" "y3 \<le> y2" "y4 \<le> y3" "y5 \<le> y4" "y6 \<le> y5"
      unfolding y0_def y1_def y2_def y3_def y4_def y5_def by simp_all
    then show "y0 < 2 ^ 31" "y1 < 2 ^ 31" "y2 < 2 ^ 31" "y3 < 2 ^ 31" "y4 < 2 ^ 31" "y5 < 2 ^ 31" "y6 < 2 ^ 31"
      using \<open>y0 < 2 ^ 31\<close> by simp_all
  qed
  have "off_step (int y7) (buf ! 6) = Some (int y6)" "off_step (int y6) (buf ! 5) = Some (int y5)" "off_step (int y5) (buf ! 4) = Some (int y4)"
    "off_step (int y4) (buf ! 3) = Some (int y3)" "off_step (int y3) (buf ! 2) = Some (int y2)" "off_step (int y2) (buf ! 1) = Some (int y1)"
    "off_step (int y1) (buf ! 0) = Some (int y0)"
    using b unfolding y6_def y5_def y4_def y3_def y2_def y1_def y0_def by (simp_all only: off_step_nat)
  moreover have "uint (buf ! 7 AND 0x7F) = int y7" unfolding y7_def uint_nat ..
  ultimately show ?thesis unfolding v offtin_def Let_def by simp
qed

lemma le_bytes_split7: "le_bytes 8 n = take 7 (le_bytes 8 n) @ [of_nat (n div 256 ^ 7)]"
proof -
  have "le_bytes (Suc k) n = le_bytes k n @ [of_nat (n div 256 ^ k)]" for k
    by (induction k arbitrary: n) (simp_all add: div_mult2_eq)
  from this [of 7] have e: "le_bytes 8 n = le_bytes 7 n @ [of_nat (n div 256 ^ 7)]" by simp
  then have "take 7 (le_bytes 8 n) = le_bytes 7 n" by simp
  then show ?thesis using e by simp
qed

lemma offtin_offtout:
  assumes "\<bar>x\<bar> < 2 ^ 31" shows "offtin (offtout x) = Some x"
proof -
  define n where "n = nat (if x < 0 then - x else x)"
  have n: "n < 2 ^ 31" using assms by (auto simp: n_def)
  then have "n div 256 ^ 7 = 0" by simp
  then have l: "le_bytes 8 n = take 7 (le_bytes 8 n) @ [0]" using le_bytes_split7 [of n] by simp
  have "length (take 7 (le_bytes 8 n)) = 7" by simp
  then have "(take 7 (le_bytes 8 n) @ [0]) ! 7 = (0 :: byte)" by (metis nth_append_length)
  then have l7: "le_bytes 8 n ! 7 = 0" by (simp only: l [symmetric])
  have v: "le_val (take 7 (le_bytes 8 n) @ [0]) = n" using n unfolding l [symmetric] by (simp add: codec_simps)
  show ?thesis
  proof (cases "x < 0")
    case True
    then have "offtout x = (le_bytes 8 n)[7 := 0x80]" using l7 by (simp add: offtout_def Let_def n_def)
    then show ?thesis using offtin_val [of "offtout x"] v n True l7 by (simp add: n_def)
  next
    case False
    then have "offtout x = le_bytes 8 n" by (simp add: offtout_def Let_def n_def)
    then show ?thesis using offtin_val [of "offtout x"] v n False l7 by (simp add: n_def)
  qed
qed

section \<open>What a patch describes\<close>

text \<open>Differences to add to the old file, extra bytes, and how far to move in the old file.\<close>

type_synonym bs_triple = "bytes \<times> bytes \<times> int"

fun bs_build :: "bytes \<Rightarrow> int \<Rightarrow> bs_triple list \<Rightarrow> bytes" where
  "bs_build old pos [] = []"
| "bs_build old pos ((d, e, z) # ts) = add_old old pos d @ e @ bs_build old (pos + int (length d) + z) ts"

fun bs_fits :: "int \<Rightarrow> bs_triple list \<Rightarrow> bool" where
  "bs_fits pos [] \<longleftrightarrow> True"
| "bs_fits pos ((d, e, z) # ts) \<longleftrightarrow> \<bar>z\<bar> < 2 ^ 31 \<and> fits32 (pos + int (length d)) \<and> fits32 (pos + int (length d) + z)
     \<and> bs_fits (pos + int (length d) + z) ts"

fun ctrl_bytes :: "bs_triple \<Rightarrow> bytes" where
  "ctrl_bytes (d, e, z) = offtout (int (length d)) @ offtout (int (length e)) @ offtout z"

lemma length_add_old [simp]: "length (add_old old pos d) = length d"
  by (simp add: add_old_def)

lemma BZ2_bzRead_front: "n = int (length xs) \<Longrightarrow> BZ2_bzRead n (xs @ ys) = Some (xs, ys)"
  by (simp add: BZ2_bzRead_def)

lemma read_ctrl_front: "cpfbz2 s = offtout v @ ys \<Longrightarrow> \<bar>v\<bar> < 2 ^ 31 \<Longrightarrow> read_ctrl s = Go (v, s\<lparr>cpfbz2 := ys\<rparr>)"
  using BZ2_bzRead_front [of 8 "offtout v" ys] by (simp add: read_ctrl_def offtin_offtout)

lemma bs_round_front:
  assumes "cpfbz2 s = ctrl_bytes (d, e, z) @ cs" "dpfbz2 s = d @ ds" "epfbz2 s = e @ es"
    and "int (length (new s)) + int (length d) + int (length e) \<le> newsize" "newsize < 2 ^ 31" "bs_fits (oldpos s) [(d, e, z)]"
  shows "bs_round old newsize s = Go \<lparr>cpfbz2 = cs, dpfbz2 = ds, epfbz2 = es, new = new s @ add_old old (oldpos s) d @ e,
    oldpos = oldpos s + int (length d) + z\<rparr>"
proof -
  have f: "\<bar>int (length d)\<bar> < 2 ^ 31" "\<bar>int (length e)\<bar> < 2 ^ 31" "\<bar>z\<bar> < 2 ^ 31" "fits32 (int (length (new s)) + int (length d))"
    "fits32 (int (length (new s)) + int (length d) + int (length e))" using assms(4-6) by (auto simp: fits32_def)
  have o: "fits32 (oldpos s + int (length d))" "fits32 (oldpos s + int (length d) + z)" using assms(6) by auto
  have "read_ctrl s = Go (int (length d), s\<lparr>cpfbz2 := offtout (int (length e)) @ offtout z @ cs\<rparr>)"
    using assms(1) f(1) by (simp add: read_ctrl_front)
  moreover have "read_ctrl (s\<lparr>cpfbz2 := offtout (int (length e)) @ offtout z @ cs\<rparr>) = Go (int (length e), s\<lparr>cpfbz2 := offtout z @ cs\<rparr>)"
    using f(2) read_ctrl_front [of "s\<lparr>cpfbz2 := offtout (int (length e)) @ offtout z @ cs\<rparr>" "int (length e)"] by simp
  moreover have "read_ctrl (s\<lparr>cpfbz2 := offtout z @ cs\<rparr>) = Go (z, s\<lparr>cpfbz2 := cs\<rparr>)"
    using f(3) read_ctrl_front [of "s\<lparr>cpfbz2 := offtout z @ cs\<rparr>" z] by simp
  moreover have "read_diff old newsize (int (length d)) (s\<lparr>cpfbz2 := cs\<rparr>)
    = Go (s\<lparr>cpfbz2 := cs, dpfbz2 := ds, new := new s @ add_old old (oldpos s) d, oldpos := oldpos s + int (length d)\<rparr>)"
    using assms(2,4) f(4) o(1) by (simp add: read_diff_def BZ2_bzRead_front)
  moreover have "read_extra newsize (int (length e)) z (s\<lparr>cpfbz2 := cs, dpfbz2 := ds, new := new s @ add_old old (oldpos s) d, oldpos := oldpos s + int (length d)\<rparr>)
    = Go (s\<lparr>cpfbz2 := cs, dpfbz2 := ds, epfbz2 := es, new := new s @ add_old old (oldpos s) d @ e, oldpos := oldpos s + int (length d) + z\<rparr>)"
    using assms(3,4) f(5) o(2) by (simp add: read_extra_def BZ2_bzRead_front)
  ultimately show ?thesis by (simp add: bs_round_def)
qed

lemma bs_loop_build:
  assumes "cpfbz2 s = concat (map ctrl_bytes ts)" "dpfbz2 s = concat (map fst ts)" "epfbz2 s = concat (map (\<lambda>t. fst (snd t)) ts)"
    and "newsize = int (length (new s) + length (bs_build old (oldpos s) ts))" "newsize < 2 ^ 31" "bs_fits (oldpos s) ts"
  shows "\<exists>s'. bs_loop old newsize s = Go s' \<and> new s' = new s @ bs_build old (oldpos s) ts"
  using assms
proof (induction ts arbitrary: s)
  case Nil
  then show ?case by (simp add: bs_loop.simps)
next
  case (Cons t ts)
  obtain d e z where t: "t = (d, e, z)" by (cases t)
  show ?case
  proof (cases "int (length (new s)) < newsize")
    case False
    then have "bs_build old (oldpos s) (t # ts) = []" using Cons.prems(4) by auto
    then show ?thesis using False by (simp add: bs_loop.simps)
  next
    case True
    let ?s = "\<lparr>cpfbz2 = concat (map ctrl_bytes ts), dpfbz2 = concat (map fst ts), epfbz2 = concat (map (\<lambda>t. fst (snd t)) ts),
      new = new s @ add_old old (oldpos s) d @ e, oldpos = oldpos s + int (length d) + z\<rparr>"
    have "bs_round old newsize s = Go ?s" using Cons.prems t by (intro bs_round_front) auto
    then have "bs_loop old newsize s = bs_loop old newsize ?s" using True by (subst bs_loop.simps) simp
    moreover have "\<exists>s'. bs_loop old newsize ?s = Go s' \<and> new s' = new ?s @ bs_build old (oldpos ?s) ts"
      using Cons.prems t by (intro Cons.IH) auto
    ultimately show ?thesis using t by auto
  qed
qed

text \<open>A patch file made with a compressor; what the decompressor must do with its output, whatever follows it.\<close>

definition bz_codec :: "(bytes \<Rightarrow> bytes) \<Rightarrow> (bytes \<Rightarrow> bytes) \<Rightarrow> bool" where
  "bz_codec bzip bunzip \<longleftrightarrow> (\<forall>x rest. bunzip (bzip x @ rest) = x)"

definition bs_patch :: "(bytes \<Rightarrow> bytes) \<Rightarrow> int \<Rightarrow> bs_triple list \<Rightarrow> bytes" where
  "bs_patch bzip newsize ts =
     (let c = bzip (concat (map ctrl_bytes ts)); d = bzip (concat (map fst ts)); e = bzip (concat (map (\<lambda>t. fst (snd t)) ts))
      in bsdiff_magic @ offtout (int (length c)) @ offtout (int (length d)) @ offtout newsize @ c @ d @ e)"

lemma bspatch_perform_header:
  assumes "content fs patch = Some (bsdiff_magic @ offtout c @ offtout d @ offtout n @ body)" "\<bar>c\<bar> < 2 ^ 31" "\<bar>d\<bar> < 2 ^ 31" "\<bar>n\<bar> < 2 ^ 31"
  shows "bspatch_perform bunzip old out patch fs =
    (if c < 0 \<or> d < 0 \<or> n < 0 then Returned 2 fs
     else bs_rebuild bunzip (bsdiff_magic @ offtout c @ offtout d @ offtout n @ body) c d n old out fs)"
proof -
  let ?h = "bsdiff_magic @ offtout c @ offtout d @ offtout n"
  have l: "length bsdiff_magic = 8" by (simp add: bsdiff_magic_def)
  have "fread 32 (sopen (?h @ body)) = (?h, advance 32 (sopen (?h @ body)))"
    by (rule fread_front) (simp_all add: srest_sopen l)
  then show ?thesis using assms
    by (simp add: bspatch_perform_def fopen_rb_def l offtin_offtout stdio_simps)
qed

lemma bspatch_builds:
  assumes "bz_codec bzip bunzip" "content fs rom = Some old" "content fs patch = Some (bs_patch bzip (int (length (bs_build old 0 ts))) ts)"
    and "writable fs out" "rom \<noteq> out" "patch \<noteq> out" "length old < 2 ^ 31" "length (bs_build old 0 ts) < 2 ^ 31" "bs_fits 0 ts"
    and "32 + length (bzip (concat (map ctrl_bytes ts))) + length (bzip (concat (map fst ts))) < 2 ^ 31"
  shows "bsdiffPatchRom bunzip rom patch out fs = Returned 0 (put_file out (bs_build old 0 ts) fs)"
proof -
  let ?n = "int (length (bs_build old 0 ts))"
  let ?c = "bzip (concat (map ctrl_bytes ts))" and ?d = "bzip (concat (map fst ts))" and ?e = "bzip (concat (map (\<lambda>t. fst (snd t)) ts))"
  let ?h = "bsdiff_magic @ offtout (int (length ?c)) @ offtout (int (length ?d)) @ offtout ?n" and ?fs = "put_file out [] fs"
  have l: "length ?h = 32" by (simp add: bsdiff_magic_def)
  have p: "bs_patch bzip ?n ts = ?h @ ?c @ ?d @ ?e" by (simp add: bs_patch_def Let_def)
  have "int (32 + length ?c + length ?d) < int (2 ^ 31)" using assms(10) by (simp only: of_nat_less_iff)
  then have small: "32 + int (length ?c) + int (length ?d) < 2 ^ 31" by simp
  let ?p = "?h @ ?c @ ?d @ ?e"
  have "drop 32 ?p = ?c @ ?d @ ?e" "drop (32 + length ?c) ?p = ?d @ ?e" "drop (32 + length ?c + length ?d) ?p = ?e @ []"
    using l by (simp_all del: append_assoc add: append_assoc [symmetric])
  then have b: "bunzip (drop 32 ?p) = concat (map ctrl_bytes ts)" "bunzip (drop (32 + length ?c) ?p) = concat (map fst ts)"
    "bunzip (drop (32 + length ?c + length ?d) ?p) = concat (map (\<lambda>t. fst (snd t)) ts)"
    using assms(1) unfolding bz_codec_def by metis+
  let ?s = "\<lparr>cpfbz2 = concat (map ctrl_bytes ts), dpfbz2 = concat (map fst ts), epfbz2 = concat (map (\<lambda>t. fst (snd t)) ts), new = [], oldpos = 0\<rparr>"
  obtain s' where s': "bs_loop old ?n ?s = Go s'" "new s' = bs_build old 0 ts"
    using bs_loop_build [of ?s ts ?n old] assms(8,9) by auto
  have "nat (32 + int (length ?c)) = 32 + length ?c" "nat (32 + int (length ?c) + int (length ?d)) = 32 + length ?c + length ?d" by auto
  then have "bs_rebuild bunzip ?p (int (length ?c)) (int (length ?d)) ?n rom out ?fs = Returned 0 (put_file out (bs_build old 0 ts) fs)"
    using assms(2,4,5,7) small s' b by (simp add: bs_rebuild_def fits32_def stdio_simps)
  moreover have "bspatch_perform bunzip rom out patch ?fs = bs_rebuild bunzip ?p (int (length ?c)) (int (length ?d)) ?n rom out ?fs"
    using bspatch_perform_header [of ?fs patch "int (length ?c)" "int (length ?d)" ?n "?c @ ?d @ ?e" bunzip rom out] assms(3,6,8) small p
    by (simp add: stdio_simps)
  ultimately show ?thesis using assms(2-6) by (simp add: bsdiffPatchRom_def fopen_rb_def fopen_wb_def)
qed

text \<open>C11: for a compressor and decompressor that fit together, a well-formed patch rebuilds in the output file exactly what its
  triples describe: differences added to the old bytes, extra bytes inserted, and moves in the old file.\<close>

theorem bspatch_apply_correct:
  assumes "bz_codec bzip bunzip" "content fs rom = Some old" "content fs patch = Some (bs_patch bzip (int (length (bs_build old 0 ts))) ts)"
    and "writable fs out" "rom \<noteq> out" "patch \<noteq> out" "length old < 2 ^ 31" "length (bs_build old 0 ts) < 2 ^ 31" "bs_fits 0 ts"
    and "32 + length (bzip (concat (map ctrl_bytes ts))) + length (bzip (concat (map fst ts))) < 2 ^ 31"
  shows "bsdiffPatchRom bunzip rom patch out fs = Returned 0 (put_file out (bs_build old 0 ts) fs)"
  using assms by (rule bspatch_builds)

text \<open>A simple code in the place of bzip2, to run an example.\<close>

fun esc :: "bytes \<Rightarrow> bytes" where
  "esc [] = [0]"
| "esc (b # bs) = 1 # b # esc bs"

fun unesc :: "bytes \<Rightarrow> bytes" where
  "unesc (f # b # bs) = (if f = 1 then b # unesc bs else [])"
| "unesc bs = []"

lemma esc_codec: "bz_codec esc unesc"
proof -
  have "unesc (esc x @ rest) = x" for x rest
  proof (induction x)
    case Nil
    show ?case by (cases rest) simp_all
  qed simp
  then show ?thesis by (simp add: bz_codec_def)
qed

definition bs_example :: "bs_triple list" where
  "bs_example = [([1, 0], [9], -1)]"

definition bs_files :: fsys where
  "bs_files = \<lparr>content = [''old'' \<mapsto> [5, 6, 7], ''bs'' \<mapsto> bs_patch esc 3 bs_example, ''bad'' \<mapsto> replicate 40 0], writable = \<lambda>_. True\<rparr>"

lemma length_esc: "length (esc bs) = 2 * length bs + 1"
  by (induction bs) simp_all

lemma bs_example_small: "32 + length (esc (concat (map ctrl_bytes bs_example))) + length (esc (concat (map fst bs_example))) < 2 ^ 31"
  by (simp add: bs_example_def length_esc del: esc.simps)

lemma bs_example_fits: "bs_fits 0 bs_example"
  by (simp add: bs_example_def fits32_def)

theorem bspatch_apply_correct_witness:
  "bsdiffPatchRom unesc ''old'' ''bs'' ''out'' bs_files = Returned 0 (put_file ''out'' [6, 6, 9] bs_files)"
proof -
  have b: "bs_build [5, 6, 7] 0 bs_example = [6, 6, 9]" by (simp add: bs_example_def add_old_def)
  have "int (length [6 :: byte, 6, 9]) = 3" by simp
  moreover have "32 + length (esc (concat (map ctrl_bytes bs_example))) + length (esc (concat (map fst bs_example))) < 2 ^ 31" by (rule bs_example_small)
  moreover have "bs_fits 0 bs_example" by (rule bs_example_fits)
  ultimately show ?thesis
    using bspatch_apply_correct [of esc unesc bs_files "''old''" "[5, 6, 7]" "''bs''" bs_example "''out''"] esc_codec b
    by (simp add: bs_files_def)
qed

section \<open>Every run\<close>

lemma read_diff_size: "read_diff old newsize n s = Go s' \<Longrightarrow> int (length (new s')) \<le> newsize"
  by (auto simp: read_diff_def BZ2_bzRead_def split: option.splits if_splits)

lemma read_extra_size: "read_extra newsize n z s = Go s' \<Longrightarrow> int (length (new s')) \<le> newsize"
  by (auto simp: read_extra_def BZ2_bzRead_def split: option.splits if_splits)

lemma bs_round_size: "bs_round old newsize s = Go s' \<Longrightarrow> int (length (new s')) \<le> newsize"
  by (auto simp: bs_round_def step_bind_Go dest: read_extra_size)

lemma bs_loop_size: "bs_loop old newsize s = Go s' \<Longrightarrow> int (length (new s)) \<le> newsize \<Longrightarrow> int (length (new s')) = newsize"
proof (induction old newsize s rule: bs_loop.induct)
  case (1 old newsize s)
  show ?case
  proof (cases "int (length (new s)) < newsize")
    case True
    then obtain s1 where s1: "bs_round old newsize s = Go s1" "bs_loop old newsize s1 = Go s'"
      using 1(2) by (subst (asm) (2) bs_loop.simps) (auto split: step.splits)
    then show ?thesis using 1(1) [OF True s1(1,2) bs_round_size [OF s1(1)]] by simp
  qed (use 1(2,3) in \<open>simp add: bs_loop.simps\<close>)
qed

lemma bs_round_Return: "bs_round old newsize s = Return n \<Longrightarrow> n = 2"
proof -
  have m: "step_bind m f = Return n \<Longrightarrow> m = Return n \<or> (\<exists>x. m = Go x \<and> f x = Return n)" for m :: "'a step" and f :: "'a \<Rightarrow> 'b step" by (cases m) auto
  have c: "read_ctrl s = Return n \<Longrightarrow> n = 2" for s by (auto simp: read_ctrl_def split: option.splits)
  have "read_diff old newsize k s = Return n \<Longrightarrow> n = 2" "read_extra newsize k z s = Return n \<Longrightarrow> n = 2" for k z s
    by (auto simp: read_diff_def read_extra_def split: option.splits if_splits)
  then show "bs_round old newsize s = Return n \<Longrightarrow> n = 2" by (auto simp: bs_round_def dest!: m c)
qed

lemma bs_loop_Return: "bs_loop old newsize s = Return n \<Longrightarrow> n = 2"
proof (induction old newsize s rule: bs_loop.induct)
  case (1 old newsize s)
  then show ?case
    by (subst (asm) (2) bs_loop.simps) (auto dest: bs_round_Return split: if_splits step.splits)
qed

text \<open>C24: whatever the patch holds, the rebuilt bytes never exceed the size in its header, so the buffer allocated for them is not
  overrun, and a run that ends with 0 has written a file of exactly that size and changed no other file.\<close>

theorem bspatch_output_size:
  assumes "bsdiffPatchRom bunzip rom patch out fs = Returned 0 fs'" "content fs patch = Some p" "patch \<noteq> out"
  shows "\<exists>nw. fs' = put_file out nw fs \<and> offtin (take 8 (drop 24 p)) = Some (int (length nw))"
proof -
  let ?fs = "put_file out [] fs"
  have o: "writable fs out" using assms(1) by (auto simp: bsdiffPatchRom_def fopen_wb_def Let_def split: if_splits)
  have run: "bspatch_perform bunzip rom out patch ?fs = Returned 0 fs'"
    using assms(1) o by (auto simp: bsdiffPatchRom_def fopen_wb_def Let_def split: if_splits)
  have c: "content ?fs patch = Some p" using assms(2,3) by (simp add: stdio_simps)
  obtain f where f: "fread 32 (sopen p) = (take 32 p, f)" "sdata f = p" by (auto simp: fread_def srest_sopen sdata_sopen)
  obtain a b n where h: "offtin (take 8 (drop 24 p)) = Some n" "0 \<le> n" "bs_rebuild bunzip p a b n rom out ?fs = Returned 0 fs'"
    using run c f by (auto simp: bspatch_perform_def fopen_rb_def drop_take min_def split: if_splits option.splits)
  then obtain old s s' where s: "bs_loop old n s = Go s'" "new s = []" "fs' = put_file out (new s') fs"
    by (auto simp: bs_rebuild_def stdio_simps dest!: bs_loop_Return split: if_splits option.splits step.splits)
  then show ?thesis using bs_loop_size [OF s(1)] h(1,2) by auto
qed

theorem bspatch_output_size_witness:
  "\<exists>nw. put_file ''out'' [6, 6, 9] bs_files = put_file ''out'' nw bs_files
    \<and> offtin (take 8 (drop 24 (bs_patch esc 3 bs_example))) = Some (int (length nw))"
proof (rule bspatch_output_size [where bunzip = unesc and rom = "''old''" and patch = "''bs''"])
  have b: "bs_build [5, 6, 7] 0 bs_example = [6, 6, 9]" by (simp add: bs_example_def add_old_def)
  show "bsdiffPatchRom unesc ''old'' ''bs'' ''out'' bs_files = Returned 0 (put_file ''out'' [6, 6, 9] bs_files)"
    using bspatch_builds [of esc unesc bs_files "''old''" "[5, 6, 7]" "''bs''" bs_example "''out''"] esc_codec b bs_example_small bs_example_fits
    by (simp add: bs_files_def)
qed (simp_all add: bs_files_def)

text \<open>A patch shorter than its header or without the signature is refused with 2; the output file is left empty and
  nothing else changes.\<close>

theorem bspatch_refuses:
  assumes "content fs rom = Some old" "content fs patch = Some p" "writable fs out" "patch \<noteq> out" "length p < 32 \<or> take 8 p \<noteq> bsdiff_magic"
  shows "bsdiffPatchRom bunzip rom patch out fs = Returned 2 (put_file out [] fs)"
proof -
  obtain f where f: "fread 32 (sopen p) = (take 32 p, f)" "length p < 32 \<Longrightarrow> seof f" by (auto simp: fread_def srest_sopen)
  have "take 8 (take 32 p) = take 8 p" by simp
  then have "bspatch_perform bunzip rom out patch (put_file out [] fs) = Returned 2 (put_file out [] fs)"
    using assms(2,4,5) f by (auto simp: bspatch_perform_def fopen_rb_def stdio_simps)
  then show ?thesis using assms(1-3) by (simp add: bsdiffPatchRom_def fopen_rb_def fopen_wb_def)
qed

theorem bspatch_refuses_witness:
  "bsdiffPatchRom unesc ''old'' ''bad'' ''out'' bs_files = Returned 2 (put_file ''out'' [] bs_files)"
proof (rule bspatch_refuses [where old = "[5, 6, 7]" and p = "replicate 40 0"])
  have "hd (replicate 8 (0 :: byte)) \<noteq> hd bsdiff_magic" by (simp add: bsdiff_magic_def)
  then have "replicate 8 0 \<noteq> bsdiff_magic" by metis
  then show "length (replicate 40 (0 :: byte)) < 32 \<or> take 8 (replicate 40 0) \<noteq> bsdiff_magic" by simp
qed (simp_all add: bs_files_def)

end
