(* ===== verification/Qsufsort.thy ===== *)
theory Qsufsort
  imports CStdio "HOL-Library.Monad_Syntax"
begin

text \<open>
  The suffix sort of the bsdiff patch maker, \<^verbatim>\<open>jni/bsdiffpatcher/bsdiff.c\<close>.  \<open>None\<close> is an access outside an array or a loop
  without end.  Numbers are unbounded here; below \<open>2 ^ 30\<close> bytes none of them leaves the 32 bits of \<^verbatim>\<open>off_t\<close>.
\<close>

section \<open>Model: arrays\<close>

definition rd :: "'a list \<Rightarrow> int \<Rightarrow> 'a option" where
  "rd xs k = (if 0 \<le> k \<and> k < int (length xs) then Some (xs ! nat k) else None)"

definition wr :: "'a list \<Rightarrow> int \<Rightarrow> 'a \<Rightarrow> 'a list option" where
  "wr xs k v = (if 0 \<le> k \<and> k < int (length xs) then Some (xs[nat k := v]) else None)"

definition swap :: "int list \<Rightarrow> int \<Rightarrow> int \<Rightarrow> int list option" where
  "swap I a b = do { x \<leftarrow> rd I a; y \<leftarrow> rd I b; I \<leftarrow> wr I a y; wr I b x }"

section \<open>Model: the suffix sort\<close>

definition key :: "int list \<Rightarrow> int list \<Rightarrow> int \<Rightarrow> int \<Rightarrow> int option" where
  "key I V h k = do { p \<leftarrow> rd I k; rd V (p + h) }"

text \<open>\<^verbatim>\<open>for(i=0;i<n;i++) V[I[a+i]]=v\<close>\<close>

primrec set_ranks :: "nat \<Rightarrow> int \<Rightarrow> int \<Rightarrow> int list \<Rightarrow> int list \<Rightarrow> int list option" where
  "set_ranks 0 a v I V = Some V"
| "set_ranks (Suc n) a v I V = do { p \<leftarrow> rd I a; V \<leftarrow> wr V p v; set_ranks n (a + 1) v I V }"

text \<open>Selecting the suffixes with the least key of a short stretch: \<open>n\<close> rounds are left.\<close>

primrec select_least :: "nat \<Rightarrow> int \<Rightarrow> int \<Rightarrow> int \<Rightarrow> int \<Rightarrow> int \<Rightarrow> int list \<Rightarrow> int list \<Rightarrow> (int \<times> int list) option" where
  "select_least 0 i k j x h I V = Some (j, I)"
| "select_least (Suc n) i k j x h I V =
     do {
       y \<leftarrow> key I V h (k + i);
       let (x, j) = (if y < x then (y, 0) else (x, j));
       y \<leftarrow> key I V h (k + i);
       if y = x then do { I \<leftarrow> swap I (k + j) (k + i); select_least n (i + 1) k (j + 1) x h I V }
       else select_least n (i + 1) k j x h I V
     }"

partial_function (option) split_small :: "int \<Rightarrow> int \<Rightarrow> int \<Rightarrow> int list \<times> int list \<Rightarrow> (int list \<times> int list) option" where
  "split_small k stop h IV =
     (if k < stop then
        do {
          x \<leftarrow> key (fst IV) (snd IV) h k;
          (j, I) \<leftarrow> select_least (nat (stop - k - 1)) 1 k 1 x h (fst IV) (snd IV);
          V \<leftarrow> set_ranks (nat j) k (k + j - 1) I (snd IV);
          I \<leftarrow> (if j = 1 then wr I k (-1) else Some I);
          split_small (k + j) stop h (I, V)
        }
      else Some IV)"

primrec count_keys :: "nat \<Rightarrow> int \<Rightarrow> int \<Rightarrow> int \<Rightarrow> int list \<Rightarrow> int list \<Rightarrow> int \<Rightarrow> int \<Rightarrow> (int \<times> int) option" where
  "count_keys 0 i x h I V jj kk = Some (jj, kk)"
| "count_keys (Suc n) i x h I V jj kk =
     do { y \<leftarrow> key I V h i; count_keys n (i + 1) x h I V (if y < x then jj + 1 else jj) (if y = x then kk + 1 else kk) }"

partial_function (option) part_low :: "int \<Rightarrow> int \<Rightarrow> int \<Rightarrow> int \<Rightarrow> int \<Rightarrow> int \<Rightarrow> int \<Rightarrow> int list \<Rightarrow> int list \<Rightarrow> (int \<times> int \<times> int list) option" where
  "part_low i j k jj kk x h I V =
     (if i < jj then
        do {
          y \<leftarrow> key I V h i;
          if y < x then part_low (i + 1) j k jj kk x h I V
          else if y = x then do { I \<leftarrow> swap I i (jj + j); part_low i (j + 1) k jj kk x h I V }
          else do { I \<leftarrow> swap I i (kk + k); part_low i j (k + 1) jj kk x h I V }
        }
      else Some (j, k, I))"

partial_function (option) part_mid :: "int \<Rightarrow> int \<Rightarrow> int \<Rightarrow> int \<Rightarrow> int \<Rightarrow> int \<Rightarrow> int list \<Rightarrow> int list \<Rightarrow> int list option" where
  "part_mid j k jj kk x h I V =
     (if jj + j < kk then
        do {
          y \<leftarrow> key I V h (jj + j);
          if y = x then part_mid (j + 1) k jj kk x h I V
          else do { I \<leftarrow> swap I (jj + j) (kk + k); part_mid j (k + 1) jj kk x h I V }
        }
      else Some I)"

partial_function (option) split :: "int list \<times> int list \<Rightarrow> int \<Rightarrow> int \<Rightarrow> int \<Rightarrow> (int list \<times> int list) option" where
  "split IV start len h =
     (if len < 16 then split_small start (start + len) h IV
      else
        do {
          x \<leftarrow> key (fst IV) (snd IV) h (start + len div 2);
          (jj, kk) \<leftarrow> count_keys (nat len) start x h (fst IV) (snd IV) 0 0;
          let jj = jj + start;
          let kk = kk + jj;
          (j, k, I) \<leftarrow> part_low start 0 0 jj kk x h (fst IV) (snd IV);
          I \<leftarrow> part_mid j k jj kk x h I (snd IV);
          IV \<leftarrow> (if jj > start then split (I, snd IV) start (jj - start) h else Some (I, snd IV));
          V \<leftarrow> set_ranks (nat (kk - jj)) jj (kk - 1) (fst IV) (snd IV);
          I \<leftarrow> (if jj = kk - 1 then wr (fst IV) jj (-1) else Some (fst IV));
          if start + len > kk then split (I, V) kk (start + len - kk) h else Some (I, V)
        })"

text \<open>The bucket sort on the first byte.\<close>

definition bucket_counts :: "bytes \<Rightarrow> int list" where
  "bucket_counts old = fold (\<lambda>b bs. bs[unat b := bs ! unat b + 1]) old (replicate 256 0)"

definition bucket_starts :: "bytes \<Rightarrow> int list" where
  "bucket_starts old =
     (let b = fold (\<lambda>i b. b[i := b ! i + b ! (i - 1)]) [1..<256] (bucket_counts old);
          b = fold (\<lambda>i b. b[i := b ! (i - 1)]) (rev [1..<256]) b
      in b[0 := 0])"

fun bucket_fill :: "int \<Rightarrow> bytes \<Rightarrow> int list \<Rightarrow> int list \<Rightarrow> (int list \<times> int list) option" where
  "bucket_fill i [] buckets I = Some (buckets, I)"
| "bucket_fill i (b # old) buckets I =
     do {
       let buckets = buckets[unat b := buckets ! unat b + 1];
       I \<leftarrow> wr I (buckets ! unat b) i;
       bucket_fill (i + 1) old buckets I
     }"

fun mark_singles :: "nat list \<Rightarrow> int list \<Rightarrow> int list \<Rightarrow> int list option" where
  "mark_singles [] buckets I = Some I"
| "mark_singles (i # is) buckets I =
     do {
       I \<leftarrow> (if buckets ! i = buckets ! (i - 1) + 1 then wr I (buckets ! i) (-1) else Some I);
       mark_singles is buckets I
     }"

text \<open>One pass over the groups, and the passes with doubled distance.\<close>

partial_function (option) sort_pass :: "int \<Rightarrow> int \<Rightarrow> int \<Rightarrow> int \<Rightarrow> int list \<times> int list \<Rightarrow> (int list \<times> int list) option" where
  "sort_pass i len oldsize h IV =
     (if i < oldsize + 1 then
        do {
          p \<leftarrow> rd (fst IV) i;
          if p < 0 then sort_pass (i - p) (len - p) oldsize h IV
          else do {
            I \<leftarrow> (if len \<noteq> 0 then wr (fst IV) (i - len) (- len) else Some (fst IV));
            p \<leftarrow> rd I i;
            v \<leftarrow> rd (snd IV) p;
            let len = v + 1 - i;
            IV \<leftarrow> split (I, snd IV) i len h;
            sort_pass (i + len) 0 oldsize h IV
          }
        }
      else do { I \<leftarrow> (if len \<noteq> 0 then wr (fst IV) (i - len) (- len) else Some (fst IV)); Some (I, snd IV) })"

partial_function (option) sort_passes :: "int \<Rightarrow> int \<Rightarrow> int list \<times> int list \<Rightarrow> (int list \<times> int list) option" where
  "sort_passes h oldsize IV =
     do {
       p \<leftarrow> rd (fst IV) 0;
       if p \<noteq> - (oldsize + 1) then do { IV \<leftarrow> sort_pass 0 0 oldsize h IV; sort_passes (h + h) oldsize IV }
       else Some IV
     }"

fun invert_ranks :: "int \<Rightarrow> int list \<Rightarrow> int list \<Rightarrow> int list option" where
  "invert_ranks i [] I = Some I"
| "invert_ranks i (v # V) I = do { I \<leftarrow> wr I v i; invert_ranks (i + 1) V I }"

text \<open>The content of the two arrays before they are set is arbitrary.\<close>

definition qsufsort :: "int list \<Rightarrow> int list \<Rightarrow> bytes \<Rightarrow> int list option" where
  "qsufsort I V old =
     do {
       let oldsize = int (length old);
       (buckets, I) \<leftarrow> bucket_fill 0 old (bucket_starts old) I;
       I \<leftarrow> wr I 0 oldsize;
       let V = map (\<lambda>b. buckets ! unat b) old @ drop (length old) V;
       V \<leftarrow> wr V oldsize 0;
       I \<leftarrow> mark_singles [1..<256] buckets I;
       I \<leftarrow> wr I 0 (-1);
       (I, V) \<leftarrow> sort_passes 1 oldsize (I, V);
       invert_ranks 0 V I
     }"

declare split_small.simps [code] part_low.simps [code] part_mid.simps [code] split.simps [code] sort_pass.simps [code] sort_passes.simps [code]

end
