(* ===== verification/Suffix_Ranks.thy ===== *)
theory Suffix_Ranks
  imports Qsufsort
begin

text \<open>
  What the suffix sort works on: the order of the suffixes, arrays of ranks that are consistent with this order, the one
  way in which ranks are refined, and how the index array is laid out between two refinements.
\<close>

section \<open>Suffixes\<close>

fun lex_less :: "bytes \<Rightarrow> bytes \<Rightarrow> bool" where
  "lex_less as [] = False"
| "lex_less [] (b # bs) = True"
| "lex_less (a # as) (b # bs) = (if a = b then lex_less as bs else a < b)"

lemma lex_less_append: "lex_less (u @ a) (u @ b) \<longleftrightarrow> lex_less a b"
  by (induction u) simp_all

definition suf_less :: "bytes \<Rightarrow> int \<Rightarrow> int \<Rightarrow> bool" where
  "suf_less old p q \<longleftrightarrow> lex_less (drop (nat p) old) (drop (nat q) old)"

abbreviation sufs :: "bytes \<Rightarrow> int set" where
  "sufs old \<equiv> {0..int (length old)}"

text \<open>Two suffixes that have \<open>h\<close> bytes and agree on them.\<close>

definition agree :: "bytes \<Rightarrow> int \<Rightarrow> int \<Rightarrow> int \<Rightarrow> bool" where
  "agree old h p q \<longleftrightarrow> p + h \<le> int (length old) \<and> q + h \<le> int (length old)
     \<and> take (nat h) (drop (nat p) old) = take (nat h) (drop (nat q) old)"

lemma agree_suf_less:
  assumes "agree old h p q" "0 \<le> p" "0 \<le> q" "0 \<le> h" "suf_less old (p + h) (q + h)"
  shows "suf_less old p q"
proof -
  have "drop (nat p) old = take (nat h) (drop (nat p) old) @ drop (nat (p + h)) old"
    "drop (nat q) old = take (nat h) (drop (nat p) old) @ drop (nat (q + h)) old"
    using assms(1-4) append_take_drop_id [of "nat h" "drop (nat p) old"] append_take_drop_id [of "nat h" "drop (nat q) old"]
    by (simp_all add: agree_def nat_add_distrib add.commute)
  then show ?thesis using assms(5) unfolding suf_less_def by (metis lex_less_append)
qed

lemma agree_double:
  assumes "agree old h p q" "agree old h (p + h) (q + h)" "0 \<le> p" "0 \<le> q" "0 \<le> h"
  shows "agree old (h + h) p q"
proof -
  have "nat (h + h) = nat h + nat h" "nat (p + h) = nat p + nat h" "nat (q + h) = nat q + nat h" using assms(3-5) by linarith+
  then show ?thesis using assms(1,2) by (simp add: agree_def take_add add.commute)
qed

section \<open>Ranks\<close>

abbreviation at :: "int list \<Rightarrow> int \<Rightarrow> int" where
  "at xs k \<equiv> xs ! nat k"

definition cls :: "bytes \<Rightarrow> int list \<Rightarrow> int \<Rightarrow> int set" where
  "cls old V g = {p \<in> sufs old. at V p = g}"

text \<open>A rank is the last place of its class in the order; ranks follow the order of the suffixes; suffixes of one rank agree.\<close>

definition good :: "bytes \<Rightarrow> int list \<Rightarrow> int \<Rightarrow> bool" where
  "good old V h \<longleftrightarrow> length V = length old + 1
     \<and> (\<forall>p\<in>sufs old. at V p + 1 = int (card {q \<in> sufs old. at V q \<le> at V p}))
     \<and> (\<forall>p\<in>sufs old. \<forall>q\<in>sufs old. at V p < at V q \<longrightarrow> suf_less old p q)
     \<and> (\<forall>p\<in>sufs old. \<forall>q\<in>sufs old. p \<noteq> q \<longrightarrow> at V p = at V q \<longrightarrow> agree old h p q)"

lemma good_order: "good old V h \<Longrightarrow> p \<in> sufs old \<Longrightarrow> q \<in> sufs old \<Longrightarrow> at V p < at V q \<Longrightarrow> suf_less old p q"
  and good_agree: "good old V h \<Longrightarrow> p \<in> sufs old \<Longrightarrow> q \<in> sufs old \<Longrightarrow> p \<noteq> q \<Longrightarrow> at V p = at V q \<Longrightarrow> agree old h p q"
  unfolding good_def by blast+

lemma finite_between [simp]: "finite {q :: int. 0 \<le> q \<and> q \<le> b \<and> P q}"
  by (rule finite_subset [of _ "{0..b}"]) auto

lemma finite_cls [simp]: "finite (cls old V g)"
  by (simp add: cls_def)

lemma in_cls: "p \<in> cls old V g \<longleftrightarrow> 0 \<le> p \<and> p \<le> int (length old) \<and> at V p = g"
  by (auto simp: cls_def)

text \<open>The places of a class: everything below it is below its first place.\<close>

lemma good_below:
  assumes "good old V h" "p \<in> cls old V g"
  shows "int (card {q \<in> sufs old. at V q < g}) = g + 1 - int (card (cls old V g))"
proof -
  have "at V p + 1 = int (card {q \<in> sufs old. at V q \<le> at V p})" using assms by (auto simp: good_def cls_def)
  moreover have "{q \<in> sufs old. at V q \<le> g} = {q \<in> sufs old. at V q < g} \<union> cls old V g" by (auto simp: cls_def)
  moreover have "card ({q \<in> sufs old. at V q < g} \<union> cls old V g) = card {q \<in> sufs old. at V q < g} + card (cls old V g)"
    by (rule card_Un_disjoint) (auto simp: cls_def)
  ultimately show ?thesis using assms(2) by (simp add: cls_def)
qed

lemma good_less:
  assumes "good old V h" "p \<in> cls old V g" "q \<in> sufs old" "at V q < g"
  shows "at V q < g + 1 - int (card (cls old V g))"
proof -
  have "at V q + 1 = int (card {r \<in> sufs old. at V r \<le> at V q})" using assms(1,3) by (auto simp: good_def)
  also have "\<dots> \<le> int (card {r \<in> sufs old. at V r < g})" using assms(4) by (intro of_nat_mono card_mono) auto
  finally show ?thesis using good_below [OF assms(1,2)] by simp
qed

text \<open>The one refinement: the least suffixes of a class get the rank of their last place.\<close>

lemma good_refine:
  assumes g: "good old V h" and E: "E \<subseteq> cls old V g" "E \<noteq> {}" "\<And>p q. p \<in> E \<Longrightarrow> q \<in> cls old V g - E \<Longrightarrow> suf_less old p q"
    and V': "length V' = length V" "\<And>p. p \<in> sufs old - E \<Longrightarrow> at V' p = at V p" "\<And>p. p \<in> E \<Longrightarrow> at V' p = r"
    and r: "r = g + int (card E) - int (card (cls old V g))"
  shows "good old V' h"
proof -
  let ?U = "cls old V g" and ?b = "g + 1 - int (card (cls old V g))"
  obtain e where e: "e \<in> E" "e \<in> ?U" using E by blast
  have fE: "finite E" using E(1) finite_cls by (rule finite_subset)
  have cE: "card E \<le> card ?U" "0 < card E" "card E = card ?U \<Longrightarrow> E = ?U" using E fE by (auto simp: card_mono card_gt_0_iff card_subset_eq)
  have low: "at V q < ?b" if "q \<in> sufs old" "at V q < g" for q using good_less [OF g e(2)] that by simp
  have rb: "?b \<le> r" "r \<le> g" "r = g \<Longrightarrow> E = ?U" using r cE by auto
  have sE: "p \<in> sufs old" "at V p = g" if "p \<in> E" for p using that E(1) by (auto simp: cls_def)
  have "at V' p + 1 = int (card {q \<in> sufs old. at V' q \<le> at V' p})" if p: "p \<in> sufs old" for p
  proof (cases "p \<in> E")
    case True
    have "{q \<in> sufs old. at V' q \<le> r} = {q \<in> sufs old. at V q < g} \<union> E"
    proof (intro set_eqI iffI)
      fix q assume q: "q \<in> {q \<in> sufs old. at V' q \<le> r}"
      show "q \<in> {q \<in> sufs old. at V q < g} \<union> E"
      proof (cases "q \<in> E")
        case False
        then have "at V q \<le> r" using q V'(2) by auto
        moreover have "at V q \<noteq> g" if "r = g" using rb(3) that False q by (auto simp: cls_def)
        ultimately show ?thesis using q rb(2) by force
      qed simp
    next
      fix q assume "q \<in> {q \<in> sufs old. at V q < g} \<union> E"
      then show "q \<in> {q \<in> sufs old. at V' q \<le> r}" using low [of q] sE [of q] V'(2,3) [of q] rb(1) by (cases "q \<in> E") auto
    qed
    moreover have "card ({q \<in> sufs old. at V q < g} \<union> E) = card {q \<in> sufs old. at V q < g} + card E"
      using fE sE by (intro card_Un_disjoint) auto
    ultimately show ?thesis using V'(3) [OF True] good_below [OF g e(2)] r by simp
  next
    case False
    then have v: "at V' p = at V p" using p V'(2) by blast
    have "at V' q \<le> at V p \<longleftrightarrow> at V q \<le> at V p" if q: "q \<in> sufs old" for q
    proof (cases "q \<in> E")
      case True
      then show ?thesis using low [OF p] V'(3) [OF True] sE [OF True] rb by (cases "at V p < g") auto
    qed (use q V'(2) in auto)
    then have "{q \<in> sufs old. at V' q \<le> at V' p} = {q \<in> sufs old. at V q \<le> at V p}" using v by auto
    then show ?thesis using g p v by (simp add: good_def)
  qed
  moreover have "suf_less old p q" if pq: "p \<in> sufs old" "q \<in> sufs old" "at V' p < at V' q" for p q
  proof -
    have o: "at V a < at V b \<Longrightarrow> suf_less old a b" if "a \<in> sufs old" "b \<in> sufs old" for a b using g that by (auto simp: good_def)
    consider "p \<in> E" "q \<in> E" | "p \<in> E" "q \<notin> E" "at V q < g" | "p \<in> E" "q \<notin> E" "at V q = g" | "p \<in> E" "q \<notin> E" "g < at V q" | "p \<notin> E" "q \<in> E" | "p \<notin> E" "q \<notin> E" by linarith
    then show ?thesis
    proof cases
      case 3
      then show ?thesis using E(3) pq(2) by (simp add: cls_def)
    qed (use pq V'(2,3) [of p] V'(2,3) [of q] low [of q] rb sE o in force)+
  qed
  moreover have "agree old h p q" if pq: "p \<in> sufs old" "q \<in> sufs old" "p \<noteq> q" "at V' p = at V' q" for p q
  proof -
    have a: "at V p = at V q \<Longrightarrow> agree old h p q" using g pq by (auto simp: good_def)
    have n: "at V b \<noteq> r" if "b \<in> sufs old" "b \<notin> E" for b
    proof
      assume b: "at V b = r"
      then have "\<not> at V b < g" using low [of b] that(1) rb(1) by linarith
      then have "r = g" using b rb(2) by linarith
      then show False using rb(3) that b by (auto simp: cls_def)
    qed
    show ?thesis
      using pq V'(2,3) [of p] V'(2,3) [of q] n [of p] n [of q] sE [of p] sE [of q] a by (cases "p \<in> E"; cases "q \<in> E") auto
  qed
  moreover have "length V' = length old + 1" using g V'(1) by (simp add: good_def)
  ultimately show ?thesis unfolding good_def by blast
qed

section \<open>The index array\<close>

text \<open>
  From place \<open>a\<close> up to \<open>b\<close> the index array holds cells: the negated length of a run of classes with one suffix each, or the
  suffixes of a class, which agree on \<open>h\<close> bytes.
\<close>

inductive lay :: "bytes \<Rightarrow> int \<Rightarrow> int list \<Rightarrow> int list \<Rightarrow> int \<Rightarrow> int \<Rightarrow> bool" for old h I V where
  lay_nil: "lay old h I V a a"
| lay_run: "at I a < 0 \<Longrightarrow> (\<And>j. a \<le> j \<Longrightarrow> j < a - at I a \<Longrightarrow> card (cls old V j) = 1) \<Longrightarrow> lay old h I V (a - at I a) b \<Longrightarrow> lay old h I V a b"
| lay_group: "a \<le> g \<Longrightarrow> bij_betw (at I) {a..g} (cls old V g) \<Longrightarrow> (\<And>p. p \<in> cls old V g \<Longrightarrow> p + h \<le> int (length old))
    \<Longrightarrow> (\<And>p q. p \<in> cls old V g \<Longrightarrow> q \<in> cls old V g \<Longrightarrow> p \<noteq> q \<Longrightarrow> agree old h p q) \<Longrightarrow> lay old h I V (g + 1) b \<Longrightarrow> lay old h I V a b"

lemma lay_le: "lay old h I V a b \<Longrightarrow> a \<le> b"
  by (induction rule: lay.induct) auto

lemma lay_append: "lay old h I V a b \<Longrightarrow> lay old h I V b c \<Longrightarrow> lay old h I V a c"
proof (induction rule: lay.induct)
  case (lay_group a g b)
  then show ?case by (auto intro!: lay.lay_group [of a g])
qed (auto intro: lay_run)

lemma lay_cong:
  assumes "lay old h I V a b" "\<And>k. a \<le> k \<Longrightarrow> k < b \<Longrightarrow> at I' k = at I k" "\<And>j. a \<le> j \<Longrightarrow> j < b \<Longrightarrow> cls old V' j = cls old V j"
  shows "lay old h I' V' a b"
  using assms
proof (induction rule: lay.induct)
  case (lay_run a b)
  then have "a - at I a \<le> b" by (auto dest: lay_le)
  then have "at I' a = at I a" using lay_run by auto
  with lay_run \<open>a - at I a \<le> b\<close> show ?case by (auto intro!: lay.lay_run [of I' a])
next
  case (lay_group a g b)
  then have b: "g + 1 \<le> b" by (auto dest: lay_le)
  then have c: "cls old V' g = cls old V g" using lay_group by auto
  moreover have "bij_betw (at I') {a..g} (cls old V g)"
    using lay_group b by (subst bij_betw_cong [of _ _ "at I"]) auto
  ultimately show ?case using lay_group b by (auto intro!: lay.lay_group [of a g])
qed (rule lay.lay_nil)

abbreviation all_less :: "bytes \<Rightarrow> int set \<Rightarrow> int set \<Rightarrow> bool" where
  "all_less old A B \<equiv> \<forall>p\<in>A. \<forall>q\<in>B. suf_less old p q"

abbreviation all_agree :: "bytes \<Rightarrow> int \<Rightarrow> int set \<Rightarrow> bool" where
  "all_agree old h A \<equiv> \<forall>p\<in>A. \<forall>q\<in>A. p \<noteq> q \<longrightarrow> agree old h p q"

text \<open>A stretch of the index array with the first suffixes of a class.\<close>

definition seg_ok :: "bytes \<Rightarrow> int \<Rightarrow> int list \<Rightarrow> int list \<Rightarrow> int \<Rightarrow> int \<Rightarrow> int set \<Rightarrow> int \<Rightarrow> bool" where
  "seg_ok old h I V s e S g \<longleftrightarrow> good old V h \<and> length I = length old + 1 \<and> 0 \<le> s \<and> s \<le> e \<and> e \<le> int (length old) + 1
     \<and> bij_betw (at I) {s..<e} S \<and> S \<subseteq> cls old V g \<and> s = g + 1 - int (card (cls old V g))
     \<and> (\<forall>p\<in>S. \<forall>q\<in>cls old V g - S. suf_less old p q) \<and> (\<forall>p\<in>S. p + h \<le> int (length old))"

text \<open>The stretch is sorted by twice as many bytes, and nothing else has changed.\<close>

definition seg_done :: "bytes \<Rightarrow> int \<Rightarrow> int list \<Rightarrow> int list \<Rightarrow> int \<Rightarrow> int \<Rightarrow> int set \<Rightarrow> int list \<Rightarrow> int list \<Rightarrow> bool" where
  "seg_done old h I V s e S I' V' \<longleftrightarrow> good old V' h \<and> length I' = length old + 1
     \<and> (\<forall>k. 0 \<le> k \<longrightarrow> k \<notin> {s..<e} \<longrightarrow> at I' k = at I k) \<and> (\<forall>p\<in>sufs old - S. at V' p = at V p)
     \<and> (\<forall>p\<in>S. s \<le> at V' p \<and> at V' p < e) \<and> lay old (h + h) I' V' s e"

lemma seg_card:
  assumes "seg_ok old h I V s e S g" shows "int (card S) = e - s" "e \<le> g + 1" "finite S"
proof -
  have b: "bij_betw (at I) {s..<e} S" "s \<le> e" "S \<subseteq> cls old V g" "s = g + 1 - int (card (cls old V g))" using assms by (auto simp: seg_ok_def)
  show "finite S" using b(3) finite_cls by (rule finite_subset)
  show c: "int (card S) = e - s" using bij_betw_same_card [OF b(1)] b(2) by simp
  have "card S \<le> card (cls old V g)" using b(3) by (intro card_mono) auto
  then show "e \<le> g + 1" using c b(4) by simp
qed

lemma seg_front:
  assumes "seg_ok old h I V s e S g" "s \<le> m" "m \<le> e" "S1 = at I ` {s..<m}" "all_less old S1 (S - S1)"
  shows "seg_ok old h I V s m S1 g" "S1 \<subseteq> S"
proof -
  have b: "bij_betw (at I) {s..<e} S" "S \<subseteq> cls old V g" "\<forall>p\<in>S. \<forall>q\<in>cls old V g - S. suf_less old p q" using assms(1) by (auto simp: seg_ok_def)
  show sub: "S1 \<subseteq> S" using b(1) assms(3,4) by (auto simp: bij_betw_def)
  have "bij_betw (at I) {s..<m} S1" using bij_betw_subset [OF b(1), of "{s..<m}" S1] assms(3,4) by auto
  moreover have "suf_less old p q" if "p \<in> S1" "q \<in> cls old V g - S1" for p q
    using that b(3) assms(5) sub by (cases "q \<in> S") auto
  ultimately show "seg_ok old h I V s m S1 g" using assms(1-3) sub unfolding seg_ok_def by auto
qed

lemma seg_rest:
  assumes "seg_ok old h I V s e S g" "s \<le> m" "m < e" "S1 = at I ` {s..<m}" "all_less old S1 (S - S1)"
    and "seg_done old h I V s m S1 I1 V1"
  shows "seg_ok old h I1 V1 m e (S - S1) g"
proof -
  note front = seg_front [OF assms(1,2) less_imp_le [OF assms(3)] assms(4,5)]
  have k: "bij_betw (at I) {s..<e} S" "S \<subseteq> cls old V g" "s = g + 1 - int (card (cls old V g))" "0 \<le> s" "e \<le> int (length old) + 1"
    "\<forall>p\<in>S. \<forall>q\<in>cls old V g - S. suf_less old p q" "\<forall>p\<in>S. p + h \<le> int (length old)"
    using assms(1) by (auto simp: seg_ok_def)
  have d: "good old V1 h" "length I1 = length old + 1" "\<And>k. 0 \<le> k \<Longrightarrow> k \<notin> {s..<m} \<Longrightarrow> at I1 k = at I k"
    "\<And>p. p \<in> sufs old - S1 \<Longrightarrow> at V1 p = at V p" "\<And>p. p \<in> S1 \<Longrightarrow> s \<le> at V1 p \<and> at V1 p < m" using assms(6) by (auto simp: seg_done_def)
  have cl: "cls old V1 g = cls old V g - S1"
  proof (intro set_eqI iffI)
    fix p assume p: "p \<in> cls old V1 g"
    then have "p \<notin> S1" using d(5) [of p] seg_card(2) [OF assms(1)] assms(3) by (auto simp: cls_def)
    then show "p \<in> cls old V g - S1" using p d(4) [of p] by (auto simp: cls_def)
  next
    fix p assume "p \<in> cls old V g - S1"
    then show "p \<in> cls old V1 g" using d(4) [of p] by (auto simp: cls_def)
  qed
  have "int (card (cls old V1 g)) = int (card (cls old V g)) - (m - s)"
    using seg_card(1,3) [OF front(1)] front(2) k(2) card_Diff_subset [of S1 "cls old V g"] card_mono [of "cls old V g" S1] by (simp add: cl of_nat_diff)
  then have "m = g + 1 - int (card (cls old V1 g))" using k(3) by simp
  moreover have "bij_betw (at I1) {m..<e} (S - S1)"
  proof -
    have "{m..<e} = {s..<e} - {s..<m}" using assms(2,3) by auto
    then have "bij_betw (at I) {m..<e} (S - S1)"
      using k(1) assms(3,4) inj_on_image_set_diff [of "at I" "{s..<e}" "{s..<e}" "{s..<m}"] by (auto simp: bij_betw_def intro: inj_on_subset)
    then show ?thesis using d(3) k(4) assms(2) by (subst bij_betw_cong [of _ _ "at I"]) auto
  qed
  moreover have "suf_less old p q" if "p \<in> S - S1" "q \<in> cls old V1 g - (S - S1)" for p q
    using that k(6) by (auto simp: cl)
  ultimately show ?thesis using d(1,2) k assms(2,3) unfolding seg_ok_def by (auto simp: cl)
qed

lemma seg_join:
  assumes "seg_ok old h I V s e S g" "s \<le> m" "m < e" "S1 = at I ` {s..<m}" "all_less old S1 (S - S1)"
    and "seg_done old h I V s m S1 I1 V1" "seg_done old h I1 V1 m e (S - S1) I2 V2"
  shows "seg_done old h I V s e S I2 V2"
proof -
  have sub: "S1 \<subseteq> S" by (rule seg_front(2) [OF assms(1,2) less_imp_le [OF assms(3)] assms(4,5)])
  have rest: "S - S1 \<subseteq> cls old V1 g" using seg_rest [OF assms(1-6)] by (auto simp: seg_ok_def)
  have s: "0 \<le> s" using assms(1) by (auto simp: seg_ok_def)
  have d1: "\<And>k. 0 \<le> k \<Longrightarrow> k \<notin> {s..<m} \<Longrightarrow> at I1 k = at I k" "\<And>p. p \<in> sufs old - S1 \<Longrightarrow> at V1 p = at V p"
    "\<And>p. p \<in> S1 \<Longrightarrow> s \<le> at V1 p \<and> at V1 p < m" "lay old (h + h) I1 V1 s m" using assms(6) by (auto simp: seg_done_def)
  have d2: "good old V2 h" "length I2 = length old + 1" "\<And>k. 0 \<le> k \<Longrightarrow> k \<notin> {m..<e} \<Longrightarrow> at I2 k = at I1 k"
    "\<And>p. p \<in> sufs old - (S - S1) \<Longrightarrow> at V2 p = at V1 p" "\<And>p. p \<in> S - S1 \<Longrightarrow> m \<le> at V2 p \<and> at V2 p < e" "lay old (h + h) I2 V2 m e"
    using assms(7) by (auto simp: seg_done_def)
  have S: "S \<subseteq> sufs old" using assms(1) by (auto simp: seg_ok_def cls_def)
  have "cls old V2 j = cls old V1 j" if "s \<le> j" "j < m" for j
  proof -
    have "at V1 p \<noteq> j \<and> at V2 p \<noteq> j" if "p \<in> S - S1" for p
      using that d2(5) [OF that] rest \<open>j < m\<close> assms(3) seg_card(2) [OF assms(1)] by (auto simp: cls_def)
    then show ?thesis using d2(4) unfolding cls_def by (metis (mono_tags, lifting) DiffI)
  qed
  then have "lay old (h + h) I2 V2 s m" using d1(4) d2(3) s by (intro lay_cong [OF d1(4)]) auto
  then have "lay old (h + h) I2 V2 s e" using d2(6) by (rule lay_append)
  moreover have "s \<le> at V2 p \<and> at V2 p < e" if "p \<in> S" for p
    using that d1(3) [of p] d2(4,5) [of p] assms(2,3) S by (cases "p \<in> S1") force+
  moreover have "at V2 p = at V p" if "p \<in> sufs old - S" for p using that d1(2) [of p] d2(4) [of p] sub by auto
  ultimately show ?thesis using d1(1) d2(1,2,3) assms(2,3) unfolding seg_done_def by auto
qed

text \<open>A stretch of suffixes that agree on twice as many bytes becomes one cell.\<close>

lemma seg_equal:
  assumes ok: "seg_ok old h I V s m E g" "s < m" "all_agree old (h + h) E"
    and V': "length V' = length V" "\<And>p. p \<in> sufs old \<Longrightarrow> at V' p = (if p \<in> E then m - 1 else at V p)"
    and I': "I' = (if m = s + 1 then I[nat s := -1] else I)"
  shows "seg_done old h I V s m E I' V'"
proof -
  have k: "good old V h" "length I = length old + 1" "bij_betw (at I) {s..<m} E" "E \<subseteq> cls old V g" "s = g + 1 - int (card (cls old V g))" "0 \<le> s"
    "\<And>p q. p \<in> E \<Longrightarrow> q \<in> cls old V g - E \<Longrightarrow> suf_less old p q" "m \<le> int (length old) + 1" using ok(1) by (auto simp: seg_ok_def)
  have c: "int (card E) = m - s" "m \<le> g + 1" "finite E" using seg_card [OF ok(1)] by auto
  then have ne: "E \<noteq> {}" using ok(2) by auto
  have sE: "E \<subseteq> sufs old" using k(4) by (auto simp: cls_def)
  have r: "m - 1 = g + int (card E) - int (card (cls old V g))" using k(5) c(1) by simp
  have good': "good old V' h" using k(7) V' sE by (intro good_refine [OF k(1,4) ne _ V'(1) _ _ r]) auto
  have cl: "cls old V' (m - 1) = E"
  proof (intro set_eqI iffI)
    fix p assume p: "p \<in> cls old V' (m - 1)"
    show "p \<in> E"
    proof (rule ccontr)
      assume "p \<notin> E"
      then have v: "at V p = m - 1" "p \<in> sufs old" using p V'(2) [of p] by (auto simp: cls_def)
      obtain e where "e \<in> cls old V g" using ne k(4) by blast
      then have "\<not> at V p < g" using good_less [OF k(1) _ v(2), of e g] v(1) k(5) ok(2) by auto
      then have "m - 1 = g" using v(1) c(2) by simp
      then have "card E = card (cls old V g)" using r by simp
      then have "E = cls old V g" using card_subset_eq [OF finite_cls k(4)] by simp
      then show False using \<open>p \<notin> E\<close> v \<open>m - 1 = g\<close> by (auto simp: cls_def)
    qed
  qed (use V'(2) sE in \<open>auto simp: cls_def\<close>)
  have "lay old (h + h) I' V' s m"
  proof (cases "m = s + 1")
    case True
    then have "at I' s = -1" using I' k(2,6,8) ok(2) by simp
    moreover have "card (cls old V' j) = 1" if "s \<le> j" "j < s + 1" for j using that cl c(1) True by (simp add: order_antisym)
    ultimately show ?thesis using True by (auto intro!: lay_run [of I' s] lay_nil)
  next
    case False
    then have i: "I' = I" "{s..m - 1} = {s..<m}" using I' by auto
    have "p + (h + h) \<le> int (length old)" if "p \<in> E" for p
    proof -
      have "2 \<le> card E" using c(1) False ok(2) by simp
      then have "\<not> E \<subseteq> {p}" using card_mono [of "{p}" E] by auto
      then obtain q where "q \<in> E" "p \<noteq> q" by blast
      then show ?thesis using ok(3) that by (auto simp: agree_def)
    qed
    moreover have "lay old (h + h) I' V' (m - 1 + 1) m" using lay_nil [of old "h + h" I' V' m] by simp
    ultimately show ?thesis using i k(3) ok(2,3) by (intro lay_group [of s "m - 1"]) (simp_all add: cl)
  qed
  moreover have "at I' k = at I k" if "0 \<le> k" "k \<notin> {s..<m}" for k
    using that I' k(6) ok(2) by (cases "k = s") (auto simp: nth_list_update_neq)
  ultimately show ?thesis using good' k(2) V' sE I' ok(2) unfolding seg_done_def by auto
qed

section \<open>Keys\<close>

text \<open>Suffixes of one class are compared by the ranks \<open>h\<close> bytes further on.\<close>

lemma key_less:
  assumes "good old V h" "0 \<le> h" "p \<in> cls old V g" "q \<in> cls old V g" "p + h \<le> int (length old)" "q + h \<le> int (length old)" "at V (p + h) < at V (q + h)"
  shows "suf_less old p q"
proof -
  have "p \<noteq> q" using assms(7) by auto
  then have "agree old h p q" using assms(3,4) by (intro good_agree [OF assms(1)]) (auto simp: cls_def)
  moreover have "suf_less old (p + h) (q + h)" using assms(2-7) by (intro good_order [OF assms(1)]) (auto simp: cls_def)
  moreover have "0 \<le> p" "0 \<le> q" using assms(3,4) by (auto simp: cls_def)
  ultimately show ?thesis using agree_suf_less assms(2) by blast
qed

lemma key_equal:
  assumes "good old V h" "0 \<le> h" "p \<in> cls old V g" "q \<in> cls old V g" "p \<noteq> q" "p + h \<le> int (length old)" "q + h \<le> int (length old)" "at V (p + h) = at V (q + h)"
  shows "agree old (h + h) p q"
proof -
  have "agree old h p q" using assms(3-5) by (intro good_agree [OF assms(1)]) (auto simp: cls_def)
  moreover have "agree old h (p + h) (q + h)" using assms(2-8) by (intro good_agree [OF assms(1)]) (auto simp: cls_def)
  ultimately show ?thesis using agree_double assms(2) assms(3,4) [unfolded in_cls] by blast
qed

end
