(* ===== verification/Qsufsort_Split.thy ===== *)
theory Qsufsort_Split
  imports Suffix_Ranks
begin

text \<open>
  The function \<^verbatim>\<open>split\<close> of \<^verbatim>\<open>jni/bsdiffpatcher/bsdiff.c\<close>: it ends, stays inside its arrays, and sorts a stretch of suffixes that agree
  on \<open>h\<close> bytes by twice as many, both in its loop for short stretches and in its recursion with a partition.
\<close>

section \<open>Array accesses\<close>

lemma rd_at: "0 \<le> k \<Longrightarrow> k < int (length xs) \<Longrightarrow> rd xs k = Some (at xs k)"
  by (simp add: rd_def)

lemma wr_at: "0 \<le> k \<Longrightarrow> k < int (length xs) \<Longrightarrow> wr xs k v = Some (xs[nat k := v])"
  by (simp add: wr_def)

lemma at_update: "0 \<le> k \<Longrightarrow> 0 \<le> j \<Longrightarrow> j < int (length xs) \<Longrightarrow> at (xs[nat j := v]) k = (if k = j then v else at xs k)"
  by (auto simp: nth_list_update)

text \<open>Exchanging two places of a stretch keeps what the stretch holds.\<close>

lemma swap_at:
  assumes "a \<in> {s..<e}" "b \<in> {s..<e}" "0 \<le> s" "e \<le> int (length I)" "bij_betw (at I) {s..<e} S"
  obtains I' where "swap I a b = Some I'" "length I' = length I" "bij_betw (at I') {s..<e} S"
    "\<And>k. 0 \<le> k \<Longrightarrow> at I' k = (if k = a then at I b else if k = b then at I a else at I k)"
proof -
  let ?I = "(I[nat a := at I b])[nat b := at I a]"
  have sw: "swap I a b = Some ?I" using assms(1-4) by (simp add: swap_def rd_at wr_at)
  have n: "at ?I k = (if k = a then at I b else if k = b then at I a else at I k)" if "0 \<le> k" for k
    using that assms(1-4) at_update [of k b "I[nat a := at I b]"] at_update [of k a I] by auto
  let ?f = "\<lambda>k. if k = a then b else if k = b then a else k"
  have "bij_betw ?f {s..<e} {s..<e}" using assms(1,2) by (intro bij_betw_byWitness [of _ ?f]) auto
  then have "bij_betw (at I \<circ> ?f) {s..<e} S" using assms(5) by (rule bij_betw_trans)
  moreover have "at ?I k = (at I \<circ> ?f) k" if "k \<in> {s..<e}" for k using n that assms(3) by auto
  ultimately have "bij_betw (at ?I) {s..<e} S" by (metis (no_types, lifting) bij_betw_cong)
  then show ?thesis using that [OF sw] n by simp
qed

lemma set_ranks_sets:
  assumes "0 \<le> a" "a + int n \<le> int (length I)" "\<And>k. a \<le> k \<Longrightarrow> k < a + int n \<Longrightarrow> 0 \<le> at I k \<and> at I k < int (length V)"
  shows "\<exists>V'. set_ranks n a v I V = Some V' \<and> length V' = length V \<and> (\<forall>p\<ge>0. at V' p = (if p \<in> at I ` {a..<a + int n} then v else at V p))"
  using assms
proof (induction n arbitrary: a V)
  case (Suc n)
  have p: "rd I a = Some (at I a)" "0 \<le> at I a" "at I a < int (length V)" using Suc.prems by (auto intro!: rd_at)
  let ?V = "V[nat (at I a) := v]"
  obtain V' where V': "set_ranks n (a + 1) v I ?V = Some V'" "length V' = length V"
    "\<forall>p\<ge>0. at V' p = (if p \<in> at I ` {a + 1..<a + 1 + int n} then v else at ?V p)"
    using Suc.IH [of "a + 1" ?V] Suc.prems by auto
  have "{a..<a + int (Suc n)} = insert a {a + 1..<a + 1 + int n}" by auto
  then have "\<forall>p\<ge>0. at V' p = (if p \<in> at I ` {a..<a + int (Suc n)} then v else at V p)"
    using V'(3) p at_update [of _ "at I a" V v] by auto
  then show ?case using p V'(1,2) by (simp add: wr_at)
qed simp

section \<open>Short stretches\<close>

abbreviation K :: "int list \<Rightarrow> int list \<Rightarrow> int \<Rightarrow> int \<Rightarrow> int" where
  "K I V h k \<equiv> at V (at I k + h)"

lemma key_at:
  assumes "bij_betw (at I) {s..<e} S" "\<And>p. p \<in> S \<Longrightarrow> 0 \<le> p + h \<and> p + h < int (length V)" "k \<in> {s..<e}" "0 \<le> s" "e \<le> int (length I)"
  shows "key I V h k = Some (K I V h k)"
proof -
  have "at I k \<in> S" using assms(1,3) by (auto simp: bij_betw_def)
  then show ?thesis using assms by (simp add: key_def rd_at)
qed

lemma select_least_selects:
  assumes "0 \<le> s" "s \<le> k" "e \<le> int (length I)" "bij_betw (at I) {k..<e} S" "\<And>p. p \<in> S \<Longrightarrow> 0 \<le> p + h \<and> p + h < int (length V)"
    and "k + i + int n = e" "1 \<le> j" "j \<le> i"
    and "\<And>t. k \<le> t \<Longrightarrow> t < k + j \<Longrightarrow> K I V h t = x" "\<And>t. k + j \<le> t \<Longrightarrow> t < k + i \<Longrightarrow> x < K I V h t"
  shows "\<exists>j' I' x'. select_least n i k j x h I V = Some (j', I') \<and> length I' = length I \<and> bij_betw (at I') {k..<e} S \<and> 1 \<le> j' \<and> k + j' \<le> e
    \<and> (\<forall>t\<ge>0. t \<notin> {k..<e} \<longrightarrow> at I' t = at I t) \<and> (\<forall>t. k \<le> t \<and> t < k + j' \<longrightarrow> K I' V h t = x') \<and> (\<forall>t. k + j' \<le> t \<and> t < e \<longrightarrow> x' < K I' V h t)"
  using assms
proof (induction n arbitrary: i j x I)
  case 0
  then show ?case by (intro exI [of _ j] exI [of _ I] exI [of _ x]) auto
next
  case (Suc n)
  let ?y = "K I V h (k + i)" and ?x = "min x (K I V h (k + i))" and ?j = "if K I V h (k + i) < x then 0 else j"
  have y: "key I V h (k + i) = Some ?y" using Suc.prems by (intro key_at [OF Suc.prems(4,5)]) auto
  have step: "select_least (Suc n) i k j x h I V =
      (if ?y \<le> x then do { I \<leftarrow> swap I (k + ?j) (k + i); select_least n (i + 1) k (?j + 1) ?x h I V } else select_least n (i + 1) k j x h I V)"
    using y by (auto simp: Let_def min_def)
  show ?case
  proof (cases "?y \<le> x")
    case False
    have "\<exists>j' I' x'. select_least n (i + 1) k j x h I V = Some (j', I') \<and> length I' = length I \<and> bij_betw (at I') {k..<e} S \<and> 1 \<le> j' \<and> k + j' \<le> e
      \<and> (\<forall>t\<ge>0. t \<notin> {k..<e} \<longrightarrow> at I' t = at I t) \<and> (\<forall>t. k \<le> t \<and> t < k + j' \<longrightarrow> K I' V h t = x') \<and> (\<forall>t. k + j' \<le> t \<and> t < e \<longrightarrow> x' < K I' V h t)"
    proof (rule Suc.IH)
      fix t assume "k + j \<le> t" "t < k + (i + 1)"
      then show "x < K I V h t" using Suc.prems(10) [of t] False by (cases "t = k + i") auto
    qed (use Suc.prems in auto)
    then show ?thesis using step False by simp
  next
    case True
    have in0: "0 \<le> k" using Suc.prems by linarith
    have m: "k + ?j \<in> {k..<e}" "k + i \<in> {k..<e}" using Suc.prems(6-8) by auto
    obtain I1 where I1: "swap I (k + ?j) (k + i) = Some I1" "length I1 = length I" "bij_betw (at I1) {k..<e} S"
      "\<And>t. 0 \<le> t \<Longrightarrow> at I1 t = (if t = k + ?j then at I (k + i) else if t = k + i then at I (k + ?j) else at I t)"
      by (rule swap_at [OF m in0 Suc.prems(3,4)]) (rule that)
    have "\<exists>j' I' x'. select_least n (i + 1) k (?j + 1) ?x h I1 V = Some (j', I') \<and> length I' = length I1 \<and> bij_betw (at I') {k..<e} S \<and> 1 \<le> j' \<and> k + j' \<le> e
      \<and> (\<forall>t\<ge>0. t \<notin> {k..<e} \<longrightarrow> at I' t = at I1 t) \<and> (\<forall>t. k \<le> t \<and> t < k + j' \<longrightarrow> K I' V h t = x') \<and> (\<forall>t. k + j' \<le> t \<and> t < e \<longrightarrow> x' < K I' V h t)"
    proof (rule Suc.IH)
      fix t assume "k \<le> t" "t < k + (?j + 1)"
      then show "K I1 V h t = ?x" using I1(4) [of t] Suc.prems(7,8) Suc.prems(9) [of t] True in0 by (cases "?y < x"; cases "t = k + ?j") auto
    next
      fix t assume t: "k + (?j + 1) \<le> t" "t < k + (i + 1)"
      define u where "u = (if t = k + i then k + ?j else t)"
      have jj: "0 \<le> ?j" using Suc.prems(7) by simp
      then have "t \<noteq> k + ?j" "0 \<le> t" using t(1) in0 by linarith+
      then have "at I1 t = at I u" using I1(4) [of t] by (simp only: u_def if_False split: if_split) simp
      moreover have u: "k + ?j \<le> u" "u < k + i" using t jj by (cases "t = k + i"; cases "?y < x"; simp add: u_def)+
      have "?x < K I V h u"
      proof (cases "?y < x")
        case True
        then have "x \<le> K I V h u" using Suc.prems(9,10) [of u] u by (cases "u < k + j") auto
        then show ?thesis using True by simp
      qed (use Suc.prems(10) [of u] u in auto)
      ultimately show "?x < K I1 V h t" by simp
    qed (use Suc.prems I1 in auto)
    then show ?thesis using step True I1 Suc.prems by auto
  qed
qed

text \<open>Rearranging a stretch before it is sorted makes no difference.\<close>

lemma seg_perm:
  assumes "seg_ok old h I V s e S g" "length I1 = length I" "bij_betw (at I1) {s..<e} S" "\<forall>t\<ge>0. t \<notin> {s..<e} \<longrightarrow> at I1 t = at I t"
  shows "seg_ok old h I1 V s e S g" "seg_done old h I1 V s e S I' V' \<Longrightarrow> seg_done old h I V s e S I' V'"
  using assms by (auto simp: seg_ok_def seg_done_def)

lemma seg_readable:
  assumes "seg_ok old h I V s e S g" "0 \<le> h"
  shows "\<And>p. p \<in> S \<Longrightarrow> 0 \<le> p + h \<and> p + h < int (length V)" "\<And>p. p \<in> S \<Longrightarrow> 0 \<le> p \<and> p < int (length V)"
  using assms by (auto simp: seg_ok_def good_def cls_def)

text \<open>Keys tell the order of the suffixes of a stretch.\<close>

lemma seg_keys:
  assumes "seg_ok old h I V s e S g" "0 \<le> h" "A \<subseteq> {s..<e}"
  shows "B \<subseteq> {s..<e} \<Longrightarrow> (\<And>a b. a \<in> A \<Longrightarrow> b \<in> B \<Longrightarrow> K I V h a < K I V h b) \<Longrightarrow> all_less old (at I ` A) (at I ` B)"
    and "(\<And>a. a \<in> A \<Longrightarrow> K I V h a = x) \<Longrightarrow> all_agree old (h + h) (at I ` A)"
proof -
  have k: "good old V h" "bij_betw (at I) {s..<e} S" "S \<subseteq> cls old V g" "\<And>p. p \<in> S \<Longrightarrow> p + h \<le> int (length old)" using assms(1) by (auto simp: seg_ok_def)
  have S: "at I t \<in> S" "at I t \<in> cls old V g" "at I t + h \<le> int (length old)" if "t \<in> {s..<e}" for t using that k(2-4) by (auto simp: bij_betw_def)
  show "all_less old (at I ` A) (at I ` B)" if "B \<subseteq> {s..<e}" "\<And>a b. a \<in> A \<Longrightarrow> b \<in> B \<Longrightarrow> K I V h a < K I V h b"
  proof (intro ballI)
    fix p q assume "p \<in> at I ` A" "q \<in> at I ` B"
    then show "suf_less old p q" using that assms(3) S(2,3) by (auto intro!: key_less [OF k(1) assms(2), of _ g])
  qed
  show "all_agree old (h + h) (at I ` A)" if "\<And>a. a \<in> A \<Longrightarrow> K I V h a = x"
  proof (intro ballI impI)
    fix p q assume "p \<in> at I ` A" "q \<in> at I ` A" "p \<noteq> q"
    then obtain a b where ab: "a \<in> A" "b \<in> A" "p = at I a" "q = at I b" by blast
    then have "at V (p + h) = at V (q + h)" using that by simp
    then show "agree old (h + h) p q" using ab assms(3) S(2,3) \<open>p \<noteq> q\<close> by (intro key_equal [OF k(1) assms(2), of p g q]) auto
  qed
qed

lemma seg_tail:
  assumes "seg_ok old h I V s e S g" "s \<le> m" "m \<le> e"
  shows "S - at I ` {s..<m} = at I ` {m..<e}"
proof -
  have b: "inj_on (at I) {s..<e}" "S = at I ` {s..<e}" using assms(1) by (auto simp: seg_ok_def bij_betw_def)
  have "{m..<e} = {s..<e} - {s..<m}" using assms(2,3) by auto
  then show ?thesis using inj_on_image_set_diff [OF b(1), of "{s..<e}" "{s..<m}"] b(2) assms(3) by auto
qed

lemma set_ranks_seg:
  assumes "seg_ok old h I V s m E g" "0 \<le> h" "s < m" "all_agree old (h + h) E"
  obtains V' where "set_ranks (nat (m - s)) s (m - 1) I V = Some V'" "seg_done old h I V s m E (if m = s + 1 then I[nat s := -1] else I) V'"
proof -
  have k: "0 \<le> s" "m \<le> int (length I)" "bij_betw (at I) {s..<m} E" "E \<subseteq> sufs old" "length V = length old + 1"
    using assms(1) by (auto simp: seg_ok_def good_def cls_def)
  have E: "E = at I ` {s..<m}" using k(3) by (auto simp: bij_betw_def)
  have "0 \<le> at I t \<and> at I t < int (length V)" if "s \<le> t" "t < m" for t using that E k(4,5) by force
  then obtain V' where V': "set_ranks (nat (m - s)) s (m - 1) I V = Some V'" "length V' = length V" "\<forall>p\<ge>0. at V' p = (if p \<in> E then m - 1 else at V p)"
    using set_ranks_sets [of s "nat (m - s)" I V "m - 1"] k(1,2) assms(3) E by auto
  show ?thesis using V' assms(3,4) by (intro that [OF V'(1)] seg_equal [OF assms(1)]) auto
qed

text \<open>
  A stretch whose first part is the least and agrees on twice as many bytes: this part gets its rank and becomes a cell, and the rest is
  left to a function that sorts it.
\<close>

lemma seg_head_tail:
  assumes "seg_ok old h I V s e S g" "0 \<le> h" "s < m" "m \<le> e" "E = at I ` {s..<m}" "all_less old E (S - E)" "all_agree old (h + h) E"
    and f: "\<And>I' V'. m < e \<Longrightarrow> seg_ok old h I' V' m e (S - E) g \<Longrightarrow> \<exists>I2 V2. f I' V' = Some (I2, V2) \<and> seg_done old h I' V' m e (S - E) I2 V2"
  obtains V1 I2 V2 where "set_ranks (nat (m - s)) s (m - 1) I V = Some V1"
    "(if m < e then f (if m = s + 1 then I[nat s := -1] else I) V1 else Some (if m = s + 1 then I[nat s := -1] else I, V1)) = Some (I2, V2)"
    "seg_done old h I V s e S I2 V2"
proof -
  let ?I = "if m = s + 1 then I[nat s := -1] else I"
  note less = less_imp_le [OF assms(3)]
  obtain V1 where V1: "set_ranks (nat (m - s)) s (m - 1) I V = Some V1" "seg_done old h I V s m E ?I V1"
    by (rule set_ranks_seg [OF seg_front(1) [OF assms(1) less assms(4-6)] assms(2,3,7)]) (rule that)
  show ?thesis
  proof (cases "m < e")
    case False
    then have "m = e" "E = S" using assms(1,4,5) by (auto simp: seg_ok_def bij_betw_def)
    then show ?thesis using V1 by (intro that [OF V1(1), of ?I V1]) auto
  next
    case True
    from f [OF this seg_rest [OF assms(1) less this assms(5,6) V1(2)]]
    obtain I2 V2 where "f ?I V1 = Some (I2, V2)" "seg_done old h ?I V1 m e (S - E) I2 V2" by blast
    then show ?thesis using True V1 seg_join [OF assms(1) less True assms(5,6) V1(2)] by (intro that [OF V1(1), of I2 V2]) auto
  qed
qed

lemma split_small_sorts:
  assumes "seg_ok old h I V k e S g" "0 \<le> h"
  shows "\<exists>I' V'. split_small k e h (I, V) = Some (I', V') \<and> seg_done old h I V k e S I' V'"
  using assms(1)
proof (induction "nat (e - k)" arbitrary: k I V S rule: less_induct)
  case less
  have ok: "good old V h" "length I = length old + 1" "0 \<le> k" "k \<le> e" "e \<le> int (length I)" "bij_betw (at I) {k..<e} S"
    using less.prems by (auto simp: seg_ok_def)
  show ?case
  proof (cases "k < e")
    case False
    then have "k = e" "S = {}" using ok(4,6) by (auto simp: bij_betw_def)
    then show ?thesis using ok(1,2) False by (subst split_small.simps) (simp add: seg_done_def lay_nil)
  next
    case True
    note rb = seg_readable [OF less.prems assms(2)]
    have x: "key I V h k = Some (K I V h k)" using True by (intro key_at [OF ok(6) rb(1) _ ok(3,5)]) auto
    obtain j I1 y where s: "select_least (nat (e - k - 1)) 1 k 1 (K I V h k) h I V = Some (j, I1)" "length I1 = length I" "bij_betw (at I1) {k..<e} S"
      "1 \<le> j" "k + j \<le> e" "\<forall>t\<ge>0. t \<notin> {k..<e} \<longrightarrow> at I1 t = at I t"
      "\<forall>t. k \<le> t \<and> t < k + j \<longrightarrow> K I1 V h t = y" "\<forall>t. k + j \<le> t \<and> t < e \<longrightarrow> y < K I1 V h t"
      using select_least_selects [OF ok(3) order_refl ok(5,6) rb(1), of 1 "nat (e - k - 1)" 1 "K I V h k"] True by auto
    note ok1 = seg_perm [OF less.prems s(2,3,6)]
    have kj: "k < k + j" "k \<le> k + j" using s(4) by simp_all
    let ?E = "at I1 ` {k..<k + j}" and ?I = "if k + j = k + 1 then I1[nat k := -1] else I1"
    have "{k..<k + j} \<subseteq> {k..<e}" using s(5) by auto
    note keys = seg_keys [OF ok1(1) assms(2) this]
    have "all_less old ?E (S - ?E)" unfolding seg_tail [OF ok1(1) kj(2) s(5)] using s(7,8) kj by (intro keys(1)) auto
    moreover have "all_agree old (h + h) ?E" using s(7) by (intro keys(2) [of y]) auto
    moreover have "\<exists>I2 V2. split_small (k + j) e h (I', V') = Some (I2, V2) \<and> seg_done old h I' V' (k + j) e (S - ?E) I2 V2"
      if "k + j < e" "seg_ok old h I' V' (k + j) e (S - ?E) g" for I' V'
      using that(2) s(4) True by (intro less.hyps) linarith+
    ultimately obtain V1 I2 V2 where r: "set_ranks (nat (k + j - k)) k (k + j - 1) I1 V = Some V1"
      "(if k + j < e then split_small (k + j) e h (?I, V1) else Some (?I, V1)) = Some (I2, V2)" "seg_done old h I1 V k e S I2 V2"
      using seg_head_tail [OF ok1(1) assms(2) kj(1) s(5) refl, of "\<lambda>I V. split_small (k + j) e h (I, V)"] by blast
    have wr: "(if j = 1 then wr I1 k (-1) else Some I1) = Some ?I" using ok s(2) True by (simp add: wr_at)
    have "split_small k e h (I, V) = split_small (k + j) e h (?I, V1)"
      using True x s(1) r(1) wr by (subst split_small.simps) (simp add: Let_def)
    also have "\<dots> = Some (I2, V2)"
    proof (cases "k + j < e")
      case False
      then show ?thesis using r(2) by (subst split_small.simps) simp
    qed (use r(2) in simp)
    finally show ?thesis using r(3) ok1(2) by blast
  qed
qed

section \<open>Partitioning\<close>

text \<open>The suffixes of a stretch whose key satisfies a condition.\<close>

definition with_key :: "int list \<Rightarrow> int \<Rightarrow> int set \<Rightarrow> (int \<Rightarrow> bool) \<Rightarrow> int set" where
  "with_key V h S P = {p \<in> S. P (at V (p + h))}"

lemma finite_within [simp]: "finite {t :: int. a \<le> t \<and> t < b \<and> P t}"
  by (rule finite_subset [of _ "{a..<b}"]) auto

lemma with_key_places:
  assumes "bij_betw (at I) {s..<e} S"
  shows "card {t \<in> {s..<e}. P (K I V h t)} = card (with_key V h S P)"
proof (rule bij_betw_same_card)
  have "at I ` {t \<in> {s..<e}. P (K I V h t)} = with_key V h S P" using assms by (auto simp: with_key_def bij_betw_def)
  then show "bij_betw (at I) {t \<in> {s..<e}. P (K I V h t)} (with_key V h S P)"
    by (intro bij_betw_subset [OF assms]) auto
qed

lemma with_key_le:
  assumes "bij_betw (at I) {s..<e} S" "A \<subseteq> {s..<e}" "\<And>t. t \<in> A \<Longrightarrow> P (K I V h t)"
  shows "card A \<le> card (with_key V h S P)"
  unfolding with_key_places [OF assms(1), symmetric] using assms(2,3)
  by (intro card_mono) (auto intro: finite_subset [of _ "{s..<e}"])

lemma count_keys_counts:
  assumes "\<And>t. i \<le> t \<Longrightarrow> t < i + int n \<Longrightarrow> key I V h t = Some (K I V h t)"
  shows "count_keys n i x h I V jj kk =
    Some (jj + int (card {t \<in> {i..<i + int n}. K I V h t < x}), kk + int (card {t \<in> {i..<i + int n}. K I V h t = x}))"
  using assms
proof (induction n arbitrary: i jj kk)
  case (Suc n)
  have e: "card {t \<in> {i..<i + int (Suc n)}. P t} = (if P i then 1 else 0) + card {t \<in> {i + 1..<i + 1 + int n}. P t}" for P
  proof -
    have "{t \<in> {i..<i + int (Suc n)}. P t} = {t \<in> {i}. P t} \<union> {t \<in> {i + 1..<i + 1 + int n}. P t}" by auto
    also have "card \<dots> = card {t \<in> {i}. P t} + card {t \<in> {i + 1..<i + 1 + int n}. P t}" by (intro card_Un_disjoint) auto
    also have "card {t \<in> {i}. P t} = (if P i then 1 else 0)" by (simp add: Collect_conv_if)
    finally show ?thesis .
  qed
  have "key I V h i = Some (K I V h i)" using Suc.prems by simp
  moreover have "key I V h t = Some (K I V h t)" if "i + 1 \<le> t" "t < i + 1 + int n" for t using Suc.prems that by simp
  ultimately show ?case using Suc.IH [of "i + 1"] unfolding e by simp
qed simp

text \<open>The three-way partition: three growing parts that hold lesser, equal and greater keys.\<close>

definition parts :: "int list \<Rightarrow> int list \<Rightarrow> int \<Rightarrow> int \<Rightarrow> int \<Rightarrow> int set \<Rightarrow> int \<Rightarrow> int \<Rightarrow> int \<Rightarrow> int list \<Rightarrow> int \<Rightarrow> int \<Rightarrow> int \<Rightarrow> bool" where
  "parts I0 V h s e S x jj kk I i j k \<longleftrightarrow>
     length I = length I0 \<and> bij_betw (at I) {s..<e} S \<and> (\<forall>t\<ge>0. t \<notin> {s..<e} \<longrightarrow> at I t = at I0 t)
     \<and> s \<le> i \<and> i \<le> jj \<and> 0 \<le> j \<and> jj + j \<le> kk \<and> 0 \<le> k \<and> kk + k \<le> e
     \<and> (\<forall>t. s \<le> t \<and> t < i \<longrightarrow> K I V h t < x) \<and> (\<forall>t. jj \<le> t \<and> t < jj + j \<longrightarrow> K I V h t = x) \<and> (\<forall>t. kk \<le> t \<and> t < kk + k \<longrightarrow> x < K I V h t)"

text \<open>How many places each part has in the end.\<close>

definition parts_fit :: "int list \<Rightarrow> int \<Rightarrow> int \<Rightarrow> int \<Rightarrow> int set \<Rightarrow> int \<Rightarrow> int \<Rightarrow> int \<Rightarrow> bool" where
  "parts_fit V h s e S x jj kk \<longleftrightarrow> jj - s = int (card (with_key V h S (\<lambda>v. v < x))) \<and> kk - jj = int (card (with_key V h S (\<lambda>v. v = x)))
     \<and> e - kk = int (card (with_key V h S (\<lambda>v. x < v)))"

lemma parts_room:
  assumes "parts I0 V h s e S x jj kk I i j k" "parts_fit V h s e S x jj kk"
  shows "\<lbrakk>s \<le> t; t < e; t < jj \<or> jj + j \<le> t; K I V h t = x\<rbrakk> \<Longrightarrow> jj + j < kk"
    and "\<lbrakk>s \<le> t; t < e; t < kk \<or> kk + k \<le> t; x < K I V h t\<rbrakk> \<Longrightarrow> kk + k < e"
    and "\<lbrakk>i = jj; s \<le> t; t < e; jj \<le> t\<rbrakk> \<Longrightarrow> \<not> K I V h t < x"
proof -
  have p: "bij_betw (at I) {s..<e} S" "s \<le> i" "i \<le> jj" "0 \<le> j" "jj + j \<le> kk" "0 \<le> k" "kk + k \<le> e"
    "\<And>t. s \<le> t \<Longrightarrow> t < i \<Longrightarrow> K I V h t < x" "\<And>t. jj \<le> t \<Longrightarrow> t < jj + j \<Longrightarrow> K I V h t = x" "\<And>t. kk \<le> t \<Longrightarrow> t < kk + k \<Longrightarrow> x < K I V h t"
    using assms(1) by (auto simp: parts_def)
  show "jj + j < kk" if "s \<le> t" "t < e" "t < jj \<or> jj + j \<le> t" "K I V h t = x"
  proof -
    have "card (insert t {jj..<jj + j}) \<le> card (with_key V h S (\<lambda>v. v = x))" using that p by (intro with_key_le [OF p(1)]) auto
    moreover have "card (insert t {jj..<jj + j}) = Suc (nat j)" using that(3) by (subst card_insert_disjoint) auto
    ultimately show ?thesis using assms(2) p(4) unfolding parts_fit_def by linarith
  qed
  show "kk + k < e" if "s \<le> t" "t < e" "t < kk \<or> kk + k \<le> t" "x < K I V h t"
  proof -
    have "card (insert t {kk..<kk + k}) \<le> card (with_key V h S (\<lambda>v. x < v))" using that p by (intro with_key_le [OF p(1)]) auto
    moreover have "card (insert t {kk..<kk + k}) = Suc (nat k)" using that(3) by (subst card_insert_disjoint) auto
    ultimately show ?thesis using assms(2) p(6) unfolding parts_fit_def by linarith
  qed
  show "\<not> K I V h t < x" if "i = jj" "s \<le> t" "t < e" "jj \<le> t"
  proof
    assume "K I V h t < x"
    then have "card (insert t {s..<jj}) \<le> card (with_key V h S (\<lambda>v. v < x))" using that p by (intro with_key_le [OF p(1)]) auto
    moreover have "card (insert t {s..<jj}) = Suc (nat (jj - s))" using that(4) by (subst card_insert_disjoint) auto
    ultimately show False using assms(2) p(2) that(1) unfolding parts_fit_def by linarith
  qed
qed

text \<open>One exchange puts the entry at a place outside the parts to the end of the middle or of the last part.\<close>

lemma parts_swap:
  assumes "parts I0 V h s e S x jj kk I i j k" "0 \<le> s" "e \<le> int (length I0)" "i \<le> t" "t < kk" "t < jj \<or> jj + j \<le> t"
  shows "\<lbrakk>K I V h t = x; jj + j < kk\<rbrakk> \<Longrightarrow> \<exists>I'. swap I t (jj + j) = Some I' \<and> parts I0 V h s e S x jj kk I' i (j + 1) k"
    and "\<lbrakk>x < K I V h t; kk + k < e\<rbrakk> \<Longrightarrow> \<exists>I'. swap I t (kk + k) = Some I' \<and> parts I0 V h s e S x jj kk I' i j (k + 1)"
proof -
  have p: "length I = length I0" "bij_betw (at I) {s..<e} S" "\<And>t. 0 \<le> t \<Longrightarrow> t \<notin> {s..<e} \<Longrightarrow> at I t = at I0 t" "s \<le> i" "i \<le> jj" "0 \<le> j" "jj + j \<le> kk" "0 \<le> k" "kk + k \<le> e"
    "\<And>t. s \<le> t \<Longrightarrow> t < i \<Longrightarrow> K I V h t < x" "\<And>t. jj \<le> t \<Longrightarrow> t < jj + j \<Longrightarrow> K I V h t = x" "\<And>t. kk \<le> t \<Longrightarrow> t < kk + k \<Longrightarrow> x < K I V h t"
    using assms(1) by (auto simp: parts_def)
  have e: "e \<le> int (length I)" using assms(3) p(1) by simp
  have t: "t \<in> {s..<e}" using assms(4,5) p by auto
  have pos: "0 \<le> u" if "s \<le> u" for u using that assms(2) by simp
  show "\<exists>I'. swap I t (jj + j) = Some I' \<and> parts I0 V h s e S x jj kk I' i (j + 1) k" if "K I V h t = x" "jj + j < kk"
  proof -
    have "jj + j \<in> {s..<e}" using that p by auto
    from swap_at [OF t this assms(2) e p(2)] obtain I' where I': "swap I t (jj + j) = Some I'" "length I' = length I" "bij_betw (at I') {s..<e} S"
      "\<And>u. 0 \<le> u \<Longrightarrow> at I' u = (if u = t then at I (jj + j) else if u = jj + j then at I t else at I u)" by blast
    have "K I' V h u < x" if "s \<le> u" "u < i" for u using I'(4) [OF pos [OF that(1)]] p(10) [OF that] that assms(4) p(5,6) by simp
    moreover have "K I' V h u = x" if "jj \<le> u" "u < jj + (j + 1)" for u
      using I'(4) [of u] p(11) [of u] that assms(6) \<open>K I V h t = x\<close> p(4,5) assms(2) by (cases "u = jj + j") (auto split: if_splits)
    moreover have "x < K I' V h u" if "kk \<le> u" "u < kk + k" for u
      using I'(4) [of u] p(12) [OF that] that \<open>jj + j < kk\<close> assms(2,5) p(4,5,6) by auto
    moreover have "at I' u = at I0 u" if "0 \<le> u" "u \<notin> {s..<e}" for u
      using I'(4) [of u] p(3) [of u] that t \<open>jj + j \<in> {s..<e}\<close> by auto
    ultimately show ?thesis using I'(1,2,3) p that(2) unfolding parts_def by auto
  qed
  show "\<exists>I'. swap I t (kk + k) = Some I' \<and> parts I0 V h s e S x jj kk I' i j (k + 1)" if "x < K I V h t" "kk + k < e"
  proof -
    have "kk + k \<in> {s..<e}" using that p by auto
    from swap_at [OF t this assms(2) e p(2)] obtain I' where I': "swap I t (kk + k) = Some I'" "length I' = length I" "bij_betw (at I') {s..<e} S"
      "\<And>u. 0 \<le> u \<Longrightarrow> at I' u = (if u = t then at I (kk + k) else if u = kk + k then at I t else at I u)" by blast
    have "K I' V h u < x" if "s \<le> u" "u < i" for u using I'(4) [OF pos [OF that(1)]] p(10) [OF that] that assms(4) p(5-8) by simp
    moreover have "K I' V h u = x" if "jj \<le> u" "u < jj + j" for u
      using I'(4) [of u] p(11) [OF that] that assms(6) p(4,5,7,8) assms(2) by auto
    moreover have "x < K I' V h u" if "kk \<le> u" "u < kk + (k + 1)" for u
      using I'(4) [of u] p(12) [of u] that \<open>x < K I V h t\<close> assms(2,5) p(4,5,6,7) by (cases "u = kk + k") auto
    moreover have "at I' u = at I0 u" if "0 \<le> u" "u \<notin> {s..<e}" for u
      using I'(4) [of u] p(3) [of u] that t \<open>kk + k \<in> {s..<e}\<close> by auto
    ultimately show ?thesis using I'(1,2,3) p that(2) unfolding parts_def by auto
  qed
qed

lemma part_low_ends:
  assumes "parts_fit V h s e S x jj kk" "0 \<le> s" "e \<le> int (length I0)" "\<And>p. p \<in> S \<Longrightarrow> 0 \<le> p + h \<and> p + h < int (length V)"
    and "parts I0 V h s e S x jj kk I i j k"
  shows "\<exists>j' k' I'. part_low i j k jj kk x h I V = Some (j', k', I') \<and> parts I0 V h s e S x jj kk I' jj j' k'"
  using assms(5)
proof (induction "nat (jj - i) + nat (kk - jj - j) + nat (e - kk - k)" arbitrary: i j k I rule: less_induct)
  case less
  note p = less.prems
  have q: "length I = length I0" "bij_betw (at I) {s..<e} S" "s \<le> i" "i \<le> jj" "0 \<le> j" "jj + j \<le> kk" "0 \<le> k" "kk + k \<le> e"
    "\<And>t. s \<le> t \<Longrightarrow> t < i \<Longrightarrow> K I V h t < x" using p by (auto simp: parts_def)
  show ?case
  proof (cases "i < jj")
    case False
    then have "i = jj" using q(4) by simp
    then show ?thesis using p by (subst part_low.simps) auto
  next
    case True
    then have i: "i \<in> {s..<e}" "i \<le> i" "i < kk" "i < jj \<or> jj + j \<le> i" "i < kk \<or> kk + k \<le> i" using q by auto
    have y: "key I V h i = Some (K I V h i)" using assms(3) q(1) by (intro key_at [OF q(2) assms(4) i(1) assms(2)]) auto
    note swap = parts_swap [OF p assms(2,3) i(2-4)]
    consider "K I V h i < x" | "K I V h i = x" | "x < K I V h i" by linarith
    then show ?thesis
    proof cases
      case 1
      have "K I V h t < x" if "s \<le> t" "t < i + 1" for t using q(9) [of t] that 1 by (cases "t = i") auto
      then have "parts I0 V h s e S x jj kk I (i + 1) j k" using p True by (simp add: parts_def)
      moreover have "nat (jj - (i + 1)) + nat (kk - jj - j) + nat (e - kk - k) < nat (jj - i) + nat (kk - jj - j) + nat (e - kk - k)" using True by linarith
      ultimately show ?thesis using less.hyps True y 1 by (subst part_low.simps) simp
    next
      case 2
      have room: "jj + j < kk" using parts_room(1) [OF p assms(1) _ _ i(4) 2] i(1) by simp
      then obtain I1 where I1: "swap I i (jj + j) = Some I1" "parts I0 V h s e S x jj kk I1 i (j + 1) k" using swap(1) 2 by blast
      moreover have "nat (jj - i) + nat (kk - jj - (j + 1)) + nat (e - kk - k) < nat (jj - i) + nat (kk - jj - j) + nat (e - kk - k)" using room by linarith
      ultimately show ?thesis using less.hyps True y 2 by (subst part_low.simps) simp
    next
      case 3
      have room: "kk + k < e" using parts_room(2) [OF p assms(1) _ _ i(5) 3] i(1) by simp
      then obtain I1 where I1: "swap I i (kk + k) = Some I1" "parts I0 V h s e S x jj kk I1 i j (k + 1)" using swap(2) 3 by blast
      moreover have "nat (jj - i) + nat (kk - jj - j) + nat (e - kk - (k + 1)) < nat (jj - i) + nat (kk - jj - j) + nat (e - kk - k)" using room by linarith
      ultimately show ?thesis using less.hyps True y 3 by (subst part_low.simps) simp
    qed
  qed
qed

lemma part_mid_ends:
  assumes "parts_fit V h s e S x jj kk" "0 \<le> s" "e \<le> int (length I0)" "\<And>p. p \<in> S \<Longrightarrow> 0 \<le> p + h \<and> p + h < int (length V)"
    and "parts I0 V h s e S x jj kk I jj j k"
  shows "\<exists>k' I'. part_mid j k jj kk x h I V = Some I' \<and> parts I0 V h s e S x jj kk I' jj (kk - jj) k'"
  using assms(5)
proof (induction "nat (kk - jj - j) + nat (e - kk - k)" arbitrary: j k I rule: less_induct)
  case less
  note p = less.prems
  have q: "length I = length I0" "bij_betw (at I) {s..<e} S" "s \<le> jj" "0 \<le> j" "jj + j \<le> kk" "0 \<le> k" "kk + k \<le> e"
    "\<And>t. jj \<le> t \<Longrightarrow> t < jj + j \<Longrightarrow> K I V h t = x" using p by (auto simp: parts_def)
  show ?case
  proof (cases "jj + j < kk")
    case False
    then have "j = kk - jj" using q(5) by simp
    then show ?thesis using p by (subst part_mid.simps) auto
  next
    case True
    have i: "jj + j \<in> {s..<e}" "jj \<le> jj + j" "jj + j < jj \<or> jj + j \<le> jj + j" "jj + j < kk \<or> kk + k \<le> jj + j" using q True by auto
    have y: "key I V h (jj + j) = Some (K I V h (jj + j))" using assms(3) q(1) by (intro key_at [OF q(2) assms(4) i(1) assms(2)]) auto
    show ?thesis
    proof (cases "K I V h (jj + j) = x")
      case eq: True
      have "K I V h t = x" if "jj \<le> t" "t < jj + (j + 1)" for t using q(8) [of t] that eq by (cases "t = jj + j") auto
      then have "parts I0 V h s e S x jj kk I jj (j + 1) k" using p True by (simp add: parts_def)
      moreover have "nat (kk - jj - (j + 1)) + nat (e - kk - k) < nat (kk - jj - j) + nat (e - kk - k)" using True by linarith
      ultimately show ?thesis using less.hyps True y eq by (subst part_mid.simps) simp
    next
      case False
      have gt: "x < K I V h (jj + j)" using parts_room(3) [OF p assms(1) refl, of "jj + j"] i False by auto
      have room: "kk + k < e" using parts_room(2) [OF p assms(1) _ _ i(4) gt] i(1) by simp
      obtain I1 where I1: "swap I (jj + j) (kk + k) = Some I1" "parts I0 V h s e S x jj kk I1 jj j (k + 1)"
        using parts_swap(2) [OF p assms(2,3) i(2) True i(3) gt room] by blast
      moreover have "nat (kk - jj - j) + nat (e - kk - (k + 1)) < nat (kk - jj - j) + nat (e - kk - k)" using room by linarith
      ultimately show ?thesis using less.hyps True y False by (subst part_mid.simps) simp
    qed
  qed
qed

section \<open>The whole function\<close>

text \<open>The partition of a stretch, from the counting to the last exchange.\<close>

lemma partition_parts:
  assumes "seg_ok old h I V s e S g" "0 \<le> h" "c \<in> {s..<e}" "x = K I V h c"
  obtains nl ne jj kk j k I1 I2 where "count_keys (nat (e - s)) s x h I V 0 0 = Some (nl, ne)" "jj = nl + s" "kk = ne + jj"
    "part_low s 0 0 jj kk x h I V = Some (j, k, I1)" "part_mid j k jj kk x h I1 V = Some I2"
    "length I2 = length I" "bij_betw (at I2) {s..<e} S" "\<forall>t\<ge>0. t \<notin> {s..<e} \<longrightarrow> at I2 t = at I t"
    "s \<le> jj" "jj < kk" "kk \<le> e" "\<And>t. s \<le> t \<Longrightarrow> t < jj \<Longrightarrow> K I2 V h t < x" "\<And>t. jj \<le> t \<Longrightarrow> t < kk \<Longrightarrow> K I2 V h t = x"
    "\<And>t. kk \<le> t \<Longrightarrow> t < e \<Longrightarrow> x < K I2 V h t"
proof -
  have k: "bij_betw (at I) {s..<e} S" "0 \<le> s" "s \<le> e" "e \<le> int (length I)" using assms(1) by (auto simp: seg_ok_def)
  note rb = seg_readable(1) [OF assms(1,2)]
  let ?L = "with_key V h S (\<lambda>v. v < x)" and ?M = "with_key V h S (\<lambda>v. v = x)" and ?H = "with_key V h S (\<lambda>v. x < v)"
  define jj where "jj = int (card ?L) + s"
  define kk where "kk = int (card ?M) + jj"
  have "key I V h t = Some (K I V h t)" if "s \<le> t" "t < s + int (nat (e - s))" for t using that k(3) by (intro key_at [OF k(1) rb _ k(2,4)]) auto
  then have count: "count_keys (nat (e - s)) s x h I V 0 0 = Some (int (card ?L), int (card ?M))"
    using count_keys_counts [of s "nat (e - s)" I V h x 0 0] with_key_places [OF k(1), of "\<lambda>v. v < x" V h] with_key_places [OF k(1), of "\<lambda>v. v = x" V h] k(3) by simp
  have S: "finite S" "int (card S) = e - s" using seg_card [OF assms(1)] by auto
  have fin: "finite ?L" "finite ?M" "finite ?H" using S(1) by (auto simp: with_key_def)
  have "S = ?L \<union> ?M \<union> ?H" by (auto simp: with_key_def)
  moreover have "(?L \<union> ?M) \<inter> ?H = {}" by (auto simp: with_key_def)
  ultimately have "card S = card (?L \<union> ?M) + card ?H" using fin by (metis card_Un_disjoint finite_UnI)
  also have "card (?L \<union> ?M) = card ?L + card ?M" using fin by (intro card_Un_disjoint) (auto simp: with_key_def)
  finally have sum: "e - s = int (card ?L) + int (card ?M) + int (card ?H)" using S(2) by simp
  then have fit: "parts_fit V h s e S x jj kk" by (simp add: parts_fit_def jj_def kk_def)
  have "at I c \<in> ?M" using assms(3,4) k(1) by (auto simp: with_key_def bij_betw_def)
  then have order: "s \<le> jj" "jj < kk" "kk \<le> e" using fin(2) sum card_gt_0_iff [of ?M] by (auto simp: jj_def kk_def)
  have "parts I V h s e S x jj kk I s 0 0" using k order by (auto simp: parts_def)
  from part_low_ends [OF fit k(2,4) rb this] obtain j k1 I1 where
    low: "part_low s 0 0 jj kk x h I V = Some (j, k1, I1)" "parts I V h s e S x jj kk I1 jj j k1" by blast
  from part_mid_ends [OF fit k(2,4) rb this(2)] obtain k2 I2 where
    mid: "part_mid j k1 jj kk x h I1 V = Some I2" "parts I V h s e S x jj kk I2 jj (kk - jj) k2" by blast
  have "x < K I2 V h t" if "kk \<le> t" "t < e" for t
    using parts_room(1,3) [OF mid(2) fit, of t] that order by force
  moreover have "length I2 = length I" "bij_betw (at I2) {s..<e} S" "\<forall>t\<ge>0. t \<notin> {s..<e} \<longrightarrow> at I2 t = at I t"
    "\<And>t. s \<le> t \<Longrightarrow> t < jj \<Longrightarrow> K I2 V h t < x" "\<And>t. jj \<le> t \<Longrightarrow> t < kk \<Longrightarrow> K I2 V h t = x" using mid(2) by (auto simp: parts_def)
  ultimately show ?thesis using that [OF count jj_def kk_def low(1) mid(1)] order by blast
qed

lemma split_sorts:
  assumes "seg_ok old h I V s (s + len) S g" "0 \<le> h"
  shows "\<exists>I' V'. split (I, V) s len h = Some (I', V') \<and> seg_done old h I V s (s + len) S I' V'"
  using assms(1)
proof (induction "nat len" arbitrary: s len I V S rule: less_induct)
  case less
  show ?case
  proof (cases "len < 16")
    case True
    then show ?thesis using split_small_sorts [OF less.prems assms(2)] by (subst split.simps) simp
  next
    case False
    let ?e = "s + len" and ?c = "s + len div 2"
    have c: "?c \<in> {s..<?e}" using False by auto
    have k: "bij_betw (at I) {s..<?e} S" "0 \<le> s" "?e \<le> int (length I)" using less.prems by (auto simp: seg_ok_def)
    obtain nl ne jj kk j k1 I1 I2 where p: "count_keys (nat (?e - s)) s (K I V h ?c) h I V 0 0 = Some (nl, ne)" "jj = nl + s" "kk = ne + jj"
      "part_low s 0 0 jj kk (K I V h ?c) h I V = Some (j, k1, I1)" "part_mid j k1 jj kk (K I V h ?c) h I1 V = Some I2"
      "length I2 = length I" "bij_betw (at I2) {s..<?e} S" "\<forall>t\<ge>0. t \<notin> {s..<?e} \<longrightarrow> at I2 t = at I t" "s \<le> jj" "jj < kk" "kk \<le> ?e"
      "\<And>t. s \<le> t \<Longrightarrow> t < jj \<Longrightarrow> K I2 V h t < K I V h ?c" "\<And>t. jj \<le> t \<Longrightarrow> t < kk \<Longrightarrow> K I2 V h t = K I V h ?c"
      "\<And>t. kk \<le> t \<Longrightarrow> t < ?e \<Longrightarrow> K I V h ?c < K I2 V h t"
      by (rule partition_parts [OF less.prems assms(2) c refl]) (rule that)
    note ok2 = seg_perm [OF less.prems p(6,7,8)]
    have key: "key I V h ?c = Some (K I V h ?c)" by (rule key_at [OF k(1) seg_readable(1) [OF less.prems assms(2)] c k(2,3)])
    let ?L = "at I2 ` {s..<jj}" and ?M = "at I2 ` {jj..<kk}" and ?T = "at I2 ` {jj..<?e}"
    have T: "S - ?L = ?T" using seg_tail [OF ok2(1) p(9)] p(10,11) by simp
    have sub: "{s..<jj} \<subseteq> {s..<?e}" "{jj..<kk} \<subseteq> {s..<?e}" "{kk..<?e} \<subseteq> {s..<?e}" "{jj..<?e} \<subseteq> {s..<?e}" using p(9-11) by auto
    have LT: "all_less old ?L (S - ?L)" unfolding T
    proof (rule seg_keys(1) [OF ok2(1) assms(2) sub(1,4)])
      fix a b assume "a \<in> {s..<jj}" "b \<in> {jj..<?e}"
      then show "K I2 V h a < K I2 V h b" using p(12) [of a] p(13,14) [of b] by (cases "b < kk") auto
    qed
    have MH: "all_less old ?M (at I2 ` {kk..<?e})" using p(13,14) by (intro seg_keys(1) [OF ok2(1) assms(2) sub(2,3)]) auto
    have MM: "all_agree old (h + h) ?M" using p(13) by (intro seg_keys(2) [OF ok2(1) assms(2) sub(2)]) auto
    let ?low = "if jj > s then split (I2, V) s (jj - s) h else Some (I2, V)"
    obtain I3 V3 where low: "?low = Some (I3, V3)" "seg_ok old h I3 V3 jj ?e ?T g" "\<And>t. jj \<le> t \<Longrightarrow> at I3 t = at I2 t"
      "\<And>I4 V4. seg_done old h I3 V3 jj ?e ?T I4 V4 \<Longrightarrow> seg_done old h I2 V s ?e S I4 V4"
    proof (cases "jj > s")
      case True
      have lt: "jj < ?e" using p(10,11) by simp
      have "nat (jj - s) < nat len" using p(9,10,11) True by linarith
      moreover have "seg_ok old h I2 V s (s + (jj - s)) ?L g" using seg_front(1) [OF ok2(1) p(9) _ refl LT] lt by simp
      ultimately obtain I3 V3 where r: "split (I2, V) s (jj - s) h = Some (I3, V3)" "seg_done old h I2 V s (s + (jj - s)) ?L I3 V3" using less.hyps by blast
      then have d: "seg_done old h I2 V s jj ?L I3 V3" by simp
      show ?thesis
      proof (rule that [of I3 V3])
        show "?low = Some (I3, V3)" using r(1) True by simp
        show "seg_ok old h I3 V3 jj ?e ?T g" using seg_rest [OF ok2(1) p(9) lt refl LT d] T by simp
        show "at I3 t = at I2 t" if "jj \<le> t" for t using d that p(9) k(2) by (auto simp: seg_done_def)
        show "seg_done old h I2 V s ?e S I4 V4" if "seg_done old h I3 V3 jj ?e ?T I4 V4" for I4 V4
          using seg_join [OF ok2(1) p(9) lt refl LT d, of I4 V4] that T by simp
      qed
    next
      case False
      then have "jj = s" "S = ?T" using p(9) T by auto
      then show ?thesis using that [of I2 V] ok2(1) by simp
    qed
    have M3: "at I3 ` {jj..<kk} = ?M" using low(3) by (intro image_cong) auto
    have H3: "?T - ?M = at I2 ` {kk..<?e}" using seg_tail [OF low(2) less_imp_le [OF p(10)] p(11)] low(3) p(10) unfolding M3 by (auto intro!: image_cong)
    have "\<exists>I5 V5. split (I', V') kk (?e - kk) h = Some (I5, V5) \<and> seg_done old h I' V' kk ?e (?T - ?M) I5 V5"
      if "kk < ?e" "seg_ok old h I' V' kk ?e (?T - ?M) g" for I' V'
      using less.hyps [of "?e - kk" I' V' kk "?T - ?M"] that p(9,10) by simp
    then obtain V4 I5 V5 where r: "set_ranks (nat (kk - jj)) jj (kk - 1) I3 V3 = Some V4"
      "(if kk < ?e then split (if kk = jj + 1 then I3[nat jj := -1] else I3, V4) kk (?e - kk) h else Some (if kk = jj + 1 then I3[nat jj := -1] else I3, V4)) = Some (I5, V5)"
      "seg_done old h I3 V3 jj ?e ?T I5 V5"
      using seg_head_tail [OF low(2) assms(2) p(10,11) M3 [symmetric], of "\<lambda>I V. split (I, V) kk (?e - kk) h"] MH MM unfolding H3 by blast
    have wr: "(if jj = kk - 1 then wr I3 jj (-1) else Some I3) = Some (if kk = jj + 1 then I3[nat jj := -1] else I3)"
      using low(2) p(9,10,11) k(2) by (auto simp: wr_at seg_ok_def)
    have count: "count_keys (nat len) s (K I V h ?c) h I V 0 0 = Some (jj - s, kk - jj)" using p(1,2,3) by simp
    have "split (I, V) s len h =
      do {
        IV \<leftarrow> ?low;
        V \<leftarrow> set_ranks (nat (kk - jj)) jj (kk - 1) (fst IV) (snd IV);
        I \<leftarrow> (if jj = kk - 1 then wr (fst IV) jj (-1) else Some (fst IV));
        if ?e > kk then split (I, V) kk (?e - kk) h else Some (I, V)
      }"
      by (subst split.simps) (simp only: False if_False key count p(4,5) fst_conv snd_conv Option.bind.bind_lunit Let_def case_prod_conv diff_add_cancel)
    also have "\<dots> = Some (I5, V5)" by (simp only: low(1) Option.bind.bind_lunit fst_conv snd_conv r(1,2) wr)
    finally have "split (I, V) s len h = Some (I5, V5)" .
    then show ?thesis using low(4) [OF r(3)] ok2(2) by blast
  qed
qed

end
