(* ===== verification/Qsufsort_Correct.thy ===== *)
theory Qsufsort_Correct
  imports Qsufsort_Split
begin

text \<open>
  The suffix sort of \<^verbatim>\<open>jni/bsdiffpatcher/bsdiff.c\<close> is correct: for every file it ends, stays inside its arrays, and delivers
  the positions of all suffixes in the order of the suffixes, whatever the arrays held before.
\<close>

section \<open>One pass\<close>

text \<open>Before place \<open>i - len\<close> everything is sorted by twice as many bytes, the \<open>len\<close> places up to \<open>i\<close> are classes of one suffix each
  that are about to become one run, and the rest is as before the pass.\<close>

definition pass_inv :: "bytes \<Rightarrow> int \<Rightarrow> int list \<Rightarrow> int list \<Rightarrow> int \<Rightarrow> int \<Rightarrow> bool" where
  "pass_inv old h I V i len \<longleftrightarrow> good old V h \<and> length I = length old + 1 \<and> 0 \<le> len \<and> len \<le> i \<and> lay old (h + h) I V 0 (i - len)
     \<and> (\<forall>j. i - len \<le> j \<and> j < i \<longrightarrow> card (cls old V j) = 1) \<and> lay old h I V i (int (length old) + 1)"

text \<open>The pending classes become a run.\<close>

lemma close_run:
  assumes "pass_inv old h I V i len"
  defines "I1 \<equiv> if len \<noteq> 0 then I[nat (i - len) := - len] else I"
  shows "(if len \<noteq> 0 then wr I (i - len) (- len) else Some I) = Some I1" "length I1 = length I" "\<And>k. i \<le> k \<Longrightarrow> at I1 k = at I k" "lay old (h + h) I1 V 0 i"
    "len \<noteq> 0 \<Longrightarrow> at I1 (i - len) = - len"
proof -
  have p: "0 \<le> len" "len \<le> i" "length I = length old + 1" "lay old (h + h) I V 0 (i - len)" "\<And>j. i - len \<le> j \<Longrightarrow> j < i \<Longrightarrow> card (cls old V j) = 1"
    "i \<le> int (length old) + 1" using assms(1) by (auto simp: pass_inv_def dest: lay_le)
  show "(if len \<noteq> 0 then wr I (i - len) (- len) else Some I) = Some I1" using p(1-3,6) by (auto simp: I1_def wr_at)
  show "length I1 = length I" by (simp add: I1_def)
  have at: "at I1 k = (if len \<noteq> 0 \<and> k = i - len then - len else at I k)" if "0 \<le> k" for k
    using that p(1-3,6) at_update [of k "i - len" I] by (auto simp: I1_def)
  then show "at I1 k = at I k" if "i \<le> k" for k using that p(1,2) by auto
  show "at I1 (i - len) = - len" if "len \<noteq> 0" using at that p(2) by simp
  have front: "lay old (h + h) I1 V 0 (i - len)" using at by (intro lay_cong [OF p(4)]) auto
  show "lay old (h + h) I1 V 0 i"
  proof (cases "len = 0")
    case False
    then have "lay old (h + h) I1 V (i - len) i" using at [of "i - len"] p(1,2,5) by (auto intro!: lay_run [of I1 "i - len"] lay_nil)
    then show ?thesis by (rule lay_append [OF front])
  qed (use front in simp)
qed

text \<open>The group at the current place.\<close>

lemma lay_group_seg:
  assumes "pass_inv old h I V i len" "0 \<le> g" "i \<le> g" "bij_betw (at I) {i..g} (cls old V g)" "\<And>p. p \<in> cls old V g \<Longrightarrow> p + h \<le> int (length old)" "g \<le> int (length old)"
    and "length I1 = length I" "\<And>k. i \<le> k \<Longrightarrow> at I1 k = at I k"
  shows "seg_ok old h I1 V i (i + (g + 1 - i)) (cls old V g) g"
proof -
  have i: "{i..g} = {i..<i + (g + 1 - i)}" by auto
  then have "bij_betw (at I1) {i..<i + (g + 1 - i)} (cls old V g)" using assms(4,8) by (subst bij_betw_cong [of _ _ "at I"]) auto
  moreover have "int (card (cls old V g)) = g + 1 - i" using bij_betw_same_card [OF assms(4)] assms(3) by simp
  ultimately show ?thesis using assms by (auto simp: seg_ok_def pass_inv_def)
qed

lemma sort_pass_sorts:
  assumes "pass_inv old h I V i len" "0 \<le> h"
  shows "\<exists>I' V'. sort_pass i len (int (length old)) h (I, V) = Some (I', V') \<and> good old V' h \<and> length I' = length old + 1
    \<and> lay old (h + h) I' V' 0 (int (length old) + 1) \<and> (int (length old) < h \<longrightarrow> i = len \<longrightarrow> at I' 0 = - (int (length old) + 1))"
  using assms(1)
proof (induction "nat (int (length old) + 1 - i)" arbitrary: i len I V rule: less_induct)
  case less
  let ?N = "int (length old) + 1"
  let ?I = "if len \<noteq> 0 then I[nat (i - len) := - len] else I"
  note cl = close_run [OF less.prems]
  have p: "good old V h" "length I = length old + 1" "0 \<le> len" "len \<le> i" "lay old (h + h) I V 0 (i - len)"
    "\<And>j. i - len \<le> j \<Longrightarrow> j < i \<Longrightarrow> card (cls old V j) = 1" "lay old h I V i ?N" using less.prems by (auto simp: pass_inv_def)
  have le: "i \<le> ?N" "0 \<le> i" using lay_le [OF p(7)] p(3,4) by auto
  from p(7) show ?case
  proof cases
    case lay_nil
    then have "i - len = 0 \<Longrightarrow> len \<noteq> 0" by simp
    then show ?thesis using lay_nil cl p(1,2) by (subst sort_pass.simps) auto
  next
    case lay_run
    let ?p = "at I i"
    have b: "i - ?p \<le> ?N" using lay_le [OF lay_run(3)] .
    have i: "i < ?N" using b lay_run(1) by linarith
    have "pass_inv old h I V (i - ?p) (len - ?p)"
      unfolding pass_inv_def using p lay_run by (smt (verit))
    moreover have "nat (?N - (i - ?p)) < nat (?N - i)" using lay_run(1) i by linarith
    moreover have "rd I i = Some ?p" using i le p(2) by (simp add: rd_at)
    ultimately show ?thesis using less.hyps [of "i - ?p" I V "len - ?p"] lay_run(1) i by (subst sort_pass.simps) auto
  next
    case (lay_group g)
    have g: "g < ?N" using lay_le [OF lay_group(5)] by simp
    have inS: "at I i \<in> cls old V g" using lay_group(1,2) by (auto simp: bij_betw_def)
    then have pos: "0 \<le> at I i" "at I i \<le> int (length old)" "at V (at I i) = g" by (auto simp: in_cls)
    have h: "\<not> int (length old) < h" using lay_group(3) [OF inS] pos(1) by simp
    have V: "length V = length old + 1" using p(1) by (simp add: good_def)
    have "seg_ok old h ?I V i (i + (g + 1 - i)) (cls old V g) g"
      using lay_group le g cl by (intro lay_group_seg [OF less.prems]) auto
    from split_sorts [OF this assms(2)] obtain I2 V2 where
      s: "split (?I, V) i (g + 1 - i) h = Some (I2, V2)" "seg_done old h ?I V i (g + 1) (cls old V g) I2 V2" by auto
    have d: "good old V2 h" "length I2 = length old + 1" "\<And>k. 0 \<le> k \<Longrightarrow> k \<notin> {i..<g + 1} \<Longrightarrow> at I2 k = at ?I k"
      "\<And>q. q \<in> sufs old - cls old V g \<Longrightarrow> at V2 q = at V q" "\<And>q. q \<in> cls old V g \<Longrightarrow> i \<le> at V2 q \<and> at V2 q < g + 1" "lay old (h + h) I2 V2 i (g + 1)"
      using s(2) by (auto simp: seg_done_def)
    have c: "cls old V2 j = cls old V j" if "j < i \<or> g < j" for j
    proof (intro set_eqI)
      fix q show "q \<in> cls old V2 j \<longleftrightarrow> q \<in> cls old V j"
        using d(4,5) [of q] that lay_group(1) by (cases "q \<in> cls old V g") (auto simp: in_cls)
    qed
    have "lay old (h + h) I2 V2 0 i" using d(3) c by (intro lay_cong [OF cl(4)]) auto
    then have "lay old (h + h) I2 V2 0 (g + 1)" using d(6) by (rule lay_append)
    moreover have "lay old h I2 V2 (g + 1) ?N" using d(3) c cl(3) le lay_group(1) by (intro lay_cong [OF lay_group(5)]) auto
    ultimately have "pass_inv old h I2 V2 (g + 1) 0" using d(1,2) le lay_group(1) by (auto simp: pass_inv_def)
    moreover have "nat (?N - (g + 1)) < nat (?N - i)" using lay_group(1) g by linarith
    ultimately obtain I' V' where r: "sort_pass (g + 1) 0 (int (length old)) h (I2, V2) = Some (I', V')" "good old V' h" "length I' = length old + 1"
      "lay old (h + h) I' V' 0 ?N" using less.hyps by blast
    have rd: "rd I i = Some (at I i)" "rd ?I i = Some (at I i)" "rd V (at I i) = Some g"
      using le lay_group(1) g p(2) pos V cl(3) [of i] by (simp_all add: rd_at)
    have "i < ?N" "\<not> at I i < 0" using lay_group(1) g pos(1) by simp_all
    then have "sort_pass i len (int (length old)) h (I, V) = Some (I', V')"
      using s(1) r(1) by (subst sort_pass.simps) (simp only: if_True if_False rd cl(1) fst_conv snd_conv Option.bind.bind_lunit Let_def add_diff_cancel_left' diff_add_cancel add.commute [of i])
    then show ?thesis using r h by blast
  qed
qed

section \<open>All passes\<close>

text \<open>Every rank is a place of the index array.\<close>

lemma good_range: "good old V h \<Longrightarrow> p \<in> sufs old \<Longrightarrow> 0 \<le> at V p \<and> at V p \<le> int (length old)"
proof -
  assume g: "good old V h" and p: "p \<in> sufs old"
  let ?A = "{q \<in> sufs old. at V q \<le> at V p}"
  have "p \<in> ?A" using p by simp
  then have "0 < card ?A" by (auto simp: card_gt_0_iff)
  moreover have "card ?A \<le> card (sufs old)" by (intro card_mono) auto
  moreover have "at V p + 1 = int (card ?A)" using g p by (auto simp: good_def)
  ultimately show ?thesis by simp
qed

text \<open>The layout tells how far the suffixes of a class agree.\<close>

lemma lay_agree:
  assumes "lay old h I V a b" "good old V h0" "a \<le> j" "j < b"
  shows "all_agree old h (cls old V j)"
  using assms
proof (induction rule: lay.induct)
  case (lay_run a b)
  show ?case
  proof (cases "j < a - at I a")
    case True
    then have "card (cls old V j) = 1" using lay_run by blast
    then show ?thesis by (auto simp: card_1_singleton_iff)
  qed (use lay_run in auto)
next
  case (lay_group a g b)
  consider "j < g" | "j = g" | "g + 1 \<le> j" by linarith
  then show ?case
  proof cases
    case 1
    have "at I a \<in> cls old V g" using lay_group(1,2) by (auto simp: bij_betw_def)
    moreover have "g + 1 - int (card (cls old V g)) = a" using bij_betw_same_card [OF lay_group(2)] lay_group(1) by simp
    ultimately have "\<not> at V p < g" if "p \<in> cls old V j" for p
      using good_less [OF lay_group(7), of "at I a" g p] that lay_group(8) by (auto simp: in_cls)
    then show ?thesis using 1 by (force simp: in_cls)
  qed (use lay_group in auto)
qed simp

lemma lay_good:
  assumes "lay old h I V 0 (int (length old) + 1)" "good old V h0"
  shows "good old V h"
proof -
  have "agree old h p q" if "p \<in> sufs old" "q \<in> sufs old" "p \<noteq> q" "at V p = at V q" for p q
    using lay_agree [OF assms, of "at V p"] good_range [OF assms(2) that(1)] that by (auto simp: cls_def)
  then show ?thesis using assms(2) unfolding good_def by blast
qed

text \<open>When the first entry is the negated length of the array, every class has one suffix.\<close>

definition ranked :: "bytes \<Rightarrow> int list \<Rightarrow> bool" where
  "ranked old V \<longleftrightarrow> (\<exists>h. good old V h) \<and> (\<forall>j\<in>sufs old. card (cls old V j) = 1)"

lemma lay_ranked:
  assumes "lay old h I V 0 (int (length old) + 1)" "good old V h" "at I 0 = - (int (length old) + 1)"
  shows "ranked old V"
  using assms(1)
proof cases
  case (lay_group g)
  then have "at I 0 \<in> cls old V g" by (intro bij_betw_apply [of "at I" "{0..g}"]) auto
  then show ?thesis using assms(3) by (simp add: in_cls)
qed (use assms(2,3) in \<open>auto simp: ranked_def\<close>)

lemma sort_passes_ranks:
  assumes "lay old h I V 0 (int (length old) + 1)" "good old V h" "length I = length old + 1" "1 \<le> h"
  shows "\<exists>I' V'. sort_passes h (int (length old)) (I, V) = Some (I', V') \<and> ranked old V' \<and> length I' = length old + 1"
  using assms
proof (induction "nat (int (length old) + 1 - h)" arbitrary: h I V rule: less_induct)
  case less
  let ?n = "int (length old)"
  have rd: "rd I 0 = Some (at I 0)" using less.prems(3) by (simp add: rd_at)
  show ?case
  proof (cases "at I 0 = - (?n + 1)")
    case True
    then show ?thesis using rd lay_ranked [OF less.prems(1,2) True] less.prems(3) by (subst sort_passes.simps) auto
  next
    case False
    have "pass_inv old h I V 0 0" using less.prems by (simp add: pass_inv_def lay_nil)
    from sort_pass_sorts [OF this] less.prems(4) obtain I1 V1 where
      p: "sort_pass 0 0 ?n h (I, V) = Some (I1, V1)" "good old V1 h" "length I1 = length old + 1" "lay old (h + h) I1 V1 0 (?n + 1)"
      "?n < h \<longrightarrow> at I1 0 = - (?n + 1)" by auto
    have good: "good old V1 (h + h)" by (rule lay_good [OF p(4,2)])
    have step: "sort_passes h ?n (I, V) = sort_passes (h + h) ?n (I1, V1)" using rd False p(1) by (subst sort_passes.simps) simp
    show ?thesis
    proof (cases "?n < h")
      case True
      then have "sort_passes (h + h) ?n (I1, V1) = Some (I1, V1)" using p(3,5) by (subst sort_passes.simps) (simp add: rd_at)
      then show ?thesis using step lay_ranked [OF p(4) good] p(3,5) True by auto
    next
      case False
      then have "nat (?n + 1 - (h + h)) < nat (?n + 1 - h)" using less.prems(4) by linarith
      then show ?thesis using less.hyps [OF _ p(4) good p(3)] less.prems(4) step by simp
    qed
  qed
qed

section \<open>From ranks to the sorted array\<close>

lemma invert_ranks_inverts:
  assumes "distinct vs" "\<forall>v\<in>set vs. 0 \<le> v \<and> v < int (length I)"
  shows "\<exists>I'. invert_ranks i vs I = Some I' \<and> length I' = length I \<and> (\<forall>k<length vs. at I' (vs ! k) = i + int k) \<and> (\<forall>j\<ge>0. j \<notin> set vs \<longrightarrow> at I' j = at I j)"
  using assms
proof (induction vs arbitrary: i I)
  case (Cons v vs)
  let ?I = "I[nat v := i]"
  obtain I' where I': "invert_ranks (i + 1) vs ?I = Some I'" "length I' = length I" "\<forall>k<length vs. at I' (vs ! k) = i + 1 + int k"
    "\<forall>j\<ge>0. j \<notin> set vs \<longrightarrow> at I' j = at ?I j" using Cons.IH [of ?I "i + 1"] Cons.prems by auto
  have v: "0 \<le> v" "v < int (length I)" "v \<notin> set vs" using Cons.prems by auto
  have "at I' ((v # vs) ! k) = i + int k" if "k < length (v # vs)" for k
    using that I'(3,4) v by (cases k) auto
  moreover have "at I' j = at I j" if "0 \<le> j" "j \<notin> set (v # vs)" for j using that I'(4) v at_update [of j v I] by simp
  ultimately show ?case using I'(1,2) v by (simp add: wr_at)
qed simp

text \<open>The array of the positions of all suffixes, in the order of the suffixes.\<close>

definition suffix_array :: "bytes \<Rightarrow> int list \<Rightarrow> bool" where
  "suffix_array old I \<longleftrightarrow> length I = length old + 1 \<and> set I = sufs old \<and> sorted_wrt (suf_less old) I"

lemma ranked_inverts:
  assumes "ranked old V" "length I = length old + 1"
  shows "\<exists>I'. invert_ranks 0 V I = Some I' \<and> suffix_array old I'"
proof -
  obtain h where g: "good old V h" using assms(1) by (auto simp: ranked_def)
  have l: "length V = length old + 1" using g by (simp add: good_def)
  have one: "\<exists>p. cls old V j = {p}" if "j \<in> sufs old" for j using assms(1) that by (auto simp: ranked_def card_1_singleton_iff)
  have range: "0 \<le> V ! k \<and> V ! k \<le> int (length old)" if "k < length V" for k using good_range [OF g, of "int k"] that l by simp
  have "distinct V"
  proof (rule ccontr)
    assume "\<not> distinct V"
    then obtain a b where ab: "a < length V" "b < length V" "a \<noteq> b" "V ! a = V ! b" by (auto simp: distinct_conv_nth)
    moreover obtain p where "cls old V (V ! a) = {p}" using one [of "V ! a"] range [OF ab(1)] by auto
    moreover have "int a \<in> cls old V (V ! a)" "int b \<in> cls old V (V ! a)" using ab l by (auto simp: in_cls)
    ultimately show False by simp
  qed
  moreover have "\<forall>v\<in>set V. 0 \<le> v \<and> v < int (length I)" using range assms(2) by (fastforce simp: in_set_conv_nth)
  ultimately obtain I' where I': "invert_ranks 0 V I = Some I'" "length I' = length I" "\<forall>k<length V. at I' (V ! k) = int k"
    using invert_ranks_inverts [of V I 0] by auto
  have inv: "\<exists>p. p \<in> sufs old \<and> at V p = int k \<and> I' ! k = p" if k: "k < length I'" for k
  proof -
    obtain p where "cls old V (int k) = {p}" using one [of "int k"] k I'(2) assms(2) by auto
    then have "p \<in> cls old V (int k)" by simp
    then have p: "0 \<le> p" "p \<le> int (length old)" "at V p = int k" by (auto simp: in_cls)
    then have "nat p < length V" using l by simp
    then have "at I' (V ! nat p) = int (nat p)" using I'(3) by blast
    then show ?thesis using p by auto
  qed
  have "sorted_wrt (suf_less old) I'"
  proof (unfold sorted_wrt_iff_nth_less, intro allI impI)
    fix a b assume ab: "a < b" "b < length I'"
    obtain p where p: "p \<in> sufs old" "at V p = int a" "I' ! a = p" using inv [of a] ab by auto
    obtain q where q: "q \<in> sufs old" "at V q = int b" "I' ! b = q" using inv [of b] ab by auto
    show "suf_less old (I' ! a) (I' ! b)" using good_order [OF g p(1) q(1)] p q ab(1) by simp
  qed
  moreover have "set I' = sufs old"
  proof
    show "set I' \<subseteq> sufs old" using inv by (auto simp: in_set_conv_nth)
    show "sufs old \<subseteq> set I'"
    proof
      fix p assume p: "p \<in> sufs old"
      then have "at I' (at V p) = p" "nat (at V p) < length I'" using I'(2,3) good_range [OF g p] l assms(2) by auto
      then show "p \<in> set I'" by (metis nth_mem)
    qed
  qed
  ultimately show ?thesis using I'(1,2) assms(2) by (auto simp: suffix_array_def)
qed

section \<open>The buckets\<close>

text \<open>How many bytes are less than a number; the place after which the bucket of a byte starts.\<close>

definition below :: "bytes \<Rightarrow> nat \<Rightarrow> int" where
  "below old c = int (length (filter (\<lambda>b. unat b < c) old))"

definition bytes_at :: "bytes \<Rightarrow> nat \<Rightarrow> nat \<Rightarrow> int set" where
  "bytes_at old m c = int ` {i. i < m \<and> unat (old ! i) = c}"

lemma bytes_at_Suc: "m < length old \<Longrightarrow> bytes_at old (Suc m) c = (if unat (old ! m) = c then insert (int m) (bytes_at old m c) else bytes_at old m c)"
  by (auto simp: bytes_at_def less_Suc_eq)

lemma finite_bytes_at [simp]: "finite (bytes_at old m c)"
  by (simp add: bytes_at_def)

lemma bucket_counts_count:
  assumes "c < 256" shows "bucket_counts old ! c = int (length (filter (\<lambda>b. unat b = c) old))"
proof -
  have "length (fold (\<lambda>b bs. bs[unat b := bs ! unat b + 1]) old bs) = length bs
    \<and> (length bs = 256 \<longrightarrow> fold (\<lambda>b bs. bs[unat b := bs ! unat b + 1]) old bs ! c = bs ! c + int (length (filter (\<lambda>b. unat b = c) old)))" for bs :: "int list"
  proof (induction old arbitrary: bs)
    case (Cons b old)
    show ?case using Cons.IH [of "bs[unat b := bs ! unat b + 1]"] assms by (auto simp: nth_list_update)
  qed simp
  then show ?thesis using assms by (simp add: bucket_counts_def)
qed

lemma length_bucket_counts: "length (bucket_counts old) = 256"
proof -
  have "length (fold (\<lambda>b bs. bs[unat b := bs ! unat b + 1]) old bs) = length bs" for bs :: "int list"
    by (induction old arbitrary: bs) simp_all
  then show ?thesis by (simp add: bucket_counts_def)
qed

lemma below_Suc: "below old (Suc c) = below old c + int (length (filter (\<lambda>b. unat b = c) old))"
  by (induction old) (auto simp: below_def less_Suc_eq)

lemma prefix_sums:
  assumes "length b = 256" "\<And>c. c < 256 \<Longrightarrow> b ! c = int (length (filter (\<lambda>b. unat b = c) old))" "m \<le> 256"
  shows "length (fold (\<lambda>i b. b[i := b ! i + b ! (i - 1)]) [1..<m] b) = 256
    \<and> (\<forall>c<256. fold (\<lambda>i b. b[i := b ! i + b ! (i - 1)]) [1..<m] b ! c = (if c < max 1 m then below old (Suc c) else b ! c))"
  using assms(3)
proof (induction m)
  case 0
  then show ?case using assms(1,2) below_Suc [of old 0] by (auto simp: below_def)
next
  case (Suc m)
  show ?case
  proof (cases "m = 0")
    case True
    then show ?thesis using assms(1,2) below_Suc [of old 0] by (auto simp: below_def)
  next
    case False
    then show ?thesis using Suc assms(2) below_Suc [of old m] by (auto simp: nth_list_update less_Suc_eq)
  qed
qed

lemma shift_up:
  assumes "length b = 256" "m \<le> 256"
  shows "length (fold (\<lambda>i b. b[i := b ! (i - 1)]) (rev [1..<m]) b) = 256
    \<and> (\<forall>c<256. fold (\<lambda>i b. b[i := b ! (i - 1)]) (rev [1..<m]) b ! c = (if 1 \<le> c \<and> c < m then b ! (c - 1) else b ! c))"
  using assms
proof (induction m arbitrary: b)
  case (Suc m)
  show ?case
  proof (cases "m = 0")
    case False
    then show ?thesis using Suc.IH [of "b[m := b ! (m - 1)]"] Suc.prems by (auto simp: nth_list_update less_Suc_eq)
  qed (use Suc.prems in auto)
qed simp

lemma bucket_starts_below:
  shows "length (bucket_starts old) = 256" "c < 256 \<Longrightarrow> bucket_starts old ! c = below old c"
proof -
  define b where "b = fold (\<lambda>i b. b[i := b ! i + b ! (i - 1)]) [1..<256] (bucket_counts old)"
  have b: "length b = 256" "\<And>c. c < 256 \<Longrightarrow> b ! c = below old (Suc c)"
    using prefix_sums [of "bucket_counts old" old 256] length_bucket_counts bucket_counts_count unfolding b_def by auto
  have s: "bucket_starts old = (fold (\<lambda>i b. b[i := b ! (i - 1)]) (rev [1..<256]) b)[0 := 0]" by (simp add: bucket_starts_def b_def Let_def)
  show "length (bucket_starts old) = 256" using shift_up [OF b(1), of 256] by (simp add: s)
  show "bucket_starts old ! c = below old c" if "c < 256"
    using shift_up [OF b(1), of 256] b(2) [of "c - 1"] that by (cases c) (auto simp: s below_def nth_list_update)
qed

text \<open>Filling the buckets: the positions seen so far stand in the bucket of their byte.\<close>

definition filled :: "bytes \<Rightarrow> nat \<Rightarrow> int list \<Rightarrow> int list \<Rightarrow> bool" where
  "filled old m bs I \<longleftrightarrow> length bs = 256 \<and> length I = length old + 1
     \<and> (\<forall>c<256. bs ! c = below old c + int (card (bytes_at old m c)) \<and> bij_betw (at I) {below old c + 1..bs ! c} (bytes_at old m c))"

lemma card_bytes_at: "card (bytes_at old (length old) c) = length (filter (\<lambda>b. unat b = c) old)"
  by (simp add: bytes_at_def card_image length_filter_conv_card)

lemma below_step: "below old (Suc c) = below old c + int (card (bytes_at old (length old) c))"
  by (simp add: below_Suc card_bytes_at)

lemma below_mono: "c \<le> d \<Longrightarrow> below old c \<le> below old d"
proof (induction d)
  case (Suc d)
  then show ?case using below_step [of old d] by (cases "c = Suc d") auto
qed simp

lemma below_bounds: "0 \<le> below old c" "below old c \<le> int (length old)" "below old 0 = 0" "below old 256 = int (length old)"
  by (simp_all add: below_def)

lemma bytes_at_mono: "m \<le> length old \<Longrightarrow> card (bytes_at old m c) \<le> card (bytes_at old (length old) c)"
  by (intro card_mono) (auto simp: bytes_at_def)

lemma bucket_fill_fills:
  assumes "filled old m bs I" "m \<le> length old"
  shows "\<exists>bs' I'. bucket_fill (int m) (drop m old) bs I = Some (bs', I') \<and> filled old (length old) bs' I'"
  using assms
proof (induction "length old - m" arbitrary: m bs I)
  case 0
  then show ?case by simp
next
  case (Suc k)
  then have m: "m < length old" by simp
  let ?c = "unat (old ! m)"
  let ?k = "bs ! ?c + 1"
  let ?bs = "bs[?c := ?k]" and ?I = "I[nat ?k := int m]"
  have f: "length bs = 256" "length I = length old + 1" "\<And>c. c < 256 \<Longrightarrow> bs ! c = below old c + int (card (bytes_at old m c))"
    "\<And>c. c < 256 \<Longrightarrow> bij_betw (at I) {below old c + 1..bs ! c} (bytes_at old m c)" using Suc.prems(1) by (auto simp: filled_def)
  have b: "?c < 256" by simp
  have new: "int m \<notin> bytes_at old m c" for c by (auto simp: bytes_at_def)
  have c: "card (bytes_at old (Suc m) c) = card (bytes_at old m c) + (if ?c = c then 1 else 0)" for c using new by (simp add: bytes_at_Suc [OF m])
  have le: "below old c + int (card (bytes_at old (Suc m) c)) \<le> below old (Suc c)" for c using below_step [of old c] bytes_at_mono [of "Suc m" old c] m by simp
  have k: "0 \<le> ?k" "?k \<le> int (length old)" "below old ?c < ?k" "?k \<le> below old (Suc ?c)"
    using f(3) [OF b] c [of ?c] le [of ?c] below_bounds(1) [of old ?c] below_bounds(2) [of old "Suc ?c"] by simp_all
  have at: "at ?I t = (if t = ?k then int m else at I t)" if "0 \<le> t" for t using at_update [of t ?k I] that k f(2) by simp
  have "?bs ! c' = below old c' + int (card (bytes_at old (Suc m) c'))" if "c' < 256" for c' using f(1) f(3) [of c'] that c [of c'] f(3) [OF b] by (simp add: nth_list_update)
  moreover have "bij_betw (at ?I) {below old c' + 1..?bs ! c'} (bytes_at old (Suc m) c')" if c': "c' < 256" for c'
  proof (cases "c' = ?c")
    case False
    have "?k \<notin> {below old c' + 1..bs ! c'}"
    proof
      assume t: "?k \<in> {below old c' + 1..bs ! c'}"
      have "bs ! c' \<le> below old (Suc c')" using f(3) [OF c'] le [of c'] c [of c'] by simp
      then show False using t k(3,4) below_mono [of "Suc c'" ?c old] below_mono [of "Suc ?c" c' old] False by (cases "c' < ?c") auto
    qed
    then have "bij_betw (at ?I) {below old c' + 1..bs ! c'} (bytes_at old m c')"
      using f(4) [OF c'] at below_bounds(1) [of old c'] by (subst bij_betw_cong [of _ _ "at I"]) auto
    then show ?thesis using False bytes_at_Suc [OF m, of c'] by (simp add: nth_list_update)
  next
    case True
    have e: "{below old ?c + 1..?k} = insert ?k {below old ?c + 1..bs ! ?c}" using k(3) by auto
    have "bij_betw (at ?I) {below old ?c + 1..bs ! ?c} (bytes_at old m ?c)"
      using f(4) [OF b] at below_bounds(1) [of old ?c] by (subst bij_betw_cong [of _ _ "at I"]) auto
    then have "bij_betw (at ?I) (insert ?k {below old ?c + 1..bs ! ?c}) (insert (int m) (bytes_at old m ?c))"
      using at [of ?k] k(1) new notIn_Un_bij_betw [of ?k "{below old ?c + 1..bs ! ?c}" "at ?I" "bytes_at old m ?c"] by simp
    then show ?thesis using True f(1) by (simp add: e bytes_at_Suc [OF m])
  qed
  ultimately have "filled old (Suc m) ?bs ?I" using f(1,2) by (simp add: filled_def)
  moreover have "length old - Suc m = k" using Suc.hyps(2) by simp
  ultimately obtain bs' I' where "bucket_fill (int (Suc m)) (drop (Suc m) old) ?bs ?I = Some (bs', I')" "filled old (length old) bs' I'"
    using Suc.hyps(1) [of "Suc m" ?bs ?I] m by auto
  moreover have "drop m old = old ! m # drop (Suc m) old" by (rule Cons_nth_drop_Suc [OF m, symmetric])
  moreover have "wr I ?k (int m) = Some ?I" using k(1,2) f(2) by (simp add: wr_at)
  ultimately show ?case using f(1) by (simp add: Let_def add.commute)
qed

section \<open>The state before the first pass\<close>

text \<open>The ranks by the first byte.\<close>

definition first_ranks :: "bytes \<Rightarrow> int list \<Rightarrow> bool" where
  "first_ranks old V \<longleftrightarrow> length V = length old + 1 \<and> (\<forall>i<length old. V ! i = below old (Suc (unat (old ! i)))) \<and> V ! length old = 0"

lemma below_less:
  assumes "c < d" "0 < card (bytes_at old (length old) d)" shows "below old (Suc c) < below old (Suc d)"
  using below_mono [of "Suc c" d old] below_step [of old d] assms by simp

lemma own_bucket: "i < length old \<Longrightarrow> 0 < card (bytes_at old (length old) (unat (old ! i)))"
  by (auto simp: card_gt_0_iff bytes_at_def)

lemma below_less_iff:
  assumes "i < length old" "j < length old"
  shows "below old (Suc (unat (old ! i))) < below old (Suc (unat (old ! j))) \<longleftrightarrow> unat (old ! i) < unat (old ! j)"
    and "below old (Suc (unat (old ! i))) = below old (Suc (unat (old ! j))) \<longleftrightarrow> old ! i = old ! j"
proof -
  let ?x = "unat (old ! i)" and ?y = "unat (old ! j)"
  have lt: "?x < ?y \<Longrightarrow> below old (Suc ?x) < below old (Suc ?y)" "?y < ?x \<Longrightarrow> below old (Suc ?y) < below old (Suc ?x)"
    using own_bucket [OF assms(1)] own_bucket [OF assms(2)] by (auto intro: below_less)
  have "?x < ?y \<or> old ! i = old ! j \<or> ?y < ?x" by (metis linorder_neqE_nat unsigned_word_eqI)
  then consider "?x < ?y" "old ! i \<noteq> old ! j" | "old ! i = old ! j" | "?y < ?x" "old ! i \<noteq> old ! j" by auto
  then have "(below old (Suc ?x) < below old (Suc ?y) \<longleftrightarrow> ?x < ?y) \<and> (below old (Suc ?x) = below old (Suc ?y) \<longleftrightarrow> old ! i = old ! j)"
  proof cases
    case 1
    then show ?thesis using lt(1) [OF 1(1)] by simp
  next
    case 3
    then show ?thesis using lt(2) [OF 3(1)] by simp
  qed simp
  then show "below old (Suc ?x) < below old (Suc ?y) \<longleftrightarrow> ?x < ?y" "below old (Suc ?x) = below old (Suc ?y) \<longleftrightarrow> old ! i = old ! j" by blast+
qed

lemma below_pos: "i < length old \<Longrightarrow> 0 < below old (Suc (unat (old ! i)))"
  using own_bucket [of i old] below_step [of old "unat (old ! i)"] below_bounds(1) [of old "unat (old ! i)"] by simp

lemma sufs_cases:
  assumes "p \<in> sufs old" obtains "p = int (length old)" | i where "p = int i" "i < length old"
proof (cases "p = int (length old)")
  case False
  then have "p = int (nat p)" "nat p < length old" using assms by auto
  then show ?thesis by (rule that(2))
qed (rule that(1))

lemma first_ranks_at:
  "first_ranks old V \<Longrightarrow> i < length old \<Longrightarrow> at V (int i) = below old (Suc (unat (old ! i)))" "first_ranks old V \<Longrightarrow> at V (int (length old)) = 0"
  by (simp_all add: first_ranks_def)

lemma first_ranks_cls:
  assumes "first_ranks old V"
  shows "cls old V 0 = {int (length old)}" "0 < card (bytes_at old (length old) c) \<Longrightarrow> cls old V (below old (Suc c)) = bytes_at old (length old) c"
proof -
  show "cls old V 0 = {int (length old)}"
  proof (intro set_eqI iffI)
    fix p assume p: "p \<in> cls old V 0"
    then have "p \<in> sufs old" "at V p = 0" by (auto simp: cls_def)
    then show "p \<in> {int (length old)}" using below_pos [of _ old] first_ranks_at(1) [OF assms] by (cases rule: sufs_cases) (auto, fastforce)
  qed (use first_ranks_at(2) [OF assms] in \<open>simp add: cls_def\<close>)
  assume c: "0 < card (bytes_at old (length old) c)"
  then obtain j where j: "j < length old" "unat (old ! j) = c" by (auto simp: card_gt_0_iff bytes_at_def)
  have pos: "0 < below old (Suc c)" using below_pos [OF j(1)] j(2) by simp
  show "cls old V (below old (Suc c)) = bytes_at old (length old) c"
  proof (intro set_eqI iffI)
    fix p assume p: "p \<in> cls old V (below old (Suc c))"
    then have "p \<in> sufs old" "at V p = below old (Suc c)" by (auto simp: cls_def)
    then show "p \<in> bytes_at old (length old) c"
    proof (cases rule: sufs_cases)
      case (2 i)
      then have "old ! i = old ! j" using \<open>at V p = below old (Suc c)\<close> first_ranks_at(1) [OF assms] below_less_iff(2) [OF 2(2) j(1)] j(2) by simp
      then show ?thesis using 2 j(2) by (auto simp: bytes_at_def)
    qed (use pos first_ranks_at(2) [OF assms] in simp)
  next
    fix p assume "p \<in> bytes_at old (length old) c"
    then show "p \<in> cls old V (below old (Suc c))" using first_ranks_at(1) [OF assms] by (auto simp: bytes_at_def cls_def)
  qed
qed

lemma first_ranks_good:
  assumes "first_ranks old V" shows "good old V 1"
proof -
  note v = first_ranks_at [OF assms]
  have "at V p + 1 = int (card {q \<in> sufs old. at V q \<le> at V p})" if "p \<in> sufs old" for p
    using that
  proof (cases rule: sufs_cases)
    case 1
    have "{q \<in> sufs old. at V q \<le> 0} = {int (length old)}"
    proof (intro set_eqI iffI)
      fix q assume "q \<in> {q \<in> sufs old. at V q \<le> 0}"
      then have "q \<in> sufs old" "at V q \<le> 0" by auto
      then show "q \<in> {int (length old)}" using below_pos [of _ old] v(1) by (cases rule: sufs_cases) (auto, fastforce)
    qed (use v(2) in simp)
    then show ?thesis using 1 v(2) by simp
  next
    case (2 i)
    let ?c = "unat (old ! i)"
    have "{q \<in> sufs old. at V q \<le> at V p} = insert (int (length old)) (int ` {j. j < length old \<and> unat (old ! j) < Suc ?c})"
    proof (intro set_eqI iffI)
      fix q assume "q \<in> {q \<in> sufs old. at V q \<le> at V p}"
      then have "q \<in> sufs old" "at V q \<le> at V p" by auto
      then show "q \<in> insert (int (length old)) (int ` {j. j < length old \<and> unat (old ! j) < Suc ?c})"
        using below_less_iff(1) [OF 2(2)] v(1) 2 by (cases rule: sufs_cases) (auto simp: not_less [symmetric])
    next
      fix q assume "q \<in> insert (int (length old)) (int ` {j. j < length old \<and> unat (old ! j) < Suc ?c})"
      then show "q \<in> {q \<in> sufs old. at V q \<le> at V p}"
        using below_less_iff(1) [OF 2(2)] v 2 below_bounds(1) [of old "Suc ?c"] by (auto simp: not_less [symmetric])
    qed
    then have "card {q \<in> sufs old. at V q \<le> at V p} = Suc (length (filter (\<lambda>b. unat b < Suc ?c) old))"
      by (simp add: card_insert_disjoint card_image length_filter_conv_card image_iff)
    then show ?thesis using 2 v(1) by (simp add: below_def)
  qed
  moreover have "suf_less old p q" if pq: "p \<in> sufs old" "q \<in> sufs old" "at V p < at V q" for p q
    using pq(2)
  proof (cases rule: sufs_cases)
    case 1
    then show ?thesis using pq(1,3) v below_bounds(1) [of old] by (cases rule: sufs_cases [OF pq(1)]) (auto simp: not_less [symmetric])
  next
    case (2 j)
    then have dq: "drop (nat q) old = old ! j # drop (Suc j) old" by (simp add: Cons_nth_drop_Suc)
    from pq(1) show ?thesis
    proof (cases rule: sufs_cases)
      case (2 i)
      then have "old ! i < old ! j" using pq(3) \<open>q = int j\<close> \<open>j < length old\<close> v(1) below_less_iff(1) [of i old j] by (simp add: word_less_nat_alt)
      moreover have "drop (nat p) old = old ! i # drop (Suc i) old" using 2 by (simp add: Cons_nth_drop_Suc)
      ultimately show ?thesis using dq by (simp add: suf_less_def)
    qed (simp add: suf_less_def dq)
  qed
  moreover have "agree old 1 p q" if pq: "p \<in> sufs old" "q \<in> sufs old" "p \<noteq> q" "at V p = at V q" for p q
  proof -
    obtain i where i: "p = int i" "i < length old" using pq v below_pos [of _ old] by (cases rule: sufs_cases [OF pq(1)]; cases rule: sufs_cases [OF pq(2)]) force+
    obtain j where j: "q = int j" "j < length old" using pq v below_pos [of _ old] i by (cases rule: sufs_cases [OF pq(2)]) force+
    have "old ! i = old ! j" using pq(4) i j v(1) below_less_iff(2) [OF i(2) j(2)] by simp
    then show ?thesis using i j by (simp add: agree_def take_Suc_conv_app_nth hd_drop_conv_nth take_Suc)
  qed
  moreover have "length V = length old + 1" using assms by (simp add: first_ranks_def)
  ultimately show ?thesis unfolding good_def by blast
qed

lemma mark_singles_marks:
  assumes "\<forall>i\<in>set is. 0 \<le> bs ! i \<and> bs ! i < int (length I)"
  shows "\<exists>I'. mark_singles is bs I = Some I' \<and> length I' = length I
    \<and> (\<forall>k\<ge>0. at I' k = (if \<exists>i\<in>set is. bs ! i = bs ! (i - 1) + 1 \<and> k = bs ! i then -1 else at I k))"
  using assms
proof (induction "is" arbitrary: I)
  case (Cons i "is")
  define I1 where "I1 = (if bs ! i = bs ! (i - 1) + 1 then I[nat (bs ! i) := -1] else I)"
  have w: "(if bs ! i = bs ! (i - 1) + 1 then wr I (bs ! i) (-1) else Some I) = Some I1" "length I1 = length I"
    "\<And>k. 0 \<le> k \<Longrightarrow> at I1 k = (if bs ! i = bs ! (i - 1) + 1 \<and> k = bs ! i then -1 else at I k)"
    using Cons.prems at_update [of _ "bs ! i" I "-1"] by (auto simp: I1_def wr_at)
  obtain I' where "mark_singles is bs I1 = Some I'" "length I' = length I1"
    "\<forall>k\<ge>0. at I' k = (if \<exists>i\<in>set is. bs ! i = bs ! (i - 1) + 1 \<and> k = bs ! i then -1 else at I1 k)"
    using Cons.IH [of I1] Cons.prems w(2) by auto
  then show ?case using w by auto
qed simp

text \<open>The buckets as cells; a bucket of the byte 0 with one position stays a group of one.\<close>

definition bucketed :: "bytes \<Rightarrow> int list \<Rightarrow> bool" where
  "bucketed old I \<longleftrightarrow> (\<forall>c<256. 0 < card (bytes_at old (length old) c) \<longrightarrow>
     bij_betw (at I) {below old c + 1..below old (Suc c)} (bytes_at old (length old) c)
     \<or> card (bytes_at old (length old) c) = 1 \<and> at I (below old (Suc c)) = -1)"

lemma bucketed_lay:
  assumes "bucketed old I" "first_ranks old V" "c \<le> 256"
  shows "lay old 1 I V (below old c + 1) (int (length old) + 1)"
  using assms(3)
proof (induction "256 - c" arbitrary: c)
  case 0
  then have "c = 256" by simp
  then show ?case using below_bounds(4) [of old] by (simp add: lay_nil)
next
  case (Suc k)
  then have c: "c < 256" and rest: "lay old 1 I V (below old (Suc c) + 1) (int (length old) + 1)" by auto
  let ?B = "bytes_at old (length old) c"
  show ?case
  proof (cases "card ?B = 0")
    case True
    then show ?thesis using rest below_step [of old c] by simp
  next
    case False
    then have B: "0 < card ?B" by (rule neq0_conv [THEN iffD1])
    note cl = first_ranks_cls(2) [OF assms(2) B]
    have ag: "all_agree old 1 ?B" unfolding cl [symmetric] using good_agree [OF first_ranks_good [OF assms(2)]] by (auto simp: cls_def)
    consider "bij_betw (at I) {below old c + 1..below old (Suc c)} ?B" | "card ?B = 1" "at I (below old (Suc c)) = -1"
      using assms(1) c B by (auto simp: bucketed_def)
    then show ?thesis
    proof cases
      case 1
      have "p + 1 \<le> int (length old)" if "p \<in> ?B" for p using that by (auto simp: bytes_at_def)
      then show ?thesis using 1 rest ag B below_step [of old c] cl by (intro lay_group [of "below old c + 1" "below old (Suc c)"]) auto
    next
      case 2
      then have e: "below old c + 1 = below old (Suc c)" using below_step [of old c] by simp
      have "card (cls old V j) = 1" if "below old (Suc c) \<le> j" "j < below old (Suc c) + 1" for j
      proof -
        have "j = below old (Suc c)" using that by simp
        then show ?thesis using 2(1) cl by simp
      qed
      then have "lay old 1 I V (below old (Suc c)) (int (length old) + 1)"
        using 2(2) rest by (intro lay_run [of I "below old (Suc c)"]) simp_all
      then show ?thesis by (simp only: e)
    qed
  qed
qed

text \<open>From the filled buckets to the state before the first pass.\<close>

lemma filled_bucketed:
  assumes "filled old (length old) bs I" "length I1 = length I"
    and "\<And>k. 0 < k \<Longrightarrow> at I1 k = (if \<exists>i\<in>{1..<256}. bs ! i = bs ! (i - 1) + 1 \<and> k = bs ! i then -1 else at I k)"
  shows "bucketed old I1"
proof -
  have bs: "bs ! c = below old (Suc c)" if "c < 256" for c using assms(1) that below_step [of old c] by (simp add: filled_def)
  have bij: "bij_betw (at I) {below old c + 1..below old (Suc c)} (bytes_at old (length old) c)" if "c < 256" for c
    using assms(1) that bs [OF that] by (auto simp: filled_def)
  show ?thesis
  proof (unfold bucketed_def, intro allI impI)
    fix c :: nat assume c: "c < 256" "0 < card (bytes_at old (length old) c)"
    let ?r = "{below old c + 1..below old (Suc c)}"
    show "bij_betw (at I1) ?r (bytes_at old (length old) c) \<or> card (bytes_at old (length old) c) = 1 \<and> at I1 (below old (Suc c)) = -1"
    proof (cases "\<exists>i\<in>{1..<256}. bs ! i = bs ! (i - 1) + 1 \<and> bs ! i \<in> ?r")
      case False
      then have "at I1 k = at I k" if "k \<in> ?r" for k using assms(3) [of k] that below_bounds(1) [of old c] by auto
      then have "bij_betw (at I1) ?r (bytes_at old (length old) c)" using bij [OF c(1)] by (subst bij_betw_cong [of _ _ "at I"]) auto
      then show ?thesis ..
    next
      case True
      then obtain i where i: "i \<in> {1..<256}" "bs ! i = bs ! (i - 1) + 1" "bs ! i \<in> ?r" by blast
      have one: "below old (Suc i) = below old i + 1" using i(1,2) bs [of i] bs [of "i - 1"] by auto
      then have "card (bytes_at old (length old) i) = 1" using below_step [of old i] by simp
      moreover have "i = c"
        using i(1,3) bs [of i] c one below_mono [of "Suc i" c old] below_mono [of "Suc c" i old] by (cases i c rule: linorder_cases) auto
      moreover have "at I1 (below old (Suc i)) = -1"
        using assms(3) [of "below old (Suc i)"] i(1,2) bs [of i] one below_bounds(1) [of old i] by (auto intro!: exI [of _ i] bexI [of _ i])
      ultimately show ?thesis by simp
    qed
  qed
qed

lemma filled_start: "length I = length old + 1 \<Longrightarrow> filled old 0 (bucket_starts old) I"
  by (simp add: filled_def bucket_starts_below bytes_at_def bij_betw_def)

section \<open>The result\<close>

lemma qsufsort_sorts:
  assumes "length I = length old + 1" "length V = length old + 1"
  shows "\<exists>I'. qsufsort I V old = Some I' \<and> suffix_array old I'"
proof -
  let ?n = "int (length old)"
  obtain bs I1 where fill: "bucket_fill 0 old (bucket_starts old) I = Some (bs, I1)" "filled old (length old) bs I1"
    using bucket_fill_fills [OF filled_start [OF assms(1)]] by auto
  have f: "length I1 = length old + 1" "\<And>c. c < 256 \<Longrightarrow> bs ! c = below old (Suc c)"
    using fill(2) below_step [of old] by (auto simp: filled_def)
  let ?I2 = "I1[0 := ?n]"
  define V1 where "V1 = (map (\<lambda>b. bs ! unat b) old @ drop (length old) V)[length old := 0]"
  have "0 \<le> bs ! i \<and> bs ! i < int (length ?I2)" if "i < 256" for i using f that below_bounds(1,2) [of old "Suc i"] by simp
  then obtain I3 where I3: "mark_singles [1..<256] bs ?I2 = Some I3" "length I3 = length old + 1"
    "\<forall>k\<ge>0. at I3 k = (if \<exists>i\<in>set [1..<256]. bs ! i = bs ! (i - 1) + 1 \<and> k = bs ! i then -1 else at ?I2 k)"
    using mark_singles_marks [of "[1..<256]" bs ?I2] f(1) by auto
  let ?I4 = "I3[0 := -1]"
  have ranks: "first_ranks old V1" using assms(2) f(2) by (auto simp: first_ranks_def V1_def nth_append)
  have "bucketed old ?I4"
  proof (rule filled_bucketed [OF fill(2)])
    fix k :: int assume "0 < k"
    then show "at ?I4 k = (if \<exists>i\<in>{1..<256}. bs ! i = bs ! (i - 1) + 1 \<and> k = bs ! i then -1 else at I1 k)" using I3(3) by auto
  qed (use I3(2) f(1) in simp)
  from bucketed_lay [OF this ranks, of 0] have "lay old 1 ?I4 V1 1 (?n + 1)" using below_bounds(3) [of old] by simp
  moreover have "at ?I4 0 = -1" using I3(2) by simp
  moreover have "card (cls old V1 j) = 1" if "0 \<le> j" "j < 1" for j
  proof -
    have "j = 0" using that by simp
    then show ?thesis using first_ranks_cls(1) [OF ranks] by simp
  qed
  ultimately have "lay old 1 ?I4 V1 0 (?n + 1)" by (intro lay_run [of ?I4 0]) simp_all
  from sort_passes_ranks [OF this first_ranks_good [OF ranks]] obtain I5 V5 where
    p: "sort_passes 1 ?n (?I4, V1) = Some (I5, V5)" "ranked old V5" "length I5 = length old + 1" using I3(2) by auto
  obtain I' where "invert_ranks 0 V5 I5 = Some I'" "suffix_array old I'" using ranked_inverts [OF p(2,3)] by blast
  moreover have "wr I1 0 ?n = Some ?I2" "wr I3 0 (-1) = Some ?I4" "wr (map (\<lambda>b. bs ! unat b) old @ drop (length old) V) ?n 0 = Some V1"
    using f(1) I3(2) assms(2) by (simp_all add: wr_at V1_def)
  ultimately show ?thesis using fill(1) I3(1) p(1) by (simp add: qsufsort_def Let_def)
qed

text \<open>C10: the suffix sort ends for every file and whatever its two arrays held before, never reads or writes outside them, and
  delivers the positions of all suffixes in their lexicographic order.\<close>

theorem qsufsort_correct:
  "\<exists>I. qsufsort (map junk [0..<length old + 1]) (map junk' [0..<length old + 1]) old = Some I
    \<and> length I = length old + 1 \<and> set I = {0..int (length old)} \<and> sorted_wrt (suf_less old) I"
  using qsufsort_sorts [of "map junk [0..<length old + 1]" old "map junk' [0..<length old + 1]"] by (simp add: suffix_array_def)

end
