(* ===== verification/Bsdiff.thy ===== *)
theory Bsdiff
  imports Bspatch Qsufsort_Correct
begin

text \<open>
  The maker of bsdiff patches, \<^verbatim>\<open>jni/bsdiffpatcher/bsdiff.c\<close>, without its suffix sort: the search in the sorted suffixes and the
  scan of the new file that emits control triples, differences and extra bytes.  \<open>None\<close> is an access outside an array or a
  loop without end.  Numbers are unbounded; for files below \<open>2 ^ 30\<close> bytes none of them leaves the 32 bits of \<^verbatim>\<open>off_t\<close>.  Main
  results: the search reports a true match, the scan ends and stays inside its arrays, and the patch rebuilds the new file.
\<close>

section \<open>Model: the search\<close>

fun matchlen :: "bytes \<Rightarrow> bytes \<Rightarrow> int" where
  "matchlen (a # old) (b # nw) = (if a \<noteq> b then 0 else 1 + matchlen old nw)"
| "matchlen old nw = 0"

text \<open>\<^verbatim>\<open>memcmp(a, b, MIN(length a, length b)) < 0\<close>\<close>

fun mem_less :: "bytes \<Rightarrow> bytes \<Rightarrow> bool" where
  "mem_less (a # as) (b # bs) = (if a = b then mem_less as bs else a < b)"
| "mem_less as bs = False"

definition suffix_at :: "int list \<Rightarrow> bytes \<Rightarrow> int \<Rightarrow> (int \<times> bytes) option" where
  "suffix_at I old k =
     do { p \<leftarrow> rd I k; if 0 \<le> p \<and> p \<le> int (length old) then Some (p, drop (nat p) old) else None }"

partial_function (option) search :: "int list \<Rightarrow> bytes \<Rightarrow> bytes \<Rightarrow> int \<Rightarrow> int \<Rightarrow> (int \<times> int) option" where
  "search I old nw st en =
     (if en - st < 2 then
        do {
          (p, a) \<leftarrow> suffix_at I old st;
          (q, b) \<leftarrow> suffix_at I old en;
          let x = matchlen a nw;
          let y = matchlen b nw;
          Some (if x > y then (x, p) else (y, q))
        }
      else
        do {
          let x = st + (en - st) div 2;
          (p, a) \<leftarrow> suffix_at I old x;
          if mem_less a nw then search I old nw x en else search I old nw st x
        })"

declare search.simps [code]

section \<open>Model: the scan\<close>

definition eq_at :: "bytes \<Rightarrow> bytes \<Rightarrow> int \<Rightarrow> int \<Rightarrow> bool option" where
  "eq_at old nw a b = do { x \<leftarrow> rd old a; y \<leftarrow> rd nw b; Some (x = y) }"

definition same_at :: "bytes \<Rightarrow> bytes \<Rightarrow> int \<Rightarrow> int \<Rightarrow> bool option" where
  "same_at old nw lastoffset k = (if k + lastoffset < int (length old) then eq_at old nw (k + lastoffset) k else Some False)"

primrec score_loop :: "bytes \<Rightarrow> bytes \<Rightarrow> int \<Rightarrow> nat \<Rightarrow> int \<Rightarrow> int \<Rightarrow> int option" where
  "score_loop old nw lastoffset 0 scsc oldscore = Some oldscore"
| "score_loop old nw lastoffset (Suc n) scsc oldscore =
     do { m \<leftarrow> same_at old nw lastoffset scsc; score_loop old nw lastoffset n (scsc + 1) (if m then oldscore + 1 else oldscore) }"

text \<open>The inner loop: \<open>n\<close> bytes of the nw file are left; the result is scan, len, oldscore and pos.\<close>

primrec scan_loop :: "int list \<Rightarrow> bytes \<Rightarrow> bytes \<Rightarrow> int \<Rightarrow> nat \<Rightarrow> int \<Rightarrow> int \<Rightarrow> int \<Rightarrow> int \<Rightarrow> int \<Rightarrow> (int \<times> int \<times> int \<times> int) option" where
  "scan_loop I old nw lastoffset 0 scan scsc oldscore len pos = Some (scan, len, oldscore, pos)"
| "scan_loop I old nw lastoffset (Suc n) scan scsc oldscore len pos =
     do {
       (len, pos) \<leftarrow> search I old (drop (nat scan) nw) 0 (int (length old));
       oldscore \<leftarrow> score_loop old nw lastoffset (nat (scan + len - scsc)) scsc oldscore;
       let scsc = max scsc (scan + len);
       if len = oldscore \<and> len \<noteq> 0 \<or> len > oldscore + 8 then Some (scan, len, oldscore, pos)
       else do {
         m \<leftarrow> same_at old nw lastoffset scan;
         scan_loop I old nw lastoffset n (scan + 1) scsc (if m then oldscore - 1 else oldscore) len pos
       }
     }"

text \<open>Extending the last match forwards, the nw one backwards, and sharing an overlap: \<open>n\<close> rounds are left.\<close>

primrec forward_loop :: "bytes \<Rightarrow> bytes \<Rightarrow> int \<Rightarrow> int \<Rightarrow> nat \<Rightarrow> int \<Rightarrow> int \<Rightarrow> int \<Rightarrow> int \<Rightarrow> int option" where
  "forward_loop old nw lastpos lastscan 0 i s Sf lenf = Some lenf"
| "forward_loop old nw lastpos lastscan (Suc n) i s Sf lenf =
     do {
       m \<leftarrow> eq_at old nw (lastpos + i) (lastscan + i);
       let s = (if m then s + 1 else s);
       let i = i + 1;
       let (Sf, lenf) = (if s * 2 - i > Sf * 2 - lenf then (s, i) else (Sf, lenf));
       forward_loop old nw lastpos lastscan n i s Sf lenf
     }"

primrec backward_loop :: "bytes \<Rightarrow> bytes \<Rightarrow> int \<Rightarrow> int \<Rightarrow> nat \<Rightarrow> int \<Rightarrow> int \<Rightarrow> int \<Rightarrow> int \<Rightarrow> int option" where
  "backward_loop old nw pos scan 0 i s Sb lenb = Some lenb"
| "backward_loop old nw pos scan (Suc n) i s Sb lenb =
     do {
       m \<leftarrow> eq_at old nw (pos - i) (scan - i);
       let s = (if m then s + 1 else s);
       let (Sb, lenb) = (if s * 2 - i > Sb * 2 - lenb then (s, i) else (Sb, lenb));
       backward_loop old nw pos scan n (i + 1) s Sb lenb
     }"

primrec overlap_loop :: "bytes \<Rightarrow> bytes \<Rightarrow> int \<Rightarrow> int \<Rightarrow> int \<Rightarrow> int \<Rightarrow> nat \<Rightarrow> int \<Rightarrow> int \<Rightarrow> int \<Rightarrow> int \<Rightarrow> int option" where
  "overlap_loop old nw a b c d 0 i s Ss lens = Some lens"
| "overlap_loop old nw a b c d (Suc n) i s Ss lens =
     do {
       m \<leftarrow> eq_at old nw (b + i) (a + i);
       let s = (if m then s + 1 else s);
       m \<leftarrow> eq_at old nw (d + i) (c + i);
       let s = (if m then s - 1 else s);
       let (Ss, lens) = (if s > Ss then (s, i + 1) else (Ss, lens));
       overlap_loop old nw a b c d n (i + 1) s Ss lens
     }"

text \<open>How much to take from the last match and from the nw one.\<close>

definition extents :: "bytes \<Rightarrow> bytes \<Rightarrow> int \<Rightarrow> int \<Rightarrow> int \<Rightarrow> int \<Rightarrow> (int \<times> int) option" where
  "extents old nw scan pos lastscan lastpos =
     do {
       lenf \<leftarrow> forward_loop old nw lastpos lastscan (nat (min (scan - lastscan) (int (length old) - lastpos))) 0 0 0 0;
       lenb \<leftarrow> (if scan < int (length nw) then backward_loop old nw pos scan (nat (min (scan - lastscan) pos)) 1 0 0 0 else Some 0);
       if lastscan + lenf > scan - lenb then do {
         let overlap = (lastscan + lenf) - (scan - lenb);
         lens \<leftarrow> overlap_loop old nw (lastscan + lenf - overlap) (lastpos + lenf - overlap) (scan - lenb) (pos - lenb) (nat overlap) 0 0 0 0;
         Some (lenf + lens - overlap, lenb - lens)
       }
       else Some (lenf, lenb)
     }"

primrec diff_bytes :: "bytes \<Rightarrow> bytes \<Rightarrow> int \<Rightarrow> int \<Rightarrow> nat \<Rightarrow> bytes option" where
  "diff_bytes old nw lastpos lastscan 0 = Some []"
| "diff_bytes old nw lastpos lastscan (Suc n) =
     do { x \<leftarrow> rd nw lastscan; y \<leftarrow> rd old lastpos; ds \<leftarrow> diff_bytes old nw (lastpos + 1) (lastscan + 1) n; Some ((x - y) # ds) }"

primrec extra_bytes :: "bytes \<Rightarrow> int \<Rightarrow> nat \<Rightarrow> bytes option" where
  "extra_bytes nw p 0 = Some []"
| "extra_bytes nw p (Suc n) = do { x \<leftarrow> rd nw p; es \<leftarrow> extra_bytes nw (p + 1) n; Some (x # es) }"

record diff_state =
  ds_scan :: int
  ds_len :: int
  ds_pos :: int
  ds_lastscan :: int
  ds_lastpos :: int
  ds_lastoffset :: int
  ctrl :: bytes
  db :: bytes
  eb :: bytes

definition emit :: "bytes \<Rightarrow> bytes \<Rightarrow> diff_state \<Rightarrow> diff_state option" where
  "emit old nw s =
     do {
       (lenf, lenb) \<leftarrow> extents old nw (ds_scan s) (ds_pos s) (ds_lastscan s) (ds_lastpos s);
       let n = (ds_scan s - lenb) - (ds_lastscan s + lenf);
       d \<leftarrow> diff_bytes old nw (ds_lastpos s) (ds_lastscan s) (nat lenf);
       e \<leftarrow> extra_bytes nw (ds_lastscan s + lenf) (nat n);
       Some (s\<lparr>ctrl := ctrl s @ offtout lenf @ offtout n @ offtout ((ds_pos s - lenb) - (ds_lastpos s + lenf)),
         db := db s @ d, eb := eb s @ e,
         ds_lastscan := ds_scan s - lenb, ds_lastpos := ds_pos s - lenb, ds_lastoffset := ds_pos s - ds_scan s\<rparr>)
     }"

definition diff_round :: "int list \<Rightarrow> bytes \<Rightarrow> bytes \<Rightarrow> diff_state \<Rightarrow> diff_state option" where
  "diff_round I old nw s =
     do {
       let start = ds_scan s + ds_len s;
       (sc, len, oldscore, pos) \<leftarrow> scan_loop I old nw (ds_lastoffset s) (nat (int (length nw) - start)) start start 0 (ds_len s) (ds_pos s);
       let s = s\<lparr>ds_scan := sc, ds_len := len, ds_pos := pos\<rparr>;
       if len \<noteq> oldscore \<or> sc = int (length nw) then emit old nw s else Some s
     }"

partial_function (option) diff_loop :: "int list \<Rightarrow> bytes \<Rightarrow> bytes \<Rightarrow> diff_state \<Rightarrow> diff_state option" where
  "diff_loop I old nw s =
     (if ds_scan s < int (length nw) then do { s \<leftarrow> diff_round I old nw s; diff_loop I old nw s } else Some s)"

declare diff_loop.simps [code]

definition diff_start :: "int \<Rightarrow> diff_state" where
  "diff_start pos = \<lparr>ds_scan = 0, ds_len = 0, ds_pos = pos, ds_lastscan = 0, ds_lastpos = 0, ds_lastoffset = 0, ctrl = [], db = [], eb = []\<rparr>"

text \<open>
  The whole program.  The two arrays and \<^verbatim>\<open>pos\<close> start with arbitrary content.  The compressor is a parameter.  The header is written
  first with zeros and again at the end with the lengths.  The size of the index arrays in bytes wraps around when it reaches
  \<open>2 ^ 32\<close>, and they are then too small.
\<close>

definition bsdiff_write :: "(bytes \<Rightarrow> bytes) \<Rightarrow> bytes \<Rightarrow> diff_state \<Rightarrow> int \<times> bytes" where
  "bsdiff_write bzip nw s =
     (let header = bsdiff_magic @ offtout 0 @ offtout 0 @ offtout (int (length nw));
          pf = fwrite (bzip (ctrl s)) (fwrite header (sopen []));
          len = ftell pf
      in if len = -1 then (1, sdata pf)
         else
           let header = take 8 header @ offtout (len - 32) @ drop 16 header;
               pf = fwrite (bzip (db s)) pf;
               newsize = ftell pf
           in if newsize = -1 then (1, sdata pf)
              else
                let header = take 16 header @ offtout (newsize - len) @ drop 24 header;
                    pf = fwrite (bzip (eb s)) pf;
                    (_, pf) = fseek_set 0 pf;
                    pf = fwrite header pf
                in (0, sdata pf))"

definition bsdiff_perform ::
    "(bytes \<Rightarrow> bytes) \<Rightarrow> (nat \<Rightarrow> int) \<Rightarrow> string \<Rightarrow> string \<Rightarrow> string \<Rightarrow> fsys \<Rightarrow> fsys outcome" where
  "bsdiff_perform bzip junk oldfile newfile patchfile fs =
     (case content fs oldfile of
        None \<Rightarrow> Returned 1 fs
      | Some old \<Rightarrow>
          if length old \<ge> 2 ^ 31 then Returned 1 fs
          else if 4 * (length old + 1) \<ge> 2 ^ 32 then Undefined
          else
            (let n = length old + 1 in
             case qsufsort (map junk [0..<n]) (map junk [n..<2 * n]) old of
               None \<Rightarrow> Undefined
             | Some I \<Rightarrow>
                 (case content fs newfile of
                    None \<Rightarrow> Returned 1 fs
                  | Some nw \<Rightarrow>
                      if length nw \<ge> 2 ^ 31 \<or> \<not> writable fs patchfile then Returned 1 fs
                      else (case diff_loop I old nw (diff_start (junk (2 * n))) of
                          None \<Rightarrow> Undefined
                        | Some s \<Rightarrow> (case bsdiff_write bzip nw s of (r, d) \<Rightarrow> Returned r (put_file patchfile d fs))))))"

section \<open>The search finds a match\<close>

lemma rd_in: "0 \<le> k \<Longrightarrow> k < int (length xs) \<Longrightarrow> rd xs k = Some (xs ! nat k)"
  by (simp add: rd_def)

text \<open>An index array: as many entries as the old file has suffixes, each a position of the old file.\<close>

definition index_ok :: "bytes \<Rightarrow> int list \<Rightarrow> bool" where
  "index_ok old I \<longleftrightarrow> length I = length old + 1 \<and> (\<forall>p\<in>set I. 0 \<le> p \<and> p \<le> int (length old))"

lemma suffix_at_in:
  assumes "index_ok old I" "0 \<le> k" "k \<le> int (length old)"
  obtains p where "suffix_at I old k = Some (p, drop (nat p) old)" "0 \<le> p" "p \<le> int (length old)"
proof -
  have k: "nat k < length I" "k < int (length I)" using assms by (auto simp: index_ok_def)
  then have "I ! nat k \<in> set I" by simp
  then have "0 \<le> I ! nat k" "I ! nat k \<le> int (length old)" using assms(1) unfolding index_ok_def by blast+
  then show ?thesis using that k(2) assms(2) by (simp add: suffix_at_def rd_in)
qed

lemma matchlen_bounds: "0 \<le> matchlen a b \<and> matchlen a b \<le> int (length a) \<and> matchlen a b \<le> int (length b)"
  by (induction a b rule: matchlen.induct) auto

text \<open>Whatever the order of the index array, the search ends and reports a position of the old file and how far it matches.\<close>

lemma search_returns:
  assumes "index_ok old I" "0 \<le> st" "st \<le> en" "en \<le> int (length old)"
  shows "\<exists>len pos. search I old nw st en = Some (len, pos) \<and> 0 \<le> pos \<and> pos \<le> int (length old) \<and> len = matchlen (drop (nat pos) old) nw"
  using assms
proof (induction "nat (en - st)" arbitrary: st en rule: less_induct)
  case less
  show ?case
  proof (cases "en - st < 2")
    case True
    obtain p where "suffix_at I old st = Some (p, drop (nat p) old)" "0 \<le> p" "p \<le> int (length old)"
      using suffix_at_in [of old I st] less.prems by auto
    moreover obtain q where "suffix_at I old en = Some (q, drop (nat q) old)" "0 \<le> q" "q \<le> int (length old)"
      using suffix_at_in [of old I en] less.prems by auto
    ultimately show ?thesis using True by (subst search.simps) (auto simp: Let_def)
  next
    case False
    let ?x = "st + (en - st) div 2"
    have x: "st < ?x" "?x < en" using False by linarith+
    obtain p where p: "suffix_at I old ?x = Some (p, drop (nat p) old)" using suffix_at_in [of old I ?x] less.prems x by auto
    have "search I old nw st en = (if mem_less (drop (nat p) old) nw then search I old nw ?x en else search I old nw st ?x)"
      using False p by (subst search.simps) (simp add: Let_def)
    moreover have "nat (en - ?x) < nat (en - st)" "nat (?x - st) < nat (en - st)" using x by linarith+
    ultimately show ?thesis using less.hyps [of en ?x] less.hyps [of ?x st] less.prems x by auto
  qed
qed

corollary search_match:
  assumes "index_ok old I"
  obtains len pos where "search I old nw 0 (int (length old)) = Some (len, pos)" "0 \<le> len" "len \<le> int (length nw)" "0 \<le> pos" "pos \<le> int (length old)"
proof -
  obtain len pos where "search I old nw 0 (int (length old)) = Some (len, pos)" "0 \<le> pos" "pos \<le> int (length old)" "len = matchlen (drop (nat pos) old) nw"
    using search_returns [OF assms, of 0 "int (length old)" nw] by auto
  then show ?thesis using that matchlen_bounds [of "drop (nat pos) old" nw] by auto
qed

section \<open>The scan stays inside the files\<close>

lemma eq_at_in:
  "0 \<le> a \<Longrightarrow> a < int (length old) \<Longrightarrow> 0 \<le> b \<Longrightarrow> b < int (length nw) \<Longrightarrow> eq_at old nw a b = Some (old ! nat a = nw ! nat b)"
  by (simp add: eq_at_def rd_in)

definition hits :: "bytes \<Rightarrow> bytes \<Rightarrow> int \<Rightarrow> int \<Rightarrow> bool" where
  "hits old nw lastoffset k \<longleftrightarrow> k + lastoffset < int (length old) \<and> old ! nat (k + lastoffset) = nw ! nat k"

lemma same_at_in:
  "0 \<le> k \<Longrightarrow> 0 \<le> k + lastoffset \<Longrightarrow> k < int (length nw) \<Longrightarrow> same_at old nw lastoffset k = Some (hits old nw lastoffset k)"
  by (simp add: same_at_def hits_def eq_at_in)

text \<open>How many bytes from \<open>a\<close> up to \<open>b\<close> the last offset explains; negative when \<open>b\<close> lies before \<open>a\<close>.\<close>

definition hit_count :: "bytes \<Rightarrow> bytes \<Rightarrow> int \<Rightarrow> int \<Rightarrow> int" where
  "hit_count old nw lastoffset b = int (card {k. 0 \<le> k \<and> k < b \<and> hits old nw lastoffset k})"

lemma hit_count_mono: "a \<le> b \<Longrightarrow> hit_count old nw lo a \<le> hit_count old nw lo b"
proof -
  assume "a \<le> b"
  then have "{k. 0 \<le> k \<and> k < a \<and> hits old nw lo k} \<subseteq> {k. 0 \<le> k \<and> k < b \<and> hits old nw lo k}" by auto
  moreover have "finite {k. 0 \<le> k \<and> k < b \<and> hits old nw lo k}" by (rule finite_subset [of _ "{0..b}"]) auto
  ultimately show ?thesis by (simp add: hit_count_def card_mono)
qed

lemma hit_count_Suc: "0 \<le> b \<Longrightarrow> hit_count old nw lo (b + 1) = hit_count old nw lo b + (if hits old nw lo b then 1 else 0)"
proof -
  assume b: "0 \<le> b"
  let ?A = "{k. 0 \<le> k \<and> k < b \<and> hits old nw lo k}"
  have f: "finite ?A" by (rule finite_subset [of _ "{0..b}"]) auto
  have "{k. 0 \<le> k \<and> k < b + 1 \<and> hits old nw lo k} = (if hits old nw lo b then insert b ?A else ?A)" using b by (auto simp: order_le_less)
  then show ?thesis using f by (simp add: hit_count_def)
qed

lemma score_loop_counts:
  assumes "0 \<le> scsc" "0 \<le> scsc + lo" "scsc + int n \<le> int (length nw)"
  shows "score_loop old nw lo n scsc sc = Some (sc + hit_count old nw lo (scsc + int n) - hit_count old nw lo scsc)"
  using assms
proof (induction n arbitrary: scsc sc)
  case (Suc n)
  then have "same_at old nw lo scsc = Some (hits old nw lo scsc)" by (intro same_at_in) auto
  then show ?case using Suc.IH [of "scsc + 1"] Suc.prems hit_count_Suc [of scsc old nw lo] by (simp add: add.assoc)
qed simp

text \<open>
  The inner loop ends at the end of the new file or with a match of at least one byte, since the score is not negative
  when it is tested.
\<close>

lemma scan_loop_ends:
  assumes "index_ok old I" "0 \<le> scan" "scan + int n = int (length nw)" "0 \<le> scsc" "scsc \<le> int (length nw)" "0 \<le> scsc + lo" "0 \<le> scan + lo"
    and "sc = hit_count old nw lo scsc - hit_count old nw lo scan"
    and "n = 0 \<Longrightarrow> 0 \<le> pos \<and> pos \<le> int (length old)"
  shows "\<exists>scan' len' sc' pos'. scan_loop I old nw lo n scan scsc sc len pos = Some (scan', len', sc', pos')
    \<and> scan \<le> scan' \<and> 0 \<le> pos' \<and> pos' \<le> int (length old)
    \<and> (scan' = int (length nw) \<or> 0 < len' \<and> scan' + len' \<le> int (length nw))"
  using assms(2-)
proof (induction n arbitrary: scan scsc sc len pos)
  case (Suc n)
  obtain l p where s: "search I old (drop (nat scan) nw) 0 (int (length old)) = Some (l, p)" "0 \<le> l" "l \<le> int (length (drop (nat scan) nw))"
    "0 \<le> p" "p \<le> int (length old)" using search_match [OF assms(1)] by blast
  have l: "scan + l \<le> int (length nw)" using s(3) Suc.prems by simp
  let ?scsc = "max scsc (scan + l)"
  have e: "scsc + int (nat (scan + l - scsc)) = ?scsc" by simp
  have "score_loop old nw lo (nat (scan + l - scsc)) scsc sc = Some (hit_count old nw lo ?scsc - hit_count old nw lo scan)"
    using score_loop_counts [of scsc lo "nat (scan + l - scsc)" nw old sc] Suc.prems l by (simp add: e)
  moreover define osc where "osc = hit_count old nw lo ?scsc - hit_count old nw lo scan"
  moreover have "0 \<le> osc" using hit_count_mono [of scan ?scsc old nw lo] s(2) by (simp add: osc_def)
  ultimately have score: "score_loop old nw lo (nat (scan + l - scsc)) scsc sc = Some osc" "0 \<le> osc" by simp_all
  show ?case
  proof (cases "l = osc \<and> l \<noteq> 0 \<or> l > osc + 8")
    case True
    then have "0 < l" using s(2) score(2) by auto
    then show ?thesis using True s score l Suc.prems by (simp add: Let_def)
  next
    case False
    have "same_at old nw lo scan = Some (hits old nw lo scan)" using Suc.prems by (intro same_at_in) auto
    then have step: "scan_loop I old nw lo (Suc n) scan scsc sc len pos =
        scan_loop I old nw lo n (scan + 1) ?scsc (if hits old nw lo scan then osc - 1 else osc) l p"
      using False s(1) score by (auto simp: Let_def)
    have "(if hits old nw lo scan then osc - 1 else osc) = hit_count old nw lo ?scsc - hit_count old nw lo (scan + 1)"
      using Suc.prems by (simp add: hit_count_Suc osc_def)
    then show ?thesis unfolding step
      using Suc.IH [of "scan + 1" ?scsc "if hits old nw lo scan then osc - 1 else osc" p l] Suc.prems s l by fastforce
  qed
qed auto

section \<open>One control triple\<close>

lemma forward_loop_in:
  assumes "0 \<le> lastpos" "0 \<le> lastscan" "0 \<le> i" "lastpos + i + int n \<le> int (length old)" "lastscan + i + int n \<le> int (length nw)" "0 \<le> lenf" "lenf \<le> i"
  shows "\<exists>r. forward_loop old nw lastpos lastscan n i s Sf lenf = Some r \<and> 0 \<le> r \<and> r \<le> i + int n"
  using assms
proof (induction n arbitrary: i s Sf lenf)
  case (Suc n)
  have "eq_at old nw (lastpos + i) (lastscan + i) = Some (old ! nat (lastpos + i) = nw ! nat (lastscan + i))" using Suc.prems by (intro eq_at_in) auto
  moreover have "\<exists>r. forward_loop old nw lastpos lastscan n (i + 1) s' Sf' lenf' = Some r \<and> 0 \<le> r \<and> r \<le> i + 1 + int n" if "0 \<le> lenf'" "lenf' \<le> i + 1" for s' Sf' lenf'
    using Suc.prems that by (intro Suc.IH) auto
  ultimately show ?case using Suc.prems by (simp add: Let_def add.assoc)
qed simp

lemma backward_loop_in:
  assumes "0 < i" "0 \<le> lenb" "lenb < i" "i + int n - 1 \<le> pos" "i + int n - 1 \<le> scan" "pos \<le> int (length old)" "scan \<le> int (length nw)"
  shows "\<exists>r. backward_loop old nw pos scan n i s Sb lenb = Some r \<and> 0 \<le> r \<and> r < i + int n"
  using assms
proof (induction n arbitrary: i s Sb lenb)
  case (Suc n)
  have "eq_at old nw (pos - i) (scan - i) = Some (old ! nat (pos - i) = nw ! nat (scan - i))" using Suc.prems by (intro eq_at_in) auto
  moreover have "\<exists>r. backward_loop old nw pos scan n (i + 1) s' Sb' lenb' = Some r \<and> 0 \<le> r \<and> r < i + 1 + int n" if "0 \<le> lenb'" "lenb' < i + 1" for s' Sb' lenb'
    using Suc.prems that by (intro Suc.IH) auto
  ultimately show ?case using Suc.prems by (simp add: Let_def add.assoc)
qed simp

lemma overlap_loop_in:
  assumes "0 \<le> i" "0 \<le> lens" "lens \<le> i" "0 \<le> a" "a + i + int n \<le> int (length nw)" "0 \<le> b" "b + i + int n \<le> int (length old)"
    and "0 \<le> c" "c + i + int n \<le> int (length nw)" "0 \<le> d" "d + i + int n \<le> int (length old)"
  shows "\<exists>r. overlap_loop old nw a b c d n i s Ss lens = Some r \<and> 0 \<le> r \<and> r \<le> i + int n"
  using assms
proof (induction n arbitrary: i s Ss lens)
  case (Suc n)
  have "eq_at old nw (b + i) (a + i) = Some (old ! nat (b + i) = nw ! nat (a + i))" "eq_at old nw (d + i) (c + i) = Some (old ! nat (d + i) = nw ! nat (c + i))"
    using Suc.prems by (auto intro!: eq_at_in)
  moreover have "\<exists>r. overlap_loop old nw a b c d n (i + 1) s' Ss' lens' = Some r \<and> 0 \<le> r \<and> r \<le> i + 1 + int n" if "0 \<le> lens'" "lens' \<le> i + 1" for s' Ss' lens'
    using Suc.prems that by (intro Suc.IH) auto
  ultimately show ?case using Suc.prems by (simp add: Let_def add.assoc)
qed simp

text \<open>What is taken from the last match and from the new one lies in both files and does not overlap.\<close>

lemma extents_in:
  assumes "0 \<le> lastscan" "lastscan \<le> scan" "scan \<le> int (length nw)" "0 \<le> lastpos" "lastpos \<le> int (length old)" "0 \<le> pos" "pos \<le> int (length old)"
  shows "\<exists>lenf lenb. extents old nw scan pos lastscan lastpos = Some (lenf, lenb) \<and> 0 \<le> lenf \<and> 0 \<le> lenb \<and> lastpos + lenf \<le> int (length old)
    \<and> lenb \<le> pos \<and> lastscan + lenf \<le> scan - lenb \<and> (scan = int (length nw) \<longrightarrow> lenb = 0)"
proof -
  let ?nf = "nat (min (scan - lastscan) (int (length old) - lastpos))" and ?nb = "nat (min (scan - lastscan) pos)"
  obtain lenf where f: "forward_loop old nw lastpos lastscan ?nf 0 0 0 0 = Some lenf" "0 \<le> lenf" "lenf \<le> scan - lastscan" "lastpos + lenf \<le> int (length old)"
  proof -
    have "int ?nf \<le> scan - lastscan" "int ?nf \<le> int (length old) - lastpos" using assms by auto
    then show ?thesis using forward_loop_in [of lastpos lastscan 0 ?nf old nw 0 0 0] assms that by fastforce
  qed
  obtain lenb where b: "(if scan < int (length nw) then backward_loop old nw pos scan ?nb 1 0 0 0 else Some 0) = Some lenb"
    "0 \<le> lenb" "lenb \<le> scan - lastscan" "lenb \<le> pos" "scan = int (length nw) \<longrightarrow> lenb = 0"
  proof (cases "scan < int (length nw)")
    case True
    have "int ?nb \<le> scan - lastscan" "int ?nb \<le> pos" using assms by auto
    then show ?thesis using backward_loop_in [of 1 0 ?nb pos scan old nw 0 0] assms True that by fastforce
  qed (use assms that in auto)
  show ?thesis
  proof (cases "lastscan + lenf > scan - lenb")
    case False
    then show ?thesis using f b by (simp add: extents_def)
  next
    case True
    let ?o = "lastscan + lenf - (scan - lenb)"
    obtain lens where "overlap_loop old nw (lastscan + lenf - ?o) (lastpos + lenf - ?o) (scan - lenb) (pos - lenb) (nat ?o) 0 0 0 0 = Some lens" "0 \<le> lens" "lens \<le> ?o"
      using overlap_loop_in [of 0 0 "lastscan + lenf - ?o" "nat ?o" nw "lastpos + lenf - ?o" old "scan - lenb" "pos - lenb" 0 0] assms f b True by auto
    then show ?thesis using True f b by (auto simp: extents_def Let_def)
  qed
qed

lemma add_old_Cons:
  "0 \<le> pos \<Longrightarrow> pos < int (length old) \<Longrightarrow> add_old old pos (x # d) = (x + old ! nat pos) # add_old old (pos + 1) d"
  by (simp add: add_old_def upt_conv_Cons map_Suc_upt [symmetric] algebra_simps del: upt_Suc)

lemma diff_bytes_in:
  assumes "0 \<le> lastpos" "lastpos + int n \<le> int (length old)" "0 \<le> lastscan" "lastscan + int n \<le> int (length nw)"
  shows "\<exists>d. diff_bytes old nw lastpos lastscan n = Some d \<and> length d = n \<and> add_old old lastpos d = take n (drop (nat lastscan) nw)"
  using assms
proof (induction n arbitrary: lastpos lastscan)
  case (Suc n)
  obtain d where d: "diff_bytes old nw (lastpos + 1) (lastscan + 1) n = Some d" "length d = n" "add_old old (lastpos + 1) d = take n (drop (nat (lastscan + 1)) nw)"
    using Suc.IH [of "lastpos + 1" "lastscan + 1"] Suc.prems by auto
  have "rd nw lastscan = Some (nw ! nat lastscan)" "rd old lastpos = Some (old ! nat lastpos)" using Suc.prems by (auto intro: rd_in)
  moreover have "drop (nat lastscan) nw = nw ! nat lastscan # drop (nat (lastscan + 1)) nw"
    using Suc.prems by (simp add: nat_add_distrib Cons_nth_drop_Suc)
  ultimately show ?case using d Suc.prems by (simp add: add_old_Cons)
qed (simp add: add_old_def)

lemma extra_bytes_in: "0 \<le> p \<Longrightarrow> p + int n \<le> int (length nw) \<Longrightarrow> extra_bytes nw p n = Some (take n (drop (nat p) nw))"
proof (induction n arbitrary: p)
  case (Suc n)
  have "drop (nat p) nw = nw ! nat p # drop (nat (p + 1)) nw" using Suc.prems by (simp add: nat_add_distrib Cons_nth_drop_Suc)
  then show ?case using Suc.IH [of "p + 1"] Suc.prems by (simp add: rd_in)
qed simp

section \<open>The scan describes the new file\<close>

fun bs_end :: "int \<Rightarrow> bs_triple list \<Rightarrow> int" where
  "bs_end pos [] = pos"
| "bs_end pos ((d, e, z) # ts) = bs_end (pos + int (length d) + z) ts"

lemma bs_build_append: "bs_build old pos (ts @ us) = bs_build old pos ts @ bs_build old (bs_end pos ts) us"
  by (induction old pos ts rule: bs_build.induct) simp_all

lemma bs_fits_append: "bs_fits pos (ts @ us) \<longleftrightarrow> bs_fits pos ts \<and> bs_fits (bs_end pos ts) us"
  by (induction pos ts rule: bs_fits.induct) auto

lemma bs_end_append: "bs_end pos (ts @ us) = bs_end (bs_end pos ts) us"
  by (induction pos ts rule: bs_end.induct) simp_all

text \<open>The three buffers hold the triples emitted so far, and these describe the new file up to \<^verbatim>\<open>lastscan\<close>.\<close>

definition emitted :: "bytes \<Rightarrow> bytes \<Rightarrow> bs_triple list \<Rightarrow> diff_state \<Rightarrow> bool" where
  "emitted old nw ts s \<longleftrightarrow>
     ctrl s = concat (map ctrl_bytes ts) \<and> db s = concat (map fst ts) \<and> eb s = concat (map (\<lambda>t. fst (snd t)) ts)
     \<and> bs_fits 0 ts \<and> bs_end 0 ts = ds_lastpos s \<and> bs_build old 0 ts = take (nat (ds_lastscan s)) nw
     \<and> 0 \<le> ds_lastscan s \<and> ds_lastscan s \<le> ds_scan s \<and> 0 \<le> ds_lastpos s \<and> ds_lastpos s \<le> int (length old) \<and> 0 \<le> ds_scan s + ds_lastoffset s"

lemma emit_emits:
  assumes "emitted old nw ts s" "ds_scan s \<le> int (length nw)" "0 \<le> ds_pos s" "ds_pos s \<le> int (length old)" "length old < 2 ^ 31"
  shows "\<exists>s' t. emit old nw s = Some s' \<and> emitted old nw (ts @ [t]) s' \<and> ds_scan s' = ds_scan s \<and> ds_len s' = ds_len s \<and> ds_pos s' = ds_pos s
    \<and> (ds_scan s = int (length nw) \<longrightarrow> ds_lastscan s' = int (length nw))"
proof -
  have inv: "bs_fits 0 ts" "bs_end 0 ts = ds_lastpos s" "bs_build old 0 ts = take (nat (ds_lastscan s)) nw" "0 \<le> ds_lastscan s"
    "ds_lastscan s \<le> ds_scan s" "0 \<le> ds_lastpos s" "ds_lastpos s \<le> int (length old)"
    "ctrl s = concat (map ctrl_bytes ts)" "db s = concat (map fst ts)" "eb s = concat (map (\<lambda>t. fst (snd t)) ts)"
    using assms(1) by (simp_all add: emitted_def)
  obtain lenf lenb where x: "extents old nw (ds_scan s) (ds_pos s) (ds_lastscan s) (ds_lastpos s) = Some (lenf, lenb)" "0 \<le> lenf" "0 \<le> lenb"
    "ds_lastpos s + lenf \<le> int (length old)" "lenb \<le> ds_pos s" "ds_lastscan s + lenf \<le> ds_scan s - lenb" "ds_scan s = int (length nw) \<longrightarrow> lenb = 0"
    using extents_in [OF inv(4,5) assms(2) inv(6,7) assms(3,4)] by blast
  define n where "n = (ds_scan s - lenb) - (ds_lastscan s + lenf)"
  define z where "z = (ds_pos s - lenb) - (ds_lastpos s + lenf)"
  have n: "0 \<le> n" "ds_lastscan s + lenf + n = ds_scan s - lenb" using x by (simp_all add: n_def)
  obtain d where d: "diff_bytes old nw (ds_lastpos s) (ds_lastscan s) (nat lenf) = Some d" "length d = nat lenf"
    "add_old old (ds_lastpos s) d = take (nat lenf) (drop (nat (ds_lastscan s)) nw)"
    using diff_bytes_in [of "ds_lastpos s" "nat lenf" old "ds_lastscan s" nw] inv x assms(2) by auto
  define e where "e = take (nat n) (drop (nat (ds_lastscan s + lenf)) nw)"
  have e: "extra_bytes nw (ds_lastscan s + lenf) (nat n) = Some e" "length e = nat n"
    using extra_bytes_in [of "ds_lastscan s + lenf" "nat n" nw] inv x n assms(2) by (simp_all add: e_def)
  let ?s = "s\<lparr>ctrl := ctrl s @ offtout lenf @ offtout n @ offtout z, db := db s @ d, eb := eb s @ e,
     ds_lastscan := ds_scan s - lenb, ds_lastpos := ds_pos s - lenb, ds_lastoffset := ds_pos s - ds_scan s\<rparr>"
  have "emit old nw s = Some ?s" using x(1) d(1) e(1) by (simp add: emit_def Let_def n_def z_def)
  moreover have "take (nat (ds_lastscan s)) nw @ take (nat lenf) (drop (nat (ds_lastscan s)) nw) @ e = take (nat (ds_scan s - lenb)) nw"
  proof -
    have "nat (ds_scan s - lenb) = nat (ds_lastscan s) + nat lenf + nat n" "nat (ds_lastscan s + lenf) = nat (ds_lastscan s) + nat lenf"
      using inv(4) x(2) n by linarith+
    then show ?thesis by (simp add: e_def take_add)
  qed
  then have "bs_build old 0 (ts @ [(d, e, z)]) = take (nat (ds_scan s - lenb)) nw" by (simp add: bs_build_append inv(2,3) d(3))
  moreover have "bs_fits 0 (ts @ [(d, e, z)])" using inv x d(2) assms(3,4,5) by (auto simp: bs_fits_append fits32_def z_def)
  ultimately have "emitted old nw (ts @ [(d, e, z)]) ?s"
    using inv x d(2) e(2) n(1) assms(3,4) by (simp add: emitted_def bs_end_append z_def)
  then show ?thesis using \<open>emit old nw s = Some ?s\<close> x(7) by (intro exI [of _ ?s] exI [of _ "(d, e, z)"]) simp
qed

definition diff_inv :: "bytes \<Rightarrow> bytes \<Rightarrow> diff_state \<Rightarrow> bool" where
  "diff_inv old nw s \<longleftrightarrow> (\<exists>ts. emitted old nw ts s)
     \<and> (if ds_scan s = int (length nw) then ds_lastscan s = int (length nw)
        else 0 \<le> ds_len s \<and> ds_scan s + ds_len s \<le> int (length nw)
          \<and> (ds_scan s + ds_len s = int (length nw) \<longrightarrow> 0 \<le> ds_pos s \<and> ds_pos s \<le> int (length old)))"

text \<open>One round of the outer loop keeps the invariant and gets on.\<close>

definition diff_left :: "bytes \<Rightarrow> diff_state \<Rightarrow> nat" where
  "diff_left nw s = (if ds_scan s = int (length nw) then 0 else Suc (nat (int (length nw) - (ds_scan s + ds_len s))))"

lemma diff_round_keeps:
  assumes "index_ok old I" "diff_inv old nw s" "ds_scan s < int (length nw)" "length old < 2 ^ 31"
  shows "\<exists>s'. diff_round I old nw s = Some s' \<and> diff_inv old nw s' \<and> diff_left nw s' < diff_left nw s"
proof -
  obtain ts where ts: "emitted old nw ts s" using assms(2) by (auto simp: diff_inv_def)
  let ?b = "ds_scan s + ds_len s"
  have st: "0 \<le> ds_len s" "?b \<le> int (length nw)" "?b = int (length nw) \<Longrightarrow> 0 \<le> ds_pos s \<and> ds_pos s \<le> int (length old)"
    using assms(2,3) by (auto simp: diff_inv_def)
  have lo: "0 \<le> ds_scan s" "0 \<le> ds_scan s + ds_lastoffset s" using ts by (auto simp: emitted_def)
  obtain sc len osc pos where r: "scan_loop I old nw (ds_lastoffset s) (nat (int (length nw) - ?b)) ?b ?b 0 (ds_len s) (ds_pos s) = Some (sc, len, osc, pos)"
    "?b \<le> sc" "0 \<le> pos" "pos \<le> int (length old)" "sc = int (length nw) \<or> 0 < len \<and> sc + len \<le> int (length nw)"
    using scan_loop_ends [OF assms(1), of ?b "nat (int (length nw) - ?b)" nw ?b "ds_lastoffset s" 0 "ds_pos s" "ds_len s"] st lo by auto
  let ?s = "s\<lparr>ds_scan := sc, ds_len := len, ds_pos := pos\<rparr>"
  have e: "emitted old nw ts ?s" using ts st(1) r(2) by (auto simp: emitted_def)
  have round: "diff_round I old nw s = (if len \<noteq> osc \<or> sc = int (length nw) then emit old nw ?s else Some ?s)"
    using r(1) by (simp add: diff_round_def Let_def)
  have left: "diff_left nw ?s < diff_left nw s" using assms(3) st r by (auto simp: diff_left_def)
  show ?thesis
  proof (cases "len \<noteq> osc \<or> sc = int (length nw)")
    case False
    then show ?thesis using round e left r by (auto simp: diff_inv_def)
  next
    case True
    obtain s' t where s': "emit old nw ?s = Some s'" "emitted old nw (ts @ [t]) s'" "ds_scan s' = sc" "ds_len s' = len"
      "sc = int (length nw) \<longrightarrow> ds_lastscan s' = int (length nw)" "ds_pos s' = pos"
      using emit_emits [OF e _ _ _ assms(4)] r(2-5) st by fastforce
    then show ?thesis using round left True r by (auto simp: diff_inv_def diff_left_def)
  qed
qed

text \<open>The outer loop ends for every index array of positions, and the buffers then describe the whole new file.\<close>

lemma diff_loop_describes:
  assumes "index_ok old I" "diff_inv old nw s" "length old < 2 ^ 31"
  shows "\<exists>s' ts. diff_loop I old nw s = Some s' \<and> emitted old nw ts s' \<and> bs_build old 0 ts = nw"
  using assms(2)
proof (induction "diff_left nw s" arbitrary: s rule: less_induct)
  case less
  show ?case
  proof (cases "ds_scan s < int (length nw)")
    case True
    then obtain s1 where s1: "diff_round I old nw s = Some s1" "diff_inv old nw s1" "diff_left nw s1 < diff_left nw s"
      using diff_round_keeps [OF assms(1) less.prems True assms(3)] by blast
    then show ?thesis using less.hyps [OF s1(3,2)] True by (subst diff_loop.simps) simp
  next
    case False
    then have "ds_scan s = int (length nw)" "ds_lastscan s = int (length nw)" using less.prems by (auto simp: diff_inv_def split: if_splits)
    moreover obtain ts where "emitted old nw ts s" using less.prems by (auto simp: diff_inv_def)
    ultimately show ?thesis using False by (subst diff_loop.simps) (auto simp: emitted_def)
  qed
qed

lemma diff_start_inv: "diff_inv old nw (diff_start pos)"
  by (auto simp: diff_inv_def diff_start_def emitted_def intro!: exI [of _ "[]"])

section \<open>The patch file\<close>

lemma bsdiff_write_patch:
  assumes "emitted old nw ts s" "bsdiff_write bzip nw s = (r, d)"
  shows "if r = 0 then d = bs_patch bzip (int (length nw)) ts \<and> 32 + length (bzip (concat (map ctrl_bytes ts))) + length (bzip (concat (map fst ts))) < 2 ^ 31
    else r = 1 \<and> 2 ^ 31 \<le> length d"
proof -
  let ?c = "bzip (concat (map ctrl_bytes ts))" and ?d = "bzip (concat (map fst ts))" and ?e = "bzip (concat (map (\<lambda>t. fst (snd t)) ts))"
  have b: "ctrl s = concat (map ctrl_bytes ts)" "db s = concat (map fst ts)" "eb s = concat (map (\<lambda>t. fst (snd t)) ts)"
    using assms(1) by (simp_all add: emitted_def)
  have l: "length bsdiff_magic = 8" by (simp add: bsdiff_magic_def)
  have s0: "spos (sopen []) = 0" "sdata (sopen []) = []" by (simp_all add: sopen_def)
  have o: "overwrite 0 x [] = x" for x by (simp add: overwrite_def)
  have "overwrite 0 (bsdiff_magic @ x) (bsdiff_magic @ y @ z) = bsdiff_magic @ x @ z" if "length x = length y" for x y z
    using that by (auto simp: overwrite_def l)
  from this [of "offtout a @ offtout b @ offtout c" "offtout 0 @ offtout 0 @ offtout c" z for a b c z]
  have w: "overwrite 0 (bsdiff_magic @ offtout a @ offtout b @ offtout c) (bsdiff_magic @ offtout 0 @ offtout 0 @ offtout c @ z)
    = bsdiff_magic @ offtout a @ offtout b @ offtout c @ z" for a b c z by simp
  note run = assms(2) [unfolded bsdiff_write_def Let_def]
  consider "2 ^ 31 \<le> 32 + length ?c" | "32 + length ?c < 2 ^ 31" "2 ^ 31 \<le> 32 + length ?c + length ?d" | "32 + length ?c + length ?d < 2 ^ 31" by linarith
  then show ?thesis
  proof cases
    case 1
    then have "r = 1 \<and> length d = 32 + length ?c" using run by (auto simp: b l ftell_def s0 o stdio_simps)
    then show ?thesis using 1 by simp
  next
    case 2
    then have "r = 1 \<and> length d = 32 + length ?c + length ?d" using run by (auto simp: b l ftell_def s0 o stdio_simps)
    then show ?thesis using 2 by simp
  next
    case 3
    then have "r = 0 \<and> d = bs_patch bzip (int (length nw)) ts" using run by (auto simp: b bs_patch_def l ftell_def s0 o w stdio_simps)
    then show ?thesis using 3 by simp
  qed
qed

lemma suffix_array_index: "suffix_array old I \<Longrightarrow> index_ok old I"
  by (auto simp: suffix_array_def index_ok_def)

lemma bsdiff_makes:
  assumes "content fs oldf = Some old" "content fs newf = Some nw" "writable fs patchf" "length old < 2 ^ 30 - 1" "length nw < 2 ^ 31"
  obtains ts r p where "bs_build old 0 ts = nw" "bs_fits 0 ts" "bsdiff_perform bzip junk oldf newf patchf fs = Returned r (put_file patchf p fs)"
    "if r = 0 then p = bs_patch bzip (int (length nw)) ts \<and> 32 + length (bzip (concat (map ctrl_bytes ts))) + length (bzip (concat (map fst ts))) < 2 ^ 31
     else r = 1 \<and> 2 ^ 31 \<le> length p"
proof -
  let ?n = "length old + 1"
  obtain I where I: "qsufsort (map junk [0..<?n]) (map junk [?n..<2 * ?n]) old = Some I" "suffix_array old I"
  proof -
    have "length (map junk [0..<?n]) = ?n" "length (map junk [?n..<2 * ?n]) = ?n" by (simp_all del: upt_Suc)
    then show ?thesis using qsufsort_sorts that by blast
  qed
  have "length old < 2 ^ 31" using assms(4) by simp
  from diff_loop_describes [OF suffix_array_index [OF I(2)] diff_start_inv this, of nw "junk (2 * ?n)"] obtain s ts where
    s: "diff_loop I old nw (diff_start (junk (2 * ?n))) = Some s" "emitted old nw ts s" "bs_build old 0 ts = nw" by blast
  obtain r p where w: "bsdiff_write bzip nw s = (r, p)" by (cases "bsdiff_write bzip nw s")
  have "bs_fits 0 ts" using s(2) by (simp add: emitted_def)
  moreover have "bsdiff_perform bzip junk oldf newf patchf fs = Returned r (put_file patchf p fs)"
    using assms I(1) s(1) w by (simp add: bsdiff_perform_def Let_def)
  ultimately show ?thesis using that [OF s(3)] bsdiff_write_patch [OF s(2) w] by blast
qed

text \<open>C9: making a patch from two files below 1 GB ends, whatever the memory held before, and changes only the patch file; unless the compressed
  streams reach 2 GB, which is reported as 1, the result is 0 and applying the patch to the old file gives exactly the
  new file, for every compressor that fits the decompressor.\<close>

theorem bsdiff_roundtrip:
  assumes "bz_codec bzip bunzip" "content fs oldf = Some old" "content fs newf = Some nw" "writable fs patchf" "writable fs out"
    and "oldf \<noteq> patchf" "oldf \<noteq> out" "patchf \<noteq> out" "length old < 2 ^ 30 - 1" "length nw < 2 ^ 30"
  shows "\<exists>r p. bsdiff_perform bzip junk oldf newf patchf fs = Returned r (put_file patchf p fs)
    \<and> (if r = 0 then bsdiffPatchRom bunzip oldf patchf out (put_file patchf p fs) = Returned 0 (put_file out nw (put_file patchf p fs))
       else r = 1 \<and> 2 ^ 31 \<le> length p)"
proof -
  have n: "length nw < 2 ^ 31" using assms(10) by simp
  obtain ts r p where m: "bs_build old 0 ts = nw" "bs_fits 0 ts" "bsdiff_perform bzip junk oldf newf patchf fs = Returned r (put_file patchf p fs)"
    "if r = 0 then p = bs_patch bzip (int (length nw)) ts \<and> 32 + length (bzip (concat (map ctrl_bytes ts))) + length (bzip (concat (map fst ts))) < 2 ^ 31
     else r = 1 \<and> 2 ^ 31 \<le> length p"
    by (rule bsdiff_makes [OF assms(2-4,9) n, where bzip = bzip and junk = junk]) (rule that)
  have "bsdiffPatchRom bunzip oldf patchf out (put_file patchf p fs) = Returned 0 (put_file out nw (put_file patchf p fs))" if "r = 0"
  proof -
    have "length old < 2 ^ 31" using assms(9) by simp
    then show ?thesis
      using bspatch_builds [of bzip bunzip "put_file patchf p fs" oldf old patchf ts out] assms(1-8) m(1,2,4) n that by (simp add: stdio_simps)
  qed
  then show ?thesis using m(3,4) by (intro exI [of _ r] exI [of _ p]) auto
qed

theorem bsdiff_roundtrip_witness:
  "\<exists>r p. bsdiff_perform esc (\<lambda>_. 7) ''old'' ''bs'' ''patch'' bs_files = Returned r (put_file ''patch'' p bs_files)
    \<and> (if r = 0 then bsdiffPatchRom unesc ''old'' ''patch'' ''out'' (put_file ''patch'' p bs_files)
         = Returned 0 (put_file ''out'' (bs_patch esc 3 bs_example) (put_file ''patch'' p bs_files))
       else r = 1 \<and> 2 ^ 31 \<le> length p)"
proof (rule bsdiff_roundtrip [OF esc_codec])
  show "length (bs_patch esc 3 bs_example) < 2 ^ 30"
    by (simp add: bs_patch_def Let_def bs_example_def length_esc bsdiff_magic_def del: esc.simps)
  have "length [5 :: byte, 6, 7] = 3" by simp
  then show "length [5 :: byte, 6, 7] < 2 ^ 30 - 1" by (simp only:) simp
qed (simp_all add: bs_files_def)

text \<open>with the sorted suffixes the search ends for every text and reports a position of the old file together with the length of the
  match there.\<close>

theorem search_correct:
  "\<exists>I len pos. qsufsort (map junk [0..<length old + 1]) (map junk' [0..<length old + 1]) old = Some I
    \<and> search I old nw 0 (int (length old)) = Some (len, pos)
    \<and> 0 \<le> pos \<and> 0 \<le> len \<and> pos + len \<le> int (length old) \<and> len \<le> int (length nw)
    \<and> take (nat len) (drop (nat pos) old) = take (nat len) nw"
proof -
  obtain I where I: "qsufsort (map junk [0..<length old + 1]) (map junk' [0..<length old + 1]) old = Some I" "suffix_array old I"
    using qsufsort_sorts [of "map junk [0..<length old + 1]" old "map junk' [0..<length old + 1]"] by auto
  obtain len pos where s: "search I old nw 0 (int (length old)) = Some (len, pos)" "0 \<le> pos" "pos \<le> int (length old)" "len = matchlen (drop (nat pos) old) nw"
    using search_returns [OF suffix_array_index [OF I(2)], of 0 "int (length old)" nw] by auto
  have "take (nat (matchlen a b)) a = take (nat (matchlen a b)) b" for a b
    by (induction a b rule: matchlen.induct) (auto simp: nat_add_distrib matchlen_bounds)
  then show ?thesis using I(1) s matchlen_bounds [of "drop (nat pos) old" nw] by auto
qed

text \<open>The match need not be the longest: a suffix that is a prefix of the text counts as not less, and the search leaves the
  part with the longer matches.\<close>

lemma search_misses_longer_match:
  "suffix_array [97, 98, 97] [3, 2, 0, 1] \<and> search [3, 2, 0, 1] [97, 98, 97] [97, 98] 0 3 = Some (1, 2)
    \<and> matchlen (drop 0 [97, 98, 97]) [97, 98] = 2"
proof -
  have "{0..3 :: int} = {3, 2, 0, 1}" by auto
  then have "suffix_array [97, 98, 97] [3, 2, 0, 1]" by (simp add: suffix_array_def suf_less_def)
  moreover have "search [3, 2, 0, 1] [97, 98, 97] [97, 98] 0 1 = Some (1, 2)"
    by (subst search.simps) (simp add: suffix_at_def rd_def)
  then have "search [3, 2, 0, 1] [97, 98, 97] [97, 98] 0 3 = Some (1, 2)"
    by (subst search.simps) (simp add: suffix_at_def rd_def)
  ultimately show ?thesis by simp
qed

end
