(* ===== verification/Xd3_Int.thy ===== *)
theory Xd3_Int
  imports Prelude
begin

text \<open>
  The integers of the VCDIFF format, \<^verbatim>\<open>jni/xdelta3patcher/xdelta3-internal.h\<close>: seven bits a byte, the most significant
  first, the top bit set on all bytes but the last.  \<^verbatim>\<open>usize_t\<close> and \<^verbatim>\<open>xoff_t\<close> are both 64 bits wide in this build.  Main
  results: the reader accepts exactly the numbers that fit 64 bits, whatever the length of their encoding, and
  reads back what the writer emitted; the announced size of an encoding is its length.
\<close>

section \<open>Model\<close>

type_synonym usize = u64

definition UINT64_OFLOW_MASK :: u64 where
  "UINT64_OFLOW_MASK = 0xfe00000000000000"

definition USIZE_T_OVERFLOW :: "usize \<Rightarrow> usize \<Rightarrow> bool" where
  "USIZE_T_OVERFLOW a b \<longleftrightarrow> - 1 - a < b"

definition xd3_append_digit :: "u64 \<Rightarrow> byte \<Rightarrow> u64" where
  "xd3_append_digit part next = (push_bit 7 part OR (ucast next AND 127))"

text \<open>Reading from a section that is in memory; \<open>None\<close> is the error at its end or on overflow.\<close>

fun xd3_read_loop :: "u64 \<Rightarrow> bytes \<Rightarrow> (u64 \<times> bytes) option" where
  "xd3_read_loop val [] = None"
| "xd3_read_loop val (next # inp) =
     (if val AND UINT64_OFLOW_MASK \<noteq> 0 then None
      else let val = xd3_append_digit val next in
           if next AND 128 \<noteq> 0 then xd3_read_loop val inp else Some (val, inp))"

definition xd3_read_size :: "bytes \<Rightarrow> (usize \<times> bytes) option" where
  "xd3_read_size inp = xd3_read_loop 0 inp"

text \<open>Reading from the input: it may end in the middle, and the part read so far is kept for the next call.\<close>

datatype integer_part = Further u64 | Value u64 bytes | Overflow u64 bytes

fun xd3_decode_loop :: "u64 \<Rightarrow> bytes \<Rightarrow> integer_part" where
  "xd3_decode_loop part [] = Further part"
| "xd3_decode_loop part (next # input) =
     (if part AND UINT64_OFLOW_MASK \<noteq> 0 then Overflow part input
      else let part = xd3_append_digit part next in
           if next AND 128 = 0 then Value part input else xd3_decode_loop part input)"

text \<open>The writer fills a buffer of ten bytes from its end.\<close>

function xd3_emit_loop :: "u64 \<Rightarrow> bytes \<Rightarrow> bytes" where
  "xd3_emit_loop num buf =
     (let buf = (ucast (num AND 127) OR 128) # buf; num = drop_bit 7 num
      in if num \<noteq> 0 then xd3_emit_loop num buf else buf)"
  by pat_completeness auto
termination
proof (relation "measure (\<lambda>(num, buf). unat num)", goal_cases)
  case (2 num buf x xa)
  have "unat xa \<noteq> 0" using 2 by (simp add: unat_eq_0)
  moreover have "unat xa = unat num div 128" using 2 by (simp add: unat_drop_bit)
  ultimately have "unat xa < unat num" by (cases "unat num = 0") auto
  then show ?case by simp
qed simp

declare xd3_emit_loop.simps [simp del]

definition xd3_emit_size :: "usize \<Rightarrow> bytes" where
  "xd3_emit_size num = (let buf = xd3_emit_loop num [] in butlast buf @ [last buf AND 127])"

definition xd3_sizeof_size :: "usize \<Rightarrow> u32" where
  "xd3_sizeof_size num =
     (if num < push_bit 7 1 then 1 else if num < push_bit 14 1 then 2 else if num < push_bit 21 1 then 3
      else if num < push_bit 28 1 then 4 else if num < push_bit 35 1 then 5 else if num < push_bit 42 1 then 6
      else if num < push_bit 49 1 then 7 else if num < push_bit 56 1 then 8 else if num < push_bit 63 1 then 9 else 10)"

section \<open>Reading exactly the numbers of 64 bits\<close>

text \<open>The value of a string of digits.\<close>

definition digits_val :: "nat \<Rightarrow> bytes \<Rightarrow> nat" where
  "digits_val v bs = foldl (\<lambda>v b. v * 128 + unat (b AND 127)) v bs"

lemma digits_val_simps [simp]:
  "digits_val v [] = v" "digits_val v (b # bs) = digits_val (v * 128 + unat (b AND 127)) bs"
  "digits_val v (bs @ cs) = digits_val (digits_val v bs) cs"
  by (simp_all add: digits_val_def)

lemma digits_val_ge: "v \<le> digits_val v bs"
proof (induction bs arbitrary: v)
  case (Cons b bs)
  have "v \<le> v * 128 + unat (b AND 127)" by simp
  also have "\<dots> \<le> digits_val (v * 128 + unat (b AND 127)) bs" by (rule Cons.IH)
  finally show ?case by simp
qed simp

lemma unat_and_127: "unat (w AND 127) = unat w mod 128" for w :: "'a::len word"
  using unat_take_bit [of 7 w] by (simp add: take_bit_eq_mask mask_eq_exp_minus_1)

lemma oflow_mask: "val AND UINT64_OFLOW_MASK = 0 \<longleftrightarrow> unat val < 2 ^ 57"
proof -
  have mask: "UINT64_OFLOW_MASK = push_bit 57 (mask 7)"
    by (simp add: UINT64_OFLOW_MASK_def mask_eq_exp_minus_1 push_bit_word)
  have "bit (val AND UINT64_OFLOW_MASK) n \<longleftrightarrow> bit (push_bit 57 (drop_bit 57 val)) n" for n
    unfolding mask by (auto simp: bit_and_iff bit_push_bit_iff bit_mask_iff bit_drop_bit_eq dest: bit_imp_le_length)
  then have "val AND UINT64_OFLOW_MASK = push_bit 57 (drop_bit 57 val)" by (rule bit_word_eqI)
  moreover have "drop_bit 57 (push_bit 57 (drop_bit 57 val)) = drop_bit 57 val"
    by (rule bit_word_eqI) (auto simp: bit_drop_bit_eq bit_push_bit_iff dest: bit_imp_le_length)
  ultimately have "val AND UINT64_OFLOW_MASK = 0 \<longleftrightarrow> drop_bit 57 val = 0" by (metis drop_bit_of_0 push_bit_of_0)
  also have "\<dots> \<longleftrightarrow> unat val div 2 ^ 57 = 0" by (metis unat_drop_bit unat_eq_0)
  also have "\<dots> \<longleftrightarrow> unat val < 2 ^ 57" by (simp add: div_eq_0_iff)
  finally show ?thesis .
qed

lemma unat_ucast_byte64: "unat (ucast (b :: byte) :: u64) = unat b"
proof -
  have "unat b < 2 ^ LENGTH(64)" by (rule order_less_trans [OF unat_byte_lt]) simp
  then show ?thesis by (simp only: ucast_byte_nat unat_word_of_nat_id)
qed

lemma append_digit:
  assumes "unat val < 2 ^ 57" shows "unat (xd3_append_digit val b) = unat val * 128 + unat (b AND 127)"
proof -
  let ?d = "ucast b AND 127 :: u64"
  have "bit (push_bit 7 val) n \<longrightarrow> \<not> bit ?d n" for n
  proof -
    have "?d = take_bit 7 (ucast b)" by (simp add: take_bit_eq_mask mask_eq_exp_minus_1)
    then show ?thesis by (simp add: bit_push_bit_iff bit_take_bit_iff)
  qed
  then have "push_bit 7 val AND ?d = 0" by (auto simp: bit_eq_iff bit_and_iff)
  then have "push_bit 7 val OR ?d = push_bit 7 val + ?d" by (simp add: disjunctive_add_eq_or)
  moreover have "unat ?d = unat (b AND 127)" by (simp only: unat_and_127 unat_ucast_byte64)
  moreover have "unat (push_bit 7 val) = unat val * 128"
    using assms by (simp add: push_bit_word unat_word_ariths)
  moreover have "unat (b AND 127) < 128" by (simp add: unat_and_127)
  ultimately show ?thesis
    using assms by (simp add: xd3_append_digit_def unat_word_ariths)
qed

lemma more_digits:
  assumes "\<forall>b \<in> set ds. b AND 128 \<noteq> 0"
  shows "xd3_read_loop val (ds @ inp) =
    (if digits_val (unat val) ds < 2 ^ 64 then xd3_read_loop (of_nat (digits_val (unat val) ds)) inp else None)"
  using assms
proof (induction ds arbitrary: val)
  case Nil
  have "unat val < 2 ^ 64" using unsigned_less [of val] by simp
  then show ?case by simp
next
  case (Cons b ds)
  show ?case
  proof (cases "unat val < 2 ^ 57")
    case True
    from Cons have "xd3_read_loop (xd3_append_digit val b) (ds @ inp) =
        (if digits_val (unat (xd3_append_digit val b)) ds < 2 ^ 64
         then xd3_read_loop (of_nat (digits_val (unat (xd3_append_digit val b)) ds)) inp else None)" by simp
    with True Cons.prems show ?thesis by (simp only: append_digit) (simp add: oflow_mask Let_def)
  next
    case False
    then have "2 ^ 64 \<le> unat val * 128 + unat (b AND 127)" by simp
    also have "\<dots> \<le> digits_val (unat val) (b # ds)" using digits_val_ge by simp
    finally show ?thesis using False by (simp add: oflow_mask)
  qed
qed

lemma last_digit:
  assumes "b AND 128 = 0"
  shows "xd3_read_loop val (b # inp) =
    (if digits_val (unat val) [b] < 2 ^ 64 then Some (of_nat (digits_val (unat val) [b]), inp) else None)"
proof (cases "unat val < 2 ^ 57")
  case True
  have "unat (b AND 127) < 128" by (simp add: unat_and_127)
  with True have "unat val * 128 + unat (b AND 127) < 2 ^ 64" by simp
  moreover have "xd3_append_digit val b = of_nat (unat val * 128 + unat (b AND 127))"
    using append_digit [OF True, of b] by (metis of_nat_unat ucast_id)
  ultimately show ?thesis using True assms by (simp add: oflow_mask Let_def)
qed (simp add: oflow_mask)

lemma read_digits:
  assumes "\<forall>b \<in> set ds. b AND 128 \<noteq> 0" "d AND 128 = 0"
  shows "xd3_read_size (ds @ d # inp) =
    (if digits_val 0 (ds @ [d]) < 2 ^ 64 then Some (of_nat (digits_val 0 (ds @ [d])), inp) else None)"
proof (cases "digits_val 0 ds < 2 ^ 64")
  case True
  then have "unat (of_nat (digits_val 0 ds) :: u64) = digits_val 0 ds" by simp
  then show ?thesis using assms True by (simp only: xd3_read_size_def more_digits last_digit) simp
next
  case False
  moreover have "digits_val 0 ds \<le> digits_val 0 (ds @ [d])" by simp
  ultimately have "\<not> digits_val 0 (ds @ [d]) < 2 ^ 64" by linarith
  then show ?thesis using assms False by (simp only: xd3_read_size_def more_digits) simp
qed

lemma read_unfinished: "\<forall>b \<in> set ds. b AND 128 \<noteq> 0 \<Longrightarrow> xd3_read_size ds = None"
  using more_digits [of ds 0 "[]"] by (simp add: xd3_read_size_def)

text \<open>The loop over the input is the loop over a section, continued.\<close>

lemma decode_loop_read:
  "(case xd3_decode_loop part input of Value v rest \<Rightarrow> Some (v, rest) | _ \<Rightarrow> None) = xd3_read_loop part input"
  by (induction part input rule: xd3_decode_loop.induct) (simp_all add: Let_def)

lemma decode_loop_resume:
  "xd3_decode_loop part (as @ bs) =
    (case xd3_decode_loop part as of
       Further p \<Rightarrow> xd3_decode_loop p bs | Value v rest \<Rightarrow> Value v (rest @ bs) | Overflow p rest \<Rightarrow> Overflow p (rest @ bs))"
  by (induction part as rule: xd3_decode_loop.induct) (simp_all add: Let_def)

section \<open>Writing and reading\<close>

text \<open>The bytes before the last one.\<close>

function high_digits :: "nat \<Rightarrow> bytes" where
  "high_digits n = (if n = 0 then [] else high_digits (n div 128) @ [of_nat (n mod 128) OR 128])"
  by pat_completeness auto
termination by (relation "measure id") auto

declare high_digits.simps [simp del]

lemma bit_byte_128: "bit (128 :: byte) k \<longleftrightarrow> k = 7"
  and bit_byte_127: "bit (127 :: byte) k \<longleftrightarrow> k < 7"
proof -
  have *: "(128 :: byte) = push_bit 7 1" "(127 :: byte) = mask 7" by (simp_all add: mask_eq_exp_minus_1)
  show "bit (128 :: byte) k \<longleftrightarrow> k = 7" unfolding * by (auto simp only: bit_push_bit_iff bit_1_iff len_num0 len_num1 len_bit0) auto
  show "bit (127 :: byte) k \<longleftrightarrow> k < 7" unfolding * by (simp only: bit_mask_iff) auto
qed

lemma byte_digit:
  assumes "n < 128"
  shows "(of_nat n OR 128 :: byte) AND 127 = of_nat n" "(of_nat n OR 128 :: byte) AND 128 \<noteq> 0"
    "(of_nat n :: byte) AND 127 = of_nat n" "(of_nat n :: byte) AND 128 = 0"
proof -
  have n: "\<not> bit (of_nat n :: byte) k" if "7 \<le> k" for k
    using assms power_increasing [OF that, of "2::nat"] by (intro not_bit_word_of_nat) simp
  note bits = bit_and_iff bit_or_iff bit_byte_128 bit_byte_127
  show "(of_nat n OR 128 :: byte) AND 127 = of_nat n"
    by (rule bit_word_eqI) (simp only: bits, meson n not_less nat_neq_iff order_refl)
  show "(of_nat n :: byte) AND 127 = of_nat n"
    by (rule bit_word_eqI) (simp only: bits, meson n not_less)
  show "(of_nat n :: byte) AND 128 = 0"
    by (rule bit_word_eqI) (simp only: bits bit_0_eq bot_apply, use n [of 7] in auto)
  have "bit ((of_nat n OR 128 :: byte) AND 128) 7" by (simp only: bits simp_thms)
  then show "(of_nat n OR 128 :: byte) AND 128 \<noteq> 0" by auto
qed

lemma high_digits_cont: "\<forall>b \<in> set (high_digits n). b AND 128 \<noteq> 0"
  by (induction n rule: high_digits.induct) (subst high_digits.simps, auto simp: byte_digit)

lemma digits_val_high: "digits_val 0 (high_digits n) = n"
proof (induction n rule: high_digits.induct)
  case (1 n)
  show ?case
  proof (cases "n = 0")
    case False
    have "digits_val 0 (high_digits n) = n div 128 * 128 + unat ((of_nat (n mod 128) OR 128 :: byte) AND 127)"
      using 1 False by (subst high_digits.simps) simp
    also have "\<dots> = n" by (simp only: byte_digit mod_less_divisor) simp
    finally show ?thesis .
  qed (simp add: high_digits.simps)
qed

lemma emit_digit: "(ucast (num AND 127) OR 128 :: byte) = of_nat (unat num mod 128) OR 128" for num :: u64
proof -
  have "num AND 127 = of_nat (unat num mod 128)" by (metis unat_and_127 of_nat_unat ucast_id)
  then show ?thesis by (simp add: ucast_word_of_nat)
qed

lemma emit_loop_digits:
  "xd3_emit_loop num buf = high_digits (unat num div 128) @ (of_nat (unat num mod 128) OR 128) # buf"
proof (induction num buf rule: xd3_emit_loop.induct)
  case (1 num buf)
  have nz: "drop_bit 7 num \<noteq> 0 \<longleftrightarrow> unat num div 128 \<noteq> 0"
    using unat_drop_bit [of 7 num] by (simp add: unat_eq_0 [symmetric])
  show ?case
  proof (cases "drop_bit 7 num = 0")
    case True
    then show ?thesis using nz by (subst xd3_emit_loop.simps) (simp add: emit_digit high_digits.simps [of 0])
  next
    case False
    then have "xd3_emit_loop num buf = xd3_emit_loop (drop_bit 7 num) ((of_nat (unat num mod 128) OR 128) # buf)"
      by (subst xd3_emit_loop.simps) (simp add: emit_digit)
    also have "\<dots> = high_digits (unat num div 128 div 128) @ [of_nat (unat num div 128 mod 128) OR 128] @ (of_nat (unat num mod 128) OR 128) # buf"
      using 1 False by (simp add: emit_digit unat_drop_bit)
    also have "\<dots> = high_digits (unat num div 128) @ (of_nat (unat num mod 128) OR 128) # buf"
      using False nz by (subst (2) high_digits.simps) simp
    finally show ?thesis .
  qed
qed

lemma emit_size_digits:
  "xd3_emit_size num = high_digits (unat num div 128) @ [of_nat (unat num mod 128)]"
  by (simp add: xd3_emit_size_def emit_loop_digits butlast_append byte_digit)

lemma read_emitted: "xd3_read_size (xd3_emit_size num @ inp) = Some (num, inp)"
proof -
  have "digits_val 0 (high_digits (unat num div 128) @ [of_nat (unat num mod 128)]) = unat num"
    by (simp add: digits_val_high byte_digit)
  moreover have "unat num < 2 ^ 64" using unsigned_less [of num] by simp
  ultimately show ?thesis
    using read_digits [OF high_digits_cont, of "of_nat (unat num mod 128)" "unat num div 128" inp]
    by (simp add: emit_size_digits byte_digit)
qed

section \<open>Sizes\<close>

lemma length_high_digits: "length (high_digits n) \<le> k \<longleftrightarrow> n < 128 ^ k"
proof (induction n arbitrary: k rule: high_digits.induct)
  case (1 n)
  show ?case
  proof (cases "n = 0")
    case False
    then have len: "length (high_digits n) = Suc (length (high_digits (n div 128)))" by (subst high_digits.simps) simp
    show ?thesis
    proof (cases k)
      case (Suc j)
      then show ?thesis using 1 [OF False, of j] len by (simp add: div_less_iff_less_mult mult.commute)
    qed (use False len in simp)
  qed (simp add: high_digits.simps)
qed

lemma length_emit_size: "length (xd3_emit_size num) \<le> Suc k \<longleftrightarrow> unat num < 128 ^ Suc k"
  by (simp add: emit_size_digits length_high_digits div_less_iff_less_mult mult.commute)

lemma emit_size_length_eq:
  "unat num < 128 ^ Suc k \<Longrightarrow> \<not> unat num < 128 ^ k \<Longrightarrow> 0 < k \<Longrightarrow> length (xd3_emit_size num) = Suc k"
  using length_emit_size [of num k] length_emit_size [of num "k - 1"] by simp

lemma emit_size_short: "unat num < 128 \<Longrightarrow> length (xd3_emit_size num) = 1"
  using length_emit_size [of num 0] by (simp add: emit_size_digits)

lemma sizeof_emitted: "unat (xd3_sizeof_size num) = length (xd3_emit_size num)"
proof -
  have lt: "num < push_bit (7 * k) 1 \<longleftrightarrow> unat num < 128 ^ k" if "k \<le> 9" for k
  proof -
    have "(128 :: nat) ^ k = 2 ^ (7 * k)" by (simp add: power_mult)
    moreover have "unat (push_bit (7 * k) 1 :: u64) = 2 ^ (7 * k)"
    proof -
      have "(2 :: nat) ^ (7 * k) < 2 ^ LENGTH(64)" using that by (intro power_strict_increasing) simp_all
      moreover have "(push_bit (7 * k) 1 :: u64) = of_nat (2 ^ (7 * k))" by (simp add: push_bit_of_1)
      ultimately show ?thesis by (simp only: unat_word_of_nat_id)
    qed
    ultimately show ?thesis by (simp only: word_less_nat_alt)
  qed
  have "unat num < 2 ^ 64" using unsigned_less [of num] by simp
  then have top: "unat num < 128 ^ 10" by simp
  note eqs = lt [of 1] lt [of 2] lt [of 3] lt [of 4] lt [of 5] lt [of 6] lt [of 7] lt [of 8] lt [of 9]
  show ?thesis
    unfolding xd3_sizeof_size_def
    using top eqs emit_size_short [of num] emit_size_length_eq [of num 1] emit_size_length_eq [of num 2] emit_size_length_eq [of num 3]
      emit_size_length_eq [of num 4] emit_size_length_eq [of num 5] emit_size_length_eq [of num 6] emit_size_length_eq [of num 7]
      emit_size_length_eq [of num 8] emit_size_length_eq [of num 9]
    by simp
qed

section \<open>Properties\<close>

text \<open>C38: Reading an integer from a section accepts exactly the numbers below 2^64: for every string of continued digits and a
  last digit, of whatever length and with leading zeros, the number and what follows it are returned if it
  fits, and an error is reported otherwise.\<close>

theorem xd3_read_size_exact:
  assumes "\<forall>b \<in> set ds. b AND 128 \<noteq> 0" "d AND 128 = 0"
  shows "xd3_read_size (ds @ d # inp) =
    (if digits_val 0 (ds @ [d]) < 2 ^ 64 then Some (of_nat (digits_val 0 (ds @ [d])), inp) else None)"
  using assms by (rule read_digits)

lemma xd3_read_size_exact_witness:
  "xd3_read_size ([0x81, 0x80] @ 0x05 # [7]) = Some (16389, [7])"
  using xd3_read_size_exact [of "[0x81, 0x80]" "0x05" "[7]"] by simp

text \<open>Every 64-bit number survives writing and reading, whatever follows it, and its encoding has the announced
  number of bytes, at most the ten of the buffer.\<close>

theorem xd3_size_roundtrip:
  "xd3_read_size (xd3_emit_size num @ inp) = Some (num, inp) \<and>
   length (xd3_emit_size num) = unat (xd3_sizeof_size num) \<and> length (xd3_emit_size num) \<le> 10"
proof -
  have "unat num < 2 ^ 64" using unsigned_less [of num] by simp
  then have "length (xd3_emit_size num) \<le> Suc 9" by (simp only: length_emit_size) simp
  then show ?thesis by (simp add: read_emitted sizeof_emitted)
qed

end
