(* ===== verification/Xd3_Table.thy ===== *)
theory Xd3_Table
  imports Xd3_Int
begin

text \<open>
  The parts of \<^verbatim>\<open>jni/xdelta3patcher/xdelta3.c\<close> that encoder and decoder share: the default code table and the
  hard-coded choice of its entries, and the cache of copy addresses with both directions of its use.  Main results: a
  chosen code means the instructions it was chosen for; an address survives encoding and decoding and leaves both caches equal.
\<close>

section \<open>The code table\<close>

definition XD3_NOOP :: nat where "XD3_NOOP = 0"
definition XD3_ADD :: nat where "XD3_ADD = 1"
definition XD3_RUN :: nat where "XD3_RUN = 2"
definition XD3_CPY :: nat where "XD3_CPY = 3"
definition MIN_MATCH :: nat where "MIN_MATCH = 4"

lemmas rtype_defs = XD3_NOOP_def XD3_ADD_def XD3_RUN_def XD3_CPY_def MIN_MATCH_def

record xd3_dinst =
  type1 :: nat
  size1 :: nat
  type2 :: nat
  size2 :: nat

record xd3_code_table_desc =
  add_sizes :: nat
  near_modes :: nat
  same_modes :: nat
  cpy_sizes :: nat
  addcopy_add_max :: nat
  addcopy_near_cpy_max :: nat
  addcopy_same_cpy_max :: nat
  copyadd_add_max :: nat
  copyadd_near_cpy_max :: nat
  copyadd_same_cpy_max :: nat

definition rfc3284_code_table_desc :: xd3_code_table_desc where
  "rfc3284_code_table_desc =
     \<lparr>add_sizes = 17, near_modes = 4, same_modes = 3, cpy_sizes = 15,
      addcopy_add_max = 4, addcopy_near_cpy_max = 6, addcopy_same_cpy_max = 4,
      copyadd_add_max = 1, copyadd_near_cpy_max = 4, copyadd_same_cpy_max = 4\<rparr>"

definition single :: "nat \<Rightarrow> nat \<Rightarrow> xd3_dinst" where
  "single t n = \<lparr>type1 = t, size1 = n, type2 = XD3_NOOP, size2 = 0\<rparr>"

definition double :: "nat \<Rightarrow> nat \<Rightarrow> nat \<Rightarrow> nat \<Rightarrow> xd3_dinst" where
  "double t n u m = \<lparr>type1 = t, size1 = n, type2 = u, size2 = m\<rparr>"

text \<open>The table is filled from its start; what the loops do not set is zero.\<close>

definition xd3_build_code_table :: "xd3_code_table_desc \<Rightarrow> xd3_dinst list" where
  "xd3_build_code_table desc =
     (let cpy_modes = 2 + near_modes desc + same_modes desc in
      [single XD3_RUN 0, single XD3_ADD 0] @
      [single XD3_ADD n. n \<leftarrow> [1..<add_sizes desc + 1]] @
      concat [single (XD3_CPY + mode) 0 # [single (XD3_CPY + mode) n. n \<leftarrow> [MIN_MATCH..<MIN_MATCH + cpy_sizes desc]].
         mode \<leftarrow> [0..<cpy_modes]] @
      [double XD3_ADD n (XD3_CPY + mode) m.
         mode \<leftarrow> [0..<cpy_modes], n \<leftarrow> [1..<addcopy_add_max desc + 1],
         m \<leftarrow> [MIN_MATCH..<(if mode < 2 + near_modes desc then addcopy_near_cpy_max desc else addcopy_same_cpy_max desc) + 1]] @
      [double (XD3_CPY + mode) n XD3_ADD m.
         mode \<leftarrow> [0..<cpy_modes],
         n \<leftarrow> [MIN_MATCH..<(if mode < 2 + near_modes desc then copyadd_near_cpy_max desc else copyadd_same_cpy_max desc) + 1],
         m \<leftarrow> [1..<copyadd_add_max desc + 1]])"

definition xd3_rfc3284_code_table :: "xd3_dinst list" where
  "xd3_rfc3284_code_table = xd3_build_code_table rfc3284_code_table_desc"

text \<open>The choice of codes.  \<open>code1\<close> is the code of the instruction alone, \<open>code2\<close> of the previous one the code for
  both.  The two codes are bytes.\<close>

record xd3_rinst =
  rtype :: nat
  rsize :: usize
  code1 :: byte
  code2 :: byte

definition xd3_choose_instruction :: "xd3_rinst option \<Rightarrow> xd3_rinst \<Rightarrow> xd3_rinst option \<times> xd3_rinst" where
  "xd3_choose_instruction prev inst =
     (if rtype inst = XD3_RUN then (prev, inst\<lparr>code1 := 0\<rparr>)
      else if rtype inst = XD3_ADD then
        (if rsize inst \<le> 17 then
           ((case prev of
               Some p \<Rightarrow>
                 if rsize inst = 1 \<and> rsize p = 4 \<and> rtype p \<ge> XD3_CPY
                 then Some (p\<lparr>code2 := of_nat (247 + (rtype p - XD3_CPY))\<rparr>) else Some p
             | None \<Rightarrow> None),
            inst\<lparr>code1 := 1 + ucast (rsize inst)\<rparr>)
         else (prev, inst\<lparr>code1 := 1\<rparr>))
      else
        (let mode = rtype inst - XD3_CPY; c = of_nat (19 + 16 * mode) in
         if rsize inst \<le> 18 \<and> rsize inst \<ge> 4 then
           ((case prev of
               Some p \<Rightarrow>
                 if rtype p = XD3_ADD \<and> rsize p \<le> 4 then
                   (if rsize inst \<le> 6 \<and> mode \<le> 5 then
                      Some (p\<lparr>code2 := ucast (163 + of_nat mode * 12 + 3 * (rsize p - 1) + (rsize inst - 4))\<rparr>)
                    else if rsize inst = 4 \<and> mode \<ge> 6 then
                      Some (p\<lparr>code2 := ucast (235 + of_nat (mode - 6) * 4 + (rsize p - 1))\<rparr>)
                    else Some p)
                 else Some p
             | None \<Rightarrow> None),
            inst\<lparr>code1 := c + ucast (rsize inst - 3)\<rparr>)
         else (prev, inst\<lparr>code1 := c\<rparr>)))"

section \<open>The address cache\<close>

text \<open>Lookups outside the two arrays are undefined: \<open>None\<close>.\<close>

record xd3_addr_cache =
  s_near :: nat
  s_same :: nat
  next_slot :: nat
  near_array :: "usize list"
  same_array :: "usize list"

definition xd3_init_cache :: "xd3_addr_cache \<Rightarrow> xd3_addr_cache" where
  "xd3_init_cache c =
     (let c = (if s_near c > 0 then c\<lparr>near_array := replicate (s_near c) 0, next_slot := 0\<rparr> else c)
      in if s_same c > 0 then c\<lparr>same_array := replicate (s_same c * 256) 0\<rparr> else c)"

definition same_slot :: "xd3_addr_cache \<Rightarrow> usize \<Rightarrow> nat" where
  "same_slot c addr = unat addr mod (s_same c * 256)"

definition xd3_update_cache :: "xd3_addr_cache \<Rightarrow> usize \<Rightarrow> xd3_addr_cache option" where
  "xd3_update_cache c addr =
     (if 0 < s_near c \<and> length (near_array c) \<le> next_slot c \<or> 0 < s_same c \<and> length (same_array c) \<le> same_slot c addr then None
      else
        let c = (if s_near c > 0
                 then c\<lparr>near_array := (near_array c)[next_slot c := addr], next_slot := (next_slot c + 1) mod s_near c\<rparr> else c)
        in Some (if s_same c > 0 then c\<lparr>same_array := (same_array c)[same_slot c addr := addr]\<rparr> else c))"

text \<open>The encoder looks for the mode with the smallest number.  The mask of the early exit is the 32-bit number
  \<^verbatim>\<open>~127U\<close>, widened with zeros.\<close>

definition SMALLEST_INT :: "usize \<Rightarrow> bool" where
  "SMALLEST_INT x \<longleftrightarrow> x AND 0xffffff80 = 0"

text \<open>Result of the search: the number, the mode, and whether the early exit was taken.\<close>

fun near_search :: "usize \<Rightarrow> nat \<Rightarrow> usize list \<Rightarrow> usize \<Rightarrow> nat \<Rightarrow> usize \<times> nat \<times> bool" where
  "near_search addr i [] bestd bestm = (bestd, bestm, False)"
| "near_search addr i (near # nears) bestd bestm =
     (if addr \<ge> near \<and> addr - near < bestd then
        (if SMALLEST_INT (addr - near) then (addr - near, i + 2, True) else near_search addr (i + 1) nears (addr - near) (i + 2))
      else near_search addr (i + 1) nears bestd bestm)"

definition address_search :: "xd3_addr_cache \<Rightarrow> usize \<Rightarrow> usize \<Rightarrow> usize \<times> nat \<times> bool" where
  "address_search c addr here =
     (if SMALLEST_INT addr then (addr, 0, True)
      else if here - addr < addr then
        (if SMALLEST_INT (here - addr) then (here - addr, 1, True)
         else near_search addr 0 (take (s_near c) (near_array c)) (here - addr) 1)
      else near_search addr 0 (take (s_near c) (near_array c)) addr 0)"

text \<open>The bytes put into the address section, the mode and the new cache.\<close>

definition xd3_encode_address :: "xd3_addr_cache \<Rightarrow> usize \<Rightarrow> usize \<Rightarrow> (bytes \<times> nat \<times> xd3_addr_cache) option" where
  "xd3_encode_address c addr here =
     (let (bestd, bestm, good) = address_search c addr here; d = same_slot c addr in
      if length (near_array c) < s_near c then None
      else if \<not> good \<and> s_same c > 0 \<and> length (same_array c) \<le> d then None
      else
        let (out, bestm) =
              (if \<not> good \<and> s_same c > 0 \<and> same_array c ! d = addr
               then ([of_nat (d mod 256)], s_near c + 2 + d div 256) else (xd3_emit_size bestd, bestm))
        in map_option (\<lambda>c. (out, bestm, c)) (xd3_update_cache c addr))"

text \<open>The decoder: an address with the rest of the section and the new cache, an error number, or undefined.\<close>

datatype 'a fetched = Got 'a | Failed int | Outside

definition XD3_INVALID_INPUT :: int where
  "XD3_INVALID_INPUT = -17712"

definition fetched_address :: "xd3_addr_cache \<Rightarrow> usize \<Rightarrow> bytes \<Rightarrow> (usize \<times> bytes \<times> xd3_addr_cache) fetched" where
  "fetched_address c val inp = (case xd3_update_cache c val of None \<Rightarrow> Outside | Some c \<Rightarrow> Got (val, inp, c))"

definition xd3_decode_address :: "xd3_addr_cache \<Rightarrow> usize \<Rightarrow> nat \<Rightarrow> bytes \<Rightarrow> (usize \<times> bytes \<times> xd3_addr_cache) fetched" where
  "xd3_decode_address c here mode inp =
     (let same_start = 2 + s_near c in
      if mode < same_start then
        (case xd3_read_size inp of
           None \<Rightarrow> Failed XD3_INVALID_INPUT
         | Some (val, inp) \<Rightarrow>
             if mode = 0 then fetched_address c val inp
             else if mode = 1 then fetched_address c (here - val) inp
             else if mode - 2 < length (near_array c) then fetched_address c (val + near_array c ! (mode - 2)) inp
             else Outside)
      else
        (case inp of
           [] \<Rightarrow> Failed XD3_INVALID_INPUT
         | b # inp \<Rightarrow>
             let k = (mode - same_start) * 256 + unat b in
             if k < length (same_array c) then fetched_address c (same_array c ! k) inp else Outside))"

section \<open>What the codes mean\<close>

lemma length_code_table: "length xd3_rfc3284_code_table = 256"
  by code_simp

lemma code_table_entries:
  "xd3_rfc3284_code_table ! 0 = single XD3_RUN 0"
  "list_all (\<lambda>n. xd3_rfc3284_code_table ! (1 + n) = single XD3_ADD n) [0..<18]"
  "list_all (\<lambda>mode. xd3_rfc3284_code_table ! (19 + 16 * mode) = single (XD3_CPY + mode) 0) [0..<9]"
  "list_all (\<lambda>mode. list_all (\<lambda>n. xd3_rfc3284_code_table ! (19 + 16 * mode + (n - 3)) = single (XD3_CPY + mode) n) [4..<19]) [0..<9]"
  "list_all (\<lambda>mode. list_all (\<lambda>n. list_all (\<lambda>m.
      xd3_rfc3284_code_table ! (163 + mode * 12 + 3 * (n - 1) + (m - 4)) = double XD3_ADD n (XD3_CPY + mode) m) [4..<7]) [1..<5]) [0..<6]"
  "list_all (\<lambda>mode. list_all (\<lambda>n.
      xd3_rfc3284_code_table ! (235 + (mode - 6) * 4 + (n - 1)) = double XD3_ADD n (XD3_CPY + mode) 4) [1..<5]) [6..<9]"
  "list_all (\<lambda>mode. xd3_rfc3284_code_table ! (247 + mode) = double (XD3_CPY + mode) 4 XD3_ADD 1) [0..<9]"
  by code_simp+

lemma code_table_nth:
  "n < 18 \<Longrightarrow> xd3_rfc3284_code_table ! (1 + n) = single XD3_ADD n"
  "mode < 9 \<Longrightarrow> xd3_rfc3284_code_table ! (19 + 16 * mode) = single (XD3_CPY + mode) 0"
  "mode < 9 \<Longrightarrow> 4 \<le> n \<Longrightarrow> n < 19 \<Longrightarrow> xd3_rfc3284_code_table ! (19 + 16 * mode + (n - 3)) = single (XD3_CPY + mode) n"
  "mode < 6 \<Longrightarrow> 1 \<le> n \<Longrightarrow> n < 5 \<Longrightarrow> 4 \<le> m \<Longrightarrow> m < 7 \<Longrightarrow>
     xd3_rfc3284_code_table ! (163 + mode * 12 + 3 * (n - 1) + (m - 4)) = double XD3_ADD n (XD3_CPY + mode) m"
  "6 \<le> mode \<Longrightarrow> mode < 9 \<Longrightarrow> 1 \<le> n \<Longrightarrow> n < 5 \<Longrightarrow>
     xd3_rfc3284_code_table ! (235 + (mode - 6) * 4 + (n - 1)) = double XD3_ADD n (XD3_CPY + mode) 4"
  "mode < 9 \<Longrightarrow> xd3_rfc3284_code_table ! (247 + mode) = double (XD3_CPY + mode) 4 XD3_ADD 1"
  using code_table_entries by (simp_all only: list_all_iff set_upt atLeastLessThan_iff Ball_def le0 simp_thms)

lemma usize_nat: obtains n where "x = (of_nat n :: usize)" "unat x = n"
  by (metis of_nat_unat ucast_id)

lemma byte_code: "n < 256 \<Longrightarrow> unat (ucast (of_nat n :: usize) :: byte) = n"
  by (simp add: ucast_word_of_nat)

definition fits_code :: "nat \<Rightarrow> usize \<Rightarrow> xd3_dinst \<Rightarrow> bool" where
  "fits_code t n e \<longleftrightarrow> type1 e = t \<and> type2 e = XD3_NOOP \<and> (size1 e = 0 \<or> size1 e = unat n)"

lemma fits_code_single: "fits_code t n (single u m) \<longleftrightarrow> u = t \<and> (m = 0 \<or> m = unat n)"
  by (auto simp: fits_code_def single_def)

lemma rtype_cases:
  assumes "t \<in> {1..<12}" obtains "t = XD3_RUN" | "t = XD3_ADD" | mode where "t = XD3_CPY + mode" "mode < 9"
proof -
  have "t = 2 \<or> t = 1 \<or> t = 3 + (t - 3) \<and> t - 3 < 9" using assms by auto
  then show thesis using that by (auto simp: rtype_defs)
qed

lemma code1_sound:
  assumes "rtype inst \<in> {1..<12}" "xd3_choose_instruction prev inst = (prev', inst')"
  shows "fits_code (rtype inst) (rsize inst) (xd3_rfc3284_code_table ! unat (code1 inst'))"
proof -
  consider "rtype inst = XD3_RUN" | "rtype inst = XD3_ADD" "rsize inst \<le> 17" | "rtype inst = XD3_ADD" "\<not> rsize inst \<le> 17"
    | mode where "rtype inst = XD3_CPY + mode" "mode < 9" "rsize inst \<le> 18" "4 \<le> rsize inst"
    | mode where "rtype inst = XD3_CPY + mode" "mode < 9" "\<not> (rsize inst \<le> 18 \<and> 4 \<le> rsize inst)"
    using rtype_cases [OF assms(1)] by blast
  then show ?thesis
  proof cases
    case 1
    then show ?thesis using assms(2)
      by (auto simp: xd3_choose_instruction_def code_table_entries(1) fits_code_single)
  next
    case 2
    obtain n where "rsize inst = of_nat n" "unat (rsize inst) = n" by (rule usize_nat)
    with 2 have n: "rsize inst = of_nat n" "unat (rsize inst) = n" "n \<le> 17" by (simp_all add: word_le_nat_alt)
    then have "(1 + ucast (rsize inst) :: byte) = of_nat (1 + n)" by (simp add: ucast_word_of_nat)
    then have "unat (1 + ucast (rsize inst) :: byte) = 1 + n" using n by (simp only: unat_of_nat_byte) simp
    then show ?thesis using 2 n assms(2) code_table_nth(1) [of n]
      by (auto simp: xd3_choose_instruction_def fits_code_single rtype_defs simp del: unat_of_nat_byte)
  next
    case 3
    then show ?thesis using assms(2) code_table_nth(1) [of 0]
      by (auto simp: xd3_choose_instruction_def fits_code_single rtype_defs)
  next
    case (4 mode)
    obtain n where "rsize inst = of_nat n" "unat (rsize inst) = n" by (rule usize_nat)
    with 4 have n: "rsize inst = of_nat n" "unat (rsize inst) = n" "n \<le> 18" and "4 \<le> n" by (simp_all add: word_le_nat_alt)
    then have "rsize inst - 3 = of_nat (n - 3)" using n by (simp add: of_nat_diff)
    then have "(of_nat (19 + 16 * mode) + ucast (rsize inst - 3) :: byte) = of_nat (19 + 16 * mode + (n - 3))"
      using n by (simp only: of_nat_add) (simp add: ucast_word_of_nat)
    then have "unat (of_nat (19 + 16 * mode) + ucast (rsize inst - 3) :: byte) = 19 + 16 * mode + (n - 3)"
      using n 4 by (simp only: unat_of_nat_byte) simp
    moreover have "code1 inst' = of_nat (19 + 16 * mode) + ucast (rsize inst - 3)"
      using 4 assms(2) by (auto simp: xd3_choose_instruction_def rtype_defs Let_def)
    ultimately show ?thesis using 4 n \<open>4 \<le> n\<close> code_table_nth(3) [of mode n] by (simp only: fits_code_single) simp
  next
    case (5 mode)
    then have "code1 inst' = of_nat (19 + 16 * mode)"
      using assms(2) by (auto simp: xd3_choose_instruction_def rtype_defs Let_def)
    moreover have "unat (of_nat (19 + 16 * mode) :: byte) = 19 + 16 * mode" using 5 by (simp only: unat_of_nat_byte) simp
    ultimately show ?thesis using 5 code_table_nth(2) [of mode] by (simp only: fits_code_single) simp
  qed
qed

lemma code2_addcopy:
  assumes "rtype inst = XD3_CPY + mode" "mode < 9" "rsize inst \<le> 6" "4 \<le> rsize inst" "mode \<le> 5 \<or> rsize inst = 4"
    and "rtype p = XD3_ADD" "rsize p \<le> 4" "rsize p \<noteq> 0" "xd3_choose_instruction (Some p) inst = (Some p', inst')"
  shows "xd3_rfc3284_code_table ! unat (code2 p') = double (rtype p) (unat (rsize p)) (rtype inst) (unat (rsize inst))"
proof -
  obtain m where "rsize inst = of_nat m" "unat (rsize inst) = m" by (rule usize_nat)
  with assms(3, 4) have m: "rsize inst = of_nat m" "unat (rsize inst) = m" "m \<le> 6" and "4 \<le> m" by (simp_all add: word_le_nat_alt)
  obtain n where "rsize p = of_nat n" "unat (rsize p) = n" by (rule usize_nat)
  with assms(7, 8) have n: "rsize p = of_nat n" "unat (rsize p) = n" "n \<le> 4" and "0 < n"
    by (auto simp: word_le_nat_alt intro: gr0I)
  from \<open>4 \<le> m\<close> \<open>0 < n\<close> have diff: "rsize inst - 4 = of_nat (m - 4)" "rsize p - 1 = of_nat (n - 1)" using m(1) n(1) by (simp_all add: of_nat_diff)
  show ?thesis
  proof (cases "mode \<le> 5")
    case True
    then have "code2 p' = ucast (163 + of_nat mode * 12 + 3 * (rsize p - 1) + (rsize inst - 4))"
      using assms order_trans [OF assms(3), of 18] by (auto simp: xd3_choose_instruction_def rtype_defs Let_def)
    also have "163 + of_nat mode * 12 + 3 * (rsize p - 1) + (rsize inst - 4) = (of_nat (163 + mode * 12 + 3 * (n - 1) + (m - 4)) :: usize)"
      unfolding diff by simp
    finally have "unat (code2 p') = 163 + mode * 12 + 3 * (n - 1) + (m - 4)" using True m n by (simp only: byte_code)
    then show ?thesis
      using True m n \<open>4 \<le> m\<close> \<open>0 < n\<close> assms code_table_nth(4) [of mode n m] by simp
  next
    case False
    then have m4: "m = 4" using assms m by auto
    from False have "code2 p' = ucast (235 + of_nat (mode - 6) * 4 + (rsize p - 1))"
      using assms m4 m order_trans [OF assms(3), of 18] by (auto simp: xd3_choose_instruction_def rtype_defs Let_def)
    also have "235 + of_nat (mode - 6) * 4 + (rsize p - 1) = (of_nat (235 + (mode - 6) * 4 + (n - 1)) :: usize)"
      unfolding diff by simp
    finally have "unat (code2 p') = 235 + (mode - 6) * 4 + (n - 1)" using n assms(2) by (simp only: byte_code)
    then show ?thesis
      using False m4 m n \<open>0 < n\<close> assms code_table_nth(5) [of mode n] by simp
  qed
qed

lemma code2_sound:
  assumes "rtype inst \<in> {1..<12}" "rtype p \<in> {1..<12}" "rsize p \<noteq> 0" "code2 p = 0"
    and run: "xd3_choose_instruction (Some p) inst = (Some p', inst')" and set: "code2 p' \<noteq> 0"
  shows "xd3_rfc3284_code_table ! unat (code2 p') = double (rtype p) (unat (rsize p)) (rtype inst) (unat (rsize inst))"
  using rtype_cases [OF assms(1)]
proof cases
  case 1
  then show ?thesis using assms by (simp add: xd3_choose_instruction_def)
next
  case 2
  then have p: "rsize inst = 1" "rsize p = 4" "rtype p \<ge> XD3_CPY" "code2 p' = of_nat (247 + (rtype p - XD3_CPY))"
    using assms by (auto simp: xd3_choose_instruction_def rtype_defs split: if_splits)
  then obtain mode where mode: "rtype p = XD3_CPY + mode" "mode < 9" using rtype_cases [OF assms(2)] by (auto simp: rtype_defs)
  then have "unat (code2 p') = 247 + mode" using p by (simp only: unat_of_nat_byte) simp
  then show ?thesis using p 2 mode code_table_nth(6) [of mode] by simp
next
  case (3 mode)
  then have "rtype inst \<noteq> XD3_RUN" "rtype inst \<noteq> XD3_ADD" "rtype inst - XD3_CPY = mode" by (simp_all add: rtype_defs)
  with run set assms(4) have "rsize inst \<le> 6" "4 \<le> rsize inst" "mode \<le> 5 \<or> rsize inst = 4" "rtype p = XD3_ADD" "rsize p \<le> 4"
    by (auto simp: xd3_choose_instruction_def Let_def split: if_splits)
  with 3 run assms(3) show ?thesis by (intro code2_addcopy)
qed

section \<open>Addresses survive\<close>

definition cache_ok :: "xd3_addr_cache \<Rightarrow> bool" where
  "cache_ok c \<longleftrightarrow> length (near_array c) = s_near c \<and> length (same_array c) = s_same c * 256 \<and> (0 < s_near c \<longrightarrow> next_slot c < s_near c)"

lemma cache_ok_init: "cache_ok (xd3_init_cache \<lparr>s_near = n, s_same = m, next_slot = 0, near_array = replicate n 0, same_array = replicate (m * 256) 0\<rparr>)"
  by (simp add: cache_ok_def xd3_init_cache_def Let_def)

lemma cache_ok_update:
  assumes "cache_ok c" obtains c' where "xd3_update_cache c addr = Some c'" "cache_ok c'" "s_near c' = s_near c" "s_same c' = s_same c"
proof -
  have "same_slot c addr < s_same c * 256" if "0 < s_same c" using that by (simp add: same_slot_def)
  with assms have "\<not> (0 < s_near c \<and> length (near_array c) \<le> next_slot c \<or> 0 < s_same c \<and> length (same_array c) \<le> same_slot c addr)"
    by (auto simp: cache_ok_def)
  then have "\<exists>c'. xd3_update_cache c addr = Some c' \<and> cache_ok c' \<and> s_near c' = s_near c \<and> s_same c' = s_same c"
    using assms by (simp add: xd3_update_cache_def Let_def) (auto simp: cache_ok_def)
  then show thesis using that by blast
qed

text \<open>What a search may return: a mode with the number that decodes to the address.\<close>

definition finds :: "xd3_addr_cache \<Rightarrow> usize \<Rightarrow> usize \<Rightarrow> usize \<Rightarrow> nat \<Rightarrow> bool" where
  "finds c addr here d mode \<longleftrightarrow>
     mode = 0 \<and> d = addr \<or> mode = 1 \<and> d = here - addr \<or> 2 \<le> mode \<and> mode < 2 + s_near c \<and> d = addr - near_array c ! (mode - 2)"

lemma near_search_finds:
  assumes "near_search addr i nears bestd bestm = (d, mode, good)" "finds c addr here bestd bestm"
    and "i + length nears = s_near c" "\<forall>k < length nears. nears ! k = near_array c ! (i + k)"
  shows "finds c addr here d mode"
  using assms
proof (induction addr i nears bestd bestm rule: near_search.induct)
  case (2 addr i near nears bestd bestm)
  have near: "near = near_array c ! i" using 2(6) by force
  have rest: "\<forall>k < length nears. nears ! k = near_array c ! (i + 1 + k)" using 2(6) by force
  have new: "finds c addr here (addr - near) (i + 2)" using near 2(5) by (simp add: finds_def)
  show ?case using 2 near rest new by (auto split: if_splits)
qed simp

lemma address_search_finds:
  assumes "address_search c addr here = (d, mode, good)" "length (near_array c) = s_near c"
  shows "finds c addr here d mode"
proof -
  have start: "finds c addr here (here - addr) 1" "finds c addr here addr 0" by (simp_all add: finds_def)
  show ?thesis
    using assms start near_search_finds [of addr 0 "near_array c" "here - addr" 1 d mode good c here]
      near_search_finds [of addr 0 "near_array c" addr 0 d mode good c here]
    by (auto simp: address_search_def split: if_splits)
qed

lemma decode_finds:
  assumes "finds c addr here d mode" "cache_ok c"
  shows "xd3_decode_address c here mode (xd3_emit_size d @ inp) = fetched_address c addr inp"
  using assms by (auto simp: finds_def xd3_decode_address_def read_emitted cache_ok_def Let_def)

lemma encode_decode_address:
  assumes ok: "cache_ok c" and enc: "xd3_encode_address c addr here = Some (out, mode, c')"
  shows "xd3_decode_address c here mode (out @ inp) = Got (addr, inp, c')"
proof -
  obtain d m good where search: "address_search c addr here = (d, m, good)" by (metis prod_cases3)
  let ?k = "same_slot c addr"
  have upd: "xd3_update_cache c addr = Some c'" and
    out: "(out, mode) = (if \<not> good \<and> s_same c > 0 \<and> same_array c ! ?k = addr
               then ([of_nat (?k mod 256)], s_near c + 2 + ?k div 256) else (xd3_emit_size d, m))"
    using enc by (auto simp: xd3_encode_address_def search Let_def split: if_splits)
  have got: "fetched_address c addr inp = Got (addr, inp, c')" by (simp add: fetched_address_def upd)
  show ?thesis
  proof (cases "\<not> good \<and> s_same c > 0 \<and> same_array c ! ?k = addr")
    case True
    then have "?k < length (same_array c)" using ok by (simp add: cache_ok_def same_slot_def)
    moreover have "(s_near c + 2 + ?k div 256 - (2 + s_near c)) * 256 + unat (of_nat (?k mod 256) :: byte) = ?k"
      by (simp add: algebra_simps)
    ultimately show ?thesis
      using True out got by (simp add: xd3_decode_address_def Let_def)
  next
    case False
    then have "out = xd3_emit_size d" "mode = m" using out by auto
    moreover have "finds c addr here d m"
      using address_search_finds [OF search] ok by (simp add: cache_ok_def)
    ultimately show ?thesis using decode_finds [OF _ ok] got by simp
  qed
qed

lemma encode_address_defined:
  assumes "cache_ok c" shows "\<exists>out mode c'. xd3_encode_address c addr here = Some (out, mode, c') \<and> cache_ok c' \<and> mode < 2 + s_near c + s_same c"
proof -
  obtain d m good where search: "address_search c addr here = (d, m, good)" by (metis prod_cases3)
  obtain c' where upd: "xd3_update_cache c addr = Some c'" "cache_ok c'" using assms by (rule cache_ok_update)
  have "same_slot c addr < length (same_array c)" if "0 < s_same c" using that assms by (simp add: cache_ok_def same_slot_def)
  moreover have "same_slot c addr div 256 < s_same c" if "0 < s_same c"
    using that by (simp add: same_slot_def less_mult_imp_div_less)
  moreover have "m < 2 + s_near c"
    using address_search_finds [OF search] assms by (auto simp: cache_ok_def finds_def)
  ultimately show ?thesis using assms upd by (auto simp: xd3_encode_address_def search Let_def cache_ok_def)
qed

section \<open>Properties\<close>

text \<open>C35: The hard-coded choice agrees with the generated table: the code chosen for a single instruction stands for its
  type and for its size or for a size that follows; a code chosen for two instructions stands for exactly these
  two with their sizes.\<close>

theorem xd3_choose_instruction_sound:
  assumes "rtype inst \<in> {1..<12}" "rtype p \<in> {1..<12}" "rsize p \<noteq> 0" "code2 p = 0"
    and "xd3_choose_instruction (Some p) inst = (Some p', inst')"
  shows "fits_code (rtype inst) (rsize inst) (xd3_rfc3284_code_table ! unat (code1 inst')) \<and>
    (code2 p' \<noteq> 0 \<longrightarrow>
       xd3_rfc3284_code_table ! unat (code2 p') = double (rtype p) (unat (rsize p)) (rtype inst) (unat (rsize inst)))"
  using code1_sound [OF assms(1, 5)] code2_sound [OF assms] by blast

lemma xd3_choose_instruction_sound_witness:
  "xd3_rfc3284_code_table ! 167 = double XD3_ADD 2 XD3_CPY 5"
  using xd3_choose_instruction_sound [of "\<lparr>rtype = 3, rsize = 5, code1 = 0, code2 = 0\<rparr>" "\<lparr>rtype = 1, rsize = 2, code1 = 3, code2 = 0\<rparr>"
     "\<lparr>rtype = 1, rsize = 2, code1 = 3, code2 = 167\<rparr>" "\<lparr>rtype = 3, rsize = 5, code1 = 21, code2 = 0\<rparr>"]
  by (simp add: xd3_choose_instruction_def rtype_defs)

text \<open>C33: An address survives the address cache: whatever the cache holds, the encoder's bytes and mode, followed by
  anything, decode to the address, and encoder and decoder are left with the same well-formed cache.\<close>

theorem xd3_address_roundtrip:
  assumes "cache_ok c"
  shows "\<exists>out mode c'. xd3_encode_address c addr here = Some (out, mode, c') \<and> cache_ok c' \<and> mode < 2 + s_near c + s_same c \<and>
    (\<forall>inp. xd3_decode_address c here mode (out @ inp) = Got (addr, inp, c'))"
  using encode_address_defined [OF assms, of addr here] encode_decode_address [OF assms, of addr here] by fastforce

lemma xd3_address_roundtrip_witness:
  "\<exists>out mode c'. xd3_encode_address
      (xd3_init_cache \<lparr>s_near = 4, s_same = 3, next_slot = 0, near_array = replicate 4 0, same_array = replicate (3 * 256) 0\<rparr>) 1000 1500 =
        Some (out, mode, c') \<and>
    xd3_decode_address
      (xd3_init_cache \<lparr>s_near = 4, s_same = 3, next_slot = 0, near_array = replicate 4 0, same_array = replicate (3 * 256) 0\<rparr>) 1500 mode (out @ [7]) =
        Got (1000, [7], c')"
  using xd3_address_roundtrip [OF cache_ok_init, of 4 3 1000 1500] by blast

end
