(* ===== verification/Adler32.thy ===== *)
theory Adler32
  imports Xd3_Int
begin

text \<open>
  The window checksum of \<^verbatim>\<open>jni/xdelta3patcher/xdelta3.c\<close>, copied there from zlib.  The sums are reduced only every 5552
  bytes, and the bytes of such a stretch are added sixteen at a time.  Main result: nothing overflows in between, so
  the checksum is the one RFC 1950 defines byte by byte.
\<close>

section \<open>Model\<close>

definition A32_BASE :: u32 where "A32_BASE = 65521"
definition A32_NMAX :: nat where "A32_NMAX = 5552"

definition A32_DO1 :: "u32 \<times> u32 \<Rightarrow> byte \<Rightarrow> u32 \<times> u32" where
  "A32_DO1 = (\<lambda>(s1, s2) b. (s1 + ucast b, s2 + (s1 + ucast b)))"

text \<open>The two inner loops on one stretch: sixteen bytes a round, then the rest one by one.\<close>

fun a32_stretch :: "u32 \<times> u32 \<Rightarrow> bytes \<Rightarrow> u32 \<times> u32" where
  "a32_stretch s buf = (if 16 \<le> length buf then a32_stretch (foldl A32_DO1 s (take 16 buf)) (drop 16 buf) else foldl A32_DO1 s buf)"

function adler_loop :: "u32 \<times> u32 \<Rightarrow> bytes \<Rightarrow> u32 \<times> u32" where
  "adler_loop s buf =
     (if buf = [] then s
      else let (s1, s2) = a32_stretch s (take A32_NMAX buf) in adler_loop (s1 mod A32_BASE, s2 mod A32_BASE) (drop A32_NMAX buf))"
  by pat_completeness auto
termination by (relation "measure (length \<circ> snd)") (auto simp: A32_NMAX_def)

declare a32_stretch.simps [simp del] adler_loop.simps [simp del]

definition adler32 :: "u32 \<Rightarrow> bytes \<Rightarrow> u32" where
  "adler32 adler buf =
     (let (s1, s2) = adler_loop (adler AND 0xffff, drop_bit 16 adler AND 0xffff) buf in push_bit 16 s2 OR s1)"

section \<open>The checksum of RFC 1950\<close>

definition rfc_step :: "nat \<times> nat \<Rightarrow> byte \<Rightarrow> nat \<times> nat" where
  "rfc_step = (\<lambda>(a, b) c. ((a + unat c) mod 65521, (b + (a + unat c)) mod 65521))"

definition rfc_adler32 :: "bytes \<Rightarrow> u32" where
  "rfc_adler32 buf = (let (a, b) = foldl rfc_step (1, 0) buf in of_nat (b * 65536 + a))"

definition sum_step :: "nat \<times> nat \<Rightarrow> byte \<Rightarrow> nat \<times> nat" where
  "sum_step = (\<lambda>(a, b) c. (a + unat c, b + (a + unat c)))"

lemma step_simps [simp]:
  "A32_DO1 (s1, s2) c = (s1 + ucast c, s2 + (s1 + ucast c))"
  "rfc_step (a, b) c = ((a + unat c) mod 65521, (b + (a + unat c)) mod 65521)"
  "sum_step (a, b) c = (a + unat c, b + (a + unat c))"
  by (simp_all add: A32_DO1_def rfc_step_def sum_step_def)

lemma stretch_foldl: "a32_stretch s buf = foldl A32_DO1 s buf"
proof (induction s buf rule: a32_stretch.induct)
  case (1 s buf)
  have "foldl A32_DO1 s buf = foldl A32_DO1 (foldl A32_DO1 s (take 16 buf)) (drop 16 buf)"
    by (metis append_take_drop_id foldl_append)
  then show ?case by (metis 1 a32_stretch.simps)
qed

text \<open>The sums of a stretch stay below 2^32.\<close>

lemma sums_bound:
  assumes "length buf = n" "a \<le> A" "b \<le> B"
  shows "fst (foldl sum_step (a, b) buf) \<le> A + 255 * n \<and> 2 * snd (foldl sum_step (a, b) buf) \<le> 2 * B + 2 * n * A + 255 * n * Suc n"
  using assms
proof (induction buf arbitrary: n a b A B)
  case (Cons c buf)
  have c: "unat c \<le> 255" using unat_byte_lt [of c] by linarith
  obtain m where n: "n = Suc m" "length buf = m" using Cons.prems by auto
  from Cons.IH [OF n(2), of "a + unat c" "A + 255" "b + (a + unat c)" "B + (A + 255)"] Cons.prems c
  have "fst (foldl sum_step (a, b) (c # buf)) \<le> A + 255 + 255 * m \<and>
        2 * snd (foldl sum_step (a, b) (c # buf)) \<le> 2 * (B + (A + 255)) + 2 * m * (A + 255) + 255 * m * Suc m"
    by simp
  moreover have "2 * (B + (A + 255)) + 2 * m * (A + 255) + 255 * m * Suc m \<le> 2 * B + 2 * n * A + 255 * n * Suc n"
    by (simp add: n algebra_simps)
  ultimately show ?case by (simp add: n)
qed simp

lemma sums_words: "foldl A32_DO1 (of_nat a, of_nat b) buf = map_prod of_nat of_nat (foldl sum_step (a, b) buf)"
proof (induction buf arbitrary: a b)
  case (Cons c buf)
  have "A32_DO1 (of_nat a, of_nat b) c = (of_nat (a + unat c), of_nat (b + (a + unat c)))"
    by simp
  then show ?case using Cons by (simp only: foldl_Cons step_simps)
qed simp

lemma rfc_sums:
  assumes "a mod 65521 = a' mod 65521" "b mod 65521 = b' mod 65521"
  shows "map_prod (\<lambda>x. x mod 65521) (\<lambda>x. x mod 65521) (foldl rfc_step (a, b) buf) =
         map_prod (\<lambda>x. x mod 65521) (\<lambda>x. x mod 65521) (foldl sum_step (a', b') buf)"
  using assms
proof (induction buf arbitrary: a b a' b')
  case (Cons c buf)
  have "(a + unat c) mod 65521 mod 65521 = (a' + unat c) mod 65521" using mod_add_cong [OF Cons.prems(1) refl, of "unat c"] by (simp only: mod_mod_trivial)
  moreover from this have "(b + (a + unat c)) mod 65521 mod 65521 = (b' + (a' + unat c)) mod 65521"
    using mod_add_cong [OF Cons.prems(2), of "a + unat c" "a' + unat c"] by (simp only: mod_mod_trivial)
  ultimately show ?case using Cons.IH by (simp only: foldl_Cons step_simps)
qed simp

lemma stretch_sums:
  assumes "a < 65521" "b < 65521" "length buf \<le> A32_NMAX" "foldl sum_step (a, b) buf = (x, y)"
  shows "a32_stretch (of_nat a, of_nat b) buf = (of_nat x, of_nat y)" "x < 2 ^ 32" "y < 2 ^ 32"
proof -
  show "a32_stretch (of_nat a, of_nat b) buf = (of_nat x, of_nat y)" by (simp add: stretch_foldl sums_words assms)
  let ?n = "length buf"
  have bound: "x \<le> 65520 + 255 * ?n" "2 * y \<le> 2 * 65520 + 2 * ?n * 65520 + 255 * ?n * Suc ?n"
    using sums_bound [of buf ?n a 65520 b 65520] assms by simp_all
  have n: "?n \<le> 5552" using assms by (simp add: A32_NMAX_def)
  then have "255 * ?n * Suc ?n \<le> 255 * 5552 * Suc 5552" by (intro mult_le_mono) simp_all
  with bound n show "x < 2 ^ 32" "y < 2 ^ 32" by simp_all
qed

lemma word_mod_base: "x < 2 ^ 32 \<Longrightarrow> (of_nat x mod A32_BASE :: u32) = of_nat (x mod 65521)"
  by (simp add: A32_BASE_def word_arith_nat_mod unat_of_nat)

lemma foldl_rfc_less: "a < 65521 \<Longrightarrow> b < 65521 \<Longrightarrow> foldl rfc_step (a, b) buf = (x, y) \<Longrightarrow> x < 65521 \<and> y < 65521"
proof (induction buf arbitrary: a b)
  case (Cons c buf)
  show ?case by (rule Cons.IH [of "(a + unat c) mod 65521" "(b + (a + unat c)) mod 65521"]) (use Cons.prems in simp_all)
qed simp

lemma adler_loop_rfc:
  assumes "a < 65521" "b < 65521"
  shows "adler_loop (of_nat a, of_nat b) buf = map_prod of_nat of_nat (foldl rfc_step (a, b) buf)"
  using assms
proof (induction "length buf" arbitrary: a b buf rule: less_induct)
  case less
  show ?case
  proof (cases "buf = []")
    case False
    let ?h = "take A32_NMAX buf" and ?t = "drop A32_NMAX buf"
    obtain x y where xy: "foldl sum_step (a, b) ?h = (x, y)" by force
    note st = stretch_sums [OF less.prems _ xy, simplified]
    have "map_prod (\<lambda>x. x mod 65521) (\<lambda>x. x mod 65521) (foldl rfc_step (a, b) ?h) = (x mod 65521, y mod 65521)"
      using rfc_sums [of a a b b ?h] xy by simp
    then have "foldl rfc_step (a, b) ?h = (x mod 65521, y mod 65521)"
      using foldl_rfc_less [OF less.prems, of ?h] by (cases "foldl rfc_step (a, b) ?h") auto
    then have fold: "foldl rfc_step (a, b) buf = foldl rfc_step (x mod 65521, y mod 65521) ?t"
      by (metis append_take_drop_id foldl_append)
    have "adler_loop (of_nat a, of_nat b) buf = adler_loop (of_nat (x mod 65521), of_nat (y mod 65521)) ?t"
      using False st by (subst adler_loop.simps) (simp add: word_mod_base)
    also have "\<dots> = map_prod of_nat of_nat (foldl rfc_step (x mod 65521, y mod 65521) ?t)"
      using False by (intro less.hyps) (auto simp: A32_NMAX_def)
    finally show ?thesis by (simp add: fold)
  qed (simp add: adler_loop.simps)
qed

text \<open>C36: The checksum of a window is the Adler-32 checksum of RFC 1950, in which both sums are reduced after every byte, for
  windows of every length: the delayed reduction never overflows.\<close>

theorem adler32_rfc: "adler32 1 buf = rfc_adler32 buf"
proof -
  obtain a b where ab: "foldl rfc_step (1, 0) buf = (a, b)" by force
  have "a < 65521" "b < 65521" using foldl_rfc_less [OF _ _ ab] by simp_all
  have "adler_loop (1, 0) buf = (of_nat a, of_nat b)" using adler_loop_rfc [of 1 0 buf] ab by simp
  moreover have "push_bit 16 (of_nat b :: u32) OR of_nat a = of_nat (b * 65536 + a)"
  proof -
    have "\<not> bit (of_nat a :: u32) k" if "16 \<le> k" for k
      using \<open>a < 65521\<close> power_increasing [OF that, of "2::nat"] by (intro not_bit_word_of_nat) simp
    then have "push_bit 16 (of_nat b :: u32) AND of_nat a = 0"
      by (intro bit_word_eqI) (auto simp: bit_and_iff bit_push_bit_iff)
    then have "push_bit 16 (of_nat b :: u32) OR of_nat a = push_bit 16 (of_nat b) + of_nat a"
      by (simp add: disjunctive_add_eq_or)
    then show ?thesis by (simp add: push_bit_word)
  qed
  ultimately show ?thesis using ab by (simp add: adler32_def rfc_adler32_def)
qed

end
