(* ===== verification/Xd3_Decode.thy ===== *)
theory Xd3_Decode
  imports Xd3_Table Adler32 CStdio
begin

text \<open>
  The VCDIFF decoder of xdelta3, \<^verbatim>\<open>jni/xdelta3patcher/xdelta3-decode.h\<close> with what it uses of \<^verbatim>\<open>xdelta3.c\<close> and \<^verbatim>\<open>xdelta3.h\<close>: a state
  machine that is called again and again with pieces of the input, and that asks its caller for blocks of the source.
  Sizes and offsets are 64-bit words.  A buffer is the list of the bytes that were put into it, with its capacity where the
  code allocates one; the \<^verbatim>\<open>size_t\<close> of the allocator has 32 bits.  An access outside a buffer is \<open>Crash\<close>.
\<close>

section \<open>Return codes and constants\<close>

definition XD3_INPUT :: int where "XD3_INPUT = -17703"
definition XD3_OUTPUT :: int where "XD3_OUTPUT = -17704"
definition XD3_GETSRCBLK :: int where "XD3_GETSRCBLK = -17705"
definition XD3_GOTHEADER :: int where "XD3_GOTHEADER = -17706"
definition XD3_WINSTART :: int where "XD3_WINSTART = -17707"
definition XD3_WINFINISH :: int where "XD3_WINFINISH = -17708"
definition XD3_TOOFARBACK :: int where "XD3_TOOFARBACK = -17709"
definition XD3_INTERNAL :: int where "XD3_INTERNAL = -17710"
definition XD3_UNIMPLEMENTED :: int where "XD3_UNIMPLEMENTED = -17714"
definition ENOMEM :: int where "ENOMEM = 12"

lemmas xd3_rvalues = XD3_INPUT_def XD3_OUTPUT_def XD3_GETSRCBLK_def XD3_GOTHEADER_def XD3_WINSTART_def XD3_WINFINISH_def
  XD3_TOOFARBACK_def XD3_INTERNAL_def XD3_UNIMPLEMENTED_def ENOMEM_def XD3_INVALID_INPUT_def

definition XD3_ALLOCSIZE :: usize where "XD3_ALLOCSIZE = 16384"
definition XD3_HARDMAXWINSIZE :: usize where "XD3_HARDMAXWINSIZE = 0x4000000"

text \<open>Bits of the three indicator bytes and of the flags, by their position.\<close>

definition VCD_SECONDARY :: nat where "VCD_SECONDARY = 0"
definition VCD_CODETABLE :: nat where "VCD_CODETABLE = 1"
definition VCD_APPHEADER :: nat where "VCD_APPHEADER = 2"
definition VCD_SOURCE :: nat where "VCD_SOURCE = 0"
definition VCD_TARGET :: nat where "VCD_TARGET = 1"
definition VCD_ADLER32 :: nat where "VCD_ADLER32 = 2"
definition VCD_DATACOMP :: nat where "VCD_DATACOMP = 0"
definition VCD_INSTCOMP :: nat where "VCD_INSTCOMP = 1"
definition VCD_ADDRCOMP :: nat where "VCD_ADDRCOMP = 2"
definition XD3_JUST_HDR :: nat where "XD3_JUST_HDR = 1"
definition XD3_SKIP_WINDOW :: nat where "XD3_SKIP_WINDOW = 2"
definition XD3_SKIP_EMIT :: nat where "XD3_SKIP_EMIT = 3"
definition XD3_FLUSH :: nat where "XD3_FLUSH = 4"
definition XD3_ADLER32 :: nat where "XD3_ADLER32 = 10"
definition XD3_ADLER32_NOVER :: nat where "XD3_ADLER32_NOVER = 11"

lemmas xd3_bits = VCD_SECONDARY_def VCD_CODETABLE_def VCD_APPHEADER_def VCD_SOURCE_def VCD_TARGET_def VCD_ADLER32_def
  VCD_DATACOMP_def VCD_INSTCOMP_def VCD_ADDRCOMP_def XD3_JUST_HDR_def XD3_SKIP_WINDOW_def XD3_SKIP_EMIT_def XD3_FLUSH_def
  XD3_ADLER32_def XD3_ADLER32_NOVER_def

text \<open>\<^verbatim>\<open>VCD_INVHDR\<close>, \<^verbatim>\<open>VCD_INVWIN\<close> and \<^verbatim>\<open>VCD_INVDEL\<close> are all the 32-bit number \<^verbatim>\<open>~0x7U\<close>; an indicator comes from one byte.\<close>

definition VCD_INV :: usize where "VCD_INV = 0xfffffff8"

definition VCDIFF_MAGIC :: bytes where "VCDIFF_MAGIC = [0xd6, 0xc3, 0xc4]"

section \<open>State\<close>

datatype xd3_decode_state =
    DEC_VCHEAD | DEC_HDRIND | DEC_SECONDID | DEC_TABLEN | DEC_NEAR | DEC_SAME | DEC_TABDAT | DEC_APPLEN | DEC_APPDAT
  | DEC_WININD | DEC_CPYLEN | DEC_CPYOFF | DEC_ENCLEN | DEC_TGTLEN | DEC_DELIND | DEC_DATALEN | DEC_INSTLEN | DEC_ADDRLEN
  | DEC_CKSUM | DEC_DATA | DEC_INST | DEC_ADDR | DEC_EMIT | DEC_FINISH | DEC_ABORTED

datatype xd3_section_type = DATA_SECTION | INST_SECTION | ADDR_SECTION

text \<open>A section: \<open>sect_buf\<close> are the bytes from \<^verbatim>\<open>buf\<close> on, while the section is being filled those that were put there so far;
  \<open>copied1\<close> is the capacity of the buffer of its own, if there is one.\<close>

record xd3_desect =
  sect_buf :: bytes
  sect_size :: usize
  sect_pos :: usize
  copied1 :: "nat option"
  alloc1 :: usize

record xd3_hinst =
  htype :: nat
  hsize :: usize
  haddr :: usize

record xd3_source =
  blksize :: usize
  max_winsize :: usize
  curblkno :: usize
  onblk :: usize
  curblk :: bytes
  srclen :: usize
  srcbase :: usize
  shiftby :: nat
  maskby :: usize
  cpyoff_blocks :: usize
  cpyoff_blkoff :: usize
  getblkno :: usize
  max_blkno :: usize
  onlastblk :: usize
  eof_known :: bool

text \<open>The stream.  \<open>next_in\<close> is the available input, \<open>next_out\<close> the \<^verbatim>\<open>avail_out\<close> bytes of the current window made so far, and
  \<open>out_cap\<close> the capacity of the buffer they are in; \<open>dec_magic\<close> and \<open>dec_cksum\<close> are the bytes read so far, as is the second part of
  \<open>dec_appheader\<close>, the first being its capacity.\<close>

record xd3_stream =
  next_in :: bytes
  total_in :: usize
  next_out :: bytes
  out_cap :: "nat option"
  space_out :: usize
  current_window :: usize
  total_out :: usize
  source :: "xd3_source option"
  flags :: u32
  acache :: xd3_addr_cache
  enc_state :: nat
  dec_state :: xd3_decode_state
  dec_hdr_ind :: usize
  dec_win_ind :: usize
  dec_del_ind :: usize
  dec_magic :: bytes
  dec_secondid :: usize
  dec_codetblsz :: usize
  dec_appheadsz :: usize
  dec_appheader :: "(nat \<times> bytes) option"
  dec_cksum :: bytes
  dec_adler32 :: u32
  dec_cpylen :: usize
  dec_cpyoff :: usize
  dec_enclen :: usize
  dec_tgtlen :: usize
  dec_64part :: usize
  dec_winstart :: usize
  dec_window_count :: usize
  dec_winbytes :: usize
  dec_hdrsize :: usize
  dec_position :: usize
  dec_maxpos :: usize
  dec_current1 :: xd3_hinst
  dec_current2 :: xd3_hinst
  dec_lastwin :: "nat option"
  dec_lastlen :: usize
  dec_laststart :: usize
  dec_lastspace :: usize
  inst_sect :: xd3_desect
  addr_sect :: xd3_desect
  data_sect :: xd3_desect
  code_table :: "xd3_dinst list"
  sec_type :: bool

text \<open>How a step ends: it returned 0, it returned another number, or it touched memory outside a buffer.\<close>

datatype 's run = Next 's | Stop int 's | Crash

fun and_then :: "'s run \<Rightarrow> ('s \<Rightarrow> 's run) \<Rightarrow> 's run" where
  "and_then (Next s) f = f s"
| "and_then (Stop r s) f = Stop r s"
| "and_then Crash f = Crash"

fun sect :: "xd3_section_type \<Rightarrow> xd3_stream \<Rightarrow> xd3_desect" where
  "sect DATA_SECTION s = data_sect s"
| "sect INST_SECTION s = inst_sect s"
| "sect ADDR_SECTION s = addr_sect s"

fun set_sect :: "xd3_section_type \<Rightarrow> xd3_desect \<Rightarrow> xd3_stream \<Rightarrow> xd3_stream" where
  "set_sect DATA_SECTION d s = s\<lparr>data_sect := d\<rparr>"
| "set_sect INST_SECTION d s = s\<lparr>inst_sect := d\<rparr>"
| "set_sect ADDR_SECTION d s = s\<lparr>addr_sect := d\<rparr>"

text \<open>The two half instructions: \<open>False\<close> is the first.\<close>

definition current :: "bool \<Rightarrow> xd3_stream \<Rightarrow> xd3_hinst" where
  "current second s = (if second then dec_current2 s else dec_current1 s)"

definition set_current :: "bool \<Rightarrow> xd3_hinst \<Rightarrow> xd3_stream \<Rightarrow> xd3_stream" where
  "set_current second h s = (if second then s\<lparr>dec_current2 := h\<rparr> else s\<lparr>dec_current1 := h\<rparr>)"

section \<open>Allocation\<close>

definition xd3_round_blksize :: "usize \<Rightarrow> usize \<Rightarrow> usize" where
  "xd3_round_blksize sz blksz =
     (let m = sz AND (blksz - 1) in
      if m = 0 then sz else if sz > 0x8000000000000000 then 0x8000000000000000 else sz + (blksz - m))"

text \<open>The allocator takes its count as a \<^verbatim>\<open>size_t\<close>: the number of bytes it is really asked for.\<close>

definition xd3_alloc :: "usize \<Rightarrow> usize \<Rightarrow> nat" where
  "xd3_alloc elts sz = unat (ucast elts * ucast sz :: u32)"

text \<open>The buffer and its recorded size after a request for \<open>sz\<close> bytes.\<close>

definition xd3_decode_allocate :: "usize \<Rightarrow> nat option \<Rightarrow> usize \<Rightarrow> nat option \<times> usize" where
  "xd3_decode_allocate sz buf_ptr buf_alloc =
     (let buf_ptr = (if buf_ptr \<noteq> None \<and> buf_alloc < sz then None else buf_ptr) in
      if buf_ptr = None then
        (let buf_alloc = xd3_round_blksize sz XD3_ALLOCSIZE in (Some (xd3_alloc buf_alloc 1), buf_alloc))
      else (buf_ptr, buf_alloc))"

section \<open>Reading the input\<close>

definition DECODE_INPUT :: "nat \<Rightarrow> xd3_stream \<Rightarrow> xd3_stream" where
  "DECODE_INPUT n s = s\<lparr>total_in := total_in s + of_nat n, next_in := drop n (next_in s)\<rparr>"

definition xd3_decode_byte :: "(usize \<Rightarrow> xd3_stream \<Rightarrow> xd3_stream) \<Rightarrow> xd3_stream \<Rightarrow> xd3_stream run" where
  "xd3_decode_byte store s =
     (case next_in s of [] \<Rightarrow> Stop XD3_INPUT s | b # _ \<Rightarrow> Next (DECODE_INPUT 1 (store (ucast b) s)))"

text \<open>Bytes into an array of \<open>n\<close> bytes, of which \<open>has\<close> are there already.\<close>

definition xd3_decode_bytes ::
  "(xd3_stream \<Rightarrow> bytes) \<Rightarrow> (bytes \<Rightarrow> xd3_stream \<Rightarrow> xd3_stream) \<Rightarrow> nat \<Rightarrow> xd3_stream \<Rightarrow> xd3_stream run" where
  "xd3_decode_bytes has store n s =
     (let want = n - length (has s); got = take want (next_in s); s = DECODE_INPUT (length got) (store (has s @ got) s) in
      if length got < want then Stop XD3_INPUT s else Next s)"

definition xd3_decode_size :: "(usize \<Rightarrow> xd3_stream \<Rightarrow> xd3_stream) \<Rightarrow> xd3_stream \<Rightarrow> xd3_stream run" where
  "xd3_decode_size store s =
     (let used = (\<lambda>rest. length (next_in s) - length rest) in
      case xd3_decode_loop (dec_64part s) (next_in s) of
        Further part \<Rightarrow> Stop XD3_INPUT (DECODE_INPUT (length (next_in s)) (s\<lparr>dec_64part := part\<rparr>))
      | Overflow part rest \<Rightarrow> Stop XD3_INVALID_INPUT (DECODE_INPUT (used rest) (s\<lparr>dec_64part := part\<rparr>))
      | Value v rest \<Rightarrow> Next (DECODE_INPUT (used rest) (store v (s\<lparr>dec_64part := 0\<rparr>))))"

text \<open>\<^verbatim>\<open>xd3_decode_offset\<close> is the same function on this build; the three \<^verbatim>\<open>CASE\<close> macros read under a condition and then set the state.\<close>

definition BYTE_CASE where
  "BYTE_CASE cond store nstate s =
     and_then (if cond then xd3_decode_byte store s else Next s) (\<lambda>s. Next (s\<lparr>dec_state := nstate\<rparr>))"

definition SIZE_CASE where
  "SIZE_CASE cond store nstate s =
     and_then (if cond then xd3_decode_size store s else Next s) (\<lambda>s. Next (s\<lparr>dec_state := nstate\<rparr>))"

section \<open>The three sections of a window\<close>

definition xd3_decode_finish_window :: "xd3_stream \<Rightarrow> xd3_stream run" where
  "xd3_decode_finish_window s =
     Stop XD3_OUTPUT
       (s\<lparr>dec_winbytes := 0, dec_state := DEC_FINISH, data_sect := (data_sect s)\<lparr>sect_pos := 0\<rparr>,
          inst_sect := (inst_sect s)\<lparr>sect_pos := 0\<rparr>, addr_sect := (addr_sect s)\<lparr>sect_pos := 0\<rparr>\<rparr>)"

text \<open>Taking the section in place, when all that is missing of the window is available, or copying a part of it.\<close>

definition section_in_place :: "xd3_section_type \<Rightarrow> xd3_stream \<Rightarrow> xd3_stream run" where
  "section_in_place t s =
     (let d = sect t s; n = unat (sect_size d) in
      if length (next_in s) < n then Crash
      else Next (DECODE_INPUT n (set_sect t (d\<lparr>sect_buf := take n (next_in s), sect_pos := sect_size d\<rparr>)
             (s\<lparr>dec_winbytes := dec_winbytes s + sect_size d\<rparr>))))"

definition section_copied :: "xd3_section_type \<Rightarrow> xd3_stream \<Rightarrow> xd3_stream run" where
  "section_copied t s =
     (let d = sect t s;
          n = min (unat (sect_size d - sect_pos d)) (length (next_in s));
          d = (if sect_pos d = 0
               then (let (p, a) = xd3_decode_allocate (sect_size d) (copied1 d) (alloc1 d)
                     in d\<lparr>copied1 := p, alloc1 := a, sect_buf := []\<rparr>) else d)
      in case copied1 d of
           None \<Rightarrow> Crash
         | Some cap \<Rightarrow>
             if cap < unat (sect_pos d) + n then Crash
             else Next (DECODE_INPUT n (set_sect t
                    (d\<lparr>sect_buf := sect_buf d @ take n (next_in s), sect_pos := sect_pos d + of_nat n\<rparr>)
                    (s\<lparr>dec_winbytes := dec_winbytes s + of_nat n\<rparr>))))"

definition xd3_decode_section :: "xd3_section_type \<Rightarrow> xd3_decode_state \<Rightarrow> bool \<Rightarrow> xd3_stream \<Rightarrow> xd3_stream run" where
  "xd3_decode_section t nstate copy s =
     and_then
       (if sect_pos (sect t s) < sect_size (sect t s) then
          (if next_in s = [] then Stop XD3_INPUT s
           else if \<not> copy \<and> sect_pos (sect t s) = 0 then section_in_place t s
           else section_copied t s)
        else Next s)
       (\<lambda>s. let d = sect t s in
          if sect_pos d < sect_size d then Stop XD3_INPUT s
          else Next (set_sect t (d\<lparr>sect_buf := take (unat (sect_size d)) (sect_buf d), sect_pos := 0\<rparr>) (s\<lparr>dec_state := nstate\<rparr>)))"

text \<open>Secondary compression.  \<open>lzma_init\<close> is what \<^verbatim>\<open>lzma_stream_decoder\<close> returned.  The decoded size is stored through a pointer to a
  64-bit number into a local variable of 32 bits, so that only the error paths before this are defined.\<close>

definition xd3_decode_secondary :: "int \<Rightarrow> xd3_section_type \<Rightarrow> xd3_stream \<Rightarrow> xd3_stream run" where
  "xd3_decode_secondary lzma_init t s =
     (if lzma_init \<noteq> 0 then Stop XD3_INTERNAL s
      else case xd3_read_size (sect_buf (sect t s)) of None \<Rightarrow> Stop XD3_INVALID_INPUT s | Some _ \<Rightarrow> Crash)"

definition xd3_decode_secondary_sections :: "int \<Rightarrow> xd3_stream \<Rightarrow> xd3_stream run" where
  "xd3_decode_secondary_sections lzma_init s =
     (let dec = (\<lambda>comp t s. if bit (dec_del_ind s) comp then xd3_decode_secondary lzma_init t s else Next s) in
      and_then (dec VCD_DATACOMP DATA_SECTION s) (\<lambda>s. and_then (dec VCD_INSTCOMP INST_SECTION s) (dec VCD_ADDRCOMP ADDR_SECTION)))"

definition xd3_decode_setup_buffers :: "xd3_stream \<Rightarrow> xd3_stream run" where
  "xd3_decode_setup_buffers s =
     (if bit (dec_win_ind s) VCD_TARGET then Stop XD3_UNIMPLEMENTED s
      else if space_out s < dec_tgtlen s then
        (let space = xd3_round_blksize (dec_tgtlen s) XD3_ALLOCSIZE in
         Next (s\<lparr>space_out := space, out_cap := Some (xd3_alloc space 1)\<rparr>))
      else Next s)"

definition xd3_decode_sections :: "int \<Rightarrow> xd3_stream \<Rightarrow> xd3_stream run" where
  "xd3_decode_sections lzma_init s =
     (if bit (flags s) XD3_JUST_HDR then xd3_decode_finish_window s
      else
        let ni = sect_size (inst_sect s); na = sect_size (addr_sect s); nd = sect_size (data_sect s) in
        if USIZE_T_OVERFLOW ni na then Stop XD3_INTERNAL s
        else if USIZE_T_OVERFLOW (ni + na) nd then Stop XD3_INTERNAL s
        else
          let more = ni + na + nd - dec_winbytes s;
              n = min (unat more) (length (next_in s));
              copy = (n \<noteq> unat more) in
          if bit (flags s) XD3_SKIP_WINDOW then
            (let s = DECODE_INPUT n (s\<lparr>dec_winbytes := dec_winbytes s + of_nat n\<rparr>) in
             if copy then Stop XD3_INPUT s else xd3_decode_finish_window s)
          else
            and_then
              (let addr = xd3_decode_section ADDR_SECTION DEC_EMIT copy;
                   inst = (\<lambda>s. and_then (xd3_decode_section INST_SECTION DEC_ADDR copy s) addr);
                   data = (\<lambda>s. and_then (xd3_decode_section DATA_SECTION DEC_INST copy s) inst)
               in case dec_state s of DEC_DATA \<Rightarrow> data s | DEC_INST \<Rightarrow> inst s | DEC_ADDR \<Rightarrow> addr s | _ \<Rightarrow> Stop XD3_INVALID_INPUT s)
              (\<lambda>s. and_then (xd3_decode_secondary_sections lzma_init s)
                 (\<lambda>s. if bit (flags s) XD3_SKIP_EMIT then xd3_decode_finish_window s else xd3_decode_setup_buffers s)))"

section \<open>Instructions\<close>

definition xd3_decode_parse_halfinst :: "bool \<Rightarrow> xd3_stream \<Rightarrow> xd3_stream run" where
  "xd3_decode_parse_halfinst second s =
     and_then
       (if hsize (current second s) = 0 then
          (case xd3_read_size (sect_buf (inst_sect s)) of
             None \<Rightarrow> Stop XD3_INVALID_INPUT s
           | Some (v, rest) \<Rightarrow>
               Next (set_current second ((current second s)\<lparr>hsize := v\<rparr>) (s\<lparr>inst_sect := (inst_sect s)\<lparr>sect_buf := rest\<rparr>\<rparr>)))
        else Next s)
       (\<lambda>s. and_then
         (if XD3_CPY \<le> htype (current second s) then
            (case xd3_decode_address (acache s) (dec_position s) (htype (current second s) - XD3_CPY) (sect_buf (addr_sect s)) of
               Outside \<Rightarrow> Crash
             | Failed r \<Rightarrow> Stop r s
             | Got (addr, rest, c) \<Rightarrow>
                 let h = (current second s)\<lparr>haddr := addr\<rparr>;
                     s = set_current second h (s\<lparr>acache := c, addr_sect := (addr_sect s)\<lparr>sect_buf := rest\<rparr>\<rparr>) in
                 if addr \<ge> dec_position s then Stop XD3_INVALID_INPUT s
                 else if addr < dec_cpylen s \<and> addr + hsize h > dec_cpylen s then Stop XD3_INVALID_INPUT s
                 else Next s)
          else Next s)
         (\<lambda>s. let n = hsize (current second s) in
            if dec_position s + n > dec_maxpos s then Stop XD3_INVALID_INPUT s
            else Next (s\<lparr>dec_position := dec_position s + n\<rparr>)))"

definition xd3_decode_instruction :: "xd3_stream \<Rightarrow> xd3_stream run" where
  "xd3_decode_instruction s =
     (case sect_buf (inst_sect s) of
        [] \<Rightarrow> Stop XD3_INVALID_INPUT s
      | b # rest \<Rightarrow>
          let inst = code_table s ! unat b;
              s = s\<lparr>inst_sect := (inst_sect s)\<lparr>sect_buf := rest\<rparr>,
                    dec_current1 := (dec_current1 s)\<lparr>htype := type1 inst, hsize := of_nat (size1 inst)\<rparr>,
                    dec_current2 := (dec_current2 s)\<lparr>htype := type2 inst, hsize := of_nat (size2 inst)\<rparr>\<rparr>
          in if length (code_table s) \<le> unat b then Crash
             else and_then (if type1 inst \<noteq> XD3_NOOP then xd3_decode_parse_halfinst False s else Next s)
                    (\<lambda>s. if type2 inst \<noteq> XD3_NOOP then xd3_decode_parse_halfinst True s else Next s))"

section \<open>Source blocks\<close>

definition xd3_blksize_div :: "usize \<Rightarrow> xd3_source \<Rightarrow> usize \<times> usize" where
  "xd3_blksize_div offset src = (drop_bit (shiftby src) offset, offset AND maskby src)"

definition xd3_blksize_add :: "usize \<Rightarrow> usize \<Rightarrow> xd3_source \<Rightarrow> usize \<Rightarrow> usize \<times> usize" where
  "xd3_blksize_add blkno blkoff src add =
     (let blkoff = blkoff + add; blkdiff = drop_bit (shiftby src) blkoff in
      if blkdiff \<noteq> 0 then (blkno + blkdiff, blkoff AND maskby src) else (blkno, blkoff))"

text \<open>No callback is configured, so that a missing block is always asked for by returning.\<close>

definition xd3_getblk :: "usize \<Rightarrow> xd3_source \<Rightarrow> xd3_source run" where
  "xd3_getblk blkno src =
     (if blkno \<noteq> curblkno src then Stop XD3_GETSRCBLK (src\<lparr>getblkno := blkno\<rparr>)
      else
        let src = (if blkno > max_blkno src
                   then src\<lparr>max_blkno := blkno, eof_known := eof_known src \<or> onblk src \<noteq> blksize src\<rparr> else src)
        in Next (if blkno = max_blkno src then src\<lparr>onlastblk := onblk src\<rparr> else src))"

section \<open>Output\<close>

text \<open>Writing \<open>bs\<close> behind the output made so far.\<close>

definition put_out :: "bytes \<Rightarrow> xd3_stream \<Rightarrow> xd3_stream run" where
  "put_out bs s =
     (if (case out_cap s of None \<Rightarrow> 0 | Some n \<Rightarrow> n) < length (next_out s) + length bs then Crash
      else Next (s\<lparr>next_out := next_out s @ bs\<rparr>))"

text \<open>The copy inside the window goes byte by byte, since it may read what it has just written.\<close>

primrec copy_forward :: "nat \<Rightarrow> nat \<Rightarrow> bytes \<Rightarrow> bytes option" where
  "copy_forward 0 j out = Some out"
| "copy_forward (Suc n) j out = (if j < length out then copy_forward n (Suc j) (out @ [out ! j]) else None)"

definition finish_inst :: "bool \<Rightarrow> xd3_stream \<Rightarrow> xd3_stream" where
  "finish_inst second s = set_current second ((current second s)\<lparr>htype := XD3_NOOP\<rparr>) s"

definition done_inst :: "bool \<Rightarrow> xd3_stream \<Rightarrow> xd3_stream" where
  "done_inst second s = set_current second ((current second s)\<lparr>htype := XD3_NOOP, hsize := 0\<rparr>) s"

definition output_run :: "bool \<Rightarrow> xd3_stream \<Rightarrow> xd3_stream run" where
  "output_run second s =
     (case sect_buf (data_sect s) of
        [] \<Rightarrow> Stop XD3_INVALID_INPUT s
      | b # rest \<Rightarrow>
          and_then (put_out (replicate (unat (hsize (current second s))) b) s)
            (\<lambda>s. Next (finish_inst second (s\<lparr>data_sect := (data_sect s)\<lparr>sect_buf := rest\<rparr>\<rparr>))))"

definition output_add :: "bool \<Rightarrow> xd3_stream \<Rightarrow> xd3_stream run" where
  "output_add second s =
     (let n = unat (hsize (current second s)); d = sect_buf (data_sect s) in
      if length d < n then Stop XD3_INVALID_INPUT s
      else and_then (put_out (take n d) s)
             (\<lambda>s. Next (finish_inst second (s\<lparr>data_sect := (data_sect s)\<lparr>sect_buf := drop n d\<rparr>\<rparr>))))"

text \<open>How much of a copy the block at hand gives, and what is left of the instruction.\<close>

definition source_part :: "bool \<Rightarrow> usize \<Rightarrow> usize \<Rightarrow> xd3_stream \<Rightarrow> usize \<times> xd3_stream" where
  "source_part second bsize blkoff s =
     (let h = current second s in
      if blkoff + hsize h \<le> bsize then (hsize h, done_inst second s)
      else let n = bsize - blkoff in (n, set_current second (h\<lparr>hsize := hsize h - n, haddr := haddr h + n\<rparr>) s))"

definition output_source_copy :: "bool \<Rightarrow> xd3_stream \<Rightarrow> xd3_stream run" where
  "output_source_copy second s =
     (if bit (dec_win_ind s) VCD_TARGET then Stop XD3_UNIMPLEMENTED (done_inst second s)
      else case source s of
          None \<Rightarrow> Crash
        | Some src \<Rightarrow>
            let h = current second s;
                (block, blkoff) = xd3_blksize_add (cpyoff_blocks src) (cpyoff_blkoff src) src (haddr h) in
            case xd3_getblk block src of
              Crash \<Rightarrow> Crash
            | Stop r src \<Rightarrow> Stop (if r = XD3_TOOFARBACK then XD3_INTERNAL else r) (s\<lparr>source := Some src\<rparr>)
            | Next src \<Rightarrow>
                let s = s\<lparr>source := Some src\<rparr> in
                if onblk src \<noteq> blksize src \<and> blkoff + hsize h > onblk src then Stop XD3_INVALID_INPUT s
                else
                  let (n, s) = source_part second (blksize src) blkoff s
                  in if length (curblk src) < unat blkoff + unat n then Crash
                     else put_out (take (unat n) (drop (unat blkoff) (curblk src))) s)"

definition output_target_copy :: "bool \<Rightarrow> xd3_stream \<Rightarrow> xd3_stream run" where
  "output_target_copy second s =
     (let h = current second s in
      case copy_forward (unat (hsize h)) (unat (haddr h - dec_cpylen s)) (next_out s) of
        None \<Rightarrow> Crash
      | Some out \<Rightarrow> and_then (put_out (drop (length (next_out s)) out) s) (\<lambda>s. Next (done_inst second s)))"

definition xd3_decode_output_halfinst :: "bool \<Rightarrow> xd3_stream \<Rightarrow> xd3_stream run" where
  "xd3_decode_output_halfinst second s =
     (let h = current second s; avail_out = of_nat (length (next_out s)) in
      if USIZE_T_OVERFLOW avail_out (hsize h) \<or> avail_out + hsize h > space_out s then Stop XD3_INVALID_INPUT s
      else if htype h = XD3_RUN then output_run second s
      else if htype h = XD3_ADD then output_add second s
      else if haddr h < dec_cpylen s then output_source_copy second s
      else output_target_copy second s)"

text \<open>The loops over an instruction and over the window; a value \<open>None\<close> would be a run without end.\<close>

partial_function (option) output_inst :: "bool \<Rightarrow> xd3_stream \<Rightarrow> xd3_stream run option" where
  "output_inst second s =
     (if htype (current second s) = XD3_NOOP then Some (Next s)
      else case xd3_decode_output_halfinst second s of
          Next s \<Rightarrow> output_inst second s
        | Stop r s \<Rightarrow> Some (Stop r s)
        | Crash \<Rightarrow> Some Crash)"

definition next_instruction :: "xd3_stream \<Rightarrow> xd3_stream run" where
  "next_instruction s =
     (if htype (dec_current1 s) = XD3_NOOP \<and> htype (dec_current2 s) = XD3_NOOP then xd3_decode_instruction s else Next s)"

partial_function (option) emit_loop :: "xd3_stream \<Rightarrow> xd3_stream run option" where
  "emit_loop s =
     (if sect_buf (inst_sect s) = [] \<and> htype (dec_current1 s) = XD3_NOOP \<and> htype (dec_current2 s) = XD3_NOOP then Some (Next s)
      else case next_instruction s of
          Stop r s \<Rightarrow> Some (Stop r s)
        | Crash \<Rightarrow> Some Crash
        | Next s \<Rightarrow>
            Option.bind (output_inst False s) (\<lambda>r. case r of
              Stop r s \<Rightarrow> Some (Stop r s)
            | Crash \<Rightarrow> Some Crash
            | Next s \<Rightarrow>
                Option.bind (output_inst True s) (\<lambda>r. case r of
                  Stop r s \<Rightarrow> Some (Stop r s)
                | Crash \<Rightarrow> Some Crash
                | Next s \<Rightarrow> emit_loop s)))"

definition emit_checks :: "xd3_stream \<Rightarrow> xd3_stream run" where
  "emit_checks s =
     (if of_nat (length (next_out s)) \<noteq> dec_tgtlen s then Stop XD3_INVALID_INPUT s
      else if sect_buf (data_sect s) \<noteq> [] then Stop XD3_INVALID_INPUT s
      else if sect_buf (addr_sect s) \<noteq> [] then Stop XD3_INVALID_INPUT s
      else if bit (dec_win_ind s) VCD_ADLER32 \<and> \<not> bit (flags s) XD3_ADLER32_NOVER \<and> adler32 1 (next_out s) \<noteq> dec_adler32 s
      then Stop XD3_INVALID_INPUT s
      else xd3_decode_finish_window s)"

definition xd3_decode_emit :: "xd3_stream \<Rightarrow> xd3_stream run option" where
  "xd3_decode_emit s = map_option (\<lambda>r. and_then r emit_checks) (emit_loop s)"

section \<open>The state machine\<close>

text \<open>One definition per case; each falls through to the one before it in this text.\<close>

definition dec_finish :: "xd3_stream \<Rightarrow> xd3_stream run" where
  "dec_finish s =
     (let s = (if bit (dec_win_ind s) VCD_TARGET then
                 (if dec_lastwin s = None then s\<lparr>dec_lastwin := out_cap s, dec_lastspace := space_out s\<rparr>
                  else s\<lparr>dec_lastwin := out_cap s, out_cap := dec_lastwin s, dec_lastspace := space_out s, space_out := dec_lastspace s\<rparr>)
               else s)
      in Stop XD3_WINFINISH
           (s\<lparr>dec_lastlen := dec_tgtlen s, dec_laststart := dec_winstart s, dec_window_count := dec_window_count s + 1,
              dec_state := DEC_WININD\<rparr>))"

definition dec_emit_state :: "xd3_stream \<Rightarrow> xd3_stream run option" where
  "dec_emit_state s =
     (if bit (dec_win_ind s) VCD_SOURCE \<and> source s = None then Some (Stop XD3_INVALID_INPUT s)
      else
        let s = (if bit (dec_win_ind s) VCD_SOURCE
                 then (let src = the (source s); (b, o') = xd3_blksize_div (dec_cpyoff s) src
                       in s\<lparr>source := Some (src\<lparr>cpyoff_blocks := b, cpyoff_blkoff := o'\<rparr>)\<rparr>)
                 else s)
        in map_option (\<lambda>r. case r of
               Stop r s \<Rightarrow> Stop r (if r = XD3_OUTPUT then s\<lparr>total_out := total_out s + of_nat (length (next_out s))\<rparr> else s)
             | r \<Rightarrow> r) (xd3_decode_emit s))"

definition dec_sections :: "int \<Rightarrow> xd3_stream \<Rightarrow> xd3_stream run option" where
  "dec_sections lzma_init s = (case xd3_decode_sections lzma_init s of Next s \<Rightarrow> dec_emit_state s | r \<Rightarrow> Some r)"

definition enclen_check :: "xd3_stream \<Rightarrow> usize" where
  "enclen_check s =
     ucast (1 + (xd3_sizeof_size (dec_tgtlen s) + xd3_sizeof_size (sect_size (data_sect s)) +
                 xd3_sizeof_size (sect_size (inst_sect s)) + xd3_sizeof_size (sect_size (addr_sect s)))) +
     sect_size (data_sect s) + sect_size (inst_sect s) + sect_size (addr_sect s) + (if bit (dec_win_ind s) VCD_ADLER32 then 4 else 0)"

definition dec_cksum_state :: "xd3_stream \<Rightarrow> xd3_stream run" where
  "dec_cksum_state s =
     and_then
       (if bit (dec_win_ind s) VCD_ADLER32
        then and_then (xd3_decode_bytes dec_cksum (\<lambda>b. dec_cksum_update (\<lambda>_. b)) 4 s)
               (\<lambda>s. Next (s\<lparr>dec_adler32 := foldl (\<lambda>a b. push_bit 8 a OR ucast b) (dec_adler32 s) (dec_cksum s)\<rparr>))
        else Next s)
       (\<lambda>s. let s = s\<lparr>dec_state := DEC_DATA\<rparr> in
          if dec_enclen s \<noteq> enclen_check s then Stop XD3_INVALID_INPUT s
          else Stop (if current_window s = 0 then XD3_GOTHEADER else XD3_WINSTART) s)"

definition dec_addrlen :: "xd3_stream \<Rightarrow> xd3_stream run" where
  "dec_addrlen s = and_then (SIZE_CASE True (\<lambda>v s. s\<lparr>addr_sect := (addr_sect s)\<lparr>sect_size := v\<rparr>\<rparr>) DEC_CKSUM s) dec_cksum_state"

definition dec_instlen :: "xd3_stream \<Rightarrow> xd3_stream run" where
  "dec_instlen s = and_then (SIZE_CASE True (\<lambda>v s. s\<lparr>inst_sect := (inst_sect s)\<lparr>sect_size := v\<rparr>\<rparr>) DEC_ADDRLEN s) dec_addrlen"

definition dec_datalen :: "xd3_stream \<Rightarrow> xd3_stream run" where
  "dec_datalen s = and_then (SIZE_CASE True (\<lambda>v s. s\<lparr>data_sect := (data_sect s)\<lparr>sect_size := v\<rparr>\<rparr>) DEC_INSTLEN s) dec_instlen"

definition dec_delind :: "xd3_stream \<Rightarrow> xd3_stream run" where
  "dec_delind s =
     and_then (BYTE_CASE True (\<lambda>v. dec_del_ind_update (\<lambda>_. v)) DEC_DATALEN s)
       (\<lambda>s. if dec_del_ind s AND VCD_INV \<noteq> 0 then Stop XD3_INVALID_INPUT s
            else if dec_del_ind s \<noteq> 0 \<and> \<not> sec_type s then Stop XD3_INVALID_INPUT s
            else dec_datalen s)"

definition dec_tgtlen_state :: "xd3_stream \<Rightarrow> xd3_stream run" where
  "dec_tgtlen_state s =
     and_then (SIZE_CASE True (\<lambda>v. dec_tgtlen_update (\<lambda>_. v)) DEC_DELIND s)
       (\<lambda>s. if USIZE_T_OVERFLOW (dec_cpylen s) (dec_tgtlen s) then Stop XD3_INVALID_INPUT s
            else if dec_tgtlen s > XD3_HARDMAXWINSIZE then Stop XD3_INVALID_INPUT s
            else dec_delind (s\<lparr>dec_maxpos := dec_cpylen s + dec_tgtlen s\<rparr>))"

definition dec_enclen_state :: "xd3_stream \<Rightarrow> xd3_stream run" where
  "dec_enclen_state s = and_then (SIZE_CASE True (\<lambda>v. dec_enclen_update (\<lambda>_. v)) DEC_TGTLEN s) dec_tgtlen_state"

definition SRCORTGT :: "usize \<Rightarrow> bool" where
  "SRCORTGT x \<longleftrightarrow> bit x VCD_SOURCE \<noteq> bit x VCD_TARGET"

definition dec_cpyoff_state :: "xd3_stream \<Rightarrow> xd3_stream run" where
  "dec_cpyoff_state s =
     and_then (SIZE_CASE (SRCORTGT (dec_win_ind s)) (\<lambda>v. dec_cpyoff_update (\<lambda>_. v)) DEC_ENCLEN s)
       (\<lambda>s. if USIZE_T_OVERFLOW (dec_cpyoff s) (dec_cpylen s) then Stop XD3_INVALID_INPUT s
            else if bit (dec_win_ind s) VCD_TARGET \<and> dec_cpyoff s + dec_cpylen s > dec_winstart s then Stop XD3_INVALID_INPUT s
            else dec_enclen_state s)"

definition dec_cpylen_state :: "xd3_stream \<Rightarrow> xd3_stream run" where
  "dec_cpylen_state s =
     and_then (SIZE_CASE (SRCORTGT (dec_win_ind s)) (\<lambda>v. dec_cpylen_update (\<lambda>_. v)) DEC_CPYOFF s)
       (\<lambda>s. dec_cpyoff_state (s\<lparr>dec_position := dec_cpylen s\<rparr>))"

definition xd3_decode_init_window :: "xd3_stream \<Rightarrow> xd3_stream" where
  "xd3_decode_init_window s = s\<lparr>dec_cpylen := 0, dec_cpyoff := 0, dec_cksum := [], acache := xd3_init_cache (acache s)\<rparr>"

definition dec_winind :: "xd3_stream \<Rightarrow> xd3_stream run" where
  "dec_winind s =
     and_then (xd3_decode_byte (\<lambda>v. dec_win_ind_update (\<lambda>_. v)) s)
       (\<lambda>s. let s = s\<lparr>current_window := dec_window_count s\<rparr> in
          if USIZE_T_OVERFLOW (dec_winstart s) (dec_tgtlen s) then Stop XD3_INVALID_INPUT s
          else
            let s = s\<lparr>dec_winstart := dec_winstart s + dec_tgtlen s\<rparr> in
            if dec_win_ind s AND VCD_INV \<noteq> 0 then Stop XD3_INVALID_INPUT s
            else dec_cpylen_state ((xd3_decode_init_window s)\<lparr>dec_state := DEC_CPYLEN\<rparr>))"

text \<open>The application header is read into a buffer with room for a final zero.\<close>

definition dec_appdat :: "xd3_stream \<Rightarrow> xd3_stream run" where
  "dec_appdat s =
     and_then
       (if bit (dec_hdr_ind s) VCD_APPHEADER then
          (if USIZE_T_OVERFLOW (dec_appheadsz s) 1 then Stop XD3_INVALID_INPUT s
           else
             let s = (if dec_appheader s = None then s\<lparr>dec_appheader := Some (xd3_alloc (dec_appheadsz s + 1) 1, [])\<rparr> else s);
                 (cap, _) = the (dec_appheader s) in
             if cap \<le> unat (dec_appheadsz s) then Crash
             else xd3_decode_bytes (\<lambda>s. snd (the (dec_appheader s))) (\<lambda>b. dec_appheader_update (\<lambda>_. Some (cap, b)))
                    (unat (dec_appheadsz s)) s)
        else Next s)
       (\<lambda>s. dec_winind (s\<lparr>dec_hdrsize := total_in s, dec_state := DEC_WININD\<rparr>))"

definition dec_applen :: "xd3_stream \<Rightarrow> xd3_stream run" where
  "dec_applen s =
     and_then (SIZE_CASE (bit (dec_hdr_ind s) VCD_APPHEADER) (\<lambda>v. dec_appheadsz_update (\<lambda>_. v)) DEC_APPDAT s) dec_appdat"

text \<open>The arrays of a new cache have no content before \<^const>\<open>xd3_init_cache\<close>.\<close>

definition xd3_alloc_cache :: "xd3_addr_cache \<Rightarrow> xd3_addr_cache" where
  "xd3_alloc_cache c = c\<lparr>near_array := [], same_array := []\<rparr>"

definition dec_tabdat :: "xd3_stream \<Rightarrow> xd3_stream run" where
  "dec_tabdat s =
     (if bit (dec_hdr_ind s) VCD_CODETABLE then Stop XD3_UNIMPLEMENTED s
      else dec_applen
        (s\<lparr>acache := xd3_alloc_cache ((acache s)
             \<lparr>s_near := near_modes rfc3284_code_table_desc, s_same := same_modes rfc3284_code_table_desc\<rparr>),
           code_table := xd3_rfc3284_code_table, dec_state := DEC_APPLEN\<rparr>))"

definition dec_same :: "xd3_stream \<Rightarrow> xd3_stream run" where
  "dec_same s =
     and_then (BYTE_CASE (bit (dec_hdr_ind s) VCD_CODETABLE) (\<lambda>v s. s\<lparr>acache := (acache s)\<lparr>s_same := unat v\<rparr>\<rparr>) DEC_TABDAT s) dec_tabdat"

definition dec_near :: "xd3_stream \<Rightarrow> xd3_stream run" where
  "dec_near s =
     and_then (BYTE_CASE (bit (dec_hdr_ind s) VCD_CODETABLE) (\<lambda>v s. s\<lparr>acache := (acache s)\<lparr>s_near := unat v\<rparr>\<rparr>) DEC_SAME s) dec_same"

definition dec_tablen :: "xd3_stream \<Rightarrow> xd3_stream run" where
  "dec_tablen s =
     and_then (SIZE_CASE (bit (dec_hdr_ind s) VCD_CODETABLE) (\<lambda>v. dec_codetblsz_update (\<lambda>_. v)) DEC_NEAR s)
       (\<lambda>s. if bit (dec_hdr_ind s) VCD_CODETABLE
            then (if dec_codetblsz s \<le> 2 then Stop ENOMEM s else dec_near (s\<lparr>dec_codetblsz := dec_codetblsz s - 2\<rparr>))
            else dec_near s)"

definition dec_secondid_state :: "xd3_stream \<Rightarrow> xd3_stream run" where
  "dec_secondid_state s =
     (if bit (dec_hdr_ind s) VCD_SECONDARY then
        and_then (BYTE_CASE True (\<lambda>v. dec_secondid_update (\<lambda>_. v)) DEC_TABLEN s)
          (\<lambda>s. if dec_secondid s = 16 \<or> dec_secondid s = 1 then Stop XD3_INTERNAL s
               else if dec_secondid s = 2 then dec_tablen (s\<lparr>sec_type := True\<rparr>)
               else Stop XD3_INVALID_INPUT s)
      else dec_tablen s)"

definition dec_hdrind :: "xd3_stream \<Rightarrow> xd3_stream run" where
  "dec_hdrind s =
     and_then (xd3_decode_byte (\<lambda>v. dec_hdr_ind_update (\<lambda>_. v)) s)
       (\<lambda>s. if dec_hdr_ind s AND VCD_INV \<noteq> 0 then Stop XD3_INVALID_INPUT s
            else dec_secondid_state (s\<lparr>dec_state := DEC_SECONDID\<rparr>))"

definition dec_vchead :: "xd3_stream \<Rightarrow> xd3_stream run" where
  "dec_vchead s =
     and_then (xd3_decode_bytes dec_magic (\<lambda>b. dec_magic_update (\<lambda>_. b)) 4 s)
       (\<lambda>s. if take 3 (dec_magic s) \<noteq> VCDIFF_MAGIC then Stop XD3_INVALID_INPUT s
            else if dec_magic s ! 3 \<noteq> 0 then Stop XD3_INVALID_INPUT s
            else dec_hdrind (s\<lparr>dec_state := DEC_HDRIND\<rparr>))"

definition xd3_decode_input :: "int \<Rightarrow> xd3_stream \<Rightarrow> xd3_stream run option" where
  "xd3_decode_input lzma_init s =
     (if enc_state s \<noteq> 0 then Some (Stop XD3_INVALID_INPUT s)
      else case dec_state s of
          DEC_VCHEAD \<Rightarrow> Some (dec_vchead s)
        | DEC_HDRIND \<Rightarrow> Some (dec_hdrind s)
        | DEC_SECONDID \<Rightarrow> Some (dec_secondid_state s)
        | DEC_TABLEN \<Rightarrow> Some (dec_tablen s)
        | DEC_NEAR \<Rightarrow> Some (dec_near s)
        | DEC_SAME \<Rightarrow> Some (dec_same s)
        | DEC_TABDAT \<Rightarrow> Some (dec_tabdat s)
        | DEC_APPLEN \<Rightarrow> Some (dec_applen s)
        | DEC_APPDAT \<Rightarrow> Some (dec_appdat s)
        | DEC_WININD \<Rightarrow> Some (dec_winind s)
        | DEC_CPYLEN \<Rightarrow> Some (dec_cpylen_state s)
        | DEC_CPYOFF \<Rightarrow> Some (dec_cpyoff_state s)
        | DEC_ENCLEN \<Rightarrow> Some (dec_enclen_state s)
        | DEC_TGTLEN \<Rightarrow> Some (dec_tgtlen_state s)
        | DEC_DELIND \<Rightarrow> Some (dec_delind s)
        | DEC_DATALEN \<Rightarrow> Some (dec_datalen s)
        | DEC_INSTLEN \<Rightarrow> Some (dec_instlen s)
        | DEC_ADDRLEN \<Rightarrow> Some (dec_addrlen s)
        | DEC_CKSUM \<Rightarrow> Some (dec_cksum_state s)
        | DEC_DATA \<Rightarrow> dec_sections lzma_init s
        | DEC_INST \<Rightarrow> dec_sections lzma_init s
        | DEC_ADDR \<Rightarrow> dec_sections lzma_init s
        | DEC_EMIT \<Rightarrow> dec_emit_state s
        | DEC_FINISH \<Rightarrow> Some (dec_finish s)
        | DEC_ABORTED \<Rightarrow> Some (Stop XD3_INVALID_INPUT s))"

section \<open>Opening and closing a stream\<close>

definition empty_sect :: xd3_desect where
  "empty_sect = \<lparr>sect_buf = [], sect_size = 0, sect_pos = 0, copied1 = None, alloc1 = 0\<rparr>"

definition empty_hinst :: xd3_hinst where
  "empty_hinst = \<lparr>htype = XD3_NOOP, hsize = 0, haddr = 0\<rparr>"

text \<open>What \<^verbatim>\<open>xd3_config_stream\<close> leaves in the fields the decoder uses: all zero, with the flags of the configuration.\<close>

definition xd3_config_stream :: "u32 \<Rightarrow> xd3_stream" where
  "xd3_config_stream cflags =
     \<lparr>next_in = [], total_in = 0, next_out = [], out_cap = None, space_out = 0, current_window = 0, total_out = 0,
      source = None, flags = cflags,
      acache = \<lparr>s_near = 0, s_same = 0, next_slot = 0, near_array = [], same_array = []\<rparr>,
      enc_state = 0, dec_state = DEC_VCHEAD, dec_hdr_ind = 0, dec_win_ind = 0, dec_del_ind = 0, dec_magic = [],
      dec_secondid = 0, dec_codetblsz = 0, dec_appheadsz = 0, dec_appheader = None, dec_cksum = [], dec_adler32 = 0,
      dec_cpylen = 0, dec_cpyoff = 0, dec_enclen = 0, dec_tgtlen = 0, dec_64part = 0, dec_winstart = 0,
      dec_window_count = 0, dec_winbytes = 0, dec_hdrsize = 0, dec_position = 0, dec_maxpos = 0,
      dec_current1 = empty_hinst, dec_current2 = empty_hinst, dec_lastwin = None, dec_lastlen = 0, dec_laststart = 0,
      dec_lastspace = 0, inst_sect = empty_sect, addr_sect = empty_sect, data_sect = empty_sect, code_table = [], sec_type = False\<rparr>"

text \<open>The logarithm of a power of two: the loop shifts a bit out of the word, which takes 64 rounds.\<close>

primrec check_pow2_loop :: "nat \<Rightarrow> usize \<Rightarrow> nat \<Rightarrow> usize \<Rightarrow> int \<times> nat" where
  "check_pow2_loop 0 x logof value = (XD3_INTERNAL, logof)"
| "check_pow2_loop (Suc n) x logof value = (if x = value then (0, logof) else check_pow2_loop n (push_bit 1 x) (Suc logof) value)"

definition xd3_check_pow2 :: "usize \<Rightarrow> int \<times> nat" where
  "xd3_check_pow2 value = check_pow2_loop 64 1 0 value"

text \<open>Beyond 2^63 this loop has no end.\<close>

partial_function (option) roundup_loop :: "usize \<Rightarrow> usize \<Rightarrow> usize option" where
  "roundup_loop x i = (if x > i then roundup_loop x (push_bit 1 i) else Some i)"

definition xd3_pow2_roundup :: "usize \<Rightarrow> usize option" where
  "xd3_pow2_roundup x = roundup_loop x 1"

definition xd3_xoff_roundup :: "usize \<Rightarrow> usize option" where
  "xd3_xoff_roundup x = roundup_loop x 1"

definition xd3_set_source :: "xd3_stream \<Rightarrow> xd3_source \<Rightarrow> xd3_stream option" where
  "xd3_set_source s src =
     Option.bind (if fst (xd3_check_pow2 (blksize src)) \<noteq> 0 then xd3_pow2_roundup (blksize src) else Some (blksize src)) (\<lambda>b.
     Option.bind (if fst (xd3_check_pow2 (max_winsize src)) \<noteq> 0 then xd3_xoff_roundup (max_winsize src) else Some (max_winsize src)) (\<lambda>w.
     let shift = snd (xd3_check_pow2 b) in
     Some (s\<lparr>source := Some (src\<lparr>srclen := 0, srcbase := 0, blksize := b, shiftby := shift, maskby := push_bit shift 1 - 1,
       max_winsize := max w XD3_ALLOCSIZE\<rparr>)\<rparr>)))"

definition xd3_avail_input :: "bytes \<Rightarrow> xd3_stream \<Rightarrow> xd3_stream" where
  "xd3_avail_input idata s = s\<lparr>next_in := idata\<rparr>"

definition xd3_consume_output :: "xd3_stream \<Rightarrow> xd3_stream" where
  "xd3_consume_output s = s\<lparr>next_out := []\<rparr>"

definition xd3_set_flags :: "u32 \<Rightarrow> xd3_stream \<Rightarrow> xd3_stream" where
  "xd3_set_flags f s = s\<lparr>flags := f\<rparr>"

text \<open>Closing a decoder, an encoder state other than 0 being left out.\<close>

definition xd3_close_stream :: "xd3_stream \<Rightarrow> int" where
  "xd3_close_stream s = (if dec_state s \<in> {DEC_VCHEAD, DEC_WININD, DEC_ABORTED} then 0 else XD3_INVALID_INPUT)"

section \<open>The patcher\<close>

record code_state =
  decoder :: xd3_stream
  InFile :: stream
  SrcFile :: "stream option"
  OutFile :: stream
  Input_Buf_Read :: nat

definition BufSize :: nat where "BufSize = 16384"

text \<open>The next piece of the patch.\<close>

definition read_input :: "code_state \<Rightarrow> code_state" where
  "read_input st =
     (let (idata, f) = fread BufSize (InFile st);
          s = decoder st;
          s = (if length idata < BufSize then xd3_set_flags (push_bit XD3_FLUSH 1 OR flags s) s else s)
      in st\<lparr>InFile := f, decoder := xd3_avail_input idata s, Input_Buf_Read := length idata\<rparr>)"

text \<open>A block of the source.  The position is passed to \<^verbatim>\<open>fseek\<close> as a \<^verbatim>\<open>long\<close> of 32 bits.\<close>

definition load_block :: "code_state \<Rightarrow> code_state outcome" where
  "load_block st =
     (case (SrcFile st, source (decoder st)) of
        (Some f, Some src) \<Rightarrow>
          (let (r, f) = fseek_set (sint (ucast (blksize src * getblkno src) :: u32)) f in
           if r \<noteq> 0 then Returned r (st\<lparr>SrcFile := Some f\<rparr>)
           else
             let (n, buf, f) = fread_into (curblk src) (unat (blksize src)) f in
             Returned 0 (st\<lparr>SrcFile := Some f,
               decoder := (decoder st)\<lparr>source := Some (src\<lparr>onblk := of_nat n, curblk := buf, curblkno := getblkno src\<rparr>)\<rparr>\<rparr>))
      | (None, _) \<Rightarrow> Returned 0 st
      | _ \<Rightarrow> Undefined)"

partial_function (option) code_loop :: "int \<Rightarrow> code_state \<Rightarrow> code_state outcome option" where
  "code_loop lzma_init st =
     Option.bind (xd3_decode_input lzma_init (decoder st)) (\<lambda>r. case r of
       Crash \<Rightarrow> Some Undefined
     | Next s \<Rightarrow> Some (Returned 0 (st\<lparr>decoder := s\<rparr>))
     | Stop ret s \<Rightarrow>
         let st = st\<lparr>decoder := s\<rparr> in
         if ret = XD3_INPUT then
           (if Input_Buf_Read st = BufSize then code_loop lzma_init (read_input st) else Some (Returned 0 st))
         else if ret = XD3_OUTPUT then
           code_loop lzma_init (st\<lparr>OutFile := fwrite (next_out s) (OutFile st), decoder := xd3_consume_output s\<rparr>)
         else if ret = XD3_GETSRCBLK then
           (case load_block st of
              Returned r st \<Rightarrow> if r \<noteq> 0 then Some (Returned r st) else code_loop lzma_init st
            | Exited r st \<Rightarrow> Some (Exited r st)
            | Undefined \<Rightarrow> Some Undefined)
         else if ret = XD3_GOTHEADER \<or> ret = XD3_WINSTART \<or> ret = XD3_WINFINISH then code_loop lzma_init st
         else Some (Returned ret st))"

text \<open>\<open>junk\<close> is what the memory of the block buffer holds at first.\<close>

definition open_source :: "memory \<Rightarrow> stream option \<Rightarrow> (xd3_stream \<times> stream option) option" where
  "open_source junk SrcF =
     (let s = xd3_config_stream (push_bit XD3_ADLER32 1) in
      case SrcF of
        None \<Rightarrow> Some (s, None)
      | Some f \<Rightarrow>
          (let f = snd (fseek_set 0 f);
               (n, buf, f) = fread_into (uninit junk 0 BufSize) BufSize f;
               src = \<lparr>blksize = of_nat BufSize, max_winsize = 0, curblkno = 0, onblk = of_nat n, curblk = buf, srclen = 0, srcbase = 0,
                      shiftby = 0, maskby = 0, cpyoff_blocks = 0, cpyoff_blkoff = 0, getblkno = 0, max_blkno = 0, onlastblk = 0,
                      eof_known = False\<rparr>
           in map_option (\<lambda>s. (s, Some f)) (xd3_set_source s src)))"

definition xd3_code :: "int \<Rightarrow> memory \<Rightarrow> stream \<Rightarrow> stream option \<Rightarrow> stream \<Rightarrow> code_state outcome option" where
  "xd3_code lzma_init junk InF SrcF OutF =
     Option.bind (open_source junk SrcF) (\<lambda>(s, SrcF).
       code_loop lzma_init (read_input
         \<lparr>decoder = s, InFile = snd (fseek_set 0 InF), SrcFile = SrcF, OutFile = OutF, Input_Buf_Read = 0\<rparr>))"

text \<open>The entry point; \<open>code\<close> seeks in the patch first, and closing a null stream is undefined.\<close>

definition xdelta3PatchRom :: "int \<Rightarrow> memory \<Rightarrow> string \<Rightarrow> string \<Rightarrow> string \<Rightarrow> fsys \<Rightarrow> fsys outcome option" where
  "xdelta3PatchRom lzma_init junk romPath patchPath outputFile fs =
     (case (fopen_rb patchPath fs, fopen_rb romPath fs, fopen_wb outputFile fs) of
        (Some InF, SrcF, Some (OutF, fs)) \<Rightarrow>
          map_option (\<lambda>r. case r of
              Returned ret st \<Rightarrow> if SrcF = None then Undefined else Returned ret (fclose_to outputFile (OutFile st) fs)
            | Exited n st \<Rightarrow> Exited n fs
            | Undefined \<Rightarrow> Undefined) (xd3_code lzma_init junk InF SrcF OutF)
      | _ \<Rightarrow> Some Undefined)"

declare output_inst.simps [code] emit_loop.simps [code] roundup_loop.simps [code] code_loop.simps [code]

end
