(* ===== verification/Vcdiff.thy ===== *)
theory Vcdiff
  imports Xd3_Table
begin

text \<open>
  What a VCDIFF window means, independent of buffers and blocks: the instruction and address sections denote a list of
  ADD, RUN and COPY instructions, and executing these on a source segment and the data section gives the target window.
  Numbers are unbounded here.
\<close>

section \<open>Instructions\<close>

datatype vop = Add nat | Run nat | Copy nat nat

fun vop_size :: "vop \<Rightarrow> nat" where
  "vop_size (Add n) = n"
| "vop_size (Run n) = n"
| "vop_size (Copy n a) = n"

text \<open>A copy goes byte by byte over the source segment followed by the target made so far, and may overlap its own output.\<close>

primrec vcd_copy :: "bytes \<Rightarrow> nat \<Rightarrow> nat \<Rightarrow> bytes \<Rightarrow> bytes" where
  "vcd_copy S 0 a T = T"
| "vcd_copy S (Suc n) a T = vcd_copy S n (Suc a) (T @ [(S @ T) ! a])"

text \<open>A copy starts before the present position and does not cross the end of the source segment.\<close>

definition copy_ok :: "bytes \<Rightarrow> bytes \<Rightarrow> nat \<Rightarrow> nat \<Rightarrow> bool" where
  "copy_ok S T n a \<longleftrightarrow> a < length S + length T \<and> (a < length S \<longrightarrow> a + n \<le> length S)"

fun vcd_exec1 :: "bytes \<Rightarrow> vop \<Rightarrow> bytes \<times> bytes \<Rightarrow> (bytes \<times> bytes) option" where
  "vcd_exec1 S (Add n) (d, T) = (if n \<le> length d then Some (drop n d, T @ take n d) else None)"
| "vcd_exec1 S (Run n) (d, T) = (case d of [] \<Rightarrow> None | b # d \<Rightarrow> Some (d, T @ replicate n b))"
| "vcd_exec1 S (Copy n a) (d, T) = (if copy_ok S T n a then Some (d, vcd_copy S n a T) else None)"

fun vcd_exec :: "bytes \<Rightarrow> vop list \<Rightarrow> bytes \<times> bytes \<Rightarrow> (bytes \<times> bytes) option" where
  "vcd_exec S [] x = Some x"
| "vcd_exec S (p # ps) x = Option.bind (vcd_exec1 S p x) (vcd_exec S ps)"

section \<open>The sections\<close>

text \<open>A parser state: the rest of the instruction section and of the address section, the cache, and the position
  in the source segment followed by the target.\<close>

type_synonym vparse = "bytes \<times> bytes \<times> xd3_addr_cache \<times> nat"

definition vcd_size :: "nat \<Rightarrow> bytes \<Rightarrow> (nat \<times> bytes) option" where
  "vcd_size n inst = (if n = 0 then map_option (map_prod unat id) (xd3_read_size inst) else Some (n, inst))"

definition vcd_half :: "nat \<Rightarrow> nat \<Rightarrow> vparse \<Rightarrow> (vop \<times> vparse) option" where
  "vcd_half t n = (\<lambda>(inst, addr, c, pos).
     Option.bind (vcd_size n inst) (\<lambda>(n, inst).
       if t < XD3_CPY then Some (if t = XD3_RUN then Run n else Add n, inst, addr, c, pos + n)
       else (case xd3_decode_address c (of_nat pos) (t - XD3_CPY) addr of
               Got (a, addr, c) \<Rightarrow> Some (Copy n (unat a), inst, addr, c, pos + n)
             | _ \<Rightarrow> None)))"

definition vcd_opt_half :: "nat \<Rightarrow> nat \<Rightarrow> vparse \<Rightarrow> (vop list \<times> vparse) option" where
  "vcd_opt_half t n p = (if t = XD3_NOOP then Some ([], p) else map_option (map_prod (\<lambda>x. [x]) id) (vcd_half t n p))"

definition vcd_inst :: "xd3_dinst \<Rightarrow> vparse \<Rightarrow> (vop list \<times> vparse) option" where
  "vcd_inst e p =
     Option.bind (vcd_opt_half (type1 e) (size1 e) p) (\<lambda>(ops1, p).
     Option.bind (vcd_opt_half (type2 e) (size2 e) p) (\<lambda>(ops2, p). Some (ops1 @ ops2, p)))"

lemma read_loop_shorter: "xd3_read_loop v inp = Some (x, rest) \<Longrightarrow> length rest < length inp"
  by (induction v inp rule: xd3_read_loop.induct) (auto simp: Let_def split: if_splits)

lemma vcd_size_shorter: "vcd_size n inst = Some (m, rest) \<Longrightarrow> length rest \<le> length inst"
  by (auto simp: vcd_size_def xd3_read_size_def dest: read_loop_shorter split: if_splits)

lemma vcd_inst_shorter:
  assumes "vcd_inst e (inst, addr, c, pos) = Some (ops, inst', p')" shows "length inst' \<le> length inst"
proof -
  have half: "length inst' \<le> length inst" if "vcd_opt_half t n (inst, addr, c, pos) = Some (ops, inst', addr', c', pos')"
    for t n ops inst inst' addr addr' c c' pos pos'
    using that by (auto simp: vcd_opt_half_def vcd_half_def split: if_splits fetched.splits bind_splits dest!: vcd_size_shorter)
  show ?thesis using assms by (auto simp: vcd_inst_def split: bind_splits dest!: half)
qed

function vcd_ops :: "vparse \<Rightarrow> (vop list \<times> bytes) option" where
  "vcd_ops (inst, addr, c, pos) =
     (case inst of
        [] \<Rightarrow> Some ([], addr)
      | b # inst \<Rightarrow>
          (case vcd_inst (xd3_rfc3284_code_table ! unat b) (inst, addr, c, pos) of
             None \<Rightarrow> None
           | Some (ops, p) \<Rightarrow> map_option (\<lambda>(ops', addr). (ops @ ops', addr)) (vcd_ops p)))"
  by pat_completeness auto
termination
  by (relation "measure (length \<circ> fst)") (auto dest: vcd_inst_shorter simp: le_imp_less_Suc)

declare vcd_ops.simps [simp del]

definition vcd_cache :: xd3_addr_cache where
  "vcd_cache = xd3_init_cache \<lparr>s_near = 4, s_same = 3, next_slot = 0, near_array = [], same_array = []\<rparr>"

text \<open>The target window that the three sections describe over a source segment; all sections are used up.\<close>

definition vcd_window :: "bytes \<Rightarrow> bytes \<Rightarrow> bytes \<Rightarrow> bytes \<Rightarrow> bytes option" where
  "vcd_window S data inst addr =
     (case vcd_ops (inst, addr, vcd_cache, length S) of
        Some (ops, []) \<Rightarrow> (case vcd_exec S ops (data, []) of Some ([], T) \<Rightarrow> Some T | _ \<Rightarrow> None)
      | _ \<Rightarrow> None)"

section \<open>Facts\<close>

lemma length_vcd_copy: "length (vcd_copy S n a T) = length T + n"
  by (induction n arbitrary: a T) simp_all

lemma vcd_copy_source:
  assumes "a + n \<le> length S" shows "vcd_copy S n a T = T @ take n (drop a S)"
  using assms
proof (induction n arbitrary: a T)
  case (Suc n)
  then have "vcd_copy S (Suc n) a T = T @ (S ! a) # take n (drop (Suc a) S)" by (simp add: nth_append)
  also have "(S ! a) # take n (drop (Suc a) S) = take (Suc n) (drop a S)"
    using Suc.prems by (simp add: Cons_nth_drop_Suc [symmetric])
  finally show ?case .
qed simp

lemma vcd_copy_split: "vcd_copy S (m + n) a T = vcd_copy S n (a + m) (vcd_copy S m a T)"
  by (induction m arbitrary: a T) simp_all

lemma exec1_size: "vcd_exec1 S p (d, T) = Some (d', T') \<Longrightarrow> length T' = length T + vop_size p"
  by (cases p) (auto simp: length_vcd_copy split: if_splits list.splits)

lemma exec_size: "vcd_exec S ps (d, T) = Some (d', T') \<Longrightarrow> length T' = length T + sum_list (map vop_size ps)"
proof (induction ps arbitrary: d T)
  case (Cons p ps)
  then obtain d1 T1 where "vcd_exec1 S p (d, T) = Some (d1, T1)" "vcd_exec S ps (d1, T1) = Some (d', T')"
    by (auto split: bind_splits)
  with Cons.IH exec1_size show ?case by fastforce
qed simp

lemma exec_append: "vcd_exec S (ps @ qs) x = Option.bind (vcd_exec S ps x) (vcd_exec S qs)"
  by (induction ps arbitrary: x) (auto split: bind_splits)

text \<open>Taking the first part of a copy from the source segment.\<close>

lemma exec_copy_part:
  assumes "k \<le> n" "a < length S" "vcd_exec S (Copy n a # ps) (d, T) = Some y"
  shows "vcd_exec S ((if k = n then [] else [Copy (n - k) (a + k)]) @ ps) (d, T @ take k (drop a S)) = Some y"
proof -
  have ok: "a + n \<le> length S" using assms by (auto simp: copy_ok_def split: if_splits)
  have "vcd_copy S n a T = vcd_copy S (n - k) (a + k) (T @ take k (drop a S))"
    using assms(1) ok vcd_copy_split [of S k "n - k" a T] by (simp add: vcd_copy_source)
  moreover have "copy_ok S (T @ take k (drop a S)) (n - k) (a + k)" if "k < n"
    using ok that by (simp add: copy_ok_def)
  ultimately show ?thesis using assms by (cases "k = n") (auto simp: le_neq_implies_less split: if_splits)
qed

end
