(* ===== verification/Xd3_Emit.thy ===== *)
theory Xd3_Emit
  imports Xd3_Decode Vcdiff
begin

text \<open>
  The output of a window: the loops over the instructions of the decoder, which take the source in blocks, stop when they need
  another block and go on where they stopped, refine the meaning of the sections in \<open>Vcdiff\<close>.
\<close>

section \<open>Simplification of the state\<close>

lemma current_set [simp]: "current b (set_current b h s) = h"
  by (simp add: current_def set_current_def)

lemma set_current_fields [simp]:
  "next_out (set_current b h s) = next_out s" "data_sect (set_current b h s) = data_sect s"
  "inst_sect (set_current b h s) = inst_sect s" "addr_sect (set_current b h s) = addr_sect s"
  "source (set_current b h s) = source s" "out_cap (set_current b h s) = out_cap s" "space_out (set_current b h s) = space_out s"
  "dec_cpylen (set_current b h s) = dec_cpylen s" "dec_maxpos (set_current b h s) = dec_maxpos s"
  "dec_position (set_current b h s) = dec_position s" "dec_win_ind (set_current b h s) = dec_win_ind s"
  "code_table (set_current b h s) = code_table s" "acache (set_current b h s) = acache s"
  "dec_tgtlen (set_current b h s) = dec_tgtlen s" "dec_adler32 (set_current b h s) = dec_adler32 s" "flags (set_current b h s) = flags s"
  by (simp_all add: set_current_def)

lemma current_updates [simp]:
  "current b (s\<lparr>next_out := x\<rparr>) = current b s" "current b (s\<lparr>data_sect := d\<rparr>) = current b s"
  "current b (s\<lparr>source := y\<rparr>) = current b s" "current b (s\<lparr>inst_sect := d\<rparr>) = current b s"
  "current b (s\<lparr>addr_sect := d\<rparr>) = current b s" "current b (s\<lparr>acache := c\<rparr>) = current b s" "current b (s\<lparr>dec_position := p\<rparr>) = current b s"
  by (simp_all add: current_def)

lemma usize_overflow: "USIZE_T_OVERFLOW a b \<longleftrightarrow> 2 ^ 64 \<le> unat a + unat b"
proof -
  have "unat (- 1 - a) = 2 ^ 64 - 1 - unat a"
    using unat_sub [of a "- 1"] by (simp add: word_order.extremum unsigned_minus_1_eq_mask mask_eq_exp_minus_1)
  moreover have "unat a < 2 ^ 64" using unsigned_less [of a] by simp
  ultimately show ?thesis by (auto simp: USIZE_T_OVERFLOW_def word_less_nat_alt)
qed

section \<open>Pending instructions\<close>

definition hop :: "xd3_hinst \<Rightarrow> vop list" where
  "hop h = (if htype h = XD3_NOOP then [] else if htype h = XD3_RUN then [Run (unat (hsize h))]
    else if htype h = XD3_ADD then [Add (unat (hsize h))] else [Copy (unat (hsize h)) (unat (haddr h))])"

text \<open>What is known of a block of the source, and of a window that is put out.\<close>

definition block_view :: "bytes \<Rightarrow> xd3_source \<Rightarrow> bool" where
  "block_view D src \<longleftrightarrow>
     blksize src = 16384 \<and> shiftby src = 14 \<and> maskby src = 16383 \<and> length (curblk src) = 16384 \<and>
     onblk src = of_nat (min 16384 (length D - unat (curblkno src) * 16384)) \<and>
     take (min 16384 (length D - unat (curblkno src) * 16384)) (curblk src) = take 16384 (drop (unat (curblkno src) * 16384) D)"

definition source_view :: "bytes \<Rightarrow> nat \<Rightarrow> bytes \<Rightarrow> xd3_source \<Rightarrow> bool" where
  "source_view D off S src \<longleftrightarrow> block_view D src \<and>
     (S \<noteq> [] \<longrightarrow> cpyoff_blocks src = of_nat (off div 16384) \<and> cpyoff_blkoff src = of_nat (off mod 16384))"

definition window_view :: "bytes \<Rightarrow> nat \<Rightarrow> bytes \<Rightarrow> nat \<Rightarrow> xd3_stream \<Rightarrow> bool" where
  "window_view D off S N s \<longleftrightarrow>
     \<not> bit (dec_win_ind s) VCD_TARGET \<and> length S + N < 2 ^ 64 \<and> dec_cpylen s = of_nat (length S) \<and>
     dec_maxpos s = of_nat (length S + N) \<and> N \<le> unat (space_out s) \<and>
     unat (space_out s) \<le> (case out_cap s of None \<Rightarrow> 0 | Some n \<Rightarrow> n) \<and>
     code_table s = xd3_rfc3284_code_table \<and> cache_ok (acache s) \<and> s_near (acache s) = 4 \<and> s_same (acache s) = 3 \<and>
     length D < 2 ^ 31 \<and> (\<exists>src. source s = Some src \<and> source_view D off S src) \<and>
     (S \<noteq> [] \<longrightarrow> off + length S \<le> length D \<and> S = take (length S) (drop off D))"

lemma window_view_set_current [simp]: "window_view D off S N (set_current b h s) = window_view D off S N s"
  by (simp add: window_view_def)

lemma window_view_updates [simp]:
  "window_view D off S N (s\<lparr>next_out := x\<rparr>) = window_view D off S N s"
  "window_view D off S N (s\<lparr>data_sect := d\<rparr>) = window_view D off S N s"
  "window_view D off S N (s\<lparr>inst_sect := d\<rparr>) = window_view D off S N s"
  "window_view D off S N (s\<lparr>addr_sect := d\<rparr>) = window_view D off S N s"
  "window_view D off S N (s\<lparr>dec_position := p\<rparr>) = window_view D off S N s"
  by (simp_all add: window_view_def)

lemma put_out_fits:
  "window_view D off S N s \<Longrightarrow> length (next_out s) + length bs \<le> N \<Longrightarrow> put_out bs s = Next (s\<lparr>next_out := next_out s @ bs\<rparr>)"
  by (auto simp: window_view_def put_out_def split: option.splits)

section \<open>One step of output\<close>

lemma copy_forward_vcd:
  assumes "j < length T" shows "copy_forward n j T = Some (vcd_copy S n (length S + j) T)"
  using assms
proof (induction n arbitrary: j T)
  case (Suc n)
  have "(S @ T) ! (length S + j) = T ! j" by (simp add: nth_append)
  then show ?case using Suc.IH [of "Suc j" "T @ [T ! j]"] Suc.prems by simp
qed simp

lemma vcd_copy_extends: "vcd_copy S n a T = T @ drop (length T) (vcd_copy S n a T)"
proof (induction n arbitrary: a T)
  case (Suc n)
  let ?T = "T @ [(S @ T) ! a]"
  have "vcd_copy S n (Suc a) ?T = ?T @ drop (length ?T) (vcd_copy S n (Suc a) ?T)" by (rule Suc.IH)
  then obtain X where "vcd_copy S n (Suc a) ?T = ?T @ X" by blast
  then show ?case by simp
qed simp

lemma out_guard:
  assumes "window_view D off S N s" "length (next_out s) + unat n \<le> N"
  shows "\<not> (USIZE_T_OVERFLOW (of_nat (length (next_out s))) n \<or> of_nat (length (next_out s)) + n > space_out s)"
proof -
  have N: "N \<le> unat (space_out s)" "N < 2 ^ 64" using assms by (auto simp: window_view_def)
  then have "unat (of_nat (length (next_out s)) :: usize) = length (next_out s)" using assms(2) by simp
  moreover from this have "unat (of_nat (length (next_out s)) + n) = length (next_out s) + unat n"
    using N assms(2) by (simp add: unat_word_ariths)
  ultimately show ?thesis using N assms(2) by (simp add: usize_overflow word_less_nat_alt)
qed

lemma out_add:
  assumes "window_view D off S N s" "htype (current b s) = XD3_ADD" "length T \<le> N"
    and "vcd_exec1 S (Add (unat (hsize (current b s)))) (sect_buf (data_sect s), next_out s) = Some (d, T)"
  shows "xd3_decode_output_halfinst b s = Next (finish_inst b (s\<lparr>next_out := T, data_sect := (data_sect s)\<lparr>sect_buf := d\<rparr>\<rparr>))"
proof -
  have dT: "unat (hsize (current b s)) \<le> length (sect_buf (data_sect s))" "d = drop (unat (hsize (current b s))) (sect_buf (data_sect s))"
    "T = next_out s @ take (unat (hsize (current b s))) (sect_buf (data_sect s))"
    using assms(4) by (auto split: if_splits)
  then have "length (next_out s) + unat (hsize (current b s)) \<le> N" using assms(3) by simp
  then show ?thesis
    using out_guard [OF assms(1)] put_out_fits [OF assms(1)] assms(2) dT
    by (simp add: xd3_decode_output_halfinst_def Let_def output_add_def rtype_defs)
qed

lemma out_run:
  assumes "window_view D off S N s" "htype (current b s) = XD3_RUN" "length T \<le> N"
    and "vcd_exec1 S (Run (unat (hsize (current b s)))) (sect_buf (data_sect s), next_out s) = Some (d, T)"
  shows "xd3_decode_output_halfinst b s = Next (finish_inst b (s\<lparr>next_out := T, data_sect := (data_sect s)\<lparr>sect_buf := d\<rparr>\<rparr>))"
proof -
  obtain c where dT: "sect_buf (data_sect s) = c # d" "T = next_out s @ replicate (unat (hsize (current b s))) c"
    using assms(4) by (auto split: list.splits)
  then have "length (next_out s) + unat (hsize (current b s)) \<le> N" using assms(3) by simp
  then show ?thesis
    using out_guard [OF assms(1)] put_out_fits [OF assms(1)] assms(2) dT
    by (simp add: xd3_decode_output_halfinst_def Let_def output_run_def rtype_defs)
qed

lemma out_target_copy:
  assumes "window_view D off S N s" "XD3_CPY \<le> htype (current b s)" "length T \<le> N" "length S \<le> unat (haddr (current b s))"
    and "vcd_exec1 S (Copy (unat (hsize (current b s))) (unat (haddr (current b s)))) (d, next_out s) = Some (d', T)"
  shows "xd3_decode_output_halfinst b s = Next (done_inst b (s\<lparr>next_out := T\<rparr>)) \<and> d' = d"
proof -
  let ?n = "unat (hsize (current b s))" and ?a = "unat (haddr (current b s))"
  have T: "T = vcd_copy S ?n ?a (next_out s)" "d' = d" and ok: "?a < length S + length (next_out s)"
    using assms(5) by (auto simp: copy_ok_def split: if_splits)
  have len: "length (next_out s) + ?n \<le> N" using assms(3) by (simp add: T length_vcd_copy)
  have cpy: "dec_cpylen s = of_nat (length S)" "length S < 2 ^ 64" using assms(1) by (simp_all add: window_view_def)
  then have ge: "\<not> haddr (current b s) < dec_cpylen s" using assms(4) by (simp add: word_less_nat_alt)
  then have "unat (haddr (current b s) - dec_cpylen s) = ?a - length S" using cpy by (simp add: unat_sub)
  then have "copy_forward ?n (unat (haddr (current b s) - dec_cpylen s)) (next_out s) = Some T"
    using copy_forward_vcd [of "?a - length S" "next_out s" ?n S] ok assms(4) by (simp add: T)
  moreover have "T = next_out s @ drop (length (next_out s)) T" using vcd_copy_extends by (simp add: T)
  moreover have "length (next_out s) + length (drop (length (next_out s)) T) \<le> N" using len by (simp add: T length_vcd_copy)
  ultimately show ?thesis
    using out_guard [OF assms(1) len] put_out_fits [OF assms(1), of "drop (length (next_out s)) T"] assms(2, 3) ge T(2)
    by (simp add: xd3_decode_output_halfinst_def Let_def output_target_copy_def rtype_defs)
qed

section \<open>Blocks of the source\<close>

lemma mask_16383: "(w :: usize) AND 16383 = of_nat (unat w mod 16384)"
proof -
  have "unat (w AND mask 14) = unat w mod 2 ^ 14" by (simp add: take_bit_eq_mask [symmetric] unat_take_bit)
  then have "w AND mask 14 = of_nat (unat w mod 2 ^ 14)" by (metis of_nat_unat ucast_id)
  then show ?thesis by (simp add: mask_eq_exp_minus_1)
qed

lemma blksize_add:
  assumes "shiftby src = 14" "maskby src = 16383" "r < 16384" "r + a < 2 ^ 63"
  shows "xd3_blksize_add blkno (of_nat r) src (of_nat a) = (blkno + of_nat ((r + a) div 16384), of_nat ((r + a) mod 16384))"
proof -
  have ra: "unat (of_nat (r + a) :: usize) = r + a" by (rule unat_word_of_nat_id) (use assms in simp)
  have "drop_bit 14 (of_nat (r + a) :: usize) = of_nat ((r + a) div 16384)"
  proof -
    have "unat (drop_bit 14 (of_nat (r + a) :: usize)) = (r + a) div 16384" by (simp only: unat_drop_bit ra) simp
    then show ?thesis by (metis of_nat_unat ucast_id)
  qed
  moreover have "(of_nat (r + a) AND 16383 :: usize) = of_nat ((r + a) mod 16384)" using ra by (simp add: mask_16383)
  moreover have "(of_nat ((r + a) div 16384) :: usize) = 0 \<longleftrightarrow> (r + a) div 16384 = 0"
  proof -
    have "unat (of_nat ((r + a) div 16384) :: usize) = (r + a) div 16384" by (rule unat_word_of_nat_id) (use assms in simp)
    then show ?thesis by (metis unat_eq_0)
  qed
  ultimately show ?thesis using assms by (simp add: xd3_blksize_add_def Let_def of_nat_add [symmetric] del: of_nat_add)
qed

lemma block_bytes:
  assumes "block_view D src" "o' + k \<le> min 16384 (length D - unat (curblkno src) * 16384)"
  shows "take k (drop o' (curblk src)) = take k (drop (unat (curblkno src) * 16384 + o') D)"
proof -
  let ?B = "unat (curblkno src) * 16384" and ?m = "min 16384 (length D - unat (curblkno src) * 16384)"
  have "k \<le> ?m - o'" using assms(2) by linarith
  then have "take k (drop o' (curblk src)) = take k (drop o' (take ?m (curblk src)))"
    by (simp only: drop_take take_take min_absorb1)
  also have "take ?m (curblk src) = take 16384 (drop ?B D)" using assms(1) by (simp add: block_view_def)
  also have "take k (drop o' (take 16384 (drop ?B D))) = take k (drop (?B + o') D)"
  proof -
    have "k \<le> 16384 - o'" using assms(2) by linarith
    then show ?thesis by (simp only: drop_take take_take min_absorb1 drop_drop) (simp add: add.commute)
  qed
  finally show ?thesis .
qed

lemma getblk_view:
  assumes "source_view D off S src"
  shows "\<exists>src'. xd3_getblk (curblkno src) src = Next src' \<and> source_view D off S src' \<and> curblkno src' = curblkno src \<and>
    blksize src' = blksize src \<and> onblk src' = onblk src \<and> curblk src' = curblk src"
  using assms by (auto simp: xd3_getblk_def source_view_def block_view_def Let_def)

lemma source_address:
  assumes "source_view D off S src" "S \<noteq> []" "off + a < 2 ^ 62"
  shows "xd3_blksize_add (cpyoff_blocks src) (cpyoff_blkoff src) src (of_nat a) = (of_nat ((off + a) div 16384), of_nat ((off + a) mod 16384))"
proof -
  let ?r = "off mod 16384"
  have "off + a = off div 16384 * 16384 + (?r + a)" by simp
  then have "(off + a) div 16384 = off div 16384 + (?r + a) div 16384" "(off + a) mod 16384 = (?r + a) mod 16384"
    by (metis add.commute div_mult_self1 numeral_neq_zero, metis mod_mult_self3)
  moreover have "?r + a < 2 ^ 63" using assms(3) by (simp add: add.commute less_trans_Suc)
  ultimately show ?thesis
    using assms(1, 2) blksize_add [of src ?r a "of_nat (off div 16384)"] by (simp add: source_view_def block_view_def)
qed

definition advance_inst :: "bool \<Rightarrow> nat \<Rightarrow> xd3_stream \<Rightarrow> xd3_stream" where
  "advance_inst b k s =
     (let h = current b s in
      if k = unat (hsize h) then done_inst b s else set_current b (h\<lparr>hsize := hsize h - of_nat k, haddr := haddr h + of_nat k\<rparr>) s)"

lemma set_current_next_out: "(set_current b h s)\<lparr>next_out := x\<rparr> = set_current b h (s\<lparr>next_out := x\<rparr>)"
  by (simp add: set_current_def)

lemma advance_inst_simps [simp]:
  "window_view D off S N (advance_inst b k s) = window_view D off S N s" "next_out (advance_inst b k s) = next_out s"
  "(advance_inst b k s)\<lparr>next_out := x\<rparr> = advance_inst b k (s\<lparr>next_out := x\<rparr>)"
  by (simp_all add: advance_inst_def done_inst_def Let_def set_current_next_out)

lemma window_view_source: "window_view D off S N s \<Longrightarrow> source_view D off S src \<Longrightarrow> window_view D off S N (s\<lparr>source := Some src\<rparr>)"
  by (simp add: window_view_def)

lemma out_source_copy:
  assumes wv: "window_view D off S N s" and cpy: "XD3_CPY \<le> htype (current b s)" and src: "source s = Some src"
    and a: "unat (haddr (current b s)) = a" "a < length S" and n: "unat (hsize (current b s)) = n" "a + n \<le> length S" "length (next_out s) + n \<le> N"
  shows "if curblkno src = of_nat ((off + a) div 16384)
    then \<exists>src' k. source_view D off S src' \<and> curblkno src' = curblkno src \<and> k \<le> n \<and> (k = 0 \<longrightarrow> n = 0) \<and>
      xd3_decode_output_halfinst b s = Next (advance_inst b k (s\<lparr>source := Some src', next_out := next_out s @ take k (drop a S)\<rparr>))
    else xd3_decode_output_halfinst b s = Stop XD3_GETSRCBLK (s\<lparr>source := Some (src\<lparr>getblkno := of_nat ((off + a) div 16384)\<rparr>)\<rparr>)"
proof -
  have "S \<noteq> []" using a by auto
  then have D: "length D < 2 ^ 31" "off + length S \<le> length D" "S = take (length S) (drop off D)" and sv: "source_view D off S src"
    using wv src by (auto simp: window_view_def)
  have lt: "haddr (current b s) < dec_cpylen s"
    using wv a D by (simp add: window_view_def word_less_nat_alt)
  have step: "xd3_decode_output_halfinst b s = output_source_copy b s"
    using out_guard [OF wv, of "hsize (current b s)"] n lt cpy by (simp add: xd3_decode_output_halfinst_def Let_def rtype_defs)
  have addr: "xd3_blksize_add (cpyoff_blocks src) (cpyoff_blkoff src) src (haddr (current b s)) =
      (of_nat ((off + a) div 16384), of_nat ((off + a) mod 16384))"
  proof -
    have "haddr (current b s) = of_nat a" using a(1) by (metis of_nat_unat ucast_id)
    moreover have "off + a < 2 ^ 62" using a D by simp
    ultimately show ?thesis using source_address [OF sv \<open>S \<noteq> []\<close>] by simp
  qed
  let ?B = "(off + a) div 16384" and ?o = "(off + a) mod 16384"
  show ?thesis
  proof (cases "curblkno src = of_nat ?B")
    case False
    then have "xd3_getblk (of_nat ?B) src = Stop XD3_GETSRCBLK (src\<lparr>getblkno := of_nat ?B\<rparr>)"
      by (auto simp: xd3_getblk_def)
    then have "xd3_decode_output_halfinst b s = Stop XD3_GETSRCBLK (s\<lparr>source := Some (src\<lparr>getblkno := of_nat ?B\<rparr>)\<rparr>)"
      using wv src addr by (simp add: step output_source_copy_def window_view_def Let_def xd3_rvalues)
    with False show ?thesis by simp
  next
    case True
    obtain src' where src': "xd3_getblk (of_nat ?B) src = Next src'" "source_view D off S src'" "curblkno src' = curblkno src"
      "blksize src' = 16384" "onblk src' = onblk src"
      using getblk_view [OF sv] True sv by (auto simp: source_view_def block_view_def)
    have B: "unat (curblkno src) = ?B" unfolding True by (rule unat_word_of_nat_id) (use a D in simp)
    define m where "m = min 16384 (length D - ?B * 16384)"
    have on: "onblk src = of_nat m" using sv B by (simp add: source_view_def block_view_def m_def)
    have oa: "?B * 16384 + ?o = off + a" "?o < 16384" by simp_all
    have fit: "?o + n \<le> 16384 \<Longrightarrow> ?o + n \<le> m" "\<not> ?o + n \<le> 16384 \<Longrightarrow> m = 16384" "m \<noteq> 16384 \<Longrightarrow> ?o + n \<le> m"
    proof -
      have "?o + n \<le> length D - ?B * 16384" using oa(1) a(2) n(2) D(2) by linarith
      then show "?o + n \<le> 16384 \<Longrightarrow> ?o + n \<le> m" "\<not> ?o + n \<le> 16384 \<Longrightarrow> m = 16384" "m \<noteq> 16384 \<Longrightarrow> ?o + n \<le> m"
        unfolding m_def by linarith+
    qed
    have sum: "unat (of_nat ?o + hsize (current b s)) = ?o + n"
      using oa n D a by (simp add: unat_word_ariths unat_of_nat)
    have short: "\<not> (onblk src' \<noteq> 16384 \<and> onblk src' < of_nat ?o + hsize (current b s))"
    proof -
      have "unat (onblk src') = m" using on src' by (simp add: m_def)
      moreover have "m \<noteq> 16384" if "onblk src' \<noteq> 16384" using that on src' by auto
      ultimately show ?thesis using fit(3) sum by (auto simp: word_less_nat_alt)
    qed
    have le: "of_nat ?o + hsize (current b s) \<le> (16384 :: usize) \<longleftrightarrow> ?o + n \<le> 16384" by (simp add: word_le_nat_alt sum)
    define k where "k = (if ?o + n \<le> 16384 then n else 16384 - ?o)"
    have k: "k \<le> n" "k = 0 \<longrightarrow> n = 0" "k = n \<longleftrightarrow> ?o + n \<le> 16384" "?o + k \<le> m" "?o + k \<le> 16384"
      using fit oa by (auto simp: k_def)
    have bytes: "take k (drop ?o (curblk src')) = take k (drop a S)"
    proof -
      have "take k (drop ?o (curblk src')) = take k (drop (off + a) D)"
        using block_bytes [of D src' ?o k] src' k(4) B oa by (simp add: source_view_def m_def)
      also have "\<dots> = take k (drop a (take (length S) (drop off D)))"
        using k(1) n by (simp add: drop_take add.commute)
      finally show ?thesis using D(3) by simp
    qed
    have "source_part b (blksize src') (of_nat ?o) (s\<lparr>source := Some src'\<rparr>) = (of_nat k, advance_inst b k (s\<lparr>source := Some src'\<rparr>))"
    proof (cases "?o + n \<le> 16384")
      case True
      then have "k = n" by (simp add: k_def)
      moreover have "of_nat n = hsize (current b s)" using n(1) by (metis of_nat_unat ucast_id)
      ultimately show ?thesis using n(1) True by (simp add: source_part_def src' le advance_inst_def Let_def)
    next
      case False
      then have "k = 16384 - ?o" "k \<noteq> n" using k(3) by (simp_all add: k_def)
      moreover from this have "(of_nat k :: usize) = 16384 - of_nat ?o" using oa(2) by (simp add: of_nat_diff)
      ultimately show ?thesis using n(1) False by (simp add: source_part_def src' le advance_inst_def Let_def)
    qed
    moreover have "unat (of_nat k :: usize) = k" "unat (of_nat ?o :: usize) = ?o" using k(5) by (simp_all add: unat_of_nat)
    moreover have "length (curblk src') = 16384" using src' by (simp add: source_view_def block_view_def)
    moreover have "put_out (take k (drop a S)) (advance_inst b k (s\<lparr>source := Some src'\<rparr>)) =
      Next (advance_inst b k (s\<lparr>source := Some src', next_out := next_out s @ take k (drop a S)\<rparr>))"
    proof -
      have "window_view D off S N (advance_inst b k (s\<lparr>source := Some src'\<rparr>))"
        using window_view_source [OF wv src'(2)] by simp
      moreover have "length (next_out s) + length (take k (drop a S)) \<le> N" using k(1) n by simp
      ultimately show ?thesis by (subst put_out_fits) simp_all
    qed
    ultimately have "xd3_decode_output_halfinst b s =
      Next (advance_inst b k (s\<lparr>source := Some src', next_out := next_out s @ take k (drop a S)\<rparr>))"
      using wv src addr src'(1, 4) short k(5) bytes by (simp add: step output_source_copy_def window_view_def Let_def)
    then show ?thesis using True src' k by auto
  qed
qed

section \<open>One instruction\<close>

text \<open>What the output of an instruction may change.\<close>

definition moved :: "bool \<Rightarrow> xd3_stream \<Rightarrow> xd3_stream \<Rightarrow> bool" where
  "moved b s s' \<longleftrightarrow> (\<exists>h d out src. s' = set_current b h (s\<lparr>data_sect := (data_sect s)\<lparr>sect_buf := d\<rparr>, next_out := out, source := src\<rparr>))"

text \<open>The state waits for a block of the source.\<close>

definition waits :: "nat \<Rightarrow> bytes \<Rightarrow> bool \<Rightarrow> xd3_stream \<Rightarrow> bool" where
  "waits off S b s \<longleftrightarrow> (\<exists>n a src. hop (current b s) = [Copy n a] \<and> a < length S \<and> source s = Some src \<and>
     curblkno src \<noteq> of_nat ((off + a) div 16384))"

definition asked :: "nat \<Rightarrow> bytes \<Rightarrow> bool \<Rightarrow> xd3_stream \<Rightarrow> bool" where
  "asked off S b s \<longleftrightarrow> (\<exists>n a src. hop (current b s) = [Copy n a] \<and> a < length S \<and> source s = Some src \<and>
     getblkno src = of_nat ((off + a) div 16384))"

definition hop_size :: "bool \<Rightarrow> xd3_stream \<Rightarrow> nat" where
  "hop_size b s = sum_list (map vop_size (hop (current b s)))"

lemma moved_refl: "moved b s s"
proof -
  have "s = set_current b (current b s) (s\<lparr>data_sect := (data_sect s)\<lparr>sect_buf := sect_buf (data_sect s)\<rparr>, next_out := next_out s, source := source s\<rparr>)"
    by (simp add: set_current_def current_def)
  then show ?thesis unfolding moved_def by blast
qed

lemma moved_trans: "moved b s s' \<Longrightarrow> moved b s' s'' \<Longrightarrow> moved b s s''"
  unfolding moved_def by (elim exE) (cases b, auto simp: set_current_def)

lemma moved_fields:
  assumes "moved b s s'"
  shows "inst_sect s' = inst_sect s" "addr_sect s' = addr_sect s" "acache s' = acache s" "dec_position s' = dec_position s"
    "current (\<not> b) s' = current (\<not> b) s" "dec_win_ind s' = dec_win_ind s" "dec_tgtlen s' = dec_tgtlen s"
    "dec_adler32 s' = dec_adler32 s" "flags s' = flags s"
  using assms by (auto simp: moved_def current_def set_current_def)

lemma moved_finish: "moved b s (finish_inst b (s\<lparr>next_out := T, data_sect := (data_sect s)\<lparr>sect_buf := d\<rparr>\<rparr>))"
  and moved_done: "moved b s (done_inst b (s\<lparr>next_out := T\<rparr>))"
  and moved_advance: "moved b s (advance_inst b k (s\<lparr>source := so, next_out := T\<rparr>))"
  and moved_source: "moved b s (s\<lparr>source := so\<rparr>)"
proof -
  have eq: "s\<lparr>next_out := T, data_sect := d\<rparr> = s\<lparr>data_sect := d, next_out := T, source := source s\<rparr>"
    "s\<lparr>source := so, next_out := T\<rparr> = s\<lparr>data_sect := (data_sect s)\<lparr>sect_buf := sect_buf (data_sect s)\<rparr>, next_out := T, source := so\<rparr>"
    "s\<lparr>next_out := T\<rparr> = s\<lparr>data_sect := (data_sect s)\<lparr>sect_buf := sect_buf (data_sect s)\<rparr>, next_out := T, source := source s\<rparr>"
    "s\<lparr>source := so\<rparr> = set_current b (current b s) (s\<lparr>data_sect := (data_sect s)\<lparr>sect_buf := sect_buf (data_sect s)\<rparr>, next_out := next_out s, source := so\<rparr>)"
    for d by (simp_all add: set_current_def current_def)
  show "moved b s (finish_inst b (s\<lparr>next_out := T, data_sect := (data_sect s)\<lparr>sect_buf := d\<rparr>\<rparr>))"
    unfolding moved_def finish_inst_def eq(1) by blast
  show "moved b s (done_inst b (s\<lparr>next_out := T\<rparr>))" unfolding moved_def done_inst_def eq(3) by blast
  show "moved b s (advance_inst b k (s\<lparr>source := so, next_out := T\<rparr>))"
  proof -
    have "\<exists>h. advance_inst b k x = set_current b h x" for x by (simp add: advance_inst_def done_inst_def Let_def) blast
    then show ?thesis unfolding moved_def eq(2) by blast
  qed
  show "moved b s (s\<lparr>source := so\<rparr>)" unfolding moved_def using eq(4) by blast
qed

text \<open>Where the output of an instruction stands, and what an instruction and the following ones come to.\<close>

definition puts_out :: "bytes \<Rightarrow> nat \<Rightarrow> bytes \<Rightarrow> nat \<Rightarrow> bool \<Rightarrow> vop list \<Rightarrow> bytes \<times> bytes \<Rightarrow> xd3_stream \<Rightarrow> bool" where
  "puts_out D off S N b ps y s \<longleftrightarrow> window_view D off S N s \<and> length (snd y) = N \<and>
     vcd_exec S (hop (current b s) @ ps) (sect_buf (data_sect s), next_out s) = Some y"

lemma hop_simps:
  "hop (h\<lparr>htype := XD3_NOOP\<rparr>) = []" "hop (h\<lparr>htype := XD3_NOOP, hsize := x\<rparr>) = []"
  "current b (finish_inst b s) = (current b s)\<lparr>htype := XD3_NOOP\<rparr>" "current b (done_inst b s) = (current b s)\<lparr>htype := XD3_NOOP, hsize := 0\<rparr>"
  by (simp_all add: hop_def finish_inst_def done_inst_def)

lemma exec_fits:
  assumes "puts_out D off S N b ps y s" "hop (current b s) = p # qs"
  shows "\<exists>d T. vcd_exec1 S p (sect_buf (data_sect s), next_out s) = Some (d, T) \<and> vcd_exec S (qs @ ps) (d, T) = Some y \<and> length T \<le> N"
proof -
  obtain d T where "vcd_exec1 S p (sect_buf (data_sect s), next_out s) = Some (d, T)" "vcd_exec S (qs @ ps) (d, T) = Some y"
    using assms by (auto simp: puts_out_def split: bind_splits)
  moreover from this have "length T \<le> N" using assms(1) exec_size [of S "qs @ ps" d T "fst y" "snd y"] by (simp add: puts_out_def)
  ultimately show ?thesis by blast
qed

lemma hop_advance:
  assumes "k < unat (hsize h)" "XD3_CPY \<le> htype h" "unat (haddr h) + k < 2 ^ 64"
  shows "hop (h\<lparr>hsize := hsize h - of_nat k, haddr := haddr h + of_nat k\<rparr>) = [Copy (unat (hsize h) - k) (unat (haddr h) + k)]"
proof -
  have k: "unat (of_nat k :: usize) = k" by (rule unat_word_of_nat_id) (use assms in simp)
  then have "unat (hsize h - of_nat k) = unat (hsize h) - k" using assms by (simp add: unat_sub word_le_nat_alt)
  moreover have "unat (haddr h + of_nat k) = unat (haddr h) + k" using assms k by (simp add: unat_word_ariths)
  ultimately show ?thesis using assms(2) by (simp add: hop_def rtype_defs)
qed

definition steps_to :: "bytes \<Rightarrow> nat \<Rightarrow> bytes \<Rightarrow> nat \<Rightarrow> bool \<Rightarrow> vop list \<Rightarrow> bytes \<times> bytes \<Rightarrow> xd3_stream \<Rightarrow> xd3_stream \<Rightarrow> bool" where
  "steps_to D off S N b ps y s s' \<longleftrightarrow> moved b s s' \<and> puts_out D off S N b ps y s' \<and> \<not> waits off S b s \<and>
      length (next_out s') + hop_size b s' = length (next_out s) + hop_size b s \<and>
      (htype (current b s') = XD3_NOOP \<or> hop_size b s' < hop_size b s)"

definition stops_at :: "bytes \<Rightarrow> nat \<Rightarrow> bytes \<Rightarrow> nat \<Rightarrow> bool \<Rightarrow> vop list \<Rightarrow> bytes \<times> bytes \<Rightarrow> xd3_stream \<Rightarrow> xd3_stream \<Rightarrow> bool" where
  "stops_at D off S N b ps y s s' \<longleftrightarrow> moved b s s' \<and> puts_out D off S N b ps y s' \<and> waits off S b s' \<and> asked off S b s' \<and>
      length (next_out s') + hop_size b s' = length (next_out s) + hop_size b s \<and> hop_size b s' \<le> hop_size b s \<and>
      (waits off S b s \<or> hop_size b s' < hop_size b s)"

lemma steps_to_finished:
  assumes "puts_out D off S N b ps y s" "moved b s s'" "window_view D off S N s'" "hop (current b s) = [p]" "htype (current b s') = XD3_NOOP"
    and "vcd_exec1 S p (sect_buf (data_sect s), next_out s) = Some (d, T)" "vcd_exec S ps (d, T) = Some y"
    and "sect_buf (data_sect s') = d" "next_out s' = T" "\<And>n a. p = Copy n a \<Longrightarrow> length S \<le> a"
  shows "steps_to D off S N b ps y s s'"
proof -
  have "hop (current b s') = []" using assms(5) by (simp add: hop_def)
  moreover have "\<not> waits off S b s" using assms(4, 10) by (force simp: waits_def)
  ultimately show ?thesis
    using assms exec1_size [OF assms(6)] by (simp add: steps_to_def puts_out_def hop_size_def)
qed

lemma output_step:
  assumes po: "puts_out D off S N b ps y s" and act: "htype (current b s) \<noteq> XD3_NOOP"
  shows "(\<exists>s'. xd3_decode_output_halfinst b s = Next s' \<and> steps_to D off S N b ps y s s') \<or>
    (\<exists>s'. xd3_decode_output_halfinst b s = Stop XD3_GETSRCBLK s' \<and> stops_at D off S N b ps y s s')"
proof -
  let ?h = "current b s"
  have wv: "window_view D off S N s" and y: "length (snd y) = N" using po by (simp_all add: puts_out_def)
  consider "htype ?h = XD3_ADD" | "htype ?h = XD3_RUN" | "XD3_CPY \<le> htype ?h" "length S \<le> unat (haddr ?h)"
    | "XD3_CPY \<le> htype ?h" "unat (haddr ?h) < length S"
    using act by (force simp: rtype_defs)
  then show ?thesis
  proof cases
    case 1
    then have hop: "hop ?h = [Add (unat (hsize ?h))]" by (simp add: hop_def rtype_defs)
    with exec_fits [OF po hop] obtain d T where dT: "vcd_exec1 S (Add (unat (hsize ?h))) (sect_buf (data_sect s), next_out s) = Some (d, T)"
      "vcd_exec S ps (d, T) = Some y" "length T \<le> N" by auto
    have "steps_to D off S N b ps y s (finish_inst b (s\<lparr>next_out := T, data_sect := (data_sect s)\<lparr>sect_buf := d\<rparr>\<rparr>))"
      by (rule steps_to_finished [OF po moved_finish _ hop _ dT(1, 2)]) (use wv in \<open>simp_all add: finish_inst_def\<close>)
    then show ?thesis using out_add [OF wv 1 dT(3, 1)] by blast
  next
    case 2
    then have hop: "hop ?h = [Run (unat (hsize ?h))]" by (simp add: hop_def rtype_defs)
    with exec_fits [OF po hop] obtain d T where dT: "vcd_exec1 S (Run (unat (hsize ?h))) (sect_buf (data_sect s), next_out s) = Some (d, T)"
      "vcd_exec S ps (d, T) = Some y" "length T \<le> N" by auto
    have "steps_to D off S N b ps y s (finish_inst b (s\<lparr>next_out := T, data_sect := (data_sect s)\<lparr>sect_buf := d\<rparr>\<rparr>))"
      by (rule steps_to_finished [OF po moved_finish _ hop _ dT(1, 2)]) (use wv in \<open>simp_all add: finish_inst_def\<close>)
    then show ?thesis using out_run [OF wv 2 dT(3, 1)] by blast
  next
    case 3
    then have hop: "hop ?h = [Copy (unat (hsize ?h)) (unat (haddr ?h))]" by (simp add: hop_def rtype_defs)
    with exec_fits [OF po hop] obtain d T where
      dT: "vcd_exec1 S (Copy (unat (hsize ?h)) (unat (haddr ?h))) (sect_buf (data_sect s), next_out s) = Some (d, T)"
      "vcd_exec S ps (d, T) = Some y" "length T \<le> N" by auto
    note out = out_target_copy [OF wv 3(1) dT(3) 3(2) dT(1)]
    have "steps_to D off S N b ps y s (done_inst b (s\<lparr>next_out := T\<rparr>))"
      by (rule steps_to_finished [OF po moved_done _ hop _ dT(1, 2)]) (use wv out 3 in \<open>simp_all add: done_inst_def\<close>)
    then show ?thesis using out by blast
  next
    case 4
    let ?n = "unat (hsize ?h)" and ?a = "unat (haddr ?h)"
    from 4 have hop: "hop ?h = [Copy ?n ?a]" by (simp add: hop_def rtype_defs)
    with exec_fits [OF po hop] obtain T where T: "copy_ok S (next_out s) ?n ?a" "T = vcd_copy S ?n ?a (next_out s)" "length T \<le> N"
      by (auto split: if_splits)
    then have fit: "?a + ?n \<le> length S" "length (next_out s) + ?n \<le> N" using 4 by (simp_all add: copy_ok_def length_vcd_copy)
    have exec: "vcd_exec S (Copy ?n ?a # ps) (sect_buf (data_sect s), next_out s) = Some y" using po hop by (simp add: puts_out_def)
    obtain src where src: "source s = Some src" "source_view D off S src" using wv by (force simp: window_view_def)
    note out = out_source_copy [OF wv 4(1) src(1) refl 4(2) refl fit]
    show ?thesis
    proof (cases "curblkno src = of_nat ((off + ?a) div 16384)")
      case True
      with out obtain src' k where k: "source_view D off S src'" "k \<le> ?n" "k = 0 \<longrightarrow> ?n = 0" and
        next': "xd3_decode_output_halfinst b s = Next (advance_inst b k (s\<lparr>source := Some src', next_out := next_out s @ take k (drop ?a S)\<rparr>))"
        by auto
      let ?s = "advance_inst b k (s\<lparr>source := Some src', next_out := next_out s @ take k (drop ?a S)\<rparr>)"
      have fields: "next_out ?s = next_out s @ take k (drop ?a S)" "data_sect ?s = data_sect s"
        by (simp_all add: advance_inst_def done_inst_def Let_def)
      have hop': "hop (current b ?s) = (if k = ?n then [] else [Copy (?n - k) (?a + k)])"
        using k(2) hop_advance [of k ?h] 4(1) fit wv by (auto simp: advance_inst_def done_inst_def Let_def hop_simps window_view_def)
      have "puts_out D off S N b ps y ?s"
        using exec_copy_part [OF k(2) 4(2) exec] window_view_source [OF wv k(1)] y
        by (simp add: puts_out_def fields hop')
      moreover have "length (next_out ?s) + hop_size b ?s = length (next_out s) + hop_size b s"
        using k(2) fit by (auto simp: hop_size_def hop hop' fields)
      moreover have "htype (current b ?s) = XD3_NOOP \<or> hop_size b ?s < hop_size b s"
        using k(2, 3) hop' hop by (auto simp: hop_size_def advance_inst_def done_inst_def Let_def)
      moreover have "\<not> waits off S b s" using True hop src by (simp add: waits_def)
      ultimately have "steps_to D off S N b ps y s ?s" using moved_advance by (simp add: steps_to_def)
      then show ?thesis using next' by blast
    next
      case False
      let ?src = "src\<lparr>getblkno := of_nat ((off + ?a) div 16384)\<rparr>"
      have "source_view D off S ?src" using src(2) by (simp add: source_view_def block_view_def)
      then have "stops_at D off S N b ps y s (s\<lparr>source := Some ?src\<rparr>)"
        using po hop src 4 False moved_source window_view_source [OF wv] by (simp add: stops_at_def puts_out_def waits_def asked_def hop_size_def)
      then show ?thesis using out False by auto
    qed
  qed
qed

lemma output_inst_runs:
  assumes "puts_out D off S N b ps y s"
  shows "(\<exists>s'. output_inst b s = Some (Next s') \<and> moved b s s' \<and> puts_out D off S N b ps y s' \<and> htype (current b s') = XD3_NOOP \<and>
      length (next_out s') = length (next_out s) + hop_size b s) \<or>
    (\<exists>s'. output_inst b s = Some (Stop XD3_GETSRCBLK s') \<and> stops_at D off S N b ps y s s')"
  using assms
proof (induction "hop_size b s" arbitrary: s rule: less_induct)
  case less
  have noop: "htype (current b s) = XD3_NOOP \<Longrightarrow> output_inst b s = Some (Next s) \<and> hop_size b s = 0" for s
    by (simp add: output_inst.simps hop_size_def hop_def)
  show ?case
  proof (cases "htype (current b s) = XD3_NOOP")
    case True
    then show ?thesis using noop [OF True] less.prems moved_refl by auto
  next
    case act: False
    from output_step [OF less.prems act] show ?thesis
    proof (elim disjE exE conjE)
      fix s1 assume s1: "xd3_decode_output_halfinst b s = Next s1" "steps_to D off S N b ps y s s1"
      then have eq: "output_inst b s = output_inst b s1" using act by (subst output_inst.simps) simp
      show ?thesis
      proof (cases "htype (current b s1) = XD3_NOOP")
        case True
        then show ?thesis using noop [OF True] s1(2) eq by (auto simp: steps_to_def)
      next
        case False
        then have "hop_size b s1 < hop_size b s" "puts_out D off S N b ps y s1" using s1(2) by (auto simp: steps_to_def)
        from less.hyps [OF this] show ?thesis
          using s1(2) False moved_trans [of b s s1] by (auto simp: eq steps_to_def stops_at_def)
      qed
    next
      fix s1 assume "xd3_decode_output_halfinst b s = Stop XD3_GETSRCBLK s1" "stops_at D off S N b ps y s s1"
      then show ?thesis using act by (subst (2) output_inst.simps) auto
    qed
  qed
qed

section \<open>Parsing an instruction\<close>

fun op_ok :: "bytes \<Rightarrow> nat \<Rightarrow> vop \<Rightarrow> bool" where
  "op_ok S pos (Copy n a) \<longleftrightarrow> a < pos \<and> (a < length S \<longrightarrow> a + n \<le> length S)"
| "op_ok S pos _ \<longleftrightarrow> True"

lemma exec1_op_ok: "vcd_exec1 S p (d, T) = Some x \<Longrightarrow> op_ok S (length S + length T) p"
  by (cases p) (auto simp: copy_ok_def split: if_splits)

lemma decode_address_cache:
  assumes "xd3_decode_address c here mode inp = Got (a, rest, c')" "cache_ok c"
  shows "cache_ok c' \<and> s_near c' = s_near c \<and> s_same c' = s_same c"
proof -
  have "fetched_address c a rest = Got (a, rest, c')"
    using assms(1) by (auto simp: xd3_decode_address_def fetched_address_def Let_def split: if_splits option.splits list.splits)
  then show ?thesis using cache_ok_update [OF assms(2), of a] by (fastforce simp: fetched_address_def split: option.splits)
qed

lemma set_current_same: "set_current b (current b s) s = s"
  by (simp add: set_current_def current_def)

lemma set_current_position:
  "(set_current b h s)\<lparr>dec_position := x\<rparr> = set_current b h (s\<lparr>dec_position := x\<rparr>)"
  "(set_current b h s)\<lparr>acache := c\<rparr> = set_current b h (s\<lparr>acache := c\<rparr>)"
  "(set_current b h s)\<lparr>addr_sect := d\<rparr> = set_current b h (s\<lparr>addr_sect := d\<rparr>)"
  "set_current b h (set_current b h' s) = set_current b h s"
  by (simp_all add: set_current_def)

lemma parse_halfinst:
  assumes wv: "window_view D off S N s" and pos: "dec_position s = of_nat pos" "pos' \<le> length S + N"
    and t: "htype (current b s) = t" "t \<noteq> XD3_NOOP" "hsize (current b s) = of_nat n" "n < 256"
    and half: "vcd_half t n (sect_buf (inst_sect s), sect_buf (addr_sect s), acache s, pos) = Some (p, inst', addr', c', pos')"
    and ok: "op_ok S pos p"
  shows "\<exists>h. xd3_decode_parse_halfinst b s = Next (set_current b h (s\<lparr>inst_sect := (inst_sect s)\<lparr>sect_buf := inst'\<rparr>,
      acache := c', addr_sect := (addr_sect s)\<lparr>sect_buf := addr'\<rparr>, dec_position := of_nat pos'\<rparr>)) \<and> hop h = [p] \<and>
    cache_ok c' \<and> s_near c' = 4 \<and> s_same c' = 3 \<and> pos' = pos + vop_size p"
proof -
  obtain m where m: "vcd_size n (sect_buf (inst_sect s)) = Some (m, inst')" "pos' = pos + m"
    using half by (auto simp: vcd_half_def split: bind_splits if_splits fetched.splits)
  have big: "length S + N < 2 ^ 64" and mp: "dec_maxpos s = of_nat (length S + N)" "dec_cpylen s = of_nat (length S)"
    and cache: "cache_ok (acache s)" "s_near (acache s) = 4" "s_same (acache s) = 3"
    using wv by (auto simp: window_view_def)
  have m64: "unat (of_nat m :: usize) = m" by (rule unat_word_of_nat_id) (use m pos big in simp)
  let ?h = "(current b s)\<lparr>hsize := of_nat m\<rparr>"
  let ?s1 = "set_current b ?h (s\<lparr>inst_sect := (inst_sect s)\<lparr>sect_buf := inst'\<rparr>\<rparr>)"
  have size: "(if hsize (current b s) = 0 then
          (case xd3_read_size (sect_buf (inst_sect s)) of
             None \<Rightarrow> Stop XD3_INVALID_INPUT s
           | Some (v, rest) \<Rightarrow>
               Next (set_current b ((current b s)\<lparr>hsize := v\<rparr>) (s\<lparr>inst_sect := (inst_sect s)\<lparr>sect_buf := rest\<rparr>\<rparr>)))
        else Next s) = Next ?s1"
  proof (cases "n = 0")
    case True
    then obtain v where "xd3_read_size (sect_buf (inst_sect s)) = Some (v, inst')" "m = unat v"
      using m(1) by (auto simp: vcd_size_def)
    then show ?thesis using True t(3) by simp
  next
    case False
    then have "(of_nat n :: usize) \<noteq> 0" using t(4) by (intro word_of_nat_neq_0) simp_all
    moreover have mn: "m = n" "inst' = sect_buf (inst_sect s)" using m(1) False by (simp_all add: vcd_size_def)
    moreover have "?s1 = s"
    proof -
      have "(current b s)\<lparr>hsize := of_nat n\<rparr> = current b s" by (simp add: t(3) [symmetric])
      then have "?s1 = set_current b (current b s) s" by (simp only: mn) simp
      then show ?thesis by (simp only: set_current_same)
    qed
    ultimately show ?thesis using t(3) by simp
  qed
  have posw: "unat (of_nat pos :: usize) = pos" "unat (of_nat pos + of_nat m :: usize) = pos + m"
  proof -
    show "unat (of_nat pos :: usize) = pos" by (rule unat_word_of_nat_id) (use m pos big in simp)
    have "unat (of_nat (pos + m) :: usize) = pos + m" by (rule unat_word_of_nat_id) (use m pos big in simp)
    then show "unat (of_nat pos + of_nat m :: usize) = pos + m" by (simp only: of_nat_add)
  qed
  have maxw: "unat (of_nat (length S + N) :: usize) = length S + N" by (rule unat_word_of_nat_id) (use big in simp)
  have last: "\<not> dec_maxpos s < of_nat pos + of_nat m" using posw maxw m pos by (simp add: mp word_less_nat_alt)
  show ?thesis
  proof (cases "t < XD3_CPY")
    case True
    then have p: "p = (if t = XD3_RUN then Run m else Add m)" "addr' = sect_buf (addr_sect s)" "c' = acache s"
      using half m(1) by (auto simp: vcd_half_def)
    have "hop ?h = [p]" using True t(1, 2) m64 p by (auto simp: hop_def rtype_defs)
    then show ?thesis
      unfolding xd3_decode_parse_halfinst_def size
      using True t(1) pos(1) last cache m(2) p
      by (intro exI [of _ ?h]) (auto simp: Let_def set_current_position)
  next
    case False
    then obtain a where a: "xd3_decode_address (acache s) (of_nat pos) (t - XD3_CPY) (sect_buf (addr_sect s)) = Got (a, addr', c')"
      "p = Copy m (unat a)"
      using half m(1) by (auto simp: vcd_half_def split: fetched.splits)
    have c': "cache_ok c'" "s_near c' = 4" "s_same c' = 3" using decode_address_cache [OF a(1) cache(1)] cache by auto
    have lt: "\<not> of_nat pos \<le> a" using ok a(2) posw by (simp add: word_le_nat_alt)
    have cross: "\<not> (a < dec_cpylen s \<and> dec_cpylen s < a + of_nat m)"
    proof -
      have S: "unat (dec_cpylen s) = length S" using mp big by simp
      have "unat (a + of_nat m) = unat a + m" if "unat a + m \<le> length S" using that big m64 by (simp add: unat_word_ariths)
      then show ?thesis using ok a(2) S by (auto simp: word_less_nat_alt)
    qed
    have "hop (?h\<lparr>haddr := a\<rparr>) = [p]" using False t(1) m64 a(2) by (auto simp: hop_def rtype_defs)
    then show ?thesis
      unfolding xd3_decode_parse_halfinst_def size
      using False t(1) pos(1) last c' m(2) a lt cross
      by (intro exI [of _ "?h\<lparr>haddr := a\<rparr>"]) (simp add: Let_def set_current_position)
  qed
qed

section \<open>The loop over a window\<close>

text \<open>A state in the middle of a window: the instructions at hand and those still in their section put out the rest of \<open>T\<close>.\<close>

definition emits :: "bytes \<Rightarrow> nat \<Rightarrow> bytes \<Rightarrow> xd3_stream \<Rightarrow> vop list \<Rightarrow> bytes \<Rightarrow> bool" where
  "emits D off S s ops T \<longleftrightarrow>
     window_view D off S (length T) s \<and>
     vcd_exec S (hop (current False s) @ hop (current True s) @ ops) (sect_buf (data_sect s), next_out s) = Some ([], T) \<and>
     (let pos = length S + length (next_out s) + hop_size False s + hop_size True s in
      dec_position s = of_nat pos \<and> vcd_ops (sect_buf (inst_sect s), sect_buf (addr_sect s), acache s, pos) = Some (ops, []))"

text \<open>All that the output of a window does not change.\<close>

definition emit_frame :: "xd3_stream \<Rightarrow> xd3_stream" where
  "emit_frame s = s\<lparr>data_sect := (data_sect s)\<lparr>sect_buf := []\<rparr>, inst_sect := (inst_sect s)\<lparr>sect_buf := []\<rparr>,
     addr_sect := (addr_sect s)\<lparr>sect_buf := []\<rparr>, acache := vcd_cache, next_out := [], source := None, dec_position := 0,
     dec_current1 := empty_hinst, dec_current2 := empty_hinst\<rparr>"

lemma moved_frame: "moved b s s' \<Longrightarrow> emit_frame s' = emit_frame s"
  by (auto simp: moved_def emit_frame_def set_current_def)

lemma table_small: "b < 256 \<Longrightarrow> size1 (xd3_rfc3284_code_table ! b) < 256 \<and> size2 (xd3_rfc3284_code_table ! b) < 256"
proof -
  have "list_all (\<lambda>e. size1 e < 256 \<and> size2 e < 256) xd3_rfc3284_code_table" by code_simp
  then show "b < 256 \<Longrightarrow> ?thesis" by (simp add: list_all_length length_code_table)
qed

text \<open>One optional half: its instruction is at hand afterwards.\<close>

lemma parse_opt_half:
  assumes wv: "window_view D off S N s" and pos: "dec_position s = of_nat pos" "pos' \<le> length S + N"
    and t: "htype (current b s) = t" "hsize (current b s) = of_nat n" "n < 256"
    and half: "vcd_opt_half t n (sect_buf (inst_sect s), sect_buf (addr_sect s), acache s, pos) = Some (ps, inst', addr', c', pos')"
    and ok: "\<forall>p \<in> set ps. op_ok S pos p"
  shows "\<exists>h. (if t \<noteq> XD3_NOOP then xd3_decode_parse_halfinst b s else Next s) =
      Next (set_current b h (s\<lparr>inst_sect := (inst_sect s)\<lparr>sect_buf := inst'\<rparr>,
        acache := c', addr_sect := (addr_sect s)\<lparr>sect_buf := addr'\<rparr>, dec_position := of_nat pos'\<rparr>)) \<and> hop h = ps \<and>
    cache_ok c' \<and> s_near c' = 4 \<and> s_same c' = 3 \<and> pos' = pos + sum_list (map vop_size ps)"
proof (cases "t = XD3_NOOP")
  case True
  have cache: "cache_ok (acache s)" "s_near (acache s) = 4" "s_same (acache s) = 3" using wv by (simp_all add: window_view_def)
  have r: "ps = []" "inst' = sect_buf (inst_sect s)" "addr' = sect_buf (addr_sect s)" "c' = acache s" "pos' = pos"
    using half True by (simp_all add: vcd_opt_half_def)
  then have "s\<lparr>inst_sect := (inst_sect s)\<lparr>sect_buf := inst'\<rparr>, acache := c', addr_sect := (addr_sect s)\<lparr>sect_buf := addr'\<rparr>,
      dec_position := of_nat pos'\<rparr> = s" by (simp add: pos(1) [symmetric])
  then show ?thesis using True t(1) cache r by (intro exI [of _ "current b s"]) (simp add: set_current_same hop_def)
next
  case False
  then obtain p where p: "ps = [p]" "vcd_half t n (sect_buf (inst_sect s), sect_buf (addr_sect s), acache s, pos) = Some (p, inst', addr', c', pos')"
    using half by (auto simp: vcd_opt_half_def)
  show ?thesis using parse_halfinst [OF wv pos t(1) False t(2, 3) p(2)] ok False p(1) by simp
qed

lemma opt_half_short: "vcd_opt_half t n p = Some (ps, q) \<Longrightarrow> length ps \<le> 1"
  by (auto simp: vcd_opt_half_def split: if_splits)

lemma opt_half_pos:
  assumes "vcd_opt_half t n (i, a, c, pos) = Some (ps, i', a', c', pos')" shows "pos' = pos + sum_list (map vop_size ps)"
  using assms by (auto simp: vcd_opt_half_def vcd_half_def split: if_splits bind_splits fetched.splits)

lemma exec_ops_ok:
  assumes "vcd_exec S (ps @ qs) (d, T) = Some y" "length ps \<le> 1" shows "\<forall>p \<in> set ps. op_ok S (length S + length T) p"
proof (cases ps)
  case (Cons p ps')
  then have "ps' = []" using assms(2) by simp
  then show ?thesis using assms(1) Cons exec1_op_ok by (fastforce split: bind_splits)
qed simp

lemma window_view_parsed:
  "window_view D off S N s \<Longrightarrow> cache_ok c \<Longrightarrow> s_near c = 4 \<Longrightarrow> s_same c = 3 \<Longrightarrow>
     window_view D off S N (s\<lparr>inst_sect := i, acache := c, addr_sect := a, dec_position := p\<rparr>)"
  by (simp add: window_view_def)

lemma decode_instruction:
  assumes em: "emits D off S s ops T" and noop: "htype (dec_current1 s) = XD3_NOOP" "htype (dec_current2 s) = XD3_NOOP"
    and ne: "sect_buf (inst_sect s) \<noteq> []"
  shows "\<exists>s' ops'. xd3_decode_instruction s = Next s' \<and> emits D off S s' ops' T \<and>
    ops = hop (current False s') @ hop (current True s') @ ops' \<and> next_out s' = next_out s \<and> source s' = source s \<and>
    length (sect_buf (inst_sect s')) < length (sect_buf (inst_sect s)) \<and> emit_frame s' = emit_frame s"
proof -
  obtain b rest where inst: "sect_buf (inst_sect s) = b # rest" using ne by (cases "sect_buf (inst_sect s)") auto
  let ?e = "xd3_rfc3284_code_table ! unat b" and ?pos = "length S + length (next_out s)" and ?N = "length T"
  have hops: "hop (current False s) = []" "hop (current True s) = []" using noop by (simp_all add: hop_def current_def)
  have wv: "window_view D off S ?N s" and exec: "vcd_exec S ops (sect_buf (data_sect s), next_out s) = Some ([], T)"
    and pos: "dec_position s = of_nat ?pos" and vops: "vcd_ops (b # rest, sect_buf (addr_sect s), acache s, ?pos) = Some (ops, [])"
    using em hops inst by (simp_all add: emits_def hop_size_def)
  from vops obtain ops1 inst1 addr1 c1 pos1 ops2 inst2 addr2 c2 pos2 ops' where
    h1: "vcd_opt_half (type1 ?e) (size1 ?e) (rest, sect_buf (addr_sect s), acache s, ?pos) = Some (ops1, inst1, addr1, c1, pos1)" and
    h2: "vcd_opt_half (type2 ?e) (size2 ?e) (inst1, addr1, c1, pos1) = Some (ops2, inst2, addr2, c2, pos2)" and
    rest: "vcd_ops (inst2, addr2, c2, pos2) = Some (ops', [])" "ops = ops1 @ ops2 @ ops'"
    by (auto simp: vcd_ops.simps [of "b # rest"] vcd_inst_def split: option.splits bind_splits prod.splits)
  obtain d1 T1 where exec1: "vcd_exec S ops1 (sect_buf (data_sect s), next_out s) = Some (d1, T1)" "vcd_exec S (ops2 @ ops') (d1, T1) = Some ([], T)"
    using exec by (auto simp: rest exec_append split: bind_splits)
  have T1: "length T1 = length (next_out s) + sum_list (map vop_size ops1)" using exec1 exec_size by blast
  have N: "?N = length T1 + sum_list (map vop_size ops2) + sum_list (map vop_size ops')" using exec_size [OF exec1(2)] by simp
  define s0 where "s0 = s\<lparr>inst_sect := (inst_sect s)\<lparr>sect_buf := rest\<rparr>,
      dec_current1 := (dec_current1 s)\<lparr>htype := type1 ?e, hsize := of_nat (size1 ?e)\<rparr>,
      dec_current2 := (dec_current2 s)\<lparr>htype := type2 ?e, hsize := of_nat (size2 ?e)\<rparr>\<rparr>"
  have s0: "window_view D off S ?N s0" "dec_position s0 = of_nat ?pos" "sect_buf (inst_sect s0) = rest" "addr_sect s0 = addr_sect s" "acache s0 = acache s"
    "current False s0 = (dec_current1 s)\<lparr>htype := type1 ?e, hsize := of_nat (size1 ?e)\<rparr>"
    "current True s0 = (dec_current2 s)\<lparr>htype := type2 ?e, hsize := of_nat (size2 ?e)\<rparr>"
    "data_sect s0 = data_sect s" "next_out s0 = next_out s" "source s0 = source s"
    using wv pos by (simp_all add: s0_def window_view_def current_def)
  have small: "size1 ?e < 256" "size2 ?e < 256" using table_small [of "unat b"] by simp_all
  have pos1: "pos1 = ?pos + sum_list (map vop_size ops1)"
    using h1 opt_half_pos by blast
  have pos2: "pos2 = pos1 + sum_list (map vop_size ops2)" using h2 opt_half_pos by blast
  obtain g1 where g1: "(if type1 ?e \<noteq> XD3_NOOP then xd3_decode_parse_halfinst False s0 else Next s0) =
      Next (set_current False g1 (s0\<lparr>inst_sect := (inst_sect s0)\<lparr>sect_buf := inst1\<rparr>,
        acache := c1, addr_sect := (addr_sect s0)\<lparr>sect_buf := addr1\<rparr>, dec_position := of_nat pos1\<rparr>))" "hop g1 = ops1"
    "cache_ok c1" "s_near c1 = 4" "s_same c1 = 3"
    using parse_opt_half [OF s0(1, 2), of pos1 False "type1 ?e" "size1 ?e" ops1 inst1 addr1 c1] s0 small h1 pos1 T1 N
      exec_ops_ok [of S ops1 "ops2 @ ops'", OF _ opt_half_short [OF h1]] exec rest(2) by auto
  define s1 where "s1 = set_current False g1 (s0\<lparr>inst_sect := (inst_sect s0)\<lparr>sect_buf := inst1\<rparr>,
        acache := c1, addr_sect := (addr_sect s0)\<lparr>sect_buf := addr1\<rparr>, dec_position := of_nat pos1\<rparr>)"
  have s1: "window_view D off S ?N s1" "dec_position s1 = of_nat pos1" "sect_buf (inst_sect s1) = inst1" "sect_buf (addr_sect s1) = addr1" "acache s1 = c1"
    "current False s1 = g1" "current True s1 = current True s0" "data_sect s1 = data_sect s" "next_out s1 = next_out s" "source s1 = source s"
    using window_view_parsed [OF s0(1) g1(3-5)] s0 by (simp_all add: s1_def) (simp_all add: current_def set_current_def)
  obtain g2 where g2: "(if type2 ?e \<noteq> XD3_NOOP then xd3_decode_parse_halfinst True s1 else Next s1) =
      Next (set_current True g2 (s1\<lparr>inst_sect := (inst_sect s1)\<lparr>sect_buf := inst2\<rparr>,
        acache := c2, addr_sect := (addr_sect s1)\<lparr>sect_buf := addr2\<rparr>, dec_position := of_nat pos2\<rparr>))" "hop g2 = ops2"
    "cache_ok c2" "s_near c2 = 4" "s_same c2 = 3"
    using parse_opt_half [OF s1(1, 2), of pos2 True "type2 ?e" "size2 ?e" ops2 inst2 addr2 c2] s1 s0 small h2 pos1 pos2 T1 N
      exec_ops_ok [OF exec1(2) opt_half_short [OF h2]] by (auto simp: add.assoc)
  define s2 where "s2 = set_current True g2 (s1\<lparr>inst_sect := (inst_sect s1)\<lparr>sect_buf := inst2\<rparr>,
        acache := c2, addr_sect := (addr_sect s1)\<lparr>sect_buf := addr2\<rparr>, dec_position := of_nat pos2\<rparr>)"
  have s2: "window_view D off S ?N s2" "dec_position s2 = of_nat pos2" "sect_buf (inst_sect s2) = inst2" "sect_buf (addr_sect s2) = addr2" "acache s2 = c2"
    "current False s2 = g1" "current True s2 = g2" "data_sect s2 = data_sect s" "next_out s2 = next_out s" "source s2 = source s"
    using window_view_parsed [OF s1(1) g2(3-5)] s1 by (simp_all add: s2_def) (simp_all add: current_def set_current_def)
  have "xd3_decode_instruction s = Next s2"
  proof -
    have "code_table s = xd3_rfc3284_code_table" "\<not> 256 \<le> unat b" using wv unat_byte_lt [of b] by (simp_all add: window_view_def not_le)
    then have "xd3_decode_instruction s =
        and_then (if type1 ?e \<noteq> XD3_NOOP then xd3_decode_parse_halfinst False s0 else Next s0)
          (\<lambda>s. if type2 ?e \<noteq> XD3_NOOP then xd3_decode_parse_halfinst True s else Next s)"
      by (simp add: xd3_decode_instruction_def inst length_code_table Let_def s0_def)
    then show ?thesis by (simp only: g1(1) and_then.simps s1_def [symmetric] g2(1) s2_def [symmetric])
  qed
  moreover have "emits D off S s2 ops' T"
    using s2 exec rest g1(2) g2(2) pos1 pos2 by (simp add: emits_def hop_size_def add.assoc)
  moreover have "length inst2 < length (sect_buf (inst_sect s))"
  proof -
    have "vcd_inst ?e (rest, sect_buf (addr_sect s), acache s, ?pos) = Some (ops1 @ ops2, inst2, addr2, c2, pos2)"
      using h1 h2 by (simp add: vcd_inst_def)
    then show ?thesis using vcd_inst_shorter inst by fastforce
  qed
  moreover have "emit_frame s2 = emit_frame s" by (simp add: emit_frame_def s2_def s1_def s0_def set_current_def)
  ultimately show ?thesis using s2 g1(2) g2(2) rest(2) by auto
qed

text \<open>The two instructions at hand: whether the output has to wait, and what is left to do.\<close>

definition blocked :: "nat \<Rightarrow> bytes \<Rightarrow> xd3_stream \<Rightarrow> bool" where
  "blocked off S s \<longleftrightarrow> (if htype (current False s) \<noteq> XD3_NOOP then waits off S False s else waits off S True s)"

definition requested :: "nat \<Rightarrow> bytes \<Rightarrow> xd3_stream \<Rightarrow> bool" where
  "requested off S s \<longleftrightarrow> (if htype (current False s) \<noteq> XD3_NOOP then asked off S False s else asked off S True s)"

definition work :: "vop list \<Rightarrow> nat" where
  "work ps = sum_list (map (\<lambda>p. Suc (vop_size p)) ps)"

definition at_hand :: "xd3_stream \<Rightarrow> vop list" where
  "at_hand s = hop (current False s) @ hop (current True s)"

lemma waits_active: "waits off S b s \<Longrightarrow> htype (current b s) \<noteq> XD3_NOOP"
  by (auto simp: waits_def hop_def)

lemma hop_work: "work (hop h) = (if htype h = XD3_NOOP then 0 else Suc (sum_list (map vop_size (hop h))))"
  by (simp add: work_def hop_def)

lemma work_append [simp]: "work (ps @ qs) = work ps + work qs"
  by (simp add: work_def)

lemma stops_at_work:
  assumes "stops_at D off S N b ps y s s'"
  shows "work (hop (current b s')) \<le> work (hop (current b s)) \<and> (waits off S b s \<or> work (hop (current b s')) < work (hop (current b s)))"
proof -
  have "htype (current b s) \<noteq> XD3_NOOP"
    using assms waits_active [of off S b s] by (auto simp: stops_at_def hop_size_def hop_def)
  then show ?thesis using assms waits_active [of off S b s'] by (auto simp: stops_at_def hop_work hop_size_def)
qed

lemma output_two:
  assumes em: "emits D off S s ops T"
  shows "(\<exists>s1 s2. output_inst False s = Some (Next s1) \<and> output_inst True s1 = Some (Next s2) \<and> emits D off S s2 ops T \<and>
      htype (current False s2) = XD3_NOOP \<and> htype (current True s2) = XD3_NOOP \<and> inst_sect s2 = inst_sect s \<and> emit_frame s2 = emit_frame s) \<or>
    (\<exists>s'. (output_inst False s = Some (Stop XD3_GETSRCBLK s') \<or>
        (\<exists>s1. output_inst False s = Some (Next s1) \<and> output_inst True s1 = Some (Stop XD3_GETSRCBLK s'))) \<and>
      emits D off S s' ops T \<and> blocked off S s' \<and> requested off S s' \<and> inst_sect s' = inst_sect s \<and> emit_frame s' = emit_frame s \<and>
      work (at_hand s') \<le> work (at_hand s) \<and> (blocked off S s \<or> work (at_hand s') < work (at_hand s)))"
proof -
  let ?N = "length T"
  have po: "puts_out D off S ?N False (hop (current True s) @ ops) ([], T) s" using em by (simp add: emits_def puts_out_def)
  from output_inst_runs [OF po] show ?thesis
  proof (elim disjE exE conjE)
    fix s1 assume s1: "output_inst False s = Some (Next s1)" "moved False s s1" "puts_out D off S ?N False (hop (current True s) @ ops) ([], T) s1"
      "htype (current False s1) = XD3_NOOP" "length (next_out s1) = length (next_out s) + hop_size False s"
    note f1 = moved_fields [OF s1(2)] moved_frame [OF s1(2)]
    have h1: "hop (current False s1) = []" "hop_size False s1 = 0" using s1(4) by (simp_all add: hop_def hop_size_def)
    have cur1: "current True s1 = current True s" using f1(5) by simp
    have po1: "puts_out D off S ?N True ops ([], T) s1" using s1(3) h1 by (simp add: puts_out_def cur1)
    from output_inst_runs [OF po1] show ?thesis
    proof (elim disjE exE conjE)
      fix s2 assume s2: "output_inst True s1 = Some (Next s2)" "moved True s1 s2" "puts_out D off S ?N True ops ([], T) s2"
        "htype (current True s2) = XD3_NOOP" "length (next_out s2) = length (next_out s1) + hop_size True s1"
      note f2 = moved_fields [OF s2(2)] moved_frame [OF s2(2)]
      have cur2: "current False s2 = current False s1" using f2(5) by simp
      have h2: "hop (current True s2) = []" "hop_size True s2 = 0" "hop_size False s2 = 0" "hop (current False s2) = []"
        using s2(4) h1 cur2 by (simp_all add: hop_def hop_size_def)
      have "emits D off S s2 ops T"
        using em s1(5) s2(3, 5) h2 f1 f2 cur1 by (simp add: emits_def puts_out_def hop_size_def Let_def add.assoc)
      then show ?thesis using s1(1, 4) s2(1, 4) f1 f2 cur2 by auto
    next
      fix s' assume s': "output_inst True s1 = Some (Stop XD3_GETSRCBLK s')" "stops_at D off S ?N True ops ([], T) s1 s'"
      then have mv: "moved True s1 s'" by (simp add: stops_at_def)
      note f2 = moved_fields [OF mv] moved_frame [OF mv]
      have cur2: "current False s' = current False s1" using f2(5) by simp
      have h2: "hop_size False s' = 0" "hop (current False s') = []" using h1 cur2 by (simp_all add: hop_size_def)
      have "emits D off S s' ops T"
        using em s1(5) s' h2 f1 f2 cur1 by (simp add: emits_def stops_at_def puts_out_def hop_size_def Let_def add.assoc)
      moreover have "blocked off S s'" "requested off S s'" using s' s1(4) cur2 by (simp_all add: blocked_def requested_def stops_at_def)
      moreover have "work (at_hand s') \<le> work (at_hand s) \<and> (blocked off S s \<or> work (at_hand s') < work (at_hand s))"
      proof (cases "htype (current False s) = XD3_NOOP")
        case True
        then have "s1 = s" using s1(1) by (simp add: output_inst.simps)
        then show ?thesis using stops_at_work [OF s'(2)] True h2 by (auto simp: at_hand_def blocked_def stops_at_def hop_def [of "current False s"])
      next
        case False
        then show ?thesis using stops_at_work [OF s'(2)] h2 cur1 by (simp add: at_hand_def hop_work [of "current False s"])
      qed
      ultimately show ?thesis using s1(1) s'(1) f1 f2 by auto
    qed
  next
    fix s' assume s': "output_inst False s = Some (Stop XD3_GETSRCBLK s')" "stops_at D off S ?N False (hop (current True s) @ ops) ([], T) s s'"
    then have mv: "moved False s s'" by (simp add: stops_at_def)
    note f2 = moved_fields [OF mv] moved_frame [OF mv]
    have cur2: "current True s' = current True s" using f2(5) by simp
    have "emits D off S s' ops T"
      using em s' f2 cur2 by (simp add: emits_def stops_at_def puts_out_def hop_size_def Let_def add.assoc)
    moreover have "blocked off S s'" "requested off S s'" using s' waits_active [of off S False s'] by (simp_all add: blocked_def requested_def stops_at_def)
    moreover have "work (at_hand s') \<le> work (at_hand s) \<and> (blocked off S s \<or> work (at_hand s') < work (at_hand s))"
      using stops_at_work [OF s'(2)] cur2 waits_active by (auto simp: at_hand_def blocked_def)
    ultimately show ?thesis using s'(1) f2 by auto
  qed
qed

definition load :: "xd3_stream \<Rightarrow> vop list \<Rightarrow> nat" where
  "load s ops = length (sect_buf (inst_sect s)) + work (at_hand s @ ops)"

definition emit_done :: "bytes \<Rightarrow> nat \<Rightarrow> bytes \<Rightarrow> bytes \<Rightarrow> xd3_stream \<Rightarrow> xd3_stream \<Rightarrow> bool" where
  "emit_done D off S T s s' \<longleftrightarrow>
     window_view D off S (length T) s' \<and> next_out s' = T \<and> sect_buf (data_sect s') = [] \<and> sect_buf (addr_sect s') = [] \<and> at_hand s' = [] \<and> emit_frame s' = emit_frame s"

definition emit_waits :: "bytes \<Rightarrow> nat \<Rightarrow> bytes \<Rightarrow> bytes \<Rightarrow> xd3_stream \<Rightarrow> vop list \<Rightarrow> xd3_stream \<Rightarrow> vop list \<Rightarrow> bool" where
  "emit_waits D off S T s ops s' ops' \<longleftrightarrow> emits D off S s' ops' T \<and> blocked off S s' \<and> requested off S s' \<and>
     emit_frame s' = emit_frame s \<and> (blocked off S s \<or> load s' ops' < load s ops)"

lemma at_hand_Nil: "at_hand s = [] \<longleftrightarrow> htype (dec_current1 s) = XD3_NOOP \<and> htype (dec_current2 s) = XD3_NOOP"
  by (auto simp: at_hand_def hop_def current_def)

lemma at_hand_Nil_blocked: "at_hand s = [] \<Longrightarrow> \<not> blocked off S s"
  using waits_active [of off S True s] waits_active [of off S False s] by (auto simp: blocked_def at_hand_Nil current_def)

lemma emit_loop_unfold:
  assumes "at_hand s \<noteq> [] \<or> sect_buf (inst_sect s) \<noteq> []" "next_instruction s = Next s1"
  shows "emit_loop s =
    Option.bind (output_inst False s1) (\<lambda>r. case r of
       Stop r s \<Rightarrow> Some (Stop r s)
     | Crash \<Rightarrow> Some Crash
     | Next s \<Rightarrow>
         Option.bind (output_inst True s) (\<lambda>r. case r of
           Stop r s \<Rightarrow> Some (Stop r s)
         | Crash \<Rightarrow> Some Crash
         | Next s \<Rightarrow> emit_loop s))"
  using assms by (subst emit_loop.simps) (auto simp: at_hand_Nil)

lemma emit_loop_empty: "at_hand s = [] \<Longrightarrow> sect_buf (inst_sect s) = [] \<Longrightarrow> emit_loop s = Some (Next s)"
  by (subst emit_loop.simps) (simp add: at_hand_Nil)

lemma emits_next:
  assumes "emits D off S s ops T" "at_hand s \<noteq> [] \<or> sect_buf (inst_sect s) \<noteq> []"
  shows "\<exists>s1 ops1. next_instruction s = Next s1 \<and> emits D off S s1 ops1 T \<and> emit_frame s1 = emit_frame s \<and>
    (s1 = s \<and> ops1 = ops \<and> at_hand s \<noteq> [] \<or>
     length (sect_buf (inst_sect s1)) < length (sect_buf (inst_sect s)) \<and> at_hand s = [] \<and> load s1 ops1 < load s ops)"
proof (cases "at_hand s = []")
  case True
  then have inst: "sect_buf (inst_sect s) \<noteq> []" using assms(2) by simp
  have noop: "htype (dec_current1 s) = XD3_NOOP" "htype (dec_current2 s) = XD3_NOOP" using True by (simp_all add: at_hand_Nil)
  from decode_instruction [OF assms(1) noop inst] show ?thesis
    using True noop by (force simp: next_instruction_def load_def at_hand_def)
next
  case False
  then show ?thesis using assms(1) by (auto simp: next_instruction_def at_hand_Nil)
qed

lemma emit_loop_runs:
  assumes "emits D off S s ops T"
  shows "(\<exists>s'. emit_loop s = Some (Next s') \<and> emit_done D off S T s s') \<or>
    (\<exists>s' ops'. emit_loop s = Some (Stop XD3_GETSRCBLK s') \<and> emit_waits D off S T s ops s' ops')"
  using assms
proof (induction "2 * length (sect_buf (inst_sect s)) + (if at_hand s = [] then 0 else 1)" arbitrary: s ops rule: less_induct)
  case less
  show ?case
  proof (cases "at_hand s = [] \<and> sect_buf (inst_sect s) = []")
    case True
    then have "window_view D off S (length T) s" "ops = []" "sect_buf (addr_sect s) = []" "next_out s = T" "sect_buf (data_sect s) = []"
      using less.prems by (auto simp: emits_def at_hand_def Let_def vcd_ops.simps)
    then show ?thesis using True by (simp add: emit_loop_empty emit_done_def)
  next
    case False
    then obtain s1 ops1 where s1: "next_instruction s = Next s1" "emits D off S s1 ops1 T" "emit_frame s1 = emit_frame s"
      "s1 = s \<and> ops1 = ops \<and> at_hand s \<noteq> [] \<or>
       length (sect_buf (inst_sect s1)) < length (sect_buf (inst_sect s)) \<and> at_hand s = [] \<and> load s1 ops1 < load s ops"
      using emits_next [OF less.prems] by blast
    have unfold: "at_hand s \<noteq> [] \<or> sect_buf (inst_sect s) \<noteq> []" using False by blast
    note loop = emit_loop_unfold [OF unfold s1(1)]
    from output_two [OF s1(2)] consider
        (both) sa s2 where "output_inst False s1 = Some (Next sa)" "output_inst True sa = Some (Next s2)" "emits D off S s2 ops1 T"
          "htype (current False s2) = XD3_NOOP" "htype (current True s2) = XD3_NOOP" "inst_sect s2 = inst_sect s1" "emit_frame s2 = emit_frame s1"
      | (wait) s' where "emit_loop s = Some (Stop XD3_GETSRCBLK s')" "emits D off S s' ops1 T" "blocked off S s'" "requested off S s'"
          "inst_sect s' = inst_sect s1" "emit_frame s' = emit_frame s1" "work (at_hand s') \<le> work (at_hand s1)"
          "blocked off S s1 \<or> work (at_hand s') < work (at_hand s1)"
      using loop by (elim disjE [of "\<exists>x y. _ x y"]) fastforce+
    then show ?thesis
    proof cases
      case s2: (both sa s2)
      then have hand: "at_hand s2 = []" by (simp add: at_hand_Nil current_def)
      have "2 * length (sect_buf (inst_sect s2)) + (if at_hand s2 = [] then 0 else 1) < 2 * length (sect_buf (inst_sect s)) + (if at_hand s = [] then 0 else 1)"
        using s1(4) s2(6) hand by auto
      note IH = less.hyps [OF this s2(3)]
      have "load s2 ops1 \<le> load s ops" using s1(4) s2(6) hand by (auto simp: load_def)
      moreover have "emit_loop s = emit_loop s2" using loop s2(1, 2) by simp
      ultimately show ?thesis
        using IH s1(3) s2(7) at_hand_Nil_blocked [OF hand] by (fastforce simp: emit_done_def emit_waits_def)
    next
      case s': (wait s')
      then have "emit_waits D off S T s ops s' ops1" using s1(3, 4) by (auto simp: emit_waits_def load_def)
      then show ?thesis using s'(1) by blast
    qed
  qed
qed

end
