(* ===== verification/Xd3_Window.thy ===== *)
theory Xd3_Window
  imports Xd3_Emit
begin

text \<open>
  One window as the patcher runs it: the calls of the decoder that put the window out, with the blocks of the source that are
  loaded in between.
\<close>

section \<open>One call of the decoder\<close>

definition finish_window :: "xd3_stream \<Rightarrow> xd3_stream" where
  "finish_window s = s\<lparr>dec_winbytes := 0, dec_state := DEC_FINISH, data_sect := (data_sect s)\<lparr>sect_pos := 0\<rparr>,
     inst_sect := (inst_sect s)\<lparr>sect_pos := 0\<rparr>, addr_sect := (addr_sect s)\<lparr>sect_pos := 0\<rparr>,
     total_out := total_out s + of_nat (length (next_out s))\<rparr>"

definition checksum_ok :: "bytes \<Rightarrow> xd3_stream \<Rightarrow> bool" where
  "checksum_ok T s \<longleftrightarrow> (bit (dec_win_ind s) VCD_ADLER32 \<and> \<not> bit (flags s) XD3_ADLER32_NOVER \<longrightarrow> dec_adler32 s = adler32 1 T)"

lemma frame_fields:
  assumes "emit_frame s' = emit_frame s"
  shows "dec_win_ind s' = dec_win_ind s" "flags s' = flags s" "dec_adler32 s' = dec_adler32 s" "dec_tgtlen s' = dec_tgtlen s"
    "dec_state s' = dec_state s" "enc_state s' = enc_state s" "dec_cpyoff s' = dec_cpyoff s" "next_in s' = next_in s"
proof -
  note eq = arg_cong [OF assms]
  show "dec_win_ind s' = dec_win_ind s" using eq [of dec_win_ind] by (simp add: emit_frame_def)
  show "flags s' = flags s" using eq [of flags] by (simp add: emit_frame_def)
  show "dec_adler32 s' = dec_adler32 s" using eq [of dec_adler32] by (simp add: emit_frame_def)
  show "dec_tgtlen s' = dec_tgtlen s" using eq [of dec_tgtlen] by (simp add: emit_frame_def)
  show "dec_state s' = dec_state s" using eq [of dec_state] by (simp add: emit_frame_def)
  show "enc_state s' = enc_state s" using eq [of enc_state] by (simp add: emit_frame_def)
  show "dec_cpyoff s' = dec_cpyoff s" using eq [of dec_cpyoff] by (simp add: emit_frame_def)
  show "next_in s' = next_in s" using eq [of next_in] by (simp add: emit_frame_def)
qed

text \<open>The offset of the copy window in blocks is computed in every call; after the first this changes nothing.\<close>

definition offset_set :: "nat \<Rightarrow> bytes \<Rightarrow> xd3_stream \<Rightarrow> bool" where
  "offset_set off S s \<longleftrightarrow> (if bit (dec_win_ind s) VCD_SOURCE then dec_cpyoff s = of_nat off \<and> off < 2 ^ 62 \<and> S \<noteq> [] else S = [])"

lemma blksize_div:
  assumes "shiftby src = 14" "maskby src = 16383" "off < 2 ^ 62"
  shows "xd3_blksize_div (of_nat off) src = (of_nat (off div 16384), of_nat (off mod 16384))"
proof -
  have off: "unat (of_nat off :: usize) = off" by (rule unat_word_of_nat_id) (use assms in simp)
  have "unat (drop_bit 14 (of_nat off :: usize)) = off div 16384" by (simp only: unat_drop_bit off) simp
  then have "drop_bit 14 (of_nat off :: usize) = of_nat (off div 16384)" by (metis of_nat_unat ucast_id)
  then show ?thesis using assms off by (simp add: xd3_blksize_div_def mask_16383)
qed

lemma source_same: "source s = Some src \<Longrightarrow> s\<lparr>source := Some src\<rparr> = s"
  by (metis xd3_stream.surjective xd3_stream.update_convs(8))

lemma dec_emit_runs:
  assumes em: "emits D off S s ops T" and off: "offset_set off S s" and T: "dec_tgtlen s = of_nat (length T)"
  shows "(\<exists>s'. dec_emit_state s = Some (if checksum_ok T s then Stop XD3_OUTPUT (finish_window s') else Stop XD3_INVALID_INPUT s') \<and> emit_done D off S T s s') \<or>
    (\<exists>s' ops'. dec_emit_state s = Some (Stop XD3_GETSRCBLK s') \<and> emit_waits D off S T s ops s' ops')"
proof -
  obtain src where src: "source s = Some src" "source_view D off S src" using em by (auto simp: emits_def window_view_def)
  have same: "dec_emit_state s = map_option (\<lambda>r. case r of
               Stop r s \<Rightarrow> Stop r (if r = XD3_OUTPUT then s\<lparr>total_out := total_out s + of_nat (length (next_out s))\<rparr> else s)
             | r \<Rightarrow> r) (xd3_decode_emit s)"
  proof (cases "bit (dec_win_ind s) VCD_SOURCE")
    case True
    then have "xd3_blksize_div (dec_cpyoff s) src = (cpyoff_blocks src, cpyoff_blkoff src)"
      using off src(2) blksize_div [of src off] by (simp add: offset_set_def source_view_def block_view_def)
    then show ?thesis using True src(1) by (simp add: dec_emit_state_def Let_def source_same)
  qed (simp add: dec_emit_state_def Let_def)
  from emit_loop_runs [OF em] show ?thesis
  proof (elim disjE exE conjE)
    fix s' assume s': "emit_loop s = Some (Next s')" "emit_done D off S T s s'"
    then have "emit_frame s' = emit_frame s" by (simp add: emit_done_def)
    note f = frame_fields [OF this]
    have "emit_checks s' = (if checksum_ok T s then xd3_decode_finish_window s' else Stop XD3_INVALID_INPUT s')"
      using s'(2) T f by (auto simp: emit_checks_def emit_done_def checksum_ok_def)
    then have "dec_emit_state s = Some (if checksum_ok T s then Stop XD3_OUTPUT (finish_window s') else Stop XD3_INVALID_INPUT s')"
      using s'(1) by (simp add: same xd3_decode_emit_def xd3_decode_finish_window_def finish_window_def xd3_rvalues)
    then show ?thesis using s'(2) by blast
  next
    fix s' ops' assume "emit_loop s = Some (Stop XD3_GETSRCBLK s')" "emit_waits D off S T s ops s' ops'"
    then show ?thesis by (auto simp: same xd3_decode_emit_def xd3_rvalues)
  qed
qed

section \<open>Loading a block\<close>

lemma load_block_view:
  assumes em: "emits D off S (decoder st) ops T" and rq: "requested off S (decoder st)" and f: "SrcFile st = Some f" "sdata f = D"
  shows "\<exists>f' src. load_block st = Returned 0 (st\<lparr>SrcFile := Some f', decoder := (decoder st)\<lparr>source := Some src\<rparr>\<rparr>) \<and> sdata f' = D \<and>
    emits D off S ((decoder st)\<lparr>source := Some src\<rparr>) ops T \<and> \<not> blocked off S ((decoder st)\<lparr>source := Some src\<rparr>)"
proof -
  let ?s = "decoder st"
  have wv: "window_view D off S (length T) ?s" using em by (simp add: emits_def)
  obtain b n a src where b: "hop (current b ?s) = [Copy n a]" "a < length S" "source ?s = Some src" "getblkno src = of_nat ((off + a) div 16384)"
    "b \<longleftrightarrow> htype (current False ?s) = XD3_NOOP"
    using rq by (auto simp: requested_def asked_def split: if_splits)
  let ?B = "(off + a) div 16384"
  have sv: "source_view D off S src" "length D < 2 ^ 31" "off + length S \<le> length D" using wv b by (auto simp: window_view_def)
  have B: "?B * 16384 < length D" "?B * 16384 \<le> off + a" 
  proof -
    show "?B * 16384 \<le> off + a" by simp
    then show "?B * 16384 < length D" using b(2) sv(3) by linarith
  qed
  have bv: "blksize src = 16384" "length (curblk src) = 16384" using sv by (simp_all add: source_view_def block_view_def)
  have seek: "sint (ucast (blksize src * getblkno src) :: u32) = int (?B * 16384)"
  proof -
    have "blksize src * getblkno src = of_nat (?B * 16384)" by (simp add: bv b(4) mult.commute)
    moreover have "(ucast (of_nat (?B * 16384) :: usize) :: u32) = of_nat (?B * 16384)" using B sv(2) by (intro ucast_word_of_nat) simp
    ultimately show ?thesis using B sv(2) by (simp only: sint_word_of_nat32)
  qed
  let ?f = "f\<lparr>spos := ?B * 16384, seof := False\<rparr>"
  have rest: "srest ?f = drop (?B * 16384) D" by (simp add: srest_def f(2))
  obtain k buf f' where r: "fread_into (curblk src) 16384 ?f = (k, buf, f')" by (metis prod_cases3)
  then have rd: "k = min 16384 (length D - ?B * 16384)" "buf = take 16384 (drop (?B * 16384) D) @ drop k (curblk src)" "sdata f' = D"
    using sdata_fread [of 16384 ?f] by (auto simp: fread_into_def fread_def rest f(2))
  let ?src = "src\<lparr>onblk := of_nat k, curblk := buf, curblkno := getblkno src\<rparr>"
  have "load_block st = Returned 0 (st\<lparr>SrcFile := Some f', decoder := ?s\<lparr>source := Some ?src\<rparr>\<rparr>)"
  proof -
    have "nat (int ?B * 16384) = ?B * 16384" by (simp add: nat_mult_distrib)
    then show ?thesis using f(1) b(3) seek r by (simp add: load_block_def fseek_set_nonneg bv)
  qed
  moreover have "source_view D off S ?src"
  proof -
    have "unat (of_nat ?B :: usize) = ?B" by (rule unat_word_of_nat_id) (use B sv(2) in simp)
    moreover have "take k (drop (?B * 16384) D) = take 16384 (drop (?B * 16384) D)"
      by (cases "16384 \<le> length D - ?B * 16384") (simp_all add: rd(1))
    moreover have "length buf = 16384" using rd(1) by (simp add: rd(2) bv min.commute)
    moreover have "take k buf = take k (drop (?B * 16384) D)" using rd(1) by (simp add: rd(2) min.commute)
    ultimately show ?thesis using sv(1) rd(1) by (simp add: source_view_def block_view_def b(4))
  qed
  then have "emits D off S (?s\<lparr>source := Some ?src\<rparr>) ops T"
    using em window_view_source [OF wv] by (simp add: emits_def hop_size_def)
  moreover have "\<not> waits off S b (?s\<lparr>source := Some ?src\<rparr>)" using b by (simp add: waits_def)
  then have "\<not> blocked off S (?s\<lparr>source := Some ?src\<rparr>)" using b(5) by (cases b) (simp_all add: blocked_def)
  ultimately show ?thesis using rd(3) by blast
qed

section \<open>Rounds of the patcher\<close>

lemma code_loop_output:
  "xd3_decode_input z (decoder st) = Some (Stop XD3_OUTPUT s) \<Longrightarrow>
     code_loop z st = code_loop z (st\<lparr>OutFile := fwrite (next_out s) (OutFile st), decoder := xd3_consume_output s\<rparr>)"
  by (subst code_loop.simps) (simp add: xd3_rvalues)

lemma code_loop_getsrcblk:
  "xd3_decode_input z (decoder st) = Some (Stop XD3_GETSRCBLK s) \<Longrightarrow> load_block (st\<lparr>decoder := s\<rparr>) = Returned 0 st' \<Longrightarrow>
     code_loop z st = code_loop z st'"
  by (subst code_loop.simps) (simp add: xd3_rvalues)

lemma code_loop_notice:
  "xd3_decode_input z (decoder st) = Some (Stop r s) \<Longrightarrow> r \<in> {XD3_GOTHEADER, XD3_WINSTART, XD3_WINFINISH} \<Longrightarrow>
     code_loop z st = code_loop z (st\<lparr>decoder := s\<rparr>)"
  by (subst code_loop.simps) (auto simp: xd3_rvalues)

lemma code_loop_refill:
  "xd3_decode_input z (decoder st) = Some (Stop XD3_INPUT s) \<Longrightarrow> Input_Buf_Read st = BufSize \<Longrightarrow>
     code_loop z st = code_loop z (read_input (st\<lparr>decoder := s\<rparr>))"
  by (subst code_loop.simps) (simp add: xd3_rvalues)

lemma code_loop_end:
  "xd3_decode_input z (decoder st) = Some (Stop XD3_INPUT s) \<Longrightarrow> Input_Buf_Read st \<noteq> BufSize \<Longrightarrow>
     code_loop z st = Some (Returned 0 (st\<lparr>decoder := s\<rparr>))"
  by (subst code_loop.simps) (simp add: xd3_rvalues)

lemma code_loop_fails:
  "xd3_decode_input z (decoder st) = Some (Stop r s) \<Longrightarrow>
     r \<notin> {XD3_INPUT, XD3_OUTPUT, XD3_GETSRCBLK, XD3_GOTHEADER, XD3_WINSTART, XD3_WINFINISH} \<Longrightarrow>
     code_loop z st = Some (Returned r (st\<lparr>decoder := s\<rparr>))"
  by (subst code_loop.simps) auto

text \<open>The whole window is put out, with as many blocks as it takes.\<close>

definition emit_ready :: "bytes \<Rightarrow> nat \<Rightarrow> bytes \<Rightarrow> bytes \<Rightarrow> xd3_stream \<Rightarrow> vop list \<Rightarrow> bool" where
  "emit_ready D off S T s ops \<longleftrightarrow> emits D off S s ops T \<and> \<not> blocked off S s \<and> dec_state s = DEC_EMIT \<and> enc_state s = 0 \<and>
     offset_set off S s \<and> dec_tgtlen s = of_nat (length T)"

lemma emit_ready_frame:
  "emit_ready D off S T s ops \<Longrightarrow> emit_frame s' = emit_frame s \<Longrightarrow> emits D off S s' ops' T \<Longrightarrow> \<not> blocked off S s' \<Longrightarrow> emit_ready D off S T s' ops'"
  using frame_fields [of s' s] by (auto simp: emit_ready_def offset_set_def split: if_splits)

lemma checksum_ok_frame: "emit_frame s' = emit_frame s \<Longrightarrow> checksum_ok T s' = checksum_ok T s"
  using frame_fields [of s' s] by (simp add: checksum_ok_def)

lemma emit_ready_call: "emit_ready D off S T s ops \<Longrightarrow> xd3_decode_input z s = dec_emit_state s"
  by (simp add: emit_ready_def xd3_decode_input_def)

lemma code_emits:
  assumes "xd3_decode_input z (decoder st) = dec_emit_state s" "emit_ready D off S T s ops" "SrcFile st = Some f" "sdata f = D"
  shows "\<exists>s' f'. code_loop z st =
      (if checksum_ok T s
       then code_loop z (st\<lparr>OutFile := fwrite T (OutFile st), decoder := xd3_consume_output (finish_window s'), SrcFile := Some f'\<rparr>)
       else Some (Returned XD3_INVALID_INPUT (st\<lparr>decoder := s', SrcFile := Some f'\<rparr>))) \<and>
    emit_done D off S T s s' \<and> sdata f' = D"
  using assms
proof (induction "load s ops" arbitrary: st s ops f rule: less_induct)
  case less
  have em: "emits D off S s ops T" "\<not> blocked off S s" "offset_set off S s" "dec_tgtlen s = of_nat (length T)"
    using less.prems(2) by (simp_all add: emit_ready_def)
  from dec_emit_runs [OF em(1, 3-4)] show ?case
  proof (elim disjE exE conjE)
    fix s' assume s': "dec_emit_state s = Some (if checksum_ok T s then Stop XD3_OUTPUT (finish_window s') else Stop XD3_INVALID_INPUT s')" "emit_done D off S T s s'"
    have "code_loop z st =
      (if checksum_ok T s
       then code_loop z (st\<lparr>OutFile := fwrite T (OutFile st), decoder := xd3_consume_output (finish_window s'), SrcFile := SrcFile st\<rparr>)
       else Some (Returned XD3_INVALID_INPUT (st\<lparr>decoder := s', SrcFile := SrcFile st\<rparr>)))"
    proof (cases "checksum_ok T s")
      case True
      then show ?thesis using code_loop_output [of z st] less.prems(1) s' by (simp add: emit_done_def finish_window_def)
    next
      case False
      then show ?thesis using code_loop_fails [of z st XD3_INVALID_INPUT s'] less.prems(1) s' by (simp add: xd3_rvalues)
    qed
    then show ?thesis using s'(2) less.prems(3, 4) by auto
  next
    fix s1 ops1 assume s1: "dec_emit_state s = Some (Stop XD3_GETSRCBLK s1)" "emit_waits D off S T s ops s1 ops1"
    let ?st = "st\<lparr>decoder := s1\<rparr>"
    obtain f' src where ld: "load_block ?st = Returned 0 (?st\<lparr>SrcFile := Some f', decoder := s1\<lparr>source := Some src\<rparr>\<rparr>)" "sdata f' = D"
      "emits D off S (s1\<lparr>source := Some src\<rparr>) ops1 T" "\<not> blocked off S (s1\<lparr>source := Some src\<rparr>)"
      using load_block_view [of D off S ?st ops1 T f] s1(2) less.prems(3, 4) by (auto simp: emit_waits_def)
    let ?s = "s1\<lparr>source := Some src\<rparr>"
    let ?st' = "st\<lparr>SrcFile := Some f', decoder := ?s\<rparr>"
    have fr: "emit_frame ?s = emit_frame s" using s1(2) by (simp add: emit_waits_def emit_frame_def)
    have ready: "emit_ready D off S T ?s ops1" using emit_ready_frame [OF less.prems(2) fr ld(3, 4)] .
    have "load ?s ops1 < load s ops" using s1(2) em(2) by (simp add: emit_waits_def load_def at_hand_def)
    from less.hyps [OF this _ ready, of ?st' f'] emit_ready_call [OF ready] ld(2)
    obtain s' f'' where "code_loop z ?st' =
      (if checksum_ok T ?s
       then code_loop z (?st'\<lparr>OutFile := fwrite T (OutFile ?st'), decoder := xd3_consume_output (finish_window s'), SrcFile := Some f''\<rparr>)
       else Some (Returned XD3_INVALID_INPUT (?st'\<lparr>decoder := s', SrcFile := Some f''\<rparr>)))"
      "emit_done D off S T ?s s'" "sdata f'' = D" by auto
    moreover have "code_loop z st = code_loop z ?st'"
      using code_loop_getsrcblk [of z st s1] less.prems(1) s1(1) ld(1) by simp
    moreover have "checksum_ok T ?s = checksum_ok T s" using checksum_ok_frame [OF fr] .
    ultimately show ?thesis using fr by (auto simp: emit_done_def)
  qed
qed

end
