(* ===== verification/Xd3_Sections.thy ===== *)
theory Xd3_Sections
  imports Xd3_Emit
begin

text \<open>
  The sections of a window as they come in: taken in place when the whole rest of the window is available, otherwise copied
  piece by piece.  Whatever the pieces are, the three sections end up with their bytes.
\<close>

section \<open>Allocation\<close>

definition cap_ok :: "xd3_desect \<Rightarrow> bool" where
  "cap_ok d \<longleftrightarrow> (\<forall>cap. copied1 d = Some cap \<longrightarrow> unat (alloc1 d) \<le> cap \<and> cap < 2 ^ 32)"

lemma round_blksize_bound:
  assumes "n < 2 ^ 31" "xd3_round_blksize (of_nat n) XD3_ALLOCSIZE = r"
  shows "n \<le> unat r \<and> unat r < 2 ^ 32"
proof -
  have n: "unat (of_nat n :: usize) = n" by (rule unat_word_of_nat_id) (use assms in simp)
  have m: "(of_nat n AND (XD3_ALLOCSIZE - 1) :: usize) = of_nat (n mod 16384)"
    using n by (simp add: XD3_ALLOCSIZE_def mask_16383)
  show ?thesis
  proof (cases "n mod 16384 = 0")
    case True
    then show ?thesis using assms m n by (simp add: xd3_round_blksize_def)
  next
    case False
    have "n mod 16384 < 16384" by simp
    then have "(of_nat (n mod 16384) :: usize) \<noteq> 0" using False by (intro word_of_nat_neq_0) simp_all
    moreover have "\<not> (of_nat n :: usize) > 0x8000000000000000" using n assms by (simp add: word_less_nat_alt)
    ultimately have "r = of_nat n + (16384 - of_nat (n mod 16384))"
      using assms(2) m by (simp add: xd3_round_blksize_def XD3_ALLOCSIZE_def)
    also have "\<dots> = of_nat (n + (16384 - n mod 16384))" by (simp add: of_nat_diff less_imp_le)
    finally have "r = of_nat (n + (16384 - n mod 16384))" .
    moreover have "n + (16384 - n mod 16384) < 2 ^ LENGTH(64)" using assms(1) by simp
    ultimately have "unat r = n + (16384 - n mod 16384)" by (simp only: unat_word_of_nat_id)
    moreover have "n mod 16384 < 16384" by simp
    moreover have "n < 2147483648" using assms(1) by simp
    ultimately have "n \<le> unat r" "unat r < 4294967296" by linarith+
    then show ?thesis by simp
  qed
qed

lemma alloc_small: "unat r < 2 ^ 32 \<Longrightarrow> xd3_alloc r 1 = unat r"
  by (simp add: xd3_alloc_def unsigned_ucast_eq take_bit_nat_eq_self)

lemma decode_allocate_enough:
  assumes "cap_ok d" "n < 2 ^ 31"
  shows "\<exists>cap a. xd3_decode_allocate (of_nat n) (copied1 d) (alloc1 d) = (Some cap, a) \<and> n \<le> cap \<and> unat a \<le> cap \<and> cap < 2 ^ 32"
proof (cases "copied1 d = None \<or> alloc1 d < of_nat n")
  case True
  then show ?thesis
    using round_blksize_bound [OF assms(2) refl] alloc_small by (auto simp: xd3_decode_allocate_def Let_def)
next
  case False
  then obtain cap where "copied1 d = Some cap" "unat (of_nat n :: usize) \<le> unat (alloc1 d)" by (auto simp: word_less_nat_alt not_less)
  moreover have "unat (of_nat n :: usize) = n" by (rule unat_word_of_nat_id) (use assms in simp)
  ultimately show ?thesis using assms(1) False by (auto simp: xd3_decode_allocate_def Let_def cap_ok_def)
qed

section \<open>One section\<close>

text \<open>The first \<open>p\<close> bytes of \<open>c\<close> have been put into the section.\<close>

definition sect_ok :: "bytes \<Rightarrow> nat \<Rightarrow> xd3_desect \<Rightarrow> bool" where
  "sect_ok c p d \<longleftrightarrow> length c < 2 ^ 31 \<and> sect_size d = of_nat (length c) \<and> sect_pos d = of_nat p \<and> cap_ok d \<and> (p = 0 \<or> p < length c) \<and>
     (0 < p \<longrightarrow> sect_buf d = take p c \<and> (\<exists>cap. copied1 d = Some cap \<and> length c \<le> cap))"

definition sect_full :: "bytes \<Rightarrow> xd3_desect \<Rightarrow> bool" where
  "sect_full c d \<longleftrightarrow> length c < 2 ^ 31 \<and> sect_size d = of_nat (length c) \<and> sect_pos d = 0 \<and> cap_ok d \<and> sect_buf d = c"

lemma sect_set [simp]: "sect t (set_sect t d s) = d"
  by (cases t) simp_all

lemma set_sect_fields [simp]:
  "next_in (set_sect t d s) = next_in s" "sect t (DECODE_INPUT n s) = sect t s" "next_in (DECODE_INPUT n s) = drop n (next_in s)"
  "sect t (s\<lparr>dec_winbytes := w\<rparr>) = sect t s" "sect t (s\<lparr>dec_state := q\<rparr>) = sect t s"
  by (cases t; simp add: DECODE_INPUT_def)+

text \<open>What reading a section may change apart from itself.\<close>

definition took :: "nat \<Rightarrow> xd3_section_type \<Rightarrow> xd3_desect \<Rightarrow> xd3_stream \<Rightarrow> xd3_stream" where
  "took n t d s = set_sect t d (s\<lparr>dec_winbytes := dec_winbytes s + of_nat n, total_in := total_in s + of_nat n, next_in := drop n (next_in s)\<rparr>)"

lemma DECODE_INPUT_took: "DECODE_INPUT n (set_sect t d (s\<lparr>dec_winbytes := dec_winbytes s + of_nat n\<rparr>)) = took n t d s"
  by (cases t) (simp_all add: DECODE_INPUT_def took_def)

lemma section_copied_ok:
  assumes ok: "sect_ok c p (sect t s)" and n: "n = min (length c - p) (length (next_in s))" and X: "take n (next_in s) = take n (drop p c)" and pc: "p < length c"
  shows "\<exists>d. section_copied t s = Next (took n t d s) \<and> sect_size d = of_nat (length c) \<and> sect_pos d = of_nat (p + n) \<and>
    sect_buf d = take (p + n) c \<and> cap_ok d \<and> (\<exists>cap. copied1 d = Some cap \<and> length c \<le> cap)"
proof -
  let ?d = "sect t s"
  have c31: "length c < 2 ^ 31" and sz: "sect_size ?d = of_nat (length c)" "sect_pos ?d = of_nat p" and cap: "cap_ok ?d"
    using ok by (simp_all add: sect_ok_def)
  have p: "unat (of_nat p :: usize) = p" and cl: "unat (of_nat (length c) :: usize) = length c"
    by (rule unat_word_of_nat_id, use c31 pc in simp)+
  have diff: "unat (sect_size ?d - sect_pos ?d) = length c - p" using pc p cl by (simp add: sz unat_sub word_le_nat_alt)
  have p0: "(of_nat p :: usize) = 0 \<longleftrightarrow> p = 0" using p by (metis unat_eq_0 of_nat_0)
  define d1 where "d1 = (if sect_pos ?d = 0
               then (let (q, a) = xd3_decode_allocate (sect_size ?d) (copied1 ?d) (alloc1 ?d)
                     in ?d\<lparr>copied1 := q, alloc1 := a, sect_buf := []\<rparr>) else ?d)"
  have d1: "\<exists>cap. copied1 d1 = Some cap \<and> length c \<le> cap" "cap_ok d1" "sect_buf d1 = take p c" "sect_size d1 = sect_size ?d" "sect_pos d1 = of_nat p"
    using decode_allocate_enough [OF cap c31] ok p0 by (auto simp: d1_def sz sect_ok_def cap_ok_def)
  then obtain k where k: "copied1 d1 = Some k" "length c \<le> k" by blast
  have np: "p + n \<le> length c" using n pc by simp
  let ?e = "d1\<lparr>sect_buf := sect_buf d1 @ take n (next_in s), sect_pos := sect_pos d1 + of_nat n\<rparr>"
  have "section_copied t s = Next (took n t ?e s)"
    using k np p d1(5) diff n DECODE_INPUT_took [of n t ?e s] by (simp add: section_copied_def Let_def d1_def [symmetric])
  moreover have "take p c @ take n (next_in s) = take (p + n) c" by (simp add: X take_add)
  ultimately show ?thesis using d1 k by (intro exI [of _ ?e]) (auto simp: sz cap_ok_def)
qed

lemma took_state: "(took n t d s)\<lparr>dec_state := q\<rparr> = took n t d (s\<lparr>dec_state := q\<rparr>)" "set_sect t d' (took n t d s) = took n t d' s"
  by (cases t; simp add: took_def)+

lemma section_whole:
  assumes ok: "sect_ok c p (sect t s)" and X: "next_in s = drop p c @ Y"
  shows "\<exists>d. xd3_decode_section t q copy s = Next (took (length c - p) t d (s\<lparr>dec_state := q\<rparr>)) \<and> sect_full c d"
proof -
  let ?d = "sect t s" and ?n = "length c - p"
  have c31: "length c < 2 ^ 31" and sz: "sect_size ?d = of_nat (length c)" "sect_pos ?d = of_nat p" and cap: "cap_ok ?d"
    using ok by (simp_all add: sect_ok_def)
  have cl: "unat (of_nat (length c) :: usize) = length c" by (rule unat_word_of_nat_id) (use c31 in simp)
  show ?thesis
  proof (cases "p < length c")
    case False
    then have "c = []" "p = 0" using ok by (auto simp: sect_ok_def)
    then have "xd3_decode_section t q copy s = Next (took 0 t (?d\<lparr>sect_buf := [], sect_pos := 0\<rparr>) (s\<lparr>dec_state := q\<rparr>))"
      using sz by (cases t) (simp_all add: xd3_decode_section_def Let_def took_def)
    then show ?thesis using \<open>c = []\<close> \<open>p = 0\<close> sz cap by (auto simp: sect_full_def cap_ok_def)
  next
    case True
    have p: "unat (of_nat p :: usize) = p" by (rule unat_word_of_nat_id) (use c31 True in simp)
    have lt: "sect_pos ?d < sect_size ?d" "next_in s \<noteq> []" using True X by (simp_all add: sz word_less_nat_alt p cl)
    have "\<exists>d. (if \<not> copy \<and> sect_pos ?d = 0 then section_in_place t s else section_copied t s) = Next (took ?n t d s) \<and>
        sect_size d = of_nat (length c) \<and> sect_pos d = of_nat (length c) \<and> sect_buf d = c \<and> cap_ok d"
    proof (cases "\<not> copy \<and> sect_pos ?d = 0")
      case place: True
      then have "p = 0" using p by (simp add: sz)
      let ?e = "?d\<lparr>sect_buf := c, sect_pos := sect_size ?d\<rparr>"
      have "section_in_place t s = Next (took ?n t ?e s)"
        using X \<open>p = 0\<close> DECODE_INPUT_took [of "length c" t ?e s] by (simp add: section_in_place_def Let_def sz cl)
      then show ?thesis using place cap by (intro exI [of _ ?e]) (simp add: sz cap_ok_def)
    next
      case copied: False
      obtain d where "section_copied t s = Next (took ?n t d s)" "sect_size d = of_nat (length c)" "sect_pos d = of_nat (p + ?n)"
        "sect_buf d = take (p + ?n) c" "cap_ok d"
        using section_copied_ok [OF ok, of ?n] X True by auto
      then show ?thesis using True copied by (intro exI [of _ d]) auto
    qed
    then obtain d where d: "(if \<not> copy \<and> sect_pos ?d = 0 then section_in_place t s else section_copied t s) = Next (took ?n t d s)"
      "sect_size d = of_nat (length c)" "sect_pos d = of_nat (length c)" "sect_buf d = c" "cap_ok d" by blast
    have sect: "sect t (took ?n t d s) = d" by (simp add: took_def)
    have "xd3_decode_section t q copy s = Next (took ?n t (d\<lparr>sect_buf := c, sect_pos := 0\<rparr>) (s\<lparr>dec_state := q\<rparr>))"
      unfolding xd3_decode_section_def using lt
      by (simp only: if_True if_False d(1) and_then.simps sect Let_def simp_thms) (simp add: d cl took_state)
    then show ?thesis using d c31 by (auto simp: sect_full_def cap_ok_def)
  qed
qed

lemma section_part:
  assumes ok: "sect_ok c p (sect t s)" and W: "drop p c = next_in s @ W" "W \<noteq> []"
  shows "\<exists>d. xd3_decode_section t q True s = Stop XD3_INPUT (took (length (next_in s)) t d s) \<and> sect_ok c (p + length (next_in s)) d"
proof -
  let ?d = "sect t s" and ?n = "length (next_in s)"
  have c31: "length c < 2 ^ 31" and sz: "sect_size ?d = of_nat (length c)" "sect_pos ?d = of_nat p" and cap: "cap_ok ?d"
    using ok by (simp_all add: sect_ok_def)
  have len: "length c = p + ?n + length W" using arg_cong [OF W(1), of length] W(2) by (cases "p \<le> length c") auto
  have cl: "unat (of_nat (length c) :: usize) = length c" and p: "unat (of_nat p :: usize) = p" and pn: "unat (of_nat (p + ?n) :: usize) = p + ?n"
    by (rule unat_word_of_nat_id, use c31 len in simp)+
  have pc: "p < length c" using len W(2) by simp
  then have lt: "sect_pos ?d < sect_size ?d" by (simp add: sz word_less_nat_alt p cl)
  show ?thesis
  proof (cases "next_in s = []")
    case True
    then have "xd3_decode_section t q True s = Stop XD3_INPUT s" using lt by (simp add: xd3_decode_section_def)
    moreover have "took 0 t ?d s = s" using True by (cases t) (simp_all add: took_def)
    ultimately show ?thesis using True ok by (intro exI [of _ ?d]) simp
  next
    case False
    have n: "?n = min (length c - p) ?n" using len by simp
    have X: "take ?n (next_in s) = take ?n (drop p c)" by (simp add: W)
    obtain d where d: "section_copied t s = Next (took ?n t d s)" "sect_size d = of_nat (length c)" "sect_pos d = of_nat (p + ?n)"
        "sect_buf d = take (p + ?n) c" "cap_ok d" "\<exists>cap. copied1 d = Some cap \<and> length c \<le> cap"
      using section_copied_ok [OF ok n X pc] by auto
    have sect: "sect t (took ?n t d s) = d" by (simp add: took_def)
    have less: "sect_pos d < sect_size d" 
    proof -
      have "p + ?n < length c" using len W(2) by simp
      then show ?thesis by (simp only: d word_less_nat_alt pn cl)
    qed
    have "xd3_decode_section t q True s = Stop XD3_INPUT (took ?n t d s)"
      unfolding xd3_decode_section_def using lt False less
      by (simp only: if_True if_False d(1) and_then.simps sect Let_def simp_thms)
    moreover have "sect_ok c (p + ?n) d" using d c31 len W(2) by (simp add: sect_ok_def)
    ultimately show ?thesis by blast
  qed
qed

section \<open>The three sections\<close>

text \<open>All that reading the sections does not change.\<close>

definition sect_frame :: "xd3_stream \<Rightarrow> xd3_stream" where
  "sect_frame s = s\<lparr>data_sect := empty_sect, inst_sect := empty_sect, addr_sect := empty_sect, dec_winbytes := 0, total_in := 0,
     next_in := [], dec_state := DEC_DATA\<rparr>"

lemma took_frame: "sect_frame (took n t d s) = sect_frame s" "sect_frame (s\<lparr>dec_state := q\<rparr>) = sect_frame s"
  by (cases t) (simp_all add: took_def sect_frame_def)

lemma took_fields:
  "next_in (took n t d s) = drop n (next_in s)" "dec_winbytes (took n t d s) = dec_winbytes s + of_nat n" "dec_state (took n t d s) = dec_state s"
  "data_sect (took n INST_SECTION d s) = data_sect s" "data_sect (took n ADDR_SECTION d s) = data_sect s" "data_sect (took n DATA_SECTION d s) = d"
  "inst_sect (took n DATA_SECTION d s) = inst_sect s" "inst_sect (took n ADDR_SECTION d s) = inst_sect s" "inst_sect (took n INST_SECTION d s) = d"
  "addr_sect (took n DATA_SECTION d s) = addr_sect s" "addr_sect (took n INST_SECTION d s) = addr_sect s" "addr_sect (took n ADDR_SECTION d s) = d"
  by (simp_all add: took_def) (cases t; simp)+

text \<open>The state in which \<open>k\<close> bytes of the sections \<open>d\<close>, \<open>i\<close> and \<open>a\<close> have been read.\<close>

definition filling :: "bytes \<Rightarrow> bytes \<Rightarrow> bytes \<Rightarrow> nat \<Rightarrow> xd3_stream \<Rightarrow> bool" where
  "filling d i a k s \<longleftrightarrow> dec_winbytes s = of_nat k \<and>
     (dec_state s = DEC_DATA \<and> sect_ok d k (data_sect s) \<and> sect_ok i 0 (inst_sect s) \<and> sect_ok a 0 (addr_sect s) \<or>
      (\<exists>p. dec_state s = DEC_INST \<and> k = length d + p \<and> sect_full d (data_sect s) \<and> sect_ok i p (inst_sect s) \<and> sect_ok a 0 (addr_sect s)) \<or>
      (\<exists>p. dec_state s = DEC_ADDR \<and> k = length d + length i + p \<and> sect_full d (data_sect s) \<and> sect_full i (inst_sect s) \<and> sect_ok a p (addr_sect s)))"

definition filled :: "bytes \<Rightarrow> bytes \<Rightarrow> bytes \<Rightarrow> xd3_stream \<Rightarrow> bool" where
  "filled d i a s \<longleftrightarrow> dec_winbytes s = of_nat (length d + length i + length a) \<and> dec_state s = DEC_EMIT \<and>
     sect_full d (data_sect s) \<and> sect_full i (inst_sect s) \<and> sect_full a (addr_sect s)"

text \<open>What is still to come of them.\<close>

definition remains :: "bytes \<Rightarrow> bytes \<Rightarrow> bytes \<Rightarrow> nat \<Rightarrow> bytes" where
  "remains d i a k = drop k (d @ i @ a)"

text \<open>The end of the chain of sections from some state: either all is there, or the input is used up.\<close>

definition fills :: "bytes \<Rightarrow> bytes \<Rightarrow> bytes \<Rightarrow> nat \<Rightarrow> xd3_stream \<Rightarrow> xd3_stream run \<Rightarrow> bool" where
  "fills d i a k s r \<longleftrightarrow>
     (\<forall>Y. next_in s = remains d i a k @ Y \<longrightarrow> (\<exists>s'. r = Next s' \<and> filled d i a s' \<and> next_in s' = Y \<and> sect_frame s' = sect_frame s)) \<and>
     (\<forall>W. remains d i a k = next_in s @ W \<and> W \<noteq> [] \<longrightarrow>
        (\<exists>s'. r = Stop XD3_INPUT s' \<and> filling d i a (k + length (next_in s)) s' \<and> next_in s' = [] \<and> sect_frame s' = sect_frame s))"

lemma fills_after:
  assumes "fills d i a k1 s1 r" "next_in s = X @ next_in s1" "remains d i a k = X @ remains d i a k1" "k1 = k + length X"
    "sect_frame s1 = sect_frame s"
  shows "fills d i a k s r"
  using assms by (simp add: fills_def add.assoc)

definition enough :: "bytes \<Rightarrow> bytes \<Rightarrow> bytes \<Rightarrow> nat \<Rightarrow> xd3_stream \<Rightarrow> bool" where
  "enough d i a k s \<longleftrightarrow> (\<exists>Y. next_in s = remains d i a k @ Y)"

lemma addr_fills:
  assumes "dec_state s = DEC_ADDR" "sect_full d (data_sect s)" "sect_full i (inst_sect s)" "sect_ok a p (addr_sect s)"
    and k: "k = length d + length i + p" "dec_winbytes s = of_nat k" and copy: "copy \<or> enough d i a k s"
  shows "fills d i a k s (xd3_decode_section ADDR_SECTION DEC_EMIT copy s)"
proof -
  have rest: "remains d i a k = drop p a" by (simp add: k remains_def)
  have ok: "sect_ok a p (sect ADDR_SECTION s)" using assms by simp
  have p: "p \<le> length a" using assms(4) by (auto simp: sect_ok_def)
  have whole: "\<exists>s'. xd3_decode_section ADDR_SECTION DEC_EMIT copy s = Next s' \<and> filled d i a s' \<and> next_in s' = Y \<and> sect_frame s' = sect_frame s"
    if "next_in s = drop p a @ Y" for Y
    using section_whole [OF ok that, of DEC_EMIT copy] assms p that
    by (auto simp: filled_def took_fields took_frame)
  have part: "\<exists>s'. xd3_decode_section ADDR_SECTION DEC_EMIT True s = Stop XD3_INPUT s' \<and>
      filling d i a (k + length (next_in s)) s' \<and> next_in s' = [] \<and> sect_frame s' = sect_frame s"
    if "drop p a = next_in s @ W" "W \<noteq> []" for W
    using section_part [OF ok that, of DEC_EMIT] assms by (auto simp: filling_def took_fields took_frame)
  have "copy" if "drop p a = next_in s @ W" "W \<noteq> []" for W
  proof (rule ccontr)
    assume "\<not> copy"
    then obtain Y where "next_in s = drop p a @ Y" using copy rest by (auto simp: enough_def)
    then show False using that by simp
  qed
  then show ?thesis using whole part by (auto simp: fills_def rest)
qed

lemma inst_fills:
  assumes "dec_state s = DEC_INST" "sect_full d (data_sect s)" "sect_ok i p (inst_sect s)" "sect_ok a 0 (addr_sect s)"
    and k: "k = length d + p" "dec_winbytes s = of_nat k" and copy: "copy \<or> enough d i a k s"
  shows "fills d i a k s (and_then (xd3_decode_section INST_SECTION DEC_ADDR copy s) (xd3_decode_section ADDR_SECTION DEC_EMIT copy))"
proof -
  have p: "p \<le> length i" using assms(3) by (auto simp: sect_ok_def)
  then have rest: "remains d i a k = drop p i @ a" "remains d i a (length d + length i) = a" by (simp_all add: k remains_def)
  have ok: "sect_ok i p (sect INST_SECTION s)" using assms by simp
  show ?thesis
  proof (cases "\<exists>Z. next_in s = drop p i @ Z")
    case True
    then obtain Z where Z: "next_in s = drop p i @ Z" by blast
    obtain e where e: "xd3_decode_section INST_SECTION DEC_ADDR copy s = Next (took (length i - p) INST_SECTION e (s\<lparr>dec_state := DEC_ADDR\<rparr>))"
      "sect_full i e" using section_whole [OF ok Z] by blast
    let ?s = "took (length i - p) INST_SECTION e (s\<lparr>dec_state := DEC_ADDR\<rparr>)"
    have nin: "next_in ?s = Z" by (simp add: took_fields Z)
    have "fills d i a (length d + length i) ?s (xd3_decode_section ADDR_SECTION DEC_EMIT copy ?s)"
    proof (rule addr_fills [where p = 0])
      show "dec_winbytes ?s = of_nat (length d + length i)"
        using p k by (simp add: took_fields)
      show "copy \<or> enough d i a (length d + length i) ?s" using copy rest Z nin by (auto simp: enough_def)
    qed (use assms e in \<open>simp_all add: took_fields\<close>)
    then have "fills d i a k s (xd3_decode_section ADDR_SECTION DEC_EMIT copy ?s)"
      by (rule fills_after [where X = "drop p i"]) (use Z nin rest p k in \<open>simp_all add: took_frame\<close>)
    then show ?thesis by (simp add: e)
  next
    case False
    have no: "\<not> (\<exists>Y. next_in s = remains d i a k @ Y)" using False by (auto simp: rest)
    have part: "\<exists>s'. xd3_decode_section INST_SECTION DEC_ADDR True s = Stop XD3_INPUT s' \<and>
      filling d i a (k + length (next_in s)) s' \<and> next_in s' = [] \<and> sect_frame s' = sect_frame s"
      if "drop p i = next_in s @ W" "W \<noteq> []" for W
      using section_part [OF ok that, of DEC_ADDR] assms by (auto simp: filling_def took_fields took_frame)
    have "\<exists>W'. drop p i = next_in s @ W' \<and> W' \<noteq> []" if "drop p i @ a = next_in s @ W" for W
      using that False by (metis append_Nil2 append_eq_append_conv2)
    then show ?thesis using part no copy by (auto simp: fills_def rest enough_def)
  qed
qed

lemma data_fills:
  assumes "dec_state s = DEC_DATA" "sect_ok d k (data_sect s)" "sect_ok i 0 (inst_sect s)" "sect_ok a 0 (addr_sect s)"
    and k: "dec_winbytes s = of_nat k" and copy: "copy \<or> enough d i a k s"
  shows "fills d i a k s (and_then (xd3_decode_section DATA_SECTION DEC_INST copy s)
      (\<lambda>s. and_then (xd3_decode_section INST_SECTION DEC_ADDR copy s) (xd3_decode_section ADDR_SECTION DEC_EMIT copy)))"
proof -
  have p: "k \<le> length d" using assms(2) by (auto simp: sect_ok_def)
  then have rest: "remains d i a k = drop k d @ i @ a" "remains d i a (length d) = i @ a" by (simp_all add: remains_def)
  have ok: "sect_ok d k (sect DATA_SECTION s)" using assms by simp
  show ?thesis
  proof (cases "\<exists>Z. next_in s = drop k d @ Z")
    case True
    then obtain Z where Z: "next_in s = drop k d @ Z" by blast
    obtain e where e: "xd3_decode_section DATA_SECTION DEC_INST copy s = Next (took (length d - k) DATA_SECTION e (s\<lparr>dec_state := DEC_INST\<rparr>))"
      "sect_full d e" using section_whole [OF ok Z] by blast
    let ?s = "took (length d - k) DATA_SECTION e (s\<lparr>dec_state := DEC_INST\<rparr>)"
    have nin: "next_in ?s = Z" by (simp add: took_fields Z)
    have "fills d i a (length d) ?s (and_then (xd3_decode_section INST_SECTION DEC_ADDR copy ?s) (xd3_decode_section ADDR_SECTION DEC_EMIT copy))"
    proof (rule inst_fills [where p = 0])
      show "dec_winbytes ?s = of_nat (length d)"
        using p k by (simp add: took_fields)
      show "copy \<or> enough d i a (length d) ?s" using copy rest Z nin by (auto simp: enough_def)
    qed (use assms e in \<open>simp_all add: took_fields\<close>)
    then have "fills d i a k s (and_then (xd3_decode_section INST_SECTION DEC_ADDR copy ?s) (xd3_decode_section ADDR_SECTION DEC_EMIT copy))"
      by (rule fills_after [where X = "drop k d"]) (use Z nin rest p in \<open>simp_all add: took_frame\<close>)
    then show ?thesis by (simp add: e)
  next
    case False
    have no: "\<not> (\<exists>Y. next_in s = remains d i a k @ Y)" using False by (auto simp: rest)
    have part: "\<exists>s'. xd3_decode_section DATA_SECTION DEC_INST True s = Stop XD3_INPUT s' \<and>
      filling d i a (k + length (next_in s)) s' \<and> next_in s' = [] \<and> sect_frame s' = sect_frame s"
      if "drop k d = next_in s @ W" "W \<noteq> []" for W
      using section_part [OF ok that, of DEC_INST] assms by (auto simp: filling_def took_fields took_frame)
    have "\<exists>W'. drop k d = next_in s @ W' \<and> W' \<noteq> []" if "drop k d @ i @ a = next_in s @ W" for W
      using that False by (metis append_Nil2 append_eq_append_conv2)
    then show ?thesis using part no copy by (auto simp: fills_def rest enough_def)
  qed
qed

end
