(* ===== verification/Xd3_Feed.thy ===== *)
theory Xd3_Feed
  imports Xd3_Window Xd3_Sections
begin

text \<open>
  How the patcher feeds the decoder: the patch comes in pieces of \<^const>\<open>BufSize\<close> bytes, and a field of the format may be cut at
  any place.  A field that can be continued, the contract of the locale below, is read as if the whole patch were at hand.
\<close>

section \<open>What does not depend on the pieces\<close>

text \<open>The decoder without the pieces: the flag \<^const>\<open>XD3_FLUSH\<close> is only set for a short piece, and nothing reads it.\<close>

definition core :: "xd3_stream \<Rightarrow> xd3_stream" where
  "core s = s\<lparr>next_in := [], total_in := 0, dec_hdrsize := 0, flags := flags s OR 16\<rparr>"

lemma core_updates [simp]:
  "core (s\<lparr>next_in := x1\<rparr>) = core s" "core (s\<lparr>total_in := x2\<rparr>) = core s" "core (s\<lparr>dec_hdrsize := x2\<rparr>) = core s"
  "core (s\<lparr>flags := 16 OR flags s\<rparr>) = core s"
  "core (s\<lparr>dec_64part := x2\<rparr>) = (core s)\<lparr>dec_64part := x2\<rparr>" "core (s\<lparr>dec_state := q\<rparr>) = (core s)\<lparr>dec_state := q\<rparr>"
  "core (s\<lparr>dec_cpylen := x2\<rparr>) = (core s)\<lparr>dec_cpylen := x2\<rparr>" "core (s\<lparr>dec_cpyoff := x2\<rparr>) = (core s)\<lparr>dec_cpyoff := x2\<rparr>"
  "core (s\<lparr>dec_enclen := x2\<rparr>) = (core s)\<lparr>dec_enclen := x2\<rparr>" "core (s\<lparr>dec_tgtlen := x2\<rparr>) = (core s)\<lparr>dec_tgtlen := x2\<rparr>"
  "core (s\<lparr>dec_maxpos := x2\<rparr>) = (core s)\<lparr>dec_maxpos := x2\<rparr>" "core (s\<lparr>dec_position := x2\<rparr>) = (core s)\<lparr>dec_position := x2\<rparr>"
  "core (s\<lparr>dec_winstart := x2\<rparr>) = (core s)\<lparr>dec_winstart := x2\<rparr>" "core (s\<lparr>current_window := x2\<rparr>) = (core s)\<lparr>current_window := x2\<rparr>"
  "core (s\<lparr>dec_win_ind := x2\<rparr>) = (core s)\<lparr>dec_win_ind := x2\<rparr>" "core (s\<lparr>dec_del_ind := x2\<rparr>) = (core s)\<lparr>dec_del_ind := x2\<rparr>"
  "core (s\<lparr>dec_hdr_ind := x2\<rparr>) = (core s)\<lparr>dec_hdr_ind := x2\<rparr>" "core (s\<lparr>dec_appheadsz := x2\<rparr>) = (core s)\<lparr>dec_appheadsz := x2\<rparr>"
  "core (s\<lparr>dec_appheader := x3\<rparr>) = (core s)\<lparr>dec_appheader := x3\<rparr>" "core (s\<lparr>dec_magic := x1\<rparr>) = (core s)\<lparr>dec_magic := x1\<rparr>"
  "core (s\<lparr>dec_cksum := x1\<rparr>) = (core s)\<lparr>dec_cksum := x1\<rparr>" "core (s\<lparr>dec_adler32 := x4\<rparr>) = (core s)\<lparr>dec_adler32 := x4\<rparr>"
  "core (s\<lparr>acache := x5\<rparr>) = (core s)\<lparr>acache := x5\<rparr>" "core (s\<lparr>code_table := x6\<rparr>) = (core s)\<lparr>code_table := x6\<rparr>"
  "core (s\<lparr>data_sect := d\<rparr>) = (core s)\<lparr>data_sect := d\<rparr>" "core (s\<lparr>inst_sect := d\<rparr>) = (core s)\<lparr>inst_sect := d\<rparr>"
  "core (s\<lparr>addr_sect := d\<rparr>) = (core s)\<lparr>addr_sect := d\<rparr>" "core (s\<lparr>dec_winbytes := x2\<rparr>) = (core s)\<lparr>dec_winbytes := x2\<rparr>"
  "core (s\<lparr>out_cap := x7\<rparr>) = (core s)\<lparr>out_cap := x7\<rparr>" "core (s\<lparr>space_out := x2\<rparr>) = (core s)\<lparr>space_out := x2\<rparr>"
  "core (s\<lparr>source := x8\<rparr>) = (core s)\<lparr>source := x8\<rparr>"
  by (simp_all add: core_def or.left_commute or.commute)

lemma core_fields [simp]:
  "dec_64part (core s) = dec_64part s" "dec_state (core s) = dec_state s" "dec_cpylen (core s) = dec_cpylen s" "dec_cpyoff (core s) = dec_cpyoff s"
  "dec_enclen (core s) = dec_enclen s" "dec_tgtlen (core s) = dec_tgtlen s" "dec_maxpos (core s) = dec_maxpos s" "dec_position (core s) = dec_position s"
  "dec_winstart (core s) = dec_winstart s" "current_window (core s) = current_window s" "dec_win_ind (core s) = dec_win_ind s"
  "dec_del_ind (core s) = dec_del_ind s" "dec_hdr_ind (core s) = dec_hdr_ind s" "dec_appheadsz (core s) = dec_appheadsz s"
  "dec_appheader (core s) = dec_appheader s" "dec_magic (core s) = dec_magic s" "dec_cksum (core s) = dec_cksum s" "dec_adler32 (core s) = dec_adler32 s"
  "acache (core s) = acache s" "code_table (core s) = code_table s" "data_sect (core s) = data_sect s" "inst_sect (core s) = inst_sect s"
  "addr_sect (core s) = addr_sect s" "dec_winbytes (core s) = dec_winbytes s" "out_cap (core s) = out_cap s" "space_out (core s) = space_out s"
  "source (core s) = source s" "enc_state (core s) = enc_state s" "sec_type (core s) = sec_type s" "next_out (core s) = next_out s"
  "dec_window_count (core s) = dec_window_count s" "dec_current1 (core s) = dec_current1 s" "dec_current2 (core s) = dec_current2 s"
  by (simp_all add: core_def)

lemma core_flag: "k \<noteq> 4 \<Longrightarrow> bit (flags (core s)) k = bit (flags s) k"
proof -
  have "(16 :: u32) = push_bit 4 1" by simp
  then have "bit (16 :: u32) k \<longleftrightarrow> k = 4" by (auto simp only: bit_push_bit_iff bit_1_iff) auto
  then show "k \<noteq> 4 \<Longrightarrow> ?thesis" by (auto simp: core_def bit_or_iff)
qed

lemma core_DECODE_INPUT [simp]: "core (DECODE_INPUT n s) = core s"
  by (simp add: DECODE_INPUT_def)

text \<open>The rest of the patch; as long as there is more in the file, the last piece was a full one.\<close>

definition pending :: "code_state \<Rightarrow> bytes" where
  "pending st = next_in (decoder st) @ srest (InFile st)"

definition fed :: "code_state \<Rightarrow> bool" where
  "fed st \<longleftrightarrow> (srest (InFile st) \<noteq> [] \<longrightarrow> Input_Buf_Read st = BufSize)"

lemma read_input_view:
  "core (decoder (read_input st)) = core (decoder st)" "fed (read_input st)"
  "SrcFile (read_input st) = SrcFile st" "OutFile (read_input st) = OutFile st"
  "next_in (decoder st) = [] \<Longrightarrow> pending (read_input st) = pending st"
  "srest (InFile (read_input st)) = drop BufSize (srest (InFile st))"
  "Input_Buf_Read (read_input st) = min BufSize (length (srest (InFile st)))"
  using fst_fread [of BufSize "InFile st"] srest_fread [of BufSize "InFile st"]
  by (simp_all add: read_input_def split_beta Let_def xd3_avail_input_def xd3_set_flags_def xd3_bits fed_def pending_def min.commute)

section \<open>The run of the patcher\<close>

text \<open>The run from \<open>st\<close> goes on from a state with the given decoder and the given rest of the patch, no output being made in between.\<close>

definition reaches :: "int \<Rightarrow> code_state \<Rightarrow> xd3_stream \<Rightarrow> bytes \<Rightarrow> bool" where
  "reaches z st n P \<longleftrightarrow> (\<exists>st'. code_loop z st = code_loop z st' \<and> fed st' \<and> SrcFile st' = SrcFile st \<and> OutFile st' = OutFile st \<and>
     core (decoder st') = n \<and> pending st' = P)"

lemma reaches_refl: "fed st \<Longrightarrow> reaches z st (core (decoder st)) (pending st)"
  by (auto simp: reaches_def)

lemma reaches_eq: "reaches z st m P \<Longrightarrow> m = m' \<Longrightarrow> reaches z st m' P"
  by simp

lemma code_loop_same: "xd3_decode_input z (decoder st) = xd3_decode_input z s \<Longrightarrow> code_loop z st = code_loop z (st\<lparr>decoder := s\<rparr>)"
  by (subst (1 2) code_loop.simps) (auto split: run.split)

text \<open>A call goes on with \<open>s\<close> when it has the same result, or when it returns there with one of the notices that need no action.\<close>

definition goes_on :: "int \<Rightarrow> xd3_stream run option \<Rightarrow> xd3_stream \<Rightarrow> bool" where
  "goes_on z r s \<longleftrightarrow> r = xd3_decode_input z s \<or> (\<exists>q \<in> {XD3_GOTHEADER, XD3_WINSTART, XD3_WINFINISH}. r = Some (Stop q s))"

lemma goes_on_refl [simp]: "goes_on z (xd3_decode_input z s) s"
  by (simp add: goes_on_def)

lemma code_loop_goes_on: "goes_on z (xd3_decode_input z (decoder st)) s \<Longrightarrow> code_loop z st = code_loop z (st\<lparr>decoder := s\<rparr>)"
  using code_loop_same code_loop_notice unfolding goes_on_def by blast

lemma reaches_step:
  assumes "reaches z st n P" and "\<And>s. core s = n \<Longrightarrow> \<exists>s'. goes_on z (xd3_decode_input z s) s' \<and> core s' = m \<and> next_in s' = next_in s"
  shows "reaches z st m P"
proof -
  from assms(1) obtain st1 where st1: "code_loop z st = code_loop z st1" "fed st1" "SrcFile st1 = SrcFile st" "OutFile st1 = OutFile st"
    "core (decoder st1) = n" "pending st1 = P" by (auto simp: reaches_def)
  obtain s' where s': "goes_on z (xd3_decode_input z (decoder st1)) s'" "core s' = m" "next_in s' = next_in (decoder st1)"
    using assms(2) [OF st1(5)] by blast
  then have "code_loop z st = code_loop z (st1\<lparr>decoder := s'\<rparr>)" using st1(1) code_loop_goes_on [OF s'(1)] by simp
  then show ?thesis using st1 s' by (auto simp: reaches_def fed_def pending_def intro!: exI [of _ "st1\<lparr>decoder := s'\<rparr>"])
qed

lemma refill:
  assumes "xd3_decode_input z (decoder st) = Some (Stop XD3_INPUT s)" "next_in s = []" "fed st" "srest (InFile st) \<noteq> []"
  obtains st' where "code_loop z st = code_loop z st'" "fed st'" "SrcFile st' = SrcFile st" "OutFile st' = OutFile st"
    "core (decoder st') = core s" "pending st' = srest (InFile st)" "length (srest (InFile st')) < length (srest (InFile st))"
proof (rule that [of "read_input (st\<lparr>decoder := s\<rparr>)"])
  show "code_loop z st = code_loop z (read_input (st\<lparr>decoder := s\<rparr>))"
    using assms by (intro code_loop_refill) (simp_all add: fed_def)
  show "length (srest (InFile (read_input (st\<lparr>decoder := s\<rparr>)))) < length (srest (InFile st))"
    using assms(4) by (simp add: read_input_view BufSize_def)
  show "pending (read_input (st\<lparr>decoder := s\<rparr>)) = srest (InFile st)"
    using assms(2) by (subst read_input_view) (simp_all add: pending_def)
qed (simp_all add: read_input_view)

section \<open>Fields\<close>

text \<open>Reading a field from a piece of the input: more is needed, it is complete, or it is refused.\<close>

datatype ('p, 'v) reading = More 'p | Done 'v bytes | Bad

locale field_reader =
  fixes rd :: "'p \<Rightarrow> bytes \<Rightarrow> ('p, 'v) reading"
  assumes rd_more: "rd p X = More q \<Longrightarrow> rd p (X @ Y) = rd q Y"
    and rd_done: "rd p X = Done v R \<Longrightarrow> rd p (X @ Y) = Done v (R @ Y)"
    and rd_bad: "rd p X = Bad \<Longrightarrow> rd p (X @ Y) = Bad"
begin

lemma rd_more_Nil: "rd p X = More q \<Longrightarrow> rd q [] = More q"
  using rd_more [of p X q "[]"] by simp

text \<open>A decoder that asks for more where the reader does, and goes on where the field is complete, gets past the field.\<close>

lemma field_read:
  assumes r: "reaches z st (n p) P" and rd: "rd p P = Done v R"
    and more: "\<And>s p q. core s = n p \<Longrightarrow> rd p (next_in s) = More q \<Longrightarrow>
      \<exists>s'. xd3_decode_input z s = Some (Stop XD3_INPUT s') \<and> core s' = n q \<and> next_in s' = []"
    and got: "\<And>s p Q. core s = n p \<Longrightarrow> rd p (next_in s) = Done v Q \<Longrightarrow>
      \<exists>s'. goes_on z (xd3_decode_input z s) s' \<and> core s' = m \<and> next_in s' = Q"
  shows "reaches z st m R"
proof -
  from r obtain st1 where st1: "code_loop z st = code_loop z st1" "fed st1" "SrcFile st1 = SrcFile st" "OutFile st1 = OutFile st"
    "core (decoder st1) = n p" "pending st1 = P" by (auto simp: reaches_def)
  then show ?thesis using rd
  proof (induction "length (srest (InFile st1))" arbitrary: st1 p P rule: less_induct)
    case less
    let ?s = "decoder st1" and ?Y = "srest (InFile st1)"
    have P: "P = next_in ?s @ ?Y" using less.prems(6) by (simp add: pending_def)
    show ?case
    proof (cases "rd p (next_in ?s)")
      case (Done v' Q)
      then have vR: "v' = v" "R = Q @ ?Y" using less.prems(7) rd_done [OF Done, of ?Y] by (auto simp: P)
      obtain s' where s': "goes_on z (xd3_decode_input z ?s) s'" "core s' = m" "next_in s' = Q"
        using got [OF less.prems(5)] Done vR by blast
      have "code_loop z st = code_loop z (st1\<lparr>decoder := s'\<rparr>)" using less.prems(1) code_loop_goes_on [OF s'(1)] by simp
      then show ?thesis using less.prems s' vR(2) by (auto simp: reaches_def fed_def pending_def intro!: exI [of _ "st1\<lparr>decoder := s'\<rparr>"])
    next
      case (More q)
      then obtain s' where s': "xd3_decode_input z ?s = Some (Stop XD3_INPUT s')" "core s' = n q" "next_in s' = []"
        using more [OF less.prems(5)] by blast
      have rq: "rd q ?Y = Done v R" using less.prems(7) rd_more [OF More, of ?Y] by (simp add: P)
      have "?Y \<noteq> []" using rq rd_more_Nil [OF More] by auto
      then obtain st2 where "code_loop z st1 = code_loop z st2" "fed st2" "SrcFile st2 = SrcFile st1" "OutFile st2 = OutFile st1"
        "core (decoder st2) = n q" "pending st2 = ?Y" "length (srest (InFile st2)) < length ?Y"
        using refill [OF s'(1, 3) less.prems(2)] s'(2) by metis
      then show ?thesis using less.hyps [of st2 q ?Y] less.prems(1-4) rq by simp
    next
      case Bad
      then show ?thesis using less.prems(7) rd_bad [OF Bad, of ?Y] by (simp add: P)
    qed
  qed
qed

end

text \<open>The three kinds of fields: a number, a fixed number of bytes, and one byte.\<close>

definition size_rd :: "usize \<Rightarrow> bytes \<Rightarrow> (usize, usize) reading" where
  "size_rd p X = (case xd3_decode_loop p X of Further q \<Rightarrow> More q | Value v R \<Rightarrow> Done v R | Overflow _ _ \<Rightarrow> Bad)"

definition bytes_rd :: "nat \<Rightarrow> bytes \<Rightarrow> bytes \<Rightarrow> (bytes, bytes) reading" where
  "bytes_rd n p X = (let k = n - length p in if length X < k then More (p @ X) else Done (p @ take k X) (drop k X))"

definition byte_rd :: "unit \<Rightarrow> bytes \<Rightarrow> (unit, byte) reading" where
  "byte_rd p X = (case X of [] \<Rightarrow> More () | b # R \<Rightarrow> Done b R)"

interpretation number: field_reader size_rd
  by unfold_locales (auto simp: size_rd_def decode_loop_resume split: integer_part.splits)

interpretation block: field_reader "bytes_rd l" for l
  by unfold_locales (auto simp: bytes_rd_def Let_def split: if_splits)

interpretation octet: field_reader byte_rd
  by unfold_locales (auto simp: byte_rd_def split: list.splits)

section \<open>Fields of the decoder\<close>

lemma and_then_assoc: "and_then (and_then r f) g = and_then r (\<lambda>s. and_then (f s) g)"
  by (cases r) simp_all

lemma decode_loop_suffix: "xd3_decode_loop p X = Value v R \<Longrightarrow> drop (length X - length R) X = R"
proof -
  have "xd3_decode_loop p X = Value v R \<Longrightarrow> \<exists>Y. X = Y @ R"
  proof (induction p X rule: xd3_decode_loop.induct)
    case (2 p b X)
    then obtain Y where "X = Y @ R" by (auto simp: Let_def split: if_splits)
    then show ?case by (intro exI [of _ "b # Y"]) simp
  qed simp
  then show "xd3_decode_loop p X = Value v R \<Longrightarrow> ?thesis" by auto
qed

lemma size_rd_emitted: "size_rd 0 (xd3_emit_size v @ R) = Done v R"
  using read_emitted [of v R] decode_loop_read [of 0 "xd3_emit_size v @ R"]
  by (auto simp: size_rd_def xd3_read_size_def split: integer_part.splits)

lemma bytes_rd_whole: "length b = n \<Longrightarrow> bytes_rd n [] (b @ R) = Done b R"
  by (simp add: bytes_rd_def)

text \<open>A call that reads a field with \<open>rd\<close> and, when it is there, goes on with the state that \<open>after\<close> gives.\<close>

definition reads_then :: "int \<Rightarrow> xd3_stream \<Rightarrow> (xd3_stream \<Rightarrow> xd3_stream run) \<Rightarrow> xd3_stream \<Rightarrow> (xd3_stream \<Rightarrow> xd3_stream) \<Rightarrow> xd3_stream \<Rightarrow> bool" where
  "reads_then z s rd read after m \<longleftrightarrow> (\<exists>k. xd3_decode_input z s = Some (and_then (rd s) k) \<and>
     (\<forall>s1. core s1 = read \<longrightarrow> goes_on z (Some (k s1)) (after s1) \<and> core (after s1) = m \<and> next_in (after s1) = next_in s1))"

lemma reads_thenI:
  "xd3_decode_input z s = Some (and_then (rd s) k) \<Longrightarrow> (\<And>s1. core s1 = read \<Longrightarrow> xd3_decode_input z (after s1) = Some (k s1)) \<Longrightarrow>
     (\<And>s1. core s1 = read \<Longrightarrow> core (after s1) = m) \<Longrightarrow> (\<And>s1. next_in (after s1) = next_in s1) \<Longrightarrow> reads_then z s rd read after m"
  unfolding reads_then_def goes_on_def by metis

lemma reads_then_noticeI:
  "xd3_decode_input z s = Some (and_then (rd s) k) \<Longrightarrow> (\<And>s1. core s1 = read \<Longrightarrow> goes_on z (Some (k s1)) (after s1)) \<Longrightarrow>
     (\<And>s1. core s1 = read \<Longrightarrow> core (after s1) = m) \<Longrightarrow> (\<And>s1. next_in (after s1) = next_in s1) \<Longrightarrow> reads_then z s rd read after m"
  unfolding reads_then_def by blast

lemma reads_then_stop: "reads_then z s rd read after m \<Longrightarrow> rd s = Stop r s' \<Longrightarrow> xd3_decode_input z s = Some (Stop r s')"
  by (auto simp: reads_then_def)

lemma reads_then_next:
  "reads_then z s rd read after m \<Longrightarrow> rd s = Next s1 \<Longrightarrow> core s1 = read \<Longrightarrow> next_in s1 = Q \<Longrightarrow>
     \<exists>s'. goes_on z (xd3_decode_input z s) s' \<and> core s' = m \<and> next_in s' = Q"
  by (auto simp: reads_then_def intro!: exI [of _ "after s1"])

lemma size_field:
  assumes r: "reaches z st n (xd3_emit_size v @ R)" "dec_64part n = 0"
    and store: "\<And>s. core (store v s) = put (core s) \<and> next_in (store v s) = next_in s"
    and call: "\<And>s p. core s = n\<lparr>dec_64part := p\<rparr> \<Longrightarrow> reads_then z s (xd3_decode_size store) (put n) after m"
  shows "reaches z st m R"
proof (rule number.field_read [where n = "\<lambda>p. n\<lparr>dec_64part := p\<rparr>" and p = 0 and v = v])
  have n0: "n\<lparr>dec_64part := 0\<rparr> = n" using r(2) by (metis xd3_stream.surjective xd3_stream.update_convs(27))
  then show "reaches z st (n\<lparr>dec_64part := 0\<rparr>) (xd3_emit_size v @ R)" using r(1) by simp
  show "size_rd 0 (xd3_emit_size v @ R) = Done v R" by (rule size_rd_emitted)
  show "\<exists>s'. xd3_decode_input z s = Some (Stop XD3_INPUT s') \<and> core s' = n\<lparr>dec_64part := q\<rparr> \<and> next_in s' = []"
    if s: "core s = n\<lparr>dec_64part := p\<rparr>" "size_rd p (next_in s) = More q" for s p q
  proof -
    have "dec_64part s = p" using arg_cong [OF s(1), of dec_64part] by simp
    then have "xd3_decode_size store s = Stop XD3_INPUT (DECODE_INPUT (length (next_in s)) (s\<lparr>dec_64part := q\<rparr>))"
      using s(2) by (simp add: xd3_decode_size_def size_rd_def split: integer_part.splits)
    from reads_then_stop [OF call [OF s(1)] this] show ?thesis by (auto simp: s(1) DECODE_INPUT_def)
  qed
  show "\<exists>s'. goes_on z (xd3_decode_input z s) s' \<and> core s' = m \<and> next_in s' = Q"
    if s: "core s = n\<lparr>dec_64part := p\<rparr>" "size_rd p (next_in s) = Done v Q" for s p Q
  proof -
    have p: "dec_64part s = p" using arg_cong [OF s(1), of dec_64part] by simp
    then have val: "xd3_decode_loop (dec_64part s) (next_in s) = Value v Q"
      using s(2) by (simp add: size_rd_def split: integer_part.splits)
    let ?s = "DECODE_INPUT (length (next_in s) - length Q) (store v (s\<lparr>dec_64part := 0\<rparr>))"
    have "xd3_decode_size store s = Next ?s" using val by (simp add: xd3_decode_size_def)
    moreover have "core ?s = put n" using s(1) n0 by (simp add: store)
    moreover have "next_in ?s = Q" using decode_loop_suffix [OF val] by (simp add: DECODE_INPUT_def store)
    ultimately show ?thesis by (rule reads_then_next [OF call [OF s(1)]])
  qed
qed

lemma byte_field:
  assumes r: "reaches z st n (b # R)"
    and store: "\<And>s. core (store (ucast b) s) = put (core s) \<and> next_in (store (ucast b) s) = next_in s"
    and call: "\<And>s. core s = n \<Longrightarrow> reads_then z s (xd3_decode_byte store) (put n) after m"
  shows "reaches z st m R"
proof (rule octet.field_read [where n = "\<lambda>p. n" and v = b, OF r])
  show "byte_rd () (b # R) = Done b R" by (simp add: byte_rd_def)
  show "\<exists>s'. xd3_decode_input z s = Some (Stop XD3_INPUT s') \<and> core s' = n \<and> next_in s' = []"
    if "core s = n" "byte_rd p (next_in s) = More q" for s p q
    using that reads_then_stop [OF call] by (auto simp: xd3_decode_byte_def byte_rd_def split: list.splits)
  show "\<exists>s'. goes_on z (xd3_decode_input z s) s' \<and> core s' = m \<and> next_in s' = Q"
    if s: "core s = n" "byte_rd p (next_in s) = Done b Q" for s p Q
  proof -
    have nin: "next_in s = b # Q" using s(2) by (auto simp: byte_rd_def split: list.splits)
    let ?s = "DECODE_INPUT 1 (store (ucast b) s)"
    have "xd3_decode_byte store s = Next ?s" using nin by (simp add: xd3_decode_byte_def)
    moreover have "core ?s = put n" "next_in ?s = Q" using s(1) nin by (simp_all add: store DECODE_INPUT_def)
    ultimately show ?thesis by (rule reads_then_next [OF call [OF s(1)]])
  qed
qed

lemma bytes_field:
  assumes r: "reaches z st (n []) (b @ R)" "length b = l"
    and call: "\<And>s p. core s = n p \<Longrightarrow> reads_then z s (xd3_decode_bytes has store l) (n b) after m"
    and has: "\<And>s p. core s = n p \<Longrightarrow> has s = p"
    and store: "\<And>s p c. core s = n p \<Longrightarrow> core (store c s) = n c \<and> next_in (store c s) = next_in s"
  shows "reaches z st m R"
proof (rule block.field_read [where l = l and n = n and v = b, OF r(1)])
  show "bytes_rd l [] (b @ R) = Done b R" using r(2) by (rule bytes_rd_whole)
  show "\<exists>s'. xd3_decode_input z s = Some (Stop XD3_INPUT s') \<and> core s' = n q \<and> next_in s' = []"
    if s: "core s = n p" "bytes_rd l p (next_in s) = More q" for s p q
  proof -
    have q: "q = p @ next_in s" "length (next_in s) < l - length p" using s(2) by (auto simp: bytes_rd_def Let_def split: if_splits)
    then have "xd3_decode_bytes has store l s = Stop XD3_INPUT (DECODE_INPUT (length (next_in s)) (store q s))"
      by (simp add: xd3_decode_bytes_def has [OF s(1)] Let_def)
    from reads_then_stop [OF call [OF s(1)] this] show ?thesis using store [OF s(1), of q] by (auto simp: DECODE_INPUT_def)
  qed
  show "\<exists>s'. goes_on z (xd3_decode_input z s) s' \<and> core s' = m \<and> next_in s' = Q"
    if s: "core s = n p" "bytes_rd l p (next_in s) = Done b Q" for s p Q
  proof -
    have q: "b = p @ take (l - length p) (next_in s)" "\<not> length (next_in s) < l - length p" "Q = drop (l - length p) (next_in s)"
      using s(2) by (auto simp: bytes_rd_def Let_def split: if_splits)
    let ?s = "DECODE_INPUT (l - length p) (store b s)"
    have "min (length (next_in s)) (l - length p) = l - length p" using q(2) by simp
    then have "xd3_decode_bytes has store l s = Next ?s"
      using q(1, 2) by (simp add: xd3_decode_bytes_def has [OF s(1)] Let_def)
    moreover have "core ?s = n b" "next_in ?s = Q" using store [OF s(1)] q(3) by (simp_all add: DECODE_INPUT_def)
    ultimately show ?thesis by (rule reads_then_next [OF call [OF s(1)]])
  qed
qed

end
