(* ===== verification/Xd3_Header.thy ===== *)
theory Xd3_Header
  imports Xd3_Feed
begin

text \<open>
  The header of a window: the file format written down as an encoder, and the decoder's way through its fields.
\<close>

section \<open>The format\<close>

text \<open>A window: the length and position of its source segment, its checksum if it has one, its sections and its target.\<close>

record vwin =
  wsegment :: "(nat \<times> nat) option"
  wsum :: "u32 option"
  wdata :: bytes
  winst :: bytes
  waddr :: bytes
  wtarget :: bytes

definition vcd_number :: "nat \<Rightarrow> bytes" where
  "vcd_number n = xd3_emit_size (of_nat n)"

definition win_indicator :: "vwin \<Rightarrow> byte" where
  "win_indicator w = (if wsegment w = None then 0 else 1) + (if wsum w = None then 0 else 4)"

definition win_checksum :: "vwin \<Rightarrow> bytes" where
  "win_checksum w = (case wsum w of None \<Rightarrow> [] | Some c \<Rightarrow> be_bytes 4 (unat c))"

definition win_sections :: "vwin \<Rightarrow> bytes" where
  "win_sections w = wdata w @ winst w @ waddr w"

text \<open>What the announced length of a window counts, the sections at its end, and all that is before them.\<close>

definition win_lengths :: "vwin \<Rightarrow> bytes" where
  "win_lengths w = vcd_number (length (wtarget w)) @ 0 # vcd_number (length (wdata w)) @ vcd_number (length (winst w)) @
     vcd_number (length (waddr w)) @ win_checksum w"

definition win_enclen :: "vwin \<Rightarrow> nat" where
  "win_enclen w = length (win_lengths w) + length (win_sections w)"

definition win_front :: "vwin \<Rightarrow> bytes" where
  "win_front w = win_indicator w # (case wsegment w of None \<Rightarrow> [] | Some (l, off) \<Rightarrow> vcd_number l @ vcd_number off) @
     vcd_number (win_enclen w) @ win_lengths w"

definition win_bytes :: "vwin \<Rightarrow> bytes" where
  "win_bytes w = win_front w @ win_sections w"

definition win_source :: "bytes \<Rightarrow> vwin \<Rightarrow> bytes" where
  "win_source D w = (case wsegment w of None \<Rightarrow> [] | Some (l, off) \<Rightarrow> take l (drop off D))"

text \<open>A window that makes its target from the source \<open>D\<close>: the sections denote the target, and the sizes are within the decoder's bounds.
  It is valid if the checksum is right, too.\<close>

definition win_denotes :: "bytes \<Rightarrow> vwin \<Rightarrow> bool" where
  "win_denotes D w \<longleftrightarrow>
     (case wsegment w of None \<Rightarrow> True | Some (l, off) \<Rightarrow> 0 < l \<and> off + l \<le> length D) \<and>
     vcd_window (win_source D w) (wdata w) (winst w) (waddr w) = Some (wtarget w) \<and> length (wtarget w) \<le> 2 ^ 26 \<and>
     length (wdata w) < 2 ^ 31 \<and> length (winst w) < 2 ^ 31 \<and> length (waddr w) < 2 ^ 31"

definition win_valid :: "bytes \<Rightarrow> vwin \<Rightarrow> bool" where
  "win_valid D w \<longleftrightarrow> win_denotes D w \<and> wsum w \<in> {None, Some (adler32 1 (wtarget w))}"

section \<open>The fields\<close>

lemma be4_fold:
  assumes "length b = 4" shows "foldl (\<lambda>a b. push_bit 8 a OR ucast b) (x :: u32) b = of_nat (be_val b)"
proof -
  obtain b0 b1 b2 b3 where b: "b = [b0, b1, b2, b3]" using list_eq_nth4 [OF assms] by blast
  have "push_bit 32 x = 0" by (rule bit_word_eqI) (simp add: bit_push_bit_iff)
  then show ?thesis using word_be4 [of b0 b1 b2 b3, where 'a = 32] by (simp add: b push_bit_or push_bit_push_bit or.assoc)
qed

lemma core_eqs:
  "core s = n \<Longrightarrow> dec_state s = dec_state n \<and> enc_state s = enc_state n \<and> dec_win_ind s = dec_win_ind n \<and> dec_hdr_ind s = dec_hdr_ind n \<and>
    dec_winstart s = dec_winstart n \<and> dec_tgtlen s = dec_tgtlen n \<and> dec_window_count s = dec_window_count n \<and> dec_cpylen s = dec_cpylen n \<and>
    dec_cpyoff s = dec_cpyoff n \<and> dec_del_ind s = dec_del_ind n \<and> acache s = acache n \<and> dec_cksum s = dec_cksum n \<and> dec_enclen s = dec_enclen n \<and>
    data_sect s = data_sect n \<and> inst_sect s = inst_sect n \<and> addr_sect s = addr_sect n \<and> dec_adler32 s = dec_adler32 n \<and>
    current_window s = current_window n \<and> dec_magic s = dec_magic n \<and> dec_appheadsz s = dec_appheadsz n \<and> dec_appheader s = dec_appheader n"
  by auto

lemma dec_state_input [simp]:
  "enc_state s = 0 \<Longrightarrow> dec_state s = DEC_CPYOFF \<Longrightarrow> xd3_decode_input z s = Some (dec_cpyoff_state s)"
  "enc_state s = 0 \<Longrightarrow> dec_state s = DEC_CPYLEN \<Longrightarrow> xd3_decode_input z s = Some (dec_cpylen_state s)"
  "enc_state s = 0 \<Longrightarrow> dec_state s = DEC_ENCLEN \<Longrightarrow> xd3_decode_input z s = Some (dec_enclen_state s)"
  "enc_state s = 0 \<Longrightarrow> dec_state s = DEC_TGTLEN \<Longrightarrow> xd3_decode_input z s = Some (dec_tgtlen_state s)"
  "enc_state s = 0 \<Longrightarrow> dec_state s = DEC_DELIND \<Longrightarrow> xd3_decode_input z s = Some (dec_delind s)"
  "enc_state s = 0 \<Longrightarrow> dec_state s = DEC_DATALEN \<Longrightarrow> xd3_decode_input z s = Some (dec_datalen s)"
  "enc_state s = 0 \<Longrightarrow> dec_state s = DEC_INSTLEN \<Longrightarrow> xd3_decode_input z s = Some (dec_instlen s)"
  "enc_state s = 0 \<Longrightarrow> dec_state s = DEC_ADDRLEN \<Longrightarrow> xd3_decode_input z s = Some (dec_addrlen s)"
  "enc_state s = 0 \<Longrightarrow> dec_state s = DEC_CKSUM \<Longrightarrow> xd3_decode_input z s = Some (dec_cksum_state s)"
  "enc_state s = 0 \<Longrightarrow> dec_state s = DEC_WININD \<Longrightarrow> xd3_decode_input z s = Some (dec_winind s)"
  by (simp_all add: xd3_decode_input_def)

lemma goes_on_call: "xd3_decode_input z s' = r \<Longrightarrow> goes_on z r s'"
  by (simp add: goes_on_def)

lemma read_winind:
  assumes r: "reaches z st n (b # R)" and n: "dec_state n = DEC_WININD" "enc_state n = 0"
    and ov: "\<not> USIZE_T_OVERFLOW (dec_winstart n) (dec_tgtlen n)" and b: "(ucast b :: usize) AND VCD_INV = 0"
  shows "reaches z st (n\<lparr>dec_win_ind := ucast b, current_window := dec_window_count n, dec_winstart := dec_winstart n + dec_tgtlen n,
    dec_cpylen := 0, dec_cpyoff := 0, dec_cksum := [], acache := xd3_init_cache (acache n), dec_state := DEC_CPYLEN\<rparr>) R"
proof (rule byte_field [OF r, where put = "\<lambda>s. s\<lparr>dec_win_ind := ucast b\<rparr>"])
  fix s assume s: "core s = n"
  have call: "xd3_decode_input z s = Some (dec_winind s)" using core_eqs [OF s] by (simp add: n)
  show "reads_then z s (xd3_decode_byte (\<lambda>v. dec_win_ind_update (\<lambda>_. v))) (n\<lparr>dec_win_ind := ucast b\<rparr>)
     (\<lambda>s. s\<lparr>current_window := dec_window_count n, dec_winstart := dec_winstart n + dec_tgtlen n, dec_cpylen := 0, dec_cpyoff := 0,
        dec_cksum := [], acache := xd3_init_cache (acache n), dec_state := DEC_CPYLEN\<rparr>)
     (n\<lparr>dec_win_ind := ucast b, current_window := dec_window_count n, dec_winstart := dec_winstart n + dec_tgtlen n,
        dec_cpylen := 0, dec_cpyoff := 0, dec_cksum := [], acache := xd3_init_cache (acache n), dec_state := DEC_CPYLEN\<rparr>)"
    by (rule reads_thenI, rule call [unfolded dec_winind_def],
        ((frule core_eqs)?, simp add: n ov b Let_def xd3_decode_init_window_def)+)
qed simp

lemma read_cpylen:
  assumes r: "reaches z st n (vcd_number l @ R)" "dec_64part n = 0" and n: "dec_state n = DEC_CPYLEN" "enc_state n = 0" "SRCORTGT (dec_win_ind n)"
  shows "reaches z st (n\<lparr>dec_cpylen := of_nat l, dec_state := DEC_CPYOFF, dec_position := of_nat l\<rparr>) R"
proof (rule size_field [OF r [unfolded vcd_number_def], where put = "\<lambda>s. s\<lparr>dec_cpylen := of_nat l\<rparr>"])
  fix s p assume s: "core s = n\<lparr>dec_64part := p\<rparr>"
  have call: "xd3_decode_input z s = Some (and_then (xd3_decode_size (\<lambda>v. dec_cpylen_update (\<lambda>_. v)) s)
      (\<lambda>s. dec_cpyoff_state (s\<lparr>dec_state := DEC_CPYOFF, dec_position := dec_cpylen s\<rparr>)))"
    using core_eqs [OF s] by (simp add: n dec_cpylen_state_def SIZE_CASE_def and_then_assoc)
  show "reads_then z s (xd3_decode_size (\<lambda>v. dec_cpylen_update (\<lambda>_. v))) (n\<lparr>dec_cpylen := of_nat l\<rparr>)
     (\<lambda>s. s\<lparr>dec_state := DEC_CPYOFF, dec_position := of_nat l\<rparr>)
     (n\<lparr>dec_cpylen := of_nat l, dec_state := DEC_CPYOFF, dec_position := of_nat l\<rparr>)"
    by (rule reads_thenI, rule call, ((frule core_eqs)?, simp add: n)+)
qed simp

lemma read_cpyoff:
  assumes r: "reaches z st n (vcd_number l @ R)" "dec_64part n = 0" and n: "dec_state n = DEC_CPYOFF" "enc_state n = 0" "SRCORTGT (dec_win_ind n)" "\<not> bit (dec_win_ind n) VCD_TARGET"
    and ov: "\<not> USIZE_T_OVERFLOW (of_nat l) (dec_cpylen n)"
  shows "reaches z st (n\<lparr>dec_cpyoff := of_nat l, dec_state := DEC_ENCLEN\<rparr>) R"
proof (rule size_field [OF r [unfolded vcd_number_def], where put = "\<lambda>n. n\<lparr>dec_cpyoff := of_nat l\<rparr>"])
  fix s p assume s: "core s = n\<lparr>dec_64part := p\<rparr>"
  have call: "xd3_decode_input z s = Some (and_then (xd3_decode_size (\<lambda>v. dec_cpyoff_update (\<lambda>_. v)) s)
      (\<lambda>s. let s = s\<lparr>dec_state := DEC_ENCLEN\<rparr> in if USIZE_T_OVERFLOW (dec_cpyoff s) (dec_cpylen s) then Stop XD3_INVALID_INPUT s
         else if bit (dec_win_ind s) VCD_TARGET \<and> dec_cpyoff s + dec_cpylen s > dec_winstart s then Stop XD3_INVALID_INPUT s
         else dec_enclen_state s))"
    using core_eqs [OF s] by (simp add: n ov dec_cpyoff_state_def SIZE_CASE_def and_then_assoc Let_def)
  show "reads_then z s (xd3_decode_size (\<lambda>v. dec_cpyoff_update (\<lambda>_. v))) (n\<lparr>dec_cpyoff := of_nat l\<rparr>)
     (\<lambda>s. s\<lparr>dec_state := DEC_ENCLEN\<rparr>) (n\<lparr>dec_cpyoff := of_nat l, dec_state := DEC_ENCLEN\<rparr>)"
    by (rule reads_thenI, rule call, ((frule core_eqs)?, simp add: n ov Let_def)+)
qed simp

lemma skip_segment:
  assumes r: "reaches z st n P" and n: "dec_state n = DEC_CPYLEN" "enc_state n = 0" "\<not> SRCORTGT (dec_win_ind n)" "\<not> bit (dec_win_ind n) VCD_TARGET"
    "dec_cpylen n = 0" "dec_cpyoff n = 0"
  shows "reaches z st (n\<lparr>dec_position := 0, dec_state := DEC_ENCLEN\<rparr>) P"
proof (rule reaches_step [OF r])
  fix s assume s: "core s = n"
  let ?s = "s\<lparr>dec_position := 0, dec_state := DEC_ENCLEN\<rparr>"
  have "xd3_decode_input z s = xd3_decode_input z ?s"
    using core_eqs [OF s] by (simp add: n dec_cpylen_state_def dec_cpyoff_state_def SIZE_CASE_def usize_overflow)
  then show "\<exists>s'. goes_on z (xd3_decode_input z s) s' \<and> core s' = n\<lparr>dec_position := 0, dec_state := DEC_ENCLEN\<rparr> \<and> next_in s' = next_in s"
    using s by (intro exI [of _ ?s]) simp
qed

lemma read_enclen:
  assumes r: "reaches z st n (vcd_number l @ R)" "dec_64part n = 0" and n: "dec_state n = DEC_ENCLEN" "enc_state n = 0"
  shows "reaches z st (n\<lparr>dec_enclen := of_nat l, dec_state := DEC_TGTLEN\<rparr>) R"
proof (rule size_field [OF r [unfolded vcd_number_def], where put = "\<lambda>n. n\<lparr>dec_enclen := of_nat l\<rparr>"])
  fix s p assume s: "core s = n\<lparr>dec_64part := p\<rparr>"
  have call: "xd3_decode_input z s = Some (and_then (xd3_decode_size (\<lambda>v. dec_enclen_update (\<lambda>_. v)) s)
      (\<lambda>s. dec_tgtlen_state (s\<lparr>dec_state := DEC_TGTLEN\<rparr>)))"
    using core_eqs [OF s] by (simp add: n dec_enclen_state_def SIZE_CASE_def and_then_assoc)
  show "reads_then z s (xd3_decode_size (\<lambda>v. dec_enclen_update (\<lambda>_. v))) (n\<lparr>dec_enclen := of_nat l\<rparr>)
     (\<lambda>s. s\<lparr>dec_state := DEC_TGTLEN\<rparr>) (n\<lparr>dec_enclen := of_nat l, dec_state := DEC_TGTLEN\<rparr>)"
    by (rule reads_thenI, rule call, ((frule core_eqs)?, simp add: n)+)
qed simp

lemma read_tgtlen:
  assumes r: "reaches z st n (vcd_number l @ R)" "dec_64part n = 0" and n: "dec_state n = DEC_TGTLEN" "enc_state n = 0"
    and ov: "\<not> USIZE_T_OVERFLOW (dec_cpylen n) (of_nat l)" "\<not> of_nat l > XD3_HARDMAXWINSIZE"
  shows "reaches z st (n\<lparr>dec_tgtlen := of_nat l, dec_state := DEC_DELIND, dec_maxpos := dec_cpylen n + of_nat l\<rparr>) R"
proof (rule size_field [OF r [unfolded vcd_number_def], where put = "\<lambda>n. n\<lparr>dec_tgtlen := of_nat l\<rparr>"])
  fix s p assume s: "core s = n\<lparr>dec_64part := p\<rparr>"
  have call: "xd3_decode_input z s = Some (and_then (xd3_decode_size (\<lambda>v. dec_tgtlen_update (\<lambda>_. v)) s)
      (\<lambda>s. let s = s\<lparr>dec_state := DEC_DELIND\<rparr> in
         if USIZE_T_OVERFLOW (dec_cpylen s) (dec_tgtlen s) then Stop XD3_INVALID_INPUT s
         else if dec_tgtlen s > XD3_HARDMAXWINSIZE then Stop XD3_INVALID_INPUT s
         else dec_delind (s\<lparr>dec_maxpos := dec_cpylen s + dec_tgtlen s\<rparr>)))"
    using core_eqs [OF s] by (simp add: n ov dec_tgtlen_state_def Let_def SIZE_CASE_def and_then_assoc)
  show "reads_then z s (xd3_decode_size (\<lambda>v. dec_tgtlen_update (\<lambda>_. v))) (n\<lparr>dec_tgtlen := of_nat l\<rparr>)
     (\<lambda>s. s\<lparr>dec_state := DEC_DELIND, dec_maxpos := dec_cpylen n + of_nat l\<rparr>) (n\<lparr>dec_tgtlen := of_nat l, dec_state := DEC_DELIND, dec_maxpos := dec_cpylen n + of_nat l\<rparr>)"
    by (rule reads_thenI, rule call, ((frule core_eqs)?, simp add: n ov Let_def)+)
qed simp

lemma read_delind:
  assumes r: "reaches z st n (0 # R)" and n: "dec_state n = DEC_DELIND" "enc_state n = 0"
  shows "reaches z st (n\<lparr>dec_del_ind := 0, dec_state := DEC_DATALEN\<rparr>) R"
proof (rule byte_field [OF r, where put = "\<lambda>n. n\<lparr>dec_del_ind := 0\<rparr>"])
  fix s assume s: "core s = n"
  have call: "xd3_decode_input z s = Some (and_then (xd3_decode_byte (\<lambda>v. dec_del_ind_update (\<lambda>_. v)) s)
      (\<lambda>s. let s = s\<lparr>dec_state := DEC_DATALEN\<rparr> in
         if dec_del_ind s AND VCD_INV \<noteq> 0 then Stop XD3_INVALID_INPUT s
         else if dec_del_ind s \<noteq> 0 \<and> \<not> sec_type s then Stop XD3_INVALID_INPUT s
         else dec_datalen s))"
    using core_eqs [OF s] by (simp add: n dec_delind_def BYTE_CASE_def and_then_assoc Let_def)
  show "reads_then z s (xd3_decode_byte (\<lambda>v. dec_del_ind_update (\<lambda>_. v))) (n\<lparr>dec_del_ind := 0\<rparr>)
     (\<lambda>s. s\<lparr>dec_state := DEC_DATALEN\<rparr>) (n\<lparr>dec_del_ind := 0, dec_state := DEC_DATALEN\<rparr>)"
    by (rule reads_thenI, rule call, ((frule core_eqs)?, simp add: n Let_def)+)
qed simp

lemma read_datalen:
  assumes r: "reaches z st n (vcd_number l @ R)" "dec_64part n = 0" and n: "dec_state n = DEC_DATALEN" "enc_state n = 0"
  shows "reaches z st (n\<lparr>data_sect := (data_sect n)\<lparr>sect_size := of_nat l\<rparr>, dec_state := DEC_INSTLEN\<rparr>) R"
proof (rule size_field [OF r [unfolded vcd_number_def], where put = "\<lambda>n. n\<lparr>data_sect := (data_sect n)\<lparr>sect_size := of_nat l\<rparr>\<rparr>"])
  fix s p assume s: "core s = n\<lparr>dec_64part := p\<rparr>"
  have call: "xd3_decode_input z s = Some (and_then (xd3_decode_size (\<lambda>v s. s\<lparr>data_sect := (data_sect s)\<lparr>sect_size := v\<rparr>\<rparr>) s)
      (\<lambda>s. dec_instlen (s\<lparr>dec_state := DEC_INSTLEN\<rparr>)))"
    using core_eqs [OF s] by (simp add: n dec_datalen_def SIZE_CASE_def and_then_assoc)
  show "reads_then z s (xd3_decode_size (\<lambda>v s. s\<lparr>data_sect := (data_sect s)\<lparr>sect_size := v\<rparr>\<rparr>)) (n\<lparr>data_sect := (data_sect n)\<lparr>sect_size := of_nat l\<rparr>\<rparr>)
     (\<lambda>s. s\<lparr>dec_state := DEC_INSTLEN\<rparr>) (n\<lparr>data_sect := (data_sect n)\<lparr>sect_size := of_nat l\<rparr>, dec_state := DEC_INSTLEN\<rparr>)"
    by (rule reads_thenI, rule call, ((frule core_eqs)?, simp add: n)+)
qed simp

lemma read_instlen:
  assumes r: "reaches z st n (vcd_number l @ R)" "dec_64part n = 0" and n: "dec_state n = DEC_INSTLEN" "enc_state n = 0"
  shows "reaches z st (n\<lparr>inst_sect := (inst_sect n)\<lparr>sect_size := of_nat l\<rparr>, dec_state := DEC_ADDRLEN\<rparr>) R"
proof (rule size_field [OF r [unfolded vcd_number_def], where put = "\<lambda>n. n\<lparr>inst_sect := (inst_sect n)\<lparr>sect_size := of_nat l\<rparr>\<rparr>"])
  fix s p assume s: "core s = n\<lparr>dec_64part := p\<rparr>"
  have call: "xd3_decode_input z s = Some (and_then (xd3_decode_size (\<lambda>v s. s\<lparr>inst_sect := (inst_sect s)\<lparr>sect_size := v\<rparr>\<rparr>) s)
      (\<lambda>s. dec_addrlen (s\<lparr>dec_state := DEC_ADDRLEN\<rparr>)))"
    using core_eqs [OF s] by (simp add: n dec_instlen_def SIZE_CASE_def and_then_assoc)
  show "reads_then z s (xd3_decode_size (\<lambda>v s. s\<lparr>inst_sect := (inst_sect s)\<lparr>sect_size := v\<rparr>\<rparr>)) (n\<lparr>inst_sect := (inst_sect n)\<lparr>sect_size := of_nat l\<rparr>\<rparr>)
     (\<lambda>s. s\<lparr>dec_state := DEC_ADDRLEN\<rparr>) (n\<lparr>inst_sect := (inst_sect n)\<lparr>sect_size := of_nat l\<rparr>, dec_state := DEC_ADDRLEN\<rparr>)"
    by (rule reads_thenI, rule call, ((frule core_eqs)?, simp add: n)+)
qed simp

lemma read_addrlen:
  assumes r: "reaches z st n (vcd_number l @ R)" "dec_64part n = 0" and n: "dec_state n = DEC_ADDRLEN" "enc_state n = 0"
  shows "reaches z st (n\<lparr>addr_sect := (addr_sect n)\<lparr>sect_size := of_nat l\<rparr>, dec_state := DEC_CKSUM\<rparr>) R"
proof (rule size_field [OF r [unfolded vcd_number_def], where put = "\<lambda>n. n\<lparr>addr_sect := (addr_sect n)\<lparr>sect_size := of_nat l\<rparr>\<rparr>"])
  fix s p assume s: "core s = n\<lparr>dec_64part := p\<rparr>"
  have call: "xd3_decode_input z s = Some (and_then (xd3_decode_size (\<lambda>v s. s\<lparr>addr_sect := (addr_sect s)\<lparr>sect_size := v\<rparr>\<rparr>) s)
      (\<lambda>s. dec_cksum_state (s\<lparr>dec_state := DEC_CKSUM\<rparr>)))"
    using core_eqs [OF s] by (simp add: n dec_addrlen_def SIZE_CASE_def and_then_assoc)
  show "reads_then z s (xd3_decode_size (\<lambda>v s. s\<lparr>addr_sect := (addr_sect s)\<lparr>sect_size := v\<rparr>\<rparr>)) (n\<lparr>addr_sect := (addr_sect n)\<lparr>sect_size := of_nat l\<rparr>\<rparr>)
     (\<lambda>s. s\<lparr>dec_state := DEC_CKSUM\<rparr>) (n\<lparr>addr_sect := (addr_sect n)\<lparr>sect_size := of_nat l\<rparr>, dec_state := DEC_CKSUM\<rparr>)"
    by (rule reads_thenI, rule call, ((frule core_eqs)?, simp add: n)+)
qed simp

text \<open>The length check after the last field, and the return to the caller with one of the two notices.\<close>

lemma read_cksum:
  assumes r: "reaches z st n (b @ R)" "length b = 4" and n: "dec_state n = DEC_CKSUM" "enc_state n = 0" "bit (dec_win_ind n) VCD_ADLER32" "dec_cksum n = []"
    and len: "dec_enclen n = enclen_check n"
  shows "reaches z st (n\<lparr>dec_cksum := b, dec_adler32 := of_nat (be_val b), dec_state := DEC_DATA\<rparr>) R"
proof (rule bytes_field [OF _ r(2), where n = "\<lambda>p. n\<lparr>dec_cksum := p\<rparr>"])
  have "n\<lparr>dec_cksum := []\<rparr> = n" using n(4) by (metis xd3_stream.surjective xd3_stream.update_convs(21))
  then show "reaches z st (n\<lparr>dec_cksum := []\<rparr>) (b @ R)" using r(1) by simp
  fix s p assume s: "core s = n\<lparr>dec_cksum := p\<rparr>"
  have call: "xd3_decode_input z s = Some (and_then (xd3_decode_bytes dec_cksum (\<lambda>b. dec_cksum_update (\<lambda>_. b)) 4 s)
      (\<lambda>s. let s = s\<lparr>dec_adler32 := foldl (\<lambda>a b. push_bit 8 a OR ucast b) (dec_adler32 s) (dec_cksum s), dec_state := DEC_DATA\<rparr> in
          if dec_enclen s \<noteq> enclen_check s then Stop XD3_INVALID_INPUT s
          else Stop (if current_window s = 0 then XD3_GOTHEADER else XD3_WINSTART) s))"
    using core_eqs [OF s] by (simp add: n dec_cksum_state_def and_then_assoc Let_def)
  show "dec_cksum s = p" using core_eqs [OF s] by simp
  have adler: "foldl (\<lambda>a b. push_bit 8 a OR ucast b) x b = of_nat (be_val b)" for x :: u32
    using r(2) be4_fold by blast
  show "reads_then z s (xd3_decode_bytes dec_cksum (\<lambda>b. dec_cksum_update (\<lambda>_. b)) 4) (n\<lparr>dec_cksum := b\<rparr>)
     (\<lambda>s. s\<lparr>dec_adler32 := of_nat (be_val b), dec_state := DEC_DATA\<rparr>) (n\<lparr>dec_cksum := b, dec_adler32 := of_nat (be_val b), dec_state := DEC_DATA\<rparr>)"
    by (rule reads_then_noticeI, rule call, ((frule core_eqs)?, simp add: goes_on_def adler len enclen_check_def Let_def)+)
qed simp_all

lemma skip_cksum:
  assumes r: "reaches z st n P" and n: "dec_state n = DEC_CKSUM" "enc_state n = 0" "\<not> bit (dec_win_ind n) VCD_ADLER32"
    and len: "dec_enclen n = enclen_check n"
  shows "reaches z st (n\<lparr>dec_state := DEC_DATA\<rparr>) P"
proof (rule reaches_step [OF r])
  fix s assume s: "core s = n"
  have "dec_enclen s = enclen_check s" using core_eqs [OF s] by (simp add: len enclen_check_def)
  then have "goes_on z (xd3_decode_input z s) (s\<lparr>dec_state := DEC_DATA\<rparr>)"
    using core_eqs [OF s] by (simp add: n goes_on_def dec_cksum_state_def enclen_check_def)
  then show "\<exists>s'. goes_on z (xd3_decode_input z s) s' \<and> core s' = n\<lparr>dec_state := DEC_DATA\<rparr> \<and> next_in s' = next_in s"
    using s by (intro exI [of _ "s\<lparr>dec_state := DEC_DATA\<rparr>"]) simp
qed

section \<open>The header of a window\<close>

definition seg_len :: "vwin \<Rightarrow> nat" where
  "seg_len w = (case wsegment w of None \<Rightarrow> 0 | Some (l, off) \<Rightarrow> l)"

definition seg_off :: "vwin \<Rightarrow> nat" where
  "seg_off w = (case wsegment w of None \<Rightarrow> 0 | Some (l, off) \<Rightarrow> off)"

text \<open>What the header leaves in the decoder, and what it does not touch.\<close>

definition headed :: "vwin \<Rightarrow> xd3_stream \<Rightarrow> xd3_stream \<Rightarrow> bool" where
  "headed w n m \<longleftrightarrow>
     dec_win_ind m = ucast (win_indicator w) \<and> dec_cpylen m = of_nat (seg_len w) \<and> dec_cpyoff m = of_nat (seg_off w) \<and>
     dec_position m = of_nat (seg_len w) \<and> dec_tgtlen m = of_nat (length (wtarget w)) \<and> dec_maxpos m = of_nat (seg_len w + length (wtarget w)) \<and>
     dec_del_ind m = 0 \<and> dec_winstart m = dec_winstart n + dec_tgtlen n \<and>
     data_sect m = (data_sect n)\<lparr>sect_size := of_nat (length (wdata w))\<rparr> \<and> inst_sect m = (inst_sect n)\<lparr>sect_size := of_nat (length (winst w))\<rparr> \<and>
     addr_sect m = (addr_sect n)\<lparr>sect_size := of_nat (length (waddr w))\<rparr> \<and> acache m = xd3_init_cache (acache n) \<and> code_table m = code_table n \<and>
     source m = source n \<and> out_cap m = out_cap n \<and> space_out m = space_out n \<and> next_out m = next_out n \<and> dec_current1 m = dec_current1 n \<and>
     dec_current2 m = dec_current2 n \<and> enc_state m = enc_state n \<and> dec_64part m = dec_64part n \<and> flags m = flags n \<and> dec_winbytes m = dec_winbytes n"

definition started :: "vwin \<Rightarrow> xd3_stream \<Rightarrow> xd3_stream \<Rightarrow> bool" where
  "started w n m \<longleftrightarrow> headed w n m \<and> dec_state m = DEC_DATA \<and> (\<forall>c. wsum w = Some c \<longrightarrow> dec_adler32 m = c)"

lemma indicator_bits:
  "bit (ucast (win_indicator w) :: usize) VCD_SOURCE \<longleftrightarrow> wsegment w \<noteq> None" "\<not> bit (ucast (win_indicator w) :: usize) VCD_TARGET"
  "bit (ucast (win_indicator w) :: usize) VCD_ADLER32 \<longleftrightarrow> wsum w \<noteq> None" "(ucast (win_indicator w) :: usize) AND VCD_INV = 0"
  by (simp_all add: win_indicator_def xd3_bits VCD_INV_def)

lemma sizeof_number: "xd3_sizeof_size (of_nat n) = of_nat (length (vcd_number n))"
  by (metis sizeof_emitted vcd_number_def of_nat_unat ucast_id)

lemma length_vcd_number: "length (vcd_number n) \<le> 10"
proof -
  have "unat (of_nat n :: usize) < 2 ^ 64" using unsigned_less [of "of_nat n :: usize"] by simp
  then have "length (xd3_emit_size (of_nat n)) \<le> Suc 9" by (simp only: length_emit_size) simp
  then show ?thesis by (simp add: vcd_number_def)
qed

lemma enclen_number:
  assumes "dec_tgtlen m = of_nat (length (wtarget w))" "sect_size (data_sect m) = of_nat (length (wdata w))"
    "sect_size (inst_sect m) = of_nat (length (winst w))" "sect_size (addr_sect m) = of_nat (length (waddr w))"
    "bit (dec_win_ind m) VCD_ADLER32 \<longleftrightarrow> wsum w \<noteq> None"
  shows "enclen_check m = of_nat (win_enclen w)"
proof -
  let ?n = "1 + (length (vcd_number (length (wtarget w))) + length (vcd_number (length (wdata w))) +
    length (vcd_number (length (winst w))) + length (vcd_number (length (waddr w))))"
  have n: "?n < 2 ^ 32" using length_vcd_number [of "length (wtarget w)"] length_vcd_number [of "length (wdata w)"]
      length_vcd_number [of "length (winst w)"] length_vcd_number [of "length (waddr w)"] by simp
  have "(ucast (of_nat ?n :: u32) :: usize) = of_nat ?n"
    by (rule ucast_word_of_nat) (use n in simp)
  then show ?thesis
    unfolding enclen_check_def assms sizeof_number
    by (simp add: win_enclen_def win_lengths_def win_checksum_def win_sections_def algebra_simps split: option.split)
qed

lemma segment_header:
  assumes r: "reaches z st n (win_front w @ R)" and n: "dec_state n = DEC_WININD" "enc_state n = 0" "dec_64part n = 0"
    and ov: "\<not> USIZE_T_OVERFLOW (dec_winstart n) (dec_tgtlen n)" and seg: "seg_off w + seg_len w < 2 ^ 64"
  shows "reaches z st (n\<lparr>dec_win_ind := ucast (win_indicator w), current_window := dec_window_count n, dec_winstart := dec_winstart n + dec_tgtlen n,
    dec_cpylen := of_nat (seg_len w), dec_cpyoff := of_nat (seg_off w), dec_cksum := [], acache := xd3_init_cache (acache n),
    dec_position := of_nat (seg_len w), dec_state := DEC_ENCLEN\<rparr>) (vcd_number (win_enclen w) @ win_lengths w @ R)"
proof -
  let ?R = "vcd_number (win_enclen w) @ win_lengths w @ R"
  have rest: "win_front w @ R = win_indicator w # (case wsegment w of None \<Rightarrow> [] | Some (l, off) \<Rightarrow> vcd_number l @ vcd_number off) @ ?R"
    by (simp add: win_front_def)
  note w = read_winind [OF r [unfolded rest] n(1, 2) ov indicator_bits(4)]
  show ?thesis
  proof (cases "wsegment w")
    case None
    have "\<not> SRCORTGT (ucast (win_indicator w))" using None by (simp add: SRCORTGT_def indicator_bits)
    then show ?thesis using skip_segment [OF w] None indicator_bits(2) by (simp add: n seg_len_def seg_off_def)
  next
    case (Some x)
    then obtain l off where x: "wsegment w = Some (l, off)" by (cases x) simp
    have so: "SRCORTGT (ucast (win_indicator w))" using Some by (simp add: SRCORTGT_def indicator_bits)
    have lo: "\<not> USIZE_T_OVERFLOW (of_nat off) (of_nat l)" using seg x by (simp add: usize_overflow seg_len_def seg_off_def)
    note p = w [unfolded x option.case prod.case append_assoc]
    note q = read_cpylen [OF p, simplified, OF n(3) n(2) so]
    show ?thesis by (rule reaches_eq [OF read_cpyoff [OF q, simplified, OF n(3) n(2) so indicator_bits(2) lo]]) (simp add: x seg_len_def seg_off_def)
  qed
qed

lemma window_header:
  assumes r: "reaches z st n (win_front w @ R)" and n: "dec_state n = DEC_WININD" "enc_state n = 0" "dec_64part n = 0"
    and ov: "\<not> USIZE_T_OVERFLOW (dec_winstart n) (dec_tgtlen n)" and seg: "seg_off w + seg_len w < 2 ^ 62" and T: "length (wtarget w) \<le> 2 ^ 26"
  shows "\<exists>m. reaches z st m R \<and> started w n m"
proof -
  let ?R = "win_checksum w @ R"
  define n0 where "n0 = n\<lparr>dec_win_ind := ucast (win_indicator w), current_window := dec_window_count n, dec_winstart := dec_winstart n + dec_tgtlen n,
    dec_cpylen := of_nat (seg_len w), dec_cpyoff := of_nat (seg_off w), dec_cksum := [], acache := xd3_init_cache (acache n),
    dec_position := of_nat (seg_len w), dec_state := DEC_ENCLEN\<rparr>"
  have n0: "dec_state n0 = DEC_ENCLEN" "enc_state n0 = 0" "dec_64part n0 = 0" "dec_cpylen n0 = of_nat (seg_len w)"
    using n by (simp_all add: n0_def)
  have "reaches z st n0 (vcd_number (win_enclen w) @ win_lengths w @ R)"
    unfolding n0_def using segment_header [OF r n ov] seg by simp
  note n1 = read_enclen [OF this n0(3) n0(1) n0(2), unfolded win_lengths_def [of w] append_assoc append_Cons, folded win_lengths_def]
  have lim: "\<not> USIZE_T_OVERFLOW (of_nat (seg_len w)) (of_nat (length (wtarget w)))" "\<not> (of_nat (length (wtarget w)) :: usize) > XD3_HARDMAXWINSIZE"
  proof -
    have "unat (of_nat (seg_len w) :: usize) = seg_len w" "unat (of_nat (length (wtarget w)) :: usize) = length (wtarget w)"
      by (rule unat_word_of_nat_id, use seg T in simp)+
    then show "\<not> USIZE_T_OVERFLOW (of_nat (seg_len w)) (of_nat (length (wtarget w)))" "\<not> (of_nat (length (wtarget w)) :: usize) > XD3_HARDMAXWINSIZE"
      using seg T by (simp_all add: usize_overflow XD3_HARDMAXWINSIZE_def word_less_nat_alt)
  qed
  note n2 = read_tgtlen [OF n1, simplified, OF n0(3) n0(2), unfolded n0(4), OF lim]
  note n3 = read_delind [OF n2, simplified, OF n0(2)]
  note n4 = read_datalen [OF n3, simplified, OF n0(3) n0(2)]
  note n5 = read_instlen [OF n4, simplified, OF n0(3) n0(2)]
  note n6 = read_addrlen [OF n5, simplified, OF n0(3) n0(2)]
  have "\<exists>m. reaches z st m ?R \<and> headed w n m \<and> dec_state m = DEC_CKSUM \<and> dec_cksum m = [] \<and> dec_enclen m = of_nat (win_enclen w)"
    by (rule exI, rule conjI, rule n6) (simp add: headed_def n0_def)
  then obtain m where m: "reaches z st m ?R" "headed w n m" "dec_state m = DEC_CKSUM" "dec_cksum m = []" "dec_enclen m = of_nat (win_enclen w)"
    by blast
  have e: "enc_state m = 0" using m(2) n(2) by (simp add: headed_def)
  have len: "dec_enclen m = enclen_check m" using m(2) by (simp add: m(5) enclen_number headed_def indicator_bits)
  show ?thesis
  proof (cases "wsum w")
    case (Some c)
    let ?b = "be_bytes 4 (unat c)"
    have b: "of_nat (be_val ?b) = c"
    proof -
      have "unat c < 2 ^ 32" using unsigned_less [of c] by simp
      then show ?thesis by (simp add: codec_simps)
    qed
    have "reaches z st m (?b @ R)" using m(1) Some by (simp add: win_checksum_def)
    from read_cksum [OF this _ m(3) e _ m(4) len] have
      "reaches z st (m\<lparr>dec_cksum := ?b, dec_adler32 := c, dec_state := DEC_DATA\<rparr>) R"
      using m(2) Some by (simp add: headed_def indicator_bits b)
    moreover have "started w n (m\<lparr>dec_cksum := ?b, dec_adler32 := c, dec_state := DEC_DATA\<rparr>)"
      using m(2) Some by (simp add: started_def headed_def)
    ultimately show ?thesis by blast
  next
    case None
    have "reaches z st m R" using m(1) None by (simp add: win_checksum_def)
    from skip_cksum [OF this m(3) e _ len] have "reaches z st (m\<lparr>dec_state := DEC_DATA\<rparr>) R"
      using m(2) None by (simp add: headed_def indicator_bits)
    moreover have "started w n (m\<lparr>dec_state := DEC_DATA\<rparr>)" using m(2) None by (simp add: started_def headed_def)
    ultimately show ?thesis by blast
  qed
qed

end
