(* ===== verification/Xd3_Stream.thy ===== *)
theory Xd3_Stream
  imports Xd3_Header
begin

text \<open>
  One window from its header to its output, the sections coming in as the pieces of the patch bring them.
\<close>

section \<open>The sections\<close>

lemma filling_total: "filling d i a k s \<Longrightarrow> length d < 2 ^ 31 \<and> length i < 2 ^ 31 \<and> length a < 2 ^ 31 \<and> k \<le> length d + length i + length a \<and>
    sect_size (data_sect s) = of_nat (length d) \<and> sect_size (inst_sect s) = of_nat (length i) \<and> sect_size (addr_sect s) = of_nat (length a) \<and>
    dec_winbytes s = of_nat k"
  by (auto simp: filling_def sect_ok_def sect_full_def)

lemma sections_fill:
  assumes f: "filling d i a k s" and copy: "copy \<or> enough d i a k s"
  shows "fills d i a k s (let addr = xd3_decode_section ADDR_SECTION DEC_EMIT copy;
                   inst = (\<lambda>s. and_then (xd3_decode_section INST_SECTION DEC_ADDR copy s) addr);
                   data = (\<lambda>s. and_then (xd3_decode_section DATA_SECTION DEC_INST copy s) inst)
               in case dec_state s of DEC_DATA \<Rightarrow> data s | DEC_INST \<Rightarrow> inst s | DEC_ADDR \<Rightarrow> addr s | _ \<Rightarrow> Stop XD3_INVALID_INPUT s)"
proof -
  have w: "dec_winbytes s = of_nat k" using f by (simp add: filling_def)
  from f consider "dec_state s = DEC_DATA" "sect_ok d k (data_sect s)" "sect_ok i 0 (inst_sect s)" "sect_ok a 0 (addr_sect s)"
    | p where "dec_state s = DEC_INST" "k = length d + p" "sect_full d (data_sect s)" "sect_ok i p (inst_sect s)" "sect_ok a 0 (addr_sect s)"
    | p where "dec_state s = DEC_ADDR" "k = length d + length i + p" "sect_full d (data_sect s)" "sect_full i (inst_sect s)" "sect_ok a p (addr_sect s)"
    by (auto simp: filling_def)
  then show ?thesis
  proof cases
    case 1 then show ?thesis using data_fills [OF 1 w copy] by simp
  next
    case 2 then show ?thesis using inst_fills [OF 2(1, 3-5) 2(2) w copy] by simp
  next
    case 3 then show ?thesis using addr_fills [OF 3(1, 3-5) 3(2) w copy] by simp
  qed
qed

text \<open>The settings under which the sections of a window are used: no secondary compression, none of the flags that skip.\<close>

definition plain :: "xd3_stream \<Rightarrow> bool" where
  "plain s \<longleftrightarrow> \<not> bit (flags s) XD3_JUST_HDR \<and> \<not> bit (flags s) XD3_SKIP_WINDOW \<and> \<not> bit (flags s) XD3_SKIP_EMIT \<and> dec_del_ind s = 0 \<and>
     \<not> bit (dec_win_ind s) VCD_TARGET"

lemma plain_core: "plain (core s) = plain s"
  by (simp add: plain_def core_flag xd3_bits)

lemma frame_plain: "sect_frame s' = sect_frame s \<Longrightarrow> flags s' = flags s \<and> dec_del_ind s' = dec_del_ind s \<and> dec_win_ind s' = dec_win_ind s \<and>
    enc_state s' = enc_state s \<and> space_out s' = space_out s \<and> out_cap s' = out_cap s \<and> dec_tgtlen s' = dec_tgtlen s"
  by (drule arg_cong [of _ _ "\<lambda>s. (flags s, dec_del_ind s, dec_win_ind s, enc_state s, space_out s, out_cap s, dec_tgtlen s)"]) (simp add: sect_frame_def)

lemma decode_sections_call:
  assumes f: "filling d i a k s" and pl: "plain s"
  shows "\<lbrakk>next_in s = remains d i a k @ Y\<rbrakk> \<Longrightarrow>
      \<exists>s'. xd3_decode_sections z s = xd3_decode_setup_buffers s' \<and> filled d i a s' \<and> next_in s' = Y \<and> sect_frame s' = sect_frame s"
    and "\<lbrakk>remains d i a k = next_in s @ W; W \<noteq> []\<rbrakk> \<Longrightarrow>
      \<exists>s'. xd3_decode_sections z s = Stop XD3_INPUT s' \<and> filling d i a (k + length (next_in s)) s' \<and> next_in s' = [] \<and> sect_frame s' = sect_frame s"
proof -
  note t = filling_total [OF f]
  let ?N = "length d + length i + length a"
  let ?ni = "of_nat (length i) :: usize" and ?na = "of_nat (length a) :: usize" and ?nd = "of_nat (length d) :: usize"
  have u: "unat ?ni = length i" "unat ?na = length a" "unat ?nd = length d" "unat (of_nat (length i + length a) :: usize) = length i + length a"
    "unat (of_nat (?N - k) :: usize) = ?N - k"
    by (rule unat_word_of_nat_id, use t in \<open>simp, linarith?\<close>)+
  have ov: "\<not> USIZE_T_OVERFLOW ?ni ?na" "\<not> USIZE_T_OVERFLOW (?ni + ?na) ?nd"
  proof -
    show "\<not> USIZE_T_OVERFLOW ?ni ?na" using t by (simp add: usize_overflow u)
    have "?ni + ?na = of_nat (length i + length a)" by simp
    then show "\<not> USIZE_T_OVERFLOW (?ni + ?na) ?nd" using t by (simp only: usize_overflow u) simp
  qed
  have more: "unat (?ni + ?na + ?nd - of_nat k) = length (remains d i a k)"
  proof -
    have "?ni + ?na + ?nd - of_nat k = of_nat (?N - k)" using t by (simp add: of_nat_diff)
    then show ?thesis by (simp only: u) (simp add: remains_def)
  qed
  define copy where "copy = (min (length (remains d i a k)) (length (next_in s)) \<noteq> length (remains d i a k))"
  define r where "r = (let addr = xd3_decode_section ADDR_SECTION DEC_EMIT copy;
                   inst = (\<lambda>s. and_then (xd3_decode_section INST_SECTION DEC_ADDR copy s) addr);
                   data = (\<lambda>s. and_then (xd3_decode_section DATA_SECTION DEC_INST copy s) inst)
               in case dec_state s of DEC_DATA \<Rightarrow> data s | DEC_INST \<Rightarrow> inst s | DEC_ADDR \<Rightarrow> addr s | _ \<Rightarrow> Stop XD3_INVALID_INPUT s)"
  have call: "xd3_decode_sections z s = and_then r (\<lambda>s. and_then (xd3_decode_secondary_sections z s)
                 (\<lambda>s. if bit (flags s) XD3_SKIP_EMIT then xd3_decode_finish_window s else xd3_decode_setup_buffers s))"
  proof -
    have sz: "sect_size (data_sect s) = ?nd" "sect_size (inst_sect s) = ?ni" "sect_size (addr_sect s) = ?na" "dec_winbytes s = of_nat k" using t by simp_all
    show ?thesis
      using pl ov unfolding xd3_decode_sections_def r_def copy_def plain_def by (simp only: Let_def sz more if_False simp_thms)
  qed
  have r: "fills d i a k s r" if "copy \<or> enough d i a k s" unfolding r_def by (rule sections_fill [OF f that])
  show "\<exists>s'. xd3_decode_sections z s = xd3_decode_setup_buffers s' \<and> filled d i a s' \<and> next_in s' = Y \<and> sect_frame s' = sect_frame s"
    if Y: "next_in s = remains d i a k @ Y"
  proof -
    have "fills d i a k s r" using Y by (intro r) (auto simp: enough_def)
    then obtain s' where s': "r = Next s'" "filled d i a s'" "next_in s' = Y" "sect_frame s' = sect_frame s" using Y by (auto simp: fills_def)
    then have "xd3_decode_sections z s = xd3_decode_setup_buffers s'"
      using pl frame_plain [OF s'(4)] by (simp add: call plain_def xd3_decode_secondary_sections_def)
    then show ?thesis using s' by blast
  qed
  show "\<exists>s'. xd3_decode_sections z s = Stop XD3_INPUT s' \<and> filling d i a (k + length (next_in s)) s' \<and> next_in s' = [] \<and> sect_frame s' = sect_frame s"
    if W: "remains d i a k = next_in s @ W" "W \<noteq> []"
  proof -
    have "copy" using W by (simp add: copy_def)
    then have "fills d i a k s r" by (intro r) simp
    then obtain s' where s': "r = Stop XD3_INPUT s'" "filling d i a (k + length (next_in s)) s'" "next_in s' = []" "sect_frame s' = sect_frame s"
      using W unfolding fills_def by blast
    then show ?thesis by (auto simp: call)
  qed
qed

text \<open>The output buffer is as large as its recorded size.\<close>

definition buffer_ok :: "xd3_stream \<Rightarrow> bool" where
  "buffer_ok s \<longleftrightarrow> unat (space_out s) \<le> (case out_cap s of None \<Rightarrow> 0 | Some n \<Rightarrow> n)"

lemma setup_buffers:
  assumes "buffer_ok s" "dec_tgtlen s = of_nat n" "n < 2 ^ 31" "\<not> bit (dec_win_ind s) VCD_TARGET"
  obtains sp cap where "xd3_decode_setup_buffers s = Next (s\<lparr>space_out := sp, out_cap := cap\<rparr>)" "buffer_ok (s\<lparr>space_out := sp, out_cap := cap\<rparr>)" "n \<le> unat sp"
proof (cases "space_out s < dec_tgtlen s")
  case True
  let ?r = "xd3_round_blksize (of_nat n) XD3_ALLOCSIZE"
  have "n \<le> unat ?r \<and> unat ?r < 2 ^ 32" by (rule round_blksize_bound [OF assms(3) refl])
  then show ?thesis using True assms alloc_small [of ?r]
    by (intro that [of "Some (xd3_alloc ?r 1)" ?r]) (simp_all add: xd3_decode_setup_buffers_def buffer_ok_def Let_def)
next
  case False
  have "unat (of_nat n :: usize) = n" by (rule unat_word_of_nat_id) (use assms in simp)
  then show ?thesis using False assms
    by (intro that [of "out_cap s" "space_out s"]) (simp_all add: xd3_decode_setup_buffers_def word_less_nat_alt buffer_ok_def)
qed

text \<open>All that reading the sections does not change, whatever the pieces.\<close>

definition outer :: "xd3_stream \<Rightarrow> xd3_stream" where
  "outer s = (sect_frame (core s))\<lparr>space_out := 0, out_cap := None\<rparr>"

lemma outer_frame: "sect_frame s' = sect_frame s \<Longrightarrow> outer s' = outer s"
  and outer_core: "outer (core s) = outer s"
  and outer_buffers: "outer (s\<lparr>space_out := sp, out_cap := cap\<rparr>) = outer s"
proof -
  have *: "outer s = (core (sect_frame s))\<lparr>space_out := 0, out_cap := None\<rparr>" for s by (simp add: outer_def sect_frame_def core_def)
  show "sect_frame s' = sect_frame s \<Longrightarrow> outer s' = outer s" by (simp add: *)
  show "outer (core s) = outer s" by (simp add: outer_def core_def)
  show "outer (s\<lparr>space_out := sp, out_cap := cap\<rparr>) = outer s" by (simp add: outer_def sect_frame_def core_def)
qed

lemma outer_eqs:
  assumes "outer s = outer n"
  shows "enc_state s = enc_state n" "dec_win_ind s = dec_win_ind n" "dec_del_ind s = dec_del_ind n" "flags (core s) = flags (core n)"
    "dec_tgtlen s = dec_tgtlen n" "dec_cpylen s = dec_cpylen n" "dec_cpyoff s = dec_cpyoff n" "dec_position s = dec_position n"
    "dec_maxpos s = dec_maxpos n" "dec_adler32 s = dec_adler32 n" "dec_winstart s = dec_winstart n" "acache s = acache n"
    "code_table s = code_table n" "source s = source n" "next_out s = next_out n" "dec_current1 s = dec_current1 n" "dec_current2 s = dec_current2 n"
    "dec_64part s = dec_64part n"
proof -
  note eq = arg_cong [OF assms]
  show "enc_state s = enc_state n" "dec_win_ind s = dec_win_ind n" "dec_del_ind s = dec_del_ind n" "flags (core s) = flags (core n)"
    "dec_tgtlen s = dec_tgtlen n" "dec_cpylen s = dec_cpylen n" "dec_cpyoff s = dec_cpyoff n" "dec_position s = dec_position n"
    "dec_maxpos s = dec_maxpos n"
    using eq [of enc_state] eq [of dec_win_ind] eq [of dec_del_ind] eq [of flags] eq [of dec_tgtlen] eq [of dec_cpylen] eq [of dec_cpyoff]
      eq [of dec_position] eq [of dec_maxpos] by (simp_all add: outer_def sect_frame_def)
  show "dec_adler32 s = dec_adler32 n" "dec_winstart s = dec_winstart n" "acache s = acache n" "code_table s = code_table n" "source s = source n"
    "next_out s = next_out n" "dec_current1 s = dec_current1 n" "dec_current2 s = dec_current2 n" "dec_64part s = dec_64part n"
    using eq [of dec_adler32] eq [of dec_winstart] eq [of acache] eq [of code_table] eq [of source] eq [of next_out] eq [of dec_current1]
      eq [of dec_current2] eq [of dec_64part] by (simp_all add: outer_def sect_frame_def)
qed

lemma filling_core: "filling d i a k (core s) = filling d i a k s" and buffer_ok_core: "buffer_ok (core s) = buffer_ok s"
  and filled_core: "filled d i a (core s) = filled d i a s"
  by (simp_all add: filling_def filled_def buffer_ok_def)

lemma filling_calls: "filling d i a k s \<Longrightarrow> enc_state s = 0 \<Longrightarrow> xd3_decode_input z s = dec_sections z s"
  by (auto simp: filling_def xd3_decode_input_def)

text \<open>The decoder between two calls while the sections come in.\<close>

definition in_sections :: "bytes \<Rightarrow> bytes \<Rightarrow> bytes \<Rightarrow> nat \<Rightarrow> nat \<Rightarrow> xd3_stream \<Rightarrow> bool" where
  "in_sections d i a N k s \<longleftrightarrow> filling d i a k s \<and> plain s \<and> enc_state s = 0 \<and> buffer_ok s \<and> dec_tgtlen s = of_nat N"

lemma in_sections_core: "in_sections d i a N k (core s) = in_sections d i a N k s"
  by (simp add: in_sections_def filling_core plain_core buffer_ok_core)

lemma in_sections_whole:
  assumes s: "in_sections d i a N k s" "N < 2 ^ 31" and Y: "next_in s = remains d i a k @ Y"
  shows "\<exists>s'. xd3_decode_input z s = xd3_decode_input z s' \<and> filled d i a s' \<and> next_in s' = Y \<and> outer s' = outer s \<and> buffer_ok s' \<and> N \<le> unat (space_out s')"
proof -
  have f: "filling d i a k s" "plain s" "enc_state s = 0" using s by (simp_all add: in_sections_def)
  obtain s1 where s1: "xd3_decode_sections z s = xd3_decode_setup_buffers s1" "filled d i a s1" "next_in s1 = Y" "sect_frame s1 = sect_frame s"
    using decode_sections_call(1) [OF f(1, 2) Y] by blast
  note fr = frame_plain [OF s1(4)]
  have b: "buffer_ok s1" "dec_tgtlen s1 = of_nat N" "\<not> bit (dec_win_ind s1) VCD_TARGET"
    using fr s(1) by (auto simp: in_sections_def buffer_ok_def plain_def)
  obtain sp cap where bf: "xd3_decode_setup_buffers s1 = Next (s1\<lparr>space_out := sp, out_cap := cap\<rparr>)"
    "buffer_ok (s1\<lparr>space_out := sp, out_cap := cap\<rparr>)" "N \<le> unat sp"
    using setup_buffers [OF b(1, 2) s(2) b(3)] by blast
  let ?s = "s1\<lparr>space_out := sp, out_cap := cap\<rparr>"
  have "dec_state s1 = DEC_EMIT" using s1(2) by (simp add: filled_def)
  then have "xd3_decode_input z s = xd3_decode_input z ?s"
    using filling_calls [OF f(1, 3)] s1(1) bf(1) fr f(3) by (simp add: dec_sections_def xd3_decode_input_def)
  moreover have "filled d i a ?s" using s1(2) by (simp add: filled_def)
  moreover have "outer ?s = outer s" using outer_frame [OF s1(4)] by (simp add: outer_buffers)
  ultimately show ?thesis using bf s1(3) by (intro exI [of _ ?s]) simp
qed

lemma in_sections_part:
  assumes s: "in_sections d i a N k s" and W: "remains d i a k = next_in s @ W" "W \<noteq> []"
  shows "\<exists>s'. xd3_decode_input z s = Some (Stop XD3_INPUT s') \<and> in_sections d i a N (k + length (next_in s)) s' \<and> next_in s' = [] \<and> outer s' = outer s"
proof -
  have f: "filling d i a k s" "plain s" "enc_state s = 0" using s by (simp_all add: in_sections_def)
  obtain s1 where s1: "xd3_decode_sections z s = Stop XD3_INPUT s1" "filling d i a (k + length (next_in s)) s1" "next_in s1 = []" "sect_frame s1 = sect_frame s"
    using decode_sections_call(2) [OF f(1, 2) W] by blast
  have "in_sections d i a N (k + length (next_in s)) s1"
    using s s1(2) frame_plain [OF s1(4)] by (simp add: in_sections_def plain_def buffer_ok_def)
  then show ?thesis using filling_calls [OF f(1, 3)] s1 outer_frame [OF s1(4)] by (auto simp: dec_sections_def)
qed

lemma append_overlap:
  assumes "X @ Y = A @ B" obtains U where "X = A @ U" "B = U @ Y" | W where "A = X @ W" "Y = W @ B" "W \<noteq> []"
proof -
  from assms obtain U where "X = A @ U \<and> U @ Y = B \<or> X @ U = A \<and> Y = U @ B" by (auto simp: append_eq_append_conv2)
  then show ?thesis using that by (cases "U = []") auto
qed

lemma sections_read:
  assumes r: "reaches z st n (remains d i a k @ R)" and n: "in_sections d i a N k n" "N < 2 ^ 31"
  shows "\<exists>m. reaches z st m R \<and> filled d i a m \<and> outer m = outer n \<and> buffer_ok m \<and> N \<le> unat (space_out m)"
proof -
  from r obtain st1 where st1: "code_loop z st = code_loop z st1" "fed st1" "SrcFile st1 = SrcFile st" "OutFile st1 = OutFile st"
    "core (decoder st1) = n" "pending st1 = remains d i a k @ R" by (auto simp: reaches_def)
  then show ?thesis using n(1)
  proof (induction "length (srest (InFile st1))" arbitrary: st1 n k rule: less_induct)
    case less
    let ?s = "decoder st1" and ?Y = "srest (InFile st1)"
    have s: "in_sections d i a N k ?s" "outer ?s = outer n" using less.prems(5, 7) by (auto simp: in_sections_core outer_core)
    have P: "next_in ?s @ ?Y = remains d i a k @ R" using less.prems(6) by (simp add: pending_def)
    then consider Y where "next_in ?s = remains d i a k @ Y" "R = Y @ ?Y" | W where "remains d i a k = next_in ?s @ W" "?Y = W @ R" "W \<noteq> []"
      by (rule append_overlap)
    then show ?case
    proof cases
      case 1
      obtain s' where s': "xd3_decode_input z ?s = xd3_decode_input z s'" "filled d i a s'" "next_in s' = Y" "outer s' = outer ?s" "buffer_ok s'"
        "N \<le> unat (space_out s')" using in_sections_whole [OF s(1) n(2) 1(1)] by blast
      have "code_loop z st = code_loop z (st1\<lparr>decoder := s'\<rparr>)" using less.prems(1) code_loop_same [OF s'(1)] by simp
      then have "reaches z st (core s') R"
        using less.prems s'(3) 1(2) by (auto simp: reaches_def fed_def pending_def intro!: exI [of _ "st1\<lparr>decoder := s'\<rparr>"])
      then show ?thesis using s' s(2) by (intro exI [of _ "core s'"]) (simp add: filled_core outer_core buffer_ok_core)
    next
      case 2
      obtain s' where s': "xd3_decode_input z ?s = Some (Stop XD3_INPUT s')" "in_sections d i a N (k + length (next_in ?s)) s'" "next_in s' = []"
        "outer s' = outer ?s" using in_sections_part [OF s(1) 2(1, 3)] by blast
      have "?Y \<noteq> []" using 2 by simp
      then obtain st2 where st2: "code_loop z st1 = code_loop z st2" "fed st2" "SrcFile st2 = SrcFile st1" "OutFile st2 = OutFile st1"
        "core (decoder st2) = core s'" "pending st2 = ?Y" "length (srest (InFile st2)) < length ?Y"
        using refill [OF s'(1, 3) less.prems(2)] by metis
      have "remains d i a (k + length (next_in ?s)) = W"
      proof -
        have "remains d i a (k + length (next_in ?s)) = drop (length (next_in ?s)) (remains d i a k)" by (simp only: remains_def drop_drop add.commute)
        then show ?thesis using 2(1) by simp
      qed
      then have p: "pending st2 = remains d i a (k + length (next_in ?s)) @ R" using st2(6) 2(2) by simp
      have "\<exists>m. reaches z st m R \<and> filled d i a m \<and> outer m = outer (core s') \<and> buffer_ok m \<and> N \<le> unat (space_out m)"
        using less.hyps [OF st2(7) _ st2(2) _ _ st2(5) p] less.prems(1-4) st2(1-4) s'(2) by (simp add: in_sections_core)
      then show ?thesis using s'(4) s(2) by (simp add: outer_core)
    qed
  qed
qed

section \<open>One window\<close>

text \<open>The decoder between two windows, with \<open>tot\<close> bytes of the target made.\<close>

definition sect_idle :: "xd3_desect \<Rightarrow> bool" where
  "sect_idle d \<longleftrightarrow> cap_ok d \<and> sect_pos d = 0"

definition idle :: "bytes \<Rightarrow> nat \<Rightarrow> xd3_stream \<Rightarrow> bool" where
  "idle D tot n \<longleftrightarrow>
     dec_state n = DEC_WININD \<and> enc_state n = 0 \<and> dec_64part n = 0 \<and> code_table n = xd3_rfc3284_code_table \<and> s_near (acache n) = 4 \<and> s_same (acache n) = 3 \<and>
     (\<exists>src. source n = Some src \<and> block_view D src) \<and> at_hand n = [] \<and> next_out n = [] \<and> buffer_ok n \<and> dec_winbytes n = 0 \<and>
     sect_idle (data_sect n) \<and> sect_idle (inst_sect n) \<and> sect_idle (addr_sect n) \<and>
     \<not> bit (flags n) XD3_JUST_HDR \<and> \<not> bit (flags n) XD3_SKIP_WINDOW \<and> \<not> bit (flags n) XD3_SKIP_EMIT \<and> \<not> bit (flags n) XD3_ADLER32_NOVER \<and>
     unat (dec_winstart n) + unat (dec_tgtlen n) = tot"

lemma idle_core: "idle D tot (core n) = idle D tot n"
  by (simp add: idle_def buffer_ok_core core_flag xd3_bits at_hand_Nil)

lemma init_cache_vcd: "s_near c = 4 \<Longrightarrow> s_same c = 3 \<Longrightarrow> xd3_init_cache c = vcd_cache"
  by (cases c) (simp add: xd3_init_cache_def vcd_cache_def)

lemma vcd_cache_ok: "cache_ok vcd_cache" "s_near vcd_cache = 4" "s_same vcd_cache = 3"
  by (simp_all add: vcd_cache_def xd3_init_cache_def cache_ok_def)

lemma valid_segment:
  assumes "win_denotes D w"
  shows "length (win_source D w) = seg_len w" "win_source D w = take (seg_len w) (drop (seg_off w) D)" "seg_off w + seg_len w \<le> length D \<or> seg_len w = 0"
    "wsegment w = None \<longleftrightarrow> win_source D w = []" "wsegment w = None \<longrightarrow> seg_off w = 0"
  using assms by (auto simp: win_denotes_def win_source_def seg_len_def seg_off_def split: option.splits prod.splits)

lemma started_sections:
  assumes "idle D tot n" "started w n m" "win_denotes D w"
  shows "in_sections (wdata w) (winst w) (waddr w) (length (wtarget w)) 0 m"
proof -
  have "filling (wdata w) (winst w) (waddr w) 0 m"
    using assms by (simp add: idle_def started_def headed_def filling_def sect_ok_def sect_idle_def win_denotes_def cap_ok_def)
  then show ?thesis
    using assms by (simp add: in_sections_def idle_def started_def headed_def plain_def indicator_bits buffer_ok_def)
qed

text \<open>The first call in the state \<^const>\<open>DEC_EMIT\<close> sets the block position of the source segment.\<close>

definition placed :: "xd3_stream \<Rightarrow> xd3_stream" where
  "placed s = (if bit (dec_win_ind s) VCD_SOURCE
     then s\<lparr>source := map_option (\<lambda>src. let (b, o') = xd3_blksize_div (dec_cpyoff s) src in src\<lparr>cpyoff_blocks := b, cpyoff_blkoff := o'\<rparr>) (source s)\<rparr>
     else s)"

lemma placed_emit: "source s = Some src \<Longrightarrow> dec_emit_state s = dec_emit_state (placed s)"
  by (simp add: dec_emit_state_def placed_def xd3_blksize_div_def)

lemma vcd_windowE:
  assumes "vcd_window S d i a = Some T"
  obtains ops where "vcd_ops (i, a, vcd_cache, length S) = Some (ops, [])" "vcd_exec S ops (d, []) = Some ([], T)"
  using assms by (auto simp: vcd_window_def split: option.splits list.splits prod.splits)

lemma filled_emits:
  assumes n: "idle D tot n" "started w n m" "win_denotes D w" "length D < 2 ^ 31"
    and f: "filled (wdata w) (winst w) (waddr w) s" "outer s = outer m" "buffer_ok s" "length (wtarget w) \<le> unat (space_out s)"
  shows "\<exists>ops. emit_ready D (seg_off w) (win_source D w) (wtarget w) (placed s) ops"
proof -
  note o = outer_eqs [OF f(2)] and h = n(2) [unfolded started_def headed_def]
  note seg = valid_segment [OF n(3)]
  obtain src where src: "source n = Some src" "block_view D src" using n(1) by (auto simp: idle_def)
  let ?S = "win_source D w" and ?T = "wtarget w" and ?off = "seg_off w"
  have hand: "hop (current False (placed s)) = []" "hop (current True (placed s)) = []" "htype (current b (placed s)) = XD3_NOOP" for b
    using n(1) h o by (auto simp: idle_def at_hand_Nil hop_def current_def placed_def)
  have T: "length ?T \<le> 2 ^ 26" using n(3) by (simp add: win_denotes_def)
  obtain src' where src': "source (placed s) = Some src'" "source_view D ?off ?S src'"
  proof (cases "wsegment w")
    case None
    then show ?thesis using that [of src] src h o seg(4) by (simp add: placed_def indicator_bits source_view_def)
  next
    case (Some x)
    have "?off < 2 ^ 62" using seg(1, 3, 4) n(4) Some by auto
    then have "xd3_blksize_div (of_nat ?off) src = (of_nat (?off div 16384), of_nat (?off mod 16384))"
      using src(2) by (intro blksize_div) (simp_all add: block_view_def)
    then show ?thesis
      using that [of "src\<lparr>cpyoff_blocks := of_nat (?off div 16384), cpyoff_blkoff := of_nat (?off mod 16384)\<rparr>"] Some src h o
      by (simp add: placed_def indicator_bits source_view_def block_view_def)
  qed
  have ac: "acache m = vcd_cache" using h n(1) by (simp add: init_cache_vcd idle_def)
  have wv: "window_view D ?off ?S (length ?T) (placed s)"
  proof -
    have "length ?S + length ?T < 2 ^ 64" using seg(1, 3) T n(4) by auto
    moreover have "?S = take (length ?S) (drop ?off D)" using seg(1, 2) by metis
    moreover have "?S \<noteq> [] \<longrightarrow> ?off + length ?S \<le> length D" using seg(1, 3) by auto
    ultimately show ?thesis
      using n(1, 4) h o seg(1) f(3, 4) src' ac vcd_cache_ok
      by (simp add: window_view_def placed_def indicator_bits buffer_ok_def idle_def)
  qed
  obtain ops where ops: "vcd_ops (winst w, waddr w, vcd_cache, length ?S) = Some (ops, [])" "vcd_exec ?S ops (wdata w, []) = Some ([], ?T)"
  proof -
    have "vcd_window ?S (wdata w) (winst w) (waddr w) = Some ?T" using n(3) by (simp add: win_denotes_def)
    then show ?thesis by (rule vcd_windowE) (rule that)
  qed
  have "emits D ?off ?S (placed s) ops ?T"
    using wv ops hand f(1) h o n(1) ac seg(1)
    by (simp add: emits_def hop_size_def filled_def sect_full_def placed_def idle_def Let_def)
  moreover have "\<not> blocked ?off ?S (placed s)" using hand by (intro at_hand_Nil_blocked) (simp add: at_hand_def)
  moreover have "offset_set ?off ?S (placed s)"
    using h o seg(1, 3, 4) n(4) by (auto simp: offset_set_def placed_def indicator_bits)
  ultimately show ?thesis using f(1) h o n(1) by (auto simp: emit_ready_def placed_def filled_def idle_def)
qed

text \<open>After the output the decoder is back between two windows.\<close>

definition next_window :: "xd3_stream \<Rightarrow> xd3_stream" where
  "next_window s = s\<lparr>dec_lastlen := dec_tgtlen s, dec_laststart := dec_winstart s, dec_window_count := dec_window_count s + 1, dec_state := DEC_WININD\<rparr>"

lemma finish_call:
  "enc_state s = 0 \<Longrightarrow> \<not> bit (dec_win_ind s) VCD_TARGET \<Longrightarrow>
     xd3_decode_input z (xd3_consume_output (finish_window s)) = Some (Stop XD3_WINFINISH (next_window (xd3_consume_output (finish_window s))))"
  by (simp add: xd3_decode_input_def finish_window_def xd3_consume_output_def dec_finish_def next_window_def)

lemma emit_frame_eqs:
  assumes "emit_frame s' = emit_frame s"
  shows "dec_64part s' = dec_64part s" "dec_winstart s' = dec_winstart s" "(data_sect s')\<lparr>sect_buf := []\<rparr> = (data_sect s)\<lparr>sect_buf := []\<rparr>"
    "(inst_sect s')\<lparr>sect_buf := []\<rparr> = (inst_sect s)\<lparr>sect_buf := []\<rparr>" "(addr_sect s')\<lparr>sect_buf := []\<rparr> = (addr_sect s)\<lparr>sect_buf := []\<rparr>"
proof -
  note eq = arg_cong [OF assms]
  show "dec_64part s' = dec_64part s" "dec_winstart s' = dec_winstart s" "(data_sect s')\<lparr>sect_buf := []\<rparr> = (data_sect s)\<lparr>sect_buf := []\<rparr>"
    "(inst_sect s')\<lparr>sect_buf := []\<rparr> = (inst_sect s)\<lparr>sect_buf := []\<rparr>" "(addr_sect s')\<lparr>sect_buf := []\<rparr> = (addr_sect s)\<lparr>sect_buf := []\<rparr>"
    using eq [of dec_64part] eq [of dec_winstart] eq [of data_sect] eq [of inst_sect] eq [of addr_sect] by (simp_all add: emit_frame_def)
qed

lemma cap_ok_buf: "d\<lparr>sect_buf := []\<rparr> = d'\<lparr>sect_buf := []\<rparr> \<Longrightarrow> cap_ok d \<longleftrightarrow> cap_ok d'"
  by (drule arg_cong [of _ _ "\<lambda>d. (copied1 d, alloc1 d)"]) (simp add: cap_ok_def)

lemma window_done:
  assumes n: "idle D tot n" "started w n m" "win_denotes D w" "tot < 2 ^ 64" "length D < 2 ^ 31"
    and f: "filled (wdata w) (winst w) (waddr w) s" "outer s = outer m"
    and dn: "emit_done D off S (wtarget w) (placed s) s'"
  shows "idle D (tot + length (wtarget w)) (next_window (xd3_consume_output (finish_window s')))"
proof -
  have fr: "emit_frame s' = emit_frame (placed s)" using dn by (simp add: emit_done_def)
  note e = frame_fields [OF fr] emit_frame_eqs [OF fr] and o = outer_eqs [OF f(2)] and h = n(2) [unfolded started_def headed_def]
  have wv: "window_view D off S (length (wtarget w)) s'" "at_hand s' = []" using dn by (simp_all add: emit_done_def)
  have caps: "cap_ok (data_sect s')" "cap_ok (inst_sect s')" "cap_ok (addr_sect s')"
    using cap_ok_buf [OF e(11)] cap_ok_buf [OF e(12)] cap_ok_buf [OF e(13)] f(1) by (simp_all add: placed_def filled_def sect_full_def)
  have caps': "cap_ok ((data_sect s')\<lparr>sect_pos := 0\<rparr>)" "cap_ok ((inst_sect s')\<lparr>sect_pos := 0\<rparr>)" "cap_ok ((addr_sect s')\<lparr>sect_pos := 0\<rparr>)"
    using caps by (simp_all add: cap_ok_def)
  have tot: "unat (dec_winstart s') = tot"
  proof -
    have "dec_winstart s' = dec_winstart n + dec_tgtlen n" using e(10) o h by (simp add: placed_def)
    moreover have "unat (dec_winstart n) + unat (dec_tgtlen n) = tot" using n(1) by (simp add: idle_def)
    ultimately show ?thesis using n(4) by (simp add: unat_word_ariths)
  qed
  have len: "unat (dec_tgtlen s') = length (wtarget w)"
  proof -
    have "dec_tgtlen s' = of_nat (length (wtarget w))" using e(4) o h by (simp add: placed_def)
    moreover have "length (wtarget w) < 2 ^ LENGTH(64)" using n(3) by (simp add: win_denotes_def)
    ultimately show ?thesis by (simp only: unat_word_of_nat_id)
  qed
  have fl: "bit (flags s') k = bit (flags n) k" if "k \<noteq> 4" for k
  proof -
    have "bit (flags s') k = bit (flags (core s)) k" using that e(2) by (simp add: placed_def core_flag)
    also have "\<dots> = bit (flags (core m)) k" by (simp add: o)
    also have "\<dots> = bit (flags n) k" using h that by (simp add: core_flag)
    finally show ?thesis .
  qed
  have z: "enc_state s' = 0" "dec_64part s' = 0" using e(6, 9) o h n(1) by (simp_all add: placed_def idle_def)
  have v: "code_table s' = xd3_rfc3284_code_table" "s_near (acache s') = 4" "s_same (acache s') = 3" "\<exists>src. source s' = Some src \<and> block_view D src" "buffer_ok s'"
    using wv(1) by (auto simp: window_view_def buffer_ok_def source_view_def)
  have fl': "\<not> bit (flags s') XD3_JUST_HDR" "\<not> bit (flags s') XD3_SKIP_WINDOW" "\<not> bit (flags s') XD3_SKIP_EMIT" "\<not> bit (flags s') XD3_ADLER32_NOVER"
    using fl [of XD3_JUST_HDR] fl [of XD3_SKIP_WINDOW] fl [of XD3_SKIP_EMIT] fl [of XD3_ADLER32_NOVER] n(1) by (simp_all add: idle_def xd3_bits)
  show ?thesis
    using z v fl' caps' tot len wv(2)
    by (simp add: idle_def next_window_def xd3_consume_output_def finish_window_def sect_idle_def at_hand_def current_def buffer_ok_def)
qed

text \<open>From the header of a window to its output.\<close>

definition at_output :: "int \<Rightarrow> bytes \<Rightarrow> nat \<Rightarrow> vwin \<Rightarrow> bytes \<Rightarrow> code_state \<Rightarrow> code_state \<Rightarrow> xd3_stream \<Rightarrow> bool" where
  "at_output z D tot w R st st2 m \<longleftrightarrow> idle D tot (core (decoder st)) \<and> started w (core (decoder st)) m \<and> code_loop z st = code_loop z st2 \<and> fed st2 \<and>
     SrcFile st2 = SrcFile st \<and> OutFile st2 = OutFile st \<and> pending st2 = R \<and> filled (wdata w) (winst w) (waddr w) (decoder st2) \<and>
     outer (decoder st2) = outer m \<and> buffer_ok (decoder st2) \<and> length (wtarget w) \<le> unat (space_out (decoder st2))"

lemma window_front:
  assumes st: "idle D tot (decoder st)" "fed st" "pending st = win_front w @ R" and w: "win_denotes D w" "length D < 2 ^ 31" "tot < 2 ^ 64"
  shows "\<exists>m. reaches z st m R \<and> started w (core (decoder st)) m"
proof -
  let ?n = "core (decoder st)"
  have n: "idle D tot ?n" using st(1) by (simp add: idle_core)
  have seg: "seg_off w + seg_len w < 2 ^ 62" using w(1, 2) by (auto simp: win_denotes_def seg_len_def seg_off_def split: option.splits)
  have ov: "\<not> USIZE_T_OVERFLOW (dec_winstart ?n) (dec_tgtlen ?n)" using n w(3) by (simp add: idle_def usize_overflow)
  show ?thesis
    using window_header [OF reaches_refl [OF st(2), unfolded st(3)] _ _ _ ov seg] n w(1) by (auto simp: idle_def win_denotes_def)
qed

lemma window_at_output:
  assumes st: "idle D tot (decoder st)" "fed st" "pending st = win_bytes w @ R" and w: "win_denotes D w" "length D < 2 ^ 31" "tot < 2 ^ 64"
  shows "\<exists>st2 m. at_output z D tot w R st st2 m"
proof -
  have n: "idle D tot (core (decoder st))" using st(1) by (simp add: idle_core)
  have "pending st = win_front w @ win_sections w @ R" using st(3) by (simp add: win_bytes_def)
  then obtain m where m: "reaches z st m (win_sections w @ R)" "started w (core (decoder st)) m" using window_front [OF st(1, 2) _ w] by blast
  have sec: "reaches z st m (remains (wdata w) (winst w) (waddr w) 0 @ R)" using m(1) by (simp add: remains_def win_sections_def)
  have "length (wtarget w) < 2 ^ 31" using w(1) by (simp add: win_denotes_def)
  from sections_read [OF sec started_sections [OF n m(2) w(1)] this]
  obtain m2 where m2: "reaches z st m2 R" "filled (wdata w) (winst w) (waddr w) m2" "outer m2 = outer m" "buffer_ok m2"
    "length (wtarget w) \<le> unat (space_out m2)" by blast
  from m2(1) obtain st2 where st2: "code_loop z st = code_loop z st2" "fed st2" "SrcFile st2 = SrcFile st" "OutFile st2 = OutFile st"
    "core (decoder st2) = m2" "pending st2 = R" by (auto simp: reaches_def)
  then show ?thesis
    using m2 m(2) n by (intro exI [of _ st2] exI [of _ m]) (auto simp: at_output_def filled_core outer_core buffer_ok_core)
qed

lemma at_output_emits:
  assumes o: "at_output z D tot w R st st2 m" and f: "SrcFile st = Some f" "sdata f = D" and w: "win_denotes D w" "length D < 2 ^ 31"
  shows "\<exists>s' f'. code_loop z st =
      (if checksum_ok (wtarget w) (placed (decoder st2))
       then code_loop z (st2\<lparr>OutFile := fwrite (wtarget w) (OutFile st2), decoder := xd3_consume_output (finish_window s'), SrcFile := Some f'\<rparr>)
       else Some (Returned XD3_INVALID_INPUT (st2\<lparr>decoder := s', SrcFile := Some f'\<rparr>))) \<and>
    emit_done D (seg_off w) (win_source D w) (wtarget w) (placed (decoder st2)) s' \<and> sdata f' = D \<and> enc_state s' = 0 \<and>
    \<not> bit (dec_win_ind s') VCD_TARGET \<and> next_in s' = next_in (decoder st2)"
proof -
  let ?s = "decoder st2"
  note d = o [unfolded at_output_def]
  have s: "filled (wdata w) (winst w) (waddr w) ?s" "outer ?s = outer m" "buffer_ok ?s" "length (wtarget w) \<le> unat (space_out ?s)"
    and n: "idle D tot (core (decoder st))" "started w (core (decoder st)) m" using d by simp_all
  obtain ops where ready: "emit_ready D (seg_off w) (win_source D w) (wtarget w) (placed ?s) ops" using filled_emits [OF n w s] by blast
  have e0: "enc_state ?s = 0" "\<not> bit (dec_win_ind ?s) VCD_TARGET" "source ?s \<noteq> None"
    using outer_eqs [OF s(2)] n by (auto simp: started_def headed_def idle_def indicator_bits)
  then obtain src where "source ?s = Some src" by blast
  then have call: "xd3_decode_input z ?s = dec_emit_state (placed ?s)"
    using s(1) e0(1) placed_emit by (simp add: filled_def xd3_decode_input_def)
  have f2: "SrcFile st2 = Some f" using d f(1) by simp
  obtain s' f' where s': "code_loop z st2 =
      (if checksum_ok (wtarget w) (placed ?s)
       then code_loop z (st2\<lparr>OutFile := fwrite (wtarget w) (OutFile st2), decoder := xd3_consume_output (finish_window s'), SrcFile := Some f'\<rparr>)
       else Some (Returned XD3_INVALID_INPUT (st2\<lparr>decoder := s', SrcFile := Some f'\<rparr>)))"
    "emit_done D (seg_off w) (win_source D w) (wtarget w) (placed ?s) s'" "sdata f' = D"
    using code_emits [OF call ready f2 f(2)] by blast
  have fr: "emit_frame s' = emit_frame (placed ?s)" using s'(2) by (simp add: emit_done_def)
  have "enc_state s' = 0" "\<not> bit (dec_win_ind s') VCD_TARGET" "next_in s' = next_in ?s"
    using frame_fields [OF fr] e0 by (auto simp: placed_def)
  then show ?thesis using s' d by auto
qed

lemma checksum_valid:
  assumes o: "at_output z D tot w R st st2 m" and w: "win_denotes D w"
  shows "checksum_ok (wtarget w) (placed (decoder st2)) \<longleftrightarrow> win_valid D w"
proof -
  note d = o [unfolded at_output_def started_def headed_def]
  have e: "outer (decoder st2) = outer m" using d by simp
  have "bit (flags (decoder st2)) XD3_ADLER32_NOVER = bit (flags (core (decoder st2))) XD3_ADLER32_NOVER" by (simp add: core_flag xd3_bits)
  also have "\<dots> = bit (flags (core m)) XD3_ADLER32_NOVER" by (simp add: outer_eqs [OF e])
  also have "\<dots> = bit (flags (decoder st)) XD3_ADLER32_NOVER" using d by (simp add: core_flag xd3_bits)
  finally have nv2: "\<not> bit (flags (decoder st2)) XD3_ADLER32_NOVER" using d by (simp add: idle_def core_flag xd3_bits)
  have ind: "dec_win_ind (decoder st2) = ucast (win_indicator w)" and sum: "wsum w = Some c \<Longrightarrow> dec_adler32 (decoder st2) = c" for c
    using outer_eqs [OF e] d by simp_all
  then show ?thesis
    using w nv2 by (cases "wsum w") (auto simp: checksum_ok_def win_valid_def placed_def indicator_bits)
qed

text \<open>A valid window is put out and the decoder waits for the next one; if the checksum is wrong, the patcher stops with an error.\<close>

lemma window_runs:
  assumes st: "idle D tot (decoder st)" "fed st" "pending st = win_bytes w @ R" "SrcFile st = Some f" "sdata f = D"
    and w: "win_valid D w" "length D < 2 ^ 31" "tot < 2 ^ 64"
  shows "\<exists>st'. code_loop z st = code_loop z st' \<and> idle D (tot + length (wtarget w)) (decoder st') \<and> fed st' \<and> pending st' = R \<and>
    OutFile st' = fwrite (wtarget w) (OutFile st) \<and> (\<exists>f'. SrcFile st' = Some f' \<and> sdata f' = D)"
proof -
  have dn: "win_denotes D w" using w(1) by (simp add: win_valid_def)
  obtain st2 m where o: "at_output z D tot w R st st2 m" using window_at_output [OF st(1-3) dn w(2, 3)] by blast
  note d = o [unfolded at_output_def]
  have ck: "checksum_ok (wtarget w) (placed (decoder st2))" using checksum_valid [OF o dn] w(1) by simp
  obtain s' f' where s': "code_loop z st = code_loop z (st2\<lparr>OutFile := fwrite (wtarget w) (OutFile st2),
      decoder := xd3_consume_output (finish_window s'), SrcFile := Some f'\<rparr>)"
    "emit_done D (seg_off w) (win_source D w) (wtarget w) (placed (decoder st2)) s'" "sdata f' = D" "enc_state s' = 0"
    "\<not> bit (dec_win_ind s') VCD_TARGET" "next_in s' = next_in (decoder st2)"
    using at_output_emits [OF o st(4, 5) dn w(2)] ck by auto
  let ?st3 = "st2\<lparr>OutFile := fwrite (wtarget w) (OutFile st2), decoder := xd3_consume_output (finish_window s'), SrcFile := Some f'\<rparr>"
  let ?d = "next_window (xd3_consume_output (finish_window s'))"
  have "code_loop z ?st3 = code_loop z (?st3\<lparr>decoder := ?d\<rparr>)"
    using finish_call s'(4, 5) by (intro code_loop_notice [where r = XD3_WINFINISH]) simp_all
  then have run: "code_loop z st = code_loop z (?st3\<lparr>decoder := ?d\<rparr>)" using s'(1) by simp
  have "next_in ?d = next_in (decoder st2)" using s'(6) by (simp add: next_window_def xd3_consume_output_def finish_window_def)
  moreover have "idle D (tot + length (wtarget w)) ?d"
    using d by (intro window_done [OF _ _ dn w(3, 2) _ _ s'(2), where n = "core (decoder st)" and m = m]) simp_all
  ultimately show ?thesis
    using run s'(3) d by (intro exI [of _ "?st3\<lparr>decoder := ?d\<rparr>"]) (simp add: fed_def pending_def)
qed

lemma window_refused:
  assumes st: "idle D tot (decoder st)" "fed st" "pending st = win_bytes w @ R" "SrcFile st = Some f" "sdata f = D"
    and w: "win_denotes D w" "\<not> win_valid D w" "length D < 2 ^ 31" "tot < 2 ^ 64"
  shows "\<exists>st'. code_loop z st = Some (Returned XD3_INVALID_INPUT st') \<and> OutFile st' = OutFile st"
proof -
  obtain st2 m where o: "at_output z D tot w R st st2 m" using window_at_output [OF st(1-3) w(1, 3, 4)] by blast
  have "\<not> checksum_ok (wtarget w) (placed (decoder st2))" using checksum_valid [OF o w(1)] w(2) by simp
  then show ?thesis using at_output_emits [OF o st(4, 5) w(1, 3)] o [unfolded at_output_def] by auto
qed

text \<open>A patch that ends inside the sections of a window.\<close>

lemma sections_cut:
  assumes r: "reaches z st n P" and n: "in_sections d i a N k n" and P: "remains d i a k = P @ W" "W \<noteq> []"
  shows "\<exists>st'. code_loop z st = Some (Returned 0 st') \<and> OutFile st' = OutFile st \<and> dec_state (decoder st') \<in> {DEC_DATA, DEC_INST, DEC_ADDR}"
proof -
  from r obtain st1 where st1: "code_loop z st = code_loop z st1" "fed st1" "SrcFile st1 = SrcFile st" "OutFile st1 = OutFile st"
    "core (decoder st1) = n" "pending st1 = P" by (auto simp: reaches_def)
  then show ?thesis using n P(1)
  proof (induction "2 * length (srest (InFile st1)) + (if Input_Buf_Read st1 = BufSize then 1 else 0)" arbitrary: st1 n k P rule: less_induct)
    case less
    let ?s = "decoder st1" and ?Y = "srest (InFile st1)"
    have s: "in_sections d i a N k ?s" using less.prems(5, 7) by (auto simp: in_sections_core)
    have P': "P = next_in ?s @ ?Y" using less.prems(6) by (simp add: pending_def)
    obtain s' where s': "xd3_decode_input z ?s = Some (Stop XD3_INPUT s')" "in_sections d i a N (k + length (next_in ?s)) s'" "next_in s' = []"
      using in_sections_part [OF s, of "?Y @ W"] less.prems(8) P' P(2) by auto
    show ?case
    proof (cases "Input_Buf_Read st1 = BufSize")
      case False
      then have "code_loop z st1 = Some (Returned 0 (st1\<lparr>decoder := s'\<rparr>))" by (rule code_loop_end [OF s'(1)])
      then show ?thesis using less.prems(1, 4) s'(2) by (auto simp: in_sections_def filling_def)
    next
      case True
      let ?st2 = "read_input (st1\<lparr>decoder := s'\<rparr>)"
      have run: "code_loop z st = code_loop z ?st2" using less.prems(1) code_loop_refill [OF s'(1) True] by simp
      have pend: "pending ?st2 = ?Y" using s'(3) by (subst read_input_view) (simp_all add: pending_def)
      have smaller: "2 * length (srest (InFile ?st2)) + (if Input_Buf_Read ?st2 = BufSize then 1 else 0) < 2 * length ?Y + (if Input_Buf_Read st1 = BufSize then 1 else 0)"
        using True by (auto simp: read_input_view BufSize_def)
      have "remains d i a (k + length (next_in ?s)) = ?Y @ W"
      proof -
        have "remains d i a (k + length (next_in ?s)) = drop (length (next_in ?s)) (remains d i a k)" by (simp only: remains_def drop_drop add.commute)
        then show ?thesis using less.prems(8) P' by simp
      qed
      then show ?thesis
        using less.hyps [OF smaller run _ _ _ refl pend] less.prems(3, 4) s'(2) by (simp add: read_input_view in_sections_core)
    qed
  qed
qed

lemma window_cut:
  assumes st: "idle D tot (decoder st)" "fed st" "pending st = win_front w @ P" "win_sections w = P @ W" "W \<noteq> []"
    and w: "win_denotes D w" "length D < 2 ^ 31" "tot < 2 ^ 64"
  shows "\<exists>st'. code_loop z st = Some (Returned 0 st') \<and> OutFile st' = OutFile st \<and> dec_state (decoder st') \<in> {DEC_DATA, DEC_INST, DEC_ADDR}"
proof -
  have n: "idle D tot (core (decoder st))" using st(1) by (simp add: idle_core)
  obtain m where m: "reaches z st m P" "started w (core (decoder st)) m" using window_front [OF st(1-3) w] by blast
  have "remains (wdata w) (winst w) (waddr w) 0 = P @ W" using st(4) by (simp add: remains_def win_sections_def)
  then show ?thesis by (rule sections_cut [OF m(1) started_sections [OF n m(2) w(1)] _ st(5)])
qed

end
