(* ===== verification/Xd3_File.thy ===== *)
theory Xd3_File
  imports Xd3_Stream
begin

text \<open>
  Whole patches: the header of the file, the windows one after the other, the end of the patch, and the entry point.
\<close>

section \<open>The format\<close>

definition app_indicator :: "bytes option \<Rightarrow> byte" where
  "app_indicator app = (if app = None then 0 else 4)"

definition app_bytes :: "bytes option \<Rightarrow> bytes" where
  "app_bytes app = (case app of None \<Rightarrow> [] | Some h \<Rightarrow> vcd_number (length h) @ h)"

definition app_valid :: "bytes option \<Rightarrow> bool" where
  "app_valid app \<longleftrightarrow> (case app of None \<Rightarrow> True | Some h \<Rightarrow> length h < 2 ^ 31)"

definition vcd_head :: "bytes option \<Rightarrow> bytes" where
  "vcd_head app = VCDIFF_MAGIC @ 0 # app_indicator app # app_bytes app"

text \<open>A patch: an optional application header, and the windows.\<close>

definition vcd_patch :: "bytes option \<Rightarrow> vwin list \<Rightarrow> bytes" where
  "vcd_patch app ws = vcd_head app @ concat (map win_bytes ws)"

definition vcd_target :: "vwin list \<Rightarrow> bytes" where
  "vcd_target ws = concat (map wtarget ws)"

section \<open>The fields\<close>

lemma dec_head_input [simp]:
  "enc_state s = 0 \<Longrightarrow> dec_state s = DEC_VCHEAD \<Longrightarrow> xd3_decode_input z s = Some (dec_vchead s)"
  "enc_state s = 0 \<Longrightarrow> dec_state s = DEC_HDRIND \<Longrightarrow> xd3_decode_input z s = Some (dec_hdrind s)"
  "enc_state s = 0 \<Longrightarrow> dec_state s = DEC_SECONDID \<Longrightarrow> xd3_decode_input z s = Some (dec_secondid_state s)"
  "enc_state s = 0 \<Longrightarrow> dec_state s = DEC_APPLEN \<Longrightarrow> xd3_decode_input z s = Some (dec_applen s)"
  "enc_state s = 0 \<Longrightarrow> dec_state s = DEC_APPDAT \<Longrightarrow> xd3_decode_input z s = Some (dec_appdat s)"
  by (simp_all add: xd3_decode_input_def)

lemma read_vchead:
  assumes r: "reaches z st n (VCDIFF_MAGIC @ 0 # R)" and n: "dec_state n = DEC_VCHEAD" "enc_state n = 0" "dec_magic n = []"
  shows "reaches z st (n\<lparr>dec_magic := VCDIFF_MAGIC @ [0], dec_state := DEC_HDRIND\<rparr>) R"
proof (rule bytes_field [where n = "\<lambda>p. n\<lparr>dec_magic := p\<rparr>" and b = "VCDIFF_MAGIC @ [0]" and l = 4])
  have "n\<lparr>dec_magic := []\<rparr> = n" using n(3) by (metis xd3_stream.surjective xd3_stream.update_convs(16))
  then show "reaches z st (n\<lparr>dec_magic := []\<rparr>) ((VCDIFF_MAGIC @ [0]) @ R)" using r by simp
  show "length (VCDIFF_MAGIC @ [0]) = 4" by (simp add: VCDIFF_MAGIC_def)
  fix s p assume s: "core s = n\<lparr>dec_magic := p\<rparr>"
  have call: "xd3_decode_input z s = Some (dec_vchead s)" using core_eqs [OF s] by (simp add: n)
  show "dec_magic s = p" using core_eqs [OF s] by simp
  show "reads_then z s (xd3_decode_bytes dec_magic (\<lambda>b. dec_magic_update (\<lambda>_. b)) 4) (n\<lparr>dec_magic := VCDIFF_MAGIC @ [0]\<rparr>)
     (\<lambda>s. s\<lparr>dec_state := DEC_HDRIND\<rparr>) (n\<lparr>dec_magic := VCDIFF_MAGIC @ [0], dec_state := DEC_HDRIND\<rparr>)"
    by (rule reads_thenI, rule call [unfolded dec_vchead_def], ((frule core_eqs)?, simp add: n VCDIFF_MAGIC_def)+)
qed simp_all

lemma read_hdrind:
  assumes r: "reaches z st n (b # R)" and n: "dec_state n = DEC_HDRIND" "enc_state n = 0" and b: "(ucast b :: usize) AND VCD_INV = 0"
  shows "reaches z st (n\<lparr>dec_hdr_ind := ucast b, dec_state := DEC_SECONDID\<rparr>) R"
proof (rule byte_field [OF r, where put = "\<lambda>n. n\<lparr>dec_hdr_ind := ucast b\<rparr>"])
  fix s assume s: "core s = n"
  have call: "xd3_decode_input z s = Some (dec_hdrind s)" using core_eqs [OF s] by (simp add: n)
  show "reads_then z s (xd3_decode_byte (\<lambda>v. dec_hdr_ind_update (\<lambda>_. v))) (n\<lparr>dec_hdr_ind := ucast b\<rparr>)
     (\<lambda>s. s\<lparr>dec_state := DEC_SECONDID\<rparr>) (n\<lparr>dec_hdr_ind := ucast b, dec_state := DEC_SECONDID\<rparr>)"
    by (rule reads_thenI, rule call [unfolded dec_hdrind_def], ((frule core_eqs)?, simp add: n b)+)
qed simp

lemma pass_tables:
  assumes r: "reaches z st n P" and n: "dec_state n = DEC_SECONDID" "enc_state n = 0" "\<not> bit (dec_hdr_ind n) VCD_SECONDARY" "\<not> bit (dec_hdr_ind n) VCD_CODETABLE"
  shows "reaches z st (n\<lparr>acache := (acache n)\<lparr>s_near := 4, s_same := 3, near_array := [], same_array := []\<rparr>,
    code_table := xd3_rfc3284_code_table, dec_state := DEC_APPLEN\<rparr>) P"
proof (rule reaches_step [OF r])
  fix s assume s: "core s = n"
  let ?s = "s\<lparr>acache := (acache n)\<lparr>s_near := 4, s_same := 3, near_array := [], same_array := []\<rparr>,
    code_table := xd3_rfc3284_code_table, dec_state := DEC_APPLEN\<rparr>"
  have "near_modes rfc3284_code_table_desc = 4" "same_modes rfc3284_code_table_desc = 3" by (simp_all add: rfc3284_code_table_desc_def)
  then have "xd3_decode_input z s = xd3_decode_input z ?s"
    using core_eqs [OF s] by (simp add: n dec_secondid_state_def dec_tablen_def dec_near_def dec_same_def dec_tabdat_def SIZE_CASE_def BYTE_CASE_def xd3_alloc_cache_def)
  then show "\<exists>s'. goes_on z (xd3_decode_input z s) s' \<and> core s' = n\<lparr>acache := (acache n)\<lparr>s_near := 4, s_same := 3, near_array := [], same_array := []\<rparr>,
    code_table := xd3_rfc3284_code_table, dec_state := DEC_APPLEN\<rparr> \<and> next_in s' = next_in s"
    using s by (intro exI [of _ ?s]) simp
qed

lemma skip_app:
  assumes r: "reaches z st n P" and n: "dec_state n = DEC_APPLEN" "enc_state n = 0" "\<not> bit (dec_hdr_ind n) VCD_APPHEADER"
  shows "reaches z st (n\<lparr>dec_state := DEC_WININD\<rparr>) P"
proof (rule reaches_step [OF r])
  fix s assume s: "core s = n"
  let ?s = "s\<lparr>dec_hdrsize := total_in s, dec_state := DEC_WININD\<rparr>"
  have "xd3_decode_input z s = xd3_decode_input z ?s"
    using core_eqs [OF s] by (simp add: n dec_applen_def dec_appdat_def SIZE_CASE_def)
  then show "\<exists>s'. goes_on z (xd3_decode_input z s) s' \<and> core s' = n\<lparr>dec_state := DEC_WININD\<rparr> \<and> next_in s' = next_in s"
    using s by (intro exI [of _ ?s]) simp
qed

lemma read_applen:
  assumes r: "reaches z st n (vcd_number l @ R)" "dec_64part n = 0" and n: "dec_state n = DEC_APPLEN" "enc_state n = 0" "bit (dec_hdr_ind n) VCD_APPHEADER"
  shows "reaches z st (n\<lparr>dec_appheadsz := of_nat l, dec_state := DEC_APPDAT\<rparr>) R"
proof (rule size_field [OF r [unfolded vcd_number_def], where put = "\<lambda>n. n\<lparr>dec_appheadsz := of_nat l\<rparr>"])
  fix s p assume s: "core s = n\<lparr>dec_64part := p\<rparr>"
  have call: "xd3_decode_input z s = Some (and_then (xd3_decode_size (\<lambda>v. dec_appheadsz_update (\<lambda>_. v)) s) (\<lambda>s. dec_appdat (s\<lparr>dec_state := DEC_APPDAT\<rparr>)))"
    using core_eqs [OF s] by (simp add: n dec_applen_def SIZE_CASE_def and_then_assoc)
  show "reads_then z s (xd3_decode_size (\<lambda>v. dec_appheadsz_update (\<lambda>_. v))) (n\<lparr>dec_appheadsz := of_nat l\<rparr>)
     (\<lambda>s. s\<lparr>dec_state := DEC_APPDAT\<rparr>) (n\<lparr>dec_appheadsz := of_nat l, dec_state := DEC_APPDAT\<rparr>)"
    by (rule reads_thenI, rule call, ((frule core_eqs)?, simp add: n)+)
qed simp

lemma read_appdat:
  assumes r: "reaches z st n (h @ R)" and n: "dec_state n = DEC_APPDAT" "enc_state n = 0" "bit (dec_hdr_ind n) VCD_APPHEADER" "dec_appheader n = None"
    "dec_appheadsz n = of_nat (length h)" and h: "length h < 2 ^ 31"
  shows "\<exists>a. reaches z st (n\<lparr>dec_appheader := a, dec_state := DEC_WININD\<rparr>) R"
proof -
  have hl: "unat (of_nat (length h) :: usize) = length h" by (rule unat_word_of_nat_id) (use h in simp)
  have ov: "\<not> USIZE_T_OVERFLOW (of_nat (length h)) 1" using h by (simp add: usize_overflow hl)
  define cap where "cap = xd3_alloc (of_nat (length h) + 1) 1"
  have cap: "length h < cap"
  proof -
    have "unat (of_nat (Suc (length h)) :: usize) = Suc (length h)" by (rule unat_word_of_nat_id) (use h in simp)
    moreover have "(of_nat (length h) + 1 :: usize) = of_nat (Suc (length h))" by simp
    ultimately show ?thesis using h alloc_small [of "of_nat (Suc (length h))"] by (simp only: cap_def) simp
  qed
  have r1: "reaches z st (n\<lparr>dec_appheader := Some (cap, [])\<rparr>) (h @ R)"
  proof (rule reaches_step [OF r])
    fix s assume s: "core s = n"
    have "xd3_decode_input z s = xd3_decode_input z (s\<lparr>dec_appheader := Some (cap, [])\<rparr>)"
      using core_eqs [OF s] by (simp add: n ov dec_appdat_def cap_def)
    then show "\<exists>s'. goes_on z (xd3_decode_input z s) s' \<and> core s' = n\<lparr>dec_appheader := Some (cap, [])\<rparr> \<and> next_in s' = next_in s"
      using s by (intro exI [of _ "s\<lparr>dec_appheader := Some (cap, [])\<rparr>"]) simp
  qed
  have "reaches z st (n\<lparr>dec_appheader := Some (cap, h), dec_state := DEC_WININD\<rparr>) R"
  proof (rule bytes_field [where n = "\<lambda>p. n\<lparr>dec_appheader := Some (cap, p)\<rparr>" and b = h and l = "length h" and has = "\<lambda>s. snd (the (dec_appheader s))"
      and store = "\<lambda>b. dec_appheader_update (\<lambda>_. Some (cap, b))", OF r1])
    fix s p assume s: "core s = n\<lparr>dec_appheader := Some (cap, p)\<rparr>"
    show "snd (the (dec_appheader s)) = p" using core_eqs [OF s] by simp
    have call: "xd3_decode_input z s = Some (and_then (xd3_decode_bytes (\<lambda>s. snd (the (dec_appheader s))) (\<lambda>b. dec_appheader_update (\<lambda>_. Some (cap, b))) (length h) s)
        (\<lambda>s. dec_winind (s\<lparr>dec_hdrsize := total_in s, dec_state := DEC_WININD\<rparr>)))"
      using core_eqs [OF s] ov cap by (simp add: n dec_appdat_def hl)
    show "reads_then z s (xd3_decode_bytes (\<lambda>s. snd (the (dec_appheader s))) (\<lambda>b. dec_appheader_update (\<lambda>_. Some (cap, b))) (length h))
       (n\<lparr>dec_appheader := Some (cap, h)\<rparr>) (\<lambda>s. s\<lparr>dec_hdrsize := total_in s, dec_state := DEC_WININD\<rparr>)
       (n\<lparr>dec_appheader := Some (cap, h), dec_state := DEC_WININD\<rparr>)"
      by (rule reads_thenI, rule call, ((frule core_eqs)?, simp add: n)+)
  qed simp_all
  then show ?thesis by blast
qed

section \<open>The header of the file\<close>

text \<open>The decoder as it is opened on a source.\<close>

definition opened :: "bytes \<Rightarrow> xd3_stream \<Rightarrow> bool" where
  "opened D n \<longleftrightarrow> (\<exists>src. n = core ((xd3_config_stream (push_bit XD3_ADLER32 1))\<lparr>source := Some src\<rparr>) \<and> block_view D src)"

lemma opened_fields:
  "opened D n \<Longrightarrow> dec_state n = DEC_VCHEAD \<and> enc_state n = 0 \<and> dec_magic n = [] \<and> dec_64part n = 0 \<and> dec_appheader n = None"
  by (auto simp: opened_def xd3_config_stream_def)

lemma opened_idle:
  assumes "opened D n"
  shows "idle D 0 (n\<lparr>dec_magic := mg, dec_hdr_ind := hi, acache := (acache n)\<lparr>s_near := 4, s_same := 3, near_array := [], same_array := []\<rparr>,
    code_table := xd3_rfc3284_code_table, dec_appheadsz := az, dec_appheader := ah, dec_state := DEC_WININD\<rparr>)"
proof -
  obtain src where src: "n = core ((xd3_config_stream (push_bit XD3_ADLER32 1))\<lparr>source := Some src\<rparr>)" "block_view D src"
    using assms by (auto simp: opened_def)
  have "\<not> bit (flags n) k" if "k \<in> {1, 2, 3, 11}" for k
    using that by (auto simp: src(1) core_flag xd3_config_stream_def xd3_bits bit_push_bit_iff)
  then show ?thesis
    using src(2) by (simp add: src(1) idle_def xd3_config_stream_def at_hand_Nil empty_hinst_def buffer_ok_def sect_idle_def empty_sect_def cap_ok_def xd3_bits)
qed

lemma file_header:
  assumes r: "reaches z st n (vcd_head app @ R)" and n: "opened D n" and app: "app_valid app"
  shows "\<exists>m. reaches z st m R \<and> idle D 0 m"
proof -
  have o: "dec_state n = DEC_VCHEAD" "enc_state n = 0" "dec_magic n = []" "dec_64part n = 0" "dec_appheader n = None"
    using opened_fields [OF n] by simp_all
  let ?b = "ucast (app_indicator app) :: usize"
  have b: "?b AND VCD_INV = 0" "\<not> bit ?b VCD_SECONDARY" "\<not> bit ?b VCD_CODETABLE" "bit ?b VCD_APPHEADER \<longleftrightarrow> app \<noteq> None"
    by (simp_all add: VCD_INV_def xd3_bits app_indicator_def)
  have rest: "vcd_head app @ R = VCDIFF_MAGIC @ 0 # app_indicator app # app_bytes app @ R" by (simp add: vcd_head_def)
  note n1 = read_vchead [OF r [unfolded rest] o(1-3)]
  note n2 = read_hdrind [OF n1, simplified, OF o(2) b(1)]
  note n3 = pass_tables [OF n2, simplified, OF o(2) b(2, 3)]
  show ?thesis
  proof (cases app)
    case None
    then have no: "\<not> bit ?b VCD_APPHEADER" using b(4) by simp
    let ?m = "n\<lparr>dec_magic := VCDIFF_MAGIC @ [0], dec_hdr_ind := ?b, acache := (acache n)\<lparr>s_near := 4, s_same := 3, near_array := [], same_array := []\<rparr>,
      code_table := xd3_rfc3284_code_table, dec_appheadsz := dec_appheadsz n, dec_appheader := dec_appheader n, dec_state := DEC_WININD\<rparr>"
    have "reaches z st ?m (app_bytes app @ R)"
      by (rule reaches_eq [OF skip_app [OF n3, simplified, OF o(2) no]]) simp
    then have "reaches z st ?m R" using None by (simp add: app_bytes_def)
    then show ?thesis using opened_idle [OF n] by blast
  next
    case (Some h)
    then have yes: "bit ?b VCD_APPHEADER" using b(4) by simp
    have bytes: "app_bytes app @ R = vcd_number (length h) @ h @ R" using Some by (simp add: app_bytes_def)
    note n4 = read_applen [OF n3 [unfolded bytes], simplified, OF o(4, 2) yes]
    obtain a where n5: "reaches z st (n\<lparr>dec_magic := VCDIFF_MAGIC @ [0], dec_hdr_ind := ?b,
        acache := (acache n)\<lparr>s_near := 4, s_same := 3, near_array := [], same_array := []\<rparr>, code_table := xd3_rfc3284_code_table,
        dec_appheadsz := of_nat (length h), dec_state := DEC_APPDAT\<rparr>\<lparr>dec_appheader := a, dec_state := DEC_WININD\<rparr>) R"
      using read_appdat [OF n4] o yes app Some by (auto simp: app_valid_def)
    let ?m = "n\<lparr>dec_magic := VCDIFF_MAGIC @ [0], dec_hdr_ind := ?b, acache := (acache n)\<lparr>s_near := 4, s_same := 3, near_array := [], same_array := []\<rparr>,
      code_table := xd3_rfc3284_code_table, dec_appheadsz := of_nat (length h), dec_appheader := a, dec_state := DEC_WININD\<rparr>"
    have "reaches z st ?m R" by (rule reaches_eq [OF n5]) simp
    then show ?thesis using opened_idle [OF n] by blast
  qed
qed

section \<open>The windows and the end of the patch\<close>

lemma windows_run:
  assumes "idle D tot (decoder st)" "fed st" "pending st = concat (map win_bytes ws) @ R" "SrcFile st = Some f" "sdata f = D"
    and "\<forall>w \<in> set ws. win_valid D w" "length D < 2 ^ 31" "tot + length (vcd_target ws) < 2 ^ 64"
  shows "\<exists>st'. code_loop z st = code_loop z st' \<and> idle D (tot + length (vcd_target ws)) (decoder st') \<and> fed st' \<and> pending st' = R \<and>
    OutFile st' = fwrite (vcd_target ws) (OutFile st) \<and> (\<exists>f'. SrcFile st' = Some f' \<and> sdata f' = D)"
  using assms
proof (induction ws arbitrary: st tot f)
  case Nil
  then show ?case by (intro exI [of _ st]) (simp add: vcd_target_def stdio_simps)
next
  case (Cons w ws)
  obtain st1 f1 where st1: "code_loop z st = code_loop z st1" "idle D (tot + length (wtarget w)) (decoder st1)" "fed st1"
    "pending st1 = concat (map win_bytes ws) @ R" "OutFile st1 = fwrite (wtarget w) (OutFile st)" "SrcFile st1 = Some f1" "sdata f1 = D"
    using window_runs [of D tot st w "concat (map win_bytes ws) @ R" f z] Cons.prems by (auto simp: vcd_target_def)
  have "tot + length (wtarget w) + length (vcd_target ws) < 2 ^ 64" using Cons.prems(8) by (simp add: vcd_target_def)
  from Cons.IH [OF st1(2-4, 6, 7) _ Cons.prems(7) this] Cons.prems(6)
  obtain st2 where "code_loop z st1 = code_loop z st2" "idle D (tot + length (wtarget w) + length (vcd_target ws)) (decoder st2)" "fed st2" "pending st2 = R"
    "OutFile st2 = fwrite (vcd_target ws) (OutFile st1)" "\<exists>f'. SrcFile st2 = Some f' \<and> sdata f' = D" by auto
  then show ?case using st1(1, 5) by (intro exI [of _ st2]) (simp add: vcd_target_def stdio_simps add.assoc)
qed

text \<open>Whatever the state, a decoder that waits for input at the end of the file ends the run with 0.\<close>

lemma patch_end:
  assumes "idle D tot (decoder st)" "fed st" "pending st = []"
  shows "\<exists>st'. code_loop z st = Some (Returned 0 st') \<and> OutFile st' = OutFile st"
proof -
  have wait: "xd3_decode_input z s = Some (Stop XD3_INPUT s)" if "dec_state s = DEC_WININD" "enc_state s = 0" "next_in s = []" for s
    using that by (simp add: dec_winind_def xd3_decode_byte_def)
  have s: "dec_state (decoder st) = DEC_WININD" "enc_state (decoder st) = 0" "next_in (decoder st) = []" "srest (InFile st) = []"
    using assms by (simp_all add: idle_def pending_def)
  show ?thesis
  proof (cases "Input_Buf_Read st = BufSize")
    case False
    then show ?thesis using code_loop_end [OF wait [OF s(1-3)] False] by auto
  next
    case True
    let ?st = "read_input st"
    have run: "code_loop z st = code_loop z ?st" using code_loop_refill [OF wait [OF s(1-3)] True] by simp
    have "dec_state (decoder ?st) = DEC_WININD" "enc_state (decoder ?st) = 0"
      using arg_cong [OF read_input_view(1) [of st], of dec_state] arg_cong [OF read_input_view(1) [of st], of enc_state] s by simp_all
    moreover have "next_in (decoder ?st) = []" using read_input_view(5) [of st] s by (simp add: pending_def)
    ultimately have "code_loop z ?st = Some (Returned 0 (?st\<lparr>decoder := decoder ?st\<rparr>))"
      using s(4) by (intro code_loop_end wait) (simp_all add: read_input_view BufSize_def)
    then show ?thesis using run by (auto simp: read_input_view)
  qed
qed

section \<open>Opening\<close>

lemma roundup_1: "roundup_loop 0 1 = Some 1"
  by (subst roundup_loop.simps) simp

lemma pow2_16384: "xd3_check_pow2 16384 = (0, 14)"
  by code_simp

lemma pow2_0: "fst (xd3_check_pow2 0) \<noteq> 0"
  by code_simp

lemma open_source_opened:
  "\<exists>s f. open_source junk (Some (sopen D)) = Some (s, Some f) \<and> opened D (core s) \<and> sdata f = D \<and> next_in s = []"
proof -
  obtain n buf f where r: "fread_into (uninit junk 0 BufSize) BufSize (sopen D) = (n, buf, f)" by (metis prod_cases3)
  then have n: "n = min 16384 (length D)" "buf = take 16384 D @ drop n (uninit junk 0 16384)" "sdata f = D"
    using sdata_fread [of 16384 "sopen D"] by (auto simp: fread_into_def fread_def srest_sopen sdata_sopen BufSize_def)
  let ?src = "\<lparr>blksize = 16384, max_winsize = XD3_ALLOCSIZE, curblkno = 0, onblk = of_nat n, curblk = buf, srclen = 0, srcbase = 0,
    shiftby = 14, maskby = 16383, cpyoff_blocks = 0, cpyoff_blkoff = 0, getblkno = 0, max_blkno = 0, onlastblk = 0, eof_known = False\<rparr>"
  let ?s = "(xd3_config_stream (push_bit XD3_ADLER32 1))\<lparr>source := Some ?src\<rparr>"
  have "open_source junk (Some (sopen D)) = Some (?s, Some f)"
    using r pow2_0 by (simp add: open_source_def fseek_set_nonneg sopen_rewind xd3_set_source_def pow2_16384 BufSize_def xd3_xoff_roundup_def roundup_1
        max_def XD3_ALLOCSIZE_def Let_def)
  moreover have "block_view D ?src" by (cases "length D \<le> 16384") (simp_all add: block_view_def n min.commute)
  ultimately show ?thesis using n(3) by (auto simp: opened_def xd3_config_stream_def)
qed

text \<open>The run of the patcher after the header of the file.\<close>

lemma code_header:
  assumes "InF = sopen (vcd_head app @ R)" "app_valid app"
  shows "\<exists>st f. xd3_code z junk InF (Some (sopen D)) OutF = code_loop z st \<and> idle D 0 (decoder st) \<and> fed st \<and> pending st = R \<and>
    SrcFile st = Some f \<and> sdata f = D \<and> OutFile st = OutF"
proof -
  obtain s f where s: "open_source junk (Some (sopen D)) = Some (s, Some f)" "opened D (core s)" "sdata f = D" "next_in s = []"
    using open_source_opened by blast
  let ?st0 = "\<lparr>decoder = s, InFile = snd (fseek_set 0 InF), SrcFile = Some f, OutFile = OutF, Input_Buf_Read = 0\<rparr>"
  let ?st = "read_input ?st0"
  have code: "xd3_code z junk InF (Some (sopen D)) OutF = code_loop z ?st" using s(1) by (simp add: xd3_code_def)
  have "pending ?st = vcd_head app @ R"
    using s(4) assms(1) by (subst read_input_view) (simp_all add: pending_def fseek_set_nonneg sopen_rewind srest_sopen)
  moreover have "fed ?st" "core (decoder ?st) = core s" by (simp_all add: read_input_view)
  ultimately have "reaches z ?st (core s) (vcd_head app @ R)" using reaches_refl [of ?st z] by simp
  from file_header [OF this s(2) assms(2)] obtain m where m: "reaches z ?st m R" "idle D 0 m" by blast
  from m(1) obtain st where "code_loop z ?st = code_loop z st" "fed st" "SrcFile st = Some f" "OutFile st = OutF" "core (decoder st) = m" "pending st = R"
    by (auto simp: reaches_def read_input_view)
  then show ?thesis using code m(2) s(3) by (intro exI [of _ st] exI [of _ f]) (auto simp: idle_core)
qed

lemma xdelta3_entry:
  assumes "content fs rom = Some D" "content fs patch = Some P" "writable fs out"
    and "xd3_code z junk (sopen P) (Some (sopen D)) (sopen []) = Some (Returned r st)" "sdata (OutFile st) = T"
  shows "xdelta3PatchRom z junk rom patch out fs = Some (Returned r (put_file out T fs))"
  using assms by (simp add: xdelta3PatchRom_def fopen_rb_def fopen_wb_def fclose_to_def put_file_put_file)

text \<open>The windows before some point, and what is left there.\<close>

lemma code_windows:
  assumes "app_valid app" "\<forall>w \<in> set ws. win_valid D w" "length D < 2 ^ 31" "length (vcd_target ws) < 2 ^ 64"
  shows "\<exists>st f. xd3_code z junk (sopen (vcd_patch app ws @ R)) (Some (sopen D)) (sopen []) = code_loop z st \<and>
    idle D (length (vcd_target ws)) (decoder st) \<and> fed st \<and> pending st = R \<and> sdata (OutFile st) = vcd_target ws \<and> SrcFile st = Some f \<and> sdata f = D"
proof -
  obtain st f where st: "xd3_code z junk (sopen (vcd_patch app ws @ R)) (Some (sopen D)) (sopen []) = code_loop z st" "idle D 0 (decoder st)" "fed st"
    "pending st = concat (map win_bytes ws) @ R" "SrcFile st = Some f" "sdata f = D" "OutFile st = sopen []"
    using code_header [of "sopen (vcd_patch app ws @ R)" app "concat (map win_bytes ws) @ R" z junk D "sopen []"] assms(1)
    by (auto simp: vcd_patch_def)
  obtain st' where "code_loop z st = code_loop z st'" "idle D (0 + length (vcd_target ws)) (decoder st')" "fed st'" "pending st' = R"
    "OutFile st' = fwrite (vcd_target ws) (OutFile st)" "\<exists>f'. SrcFile st' = Some f' \<and> sdata f' = D"
    using windows_run [OF st(2-6) assms(2, 3), of z] assms(4) by auto
  then show ?thesis using st(1, 7) by (intro exI [of _ st']) (auto simp: stdio_simps run_simps overwrite_at_end [of "[]", simplified])
qed

section \<open>An example\<close>

text \<open>A small patch with an application header and two windows, the first a copy and new bytes, the second a run with its checksum.\<close>

definition xd3_window1 :: vwin where
  "xd3_window1 = \<lparr>wsegment = Some (4, 1), wsum = None, wdata = [88, 89], winst = [3, 20], waddr = [0], wtarget = [88, 89, 66, 67, 68, 69]\<rparr>"

definition xd3_window2 :: vwin where
  "xd3_window2 = \<lparr>wsegment = None, wsum = Some 0x006e0024, wdata = [7], winst = [0, 5], waddr = [], wtarget = [7, 7, 7, 7, 7]\<rparr>"

definition xd3_files :: "bytes \<Rightarrow> fsys" where
  "xd3_files p = \<lparr>content = [''rom'' \<mapsto> [65, 66, 67, 68, 69], ''patch'' \<mapsto> p], writable = (\<lambda>_. True)\<rparr>"

lemma vcd_number_small: "n < 128 \<Longrightarrow> vcd_number n = [of_nat n]"
proof -
  assume "n < 128"
  then have "unat (of_nat n :: usize) = n" by (intro unat_word_of_nat_id) simp
  then show ?thesis using \<open>n < 128\<close> by (simp add: vcd_number_def emit_size_digits high_digits.simps [of 0])
qed

lemmas xd3_format = vcd_patch_def vcd_head_def app_indicator_def app_bytes_def win_bytes_def win_front_def win_lengths_def win_enclen_def win_sections_def
  win_checksum_def win_indicator_def VCDIFF_MAGIC_def

lemma be_bytes_4: "be_bytes 4 v = [of_nat (v div 256 div 256 div 256), of_nat (v div 256 div 256), of_nat (v div 256), of_nat v]"
proof -
  have four: "4 = Suc (Suc (Suc (Suc 0)))" by simp
  show ?thesis unfolding four by simp
qed

lemma xd3_example_windows:
  "vcd_window [66, 67, 68, 69] [88, 89] [3, 20] [0] = Some [88, 89, 66, 67, 68, 69]" "vcd_window [] [7] [0, 5] [] = Some [7, 7, 7, 7, 7]"
  by code_simp+

lemma xd3_example_sum: "adler32 1 [7, 7, 7, 7, 7] = 0x006e0024"
  by code_simp

lemma xd3_example_valid: "win_valid [65, 66, 67, 68, 69] xd3_window1" "win_valid [65, 66, 67, 68, 69] xd3_window2"
  by (simp_all add: win_valid_def win_denotes_def win_source_def xd3_window1_def xd3_window2_def xd3_example_windows xd3_example_sum)

lemma xd3_example_bytes: "vcd_patch (Some [1, 2]) [xd3_window1, xd3_window2] =
  [0xd6, 0xc3, 0xc4, 0, 4, 2, 1, 2, 1, 4, 1, 10, 6, 0, 2, 2, 1, 88, 89, 3, 20, 0, 4, 12, 5, 0, 1, 2, 0, 0, 0x6e, 0, 0x24, 7, 0, 5]"
  by (simp add: xd3_format xd3_window1_def xd3_window2_def vcd_number_small be_bytes_4)

lemmas xd3_example = xd3_files_def xd3_format xd3_window1_def xd3_window2_def vcd_number_small be_bytes_4

section \<open>Properties\<close>

text \<open>C1: a VCDIFF patch is applied as the format prescribes: for every list of windows whose sections denote their targets over
  segments of the source, with or without checksums and with or without an application header, the output file is the targets one after
  the other and the result is 0.  This holds however the pieces of 16384 bytes cut the patch and whatever blocks of the source the copies
  need.\<close>

theorem xdelta3_patch_correct:
  assumes "content fs rom = Some D" "content fs patch = Some (vcd_patch app ws)" "writable fs out" "rom \<noteq> out" "patch \<noteq> out"
    and "\<forall>w \<in> set ws. win_valid D w" "app_valid app" "length D < 2 ^ 31" "length (vcd_target ws) < 2 ^ 64"
  shows "xdelta3PatchRom z junk rom patch out fs = Some (Returned 0 (put_file out (vcd_target ws) fs))"
proof -
  obtain st where st: "xd3_code z junk (sopen (vcd_patch app ws)) (Some (sopen D)) (sopen []) = code_loop z st"
    "idle D (length (vcd_target ws)) (decoder st)" "fed st" "pending st = []" "sdata (OutFile st) = vcd_target ws"
    using code_windows [OF assms(7, 6, 8, 9), of z junk "[]"] by auto
  obtain st' where "code_loop z st = Some (Returned 0 st')" "OutFile st' = OutFile st" using patch_end [OF st(2-4)] by blast
  then show ?thesis using xdelta3_entry [OF assms(1-3)] st(1, 5) by simp
qed

theorem xdelta3_patch_correct_witness:
  "xdelta3PatchRom 0 (\<lambda>_. 0) ''rom'' ''patch'' ''out''
     (xd3_files [0xd6, 0xc3, 0xc4, 0, 4, 2, 1, 2, 1, 4, 1, 10, 6, 0, 2, 2, 1, 88, 89, 3, 20, 0, 4, 12, 5, 0, 1, 2, 0, 0, 0x6e, 0, 0x24, 7, 0, 5]) =
   Some (Returned 0 (put_file ''out'' [88, 89, 66, 67, 68, 69, 7, 7, 7, 7, 7]
     (xd3_files [0xd6, 0xc3, 0xc4, 0, 4, 2, 1, 2, 1, 4, 1, 10, 6, 0, 2, 2, 1, 88, 89, 3, 20, 0, 4, 12, 5, 0, 1, 2, 0, 0, 0x6e, 0, 0x24, 7, 0, 5])))"
proof -
  have T: "vcd_target [xd3_window1, xd3_window2] = [88, 89, 66, 67, 68, 69, 7, 7, 7, 7, 7]" by (simp add: vcd_target_def xd3_window1_def xd3_window2_def)
  show ?thesis
    using xdelta3_patch_correct [of _ "''rom''" "[65, 66, 67, 68, 69]" "''patch''" "Some [1, 2]" "[xd3_window1, xd3_window2]" "''out''" 0 "\<lambda>_. 0",
        unfolded xd3_example_bytes T] xd3_example_valid by (simp add: xd3_files_def app_valid_def)
qed

text \<open>C34: a window whose checksum is not the Adler-32 number of its target is refused: the result is the error for invalid input, and
  the output file holds the targets of the windows before it and nothing of this one.\<close>

theorem xdelta3_checksum_refused:
  assumes "content fs rom = Some D" "content fs patch = Some (vcd_patch app ws @ win_bytes w @ R)" "writable fs out" "rom \<noteq> out" "patch \<noteq> out"
    and "\<forall>w \<in> set ws. win_valid D w" "app_valid app" "length D < 2 ^ 31" "length (vcd_target ws) < 2 ^ 64"
    and "win_denotes D w" "wsum w = Some c" "c \<noteq> adler32 1 (wtarget w)"
  shows "xdelta3PatchRom z junk rom patch out fs = Some (Returned XD3_INVALID_INPUT (put_file out (vcd_target ws) fs))"
proof -
  obtain st f where st: "xd3_code z junk (sopen (vcd_patch app ws @ win_bytes w @ R)) (Some (sopen D)) (sopen []) = code_loop z st"
    "idle D (length (vcd_target ws)) (decoder st)" "fed st" "pending st = win_bytes w @ R" "SrcFile st = Some f" "sdata f = D"
    "sdata (OutFile st) = vcd_target ws"
    using code_windows [OF assms(7, 6, 8, 9), of z junk "win_bytes w @ R"] by auto
  have "\<not> win_valid D w" using assms(11, 12) by (simp add: win_valid_def)
  then obtain st' where "code_loop z st = Some (Returned XD3_INVALID_INPUT st')" "OutFile st' = OutFile st"
    using window_refused [OF st(2-6) assms(10) _ assms(8, 9)] by blast
  then show ?thesis using xdelta3_entry [OF assms(1-3)] st(1, 7) by simp
qed

theorem xdelta3_checksum_refused_witness:
  "xdelta3PatchRom 0 (\<lambda>_. 0) ''rom'' ''patch'' ''out''
     (xd3_files [0xd6, 0xc3, 0xc4, 0, 0, 1, 4, 1, 10, 6, 0, 2, 2, 1, 88, 89, 3, 20, 0, 4, 12, 5, 0, 1, 2, 0, 0, 0, 0, 1, 7, 0, 5]) =
   Some (Returned XD3_INVALID_INPUT (put_file ''out'' [88, 89, 66, 67, 68, 69]
     (xd3_files [0xd6, 0xc3, 0xc4, 0, 0, 1, 4, 1, 10, 6, 0, 2, 2, 1, 88, 89, 3, 20, 0, 4, 12, 5, 0, 1, 2, 0, 0, 0, 0, 1, 7, 0, 5])))"
proof -
  have T: "vcd_target [xd3_window1] = [88, 89, 66, 67, 68, 69]" by (simp add: vcd_target_def xd3_window1_def)
  let ?w = "xd3_window2\<lparr>wsum := Some 1\<rparr>"
  have d: "win_denotes [65, 66, 67, 68, 69] ?w" "wtarget ?w = [7, 7, 7, 7, 7]"
    by (simp_all add: win_denotes_def win_source_def xd3_window2_def xd3_example_windows)
  have b: "vcd_patch None [xd3_window1] @ win_bytes ?w @ [] =
    [0xd6, 0xc3, 0xc4, 0, 0, 1, 4, 1, 10, 6, 0, 2, 2, 1, 88, 89, 3, 20, 0, 4, 12, 5, 0, 1, 2, 0, 0, 0, 0, 1, 7, 0, 5]"
    by (simp add: xd3_example)
  show ?thesis
    using xdelta3_checksum_refused [of _ "''rom''" "[65, 66, 67, 68, 69]" "''patch''" None "[xd3_window1]" ?w "[]" "''out''" 1 0 "\<lambda>_. 0", unfolded b T]
      xd3_example_valid d by (simp add: xd3_files_def app_valid_def xd3_example_sum)
qed

text \<open>a patch that breaks off inside the sections of a window is not reported: the result is 0, as for a complete patch,
  although the output file holds only the targets of the windows before.\<close>

theorem xdelta3_truncated_accepted:
  assumes "content fs rom = Some D" "content fs patch = Some (vcd_patch app ws @ win_front w @ P)" "writable fs out" "rom \<noteq> out" "patch \<noteq> out"
    and "\<forall>w \<in> set ws. win_valid D w" "app_valid app" "length D < 2 ^ 31" "length (vcd_target ws) < 2 ^ 64"
    and "win_denotes D w" "win_sections w = P @ W" "W \<noteq> []"
  shows "xdelta3PatchRom z junk rom patch out fs = Some (Returned 0 (put_file out (vcd_target ws) fs))"
proof -
  obtain st where st: "xd3_code z junk (sopen (vcd_patch app ws @ win_front w @ P)) (Some (sopen D)) (sopen []) = code_loop z st"
    "idle D (length (vcd_target ws)) (decoder st)" "fed st" "pending st = win_front w @ P" "sdata (OutFile st) = vcd_target ws"
    using code_windows [OF assms(7, 6, 8, 9), of z junk "win_front w @ P"] by auto
  obtain st' where "code_loop z st = Some (Returned 0 st')" "OutFile st' = OutFile st"
    using window_cut [OF st(2-4) assms(11, 12, 10, 8, 9)] by blast
  then show ?thesis using xdelta3_entry [OF assms(1-3)] st(1, 5) by simp
qed

theorem xdelta3_truncated_accepted_witness:
  "xdelta3PatchRom 0 (\<lambda>_. 0) ''rom'' ''patch'' ''out''
     (xd3_files [0xd6, 0xc3, 0xc4, 0, 0, 1, 4, 1, 10, 6, 0, 2, 2, 1, 88, 89, 3, 20, 0, 4, 12, 5, 0, 1, 2, 0, 0, 0x6e, 0, 0x24, 7, 0]) =
   Some (Returned 0 (put_file ''out'' [88, 89, 66, 67, 68, 69]
     (xd3_files [0xd6, 0xc3, 0xc4, 0, 0, 1, 4, 1, 10, 6, 0, 2, 2, 1, 88, 89, 3, 20, 0, 4, 12, 5, 0, 1, 2, 0, 0, 0x6e, 0, 0x24, 7, 0])))"
proof -
  have T: "vcd_target [xd3_window1] = [88, 89, 66, 67, 68, 69]" by (simp add: vcd_target_def xd3_window1_def)
  have b: "vcd_patch None [xd3_window1] @ win_front xd3_window2 @ [7, 0] =
    [0xd6, 0xc3, 0xc4, 0, 0, 1, 4, 1, 10, 6, 0, 2, 2, 1, 88, 89, 3, 20, 0, 4, 12, 5, 0, 1, 2, 0, 0, 0x6e, 0, 0x24, 7, 0]"
    by (simp add: xd3_example)
  have w: "win_denotes [65, 66, 67, 68, 69] xd3_window2" "win_sections xd3_window2 = [7, 0] @ [5]"
    using xd3_example_valid(2) by (simp_all add: win_valid_def win_sections_def xd3_window2_def)
  show ?thesis
    using xdelta3_truncated_accepted [of _ "''rom''" "[65, 66, 67, 68, 69]" "''patch''" None "[xd3_window1]" xd3_window2 "[7, 0]" "''out''" "[5]" 0 "\<lambda>_. 0", unfolded b T]
      xd3_example_valid w by (simp add: xd3_files_def app_valid_def)
qed

text \<open>a file of at least four bytes that does not begin with the VCDIFF signature and version 0 is refused with the error for invalid input;
  the output file is left empty and nothing else changes.\<close>

theorem xdelta3_signature_refused:
  assumes "content fs rom = Some D" "content fs patch = Some P" "writable fs out" "rom \<noteq> out" "patch \<noteq> out"
    and "4 \<le> length P" "take 4 P \<noteq> VCDIFF_MAGIC @ [0]"
  shows "xdelta3PatchRom z junk rom patch out fs = Some (Returned XD3_INVALID_INPUT (put_file out [] fs))"
proof -
  obtain s f where s: "open_source junk (Some (sopen D)) = Some (s, Some f)" "opened D (core s)" using open_source_opened by blast
  let ?st0 = "\<lparr>decoder = s, InFile = snd (fseek_set 0 (sopen P)), SrcFile = Some f, OutFile = sopen [], Input_Buf_Read = 0\<rparr>"
  let ?st = "read_input ?st0"
  let ?s = "decoder ?st"
  have core: "core ?s = core s" by (simp add: read_input_view)
  have o: "dec_state ?s = DEC_VCHEAD" "enc_state ?s = 0" "dec_magic ?s = []"
    using core_eqs [OF core] opened_fields [OF s(2)] by simp_all
  have nin: "next_in ?s = take BufSize P"
    by (simp add: read_input_def fread_def fseek_set_nonneg sopen_rewind srest_sopen xd3_avail_input_def xd3_set_flags_def)
  have four: "take 4 (take BufSize P) = take 4 P" "length (take 4 P) = 4" using assms(6) by (simp_all add: BufSize_def min_def)
  have bad: "take 3 (take 4 P) \<noteq> VCDIFF_MAGIC \<or> take 4 P ! 3 \<noteq> 0"
  proof (rule ccontr)
    assume "\<not> ?thesis"
    then have "take 3 (take 4 P) @ [take 4 P ! 3] = VCDIFF_MAGIC @ [0]" by simp
    moreover have "take 3 (take 4 P) @ [take 4 P ! 3] = take (Suc 3) (take 4 P)" using four(2) by (intro take_Suc_conv_app_nth [symmetric]) simp
    ultimately show False using assms(7) by simp
  qed
  obtain s' where "xd3_decode_input z ?s = Some (Stop XD3_INVALID_INPUT s')"
  proof
    let ?s' = "DECODE_INPUT 4 (?s\<lparr>dec_magic := take 4 P\<rparr>)"
    have "xd3_decode_bytes dec_magic (\<lambda>b. dec_magic_update (\<lambda>_. b)) 4 ?s = Next ?s'"
      using four o(3) by (simp add: xd3_decode_bytes_def nin Let_def BufSize_def)
    then show "xd3_decode_input z ?s = Some (Stop XD3_INVALID_INPUT ?s')"
      using bad o by (auto simp: dec_vchead_def DECODE_INPUT_def)
  qed
  then have "code_loop z ?st = Some (Returned XD3_INVALID_INPUT (?st\<lparr>decoder := s'\<rparr>))" by (rule code_loop_fails) (simp add: xd3_rvalues)
  then show ?thesis using xdelta3_entry [OF assms(1-3)] s(1) by (simp add: xd3_code_def read_input_view stdio_simps)
qed

theorem xdelta3_signature_refused_witness:
  "xdelta3PatchRom 0 (\<lambda>_. 0) ''rom'' ''patch'' ''out'' (xd3_files [0x50, 0x41, 0x54, 0x43, 0x48]) =
   Some (Returned XD3_INVALID_INPUT (put_file ''out'' [] (xd3_files [0x50, 0x41, 0x54, 0x43, 0x48])))"
  using xdelta3_signature_refused [of "xd3_files [0x50, 0x41, 0x54, 0x43, 0x48]" "''rom''" "[65, 66, 67, 68, 69]" "''patch''" "[0x50, 0x41, 0x54, 0x43, 0x48]" "''out''" 0 "\<lambda>_. 0"]
  by (simp add: xd3_files_def VCDIFF_MAGIC_def)

section \<open>A section that is too long\<close>

text \<open>The size of a buffer is passed to the allocator as a number of 32 bits: a request for 2^32 bytes gives none.\<close>

lemma started_huge:
  assumes s: "started w n m" "idle D tot n" "core s = m" and w: "length (wdata w) = 2 ^ 32"
  shows "dec_state s = DEC_DATA" "enc_state s = 0" "dec_winbytes s = 0" "\<not> bit (flags s) XD3_JUST_HDR" "\<not> bit (flags s) XD3_SKIP_WINDOW"
    "sect_size (data_sect s) = 0x100000000" "sect_size (inst_sect s) = of_nat (length (winst w))" "sect_size (addr_sect s) = of_nat (length (waddr w))"
    "sect_pos (data_sect s) = 0" "cap_ok (data_sect s)"
proof -
  note e = core_eqs [OF s(3)]
  have f: "bit (flags s) k = bit (flags n) k" if "k \<noteq> 4" for k
  proof -
    have "bit (flags s) k = bit (flags (core s)) k" using that by (simp add: core_flag)
    also have "\<dots> = bit (flags n) k" using s(1, 3) by (simp add: started_def headed_def)
    finally show ?thesis .
  qed
  have wb: "dec_winbytes s = dec_winbytes m" using s(3) by auto
  show "dec_state s = DEC_DATA" "enc_state s = 0" "dec_winbytes s = 0" "sect_pos (data_sect s) = 0" "cap_ok (data_sect s)"
    "sect_size (inst_sect s) = of_nat (length (winst w))" "sect_size (addr_sect s) = of_nat (length (waddr w))"
    "sect_size (data_sect s) = 0x100000000"
    using e s(1, 2) w wb by (simp_all add: started_def headed_def idle_def sect_idle_def cap_ok_def)
  show "\<not> bit (flags s) XD3_JUST_HDR" "\<not> bit (flags s) XD3_SKIP_WINDOW"
    using f [of XD3_JUST_HDR] f [of XD3_SKIP_WINDOW] s(2) by (simp_all add: idle_def xd3_bits)
qed

lemma huge_allocation:
  assumes "cap_ok d" shows "xd3_decode_allocate 0x100000000 (copied1 d) (alloc1 d) = (Some 0, 0x100000000)"
proof -
  have "copied1 d \<noteq> None \<Longrightarrow> alloc1 d < 0x100000000" using assms by (auto simp: cap_ok_def word_less_nat_alt)
  moreover have "xd3_round_blksize 0x100000000 XD3_ALLOCSIZE = 0x100000000" by code_simp
  moreover have "xd3_alloc 0x100000000 1 = 0" by code_simp
  ultimately show ?thesis by (cases "copied1 d") (simp_all add: xd3_decode_allocate_def)
qed

lemma decode_sections_overrun:
  assumes s: "started w n m" "idle D tot n" "core s = m" and w: "length (wdata w) = 2 ^ 32" "length (winst w) < 2 ^ 31" "length (waddr w) < 2 ^ 31"
    and nin: "length (next_in s) < 2 ^ 32"
  shows "xd3_decode_input z s = Some (if next_in s = [] then Stop XD3_INPUT s else Crash)"
proof -
  note d = started_huge [OF s w(1)]
  let ?ni = "of_nat (length (winst w)) :: usize" and ?na = "of_nat (length (waddr w)) :: usize"
  let ?N = "length (winst w) + length (waddr w)"
  have u: "unat ?ni = length (winst w)" "unat ?na = length (waddr w)" "unat (of_nat ?N :: usize) = ?N" "unat (of_nat (?N + 2 ^ 32) :: usize) = ?N + 2 ^ 32"
    by (rule unat_word_of_nat_id, use w in simp)+
  have sum: "?ni + ?na = of_nat ?N" "of_nat ?N + 0x100000000 = (of_nat (?N + 2 ^ 32) :: usize)" by simp_all
  have ov: "\<not> USIZE_T_OVERFLOW ?ni ?na" "\<not> USIZE_T_OVERFLOW (?ni + ?na) 0x100000000"
    using w by (simp_all only: usize_overflow sum u) simp_all
  have more: "unat (?ni + ?na + 0x100000000 - 0) = ?N + 2 ^ 32" by (simp only: sum u diff_zero)
  have copy: "min (?N + 2 ^ 32) (length (next_in s)) \<noteq> ?N + 2 ^ 32" using nin by simp
  have "section_copied DATA_SECTION s = Crash" if "next_in s \<noteq> []"
    using that nin huge_allocation [OF d(10)] by (simp add: section_copied_def d Let_def min_def)
  then have "xd3_decode_section DATA_SECTION DEC_INST True s = (if next_in s = [] then Stop XD3_INPUT s else Crash)"
    by (simp add: xd3_decode_section_def d)
  then have "xd3_decode_sections z s = (if next_in s = [] then Stop XD3_INPUT s else Crash)"
    unfolding xd3_decode_sections_def Let_def using copy ov
    by (simp only: d more if_False if_True simp_thms xd3_decode_state.case) simp
  then show ?thesis using d by (simp add: xd3_decode_input_def dec_sections_def)
qed

lemma code_loop_crash: "xd3_decode_input z (decoder st) = Some Crash \<Longrightarrow> code_loop z st = Some Undefined"
  by (subst code_loop.simps) simp

lemma window_overrun:
  assumes st: "idle D tot (decoder st)" "fed st" "pending st = win_front w @ b # R" and tot: "tot < 2 ^ 64"
    and w: "length (wdata w) = 2 ^ 32" "length (winst w) < 2 ^ 31" "length (waddr w) < 2 ^ 31" "length (wtarget w) \<le> 2 ^ 26" "seg_off w + seg_len w < 2 ^ 62"
    and R: "length R < 2 ^ 31"
  shows "code_loop z st = Some Undefined"
proof -
  let ?n = "core (decoder st)"
  have n: "idle D tot ?n" using st(1) by (simp add: idle_core)
  have ov: "\<not> USIZE_T_OVERFLOW (dec_winstart ?n) (dec_tgtlen ?n)" using n tot by (simp add: idle_def usize_overflow)
  obtain m where m: "reaches z st m (b # R)" "started w ?n m"
    using window_header [OF reaches_refl [OF st(2), unfolded st(3)] _ _ _ ov w(5, 4)] n by (auto simp: idle_def)
  from m(1) obtain st1 where st1: "code_loop z st = code_loop z st1" "fed st1" "core (decoder st1) = m" "pending st1 = b # R" by (auto simp: reaches_def)
  have call: "xd3_decode_input z (decoder st') = Some (if next_in (decoder st') = [] then Stop XD3_INPUT (decoder st') else Crash)"
    if st': "core (decoder st') = m" "pending st' = b # R" for st'
  proof (rule decode_sections_overrun [OF m(2) n st'(1) w(1-3)])
    have "length (next_in (decoder st')) \<le> Suc (length R)" using arg_cong [OF st'(2), of length] by (simp add: pending_def)
    then show "length (next_in (decoder st')) < 2 ^ 32" using R by simp
  qed
  show ?thesis
  proof (cases "next_in (decoder st1) = []")
    case False
    then show ?thesis using st1(1) code_loop_crash call [OF st1(3, 4)] by simp
  next
    case True
    then have Y: "srest (InFile st1) = b # R" using st1(4) by (simp add: pending_def)
    have stop: "xd3_decode_input z (decoder st1) = Some (Stop XD3_INPUT (decoder st1))" using call [OF st1(3, 4)] True by simp
    obtain st2 where st2: "code_loop z st1 = code_loop z st2" "core (decoder st2) = m" "pending st2 = b # R" "length (srest (InFile st2)) < length (b # R)"
      using refill [OF stop True st1(2)] Y st1(3) by (metis list.distinct(1))
    have "next_in (decoder st2) \<noteq> []" using st2(3, 4) by (auto simp: pending_def)
    then show ?thesis using st1(1) st2(1) code_loop_crash call [OF st2(2, 3)] by simp
  qed
qed

text \<open>A window with a data section of that length, and the two numbers in it.\<close>

definition xd3_huge :: vwin where
  "xd3_huge = \<lparr>wsegment = None, wsum = None, wdata = replicate (2 ^ 32) 0, winst = [], waddr = [], wtarget = []\<rparr>"

lemma xd3_huge_numbers: "vcd_number 4294967296 = [0x90, 0x80, 0x80, 0x80, 0]" "vcd_number 4294967305 = [0x90, 0x80, 0x80, 0x80, 9]"
  unfolding vcd_number_def of_nat_numeral by code_simp+

text \<open>C37: the buffer of a section is too small when the announced length does not fit the 32 bits of the allocator: when a window
  announces a data section of 2^32 bytes, the first byte of it that the file has is written outside the buffer.\<close>

theorem xdelta3_section_overrun:
  assumes "content fs rom = Some D" "content fs patch = Some (vcd_patch app ws @ win_front w @ b # R)" "writable fs out" "rom \<noteq> out" "patch \<noteq> out"
    and "\<forall>w \<in> set ws. win_valid D w" "app_valid app" "length D < 2 ^ 31" "length (vcd_target ws) < 2 ^ 64"
    and "length (wdata w) = 2 ^ 32" "length (winst w) < 2 ^ 31" "length (waddr w) < 2 ^ 31" "length (wtarget w) \<le> 2 ^ 26"
    and "seg_off w + seg_len w < 2 ^ 62" "length R < 2 ^ 31"
  shows "xdelta3PatchRom z junk rom patch out fs = Some Undefined"
proof -
  obtain st where st: "xd3_code z junk (sopen (vcd_patch app ws @ win_front w @ b # R)) (Some (sopen D)) (sopen []) = code_loop z st"
    "idle D (length (vcd_target ws)) (decoder st)" "fed st" "pending st = win_front w @ b # R"
    using code_windows [OF assms(7, 6, 8, 9), of z junk "win_front w @ b # R"] by auto
  have "code_loop z st = Some Undefined" by (rule window_overrun [OF st(2-4) assms(9-15)])
  then show ?thesis using assms(1-3) st(1) by (simp add: xdelta3PatchRom_def fopen_rb_def fopen_wb_def)
qed

theorem xdelta3_section_overrun_witness:
  "xdelta3PatchRom 0 (\<lambda>_. 0) ''rom'' ''patch'' ''out''
     (xd3_files [0xd6, 0xc3, 0xc4, 0, 0, 0, 0x90, 0x80, 0x80, 0x80, 9, 0, 0, 0x90, 0x80, 0x80, 0x80, 0, 0, 0, 1]) = Some Undefined"
proof -
  have b: "vcd_patch None [] @ win_front xd3_huge @ [1] = [0xd6, 0xc3, 0xc4, 0, 0, 0, 0x90, 0x80, 0x80, 0x80, 9, 0, 0, 0x90, 0x80, 0x80, 0x80, 0, 0, 0, 1]"
    by (simp add: xd3_format xd3_huge_def vcd_number_small xd3_huge_numbers)
  show ?thesis
    using xdelta3_section_overrun [of _ "''rom''" "[65, 66, 67, 68, 69]" "''patch''" None "[]" xd3_huge 1 "[]" "''out''" 0 "\<lambda>_. 0", unfolded b]
    by (simp add: xd3_files_def app_valid_def vcd_target_def xd3_huge_def seg_off_def seg_len_def)
qed

end
