(* ===== verification/Md5.thy ===== *)
theory Md5
  imports CStdio
begin

text \<open>
  The MD5 checksum of \<^verbatim>\<open>libedsio/md5c.c\<close>, with which xdelta 1 checks the files it reads and writes.  The context holds the
  chaining state, the number of bits in two words and the bytes of an incomplete block.  The result is that the
  digest depends only on the bytes, not on the pieces they come in, and is the padded digest of RFC 1321.
\<close>

unbundle bit_operations_syntax

section \<open>The transformation of a block\<close>

definition md5_F :: "u32 \<Rightarrow> u32 \<Rightarrow> u32 \<Rightarrow> u32" where
  "md5_F x y z = (x AND y) OR (NOT x AND z)"

definition md5_G :: "u32 \<Rightarrow> u32 \<Rightarrow> u32 \<Rightarrow> u32" where
  "md5_G x y z = (x AND z) OR (y AND NOT z)"

definition md5_H :: "u32 \<Rightarrow> u32 \<Rightarrow> u32 \<Rightarrow> u32" where
  "md5_H x y z = x XOR y XOR z"

definition md5_I :: "u32 \<Rightarrow> u32 \<Rightarrow> u32 \<Rightarrow> u32" where
  "md5_I x y z = y XOR (x OR NOT z)"

definition ROTATE_LEFT :: "u32 \<Rightarrow> nat \<Rightarrow> u32" where
  "ROTATE_LEFT x n = push_bit n x OR drop_bit (32 - n) x"

text \<open>The macros \<^verbatim>\<open>FF\<close> to \<^verbatim>\<open>II\<close> differ in the basic function only.  Consecutive uses rename the four variables in a
  cycle; here the cycle is part of the step, so that four steps bring every variable back to its place.\<close>

type_synonym md5_words = "u32 \<times> u32 \<times> u32 \<times> u32"

definition md5_step :: "(u32 \<Rightarrow> u32 \<Rightarrow> u32 \<Rightarrow> u32) \<Rightarrow> u32 list \<Rightarrow> md5_words \<Rightarrow> nat \<times> nat \<times> u32 \<Rightarrow> md5_words" where
  "md5_step f x = (\<lambda>(a, b, c, d) (k, s, ac). (d, ROTATE_LEFT (a + (f b c d + x ! k + ac)) s + b, b, c))"

definition round1 :: "(nat \<times> nat \<times> u32) list" where
  "round1 =
     [(0, 7, 0xd76aa478), (1, 12, 0xe8c7b756), (2, 17, 0x242070db), (3, 22, 0xc1bdceee),
      (4, 7, 0xf57c0faf), (5, 12, 0x4787c62a), (6, 17, 0xa8304613), (7, 22, 0xfd469501),
      (8, 7, 0x698098d8), (9, 12, 0x8b44f7af), (10, 17, 0xffff5bb1), (11, 22, 0x895cd7be),
      (12, 7, 0x6b901122), (13, 12, 0xfd987193), (14, 17, 0xa679438e), (15, 22, 0x49b40821)]"

definition round2 :: "(nat \<times> nat \<times> u32) list" where
  "round2 =
     [(1, 5, 0xf61e2562), (6, 9, 0xc040b340), (11, 14, 0x265e5a51), (0, 20, 0xe9b6c7aa),
      (5, 5, 0xd62f105d), (10, 9, 0x02441453), (15, 14, 0xd8a1e681), (4, 20, 0xe7d3fbc8),
      (9, 5, 0x21e1cde6), (14, 9, 0xc33707d6), (3, 14, 0xf4d50d87), (8, 20, 0x455a14ed),
      (13, 5, 0xa9e3e905), (2, 9, 0xfcefa3f8), (7, 14, 0x676f02d9), (12, 20, 0x8d2a4c8a)]"

definition round3 :: "(nat \<times> nat \<times> u32) list" where
  "round3 =
     [(5, 4, 0xfffa3942), (8, 11, 0x8771f681), (11, 16, 0x6d9d6122), (14, 23, 0xfde5380c),
      (1, 4, 0xa4beea44), (4, 11, 0x4bdecfa9), (7, 16, 0xf6bb4b60), (10, 23, 0xbebfbc70),
      (13, 4, 0x289b7ec6), (0, 11, 0xeaa127fa), (3, 16, 0xd4ef3085), (6, 23, 0x04881d05),
      (9, 4, 0xd9d4d039), (12, 11, 0xe6db99e5), (15, 16, 0x1fa27cf8), (2, 23, 0xc4ac5665)]"

definition round4 :: "(nat \<times> nat \<times> u32) list" where
  "round4 =
     [(0, 6, 0xf4292244), (7, 10, 0x432aff97), (14, 15, 0xab9423a7), (5, 21, 0xfc93a039),
      (12, 6, 0x655b59c3), (3, 10, 0x8f0ccc92), (10, 15, 0xffeff47d), (1, 21, 0x85845dd1),
      (8, 6, 0x6fa87e4f), (15, 10, 0xfe2ce6e0), (6, 15, 0xa3014314), (13, 21, 0x4e0811a1),
      (4, 6, 0xf7537e82), (11, 10, 0xbd3af235), (2, 15, 0x2ad7d2bb), (9, 21, 0xeb86d391)]"

text \<open>\<^verbatim>\<open>Encode\<close> and \<^verbatim>\<open>Decode\<close> convert between words and their bytes, least significant first.\<close>

definition Encode :: "u32 list \<Rightarrow> bytes" where
  "Encode ws = concat (map (\<lambda>w. [ucast (w AND 0xff), ucast (drop_bit 8 w AND 0xff), ucast (drop_bit 16 w AND 0xff), ucast (drop_bit 24 w AND 0xff)]) ws)"

fun Decode :: "bytes \<Rightarrow> u32 list" where
  "Decode (a # b # c # d # bs) =
     (ucast a OR push_bit 8 (ucast b) OR push_bit 16 (ucast c) OR push_bit 24 (ucast d)) # Decode bs"
| "Decode _ = []"

definition MD5Transform :: "md5_words \<Rightarrow> bytes \<Rightarrow> md5_words" where
  "MD5Transform st block =
     (let x = Decode block;
          (a0, b0, c0, d0) = st;
          v = foldl (md5_step md5_F x) st round1;
          v = foldl (md5_step md5_G x) v round2;
          v = foldl (md5_step md5_H x) v round3;
          (a, b, c, d) = foldl (md5_step md5_I x) v round4
      in (a0 + a, b0 + b, c0 + c, d0 + d))"

section \<open>The context\<close>

record EdsioMD5Ctx =
  md5_state :: md5_words
  md5_count :: "u32 \<times> u32"
  md5_buffer :: bytes

definition md5_zero :: EdsioMD5Ctx where
  "md5_zero = \<lparr>md5_state = (0, 0, 0, 0), md5_count = (0, 0), md5_buffer = replicate 64 0\<rparr>"

definition md5_magic :: md5_words where
  "md5_magic = (0x67452301, 0xefcdab89, 0x98badcfe, 0x10325476)"

definition edsio_md5_init :: "EdsioMD5Ctx \<Rightarrow> EdsioMD5Ctx" where
  "edsio_md5_init c = c\<lparr>md5_count := (0, 0), md5_state := md5_magic\<rparr>"

text \<open>The loop over the complete blocks of the input.\<close>

function transform_blocks :: "md5_words \<Rightarrow> bytes \<Rightarrow> md5_words \<times> bytes" where
  "transform_blocks st bs =
     (if 63 < length bs then transform_blocks (MD5Transform st (take 64 bs)) (drop 64 bs) else (st, bs))"
  by pat_completeness auto
termination by (relation "measure (length \<circ> snd)") auto

declare transform_blocks.simps [simp del]

definition md5_index :: "EdsioMD5Ctx \<Rightarrow> nat" where
  "md5_index c = unat (drop_bit 3 (fst (md5_count c)) AND 0x3f)"

definition edsio_md5_update :: "bytes \<Rightarrow> EdsioMD5Ctx \<Rightarrow> EdsioMD5Ctx" where
  "edsio_md5_update inp c =
     (let index = md5_index c;
          len = of_nat (length inp) :: u32;
          n0 = fst (md5_count c) + push_bit 3 len;
          n1 = snd (md5_count c) + (if n0 < push_bit 3 len then 1 else 0) + drop_bit 29 len;
          partLen = 64 - index;
          buf = md5_buffer c
      in if partLen \<le> length inp then
           (let buf = overwrite index (take partLen inp) buf;
                (st, rest) = transform_blocks (MD5Transform (md5_state c) buf) (drop partLen inp)
            in \<lparr>md5_state = st, md5_count = (n0, n1), md5_buffer = overwrite 0 rest buf\<rparr>)
         else c\<lparr>md5_count := (n0, n1), md5_buffer := overwrite index inp buf\<rparr>)"

definition PADDING :: bytes where
  "PADDING = 0x80 # replicate 63 0"

text \<open>The digest, and the context set to zero.\<close>

definition edsio_md5_final :: "EdsioMD5Ctx \<Rightarrow> bytes \<times> EdsioMD5Ctx" where
  "edsio_md5_final c =
     (let bits = Encode [fst (md5_count c), snd (md5_count c)];
          index = md5_index c;
          padLen = (if index < 56 then 56 - index else 120 - index);
          c = edsio_md5_update (take padLen PADDING) c;
          c = edsio_md5_update bits c;
          (a, b, d, e) = md5_state c
      in (Encode [a, b, d, e], md5_zero))"

section \<open>The digest of a message\<close>

text \<open>RFC 1321: the message is extended by a one bit, zeros and its length in bits modulo \<open>2 ^ 64\<close> to a multiple of 64
  bytes, and the blocks are transformed one after the other.\<close>

definition md5_pad :: "nat \<Rightarrow> bytes" where
  "md5_pad n = 0x80 # replicate ((119 - n mod 64) mod 64) 0 @ le_bytes 8 (8 * n mod 2 ^ 64)"

definition md5_digest :: "bytes \<Rightarrow> bytes" where
  "md5_digest m = (let (a, b, c, d) = fst (transform_blocks md5_magic (m @ md5_pad (length m))) in Encode [a, b, c, d])"

section \<open>Pieces of a message\<close>

lemma transform_blocks_append:
  "64 dvd length xs \<Longrightarrow> transform_blocks st (xs @ ys) = transform_blocks (fst (transform_blocks st xs)) ys"
proof (induction st xs rule: transform_blocks.induct)
  case (1 st xs)
  show ?case
  proof (cases "63 < length xs")
    case True
    then have "transform_blocks st (xs @ ys) = transform_blocks (MD5Transform st (take 64 xs)) (drop 64 xs @ ys)"
      by (simp add: transform_blocks.simps [of st "xs @ ys"])
    also have "\<dots> = transform_blocks (fst (transform_blocks (MD5Transform st (take 64 xs)) (drop 64 xs))) ys"
      using 1 True by (simp add: dvd_diff_nat)
    finally show ?thesis using True by (simp add: transform_blocks.simps [of st xs])
  next
    case False
    then have "xs = []" using 1(2) by (auto dest: dvd_imp_le)
    then show ?thesis by (simp add: transform_blocks.simps [of st "[]"])
  qed
qed

lemma transform_blocks_short: "length xs < 64 \<Longrightarrow> transform_blocks st xs = (st, xs)"
  by (simp add: transform_blocks.simps)

lemma transform_blocks_one: "length xs = 64 \<Longrightarrow> transform_blocks st (xs @ ys) = transform_blocks (MD5Transform st xs) ys"
  by (simp add: transform_blocks.simps [of st "xs @ ys"])

definition whole_blocks :: "bytes \<Rightarrow> bytes" where
  "whole_blocks m = take (64 * (length m div 64)) m"

definition last_bytes :: "bytes \<Rightarrow> bytes" where
  "last_bytes m = drop (64 * (length m div 64)) m"

lemma whole_last: "whole_blocks m @ last_bytes m = m"
  by (simp add: whole_blocks_def last_bytes_def)

lemma length_last_bytes [simp]: "length (last_bytes m) = length m mod 64"
  by (simp add: last_bytes_def minus_mult_div_eq_mod)

lemma whole_blocks_dvd: "64 dvd length (whole_blocks m)"
proof -
  have "64 * (length m div 64) \<le> length m" by simp
  then show ?thesis by (simp add: whole_blocks_def min_absorb2)
qed

lemma transform_blocks_split:
  "transform_blocks st (m @ xs) = transform_blocks (fst (transform_blocks st (whole_blocks m))) (last_bytes m @ xs)"
  by (metis transform_blocks_append whole_last whole_blocks_dvd append_assoc)

lemma transform_blocks_whole: "transform_blocks st m = (fst (transform_blocks st (whole_blocks m)), last_bytes m)"
  using transform_blocks_split [of st m "[]"] by (simp add: transform_blocks_short)

text \<open>The number of bits, in two words.\<close>

definition bit_count :: "nat \<Rightarrow> u32 \<times> u32" where
  "bit_count n = (of_nat (8 * n), of_nat (8 * n div 2 ^ 32))"

lemma unat_of_nat_u32: "unat (of_nat n :: u32) = n mod 2 ^ 32"
  by (simp add: unat_of_nat)

lemma carry_div: "(a + b) div m = a div m + b div m + (if m \<le> a mod m + b mod m then 1 else 0)" if "0 < m" for a b m :: nat
proof -
  have "a mod m + b mod m < m + m" using that by (intro add_strict_mono) simp_all
  then have "(a mod m + b mod m) div m = (if m \<le> a mod m + b mod m then 1 else 0)"
    by (auto intro!: div_nat_eqI)
  then show ?thesis by (simp only: div_add1_eq [of a b m])
qed

lemma carry_less: "a < m \<Longrightarrow> b < m \<Longrightarrow> ((a + b) mod m < b) = (m \<le> a + b)" for a b m :: nat
  by (cases "a + b < m") (auto simp: le_mod_geq)

lemma bit_count_add:
  assumes "k < 2 ^ 32"
  defines "len \<equiv> of_nat k :: u32"
  shows "fst (bit_count n) + push_bit 3 len = fst (bit_count (n + k))"
    and "snd (bit_count n) + (if fst (bit_count (n + k)) < push_bit 3 len then 1 else 0) + drop_bit 29 len = snd (bit_count (n + k))"
proof -
  have p: "push_bit 3 len = of_nat (8 * k)" by (simp add: len_def push_bit_word)
  then show "fst (bit_count n) + push_bit 3 len = fst (bit_count (n + k))" by (simp add: bit_count_def)
  have d: "drop_bit 29 len = of_nat (8 * k div 2 ^ 32)"
    using assms by (simp add: word_unat_eq_iff unat_drop_bit unat_of_nat_u32)
  let ?a = "8 * n" and ?b = "8 * k" and ?m = "2 ^ 32 :: nat"
  have "fst (bit_count (n + k)) < push_bit 3 len \<longleftrightarrow> ?m \<le> ?a mod ?m + ?b mod ?m"
    using carry_less [of "?a mod ?m" ?m "?b mod ?m"]
    by (simp add: bit_count_def p word_less_nat_alt unat_of_nat_u32 mod_add_eq add_mult_distrib2 del: of_nat_add of_nat_mult)
  then show "snd (bit_count n) + (if fst (bit_count (n + k)) < push_bit 3 len then 1 else 0) + drop_bit 29 len = snd (bit_count (n + k))"
    using carry_div [of ?m ?a ?b] by (simp add: d bit_count_def add_mult_distrib2)
qed

lemma md5_mask: "(w :: u32) AND 0x3f = take_bit 6 w"
  by (simp add: take_bit_eq_mask mask_eq_exp_minus_1)

lemma md5_index_count: "md5_count c = bit_count n \<Longrightarrow> md5_index c = n mod 64"
proof -
  assume "md5_count c = bit_count n"
  then have "md5_index c = unat (take_bit 6 (drop_bit 3 (of_nat (8 * n) :: u32)))"
    by (simp add: md5_index_def bit_count_def md5_mask)
  also have "\<dots> = (8 * n) mod 2 ^ 32 div 8 mod 64" by (simp add: unat_take_bit unat_drop_bit unat_of_nat_u32 del: of_nat_mult)
  also have "(8 * n) mod 2 ^ 32 = 8 * (n mod 2 ^ 29)" using mult_mod_right [of 8 n "2 ^ 29"] by simp
  also have "\<dots> div 8 mod 64 = n mod 64" by (simp add: mod_mod_cancel)
  finally show ?thesis .
qed

definition absorbed :: "bytes \<Rightarrow> EdsioMD5Ctx \<Rightarrow> bool" where
  "absorbed m c \<longleftrightarrow> md5_state c = fst (transform_blocks md5_magic m) \<and> md5_count c = bit_count (length m) \<and>
     length (md5_buffer c) = 64 \<and> take (length m mod 64) (md5_buffer c) = last_bytes m"

lemma absorbed_init: "length (md5_buffer c) = 64 \<Longrightarrow> absorbed [] (edsio_md5_init c)"
  by (simp add: absorbed_def edsio_md5_init_def bit_count_def transform_blocks_short last_bytes_def)

lemma overwrite_take: "k \<le> length d \<Longrightarrow> k + length bs \<le> length d \<Longrightarrow> take (k + length bs) (overwrite k bs d) = take k d @ bs"
  by (simp add: overwrite_def)

lemma overwrite_full: "k + length bs = length d \<Longrightarrow> overwrite k bs d = take k d @ bs"
  by (cases "bs = []") (simp_all add: overwrite_def)

lemma overwrite_front: "length bs \<le> length d \<Longrightarrow> length (overwrite 0 bs d) = length d \<and> take (length bs) (overwrite 0 bs d) = bs"
  by (simp add: overwrite_def)

lemma last_bytes_short: "length m mod 64 + length p < 64 \<Longrightarrow> last_bytes (m @ p) = last_bytes m @ p"
  by (metis length_append length_last_bytes snd_conv transform_blocks_short transform_blocks_split transform_blocks_whole)

lemma absorbed_update:
  assumes "absorbed m c" "length p < 2 ^ 32"
  shows "absorbed (m @ p) (edsio_md5_update p c)"
proof -
  let ?i = "length m mod 64" and ?b = "md5_buffer c"
  let ?st = "fst (transform_blocks md5_magic (whole_blocks m))"
  have c: "md5_state c = ?st" "md5_count c = bit_count (length m)" "length ?b = 64" "take ?i ?b = last_bytes m"
    using assms(1) transform_blocks_whole [of md5_magic m] by (simp_all add: absorbed_def)
  note idx = md5_index_count [OF c(2)]
  note cnt = bit_count_add [OF assms(2), of "length m"]
  have i: "?i < 64" by simp
  show ?thesis
  proof (cases "64 - ?i \<le> length p")
    case True
    let ?h = "take (64 - ?i) p" and ?r = "drop (64 - ?i) p"
    have h: "length ?h = 64 - ?i" using True by simp
    have full: "overwrite ?i ?h ?b = last_bytes m @ ?h"
      using overwrite_full [of ?i ?h ?b] c(3, 4) h i by simp
    obtain st rest where tb: "transform_blocks (MD5Transform ?st (last_bytes m @ ?h)) ?r = (st, rest)" by fastforce
    have "transform_blocks md5_magic (m @ p) = transform_blocks ?st ((last_bytes m @ ?h) @ ?r)"
      using transform_blocks_split [of md5_magic m p] by simp
    also have "\<dots> = (st, rest)" using h i tb by (subst transform_blocks_one) simp_all
    finally have all: "transform_blocks md5_magic (m @ p) = (st, rest)" .
    then have rest: "rest = last_bytes (m @ p)" using transform_blocks_whole [of md5_magic "m @ p"] by simp
    then have lr: "length rest = length (m @ p) mod 64" by simp
    then have "length rest \<le> 64" by (metis less_imp_le mod_less_divisor zero_less_numeral)
    moreover have "length (last_bytes m @ ?h) = 64" unfolding length_append length_last_bytes h using i by simp
    ultimately have "take (length rest) (overwrite 0 rest (last_bytes m @ ?h)) = rest" "length (overwrite 0 rest (last_bytes m @ ?h)) = 64"
      using overwrite_front [of rest "last_bytes m @ ?h"] by simp_all
    then show ?thesis
      using True tb all rest lr cnt unfolding absorbed_def edsio_md5_update_def Let_def idx c(1, 2) full by (simp add: c(2))
  next
    case False
    then have sh: "last_bytes (m @ p) = last_bytes m @ p" by (simp add: last_bytes_short)
    have st: "fst (transform_blocks md5_magic (m @ p)) = ?st"
      using transform_blocks_split [of md5_magic m p] False by (simp add: transform_blocks_short)
    have ln: "length (m @ p) mod 64 = ?i + length p" using length_last_bytes [of "m @ p"] unfolding sh by simp
    have "take (?i + length p) (overwrite ?i p ?b) = last_bytes m @ p" "length (overwrite ?i p ?b) = 64"
      using overwrite_take [of ?i ?b p] c(3, 4) False i by (simp_all add: length_overwrite)
    then show ?thesis
      using False cnt c st sh ln unfolding absorbed_def edsio_md5_update_def Let_def idx by simp
  qed
qed

lemma Encode_byte: "(ucast (drop_bit k w AND 0xff) :: byte) = of_nat (unat (w :: u32) div 2 ^ k)"
  unfolding and_mask_take_bit by (simp add: word_unat_eq_iff unsigned_ucast_eq take_bit_nat_def unat_take_bit unat_drop_bit)

lemma le_bytes_4: "le_bytes 4 v = [of_nat v, of_nat (v div 2 ^ 8), of_nat (v div 2 ^ 16), of_nat (v div 2 ^ 24)]"
proof -
  have "(4 :: nat) = Suc (Suc (Suc (Suc 0)))" by simp
  then show ?thesis by (simp only: le_bytes.simps) (simp flip: div_mult2_eq)
qed

lemma Encode_words: "Encode ws = concat (map (\<lambda>w. le_bytes 4 (unat w)) ws)"
proof -
  have "[ucast (w AND 0xff), ucast (drop_bit 8 w AND 0xff), ucast (drop_bit 16 w AND 0xff), ucast (drop_bit 24 w AND 0xff)] = le_bytes 4 (unat w)" for w :: u32
    using Encode_byte [of 0 w] Encode_byte [of 8 w] Encode_byte [of 16 w] Encode_byte [of 24 w]
    by (simp only: le_bytes_4 drop_bit_0 id_apply power_0 div_by_1)
  then show ?thesis by (simp add: Encode_def)
qed

lemma le_bytes_append: "le_bytes (m + n) v = le_bytes m v @ le_bytes n (v div 256 ^ m)"
  by (induction m arbitrary: v) (simp_all add: div_mult2_eq)

lemma le_bytes_mod: "le_bytes n (v mod 256 ^ n) = le_bytes n v"
  by (metis le_bytes_le_val le_val_le_bytes length_le_bytes)

lemma Encode_bits: "Encode [fst (bit_count n), snd (bit_count n)] = le_bytes 8 (8 * n mod 2 ^ 64)"
proof -
  let ?v = "8 * n"
  have "le_bytes 8 (?v mod 2 ^ 64) = le_bytes (4 + 4) ?v" using le_bytes_mod [of 8 ?v] by simp
  also have "\<dots> = le_bytes 4 ?v @ le_bytes 4 (?v div 2 ^ 32)" by (simp only: le_bytes_append) simp
  also have "\<dots> = le_bytes 4 (?v mod 2 ^ 32) @ le_bytes 4 (?v div 2 ^ 32 mod 2 ^ 32)"
    using le_bytes_mod [of 4 ?v] le_bytes_mod [of 4 "?v div 2 ^ 32"] by simp
  finally show ?thesis by (simp add: Encode_words bit_count_def unat_of_nat_u32 del: of_nat_mult)
qed

lemma md5_final_digest:
  assumes "absorbed m c"
  shows "edsio_md5_final c = (md5_digest m, md5_zero)"
proof -
  let ?i = "length m mod 64"
  define pl where "pl = (if ?i < 56 then 56 - ?i else 120 - ?i)"
  let ?bits = "Encode [fst (md5_count c), snd (md5_count c)]"
  have c: "md5_count c = bit_count (length m)" "md5_index c = ?i"
    using assms md5_index_count by (auto simp: absorbed_def)
  have "i < 64 \<Longrightarrow> pl = (if i < 56 then 56 - i else 120 - i) \<Longrightarrow> 0 < pl \<and> pl \<le> 64 \<and> pl - 1 = (119 - i) mod 64" for i pl :: nat
    by (auto simp: le_mod_geq)
  from this [OF _ pl_def] have pl: "0 < pl" "pl \<le> 64" "pl - 1 = (119 - ?i) mod 64" by simp_all
  then have "take pl PADDING = 0x80 # replicate (pl - 1) 0"
    by (cases pl) (simp_all add: PADDING_def)
  then have pad: "take pl PADDING @ ?bits = md5_pad (length m)"
    by (simp add: md5_pad_def c(1) Encode_bits pl(3) del: One_nat_def)
  have "absorbed ((m @ take pl PADDING) @ ?bits) (edsio_md5_update ?bits (edsio_md5_update (take pl PADDING) c))"
    using assms pl(2) by (intro absorbed_update) (simp_all add: Encode_def)
  then have "md5_state (edsio_md5_update ?bits (edsio_md5_update (take pl PADDING) c)) = fst (transform_blocks md5_magic (m @ md5_pad (length m)))"
    using pad by (simp add: absorbed_def)
  then show ?thesis
    by (simp add: edsio_md5_final_def md5_digest_def Let_def c(2) pl_def split: prod.splits)
qed

text \<open>C13: However a message is cut into pieces, initialising a context, adding the pieces and finishing gives the digest of RFC 1321 of the
  whole message, with the length counted modulo 2^64 bits.\<close>

theorem md5_pieces:
  assumes "length (md5_buffer c) = 64" "\<forall>p \<in> set ps. length p < 2 ^ 32"
  shows "edsio_md5_final (foldl (\<lambda>c p. edsio_md5_update p c) (edsio_md5_init c) ps) = (md5_digest (concat ps), md5_zero)"
proof -
  have "absorbed m c \<Longrightarrow> \<forall>p \<in> set ps. length p < 2 ^ 32 \<Longrightarrow> absorbed (m @ concat ps) (foldl (\<lambda>c p. edsio_md5_update p c) c ps)" for m c
  proof (induction ps arbitrary: m c)
    case (Cons p ps)
    then show ?case using Cons.IH [of "m @ p" "edsio_md5_update p c"] absorbed_update by simp
  qed simp
  then show ?thesis using assms absorbed_init md5_final_digest by fastforce
qed

lemma md5_abc: "md5_digest [97, 98, 99] = [0x90, 0x01, 0x50, 0x98, 0x3c, 0xd2, 0x4f, 0xb0, 0xd6, 0x96, 0x3f, 0x7d, 0x28, 0xe1, 0x7f, 0x72]"
proof -
  let ?b = "97 # 98 # 99 # 0x80 # replicate 52 0 @ [24, 0, 0, 0, 0, 0, 0, 0] :: bytes"
  have b: "[97, 98, 99] @ md5_pad 3 = ?b" using le_bytes_append [of 4 4 24] by (simp add: md5_pad_def le_bytes_4)
  have "transform_blocks md5_magic ?b = (MD5Transform md5_magic ?b, [])"
    using transform_blocks_one [of ?b md5_magic "[]"] by (simp add: transform_blocks_short)
  moreover have "(let (a, b, c, d) = MD5Transform md5_magic ?b in Encode [a, b, c, d]) =
      [0x90, 0x01, 0x50, 0x98, 0x3c, 0xd2, 0x4f, 0xb0, 0xd6, 0x96, 0x3f, 0x7d, 0x28, 0xe1, 0x7f, 0x72]"
    by code_simp
  moreover have "length [97, 98, 99 :: byte] = 3" by simp
  ultimately show ?thesis unfolding md5_digest_def by (simp only: b fst_conv Let_def)
qed

theorem md5_pieces_witness:
  "edsio_md5_final (foldl (\<lambda>c p. edsio_md5_update p c) (edsio_md5_init md5_zero) [[97], [98, 99]]) =
     ([0x90, 0x01, 0x50, 0x98, 0x3c, 0xd2, 0x4f, 0xb0, 0xd6, 0x96, 0x3f, 0x7d, 0x28, 0xe1, 0x7f, 0x72], md5_zero)"
  using md5_pieces [of md5_zero "[[97], [98, 99]]"] by (simp add: md5_abc md5_zero_def)

lemma length_md5_digest [simp]: "length (md5_digest m) = 16"
  by (simp add: md5_digest_def Encode_def split: prod.splits)

end
