(* ===== verification/Edsio.thy ===== *)
theory Edsio
  imports CStdio
begin

text \<open>
  The serialisation library of xdelta 1, \<^verbatim>\<open>libedsio\<close> (\<^verbatim>\<open>default.c\<close>, \<^verbatim>\<open>fh.c\<close>, \<^verbatim>\<open>generic.c\<close>, \<^verbatim>\<open>library.c\<close>), and the readers and writers of
  the types of \<^verbatim>\<open>xd.ser\<close> (\<^verbatim>\<open>xd_edsio.c\<close>).  A source is the function behind \<^verbatim>\<open>source_read\<close>, a sink the one behind
  \<^verbatim>\<open>sink_write\<close>; both may fail.  Reading has three results: an object, a failure, and a store outside of an
  object.  The locales \<open>serial_source\<close> and \<open>serial_sink\<close> say what a file handle has to offer, and show that what was
  written is read back.
\<close>

unbundle bit_operations_syntax

section \<open>Results of reading\<close>

datatype ('a, 's) parse = Parsed 'a 's | Refused | Wild

fun pbind :: "('a, 's) parse \<Rightarrow> ('a \<Rightarrow> 's \<Rightarrow> ('b, 's) parse) \<Rightarrow> ('b, 's) parse" where
  "pbind (Parsed a s) f = f a s"
| "pbind Refused f = Refused"
| "pbind Wild f = Wild"

type_synonym 's source_read = "nat \<Rightarrow> 's \<Rightarrow> (bytes \<times> 's) option"
type_synonym 's sink_write = "bytes \<Rightarrow> 's \<Rightarrow> 's option"

section \<open>Default source methods\<close>

definition source_next_bytes_known :: "'s source_read \<Rightarrow> nat \<Rightarrow> 's \<Rightarrow> (bytes, 's) parse" where
  "source_next_bytes_known rd n s = (case rd n s of None \<Rightarrow> Refused | Some (b, s) \<Rightarrow> Parsed b s)"

definition source_next_uint8 :: "'s source_read \<Rightarrow> 's \<Rightarrow> (byte, 's) parse" where
  "source_next_uint8 rd s = pbind (source_next_bytes_known rd 1 s) (\<lambda>b s. Parsed (hd b) s)"

definition source_next_uint16 :: "'s source_read \<Rightarrow> 's \<Rightarrow> (u16, 's) parse" where
  "source_next_uint16 rd s = pbind (source_next_bytes_known rd 2 s) (\<lambda>b s. Parsed (of_nat (be_val b)) s)"

definition source_next_uint32 :: "'s source_read \<Rightarrow> 's \<Rightarrow> (u32, 's) parse" where
  "source_next_uint32 rd s = pbind (source_next_bytes_known rd 4 s) (\<lambda>b s. Parsed (of_nat (be_val b)) s)"

definition source_next_bool :: "'s source_read \<Rightarrow> 's \<Rightarrow> (bool, 's) parse" where
  "source_next_bool rd s = pbind (source_next_bytes_known rd 1 s) (\<lambda>b s. Parsed (hd b \<noteq> 0) s)"

text \<open>A number has groups of seven bits, the lowest first, and all but the last are marked.  The groups go to an array of
  16; \<open>room\<close> is what is left of it.\<close>

primrec uint_groups :: "'s source_read \<Rightarrow> nat \<Rightarrow> 's \<Rightarrow> (bytes, 's) parse" where
  "uint_groups rd 0 s = pbind (source_next_uint8 rd s) (\<lambda>c s. Wild)"
| "uint_groups rd (Suc room) s =
     pbind (source_next_uint8 rd s) (\<lambda>c s.
       if c AND 0x80 = 0 then Parsed [c AND 0x7f] s
       else pbind (uint_groups rd room s) (\<lambda>arr s. Parsed ((c AND 0x7f) # arr) s))"

definition source_next_uint :: "'s source_read \<Rightarrow> 's \<Rightarrow> (u32, 's) parse" where
  "source_next_uint rd s =
     pbind (uint_groups rd 16 s) (\<lambda>arr s. Parsed (foldr (\<lambda>b x. push_bit 7 x OR ucast b) arr 0) s)"

text \<open>\<^verbatim>\<open>g_malloc0\<close> returns a null pointer for a size of zero, which the callers take for a failure.  The size is a 32-bit
  number.\<close>

definition source_alloc :: "u32 \<Rightarrow> nat option" where
  "source_alloc n = (if n = 0 then None else Some (unat n))"

text \<open>The string is stored with a byte for its end; \<open>name\<close> is the C string, up to the first zero byte.\<close>

definition cstring :: "bytes \<Rightarrow> bytes" where
  "cstring = takeWhile (\<lambda>b. b \<noteq> 0)"

definition source_next_string :: "'s source_read \<Rightarrow> 's \<Rightarrow> (bytes, 's) parse" where
  "source_next_string rd s =
     pbind (source_next_uint rd s) (\<lambda>len s.
       case source_alloc (len + 1) of
         None \<Rightarrow> Refused
       | Some _ \<Rightarrow> pbind (source_next_bytes_known rd (unat len) s) (\<lambda>b s. Parsed (cstring b) s))"

text \<open>The elements from \<open>i\<close> to \<open>n\<close> of an array.\<close>

function next_elements :: "(nat \<Rightarrow> 's \<Rightarrow> ('a, 's) parse) \<Rightarrow> nat \<Rightarrow> nat \<Rightarrow> 's \<Rightarrow> ('a list, 's) parse" where
  "next_elements get n i s =
     (if i < n then pbind (get i s) (\<lambda>x s. pbind (next_elements get n (Suc i) s) (\<lambda>xs s. Parsed (x # xs) s)) else Parsed [] s)"
  by pat_completeness auto
termination by (relation "measure (\<lambda>(get, n, i, s). n - i)") auto

declare next_elements.simps [simp del]

text \<open>An array of elements of \<open>width\<close> bytes; \<open>get cap i\<close> reads element \<open>i\<close>, knowing the bytes there are.\<close>

definition source_next_array :: "'s source_read \<Rightarrow> u32 \<Rightarrow> (nat \<Rightarrow> nat \<Rightarrow> 's \<Rightarrow> ('a, 's) parse) \<Rightarrow> 's \<Rightarrow> ('a list, 's) parse" where
  "source_next_array rd width get s =
     pbind (source_next_uint rd s) (\<lambda>len s.
       case source_alloc (width * len) of
         None \<Rightarrow> Refused
       | Some n \<Rightarrow> next_elements (get n) (unat len) 0 s)"

text \<open>\<open>inside cap e r\<close> guards a store that ends at byte \<open>e\<close> of the array.\<close>

definition inside :: "nat \<Rightarrow> nat \<Rightarrow> ('a, 's) parse \<Rightarrow> ('a, 's) parse" where
  "inside cap e r = (if e \<le> cap then r else Wild)"

section \<open>The objects of xdelta\<close>

record XdeltaChecksum =
  ck_high :: u16
  ck_low :: u16

record XdeltaInstruction =
  i_index :: u32
  i_offset :: u32
  i_length :: u32
  output_start :: u32

record XdeltaSourceInfo =
  si_name :: bytes
  si_md5 :: bytes
  si_len :: u32
  isdata :: bool
  sequential :: bool
  position :: u32
  copies :: u32
  copy_length :: u32

record XdeltaControl =
  to_md5 :: bytes
  to_len :: u32
  has_data :: bool
  source_info :: "XdeltaSourceInfo list"
  inst :: "XdeltaInstruction list"

record XdeltaIndex =
  file_len :: u32
  file_md5 :: bytes
  index_cksums :: "XdeltaChecksum list"

record Version0SourceInfo =
  v0_md5 :: bytes
  v0_real_md5 :: bytes
  v0_length :: u32

record Version0Instruction =
  v0i_offset :: u32
  v0i_length :: u32
  v0i_type :: byte
  v0i_index :: byte

record Version0Control =
  normalized :: bool
  data_len :: u32
  to_info :: Version0SourceInfo
  v0_source_info :: "Version0SourceInfo list"
  v0_inst :: "Version0Instruction list"

section \<open>Reading the objects\<close>

definition unserialize_checksum_at :: "'s source_read \<Rightarrow> nat \<Rightarrow> nat \<Rightarrow> 's \<Rightarrow> (XdeltaChecksum, 's) parse" where
  "unserialize_checksum_at rd cap a s =
     pbind (source_next_uint16 rd s) (\<lambda>h s. inside cap (a + 2)
       (pbind (source_next_uint16 rd s) (\<lambda>l s. inside cap (a + 4) (Parsed \<lparr>ck_high = h, ck_low = l\<rparr> s))))"

definition unserialize_xdeltachecksum :: "'s source_read \<Rightarrow> 's \<Rightarrow> (XdeltaChecksum, 's) parse" where
  "unserialize_xdeltachecksum rd s = unserialize_checksum_at rd 4 0 s"

definition unserialize_xdeltaindex :: "'s source_read \<Rightarrow> 's \<Rightarrow> (XdeltaIndex, 's) parse" where
  "unserialize_xdeltaindex rd s =
     pbind (source_next_uint rd s) (\<lambda>n s.
     pbind (source_next_bytes_known rd 16 s) (\<lambda>m s.
     pbind (source_next_array rd 4 (\<lambda>cap i. unserialize_checksum_at rd cap (4 * i)) s) (\<lambda>cs s.
       Parsed \<lparr>file_len = n, file_md5 = m, index_cksums = cs\<rparr> s)))"

definition unserialize_xdeltasourceinfo :: "'s source_read \<Rightarrow> 's \<Rightarrow> (XdeltaSourceInfo, 's) parse" where
  "unserialize_xdeltasourceinfo rd s =
     pbind (source_next_string rd s) (\<lambda>name s.
     pbind (source_next_bytes_known rd 16 s) (\<lambda>m s.
     pbind (source_next_uint rd s) (\<lambda>len s.
     pbind (source_next_bool rd s) (\<lambda>d s.
     pbind (source_next_bool rd s) (\<lambda>q s.
       Parsed \<lparr>si_name = name, si_md5 = m, si_len = len, isdata = d, sequential = q, position = 0, copies = 0, copy_length = 0\<rparr> s)))))"

text \<open>An array of pointers: the slot is set to null before the object is read.\<close>

definition pointer_at :: "('s \<Rightarrow> ('a, 's) parse) \<Rightarrow> nat \<Rightarrow> nat \<Rightarrow> 's \<Rightarrow> ('a, 's) parse" where
  "pointer_at get cap i s = inside cap (4 * i + 4) (get s)"

definition unserialize_instruction_at :: "'s source_read \<Rightarrow> nat \<Rightarrow> nat \<Rightarrow> 's \<Rightarrow> (XdeltaInstruction, 's) parse" where
  "unserialize_instruction_at rd cap a s =
     pbind (source_next_uint rd s) (\<lambda>k s. inside cap (a + 4)
       (pbind (source_next_uint rd s) (\<lambda>off s. inside cap (a + 8)
         (pbind (source_next_uint rd s) (\<lambda>len s. inside cap (a + 12)
           (Parsed \<lparr>i_index = k, i_offset = off, i_length = len, output_start = 0\<rparr> s))))))"

definition unserialize_xdeltainstruction :: "'s source_read \<Rightarrow> 's \<Rightarrow> (XdeltaInstruction, 's) parse" where
  "unserialize_xdeltainstruction rd s = unserialize_instruction_at rd 16 0 s"

definition unserialize_xdeltacontrol :: "'s source_read \<Rightarrow> 's \<Rightarrow> (XdeltaControl, 's) parse" where
  "unserialize_xdeltacontrol rd s =
     pbind (source_next_bytes_known rd 16 s) (\<lambda>m s.
     pbind (source_next_uint rd s) (\<lambda>len s.
     pbind (source_next_bool rd s) (\<lambda>d s.
     pbind (source_next_array rd 4 (pointer_at (unserialize_xdeltasourceinfo rd)) s) (\<lambda>infos s.
     pbind (source_next_array rd 16 (\<lambda>cap i. unserialize_instruction_at rd cap (16 * i)) s) (\<lambda>is s.
       Parsed \<lparr>to_md5 = m, to_len = len, has_data = d, source_info = infos, inst = is\<rparr> s)))))"

definition unserialize_rsyncindexelt_at :: "'s source_read \<Rightarrow> nat \<Rightarrow> nat \<Rightarrow> 's \<Rightarrow> (bytes \<times> XdeltaChecksum, 's) parse" where
  "unserialize_rsyncindexelt_at rd cap a s =
     inside cap (a + 16) (pbind (source_next_bytes_known rd 16 s) (\<lambda>m s.
       pbind (unserialize_checksum_at rd cap (a + 16) s) (\<lambda>c s. Parsed (m, c) s)))"

definition unserialize_rsyncindex :: "'s source_read \<Rightarrow> 's \<Rightarrow> (u32 \<times> u32 \<times> bytes \<times> (bytes \<times> XdeltaChecksum) list, 's) parse" where
  "unserialize_rsyncindex rd s =
     pbind (source_next_uint rd s) (\<lambda>seg s.
     pbind (source_next_uint rd s) (\<lambda>len s.
     pbind (source_next_bytes_known rd 16 s) (\<lambda>m s.
     pbind (source_next_array rd 28 (\<lambda>cap i. unserialize_rsyncindexelt_at rd cap (28 * i)) s) (\<lambda>es s.
       Parsed (seg, len, m, es) s))))"

definition unserialize_version0sourceinfo :: "'s source_read \<Rightarrow> 's \<Rightarrow> (Version0SourceInfo, 's) parse" where
  "unserialize_version0sourceinfo rd s =
     pbind (source_next_bytes_known rd 16 s) (\<lambda>m s.
     pbind (source_next_bytes_known rd 16 s) (\<lambda>m' s.
     pbind (source_next_uint rd s) (\<lambda>len s. Parsed \<lparr>v0_md5 = m, v0_real_md5 = m', v0_length = len\<rparr> s)))"

definition unserialize_version0instruction_at :: "'s source_read \<Rightarrow> nat \<Rightarrow> nat \<Rightarrow> 's \<Rightarrow> (Version0Instruction, 's) parse" where
  "unserialize_version0instruction_at rd cap a s =
     pbind (source_next_uint rd s) (\<lambda>off s. inside cap (a + 4)
       (pbind (source_next_uint rd s) (\<lambda>len s. inside cap (a + 8)
         (Parsed \<lparr>v0i_offset = off, v0i_length = len, v0i_type = 0, v0i_index = 0\<rparr> s))))"

definition unserialize_version0control :: "'s source_read \<Rightarrow> 's \<Rightarrow> (Version0Control, 's) parse" where
  "unserialize_version0control rd s =
     pbind (source_next_bool rd s) (\<lambda>nrm s.
     pbind (source_next_uint rd s) (\<lambda>len s.
     pbind (unserialize_version0sourceinfo rd s) (\<lambda>info s.
     pbind (source_next_array rd 4 (pointer_at (unserialize_version0sourceinfo rd)) s) (\<lambda>infos s.
     pbind (source_next_array rd 12 (\<lambda>cap i. unserialize_version0instruction_at rd cap (12 * i)) s) (\<lambda>is s.
       Parsed \<lparr>normalized = nrm, data_len = len, to_info = info, v0_source_info = infos, v0_inst = is\<rparr> s)))))"

section \<open>Objects of unknown type\<close>

definition ST_XdeltaChecksum :: int where "ST_XdeltaChecksum = 2 ^ 9 + 3"
definition ST_XdeltaIndex :: int where "ST_XdeltaIndex = 2 ^ 10 + 3"
definition ST_XdeltaSourceInfo :: int where "ST_XdeltaSourceInfo = 2 ^ 11 + 3"
definition ST_Version0SourceInfo :: int where "ST_Version0SourceInfo = 2 ^ 12 + 3"
definition ST_Version0Control :: int where "ST_Version0Control = 2 ^ 13 + 3"
definition ST_Version0Instruction :: int where "ST_Version0Instruction = 2 ^ 14 + 3"
definition ST_XdeltaControl :: int where "ST_XdeltaControl = 2 ^ 15 + 3"
definition ST_XdeltaInstruction :: int where "ST_XdeltaInstruction = 2 ^ 16 + 3"
definition ST_RsyncIndexElt :: int where "ST_RsyncIndexElt = 2 ^ 17 + 3"
definition ST_RsyncIndex :: int where "ST_RsyncIndex = 2 ^ 18 + 3"

text \<open>The types \<^verbatim>\<open>xd_edsio_init\<close> registers, as \<^verbatim>\<open>qsort\<close> leaves them, and the libraries that are known.\<close>

definition ser_array :: "int list" where
  "ser_array = [ST_XdeltaChecksum, ST_XdeltaIndex, ST_XdeltaSourceInfo, ST_Version0SourceInfo, ST_Version0Control, ST_Version0Instruction,
     ST_XdeltaControl, ST_XdeltaInstruction, ST_RsyncIndexElt, ST_RsyncIndex]"

definition edsio_library_check :: "int \<Rightarrow> bool" where
  "edsio_library_check n \<longleftrightarrow> n = 3 \<or> n = 6"

text \<open>The binary search has no test that the range is not empty: the value \<open>None\<close> is the search without end, and
  \<open>Some None\<close> an access outside of the array.  \<open>quot\<close> is the division of C.\<close>

definition half :: "int \<Rightarrow> int" where
  "half n = (if n < 0 then - ((- n) div 2) else n div 2)"

partial_function (option) find_loop :: "int list \<Rightarrow> int \<Rightarrow> int \<Rightarrow> int \<Rightarrow> nat option option" where
  "find_loop arr type low high =
     (let i = half (low + high) in
      if i < 0 \<or> int (length arr) \<le> i then Some None
      else if arr ! nat i < type then find_loop arr type (i + 1) high
      else if type < arr ! nat i then find_loop arr type low (i - 1)
      else Some (Some (nat i)))"

datatype object = Control XdeltaControl | Control0 Version0Control | Other

text \<open>The object of a registered type; \<open>Other\<close> stands for the types that are not used.\<close>

definition parse_map :: "('a \<Rightarrow> 'b) \<Rightarrow> ('a, 's) parse \<Rightarrow> ('b, 's) parse" where
  "parse_map f r = pbind r (\<lambda>x s. Parsed (f x) s)"

definition unserialize_func :: "'s source_read \<Rightarrow> nat \<Rightarrow> 's \<Rightarrow> (object, 's) parse" where
  "unserialize_func rd k s =
     (if k = 0 then parse_map (\<lambda>_. Other) (unserialize_xdeltachecksum rd s)
      else if k = 1 then parse_map (\<lambda>_. Other) (unserialize_xdeltaindex rd s)
      else if k = 2 then parse_map (\<lambda>_. Other) (unserialize_xdeltasourceinfo rd s)
      else if k = 3 then parse_map (\<lambda>_. Other) (unserialize_version0sourceinfo rd s)
      else if k = 4 then parse_map Control0 (unserialize_version0control rd s)
      else if k = 5 then parse_map (\<lambda>_. Other) (unserialize_version0instruction_at rd 12 0 s)
      else if k = 6 then parse_map Control (unserialize_xdeltacontrol rd s)
      else if k = 7 then parse_map (\<lambda>_. Other) (unserialize_xdeltainstruction rd s)
      else if k = 8 then parse_map (\<lambda>_. Other) (unserialize_rsyncindexelt_at rd 28 0 s)
      else parse_map (\<lambda>_. Other) (unserialize_rsyncindex rd s))"

text \<open>\<^verbatim>\<open>source_type\<close> of a handle: the type, then a size that is not used.  A failure is the negative \<^verbatim>\<open>ST_Error\<close>.\<close>

definition handle_source_type :: "'s source_read \<Rightarrow> 's \<Rightarrow> (int, 's) parse" where
  "handle_source_type rd s =
     pbind (source_next_uint32 rd s) (\<lambda>x s. pbind (source_next_uint32 rd s) (\<lambda>_ s. Parsed (sint x) s))"

definition serializeio_unserialize_generic :: "'s source_read \<Rightarrow> 's \<Rightarrow> (int \<times> object, 's) parse option" where
  "serializeio_unserialize_generic rd s =
     (case handle_source_type rd s of
        Parsed type s \<Rightarrow>
          if type < 0 then Some Refused
          else if \<not> edsio_library_check (type mod 256) then Some Refused
          else map_option (\<lambda>k. case k of
              None \<Rightarrow> Wild
            | Some k \<Rightarrow> parse_map (\<lambda>x. (type, x)) (unserialize_func rd k s)) (find_loop ser_array type 0 (int (length ser_array)))
      | Refused \<Rightarrow> Some Refused
      | Wild \<Rightarrow> Some Wild)"

text \<open>The last test is meant to compare the types; with an or of the bits it only fails when both are empty.\<close>

definition serializeio_unserialize_generic_acceptable :: "'s source_read \<Rightarrow> int \<Rightarrow> 's \<Rightarrow> (int \<times> object, 's) parse option" where
  "serializeio_unserialize_generic_acceptable rd accept s =
     map_option (\<lambda>r. pbind r (\<lambda>(type, x) s.
        if type mod 256 \<noteq> accept mod 256 then Refused
        else if type div 256 = 0 \<and> accept div 256 = 0 then Refused
        else Parsed (type, x) s)) (serializeio_unserialize_generic rd s)"

section \<open>Default sink methods\<close>

definition sink_next_uint8 :: "'s sink_write \<Rightarrow> byte \<Rightarrow> 's \<Rightarrow> 's option" where
  "sink_next_uint8 wr b s = wr [b] s"

definition sink_next_bool :: "'s sink_write \<Rightarrow> bool \<Rightarrow> 's \<Rightarrow> 's option" where
  "sink_next_bool wr b s = wr [if b then 1 else 0] s"

definition sink_next_uint16 :: "'s sink_write \<Rightarrow> u16 \<Rightarrow> 's \<Rightarrow> 's option" where
  "sink_next_uint16 wr n s = wr (be_bytes 2 (unat n)) s"

definition sink_next_uint32 :: "'s sink_write \<Rightarrow> u32 \<Rightarrow> 's \<Rightarrow> 's option" where
  "sink_next_uint32 wr n s = wr (be_bytes 4 (unat n)) s"

function uint_bytes :: "u32 \<Rightarrow> bytes" where
  "uint_bytes num =
     (let left = ucast (num AND 0x7f); num = drop_bit 7 num
      in if num = 0 then [left] else (left OR 0x80) # uint_bytes num)"
  by pat_completeness auto
termination
proof (relation "measure unat", simp_all add: unat_drop_bit)
  fix num :: u32 assume "drop_bit 7 num \<noteq> 0"
  then have "unat num \<noteq> 0" by (metis drop_bit_of_0 unsigned_eq_0_iff)
  then show "unat num div 128 < unat num" by simp
qed

declare uint_bytes.simps [simp del]

definition sink_next_uint :: "'s sink_write \<Rightarrow> u32 \<Rightarrow> 's \<Rightarrow> 's option" where
  "sink_next_uint wr n s = wr (uint_bytes n) s"

definition sink_next_bytes_known :: "'s sink_write \<Rightarrow> bytes \<Rightarrow> 's \<Rightarrow> 's option" where
  "sink_next_bytes_known wr b s = wr b s"

definition sink_next_bytes :: "'s sink_write \<Rightarrow> bytes \<Rightarrow> 's \<Rightarrow> 's option" where
  "sink_next_bytes wr b s = Option.bind (sink_next_uint wr (of_nat (length b)) s) (wr b)"

definition sink_next_string :: "'s sink_write \<Rightarrow> bytes \<Rightarrow> 's \<Rightarrow> 's option" where
  "sink_next_string wr b s = sink_next_bytes wr (cstring b) s"

section \<open>Writing the objects\<close>

primrec write_elements :: "('a \<Rightarrow> 's \<Rightarrow> 's option) \<Rightarrow> 'a list \<Rightarrow> 's \<Rightarrow> 's option" where
  "write_elements put [] s = Some s"
| "write_elements put (x # xs) s = Option.bind (put x s) (write_elements put xs)"

definition serialize_xdeltachecksum :: "'s sink_write \<Rightarrow> XdeltaChecksum \<Rightarrow> 's \<Rightarrow> 's option" where
  "serialize_xdeltachecksum wr c s = Option.bind (sink_next_uint16 wr (ck_high c) s) (sink_next_uint16 wr (ck_low c))"

definition serialize_xdeltaindex :: "'s sink_write \<Rightarrow> XdeltaIndex \<Rightarrow> 's \<Rightarrow> 's option" where
  "serialize_xdeltaindex wr x s =
     Option.bind (sink_next_uint wr (file_len x) s) (\<lambda>s.
     Option.bind (sink_next_bytes_known wr (file_md5 x) s) (\<lambda>s.
     Option.bind (sink_next_uint wr (of_nat (length (index_cksums x))) s)
       (write_elements (serialize_xdeltachecksum wr) (index_cksums x))))"

definition serialize_xdeltasourceinfo :: "'s sink_write \<Rightarrow> XdeltaSourceInfo \<Rightarrow> 's \<Rightarrow> 's option" where
  "serialize_xdeltasourceinfo wr x s =
     Option.bind (sink_next_string wr (si_name x) s) (\<lambda>s.
     Option.bind (sink_next_bytes_known wr (si_md5 x) s) (\<lambda>s.
     Option.bind (sink_next_uint wr (si_len x) s) (\<lambda>s.
     Option.bind (sink_next_bool wr (isdata x) s)
       (sink_next_bool wr (sequential x)))))"

definition serialize_xdeltainstruction :: "'s sink_write \<Rightarrow> XdeltaInstruction \<Rightarrow> 's \<Rightarrow> 's option" where
  "serialize_xdeltainstruction wr x s =
     Option.bind (sink_next_uint wr (i_index x) s) (\<lambda>s.
     Option.bind (sink_next_uint wr (i_offset x) s) (sink_next_uint wr (i_length x)))"

definition serialize_xdeltacontrol_internal :: "'s sink_write \<Rightarrow> XdeltaControl \<Rightarrow> 's \<Rightarrow> 's option" where
  "serialize_xdeltacontrol_internal wr x s =
     Option.bind (sink_next_bytes_known wr (to_md5 x) s) (\<lambda>s.
     Option.bind (sink_next_uint wr (to_len x) s) (\<lambda>s.
     Option.bind (sink_next_bool wr (has_data x) s) (\<lambda>s.
     Option.bind (sink_next_uint wr (of_nat (length (source_info x))) s) (\<lambda>s.
     Option.bind (write_elements (serialize_xdeltasourceinfo wr) (source_info x) s) (\<lambda>s.
     Option.bind (sink_next_uint wr (of_nat (length (inst x))) s)
       (write_elements (serialize_xdeltainstruction wr) (inst x)))))))"

text \<open>The sizes that go with the type; the sizes of the structs are those of a 32-bit target.\<close>

definition ALIGN_8 :: "u32 \<Rightarrow> u32" where
  "ALIGN_8 v = (if v mod 8 \<noteq> 0 then (v + 8) AND NOT 7 else v)"

definition serializeio_count_xdeltasourceinfo :: "XdeltaSourceInfo \<Rightarrow> u32" where
  "serializeio_count_xdeltasourceinfo x = ALIGN_8 (ALIGN_8 48 + of_nat (length (cstring (si_name x)) + 1))"

definition serializeio_count_xdeltainstruction :: "XdeltaInstruction \<Rightarrow> u32" where
  "serializeio_count_xdeltainstruction x = ALIGN_8 16"

definition serializeio_count_xdeltacontrol :: "XdeltaControl \<Rightarrow> u32" where
  "serializeio_count_xdeltacontrol x =
     (let size = ALIGN_8 48;
          size = ALIGN_8 (foldl (\<lambda>n i. n + (serializeio_count_xdeltasourceinfo i + 4)) size (source_info x))
      in ALIGN_8 (foldl (\<lambda>n i. n + serializeio_count_xdeltainstruction i) size (inst x)))"

definition handle_sink_type :: "'s sink_write \<Rightarrow> int \<Rightarrow> u32 \<Rightarrow> 's \<Rightarrow> 's option" where
  "handle_sink_type wr type len s = Option.bind (sink_next_uint32 wr (of_int type) s) (sink_next_uint32 wr len)"

definition serialize_xdeltacontrol :: "'s sink_write \<Rightarrow> XdeltaControl \<Rightarrow> 's \<Rightarrow> 's option" where
  "serialize_xdeltacontrol wr x s =
     Option.bind (handle_sink_type wr ST_XdeltaControl (serializeio_count_xdeltacontrol x) s) (serialize_xdeltacontrol_internal wr x)"

section \<open>Finding a type\<close>

lemma find_control: "find_loop ser_array ST_XdeltaControl 0 10 = Some (Some 6)"
  by (simp add: find_loop.simps half_def ser_array_def ST_XdeltaControl_def ST_XdeltaChecksum_def ST_XdeltaIndex_def ST_XdeltaSourceInfo_def
    ST_Version0SourceInfo_def ST_Version0Control_def ST_Version0Instruction_def ST_XdeltaInstruction_def ST_RsyncIndexElt_def ST_RsyncIndex_def)

text \<open>A type below all that are registered is searched for without end.\<close>

definition under_all :: "int list \<Rightarrow> int \<Rightarrow> int \<Rightarrow> int \<Rightarrow> bool" where
  "under_all arr type low high \<longleftrightarrow> arr \<noteq> [] \<and> (\<forall>x \<in> set arr. type < x) \<and> low = 0 \<and> high < int (length arr) \<and> - 2 < high"

lemma under_step:
  assumes "under_all arr type low high"
  shows "0 \<le> half (low + high)" "half (low + high) < int (length arr)" "type < arr ! nat (half (low + high))"
    and "under_all arr type low (half (low + high) - 1)"
proof -
  show "0 \<le> half (low + high)" "half (low + high) < int (length arr)" using assms by (auto simp: under_all_def half_def)
  then show "type < arr ! nat (half (low + high))" "under_all arr type low (half (low + high) - 1)"
    using assms by (auto simp: under_all_def)
qed

lemma find_below_never:
  assumes "under_all arr type low high"
  shows "find_loop arr type low high = None"
proof -
  have "find_loop arr type low high = Some res \<Longrightarrow> \<not> under_all arr type low high" for arr type low high res
  proof (erule find_loop.raw_induct [where P = "\<lambda>arr type low high res. \<not> under_all arr type low high", rotated])
    fix f arr type low high res
    assume IH: "\<And>arr type low high res. f arr type low high = Some res \<Longrightarrow> \<not> under_all arr type low high"
      and eq: "(let i = half (low + high) in
          if i < 0 \<or> int (length arr) \<le> i then Some None
          else if arr ! nat i < type then f arr type (i + 1) high
          else if type < arr ! nat i then f arr type low (i - 1)
          else Some (Some (nat i))) = Some res"
    show "\<not> under_all arr type low high"
    proof
      assume b: "under_all arr type low high"
      then have "f arr type low (half (low + high) - 1) = Some res" using eq under_step [OF b] by (simp add: Let_def)
      then show False using IH under_step(4) [OF b] by blast
    qed
  qed
  then show ?thesis using assms by (cases "find_loop arr type low high") auto
qed

text \<open>The first step of the search for such a type among those of xdelta.\<close>

lemma find_unregistered: "type < ST_XdeltaChecksum \<Longrightarrow> find_loop ser_array type 0 10 = None"
proof -
  assume t: "type < ST_XdeltaChecksum"
  have "find_loop ser_array type 0 10 = find_loop ser_array type 0 4"
    using t by (subst find_loop.simps) (simp add: half_def ser_array_def ST_XdeltaChecksum_def ST_Version0Instruction_def)
  also have "\<dots> = None"
    using t by (intro find_below_never) (simp add: under_all_def ser_array_def ST_XdeltaChecksum_def ST_XdeltaIndex_def ST_XdeltaSourceInfo_def
      ST_Version0SourceInfo_def ST_Version0Control_def ST_Version0Instruction_def ST_XdeltaControl_def ST_XdeltaInstruction_def ST_RsyncIndexElt_def ST_RsyncIndex_def)
  finally show ?thesis .
qed

section \<open>A source of bytes\<close>

lemma unat_bound: "unat (w :: 'a::len word) < 2 ^ LENGTH('a)"
  by (rule unsigned_less)

lemma bit_mark: "bit (0x80 :: byte) k \<longleftrightarrow> k = 7"
proof -
  have "(0x80 :: byte) = 2 ^ 7" by simp
  then show ?thesis by (auto simp only: bit_exp_iff possible_bit_word len_bit0 len_num1)
qed

lemma low_group:
  fixes n :: u32
  defines "g \<equiv> ucast (n AND 0x7f) :: byte"
  shows "(g OR 0x80) AND 0x80 \<noteq> 0" "(g OR 0x80) AND 0x7f = g" "g AND 0x80 = 0" "g AND 0x7f = g"
    and "push_bit 7 (drop_bit 7 n) OR ucast g = n"
proof -
  have m: "(0x7f :: byte) = mask 7" "(0x7f :: u32) = mask 7" by (simp_all add: mask_eq_exp_minus_1)
  have bits: "bit g k \<longleftrightarrow> k < 7 \<and> bit n k" for k unfolding g_def m by (auto simp: bit_simps)
  show "g AND 0x80 = 0"
  proof (rule bit_word_eqI)
    fix k show "bit (g AND 0x80) k = bit (0 :: byte) k" unfolding bit_and_iff bits bit_mark by simp
  qed
  show "g AND 0x7f = g"
  proof (rule bit_word_eqI)
    fix k show "bit (g AND 0x7f) k = bit g k" unfolding m bit_and_iff bits bit_mask_iff by auto
  qed
  show "(g OR 0x80) AND 0x7f = g"
  proof (rule bit_word_eqI)
    fix k show "bit ((g OR 0x80) AND 0x7f) k = bit g k" unfolding m bit_and_iff bit_or_iff bits bit_mark bit_mask_iff by auto
  qed
  have "bit ((g OR 0x80) AND 0x80) 7" unfolding bit_and_iff bit_or_iff bit_mark by simp
  then show "(g OR 0x80) AND 0x80 \<noteq> 0" by (metis bit_0_eq bot_apply bot_bool_def)
  show "push_bit 7 (drop_bit 7 n) OR ucast g = n"
  proof (rule bit_word_eqI)
    fix k show "bit (push_bit 7 (drop_bit 7 n) OR ucast g) k = bit n k" if "k < LENGTH(32)"
      using that bits by (cases "k < 7") (auto simp: bit_simps not_less)
  qed
qed

text \<open>The format of the objects.\<close>

definition string_bytes :: "bytes \<Rightarrow> bytes" where
  "string_bytes b = uint_bytes (of_nat (length b)) @ b"

definition bool_bytes :: "bool \<Rightarrow> bytes" where
  "bool_bytes b = [if b then 1 else 0]"

definition array_bytes :: "('a \<Rightarrow> bytes) \<Rightarrow> 'a list \<Rightarrow> bytes" where
  "array_bytes enc xs = uint_bytes (of_nat (length xs)) @ concat (map enc xs)"

definition source_info_bytes :: "XdeltaSourceInfo \<Rightarrow> bytes" where
  "source_info_bytes x = string_bytes (si_name x) @ si_md5 x @ uint_bytes (si_len x) @ bool_bytes (isdata x) @ bool_bytes (sequential x)"

definition instruction_bytes :: "XdeltaInstruction \<Rightarrow> bytes" where
  "instruction_bytes x = uint_bytes (i_index x) @ uint_bytes (i_offset x) @ uint_bytes (i_length x)"

definition control_bytes :: "XdeltaControl \<Rightarrow> bytes" where
  "control_bytes x = to_md5 x @ uint_bytes (to_len x) @ bool_bytes (has_data x) @ array_bytes source_info_bytes (source_info x) @
     array_bytes instruction_bytes (inst x)"

definition type_bytes :: "XdeltaControl \<Rightarrow> bytes" where
  "type_bytes x = be_bytes 4 (2 ^ 15 + 3) @ be_bytes 4 (unat (serializeio_count_xdeltacontrol x))"

text \<open>What a control has to satisfy to be read back: the fields that are not stored are zero, the names are C strings and the arrays
  are neither empty nor too large for the address space.\<close>

definition source_info_ok :: "XdeltaSourceInfo \<Rightarrow> bool" where
  "source_info_ok x \<longleftrightarrow> cstring (si_name x) = si_name x \<and> si_name x \<noteq> [] \<and> length (si_name x) < 2 ^ 32 - 1 \<and> length (si_md5 x) = 16 \<and>
     position x = 0 \<and> copies x = 0 \<and> copy_length x = 0"

definition control_ok :: "XdeltaControl \<Rightarrow> bool" where
  "control_ok x \<longleftrightarrow> length (to_md5 x) = 16 \<and> source_info x \<noteq> [] \<and> (\<forall>i \<in> set (source_info x). source_info_ok i) \<and> 4 * length (source_info x) < 2 ^ 32 \<and>
     inst x \<noteq> [] \<and> (\<forall>i \<in> set (inst x). output_start i = 0) \<and> 16 * length (inst x) < 2 ^ 32"

text \<open>What the library needs of a handle it reads: \<open>rest s b\<close> says that \<open>b\<close> is what it has still to give; the next bytes are read, and the
  ones behind them stay.\<close>

locale serial_source =
  fixes rd :: "'s source_read" and rest :: "'s \<Rightarrow> bytes \<Rightarrow> bool"
  assumes read_next: "rest s (b @ r) \<Longrightarrow> \<exists>s'. rd (length b) s = Some (b, s') \<and> rest s' r"
begin

definition reads :: "('s \<Rightarrow> ('a, 's) parse) \<Rightarrow> bytes \<Rightarrow> 'a \<Rightarrow> bool" where
  "reads get b x \<longleftrightarrow> (\<forall>s r. rest s (b @ r) \<longrightarrow> (\<exists>s'. get s = Parsed x s' \<and> rest s' r))"

lemma readsE: "reads get b x \<Longrightarrow> rest s (b @ r) \<Longrightarrow> (\<And>s'. get s = Parsed x s' \<Longrightarrow> rest s' r \<Longrightarrow> thesis) \<Longrightarrow> thesis"
  unfolding reads_def by blast

lemma reads_Parsed [intro]: "reads (Parsed x) [] x"
  by (simp add: reads_def)

lemma reads_bind: "reads get b x \<Longrightarrow> reads (f x) c y \<Longrightarrow> reads (\<lambda>s. pbind (get s) f) (b @ c) y"
  unfolding reads_def by (metis append_assoc pbind.simps(1))

lemma reads_result: "reads get b x \<Longrightarrow> reads (\<lambda>s. pbind (get s) (\<lambda>x s. Parsed (f x) s)) b (f x)"
  unfolding reads_def by (metis pbind.simps(1))

lemma reads_last: "reads get b y \<Longrightarrow> (\<And>s. f y s = Parsed x s) \<Longrightarrow> reads (\<lambda>s. pbind (get s) f) b x"
  unfolding reads_def by (metis pbind.simps(1))

lemma reads_known: "length b = n \<Longrightarrow> reads (source_next_bytes_known rd n) b b"
  unfolding reads_def source_next_bytes_known_def using read_next by fastforce

lemma reads_uint8: "reads (source_next_uint8 rd) [b] b"
  unfolding source_next_uint8_def [abs_def] using reads_result [OF reads_known [of "[b]" 1], of hd] by simp

lemma reads_bool: "reads (source_next_bool rd) (bool_bytes d) d"
  unfolding source_next_bool_def [abs_def] bool_bytes_def using reads_result [OF reads_known [of "[if d then 1 else 0]" 1], of "\<lambda>b. hd b \<noteq> 0"] by (cases d) simp_all

lemma reads_uint16: "reads (source_next_uint16 rd) (be_bytes 2 (unat n)) n"
proof -
  have "unat n < 256 ^ 2" using unat_bound [of n] by simp
  then show ?thesis
    unfolding source_next_uint16_def [abs_def]
    using reads_result [OF reads_known [of "be_bytes 2 (unat n)" 2], of "\<lambda>b. of_nat (be_val b) :: u16"] by (simp add: codec_simps)
qed

lemma reads_uint32: "reads (source_next_uint32 rd) (be_bytes 4 (unat n)) n"
proof -
  have "unat n < 256 ^ 4" using unat_bound [of n] by simp
  then show ?thesis
    unfolding source_next_uint32_def [abs_def]
    using reads_result [OF reads_known [of "be_bytes 4 (unat n)" 4], of "\<lambda>b. of_nat (be_val b) :: u32"] by (simp add: codec_simps)
qed

lemma reads_groups:
  assumes "unat n < 2 ^ (7 * room)" "0 < room"
  shows "\<exists>arr. reads (uint_groups rd room) (uint_bytes n) arr \<and> foldr (\<lambda>b x. push_bit 7 x OR ucast b) arr 0 = n"
  using assms
proof (induction n arbitrary: room rule: uint_bytes.induct)
  case (1 n)
  let ?g = "ucast (n AND 0x7f) :: byte" and ?n = "drop_bit 7 n"
  obtain k where k: "room = Suc k" using 1(3) by (cases room) auto
  note low = low_group [of n]
  show ?case
  proof (cases "?n = 0")
    case True
    have "reads (uint_groups rd room) ([?g] @ []) [?g]"
      unfolding k uint_groups.simps by (rule reads_bind [OF reads_uint8]) (auto simp: low)
    moreover have "uint_bytes n = [?g]" using True by (simp add: uint_bytes.simps [of n])
    ultimately show ?thesis using low(5) True by (intro exI [of _ "[?g]"]) simp
  next
    case False
    have small: "unat ?n < 2 ^ (7 * k)"
    proof -
      have "unat n < 2 ^ (7 + 7 * k)" using 1(2) k by simp
      then show ?thesis by (simp add: unat_drop_bit power_add less_mult_imp_div_less mult.commute)
    qed
    moreover have "0 < k"
    proof (rule ccontr)
      assume "\<not> 0 < k"
      then have "unat ?n = 0" using small by simp
      then show False using False by (simp add: unsigned_eq_0_iff)
    qed
    ultimately obtain arr where arr: "reads (uint_groups rd k) (uint_bytes ?n) arr" "foldr (\<lambda>b x. push_bit 7 x OR ucast b) arr 0 = ?n"
      using 1(1) False by blast
    have "reads (uint_groups rd room) ([?g OR 0x80] @ uint_bytes ?n) (?g # arr)"
      unfolding k uint_groups.simps
    proof (rule reads_bind [OF reads_uint8])
      show "reads (\<lambda>s. if (?g OR 0x80) AND 0x80 = 0 then Parsed [(?g OR 0x80) AND 0x7f] s
          else pbind (uint_groups rd k s) (\<lambda>arr s. Parsed (((?g OR 0x80) AND 0x7f) # arr) s)) (uint_bytes ?n) (?g # arr)"
        using reads_result [OF arr(1), of "(#) ?g"] low by simp
    qed
    moreover have "uint_bytes n = (?g OR 0x80) # uint_bytes ?n" using False by (simp add: uint_bytes.simps [of n] Let_def)
    ultimately show ?thesis using low(5) arr(2) by (intro exI [of _ "?g # arr"]) simp
  qed
qed

lemma reads_uint: "reads (source_next_uint rd) (uint_bytes n) n"
proof -
  have "unat n < 2 ^ (7 * 16)" using unat_bound [of n] by (rule order.strict_trans) simp
  then obtain arr where "reads (uint_groups rd 16) (uint_bytes n) arr" "foldr (\<lambda>b x. push_bit 7 x OR ucast b) arr 0 = n"
    using reads_groups by (metis zero_less_numeral)
  then show ?thesis unfolding source_next_uint_def [abs_def] using reads_result by fastforce
qed

lemma reads_string:
  assumes "cstring b = b" "length b < 2 ^ 32 - 1"
  shows "reads (source_next_string rd) (string_bytes b) b"
proof -
  let ?n = "of_nat (length b) :: u32"
  have n: "unat ?n = length b" using assms(2) by simp
  have eq: "?n + 1 = of_nat (length b + 1)" by simp
  have "(of_nat (length b + 1) :: u32) \<noteq> 0" by (rule word_of_nat_neq_0) (use assms(2) in simp_all)
  then have "?n + 1 \<noteq> 0" unfolding eq .
  then have a: "source_alloc (?n + 1) = Some (unat (?n + 1))" by (simp add: source_alloc_def)
  show ?thesis
    unfolding source_next_string_def [abs_def] string_bytes_def
    by (rule reads_bind [OF reads_uint]) (use reads_result [OF reads_known [of b "length b"], of cstring] assms(1) in \<open>simp add: a n\<close>)
qed

lemma reads_elements:
  assumes "\<And>i. i < length xs \<Longrightarrow> reads (get (k + i)) (enc (xs ! i)) (xs ! i)"
  shows "reads (next_elements get (k + length xs) k) (concat (map enc xs)) xs"
  using assms
proof (induction xs arbitrary: k)
  case Nil
  show ?case by (simp add: reads_def next_elements.simps)
next
  case (Cons x xs)
  have "reads (next_elements get (Suc k + length xs) (Suc k)) (concat (map enc xs)) xs"
    using Cons.prems [of "Suc i" for i] by (intro Cons.IH) simp
  then have "reads (\<lambda>s. pbind (next_elements get (k + length (x # xs)) (Suc k) s) (\<lambda>xs s. Parsed (x # xs) s)) (concat (map enc xs)) (x # xs)"
    using reads_result by fastforce
  moreover have "reads (get k) (enc x) x" using Cons.prems [of 0] by simp
  ultimately have "reads (\<lambda>s. pbind (get k s) (\<lambda>x s. pbind (next_elements get (k + length (x # xs)) (Suc k) s) (\<lambda>xs s. Parsed (x # xs) s)))
      (enc x @ concat (map enc xs)) (x # xs)"
    by (intro reads_bind) simp_all
  moreover have "next_elements get (k + length (x # xs)) k s =
      pbind (get k s) (\<lambda>x s. pbind (next_elements get (k + length (x # xs)) (Suc k) s) (\<lambda>xs s. Parsed (x # xs) s))" for s
    by (subst next_elements.simps) simp
  ultimately show ?case by (simp cong: if_cong)
qed

lemma reads_array:
  assumes "xs \<noteq> []" "unat width * length xs < 2 ^ 32" "0 < unat width"
    and "\<And>i. i < length xs \<Longrightarrow> reads (get (unat width * length xs) i) (enc (xs ! i)) (xs ! i)"
  shows "reads (source_next_array rd width get) (array_bytes enc xs) xs"
proof -
  have "length xs \<le> unat width * length xs" using assms(3) by simp
  then have l: "length xs < 2 ^ 32" using assms(2) by linarith
  have u: "unat (width * of_nat (length xs)) = unat width * length xs"
    using unat_word_of_nat_id [of "unat width * length xs", where 'a = 32] assms(2) by simp
  then have "width * of_nat (length xs) \<noteq> 0" using assms(1, 3) by auto
  then have a: "source_alloc (width * of_nat (length xs)) = Some (unat width * length xs)" by (simp add: source_alloc_def u)
  have "reads (next_elements (get (unat width * length xs)) (0 + length xs) 0) (concat (map enc xs)) xs"
    using assms(4) by (intro reads_elements) simp
  then show ?thesis
    unfolding source_next_array_def [abs_def] array_bytes_def using l by (intro reads_bind [OF reads_uint]) (simp add: a)
qed

lemma reads_source_info:
  assumes "source_info_ok x"
  shows "reads (unserialize_xdeltasourceinfo rd) (source_info_bytes x) x"
proof -
  note ok = assms [unfolded source_info_ok_def]
  show ?thesis
    unfolding unserialize_xdeltasourceinfo_def [abs_def] source_info_bytes_def
    apply (rule reads_bind [OF reads_string], use ok in simp, use ok in simp)
    apply (rule reads_bind [OF reads_known], use ok in simp)
    apply (rule reads_bind [OF reads_uint])
    apply (rule reads_bind [OF reads_bool])
    by (rule reads_last [OF reads_bool]) (use ok in simp)
qed

lemma reads_instruction:
  assumes "a + 12 \<le> cap" "output_start x = 0"
  shows "reads (unserialize_instruction_at rd cap a) (instruction_bytes x) x"
  unfolding unserialize_instruction_at_def [abs_def] instruction_bytes_def inside_def
  apply (rule reads_bind [OF reads_uint])
  using assms apply simp
  apply (rule reads_bind [OF reads_uint])
  by (rule reads_last [OF reads_uint]) simp

lemma reads_control:
  assumes "control_ok x"
  shows "reads (unserialize_xdeltacontrol rd) (control_bytes x) x"
proof -
  note ok = assms [unfolded control_ok_def]
  have "reads (source_next_array rd 4 (pointer_at (unserialize_xdeltasourceinfo rd))) (array_bytes source_info_bytes (source_info x)) (source_info x)"
    using ok by (intro reads_array) (auto simp: pointer_at_def [abs_def] inside_def intro!: reads_source_info)
  moreover have "reads (source_next_array rd 16 (\<lambda>cap i. unserialize_instruction_at rd cap (16 * i))) (array_bytes instruction_bytes (inst x)) (inst x)"
    using ok by (intro reads_array reads_instruction) auto
  ultimately show ?thesis
    unfolding unserialize_xdeltacontrol_def [abs_def] control_bytes_def
    apply -
    apply (rule reads_bind [OF reads_known], use ok in simp)
    apply (rule reads_bind [OF reads_uint])
    apply (rule reads_bind [OF reads_bool])
    apply (erule reads_bind)
    by (erule reads_last) simp
qed

lemma reads_type:
  assumes "control_ok x" "rest s (type_bytes x @ control_bytes x @ r)"
  shows "\<exists>s'. serializeio_unserialize_generic_acceptable rd (2 ^ 15 + 2 ^ 13 + 3) s = Some (Parsed (ST_XdeltaControl, Control x) s') \<and> rest s' r"
proof -
  define n where "n = (of_nat (2 ^ 15 + 3) :: u32)"
  have n: "sint n = ST_XdeltaControl" "unat n = 2 ^ 15 + 3" by (simp_all add: n_def ST_XdeltaControl_def)
  have "reads (handle_source_type rd) (be_bytes 4 (unat n) @ be_bytes 4 (unat (serializeio_count_xdeltacontrol x))) (sint n)"
    unfolding handle_source_type_def [abs_def]
    by (rule reads_bind [OF reads_uint32]) (rule reads_last [OF reads_uint32], rule refl)
  then have "reads (handle_source_type rd) (type_bytes x) ST_XdeltaControl"
    unfolding n type_bytes_def .
  then obtain s1 where s1: "handle_source_type rd s = Parsed ST_XdeltaControl s1" "rest s1 (control_bytes x @ r)"
    using assms(2) by (rule readsE)
  obtain s2 where s2: "unserialize_xdeltacontrol rd s1 = Parsed x s2" "rest s2 r"
    using reads_control [OF assms(1)] s1(2) by (rule readsE)
  have "ST_XdeltaControl mod 256 = 3" "\<not> ST_XdeltaControl < 0" by (simp_all add: ST_XdeltaControl_def)
  then have "serializeio_unserialize_generic rd s = Some (Parsed (ST_XdeltaControl, Control x) s2)"
    using s1(1) s2(1) find_control
    by (simp add: serializeio_unserialize_generic_def edsio_library_check_def unserialize_func_def parse_map_def ser_array_def)
  then show ?thesis
    using s2(2) by (simp add: serializeio_unserialize_generic_acceptable_def ST_XdeltaControl_def)
qed

end

section \<open>A sink of bytes\<close>

text \<open>A handle that is written takes every nonempty block.\<close>

locale serial_sink =
  fixes wr :: "'s sink_write" and written :: "'s \<Rightarrow> bytes"
  assumes write_block: "b \<noteq> [] \<Longrightarrow> \<exists>s'. wr b s = Some s' \<and> written s' = written s @ b"
begin

definition writes :: "('s \<Rightarrow> 's option) \<Rightarrow> bytes \<Rightarrow> bool" where
  "writes put b \<longleftrightarrow> (\<forall>s. \<exists>s'. put s = Some s' \<and> written s' = written s @ b)"

lemma writes_block: "b \<noteq> [] \<Longrightarrow> writes (wr b) b"
  unfolding writes_def using write_block by blast

lemma writes_bind: "writes put b \<Longrightarrow> writes f c \<Longrightarrow> writes (\<lambda>s. Option.bind (put s) f) (b @ c)"
  unfolding writes_def by (metis append_assoc bind.bind_lunit)

lemma writes_uint: "writes (sink_next_uint wr n) (uint_bytes n)"
proof -
  have "uint_bytes n \<noteq> []" by (subst uint_bytes.simps) (simp add: Let_def)
  then show ?thesis unfolding sink_next_uint_def [abs_def] by (rule writes_block)
qed

lemma writes_uint32: "writes (sink_next_uint32 wr n) (be_bytes 4 (unat n))"
  unfolding sink_next_uint32_def [abs_def] by (rule writes_block) (metis length_be_bytes list.size(3) zero_neq_numeral)

lemma writes_bool: "writes (sink_next_bool wr b) (bool_bytes b)"
  unfolding sink_next_bool_def [abs_def] bool_bytes_def by (rule writes_block) simp

lemma writes_known: "b \<noteq> [] \<Longrightarrow> writes (sink_next_bytes_known wr b) b"
  unfolding sink_next_bytes_known_def [abs_def] by (rule writes_block)

lemma writes_string: "cstring b = b \<Longrightarrow> b \<noteq> [] \<Longrightarrow> writes (sink_next_string wr b) (string_bytes b)"
  unfolding sink_next_string_def [abs_def] sink_next_bytes_def string_bytes_def
  by (simp add: writes_bind [OF writes_uint] writes_block)

lemma writes_elements: "(\<And>x. x \<in> set xs \<Longrightarrow> writes (put x) (enc x)) \<Longrightarrow> writes (write_elements put xs) (concat (map enc xs))"
proof (induction xs)
  case (Cons x xs)
  then show ?case by (simp add: writes_bind)
qed (simp add: writes_def)

lemma writes_source_info: "source_info_ok x \<Longrightarrow> writes (serialize_xdeltasourceinfo wr x) (source_info_bytes x)"
  unfolding serialize_xdeltasourceinfo_def [abs_def] source_info_bytes_def
  by (intro writes_bind writes_string writes_known writes_uint writes_bool) (auto simp: source_info_ok_def)

lemma writes_instruction: "writes (serialize_xdeltainstruction wr x) (instruction_bytes x)"
  unfolding serialize_xdeltainstruction_def [abs_def] instruction_bytes_def
  by (intro writes_bind writes_uint)

lemma writes_control_internal:
  assumes "control_ok x"
  shows "writes (serialize_xdeltacontrol_internal wr x) (control_bytes x)"
  unfolding serialize_xdeltacontrol_internal_def [abs_def] control_bytes_def array_bytes_def append_assoc
  by (intro writes_bind writes_known writes_uint writes_bool writes_elements writes_source_info writes_instruction)
    (use assms in \<open>auto simp: control_ok_def\<close>)

lemma writes_control:
  assumes "control_ok x"
  shows "writes (serialize_xdeltacontrol wr x) (type_bytes x @ control_bytes x)"
proof -
  have "(of_int ST_XdeltaControl :: u32) = of_nat (2 ^ 15 + 3)" by (simp add: ST_XdeltaControl_def)
  then have "unat (of_int ST_XdeltaControl :: u32) = 2 ^ 15 + 3" by simp
  then have "writes (handle_sink_type wr ST_XdeltaControl (serializeio_count_xdeltacontrol x)) (type_bytes x)"
    unfolding handle_sink_type_def [abs_def] type_bytes_def using writes_bind [OF writes_uint32 writes_uint32] by metis
  then show ?thesis
    unfolding serialize_xdeltacontrol_def [abs_def] by (intro writes_bind writes_control_internal assms)
qed

end

end
