(* ===== verification/Xd1_Handle.thy ===== *)
theory Xd1_Handle
  imports Md5 Edsio
begin

text \<open>
  The file handles of xdelta 1, \<^verbatim>\<open>jni/xdelta1patcher/xdmain.c\<close>.  A handle for reading either reads on from a position, plainly or
  through zlib, or maps pages of one megabyte, kept in a table and a doubly linked list ordered by use.  A handle
  for writing counts and checks what it is given.  \<^verbatim>\<open>gunzip\<close> and \<^verbatim>\<open>gzip\<close> are parameters of the functions that use zlib.

  The lists of pages are shown in \<open>Xd1_Pages\<close> to be well linked after every operation, a mapped page to hold the bytes of the
  file, and the checksum of a file to be its MD5 digest in whatever order its pages were mapped.
\<close>

unbundle bit_operations_syntax

section \<open>Handles\<close>

text \<open>A page: its neighbours in the list, towards the more and the less recently used ones, the users, and the mapped
  bytes.  The C pointers between pages are page numbers here, since every page has one record.\<close>

record LRU =
  lru_next :: "nat option"
  lru_prev :: "nat option"
  lru_refs :: int
  lru_buffer :: "bytes option"

text \<open>What is open for reading: nothing, a stream, or what zlib still has to give.\<close>

datatype reader = No_in | Plain_in stream | Gz_in bytes

record XdFileHandle =
  fh_length :: u32
  real_length :: u32
  fh_type :: nat
  cleanup :: "string option"
  fh_md5 :: bytes
  fh_ctx :: EdsioMD5Ctx
  out_gz :: bool
  out_done :: bytes
  out_buf :: bytes
  lru_table :: "nat \<Rightarrow> LRU option"
  lru_head :: "nat option"
  lru_tail :: "nat option"
  lru_count :: nat
  narrow_low :: u32
  narrow_high :: u32
  current_pos :: u32
  fh_in :: reader
  in_compressed :: bool
  copy_page :: "bytes option"
  copy_pgno :: nat
  md5_good :: bool
  reset_length_next_write :: bool
  md5_page :: nat
  fd_data :: bytes

definition XD_PAGE_SIZE :: nat where "XD_PAGE_SIZE = 2 ^ 20"
definition READ_NOSEEK_TYPE :: nat where "READ_NOSEEK_TYPE = 1"
definition READ_SEEK_TYPE :: nat where "READ_SEEK_TYPE = 3"
definition WRITE_TYPE :: nat where "WRITE_TYPE = 4"
definition max_mapped_pages :: nat where "max_mapped_pages = 2 ^ 31 - 1"

text \<open>\<^verbatim>\<open>g_new0\<close>: a handle of zeros.\<close>

definition handle_new0 :: XdFileHandle where
  "handle_new0 =
     \<lparr>fh_length = 0, real_length = 0, fh_type = 0, cleanup = None, fh_md5 = replicate 16 0, fh_ctx = md5_zero, out_gz = False, out_done = [], out_buf = [],
      lru_table = Map.empty, lru_head = None, lru_tail = None, lru_count = 0, narrow_low = 0, narrow_high = 0, current_pos = 0, fh_in = No_in,
      in_compressed = False, copy_page = None, copy_pgno = 0, md5_good = False, reset_length_next_write = False, md5_page = 0, fd_data = []\<rparr>"

text \<open>The length of a file fits 31 bits, since \<^verbatim>\<open>off_t\<close> has 32.\<close>

definition xd_handle_length :: "XdFileHandle \<Rightarrow> u32" where
  "xd_handle_length h = (if in_compressed h then current_pos h else narrow_high h - narrow_low h)"

definition xd_handle_pages :: "XdFileHandle \<Rightarrow> nat" where
  "xd_handle_pages h = unat (xd_handle_length h) div XD_PAGE_SIZE"

definition on_page :: "XdFileHandle \<Rightarrow> nat \<Rightarrow> int" where
  "on_page h pgno =
     (if xd_handle_pages h < pgno then -1
      else if pgno = xd_handle_pages h then int (unat (xd_handle_length h) mod XD_PAGE_SIZE)
      else int XD_PAGE_SIZE)"

section \<open>The list of pages\<close>

definition set_lru :: "nat \<Rightarrow> (LRU \<Rightarrow> LRU) \<Rightarrow> XdFileHandle \<Rightarrow> XdFileHandle" where
  "set_lru p f h = h\<lparr>lru_table := (lru_table h)(p := map_option f (lru_table h p))\<rparr>"

definition pull_lru :: "nat \<Rightarrow> LRU \<Rightarrow> XdFileHandle \<Rightarrow> XdFileHandle" where
  "pull_lru p l h =
     (let h = (case (lru_next l, lru_prev l) of
           (Some n, Some q) \<Rightarrow> set_lru q (lru_next_update (\<lambda>_. Some n)) (set_lru n (lru_prev_update (\<lambda>_. Some q)) h)
         | (Some n, None) \<Rightarrow> set_lru n (lru_prev_update (\<lambda>_. None)) (h\<lparr>lru_tail := Some n\<rparr>)
         | (None, Some q) \<Rightarrow> set_lru q (lru_next_update (\<lambda>_. None)) (h\<lparr>lru_head := Some q\<rparr>)
         | (None, None) \<Rightarrow> h\<lparr>lru_head := None, lru_tail := None\<rparr>)
      in set_lru p (\<lambda>l. l\<lparr>lru_next := None, lru_prev := None\<rparr>) h)"

text \<open>The loop goes from the least recently used page towards still older ones.\<close>

partial_function (option) free_loop :: "nat option \<Rightarrow> XdFileHandle \<Rightarrow> XdFileHandle option" where
  "free_loop lru h =
     (case lru of
        None \<Rightarrow> Some h
      | Some p \<Rightarrow>
          (case lru_table h p of
             None \<Rightarrow> Some h
           | Some l \<Rightarrow>
               if lru_refs l > 0 then free_loop (lru_prev l) h
               else
                 let h = pull_lru p l h
                 in Some (set_lru p (lru_buffer_update (\<lambda>_. None)) (h\<lparr>lru_count := lru_count h - 1\<rparr>))))"

definition really_free_one_page :: "XdFileHandle \<Rightarrow> XdFileHandle option" where
  "really_free_one_page h = free_loop (lru_tail h) h"

definition make_lru_room :: "XdFileHandle \<Rightarrow> XdFileHandle option" where
  "make_lru_room h = (if lru_count h = max_mapped_pages then really_free_one_page h else Some h)"

text \<open>Mapping whole pages of the system, of 4096 bytes: what is behind the end of the file reads as zero.\<close>

definition mmap :: "nat \<Rightarrow> nat \<Rightarrow> bytes \<Rightarrow> bytes" where
  "mmap n off d = (let b = take n (drop off d) in b @ replicate ((4096 - length b mod 4096) mod 4096) 0)"

text \<open>Results are as for the readers of \<open>Edsio\<close>; an outer \<open>None\<close> is a run without end.\<close>

type_synonym ('a, 's) run = "('a, 's) parse option"

definition rbind :: "('a, 's) run \<Rightarrow> ('a \<Rightarrow> 's \<Rightarrow> ('b, 't) run) \<Rightarrow> ('b, 't) run" where
  "rbind r f = Option.bind r (\<lambda>r. case r of Parsed a s \<Rightarrow> f a s | Refused \<Rightarrow> Some Refused | Wild \<Rightarrow> Some Wild)"

text \<open>\<^verbatim>\<open>to_map\<close> is unsigned, so that the test for a page behind the end never fails; \<^verbatim>\<open>mmap\<close> then fails with a pointer that is
  not null, which is only harmless when the checksum is not on this page.\<close>

definition md5_mapped :: "bool \<Rightarrow> nat \<Rightarrow> bytes \<Rightarrow> XdFileHandle \<Rightarrow> XdFileHandle" where
  "md5_mapped no_verify pgno b h =
     (if pgno = md5_page h then
        let c = (if no_verify then fh_ctx h else edsio_md5_update b (fh_ctx h));
            h = h\<lparr>fh_ctx := c, md5_page := md5_page h + 1\<rparr>
        in if xd_handle_pages h < md5_page h then h\<lparr>fh_md5 := fst (edsio_md5_final c), fh_ctx := snd (edsio_md5_final c)\<rparr> else h
      else h)"

definition push_head :: "nat \<Rightarrow> LRU \<Rightarrow> XdFileHandle \<Rightarrow> XdFileHandle" where
  "push_head p l h =
     (let prev = lru_head h;
          h = h\<lparr>lru_table := (lru_table h)(p \<mapsto> l\<lparr>lru_prev := prev, lru_next := None\<rparr>), lru_head := Some p\<rparr>;
          h = (case prev of None \<Rightarrow> h | Some q \<Rightarrow> set_lru q (lru_next_update (\<lambda>_. Some p)) h)
      in if lru_tail h = None then h\<lparr>lru_tail := Some p\<rparr> else h)"

definition xd_handle_map_page :: "bool \<Rightarrow> nat \<Rightarrow> XdFileHandle \<Rightarrow> (bytes \<times> nat, XdFileHandle) run" where
  "xd_handle_map_page no_verify pgno h =
     (let h = (case lru_table h pgno of
           None \<Rightarrow> push_head pgno \<lparr>lru_next = None, lru_prev = None, lru_refs = 0, lru_buffer = None\<rparr> h
         | Some l \<Rightarrow> push_head pgno l (if lru_buffer l \<noteq> None then pull_lru pgno l h else h));
          to_map = on_page h pgno
      in if to_map < 0 then Some (if pgno = md5_page h \<and> \<not> no_verify then Wild else Refused)
         else
           let n = nat to_map
           in Option.bind
                (case lru_buffer (the (lru_table h pgno)) of
                   Some b \<Rightarrow> Some h
                 | None \<Rightarrow>
                     map_option (\<lambda>h.
                       let b = (if 0 < n then mmap n (pgno * XD_PAGE_SIZE) (fd_data h) else []);
                           h = set_lru pgno (lru_buffer_update (\<lambda>_. Some b)) (h\<lparr>lru_count := lru_count h + 1\<rparr>)
                       in md5_mapped no_verify pgno (take n b) h) (make_lru_room h))
                (\<lambda>h. Some (Parsed (the (lru_buffer (the (lru_table h pgno))), n)
                       (set_lru pgno (\<lambda>l. l\<lparr>lru_refs := lru_refs l + 1\<rparr>) h))))"

definition push_tail :: "nat \<Rightarrow> XdFileHandle \<Rightarrow> XdFileHandle" where
  "push_tail p h =
     (let next = lru_tail h;
          h = (case next of None \<Rightarrow> h | Some q \<Rightarrow> set_lru q (lru_prev_update (\<lambda>_. Some p)) h)
      in set_lru p (\<lambda>l. l\<lparr>lru_next := next, lru_prev := None\<rparr>) (h\<lparr>lru_tail := Some p\<rparr>))"

definition xd_handle_unmap_page :: "nat \<Rightarrow> XdFileHandle \<Rightarrow> (unit, XdFileHandle) run" where
  "xd_handle_unmap_page pgno h =
     (case lru_table h pgno of
        None \<Rightarrow> Some Wild
      | Some l \<Rightarrow>
          let h = set_lru pgno (\<lambda>l. l\<lparr>lru_refs := lru_refs l - 1\<rparr>) h
          in if lru_refs l - 1 = 0 \<and> fh_type h = READ_NOSEEK_TYPE
             then map_option (Parsed ()) (really_free_one_page (push_tail pgno (pull_lru pgno l h)))
             else Some (Parsed () h))"

section \<open>Opening\<close>

text \<open>The results of zlib for the content of a file: what reading gives before the end, and whether the end is an error.\<close>

type_synonym zlib_read = "bytes \<Rightarrow> bytes \<times> bool"

definition open_common :: "string \<Rightarrow> fsys \<Rightarrow> XdFileHandle option" where
  "open_common name fs =
     map_option (\<lambda>d. handle_new0\<lparr>fd_data := d, fh_length := of_nat (length d), narrow_high := of_nat (length d)\<rparr>) (content fs name)"

definition file_gzipped :: "string \<Rightarrow> fsys \<Rightarrow> bool option" where
  "file_gzipped name fs =
     map_option (\<lambda>d. 2 \<le> length d \<and> d ! 0 = 0x1f \<and> d ! 1 = 0x8b) (content fs name)"

text \<open>The name of the temporary file, one that does not exist, is given by \<open>tmpname\<close>.  The file is not tested to be open: a null
  stream is used as soon as something is to be written to it or it is closed.  A file that cannot be decompressed to its end
  leaves the temporary one behind; its content is what there is once the C library has written its buffers out.  Results:
  \<open>Ret (None, fs)\<close> is a failure the code reports.\<close>

definition file_gunzip :: "zlib_read \<Rightarrow> (fsys \<Rightarrow> string) \<Rightarrow> string \<Rightarrow> fsys \<Rightarrow> (string option \<times> fsys) cresult" where
  "file_gunzip gunz tmpname name fs =
     (let new_name = tmpname fs;
          (out, ok) = (case content fs name of None \<Rightarrow> ([], False) | Some d \<Rightarrow> gunz d)
      in if writable fs new_name then Ret (if ok then Some new_name else None, put_file new_name out fs)
         else if out = [] \<and> \<not> ok then Ret (None, fs)
         else Undef)"

definition open_read_noseek_handle ::
  "zlib_read \<Rightarrow> (fsys \<Rightarrow> string) \<Rightarrow> string \<Rightarrow> bool \<Rightarrow> fsys \<Rightarrow> ((XdFileHandle \<times> bool) option \<times> fsys) cresult" where
  "open_read_noseek_handle gunz tmpname name will_read fs =
     (case file_gzipped name fs of
        None \<Rightarrow> Ret (None, fs)
      | Some is_compressed \<Rightarrow>
          cbind (if is_compressed then file_gunzip gunz tmpname name fs else Ret (Some name, fs)) (\<lambda>(name, fs).
            Ret (case name of
                None \<Rightarrow> None
              | Some name \<Rightarrow>
                  map_option (\<lambda>h.
                    let h = h\<lparr>fh_type := READ_NOSEEK_TYPE, fh_ctx := edsio_md5_init (fh_ctx h), cleanup := (if is_compressed then Some name else None)\<rparr>
                    in (if will_read then h\<lparr>fh_in := Plain_in (sopen (fd_data h))\<rparr> else h, is_compressed))
                    (open_common name fs), fs)))"

definition open_read_seek_handle ::
  "zlib_read \<Rightarrow> (fsys \<Rightarrow> string) \<Rightarrow> string \<Rightarrow> fsys \<Rightarrow> ((XdFileHandle \<times> bool) option \<times> fsys) cresult" where
  "open_read_seek_handle gunz tmpname name fs =
     (case file_gzipped name fs of
        None \<Rightarrow> Ret (None, fs)
      | Some is_compressed \<Rightarrow>
          cbind (if is_compressed then file_gunzip gunz tmpname name fs else Ret (Some name, fs)) (\<lambda>(name, fs).
            Ret (case name of
                None \<Rightarrow> None
              | Some name \<Rightarrow>
                  map_option (\<lambda>h.
                    (h\<lparr>fh_type := READ_SEEK_TYPE, cleanup := (if is_compressed then Some name else None), fh_ctx := edsio_md5_init (fh_ctx h)\<rparr>,
                     is_compressed))
                    (open_common name fs), fs)))"

definition xd_read_close :: "XdFileHandle \<Rightarrow> fsys \<Rightarrow> fsys" where
  "xd_read_close h fs = (case cleanup h of None \<Rightarrow> fs | Some name \<Rightarrow> unlink name fs)"

definition open_write_handle :: XdFileHandle where
  "open_write_handle = handle_new0\<lparr>fh_type := WRITE_TYPE, fh_ctx := edsio_md5_init md5_zero\<rparr>"

section \<open>Reading and writing\<close>

text \<open>\<^verbatim>\<open>fwrite\<close> of one block of no bytes reports no block written; \<^verbatim>\<open>gzwrite\<close> of no bytes reports no byte, as asked.\<close>

definition out_write :: "bytes \<Rightarrow> XdFileHandle \<Rightarrow> XdFileHandle option" where
  "out_write b h = (if b = [] \<and> \<not> out_gz h then None else Some (h\<lparr>out_buf := out_buf h @ b\<rparr>))"

definition xd_handle_write :: "bool \<Rightarrow> bytes \<Rightarrow> XdFileHandle \<Rightarrow> XdFileHandle option" where
  "xd_handle_write no_verify b h =
     (let h = (if reset_length_next_write h then h\<lparr>reset_length_next_write := False, fh_length := 0, narrow_high := 0\<rparr> else h);
          h = (if no_verify then h else h\<lparr>fh_ctx := edsio_md5_update b (fh_ctx h)\<rparr>);
          n = of_nat (length b)
      in map_option (\<lambda>h. h\<lparr>fh_length := fh_length h + n, real_length := real_length h + n, narrow_high := narrow_high h + n\<rparr>) (out_write b h))"

definition in_read :: "nat \<Rightarrow> XdFileHandle \<Rightarrow> (bytes \<times> XdFileHandle) option" where
  "in_read n h =
     (case fh_in h of
        No_in \<Rightarrow> None
      | Plain_in f \<Rightarrow> (let (b, f) = fread n f in if length b = n then Some (b, h\<lparr>fh_in := Plain_in f\<rparr>) else None)
      | Gz_in z \<Rightarrow> if n \<le> length z then Some (take n z, h\<lparr>fh_in := Gz_in (drop n z)\<rparr>) else None)"

definition xd_handle_read :: "bool \<Rightarrow> nat \<Rightarrow> XdFileHandle \<Rightarrow> (bytes \<times> XdFileHandle) option" where
  "xd_handle_read no_verify n h =
     (if n = 0 then Some ([], h)
      else map_option (\<lambda>(b, h).
             (b, h\<lparr>fh_ctx := (if no_verify then fh_ctx h else edsio_md5_update b (fh_ctx h)), current_pos := current_pos h + of_nat n\<rparr>)) (in_read n h))"

definition xd_handle_getui :: "bool \<Rightarrow> XdFileHandle \<Rightarrow> (u32 \<times> XdFileHandle) option" where
  "xd_handle_getui no_verify h = map_option (\<lambda>(b, h). (of_nat (be_val b), h)) (xd_handle_read no_verify 4 h)"

definition xd_handle_putui :: "bool \<Rightarrow> u32 \<Rightarrow> XdFileHandle \<Rightarrow> XdFileHandle option" where
  "xd_handle_putui no_verify i h = xd_handle_write no_verify (be_bytes 4 (unat i)) h"

definition xd_handle_set_pos :: "u32 \<Rightarrow> XdFileHandle \<Rightarrow> XdFileHandle option" where
  "xd_handle_set_pos pos h =
     (if current_pos h = pos + narrow_low h then Some h
      else if pos + narrow_low h > narrow_high h then None
      else case fh_in h of
          Plain_in f \<Rightarrow>
            (let p = pos + narrow_low h; (r, f) = fseek_set (sint p) f
             in if r \<noteq> 0 then None else Some (h\<lparr>current_pos := p, fh_in := Plain_in f\<rparr>))
        | _ \<Rightarrow> None)"

definition xd_handle_get_pos :: "XdFileHandle \<Rightarrow> u32" where
  "xd_handle_get_pos h = current_pos h - narrow_low h"

text \<open>With compression the stream is opened anew at the start of the segment.\<close>

definition xd_handle_narrow :: "zlib_read \<Rightarrow> u32 \<Rightarrow> u32 \<Rightarrow> bool \<Rightarrow> XdFileHandle \<Rightarrow> XdFileHandle option" where
  "xd_handle_narrow gunz low high compressed h =
     (if high > fh_length h then None
      else
        let h = h\<lparr>narrow_low := low, narrow_high := high, fh_ctx := edsio_md5_init (fh_ctx h)\<rparr>
        in if compressed then
             (if sint low < 0 then None
              else Some (h\<lparr>fh_in := Gz_in (fst (gunz (drop (unat low) (fd_data h)))), in_compressed := True, current_pos := 0\<rparr>))
           else xd_handle_set_pos 0 h)"

section \<open>Closing and checking\<close>

definition xd_handle_close :: "XdFileHandle \<Rightarrow> XdFileHandle" where
  "xd_handle_close h =
     (if fh_type h = WRITE_TYPE then
        let h = (if reset_length_next_write h then h\<lparr>fh_length := 0, narrow_high := 0\<rparr> else h);
            (m, c) = edsio_md5_final (fh_ctx h)
        in h\<lparr>reset_length_next_write := True, fh_md5 := m, fh_ctx := edsio_md5_init c\<rparr>
      else if fh_in h \<noteq> No_in then
        let (m, c) = edsio_md5_final (fh_ctx h) in h\<lparr>fh_md5 := m, fh_ctx := edsio_md5_init c, md5_good := False\<rparr>
      else h)"

text \<open>The pages whose bytes are not in the checksum yet are mapped one after the other.\<close>

partial_function (option) checksum_loop :: "bool \<Rightarrow> XdFileHandle \<Rightarrow> (unit, XdFileHandle) run" where
  "checksum_loop no_verify h =
     (if md5_page h \<le> xd_handle_pages h then
        let pgno = md5_page h
        in Option.bind (xd_handle_map_page no_verify pgno h) (\<lambda>r. case r of
             Parsed (page, n) h \<Rightarrow>
               let h = (if pgno = md5_page h then
                          let c = edsio_md5_update (take n page) (fh_ctx h);
                              h = h\<lparr>fh_ctx := c, md5_page := md5_page h + 1\<rparr>
                          in if xd_handle_pages h < md5_page h then h\<lparr>fh_md5 := fst (edsio_md5_final c), fh_ctx := snd (edsio_md5_final c)\<rparr> else h
                        else h)
               in Option.bind (xd_handle_unmap_page pgno h) (\<lambda>r. case r of
                    Parsed _ h \<Rightarrow> checksum_loop no_verify h
                  | Refused \<Rightarrow> Some Refused
                  | Wild \<Rightarrow> Some Wild)
           | Refused \<Rightarrow> Some Refused
           | Wild \<Rightarrow> Some Wild)
      else Some (Parsed () h))"

definition xd_handle_checksum_md5 :: "bool \<Rightarrow> XdFileHandle \<Rightarrow> (bytes, XdFileHandle) run" where
  "xd_handle_checksum_md5 no_verify h =
     (if fh_in h \<noteq> No_in \<and> \<not> md5_good h then
        let (m, c) = edsio_md5_final (fh_ctx h) in Some (Parsed m (h\<lparr>fh_md5 := m, fh_ctx := c, md5_good := True\<rparr>))
      else if fh_type h \<noteq> WRITE_TYPE \<and> fh_in h = No_in then
        rbind (checksum_loop no_verify h) (\<lambda>_ h. Some (Parsed (fh_md5 h) h))
      else Some (Parsed (fh_md5 h) h))"

section \<open>Copying\<close>

text \<open>From a stream the bytes are taken as they come; the offset is not looked at.\<close>

partial_function (option) copy_stream :: "bool \<Rightarrow> u32 \<Rightarrow> XdFileHandle \<Rightarrow> XdFileHandle \<Rightarrow> (unit, XdFileHandle \<times> XdFileHandle) run" where
  "copy_stream no_verify len from to =
     (if len = 0 then Some (Parsed () (from, to))
      else
        let r = min 1024 len
        in case xd_handle_read no_verify (unat r) from of
             None \<Rightarrow> Some Refused
           | Some (buf, from) \<Rightarrow>
               (case xd_handle_write no_verify buf to of
                  None \<Rightarrow> Some Refused
                | Some to \<Rightarrow> copy_stream no_verify (len - r) from to))"

text \<open>From pages: an offset behind the end of the last page makes the rest of the page wrap around.\<close>

definition copy_unmap :: "nat \<Rightarrow> XdFileHandle \<Rightarrow> (unit, XdFileHandle) run" where
  "copy_unmap off_page h =
     (if copy_pgno h \<noteq> off_page \<and> copy_page h \<noteq> None
      then rbind (xd_handle_unmap_page (copy_pgno h) h) (\<lambda>_ h. Some (Parsed () (h\<lparr>copy_page := None\<rparr>)))
      else Some (Parsed () h))"

definition copy_on_page :: "bool \<Rightarrow> u32 \<Rightarrow> u32 \<Rightarrow> XdFileHandle \<Rightarrow> XdFileHandle \<Rightarrow> (u32, XdFileHandle \<times> XdFileHandle) run" where
  "copy_on_page no_verify off len from to =
     (let off_page = unat off div XD_PAGE_SIZE;
          off_off = unat off mod XD_PAGE_SIZE;
          on = on_page from off_page
      in if on \<le> 0 then Some Refused
         else
           let rem = of_int on - of_nat off_off;
               copy = min len rem
           in rbind (copy_unmap off_page from) (\<lambda>_ from.
              rbind (xd_handle_map_page no_verify off_page (from\<lparr>copy_pgno := off_page\<rparr>)) (\<lambda>(page, n) from.
              if length page < off_off + unat copy then Some Wild
              else case xd_handle_write no_verify (take (unat copy) (drop off_off page)) to of
                  None \<Rightarrow> Some Refused
                | Some to \<Rightarrow>
                    rbind (xd_handle_unmap_page off_page (from\<lparr>copy_page := Some page\<rparr>)) (\<lambda>_ from.
                      Some (Parsed copy (from\<lparr>copy_page := None\<rparr>, to))))))"

partial_function (option) copy_pages :: "bool \<Rightarrow> u32 \<Rightarrow> u32 \<Rightarrow> XdFileHandle \<Rightarrow> XdFileHandle \<Rightarrow> (unit, XdFileHandle \<times> XdFileHandle) run" where
  "copy_pages no_verify off len from to =
     (if len = 0 then Some (Parsed () (from, to))
      else Option.bind (copy_on_page no_verify off len from to) (\<lambda>r. case r of
          Parsed copy (from, to) \<Rightarrow> copy_pages no_verify (off + copy) (len - copy) from to
        | Refused \<Rightarrow> Some Refused
        | Wild \<Rightarrow> Some Wild))"

definition xd_handle_copy :: "bool \<Rightarrow> u32 \<Rightarrow> u32 \<Rightarrow> XdFileHandle \<Rightarrow> XdFileHandle \<Rightarrow> (unit, XdFileHandle \<times> XdFileHandle) run" where
  "xd_handle_copy no_verify off len from to =
     (if fh_in from \<noteq> No_in then copy_stream no_verify len from to else copy_pages no_verify off len from to)"

section \<open>Compression of the output\<close>

text \<open>\<open>gzip level b\<close> is what zlib writes for \<open>b\<close>.  Switching ends the stream that is open; the bytes in the file are the finished
  streams, one after the other.  \<open>None\<close> is a failure of \<^verbatim>\<open>gzsetparams\<close>, for a level that does not exist.\<close>

type_synonym zlib_write = "int \<Rightarrow> bytes \<Rightarrow> bytes"

definition out_close :: "zlib_write \<Rightarrow> int \<Rightarrow> XdFileHandle \<Rightarrow> XdFileHandle" where
  "out_close gzip level h = h\<lparr>out_done := out_done h @ (if out_gz h then gzip level (out_buf h) else out_buf h), out_buf := []\<rparr>"

definition xd_begin_compression :: "zlib_write \<Rightarrow> int \<Rightarrow> XdFileHandle \<Rightarrow> u32 \<times> XdFileHandle" where
  "xd_begin_compression gzip level h =
     (if level = 0 then (real_length h, h)
      else let h = (out_close gzip level h)\<lparr>out_gz := True\<rparr> in (of_nat (length (out_done h)), h))"

definition xd_end_compression :: "zlib_write \<Rightarrow> int \<Rightarrow> XdFileHandle \<Rightarrow> XdFileHandle" where
  "xd_end_compression gzip level h = (if level = 0 then h else (out_close gzip level h)\<lparr>out_gz := False\<rparr>)"

definition xd_handle_really_close :: "zlib_write \<Rightarrow> int \<Rightarrow> XdFileHandle \<Rightarrow> bytes" where
  "xd_handle_really_close gzip level h = out_done (out_close gzip level h)"

declare free_loop.simps [code] checksum_loop.simps [code] copy_stream.simps [code] copy_pages.simps [code]

end
