(* ===== verification/Xd1_Pages.thy ===== *)
theory Xd1_Pages
  imports Xd1_Handle
begin

text \<open>
  The page cache of a handle refines the list of the pages that are mapped, the most recently used one first, together with
  the number of users of each page.
\<close>

section \<open>Linked lists of pages\<close>

definition links :: "(nat \<Rightarrow> LRU option) \<Rightarrow> nat list \<Rightarrow> bool" where
  "links T L \<longleftrightarrow> (\<forall>as p bs. L = as @ p # bs \<longrightarrow>
     (\<exists>l. T p = Some l \<and> lru_next l = (if as = [] then None else Some (last as)) \<and> lru_prev l = (if bs = [] then None else Some (hd bs))))"

definition first :: "'a list \<Rightarrow> 'a option" where
  "first L = (if L = [] then None else Some (hd L))"

definition final :: "'a list \<Rightarrow> 'a option" where
  "final L = (if L = [] then None else Some (last L))"

lemma links_at: "links T (as @ p # bs) \<Longrightarrow> \<exists>l. T p = Some l \<and> lru_next l = final as \<and> lru_prev l = first bs"
  unfolding links_def first_def final_def by blast

lemma linksI: "(\<And>as p bs. L = as @ p # bs \<Longrightarrow> \<exists>l. T p = Some l \<and> lru_next l = final as \<and> lru_prev l = first bs) \<Longrightarrow> links T L"
  unfolding links_def first_def final_def by blast

lemma table_set_lru: "lru_table (set_lru p f h) = (lru_table h)(p := map_option f (lru_table h p))"
  by (simp add: set_lru_def)

text \<open>What unlinking does to the table.\<close>

definition unlinked :: "nat \<Rightarrow> LRU \<Rightarrow> (nat \<Rightarrow> LRU option) \<Rightarrow> nat \<Rightarrow> LRU option" where
  "unlinked p l T r =
     (if r = p then Some (l\<lparr>lru_next := None, lru_prev := None\<rparr>)
      else if lru_next l = Some r then map_option (lru_prev_update (\<lambda>_. lru_prev l)) (T r)
      else if lru_prev l = Some r then map_option (lru_next_update (\<lambda>_. lru_next l)) (T r)
      else T r)"

lemma pull_lru:
  assumes "lru_table h p = Some l" "lru_next l \<noteq> Some p" "lru_prev l \<noteq> Some p" "lru_next l = None \<or> lru_next l \<noteq> lru_prev l"
  shows "pull_lru p l h = h\<lparr>lru_table := unlinked p l (lru_table h), lru_head := (if lru_next l = None then lru_prev l else lru_head h),
    lru_tail := (if lru_prev l = None then lru_next l else lru_tail h)\<rparr>"
  using assms by (cases "lru_next l"; cases "lru_prev l") (auto simp: pull_lru_def set_lru_def unlinked_def fun_eq_iff)

lemma links_unlinked:
  assumes "links T (as @ p # bs)" "distinct (as @ p # bs)" "T p = Some l"
  shows "links (unlinked p l T) (as @ bs)"
proof (rule linksI)
  fix as' q bs' assume split: "as @ bs = as' @ q # bs'"
  have l: "lru_next l = final as" "lru_prev l = first bs" using links_at [OF assms(1)] assms(3) by auto
  have "q \<in> set (as @ bs)" unfolding split by simp
  then have q: "q \<noteq> p" "q \<in> set (as @ bs)" using assms(2) by auto
  from split consider (left) cs where "as = as' @ q # cs" "bs' = cs @ bs" | (right) cs where "as' = as @ cs" "bs = cs @ q # bs'"
    by (fastforce simp: append_eq_append_conv2 Cons_eq_append_conv append_eq_Cons_conv)
  then show "\<exists>l'. unlinked p l T q = Some l' \<and> lru_next l' = final as' \<and> lru_prev l' = first bs'"
  proof cases
    case left
    then have "as @ p # bs = as' @ q # (cs @ p # bs)" by simp
    then obtain l' where l': "T q = Some l'" "lru_next l' = final as'" "lru_prev l' = first (cs @ p # bs)" using links_at assms(1) by metis
    have n: "lru_prev l \<noteq> Some q" using l(2) left assms(2) by (auto simp: first_def)
    have "lru_next l = Some q \<longleftrightarrow> cs = []" using l(1) left assms(2) by (auto simp: final_def)
    then show ?thesis using l' l n q left by (auto simp: unlinked_def first_def)
  next
    case right
    then have "as @ p # bs = (as @ p # cs) @ q # bs'" by simp
    then obtain l' where l': "T q = Some l'" "lru_next l' = final (as @ p # cs)" "lru_prev l' = first bs'" using links_at assms(1) by metis
    have n: "lru_next l \<noteq> Some q" using l(1) right assms(2) by (auto simp: final_def)
    have "lru_prev l = Some q \<longleftrightarrow> cs = []" using l(2) right assms(2) by (auto simp: first_def hd_append)
    then show ?thesis using l' l n q right by (auto simp: unlinked_def final_def)
  qed
qed

text \<open>The whole cache: list, ends, count, and the buffers of exactly the listed pages.\<close>

definition page_len :: "bytes \<Rightarrow> nat \<Rightarrow> nat" where
  "page_len D p = min XD_PAGE_SIZE (length D - p * XD_PAGE_SIZE)"

definition page_bytes :: "bytes \<Rightarrow> nat \<Rightarrow> bytes" where
  "page_bytes D p = take XD_PAGE_SIZE (drop (p * XD_PAGE_SIZE) D)"

definition page_mem :: "bytes \<Rightarrow> nat \<Rightarrow> bytes" where
  "page_mem D p = (if 0 < page_len D p then mmap (page_len D p) (p * XD_PAGE_SIZE) D else [])"

definition entry_ok :: "bytes \<Rightarrow> nat list \<Rightarrow> (nat \<Rightarrow> nat) \<Rightarrow> nat \<Rightarrow> LRU option \<Rightarrow> bool" where
  "entry_ok D L k p e = (case e of
      None \<Rightarrow> p \<notin> set L \<and> k p = 0
    | Some l \<Rightarrow> lru_buffer l = (if p \<in> set L then Some (page_mem D p) else None) \<and> lru_refs l = int (k p) \<and> (p \<notin> set L \<longrightarrow> k p = 0))"

definition cache_ok :: "bytes \<Rightarrow> nat list \<Rightarrow> (nat \<Rightarrow> nat) \<Rightarrow> XdFileHandle \<Rightarrow> bool" where
  "cache_ok D L k h \<longleftrightarrow> distinct L \<and> links (lru_table h) L \<and> lru_head h = first L \<and> lru_tail h = final L \<and> lru_count h = length L \<and>
     (\<forall>p. entry_ok D L k p (lru_table h p))"

lemma cache_entry:
  assumes "cache_ok D L k h" "p \<in> set L"
  obtains l as bs where "lru_table h p = Some l" "L = as @ p # bs" "lru_next l = final as" "lru_prev l = first bs"
    "lru_buffer l = Some (page_mem D p)" "lru_refs l = int (k p)"
proof -
  obtain as bs where L: "L = as @ p # bs" using assms(2) by (meson split_list)
  then obtain l where l: "lru_table h p = Some l" "lru_next l = final as" "lru_prev l = first bs"
    using assms(1) links_at unfolding cache_ok_def by metis
  moreover have "entry_ok D L k p (lru_table h p)"
    using assms(1) unfolding cache_ok_def by blast
  ultimately show thesis using that L assms(2) by (auto simp: entry_ok_def)
qed

text \<open>The state after unlinking a listed page; the page itself keeps its buffer and its users.\<close>

definition detached :: "bytes \<Rightarrow> nat list \<Rightarrow> (nat \<Rightarrow> nat) \<Rightarrow> nat \<Rightarrow> LRU \<Rightarrow> XdFileHandle \<Rightarrow> bool" where
  "detached D L k p l h \<longleftrightarrow> distinct L \<and> p \<notin> set L \<and> links (lru_table h) L \<and> lru_head h = first L \<and> lru_tail h = final L \<and>
     lru_table h p = Some l \<and>
     (\<forall>q. q \<noteq> p \<longrightarrow> entry_ok D L k q (lru_table h q))"

lemma pull_detached:
  assumes "cache_ok D L k h" "p \<in> set L" "lru_table h p = Some l"
  shows "detached D (remove1 p L) k p (l\<lparr>lru_next := None, lru_prev := None\<rparr>) (pull_lru p l h)" "lru_count (pull_lru p l h) = length L"
proof -
  obtain as bs where e: "L = as @ p # bs" "lru_next l = final as" "lru_prev l = first bs"
    using assms by (auto elim: cache_entry)
  have c: "distinct L" "links (lru_table h) L" "lru_head h = first L" "lru_tail h = final L" "lru_count h = length L"
    using assms(1) by (simp_all add: cache_ok_def)
  have rm: "remove1 p L = as @ bs" using c(1) e(1) by (simp add: remove1_append)
  have ne: "lru_next l \<noteq> Some p" "lru_prev l \<noteq> Some p" "lru_next l = None \<or> lru_next l \<noteq> lru_prev l"
    using c(1) unfolding e by (auto simp: first_def final_def) (metis IntI empty_iff last_in_set list.set_sel(1))
  have pull: "pull_lru p l h = h\<lparr>lru_table := unlinked p l (lru_table h), lru_head := (if lru_next l = None then lru_prev l else lru_head h),
      lru_tail := (if lru_prev l = None then lru_next l else lru_tail h)\<rparr>"
    using pull_lru [OF assms(3) ne] .
  have "links (unlinked p l (lru_table h)) (as @ bs)" using links_unlinked c assms(3) e(1) by blast
  moreover have "(if lru_next l = None then lru_prev l else lru_head h) = first (as @ bs)" "(if lru_prev l = None then lru_next l else lru_tail h) = final (as @ bs)"
    unfolding c e by (auto simp: first_def final_def)
  moreover have "entry_ok D (as @ bs) k q (unlinked p l (lru_table h) q)"
    if "q \<noteq> p" for q
  proof -
    have "entry_ok D L k q (lru_table h q)"
      using assms(1) unfolding cache_ok_def by blast
    then show ?thesis using that unfolding e by (cases "lru_table h q") (auto simp: unlinked_def entry_ok_def)
  qed
  ultimately show "detached D (remove1 p L) k p (l\<lparr>lru_next := None, lru_prev := None\<rparr>) (pull_lru p l h)"
    using c(1) unfolding rm pull detached_def by (simp add: e(1) unlinked_def)
  show "lru_count (pull_lru p l h) = length L" unfolding pull using c by simp
qed

text \<open>Linking a page at the head.\<close>

lemma links_head:
  assumes "links T L" "distinct L" "p \<notin> set L"
  shows "links (case first L of None \<Rightarrow> T(p \<mapsto> l\<lparr>lru_prev := None, lru_next := None\<rparr>)
      | Some q \<Rightarrow> (T(p \<mapsto> l\<lparr>lru_prev := Some q, lru_next := None\<rparr>))(q := map_option (lru_next_update (\<lambda>_. Some p)) (T q))) (p # L)"
    (is "links ?T _")
proof (rule linksI)
  fix as r bs assume split: "p # L = as @ r # bs"
  show "\<exists>l'. ?T r = Some l' \<and> lru_next l' = final as \<and> lru_prev l' = first bs"
  proof (cases as)
    case Nil
    then show ?thesis using split assms(3) by (cases L) (auto simp: first_def final_def)
  next
    case (Cons a as')
    then have L: "L = as' @ r # bs" "a = p" using split by simp_all
    obtain l' where l': "T r = Some l'" "lru_next l' = final as'" "lru_prev l' = first bs" using links_at assms(1) L by metis
    have "r \<noteq> p" using L assms(3) by auto
    moreover have "first L = Some r \<longleftrightarrow> as' = []" using L assms(2) by (auto simp: first_def hd_append)
    moreover have "L \<noteq> []" using L by simp
    ultimately show ?thesis using l' Cons L by (auto simp: first_def final_def)
  qed
qed

lemma push_head_table:
  assumes "lru_head h = first L" "distinct L" "p \<notin> set L"
  shows "lru_table (push_head p l h) = (case first L of None \<Rightarrow> (lru_table h)(p \<mapsto> l\<lparr>lru_prev := None, lru_next := None\<rparr>)
      | Some q \<Rightarrow> ((lru_table h)(p \<mapsto> l\<lparr>lru_prev := Some q, lru_next := None\<rparr>))(q := map_option (lru_next_update (\<lambda>_. Some p)) (lru_table h q)))"
    and "lru_table (push_head p l h) p = Some (l\<lparr>lru_prev := first L, lru_next := None\<rparr>)"
  using assms by (auto simp: push_head_def table_set_lru set_lru_def Let_def fun_eq_iff first_def split: option.splits)

definition with_buffer :: "bytes \<Rightarrow> nat \<Rightarrow> XdFileHandle \<Rightarrow> XdFileHandle" where
  "with_buffer D p h = set_lru p (lru_buffer_update (\<lambda>_. Some (page_mem D p))) h"

lemma links_buffer: "links T L \<Longrightarrow> links (T(p := map_option (lru_buffer_update f) (T p))) L"
proof (rule linksI)
  fix as q bs assume "links T L" "L = as @ q # bs"
  then obtain l where "T q = Some l" "lru_next l = final as" "lru_prev l = first bs" using links_at by metis
  then show "\<exists>l. (T(p := map_option (lru_buffer_update f) (T p))) q = Some l \<and> lru_next l = final as \<and> lru_prev l = first bs"
    by (cases "q = p") simp_all
qed

lemma links_refs: "links T L \<Longrightarrow> links (T(p := map_option (lru_refs_update f) (T p))) L"
proof (rule linksI)
  fix as q bs assume "links T L" "L = as @ q # bs"
  then obtain l where "T q = Some l" "lru_next l = final as" "lru_prev l = first bs" using links_at by metis
  then show "\<exists>l. (T(p := map_option (lru_refs_update f) (T p))) q = Some l \<and> lru_next l = final as \<and> lru_prev l = first bs"
    by (cases "q = p") simp_all
qed

lemma push_head_ok:
  assumes "detached D L k p l0 h \<or> (cache_ok D L k h \<and> p \<notin> set L)" "lru_refs l = int (k p)"
  shows "cache_ok D (p # L) k ((with_buffer D p (push_head p l h))\<lparr>lru_count := Suc (length L)\<rparr>)"
proof -
  have h: "distinct L" "p \<notin> set L" "links (lru_table h) L" "lru_head h = first L" "lru_tail h = final L"
    using assms(1) by (auto simp: detached_def cache_ok_def)
  have others: "entry_ok D L k q (lru_table h q)"
    if "q \<noteq> p" for q
    using assms(1) that unfolding detached_def cache_ok_def by blast
  let ?h = "push_head p l h"
  have ends: "lru_head ?h = Some p" "lru_tail ?h = final (p # L)"
    using h by (auto simp: push_head_def set_lru_def Let_def final_def first_def)
  have "links (lru_table ?h) (p # L)" unfolding push_head_table(1) [OF h(4, 1, 2)] by (rule links_head [OF h(3, 1, 2)])
  then have links: "links (lru_table (with_buffer D p ?h)) (p # L)" unfolding with_buffer_def table_set_lru by (rule links_buffer)
  have entry: "entry_ok D (p # L) k q (lru_table (with_buffer D p ?h) q)" for q
  proof (cases "q = p")
    case True
    then show ?thesis using push_head_table(2) [OF h(4, 1, 2), of l] assms(2) by (simp add: with_buffer_def table_set_lru entry_ok_def)
  next
    case False
    then show ?thesis using others [OF False]
      by (cases "lru_table h q") (auto simp: with_buffer_def table_set_lru push_head_table(1) [OF h(4, 1, 2)] first_def entry_ok_def)
  qed
  have "lru_head (with_buffer D p ?h) = Some p" "lru_tail (with_buffer D p ?h) = final (p # L)"
    using ends by (simp_all add: with_buffer_def set_lru_def)
  then show ?thesis
    unfolding cache_ok_def using h(1, 2) links entry by (simp add: first_def)
qed

section \<open>The handle of a file\<close>

definition file_handle :: "bytes \<Rightarrow> XdFileHandle \<Rightarrow> bool" where
  "file_handle D h \<longleftrightarrow> fd_data h = D \<and> length D < 2 ^ 31 \<and> \<not> in_compressed h \<and> narrow_low h = 0 \<and> narrow_high h = of_nat (length D) \<and>
     fh_in h = No_in \<and> (fh_type h = READ_NOSEEK_TYPE \<or> fh_type h = READ_SEEK_TYPE)"

lemma file_handle_length:
  assumes "file_handle D h"
  shows "xd_handle_length h = of_nat (length D)" "unat (xd_handle_length h) = length D"
proof -
  show l: "xd_handle_length h = of_nat (length D)" using assms by (simp add: file_handle_def xd_handle_length_def)
  have "length D < 2 ^ 32" using assms by (simp add: file_handle_def)
  then show "unat (xd_handle_length h) = length D" unfolding l by (simp add: unat_of_nat)
qed

lemma file_handle_pages: "file_handle D h \<Longrightarrow> xd_handle_pages h = length D div XD_PAGE_SIZE"
  using file_handle_length(2) by (simp only: xd_handle_pages_def)

lemma page_size_pos [simp]: "0 < XD_PAGE_SIZE"
  by (simp add: XD_PAGE_SIZE_def)

lemma on_page_len: "file_handle D h \<Longrightarrow> p \<le> length D div XD_PAGE_SIZE \<Longrightarrow> on_page h p = int (page_len D p)"
proof -
  assume h: "file_handle D h" and p: "p \<le> length D div XD_PAGE_SIZE"
  have m: "length D div XD_PAGE_SIZE * XD_PAGE_SIZE + length D mod XD_PAGE_SIZE = length D" by simp
  show ?thesis
  proof (cases "p = length D div XD_PAGE_SIZE")
    case True
    have "length D - p * XD_PAGE_SIZE = length D mod XD_PAGE_SIZE" using True m by (metis add_diff_cancel_left')
    moreover have "length D mod XD_PAGE_SIZE < XD_PAGE_SIZE" by simp
    ultimately show ?thesis using True file_handle_pages [OF h] file_handle_length(2) [OF h] by (simp add: on_page_def page_len_def)
  next
    case False
    then have "(p + 1) * XD_PAGE_SIZE \<le> length D" using p by (metis Suc_eq_plus1 Suc_leI le_neq_implies_less less_eq_div_iff_mult_less_eq page_size_pos)
    then have "page_len D p = XD_PAGE_SIZE" by (simp add: page_len_def algebra_simps)
    then show ?thesis using False p file_handle_pages [OF h] by (simp add: on_page_def)
  qed
qed

lemma length_page_bytes: "length (page_bytes D p) = page_len D p"
  by (simp add: page_bytes_def page_len_def min.commute)

lemma page_mem_take: "take (page_len D p) (page_mem D p) = page_bytes D p"
proof (cases "0 < page_len D p")
  case True
  have "take (page_len D p) (drop (p * XD_PAGE_SIZE) D) = page_bytes D p"
    by (simp add: page_bytes_def page_len_def min_def)
  then show ?thesis using True length_page_bytes [of D p] by (simp add: page_mem_def mmap_def Let_def)
next
  case False
  then show ?thesis using length_page_bytes [of D p] by (simp add: page_mem_def)
qed

lemma pages_up_to: "take (p * XD_PAGE_SIZE) D @ page_bytes D p = take ((p + 1) * XD_PAGE_SIZE) D"
  using take_add [of "p * XD_PAGE_SIZE" XD_PAGE_SIZE D] by (simp add: page_bytes_def add.commute [of XD_PAGE_SIZE])

lemma all_pages: "length D div XD_PAGE_SIZE < p \<Longrightarrow> take (p * XD_PAGE_SIZE) D = D"
  by (metis dual_order.strict_implies_order dividend_less_times_div div_less_iff_less_mult page_size_pos take_all)

definition digest_ok :: "bool \<Rightarrow> bytes \<Rightarrow> XdFileHandle \<Rightarrow> bool" where
  "digest_ok nv D h \<longleftrightarrow> nv \<or> (if md5_page h \<le> length D div XD_PAGE_SIZE then absorbed (take (md5_page h * XD_PAGE_SIZE) D) (fh_ctx h)
     else fh_md5 h = md5_digest D)"

text \<open>The fields that the page cache does not touch.\<close>

definition body :: "XdFileHandle \<Rightarrow> XdFileHandle" where
  "body h = h\<lparr>lru_table := Map.empty, lru_head := None, lru_tail := None, lru_count := 0\<rparr>"

definition frame :: "XdFileHandle \<Rightarrow> XdFileHandle" where
  "frame h = (body h)\<lparr>fh_md5 := [], fh_ctx := md5_zero, md5_page := 0\<rparr>"

lemma body_cache [simp]:
  "body (set_lru p f h) = body h" "body (pull_lru p l h) = body h" "body (push_head p l h) = body h" "body (push_tail p h) = body h"
  "body (h\<lparr>lru_count := n\<rparr>) = body h" "body (with_buffer D p h) = body h"
  by (auto simp: body_def set_lru_def pull_lru_def push_head_def push_tail_def with_buffer_def Let_def split: option.splits)

lemma body_fields:
  assumes "body h' = body h"
  shows "fd_data h' = fd_data h" "in_compressed h' = in_compressed h" "narrow_low h' = narrow_low h" "narrow_high h' = narrow_high h"
    "fh_in h' = fh_in h" "fh_type h' = fh_type h" "md5_page h' = md5_page h" "fh_ctx h' = fh_ctx h" "fh_md5 h' = fh_md5 h" "current_pos h' = current_pos h"
  using assms [THEN arg_cong [where f = fd_data]] assms [THEN arg_cong [where f = in_compressed]] assms [THEN arg_cong [where f = narrow_low]]
    assms [THEN arg_cong [where f = narrow_high]] assms [THEN arg_cong [where f = fh_in]] assms [THEN arg_cong [where f = fh_type]]
    assms [THEN arg_cong [where f = md5_page]] assms [THEN arg_cong [where f = fh_ctx]] assms [THEN arg_cong [where f = fh_md5]]
    assms [THEN arg_cong [where f = current_pos]]
  by (simp_all add: body_def)

lemma pull_fields [simp]: "lru_count (push_head p l h) = lru_count h" "lru_count (set_lru p f h) = lru_count h" "lru_count (pull_lru p l h) = lru_count h"
  by (auto simp: push_head_def set_lru_def pull_lru_def Let_def split: option.splits)

section \<open>Mapping and unmapping\<close>

definition page_inv :: "bool \<Rightarrow> bytes \<Rightarrow> (nat \<Rightarrow> nat) \<Rightarrow> XdFileHandle \<Rightarrow> bool" where
  "page_inv nv D k h \<longleftrightarrow> file_handle D h \<and> digest_ok nv D h \<and> md5_page h \<le> Suc (length D div XD_PAGE_SIZE) \<and>
     (\<exists>L. cache_ok D L k h \<and> set L \<subseteq> {..length D div XD_PAGE_SIZE})"

lemma page_invI: "file_handle D h \<Longrightarrow> digest_ok nv D h \<Longrightarrow> md5_page h \<le> Suc (length D div XD_PAGE_SIZE) \<Longrightarrow> cache_ok D L k h \<Longrightarrow>
    set L \<subseteq> {..length D div XD_PAGE_SIZE} \<Longrightarrow> page_inv nv D k h"
  unfolding page_inv_def by blast

lemma file_handle_body: "body h' = body h \<Longrightarrow> file_handle D h' = file_handle D h"
  using body_fields [of h' h] by (simp add: file_handle_def)

lemma digest_ok_body: "body h' = body h \<Longrightarrow> digest_ok nv D h' = digest_ok nv D h"
  using body_fields [of h' h] by (simp add: digest_ok_def)

lemma few_pages: "length D < 2 ^ 31 \<Longrightarrow> distinct L \<Longrightarrow> set L \<subseteq> {..length D div XD_PAGE_SIZE} \<Longrightarrow> length L < max_mapped_pages"
proof -
  assume D: "length D < 2 ^ 31" and L: "distinct L" "set L \<subseteq> {..length D div XD_PAGE_SIZE}"
  have "length L = card (set L)" using L by (simp add: distinct_card)
  also have "\<dots> \<le> card {..length D div XD_PAGE_SIZE}" using L by (intro card_mono) auto
  also have "\<dots> = Suc (length D div XD_PAGE_SIZE)" by simp
  also have "\<dots> \<le> Suc (2 ^ 31 div XD_PAGE_SIZE)" using D by (simp add: div_le_mono)
  finally show "length L < max_mapped_pages" by (simp add: max_mapped_pages_def XD_PAGE_SIZE_def)
qed

text \<open>Adding a user.\<close>

lemma cache_ref:
  assumes "cache_ok D L k h" "p \<in> set L"
  shows "cache_ok D L (k(p := n)) (set_lru p (lru_refs_update (\<lambda>_. int n)) h)"
proof -
  obtain l where l: "lru_table h p = Some l" using assms by (auto elim: cache_entry)
  have c: "distinct L" "links (lru_table h) L" "lru_head h = first L" "lru_tail h = final L" "lru_count h = length L"
    using assms(1) by (simp_all add: cache_ok_def)
  have "entry_ok D L (k(p := n)) q (lru_table (set_lru p (lru_refs_update (\<lambda>_. int n)) h) q)" for q
  proof -
    have "entry_ok D L k q (lru_table h q)" using assms(1) unfolding cache_ok_def by blast
    then show ?thesis using l assms(2) by (cases "q = p"; cases "lru_table h q") (auto simp: table_set_lru entry_ok_def)
  qed
  moreover have "links (lru_table (set_lru p (lru_refs_update (\<lambda>_. int n)) h)) L"
    unfolding table_set_lru using c(2) by (rule links_refs)
  ultimately show ?thesis using c unfolding cache_ok_def by (simp add: set_lru_def)
qed

text \<open>The bytes of a page reach the checksum when it is mapped for the first time, or by the loop over the pages.\<close>

lemma md5_mapped_same [simp]:
  "lru_table (md5_mapped nv p b h) = lru_table h" "lru_head (md5_mapped nv p b h) = lru_head h" "lru_tail (md5_mapped nv p b h) = lru_tail h"
  "lru_count (md5_mapped nv p b h) = lru_count h" "file_handle D (md5_mapped nv p b h) = file_handle D h" "frame (md5_mapped nv p b h) = frame h"
  by (auto simp: md5_mapped_def Let_def file_handle_def frame_def body_def)

lemma cache_md5_mapped [simp]: "cache_ok D L k (md5_mapped nv p b h) = cache_ok D L k h"
  by (simp add: cache_ok_def)

lemma md5_mapped_page: "md5_page (md5_mapped nv p b h) = (if p = md5_page h then Suc p else md5_page h)"
  by (auto simp: md5_mapped_def Let_def)

lemma md5_mapped_digest:
  assumes "file_handle D h" "digest_ok nv D h" "nv' \<longrightarrow> nv" "p \<le> length D div XD_PAGE_SIZE"
  shows "digest_ok nv D (md5_mapped nv' p (page_bytes D p) h)"
proof (cases "nv \<or> p \<noteq> md5_page h")
  case True
  then show ?thesis using assms(2) by (auto simp: digest_ok_def md5_mapped_def)
next
  case False
  let ?c = "edsio_md5_update (page_bytes D p) (fh_ctx h)"
  have small: "length (page_bytes D p) < 2 ^ 32" by (simp add: length_page_bytes page_len_def XD_PAGE_SIZE_def min_def)
  have "absorbed (take (p * XD_PAGE_SIZE) D) (fh_ctx h)" using False assms by (simp add: digest_ok_def)
  from absorbed_update [OF this small] have c: "absorbed (take (Suc p * XD_PAGE_SIZE) D) ?c"
    using pages_up_to [of p D] by simp
  have pages: "xd_handle_pages (h\<lparr>fh_ctx := ?c, md5_page := Suc (md5_page h)\<rparr>) = length D div XD_PAGE_SIZE"
    using file_handle_pages [OF assms(1)] by (cases "in_compressed h") (simp_all add: xd_handle_pages_def xd_handle_length_def)
  show ?thesis
  proof (cases "length D div XD_PAGE_SIZE < Suc p")
    case True
    have "edsio_md5_final ?c = (md5_digest D, md5_zero)" using md5_final_digest [OF c] all_pages [OF True] by simp
    then show ?thesis using True False assms(3) pages by (simp add: md5_mapped_def digest_ok_def Let_def)
  next
    case False2: False
    then show ?thesis using False c assms(3) pages by (simp add: md5_mapped_def digest_ok_def Let_def)
  qed
qed

lemma set_lru_cong: "lru_table h p = Some l \<Longrightarrow> f l = g l \<Longrightarrow> set_lru p f h = set_lru p g h"
  by (simp add: set_lru_def)

lemma with_buffer_same: "lru_table h p = Some l \<Longrightarrow> lru_buffer l = Some (page_mem D p) \<Longrightarrow> with_buffer D p h = h"
  by (simp add: with_buffer_def set_lru_def fun_upd_idem)

lemma count_same: "lru_count h = n \<Longrightarrow> h\<lparr>lru_count := n\<rparr> = h"
  by simp

lemma frame_body: "body h' = body h \<Longrightarrow> frame h' = frame h"
  by (simp add: frame_def)


text \<open>The first half of mapping: the page goes to the head of the list.\<close>

definition to_head :: "nat \<Rightarrow> XdFileHandle \<Rightarrow> XdFileHandle" where
  "to_head p h =
     (case lru_table h p of
        None \<Rightarrow> push_head p \<lparr>lru_next = None, lru_prev = None, lru_refs = 0, lru_buffer = None\<rparr> h
      | Some l \<Rightarrow> push_head p l (if lru_buffer l \<noteq> None then pull_lru p l h else h))"

lemma to_head_body [simp]: "body (to_head p h) = body h"
  by (simp add: to_head_def split: option.split)

lemma to_head_count [simp]: "lru_count (to_head p h) = lru_count h"
  by (simp add: to_head_def split: option.split)

lemma to_head_listed:
  assumes "cache_ok D L k h" "p \<in> set L"
  shows "cache_ok D (p # remove1 p L) k (to_head p h)"
proof -
  obtain l where l: "lru_table h p = Some l" "lru_buffer l = Some (page_mem D p)" "lru_refs l = int (k p)"
    using assms by (auto elim: cache_entry)
  let ?h = "pull_lru p l h"
  have d: "detached D (remove1 p L) k p (l\<lparr>lru_next := None, lru_prev := None\<rparr>) ?h" and n: "lru_count ?h = length L"
    using pull_detached [OF assms l(1)] .
  have head: "lru_head ?h = first (remove1 p L)" "distinct (remove1 p L)" "p \<notin> set (remove1 p L)" using d by (auto simp: detached_def)
  have same: "with_buffer D p (push_head p l ?h) = push_head p l ?h"
    by (rule with_buffer_same [OF push_head_table(2) [OF head]]) (simp add: l)
  have len: "Suc (length (remove1 p L)) = length L" using assms(2) by (metis length_pos_if_in_set length_remove1 Suc_diff_1)
  have "cache_ok D (p # remove1 p L) k ((with_buffer D p (push_head p l ?h))\<lparr>lru_count := Suc (length (remove1 p L))\<rparr>)"
    using push_head_ok d l(3) by blast
  then have "cache_ok D (p # remove1 p L) k (push_head p l ?h)"
    unfolding same len using n by (simp add: count_same)
  then show ?thesis using l by (simp add: to_head_def)
qed

lemma to_head_unlisted:
  assumes "cache_ok D L k h" "p \<notin> set L"
  shows "cache_ok D (p # L) k ((with_buffer D p (to_head p h))\<lparr>lru_count := Suc (lru_count h)\<rparr>)"
    and "\<exists>l. lru_table (to_head p h) p = Some l \<and> lru_buffer l = None"
proof -
  have e: "entry_ok D L k p (lru_table h p)" and c: "lru_head h = first L" "distinct L" "lru_count h = length L"
    using assms(1) unfolding cache_ok_def by auto
  obtain l where l: "to_head p h = push_head p l h" "lru_refs l = int (k p)" "lru_buffer l = None"
    using e assms(2) by (cases "lru_table h p") (auto simp: to_head_def entry_ok_def)
  show "cache_ok D (p # L) k ((with_buffer D p (to_head p h))\<lparr>lru_count := Suc (lru_count h)\<rparr>)"
    unfolding l(1) c(3) using push_head_ok assms l(2) by blast
  show "\<exists>l. lru_table (to_head p h) p = Some l \<and> lru_buffer l = None"
    unfolding l(1) using push_head_table(2) [OF c(1, 2) assms(2), of l] l(3) by simp
qed

lemma map_page_unfold:
  "xd_handle_map_page nv p h =
     (let h = to_head p h; to_map = on_page h p
      in if to_map < 0 then Some (if p = md5_page h \<and> \<not> nv then Wild else Refused)
         else
           let n = nat to_map
           in Option.bind
                (case lru_buffer (the (lru_table h p)) of
                   Some b \<Rightarrow> Some h
                 | None \<Rightarrow>
                     map_option (\<lambda>h.
                       let b = (if 0 < n then mmap n (p * XD_PAGE_SIZE) (fd_data h) else []);
                           h = set_lru p (lru_buffer_update (\<lambda>_. Some b)) (h\<lparr>lru_count := lru_count h + 1\<rparr>)
                       in md5_mapped nv p (take n b) h) (make_lru_room h))
                (\<lambda>h. Some (Parsed (the (lru_buffer (the (lru_table h p))), n)
                       (set_lru p (\<lambda>l. l\<lparr>lru_refs := lru_refs l + 1\<rparr>) h))))"
  unfolding xd_handle_map_page_def to_head_def Let_def by (rule refl)

text \<open>A user is added to a page that is listed.\<close>

lemma cache_use:
  assumes "cache_ok D L k h" "p \<in> set L"
  shows "cache_ok D L (k(p := k p + 1)) (set_lru p (\<lambda>l. l\<lparr>lru_refs := lru_refs l + 1\<rparr>) h)" "the (lru_buffer (the (lru_table h p))) = page_mem D p"
proof -
  obtain l where l: "lru_table h p = Some l" "lru_buffer l = Some (page_mem D p)" "lru_refs l = int (k p)"
    using assms by (auto elim: cache_entry)
  have "set_lru p (\<lambda>l. l\<lparr>lru_refs := lru_refs l + 1\<rparr>) h = set_lru p (lru_refs_update (\<lambda>_. int (k p + 1))) h"
    by (rule set_lru_cong [OF l(1)]) (simp add: l(3))
  then show "cache_ok D L (k(p := k p + 1)) (set_lru p (\<lambda>l. l\<lparr>lru_refs := lru_refs l + 1\<rparr>) h)" using cache_ref [OF assms, of "k p + 1"] by simp
  show "the (lru_buffer (the (lru_table h p))) = page_mem D p" using l by simp
qed

lemma map_page_ok:
  assumes inv: "page_inv nv D k h" and p: "p \<le> length D div XD_PAGE_SIZE" and nv: "nv' \<longrightarrow> nv"
  shows "\<exists>h'. xd_handle_map_page nv' p h = Some (Parsed (page_mem D p, page_len D p) h') \<and> page_inv nv D (k(p := k p + 1)) h' \<and>
     frame h' = frame h \<and> (md5_page h' = md5_page h \<or> p = md5_page h \<and> md5_page h' = Suc p)"
proof -
  have fh: "file_handle D h" and dg: "digest_ok nv D h" and mp: "md5_page h \<le> Suc (length D div XD_PAGE_SIZE)" using inv by (auto simp: page_inv_def)
  obtain L where c: "cache_ok D L k h" and L: "set L \<subseteq> {..length D div XD_PAGE_SIZE}" using inv by (auto simp: page_inv_def)
  let ?h = "to_head p h"
  have fh1: "file_handle D ?h" using fh file_handle_body [OF to_head_body] by simp
  have dg1: "digest_ok nv D ?h" using dg digest_ok_body [OF to_head_body] by simp
  have on: "on_page ?h p = int (page_len D p)" by (rule on_page_len [OF fh1 p])
  show ?thesis
  proof (cases "p \<in> set L")
    case True
    have c1: "cache_ok D (p # remove1 p L) k ?h" by (rule to_head_listed [OF c True])
    have m: "p \<in> set (p # remove1 p L)" by simp
    obtain l where l: "lru_table ?h p = Some l" "lru_buffer l = Some (page_mem D p)" using c1 m by (rule cache_entry)
    let ?h' = "set_lru p (\<lambda>l. l\<lparr>lru_refs := lru_refs l + 1\<rparr>) ?h"
    have b: "body ?h' = body h" by simp
    have run: "xd_handle_map_page nv' p h = Some (Parsed (page_mem D p, page_len D p) ?h')"
      unfolding map_page_unfold Let_def on by (simp add: l)
    have c2: "cache_ok D (p # remove1 p L) (k(p := k p + 1)) ?h'" by (rule cache_use [OF c1 m])
    have s2: "set (p # remove1 p L) \<subseteq> {..length D div XD_PAGE_SIZE}" using L p set_remove1_subset [of p L] by auto
    have f2: "file_handle D ?h'" "digest_ok nv D ?h'" "frame ?h' = frame h" "md5_page ?h' = md5_page h"
      using fh dg unfolding file_handle_body [OF b] digest_ok_body [OF b] frame_body [OF b] body_fields(7) [OF b] by simp_all
    have "page_inv nv D (k(p := k p + 1)) ?h'" by (rule page_invI [OF f2(1, 2) _ c2 s2]) (use mp f2(4) in simp)
    then show ?thesis using run f2 by blast
  next
    case False
    have room: "make_lru_room ?h = Some ?h"
      using c few_pages [OF _ _ L] fh by (simp add: make_lru_room_def cache_ok_def file_handle_def)
    let ?h2 = "(with_buffer D p ?h)\<lparr>lru_count := Suc (lru_count h)\<rparr>"
    have c2: "cache_ok D (p # L) k ?h2" using to_head_unlisted(1) [OF c False] .
    obtain l where l: "lru_table ?h p = Some l" "lru_buffer l = None" using to_head_unlisted(2) [OF c False] by blast
    have b2: "body ?h2 = body h" by simp
    let ?h3 = "md5_mapped nv' p (page_bytes D p) ?h2"
    let ?h' = "set_lru p (\<lambda>l. l\<lparr>lru_refs := lru_refs l + 1\<rparr>) ?h3"
    have c3: "cache_ok D (p # L) k ?h3" using c2 by simp
    have dat: "fd_data ?h = D" using fh1 by (simp add: file_handle_def)
    have mem: "(if 0 < page_len D p then mmap (page_len D p) (p * XD_PAGE_SIZE) (fd_data ?h) else []) = page_mem D p"
      by (simp add: page_mem_def dat)
    have buf: "set_lru p (lru_buffer_update (\<lambda>_. Some (page_mem D p))) (?h\<lparr>lru_count := lru_count ?h + 1\<rparr>) = ?h2"
      by (simp add: with_buffer_def set_lru_def)
    have the: "the (lru_buffer (the (lru_table ?h3 p))) = page_mem D p" by (rule cache_use(2) [OF c3]) simp
    have b: "body ?h' = body ?h3" by simp
    have f2: "file_handle D ?h2" "digest_ok nv D ?h2" unfolding file_handle_body [OF b2] digest_ok_body [OF b2] by (rule fh, rule dg)
    have run: "xd_handle_map_page nv' p h = Some (Parsed (page_mem D p, page_len D p) ?h')"
      unfolding map_page_unfold Let_def on
      by (simp only: l option.sel option.case option.map bind.bind_lunit room mem nat_int buf page_mem_take the of_nat_less_0_iff if_False)
    have c4: "cache_ok D (p # L) (k(p := k p + 1)) ?h'" by (rule cache_use [OF c3]) simp
    have s4: "set (p # L) \<subseteq> {..length D div XD_PAGE_SIZE}" using L p by auto
    have d4: "digest_ok nv D ?h'" unfolding digest_ok_body [OF b] by (rule md5_mapped_digest [OF f2 nv p])
    have f4: "file_handle D ?h'" "frame ?h' = frame h" unfolding file_handle_body [OF b] frame_body [OF b] md5_mapped_same by (rule f2, rule frame_body [OF b2])
    have page: "md5_page ?h' = (if p = md5_page h then Suc p else md5_page h)"
      using body_fields(7) [OF b] body_fields(7) [OF b2] md5_mapped_page by metis
    have m4: "md5_page ?h' \<le> Suc (length D div XD_PAGE_SIZE)" "md5_page ?h' = md5_page h \<or> p = md5_page h \<and> md5_page ?h' = Suc p"
      unfolding page using mp p by auto
    have "page_inv nv D (k(p := k p + 1)) ?h'" by (rule page_invI [OF f4(1) d4 m4(1) c4 s4])
    then show ?thesis using run f4(2) m4(2) by blast
  qed
qed

text \<open>A page without users that is put at the tail is the page that is freed: what is left is the list without it.\<close>

lemma free_at_tail:
  assumes d: "detached D L k p l h" and l: "lru_next l = None" "lru_prev l = None" "lru_refs l = 0"
  shows "really_free_one_page (push_tail p h) = Some (set_lru p (lru_buffer_update (\<lambda>_. None)) (h\<lparr>lru_count := lru_count h - 1\<rparr>))"
proof (cases "L = []")
  case True
  have none: "l\<lparr>lru_next := None, lru_prev := None, lru_buffer := None\<rparr> = l\<lparr>lru_buffer := None\<rparr>" by (cases l) (use l in simp)
  have h: "lru_table h p = Some l" "lru_head h = None" "lru_tail h = None" using d True by (auto simp: detached_def first_def final_def)
  have "push_tail p h = h\<lparr>lru_tail := Some p\<rparr>"
    using h l by (simp add: push_tail_def set_lru_def fun_upd_idem)
  then show ?thesis using h l
    by (simp add: really_free_one_page_def free_loop.simps pull_lru_def set_lru_def Let_def none)
next
  case False
  define q where "q = last L"
  have L: "L = butlast L @ q # []" using False by (simp add: q_def)
  have links: "links (lru_table h) L" using d by (simp add: detached_def)
  obtain lq where q: "lru_table h q = Some lq" "lru_prev lq = None" using links_at [of "lru_table h" "butlast L" q "[]"] links L by (auto simp: first_def)
  have h: "lru_table h p = Some l" "lru_tail h = Some q" "p \<notin> set L" using d False by (auto simp: detached_def final_def q_def)
  have qp: "q \<noteq> p" using h(3) L by (metis in_set_conv_decomp)
  have restored: "lru_prev_update (\<lambda>_. None) lq = lq" using q(2) by simp
  have same: "l\<lparr>lru_next := Some q, lru_prev := None\<rparr> = l\<lparr>lru_next := Some q\<rparr>" "l\<lparr>lru_next := None, lru_prev := None, lru_buffer := None\<rparr> = l\<lparr>lru_buffer := None\<rparr>"
    by (cases l; use l in simp)+
  have tail: "h\<lparr>lru_tail := Some q\<rparr> = h" using h(2) by simp
  let ?t = "push_tail p h"
  have t: "?t = h\<lparr>lru_table := (lru_table h)(q \<mapsto> lru_prev_update (\<lambda>_. Some p) lq, p \<mapsto> l\<lparr>lru_next := Some q\<rparr>), lru_tail := Some p\<rparr>"
    using h q qp l by (simp add: push_tail_def set_lru_def Let_def same)
  have tab: "(lru_table h)(q \<mapsto> lq, p \<mapsto> l\<lparr>lru_buffer := None\<rparr>) = (lru_table h)(p \<mapsto> l\<lparr>lru_buffer := None\<rparr>)"
    using q qp by (auto simp: fun_eq_iff)
  show ?thesis
    unfolding t using h q qp l
    by (simp add: really_free_one_page_def free_loop.simps pull_lru_def set_lru_def Let_def same restored tab tail)
qed

lemma pull_links_only: "lru_next l = lru_next l' \<Longrightarrow> lru_prev l = lru_prev l' \<Longrightarrow> pull_lru p l h = pull_lru p l' h"
  by (simp add: pull_lru_def)

lemma cache_freed:
  assumes d: "detached D L k p l h" and k: "k p = 0" "lru_refs l = 0"
  shows "cache_ok D L k (set_lru p (lru_buffer_update (\<lambda>_. None)) (h\<lparr>lru_count := length L\<rparr>))"
proof -
  have h: "lru_table h p = Some l" "p \<notin> set L" "links (lru_table h) L" "distinct L" "lru_head h = first L" "lru_tail h = final L"
    using d by (auto simp: detached_def)
  have "entry_ok D L k q (lru_table (set_lru p (lru_buffer_update (\<lambda>_. None)) h) q)" for q
    using d h k by (cases "q = p") (auto simp: table_set_lru entry_ok_def detached_def)
  moreover have "links (lru_table (set_lru p (lru_buffer_update (\<lambda>_. None)) h)) L"
    unfolding table_set_lru using h(3) by (rule links_buffer)
  ultimately show ?thesis using h unfolding cache_ok_def by (simp add: set_lru_def)
qed

lemma cache_unused:
  assumes c: "cache_ok D L k h" and p: "p \<in> set L" "lru_table h p = Some l" "k p = 1"
  shows "\<exists>h'. really_free_one_page (push_tail p (pull_lru p l (set_lru p (lru_refs_update (\<lambda>_. 0)) h))) = Some h' \<and>
     cache_ok D (remove1 p L) (k(p := 0)) h' \<and> body h' = body h"
proof -
  let ?h1 = "set_lru p (lru_refs_update (\<lambda>_. 0)) h"
  have c1: "cache_ok D L (k(p := 0)) ?h1" using cache_ref [OF c p(1), of 0] by simp
  have l1: "lru_table ?h1 p = Some (l\<lparr>lru_refs := 0\<rparr>)" using p(2) by (simp add: table_set_lru)
  define l2 where "l2 = l\<lparr>lru_refs := 0, lru_next := None, lru_prev := None\<rparr>"
  define h2 where "h2 = pull_lru p (l\<lparr>lru_refs := 0\<rparr>) ?h1"
  have d: "detached D (remove1 p L) (k(p := 0)) p l2 h2" and n: "lru_count h2 = length L"
    unfolding h2_def l2_def using pull_detached [OF c1 p(1) l1] by simp_all
  have e: "pull_lru p l ?h1 = h2" unfolding h2_def by (rule pull_links_only) simp_all
  have n1: "lru_count h2 - 1 = length (remove1 p L)" using n p(1) by (simp add: length_remove1)
  let ?h3 = "set_lru p (lru_buffer_update (\<lambda>_. None)) (h2\<lparr>lru_count := length (remove1 p L)\<rparr>)"
  have "really_free_one_page (push_tail p h2) = Some ?h3"
    unfolding n1 [symmetric] by (rule free_at_tail [OF d]) (simp_all add: l2_def)
  moreover have "cache_ok D (remove1 p L) (k(p := 0)) ?h3" by (rule cache_freed [OF d]) (simp_all add: l2_def)
  moreover have "body ?h3 = body h" by (simp add: h2_def)
  ultimately show ?thesis unfolding e by blast
qed

lemma unmap_page_ok:
  assumes inv: "page_inv nv D k h" and p: "0 < k p"
  shows "\<exists>h'. xd_handle_unmap_page p h = Some (Parsed () h') \<and> page_inv nv D (k(p := k p - 1)) h' \<and> body h' = body h"
proof -
  have fh: "file_handle D h" and dg: "digest_ok nv D h" and mp: "md5_page h \<le> Suc (length D div XD_PAGE_SIZE)" using inv by (auto simp: page_inv_def)
  obtain L where c: "cache_ok D L k h" and L: "set L \<subseteq> {..length D div XD_PAGE_SIZE}" using inv by (auto simp: page_inv_def)
  have "entry_ok D L k p (lru_table h p)" using c by (simp add: cache_ok_def)
  then have m: "p \<in> set L" using p by (auto simp: entry_ok_def split: option.splits)
  obtain l where l: "lru_table h p = Some l" "lru_refs l = int (k p)" using c m by (rule cache_entry)
  have less: "set_lru p (\<lambda>l. l\<lparr>lru_refs := lru_refs l - 1\<rparr>) h = set_lru p (lru_refs_update (\<lambda>_. int (k p - 1))) h"
    using p by (intro set_lru_cong [OF l(1)]) (simp add: l(2))
  have "\<exists>h' L'. xd_handle_unmap_page p h = Some (Parsed () h') \<and> cache_ok D L' (k(p := k p - 1)) h' \<and> set L' \<subseteq> set L \<and> body h' = body h"
  proof (cases "k p = 1 \<and> fh_type h = READ_NOSEEK_TYPE")
    case True
    obtain h' where "really_free_one_page (push_tail p (pull_lru p l (set_lru p (lru_refs_update (\<lambda>_. 0)) h))) = Some h'"
      "cache_ok D (remove1 p L) (k(p := 0)) h'" "body h' = body h"
      using cache_unused [OF c m l(1)] True by blast
    moreover have "fh_type (set_lru p f h) = fh_type h" for f by (simp add: set_lru_def)
    moreover have "set (remove1 p L) \<subseteq> set L" by (rule set_remove1_subset)
    ultimately show ?thesis using True less l by (auto simp: xd_handle_unmap_page_def Let_def)
  next
    case False
    moreover have "fh_type (set_lru p f h) = fh_type h" for f by (simp add: set_lru_def)
    moreover have "int (k p) - 1 = 0 \<longleftrightarrow> k p = 1" by linarith
    ultimately have "xd_handle_unmap_page p h = Some (Parsed () (set_lru p (lru_refs_update (\<lambda>_. int (k p - 1))) h))"
      using l less by (auto simp: xd_handle_unmap_page_def Let_def)
    then show ?thesis using cache_ref [OF c m, of "k p - 1"] by auto
  qed
  then obtain h' L' where h': "xd_handle_unmap_page p h = Some (Parsed () h')" "cache_ok D L' (k(p := k p - 1)) h'" "set L' \<subseteq> set L" "body h' = body h"
    by blast
  have "page_inv nv D (k(p := k p - 1)) h'"
    using fh dg mp L h'(3) unfolding file_handle_body [OF h'(4), symmetric] digest_ok_body [OF h'(4), symmetric] body_fields(7) [OF h'(4), symmetric]
    by (intro page_invI [OF _ _ _ h'(2)]) auto
  then show ?thesis using h' by blast
qed

section \<open>The interface of the pages\<close>

text \<open>What a client relies on: a page can be mapped at any time and gives its bytes, and can be unmapped as often as it was mapped.\<close>

datatype page_op = Map_page nat | Unmap_page nat

primrec page_ops :: "(nat \<Rightarrow> 'h \<Rightarrow> (bytes \<times> nat, 'h) run) \<Rightarrow> (nat \<Rightarrow> 'h \<Rightarrow> (unit, 'h) run) \<Rightarrow> page_op list \<Rightarrow> 'h \<Rightarrow> ((bytes \<times> nat) list, 'h) run" where
  "page_ops map_page unmap_page [] h = Some (Parsed [] h)"
| "page_ops map_page unmap_page (e # es) h =
     (case e of
        Map_page p \<Rightarrow> rbind (map_page p h) (\<lambda>m h. rbind (page_ops map_page unmap_page es h) (\<lambda>ms h. Some (Parsed (m # ms) h)))
      | Unmap_page p \<Rightarrow> rbind (unmap_page p h) (\<lambda>_ h. page_ops map_page unmap_page es h))"

text \<open>The users of the pages after a sequence of calls, if it is a legal one; the results to expect of it.\<close>

primrec users :: "nat \<Rightarrow> page_op list \<Rightarrow> (nat \<Rightarrow> nat) \<Rightarrow> (nat \<Rightarrow> nat) option" where
  "users pages [] k = Some k"
| "users pages (e # es) k =
     (case e of
        Map_page p \<Rightarrow> if p \<le> pages then users pages es (k(p := k p + 1)) else None
      | Unmap_page p \<Rightarrow> if 0 < k p then users pages es (k(p := k p - 1)) else None)"

primrec mapped :: "(nat \<Rightarrow> 'a) \<Rightarrow> page_op list \<Rightarrow> 'a list" where
  "mapped m [] = []"
| "mapped m (e # es) = (case e of Map_page p \<Rightarrow> m p # mapped m es | Unmap_page p \<Rightarrow> mapped m es)"

locale page_source =
  fixes map_page :: "nat \<Rightarrow> 'h \<Rightarrow> (bytes \<times> nat, 'h) run" and unmap_page :: "nat \<Rightarrow> 'h \<Rightarrow> (unit, 'h) run"
    and inv :: "(nat \<Rightarrow> nat) \<Rightarrow> 'h \<Rightarrow> bool" and mem :: "nat \<Rightarrow> bytes" and size :: "nat \<Rightarrow> nat" and pages :: nat
  assumes map_law: "inv k h \<Longrightarrow> p \<le> pages \<Longrightarrow> \<exists>h'. map_page p h = Some (Parsed (mem p, size p) h') \<and> inv (k(p := k p + 1)) h'"
    and unmap_law: "inv k h \<Longrightarrow> 0 < k p \<Longrightarrow> \<exists>h'. unmap_page p h = Some (Parsed () h') \<and> inv (k(p := k p - 1)) h'"
begin

lemma page_ops_run: "inv k h \<Longrightarrow> users pages es k = Some k' \<Longrightarrow>
    \<exists>h'. page_ops map_page unmap_page es h = Some (Parsed (mapped (\<lambda>p. (mem p, size p)) es) h') \<and> inv k' h'"
proof (induction es arbitrary: k h)
  case (Cons e es)
  show ?case
  proof (cases e)
    case (Map_page p)
    then have p: "p \<le> pages" "users pages es (k(p := k p + 1)) = Some k'" using Cons.prems(2) by (auto split: if_splits)
    obtain h1 where "map_page p h = Some (Parsed (mem p, size p) h1)" "inv (k(p := k p + 1)) h1" using map_law [OF Cons.prems(1) p(1)] by blast
    then show ?thesis using Cons.IH [OF _ p(2)] Map_page by (fastforce simp: rbind_def)
  next
    case (Unmap_page p)
    then have p: "0 < k p" "users pages es (k(p := k p - 1)) = Some k'" using Cons.prems(2) by (auto split: if_splits)
    obtain h1 where "unmap_page p h = Some (Parsed () h1)" "inv (k(p := k p - 1)) h1" using unmap_law [OF Cons.prems(1) p(1)] by blast
    then show ?thesis using Cons.IH [OF _ p(2)] Unmap_page by (fastforce simp: rbind_def)
  qed
qed simp

text \<open>A page that is mapped for one use.\<close>

lemma use_page:
  assumes "inv k h" "p \<le> pages"
  obtains h1 h2 where "map_page p h = Some (Parsed (mem p, size p) h1)" "inv (k(p := k p + 1)) h1" "unmap_page p h1 = Some (Parsed () h2)" "inv k h2"
proof -
  obtain h1 where h1: "map_page p h = Some (Parsed (mem p, size p) h1)" "inv (k(p := k p + 1)) h1" using map_law [OF assms] by blast
  obtain h2 where "unmap_page p h1 = Some (Parsed () h2)" "inv k h2" using unmap_law [OF h1(2), of p] by auto
  then show thesis using that h1 by blast
qed

end

interpretation pages: page_source "xd_handle_map_page nv" xd_handle_unmap_page "page_inv nv D" "page_mem D" "page_len D" "length D div XD_PAGE_SIZE" for nv D
proof (rule page_source.intro)
  show "page_inv nv D k h \<Longrightarrow> p \<le> length D div XD_PAGE_SIZE \<Longrightarrow>
      \<exists>h'. xd_handle_map_page nv p h = Some (Parsed (page_mem D p, page_len D p) h') \<and> page_inv nv D (k(p := k p + 1)) h'" for k h p
    using map_page_ok by blast
  show "page_inv nv D k h \<Longrightarrow> 0 < k p \<Longrightarrow> \<exists>h'. xd_handle_unmap_page p h = Some (Parsed () h') \<and> page_inv nv D (k(p := k p - 1)) h'" for k h p
    using unmap_page_ok by blast
qed

section \<open>The checksum of a file\<close>

lemma frame_cache: "frame (set_lru p f h) = frame h"
  by (simp add: frame_def)

lemma checksum_step:
  assumes inv: "page_inv nv D k h" and m: "md5_page h \<le> length D div XD_PAGE_SIZE"
  shows "\<exists>h'. checksum_loop nv h = checksum_loop nv h' \<and> page_inv nv D k h' \<and> frame h' = frame h \<and> md5_page h' = Suc (md5_page h)"
proof -
  let ?p = "md5_page h"
  have fh: "file_handle D h" using inv by (simp add: page_inv_def)
  obtain h1 where h1: "xd_handle_map_page nv ?p h = Some (Parsed (page_mem D ?p, page_len D ?p) h1)" "page_inv nv D (k(?p := k ?p + 1)) h1"
    "frame h1 = frame h" "md5_page h1 = ?p \<or> md5_page h1 = Suc ?p"
    using map_page_ok [OF inv m, of nv] by auto
  let ?h2 = "md5_mapped False ?p (page_bytes D ?p) h1"
  have f1: "file_handle D h1" "digest_ok nv D h1" "md5_page h1 \<le> Suc (length D div XD_PAGE_SIZE)"
    and c1: "\<exists>L. cache_ok D L (k(?p := k ?p + 1)) h1 \<and> set L \<subseteq> {..length D div XD_PAGE_SIZE}"
    using h1(2) by (auto simp: page_inv_def)
  have page: "md5_page ?h2 = Suc ?p" using h1(4) by (auto simp: md5_mapped_page)
  have "digest_ok nv D ?h2" by (rule md5_mapped_digest [OF f1(1, 2) _ m]) simp
  then have "page_inv nv D (k(?p := k ?p + 1)) ?h2" using f1 c1 page m unfolding page_inv_def by simp
  then obtain h3 where h3: "xd_handle_unmap_page ?p ?h2 = Some (Parsed () h3)" "page_inv nv D k h3" "body h3 = body ?h2"
    using unmap_page_ok [of nv D "k(?p := k ?p + 1)" ?h2 ?p] by auto
  have loop: "checksum_loop nv h = checksum_loop nv h3"
  proof -
    have "(if ?p = md5_page h1 then
             let c = edsio_md5_update (take (page_len D ?p) (page_mem D ?p)) (fh_ctx h1); g = h1\<lparr>fh_ctx := c, md5_page := md5_page h1 + 1\<rparr>
             in if xd_handle_pages g < md5_page g then g\<lparr>fh_md5 := fst (edsio_md5_final c), fh_ctx := snd (edsio_md5_final c)\<rparr> else g
           else h1) = ?h2"
      unfolding md5_mapped_def page_mem_take by (simp add: Let_def)
    then show ?thesis
      using m file_handle_pages [OF fh] h1(1) h3(1) by (subst checksum_loop.simps) (simp add: Let_def)
  qed
  have "frame h3 = frame h" using frame_body [OF h3(3)] h1(3) by simp
  moreover have "md5_page h3 = Suc ?p" using body_fields(7) [OF h3(3)] page by simp
  ultimately show ?thesis using loop h3(2) by blast
qed

lemma checksum_loop_ok:
  "page_inv nv D k h \<Longrightarrow> \<exists>h'. checksum_loop nv h = Some (Parsed () h') \<and> page_inv nv D k h' \<and> frame h' = frame h \<and> length D div XD_PAGE_SIZE < md5_page h'"
proof (induction "Suc (length D div XD_PAGE_SIZE) - md5_page h" arbitrary: h rule: less_induct)
  case less
  have fh: "file_handle D h" using less.prems by (simp add: page_inv_def)
  show ?case
  proof (cases "md5_page h \<le> length D div XD_PAGE_SIZE")
    case True
    obtain h' where h': "checksum_loop nv h = checksum_loop nv h'" "page_inv nv D k h'" "frame h' = frame h" "md5_page h' = Suc (md5_page h)"
      using checksum_step [OF less.prems True] by blast
    have "Suc (length D div XD_PAGE_SIZE) - md5_page h' < Suc (length D div XD_PAGE_SIZE) - md5_page h" using h'(4) True by simp
    from less.hyps [OF this h'(2)] show ?thesis using h'(1, 3) by simp
  next
    case False
    then show ?thesis using less.prems file_handle_pages [OF fh] by (subst checksum_loop.simps) auto
  qed
qed

lemma checksum_md5_ok:
  assumes "page_inv False D k h"
  shows "\<exists>h'. xd_handle_checksum_md5 False h = Some (Parsed (md5_digest D) h') \<and> page_inv False D k h'"
proof -
  obtain h' where h': "checksum_loop False h = Some (Parsed () h')" "page_inv False D k h'" "length D div XD_PAGE_SIZE < md5_page h'"
    using checksum_loop_ok [OF assms] by blast
  have "fh_in h = No_in" "fh_type h \<noteq> WRITE_TYPE"
    using assms by (auto simp: page_inv_def file_handle_def READ_NOSEEK_TYPE_def READ_SEEK_TYPE_def WRITE_TYPE_def)
  moreover have "fh_md5 h' = md5_digest D" using h'(2, 3) by (simp add: page_inv_def digest_ok_def)
  ultimately show ?thesis using h' by (auto simp: xd_handle_checksum_md5_def rbind_def)
qed

end
