(* ===== verification/Xd1_Copy.thy ===== *)
theory Xd1_Copy
  imports Xd1_Pages
begin

text \<open>
  The handles as sources and sinks: what an opened file gives, what reading and writing do, and copying of a range from one handle
  to another.  The locales of \<open>Edsio\<close> are interpreted on the handles.
\<close>

section \<open>Opened files\<close>

text \<open>The text of a file is its content, or what zlib makes of it when it starts like a gzip file.\<close>

definition gzipped :: "bytes \<Rightarrow> bool" where
  "gzipped d \<longleftrightarrow> 2 \<le> length d \<and> d ! 0 = 0x1f \<and> d ! 1 = 0x8b"

definition file_text :: "zlib_read \<Rightarrow> bytes \<Rightarrow> bytes" where
  "file_text gunz d = (if gzipped d then fst (gunz d) else d)"

lemma page_inv_new:
  assumes "length D < 2 ^ 31" "ty = READ_NOSEEK_TYPE \<or> ty = READ_SEEK_TYPE"
  shows "page_inv nv D (\<lambda>_. 0) (handle_new0\<lparr>fd_data := D, fh_length := n, narrow_high := of_nat (length D), fh_type := ty, cleanup := c,
    fh_ctx := edsio_md5_init md5_zero\<rparr>)" (is "page_inv nv D _ ?h")
proof (rule page_invI)
  show "file_handle D ?h" using assms by (auto simp: file_handle_def handle_new0_def)
  show "digest_ok nv D ?h" by (simp add: digest_ok_def handle_new0_def absorbed_init md5_zero_def)
  show "md5_page ?h \<le> Suc (length D div XD_PAGE_SIZE)" by (simp add: handle_new0_def)
  show "cache_ok D [] (\<lambda>_. 0) ?h" by (simp add: cache_ok_def links_def handle_new0_def first_def final_def entry_ok_def)
qed simp

lemma open_read_seek:
  assumes d: "content fs name = Some d" and ok: "gzipped d \<longrightarrow> snd (gunz d)" "gzipped d \<longrightarrow> writable fs (tmpname fs)" and small: "length (file_text gunz d) < 2 ^ 31"
  shows "\<exists>h. open_read_seek_handle gunz tmpname name fs = Ret (Some (h, gzipped d), if gzipped d then put_file (tmpname fs) (fst (gunz d)) fs else fs) \<and>
    page_inv nv (file_text gunz d) (\<lambda>_. 0) h \<and> cleanup h = (if gzipped d then Some (tmpname fs) else None) \<and> copy_page h = None \<and>
    narrow_low h = 0 \<and> xd_handle_length h = of_nat (length (file_text gunz d))"
proof -
  let ?D = "file_text gunz d"
  let ?h = "handle_new0\<lparr>fd_data := ?D, fh_length := of_nat (length ?D), narrow_high := of_nat (length ?D), fh_type := READ_SEEK_TYPE,
    cleanup := (if gzipped d then Some (tmpname fs) else None), fh_ctx := edsio_md5_init md5_zero\<rparr>"
  have c: "fh_ctx handle_new0 = md5_zero" by (simp add: handle_new0_def)
  have z: "file_gzipped name fs = Some (gzipped d)" using d by (simp add: file_gzipped_def gzipped_def)
  have "open_read_seek_handle gunz tmpname name fs = Ret (Some (?h, gzipped d), if gzipped d then put_file (tmpname fs) (fst (gunz d)) fs else fs)"
    using d ok by (cases "gunz d"; cases "gzipped d")
      (simp_all add: open_read_seek_handle_def z file_gunzip_def open_common_def file_text_def stdio_simps c Let_def)
  moreover have "page_inv nv ?D (\<lambda>_. 0) ?h" using small by (intro page_inv_new) simp_all
  ultimately show ?thesis by (intro exI [of _ ?h]) (simp add: handle_new0_def xd_handle_length_def)
qed

text \<open>A compressed file is only opened when the temporary one could be written.\<close>

lemma open_read_seek_writable:
  assumes "content fs name = Some d" "open_read_seek_handle gunz tmpname name fs = Ret (Some x, fs')"
  shows "gzipped d \<longrightarrow> writable fs (tmpname fs)"
proof
  assume "gzipped d"
  then have "file_gzipped name fs = Some True" using assms(1) by (simp add: file_gzipped_def gzipped_def)
  then show "writable fs (tmpname fs)" using assms(2)
    by (auto simp: open_read_seek_handle_def file_gunzip_def cbind_eq_Ret Let_def split: if_splits prod.splits)
qed

section \<open>Reading on\<close>

definition handle_rest :: "XdFileHandle \<Rightarrow> bytes" where
  "handle_rest h = (case fh_in h of No_in \<Rightarrow> [] | Plain_in f \<Rightarrow> srest f | Gz_in z \<Rightarrow> z)"

lemma read_next:
  assumes "handle_rest h = b @ r"
  shows "\<exists>h'. xd_handle_read nv (length b) h = Some (b, h') \<and> handle_rest h' = r"
proof (cases "b = []")
  case False
  then show ?thesis using assms
    by (cases "fh_in h") (auto simp: xd_handle_read_def in_read_def handle_rest_def fread_front Let_def stdio_simps)
qed (use assms in \<open>simp add: xd_handle_read_def\<close>)

text \<open>What reading does not change: the file behind the handle, and how far the position of the handle is from that of the stream.\<close>

definition file_of :: "XdFileHandle \<Rightarrow> bytes \<times> u32 \<times> (bytes \<times> bool \<times> u32) option \<times> bool \<times> string option \<times> bool \<times> u32 \<times> u32" where
  "file_of h = (fd_data h, fh_length h, case fh_in h of Plain_in f \<Rightarrow> Some (sdata f, spos f \<le> length (sdata f), current_pos h - of_nat (spos f)) | _ \<Rightarrow> None, fh_in h = No_in, cleanup h, in_compressed h,
     narrow_low h, narrow_high h)"

definition handle_at :: "bytes \<times> u32 \<times> (bytes \<times> bool \<times> u32) option \<times> bool \<times> string option \<times> bool \<times> u32 \<times> u32 \<Rightarrow> XdFileHandle \<Rightarrow> bytes \<Rightarrow> bool" where
  "handle_at F h b \<longleftrightarrow> file_of h = F \<and> handle_rest h = b"

lemma read_file_of: "xd_handle_read nv n h = Some (b, h') \<Longrightarrow> file_of h' = file_of h"
  by (auto simp: xd_handle_read_def in_read_def file_of_def fread_def srest_def Let_def split: if_splits reader.splits prod.splits)

interpretation read_handle: serial_source "xd_handle_read nv" "handle_at F" for nv F
proof (rule serial_source.intro)
  show "handle_at F h (b @ r) \<Longrightarrow> \<exists>h'. xd_handle_read nv (length b) h = Some (b, h') \<and> handle_at F h' r" for h b r
    using read_next [of h b r nv] read_file_of unfolding handle_at_def by metis
qed

section \<open>Writing\<close>

interpretation write_handle: serial_sink "xd_handle_write nv" out_buf for nv
proof (rule serial_sink.intro)
  show "b \<noteq> [] \<Longrightarrow> \<exists>h'. xd_handle_write nv b h = Some h' \<and> out_buf h' = out_buf h @ b" for b h
    by (simp add: xd_handle_write_def out_write_def Let_def)
qed

text \<open>A handle to which \<open>W\<close> was written since it was opened or closed, with \<open>B\<close> in the stream that is open.\<close>

definition writer :: "bool \<Rightarrow> bytes \<Rightarrow> bytes \<Rightarrow> XdFileHandle \<Rightarrow> bool" where
  "writer nv W B h \<longleftrightarrow> fh_type h = WRITE_TYPE \<and> fh_in h = No_in \<and> \<not> in_compressed h \<and> \<not> reset_length_next_write h \<and> narrow_low h = 0 \<and>
     narrow_high h = of_nat (length W) \<and> (nv \<or> absorbed W (fh_ctx h)) \<and> out_buf h = B"

lemma writer_new: "writer nv [] [] open_write_handle"
  by (simp add: writer_def open_write_handle_def handle_new0_def absorbed_init md5_zero_def)

lemma writer_write:
  assumes "writer nv W B h" "b \<noteq> []" "length b < 2 ^ 32"
  shows "\<exists>h'. xd_handle_write nv b h = Some h' \<and> writer nv (W @ b) (B @ b) h' \<and> out_gz h' = out_gz h \<and> out_done h' = out_done h"
  using assms absorbed_update [of W "fh_ctx h" b] by (auto simp: xd_handle_write_def out_write_def writer_def Let_def)

section \<open>Copying from pages\<close>

lemma page_inv_copy [simp]: "page_inv nv D k (h\<lparr>copy_pgno := n\<rparr>) = page_inv nv D k h" "page_inv nv D k (h\<lparr>copy_page := m\<rparr>) = page_inv nv D k h"
  by (simp_all add: page_inv_def file_handle_def digest_ok_def cache_ok_def)

lemma frame_same:
  assumes "frame h' = frame h"
  shows "copy_page h' = copy_page h" "cleanup h' = cleanup h"
  using assms [THEN arg_cong [where f = copy_page]] assms [THEN arg_cong [where f = cleanup]] by (simp_all add: frame_def body_def)

lemma body_frame_fields:
  assumes "body h' = body h"
  shows "copy_page h' = copy_page h" "cleanup h' = cleanup h"
  using frame_same [OF frame_body [OF assms]] .

lemma unat_min: "unat (min a b) = min (unat a) (unat (b :: 'a::len word))"
  by (simp add: min_def word_le_nat_alt)

lemma on_a_page:
  assumes "off < length D" "p = off div XD_PAGE_SIZE" "r = off mod XD_PAGE_SIZE"
  shows "p \<le> length D div XD_PAGE_SIZE" "r < page_len D p" "n \<le> page_len D p - r \<Longrightarrow> take n (drop r (page_mem D p)) = take n (drop off D)"
    "n \<le> page_len D p - r \<Longrightarrow> r + n \<le> length (page_mem D p)" "page_len D p \<le> XD_PAGE_SIZE"
proof -
  have off: "off = p * XD_PAGE_SIZE + r" unfolding assms(2, 3) by simp
  have r: "r < XD_PAGE_SIZE" using assms(3) by simp
  show "p \<le> length D div XD_PAGE_SIZE" unfolding assms(2) using assms(1) by (intro div_le_mono) simp
  show len: "r < page_len D p" using off r assms(1) by (simp add: page_len_def)
  show "page_len D p \<le> XD_PAGE_SIZE" by (simp add: page_len_def)
  have l: "page_len D p \<le> length (page_mem D p)" by (metis length_page_bytes length_take min.cobounded1 page_mem_take)
  show "n \<le> page_len D p - r \<Longrightarrow> r + n \<le> length (page_mem D p)" using l len by linarith
  show "take n (drop r (page_mem D p)) = take n (drop off D)" if n: "n \<le> page_len D p - r"
  proof -
    have n2: "n + r \<le> page_len D p" using n len by simp
    have "take n (drop r (page_mem D p)) = drop r (take (n + r) (page_mem D p))" by (simp add: drop_take)
    also have "take (n + r) (page_mem D p) = take (n + r) (take (page_len D p) (page_mem D p))" using n2 by (simp add: min_absorb1)
    also have "\<dots> = take (n + r) (drop (p * XD_PAGE_SIZE) D)"
      unfolding page_mem_take page_bytes_def using n2 by (simp add: min_absorb1 page_len_def)
    also have "drop r \<dots> = take n (drop off D)" unfolding off by (simp add: drop_take add.commute)
    finally show ?thesis .
  qed
qed

lemma copy_on_page_ok:
  assumes src: "page_inv nv D k from" "copy_page from = None" and dst: "writer nv W B to"
    and len: "0 < unat len" "unat off + unat len \<le> length D"
  shows "\<exists>copy from' to'. copy_on_page nv off len from to = Some (Parsed copy (from', to')) \<and> 0 < unat copy \<and> unat copy \<le> unat len \<and>
     page_inv nv D k from' \<and> copy_page from' = None \<and> cleanup from' = cleanup from \<and>
     writer nv (W @ take (unat copy) (drop (unat off) D)) (B @ take (unat copy) (drop (unat off) D)) to' \<and> out_gz to' = out_gz to \<and> out_done to' = out_done to"
proof -
  define p r where "p = unat off div XD_PAGE_SIZE" and "r = unat off mod XD_PAGE_SIZE"
  have "unat off < length D" using len by simp
  note pg = on_a_page [OF this p_def r_def]
  have fh: "file_handle D from" using src(1) by (simp add: page_inv_def)
  have on: "on_page from p = int (page_len D p)" by (rule on_page_len [OF fh pg(1)])
  define rem where "rem = (of_int (int (page_len D p)) - of_nat r :: u32)"
  define copy where "copy = min len rem"
  have small: "page_len D p < 2 ^ 32" using pg(5) by (simp add: XD_PAGE_SIZE_def)
  have "rem = of_nat (page_len D p - r)" unfolding rem_def using pg(2) by (simp add: of_nat_diff)
  then have rem: "unat rem = page_len D p - r" using small by (simp add: unat_of_nat)
  have copy: "0 < unat copy" "unat copy \<le> unat len" "unat copy \<le> page_len D p - r"
    unfolding copy_def unat_min using rem len pg(2) by auto
  let ?b = "take (unat copy) (drop (unat off) D)"
  obtain f1 where f1: "xd_handle_map_page nv p (from\<lparr>copy_pgno := p\<rparr>) = Some (Parsed (page_mem D p, page_len D p) f1)"
    "page_inv nv D (k(p := k p + 1)) f1" "frame f1 = frame (from\<lparr>copy_pgno := p\<rparr>)"
    using map_page_ok [of nv D k "from\<lparr>copy_pgno := p\<rparr>" p nv] src(1) pg(1) by auto
  obtain f2 where f2: "xd_handle_unmap_page p (f1\<lparr>copy_page := Some (page_mem D p)\<rparr>) = Some (Parsed () f2)" "page_inv nv D k f2"
    "body f2 = body (f1\<lparr>copy_page := Some (page_mem D p)\<rparr>)"
    using unmap_page_ok [of nv D "k(p := k p + 1)" "f1\<lparr>copy_page := Some (page_mem D p)\<rparr>" p] f1(2) by auto
  have b: "?b \<noteq> []" "length ?b < 2 ^ 32" using copy(1) len unat_bound [of copy] by auto
  obtain t where t: "xd_handle_write nv ?b to = Some t" "writer nv (W @ ?b) (B @ ?b) t" "out_gz t = out_gz to" "out_done t = out_done to"
    using writer_write [OF dst b] by blast
  have "copy_on_page nv off len from to = Some (Parsed copy (f2\<lparr>copy_page := None\<rparr>, t))"
    unfolding copy_on_page_def Let_def p_def [symmetric] r_def [symmetric] on rem_def [symmetric] copy_def [symmetric]
    using src(2) pg(2) pg(4) [OF copy(3)] pg(3) [OF copy(3)] f1(1) f2(1) t(1)
    by (simp add: rbind_def copy_unmap_def)
  moreover have "cleanup f2 = cleanup from" using body_frame_fields(2) [OF f2(3)] frame_same(2) [OF f1(3)] by simp
  ultimately show ?thesis using copy f2(2) t by auto
qed

lemma copy_pages_ok:
  assumes "page_inv nv D k from" "copy_page from = None" "writer nv W B to" "unat off + unat len \<le> length D"
  shows "\<exists>from' to'. copy_pages nv off len from to = Some (Parsed () (from', to')) \<and> page_inv nv D k from' \<and> copy_page from' = None \<and>
     cleanup from' = cleanup from \<and> writer nv (W @ take (unat len) (drop (unat off) D)) (B @ take (unat len) (drop (unat off) D)) to' \<and>
     out_gz to' = out_gz to \<and> out_done to' = out_done to"
  using assms
proof (induction "unat len" arbitrary: off len "from" to W B rule: less_induct)
  case less
  show ?case
  proof (cases "len = 0")
    case True
    then show ?thesis using less.prems by (simp add: copy_pages.simps)
  next
    case False
    then have pos: "0 < unat len" by (simp add: word_neq_0_conv unat_gt_0)
    obtain c f t where s: "copy_on_page nv off len from to = Some (Parsed c (f, t))" "0 < unat c" "unat c \<le> unat len" "page_inv nv D k f" "copy_page f = None"
      "cleanup f = cleanup from" "writer nv (W @ take (unat c) (drop (unat off) D)) (B @ take (unat c) (drop (unat off) D)) t" "out_gz t = out_gz to" "out_done t = out_done to"
      using copy_on_page_ok [OF less.prems(1-3) pos less.prems(4)] by blast
    have D: "length D < 2 ^ 31" using less.prems(1) by (simp add: page_inv_def file_handle_def)
    have l: "unat (len - c) = unat len - unat c" using s(3) by (simp add: unat_sub word_le_nat_alt)
    have o: "unat (off + c) = unat off + unat c" using s(3) less.prems(4) D by (simp add: unat_word_ariths)
    have sum: "unat (off + c) + unat (len - c) \<le> length D" using less.prems(4) l o s(3) by simp
    have "unat (len - c) < unat len" using l s(2) pos by simp
    from less.hyps [OF this s(4, 5, 7) sum] obtain f' t' where r: "copy_pages nv (off + c) (len - c) f t = Some (Parsed () (f', t'))" "page_inv nv D k f'"
      "copy_page f' = None" "cleanup f' = cleanup f" "out_gz t' = out_gz t" "out_done t' = out_done t"
      and w: "writer nv ((W @ take (unat c) (drop (unat off) D)) @ take (unat (len - c)) (drop (unat (off + c)) D))
        ((B @ take (unat c) (drop (unat off) D)) @ take (unat (len - c)) (drop (unat (off + c)) D)) t'"
      by blast
    have j: "take (unat c) (drop (unat off) D) @ take (unat (len - c)) (drop (unat (off + c)) D) = take (unat len) (drop (unat off) D)"
      unfolding l o using take_add [of "unat c" "unat len - unat c" "drop (unat off) D"] s(3) by (simp add: add.commute)
    have "copy_pages nv off len from to = Some (Parsed () (f', t'))"
      using False s(1) r(1) by (subst copy_pages.simps) simp
    then show ?thesis using r s(6, 8, 9) w unfolding append_assoc j by auto
  qed
qed

section \<open>Copying from a stream\<close>

lemma read_keeps:
  assumes "xd_handle_read nv n h = Some (b, h')"
  shows "fh_in h' = No_in \<longleftrightarrow> fh_in h = No_in" "cleanup h' = cleanup h" "fd_data h' = fd_data h" "in_compressed h' = in_compressed h"
    "narrow_low h' = narrow_low h" "narrow_high h' = narrow_high h" "fh_length h' = fh_length h" "current_pos h' = current_pos h + of_nat n" "length b = n"
    "fh_type h' = fh_type h"
  using assms by (auto simp: xd_handle_read_def in_read_def split: if_splits reader.splits prod.splits)

lemma read_bytes: "handle_rest h = b @ r \<Longrightarrow> length b = n \<Longrightarrow> \<exists>h'. xd_handle_read nv n h = Some (b, h') \<and> handle_rest h' = r"
  using read_next by blast

lemma copy_stream_ok:
  assumes "handle_rest from = b @ r" "length b = unat len" "fh_in from \<noteq> No_in" "writer nv W B to"
  shows "\<exists>from' to'. copy_stream nv len from to = Some (Parsed () (from', to')) \<and> handle_rest from' = r \<and> fh_in from' \<noteq> No_in \<and>
     cleanup from' = cleanup from \<and> writer nv (W @ b) (B @ b) to' \<and> out_gz to' = out_gz to \<and> out_done to' = out_done to"
  using assms
proof (induction "unat len" arbitrary: len b "from" to W B rule: less_induct)
  case less
  show ?case
  proof (cases "len = 0")
    case True
    then show ?thesis using less.prems by (simp add: copy_stream.simps)
  next
    case False
    then have pos: "0 < unat len" by (simp add: word_neq_0_conv unat_gt_0)
    define c where "c = min 1024 len"
    have c: "0 < unat c" "unat c \<le> unat len" "unat c < 2 ^ 32" unfolding c_def unat_min using pos by auto
    let ?x = "take (unat c) b" and ?y = "drop (unat c) b"
    have x: "length ?x = unat c" "?x \<noteq> []" "length ?x < 2 ^ 32" using c less.prems(2) by auto
    have "handle_rest from = ?x @ (?y @ r)" using less.prems(1) by simp
    from read_bytes [OF this x(1)] obtain f where f: "xd_handle_read nv (unat c) from = Some (?x, f)" "handle_rest f = ?y @ r" by blast
    obtain t where t: "xd_handle_write nv ?x to = Some t" "writer nv (W @ ?x) (B @ ?x) t" "out_gz t = out_gz to" "out_done t = out_done to"
      using writer_write [OF less.prems(4) x(2, 3)] by blast
    have l: "unat (len - c) = unat len - unat c" using c(2) by (simp add: unat_sub word_le_nat_alt)
    have m: "unat (len - c) < unat len" "length ?y = unat (len - c)" "fh_in f \<noteq> No_in"
      using l c(1) pos less.prems(2, 3) read_keeps(1) [OF f(1)] by simp_all
    from less.hyps [OF m(1) f(2) m(2, 3) t(2)] obtain f' t' where r: "copy_stream nv (len - c) f t = Some (Parsed () (f', t'))" "handle_rest f' = r"
      "fh_in f' \<noteq> No_in" "cleanup f' = cleanup f" "out_gz t' = out_gz t" "out_done t' = out_done t" and w: "writer nv ((W @ ?x) @ ?y) ((B @ ?x) @ ?y) t'"
      by blast
    have "copy_stream nv len from to = Some (Parsed () (f', t'))"
      using False f(1) t(1) r(1) by (subst copy_stream.simps) (simp add: c_def [symmetric])
    then show ?thesis using r w t(3, 4) read_keeps(2) [OF f(1)] by auto
  qed
qed

section \<open>Whatever is copied\<close>

text \<open>A copy that succeeds has written some bytes.\<close>

definition appended :: "bool \<Rightarrow> XdFileHandle \<Rightarrow> XdFileHandle \<Rightarrow> bool" where
  "appended nv to to' \<longleftrightarrow> out_gz to' = out_gz to \<and> out_done to' = out_done to \<and>
     (\<forall>W B. writer nv W B to \<longrightarrow> (\<exists>X. writer nv (W @ X) (B @ X) to'))"

lemma appended_refl [intro]: "appended nv to to"
  unfolding appended_def by (metis append_Nil2)

lemma appended_trans: "appended nv a b \<Longrightarrow> appended nv b c \<Longrightarrow> appended nv a c"
  unfolding appended_def by (metis append_assoc)

lemma write_appended:
  assumes "xd_handle_write nv b to = Some to'" "length b < 2 ^ 32"
  shows "appended nv to to'"
proof -
  have "writer nv (W @ b) (B @ b) to'" if "writer nv W B to" for W B
    using assms that absorbed_update [of W "fh_ctx to" b] by (auto simp: xd_handle_write_def out_write_def writer_def Let_def split: if_splits)
  moreover have "out_gz to' = out_gz to" "out_done to' = out_done to" using assms(1) by (auto simp: xd_handle_write_def out_write_def Let_def split: if_splits)
  ultimately show ?thesis unfolding appended_def by blast
qed

text \<open>The source keeps the name it has to remove when it is closed.\<close>

lemma free_loop_body: "free_loop l h = Some h' \<Longrightarrow> body h' = body h"
proof (erule free_loop.raw_induct [where P = "\<lambda>l h h'. body h' = body h", rotated])
  show "body h' = body h"
    if IH: "\<And>l h h'. f l h = Some h' \<Longrightarrow> body h' = body h"
      and eq: "(case l of None \<Rightarrow> Some h
        | Some p \<Rightarrow> (case lru_table h p of None \<Rightarrow> Some h
            | Some l \<Rightarrow> if lru_refs l > 0 then f (lru_prev l) h
                else let h = pull_lru p l h in Some (set_lru p (lru_buffer_update (\<lambda>_. None)) (h\<lparr>lru_count := lru_count h - 1\<rparr>)))) = Some h'" for f l h h'
    using eq IH by (auto simp: Let_def split: option.splits if_splits)
qed

lemma body_cleanup: "body h' = body h \<Longrightarrow> cleanup h' = cleanup h"
  by (drule arg_cong [where f = cleanup]) (simp add: body_def)

lemma free_page_cleanup: "really_free_one_page h = Some h' \<Longrightarrow> cleanup h' = cleanup h"
  unfolding really_free_one_page_def by (intro body_cleanup free_loop_body)

lemma table_cleanup [simp]: "cleanup (set_lru p f h) = cleanup h" "cleanup (pull_lru p l h) = cleanup h" "cleanup (push_head p l h) = cleanup h"
  "cleanup (push_tail p h) = cleanup h" "cleanup (md5_mapped nv p b h) = cleanup h"
  by (rule body_cleanup, simp)+ (simp add: md5_mapped_def Let_def)

lemma map_page_cleanup: "xd_handle_map_page nv p h = Some (Parsed x h') \<Longrightarrow> cleanup h' = cleanup h"
  by (auto simp: xd_handle_map_page_def make_lru_room_def bind_eq_Some_conv Let_def dest!: free_page_cleanup split: option.splits if_splits)

lemma unmap_page_cleanup: "xd_handle_unmap_page p h = Some (Parsed x h') \<Longrightarrow> cleanup h' = cleanup h"
  by (auto simp: xd_handle_unmap_page_def Let_def dest!: free_page_cleanup split: option.splits if_splits)

definition copied :: "bool \<Rightarrow> XdFileHandle \<Rightarrow> XdFileHandle \<Rightarrow> XdFileHandle \<times> XdFileHandle \<Rightarrow> bool" where
  "copied nv from to ft \<longleftrightarrow> cleanup (fst ft) = cleanup from \<and> appended nv to (snd ft)"

lemma copied_refl: "copied nv from to (from, to)"
  by (auto simp: copied_def)

lemma copied_trans: "copied nv a b (f, t) \<Longrightarrow> copied nv f t ft \<Longrightarrow> copied nv a b ft"
  unfolding copied_def using appended_trans by auto

lemma copy_stream_copied: "copy_stream nv len from to = Some (Parsed u ft) \<Longrightarrow> copied nv from to ft"
proof -
  have "copy_stream nv len from to = Some res \<Longrightarrow> \<forall>u ft. res = Parsed u ft \<longrightarrow> copied nv from to ft" for nv len "from" to res
  proof (erule copy_stream.raw_induct [where P = "\<lambda>nv len from to res. \<forall>u ft. res = Parsed u ft \<longrightarrow> copied nv from to ft", rotated])
    fix f nv len "from" to res
    assume IH: "\<And>nv len from to res. f nv len from to = Some res \<Longrightarrow> \<forall>u ft. res = Parsed u ft \<longrightarrow> copied nv from to ft"
      and eq: "(if (len :: u32) = 0 then Some (Parsed () (from, to))
        else let r = min 1024 len in case xd_handle_read nv (unat r) from of None \<Rightarrow> Some Refused
          | Some (buf, from) \<Rightarrow> (case xd_handle_write nv buf to of None \<Rightarrow> Some Refused | Some to \<Rightarrow> f nv (len - r) from to)) = Some res"
    show "\<forall>u ft. res = Parsed u ft \<longrightarrow> copied nv from to ft"
    proof (intro allI impI)
      fix u ft assume res: "res = Parsed u ft"
      show "copied nv from to ft"
      proof (cases "len = 0")
        case True
        then show ?thesis using eq res copied_refl by auto
      next
        case False
        then obtain buf g t where s: "xd_handle_read nv (unat (min 1024 len)) from = Some (buf, g)" "xd_handle_write nv buf to = Some t"
          "f nv (len - min 1024 len) g t = Some res"
          using eq res by (auto simp: Let_def split: option.splits)
        have "length buf < 2 ^ 32" unfolding read_keeps(9) [OF s(1)] using unat_bound [of "min 1024 len"] by simp
        then have "copied nv from to (g, t)" using write_appended s(2) read_keeps(2) [OF s(1)] by (simp add: copied_def)
        then show ?thesis using IH [OF s(3)] res copied_trans by blast
      qed
    qed
  qed
  then show "copy_stream nv len from to = Some (Parsed u ft) \<Longrightarrow> copied nv from to ft" by blast
qed

lemma rbind_Parsed: "rbind r f = Some (Parsed a s) \<longleftrightarrow> (\<exists>x t. r = Some (Parsed x t) \<and> f x t = Some (Parsed a s))"
  by (cases r) (auto simp: rbind_def split: parse.splits)

lemma copy_unmap_cleanup: "copy_unmap p h = Some (Parsed x h') \<Longrightarrow> cleanup h' = cleanup h"
  by (auto simp: copy_unmap_def rbind_Parsed dest!: unmap_page_cleanup split: if_splits)

lemma copy_on_page_copied:
  assumes "copy_on_page nv off len from to = Some (Parsed c ft)"
  shows "copied nv from to ft"
proof -
  define page where "page = unat off div XD_PAGE_SIZE"
  define n where "n = min len (of_int (on_page from page) - of_nat (unat off mod XD_PAGE_SIZE))"
  from assms obtain f m k g where f: "copy_unmap page from = Some (Parsed () f)"
    and g: "xd_handle_map_page nv page (f\<lparr>copy_pgno := page\<rparr>) = Some (Parsed (m, k) g)"
    and w: "(if length m < unat off mod XD_PAGE_SIZE + unat n then Some Wild
      else case xd_handle_write nv (take (unat n) (drop (unat off mod XD_PAGE_SIZE) m)) to of
          None \<Rightarrow> Some Refused
        | Some to \<Rightarrow>
            rbind (xd_handle_unmap_page page (g\<lparr>copy_page := Some m\<rparr>)) (\<lambda>_ from. Some (Parsed n (from\<lparr>copy_page := None\<rparr>, to)))) = Some (Parsed c ft)"
    unfolding copy_on_page_def Let_def page_def [symmetric] n_def [symmetric] rbind_Parsed
    by (auto simp: rbind_Parsed split: if_splits)
  from w obtain t z where t: "xd_handle_write nv (take (unat n) (drop (unat off mod XD_PAGE_SIZE) m)) to = Some t" "ft = (z\<lparr>copy_page := None\<rparr>, t)"
    "xd_handle_unmap_page page (g\<lparr>copy_page := Some m\<rparr>) = Some (Parsed () z)"
    by (auto simp: rbind_Parsed split: if_splits option.splits)
  have "length (take (unat n) (drop (unat off mod XD_PAGE_SIZE) m)) < 2 ^ 32" using unat_bound [of n] by auto
  moreover have "cleanup z = cleanup from"
    using unmap_page_cleanup [OF t(3)] map_page_cleanup [OF g] copy_unmap_cleanup [OF f] by simp
  ultimately show ?thesis using write_appended [OF t(1)] t(2) by (simp add: copied_def)
qed

lemma copy_pages_copied: "copy_pages nv off len from to = Some (Parsed u ft) \<Longrightarrow> copied nv from to ft"
proof -
  have "copy_pages nv off len from to = Some res \<Longrightarrow> \<forall>u ft. res = Parsed u ft \<longrightarrow> copied nv from to ft" for nv off len "from" to res
  proof (erule copy_pages.raw_induct [where P = "\<lambda>nv off len from to res. \<forall>u ft. res = Parsed u ft \<longrightarrow> copied nv from to ft", rotated])
    fix f nv off len "from" to res
    assume IH: "\<And>nv off len from to res. f nv off len from to = Some res \<Longrightarrow> \<forall>u ft. res = Parsed u ft \<longrightarrow> copied nv from to ft"
      and eq: "(if len = 0 then Some (Parsed () (from, to))
        else Option.bind (copy_on_page nv off len from to) (\<lambda>r. case r of
          Parsed copy (from, to) \<Rightarrow> f nv (off + copy) (len - copy) from to
        | Refused \<Rightarrow> Some Refused
        | Wild \<Rightarrow> Some Wild)) = Some res"
    show "\<forall>u ft. res = Parsed u ft \<longrightarrow> copied nv from to ft"
    proof (intro allI impI)
      fix u ft assume res: "res = Parsed u ft"
      show "copied nv from to ft"
      proof (cases "len = 0")
        case True
        then show ?thesis using eq res copied_refl by auto
      next
        case False
        then obtain c g t where s: "copy_on_page nv off len from to = Some (Parsed c (g, t))" "f nv (off + c) (len - c) g t = Some res"
          using eq res by (cases "copy_on_page nv off len from to") (auto split: parse.splits)
        then show ?thesis using IH [OF s(2)] res copied_trans copy_on_page_copied [OF s(1)] by blast
      qed
    qed
  qed
  then show "copy_pages nv off len from to = Some (Parsed u ft) \<Longrightarrow> copied nv from to ft" by blast
qed

lemma copy_copied: "xd_handle_copy nv off len from to = Some (Parsed u ft) \<Longrightarrow> copied nv from to ft"
  using copy_stream_copied copy_pages_copied by (auto simp: xd_handle_copy_def split: if_splits)

section \<open>An instruction that starts at the end of the file\<close>

text \<open>Nothing is left on the last page, so that nothing is written and nothing gets shorter; zlib accepts to write nothing.\<close>

lemma copy_nothing:
  assumes src: "page_inv nv D k from" "copy_page from = None" and dst: "out_gz to" and e: "unat off = length D" "length D mod XD_PAGE_SIZE \<noteq> 0"
  shows "\<exists>from' to'. copy_on_page nv off len from to = Some (Parsed 0 (from', to')) \<and> page_inv nv D k from' \<and> copy_page from' = None \<and> out_gz to'"
proof -
  define p where "p = length D div XD_PAGE_SIZE"
  have fh: "file_handle D from" using src by (simp add: page_inv_def)
  have rest: "length D - p * XD_PAGE_SIZE = length D mod XD_PAGE_SIZE" unfolding p_def by (simp add: minus_div_mult_eq_mod)
  have "length D mod XD_PAGE_SIZE < XD_PAGE_SIZE" by simp
  then have len: "page_len D p = length D mod XD_PAGE_SIZE" unfolding page_len_def rest by simp
  have on: "on_page from p = int (length D mod XD_PAGE_SIZE)" unfolding len [symmetric] p_def by (rule on_page_len [OF fh]) simp
  have l: "length D mod XD_PAGE_SIZE \<le> length (page_mem D p)"
    unfolding len [symmetric] by (metis length_page_bytes length_take min.cobounded1 page_mem_take)
  obtain f1 where f1: "xd_handle_map_page nv p (from\<lparr>copy_pgno := p\<rparr>) = Some (Parsed (page_mem D p, page_len D p) f1)"
    "page_inv nv D (k(p := k p + 1)) f1"
    using map_page_ok [of nv D k "from\<lparr>copy_pgno := p\<rparr>" p nv] src(1) by (auto simp: p_def)
  obtain f2 where f2: "xd_handle_unmap_page p (f1\<lparr>copy_page := Some (page_mem D p)\<rparr>) = Some (Parsed () f2)" "page_inv nv D k f2"
    using unmap_page_ok [of nv D "k(p := k p + 1)" "f1\<lparr>copy_page := Some (page_mem D p)\<rparr>" p] f1(2) by auto
  have "\<exists>t. xd_handle_write nv [] to = Some t \<and> out_gz t"
    using dst by (simp add: xd_handle_write_def out_write_def Let_def)
  then obtain t where t: "xd_handle_write nv [] to = Some t" "out_gz t" by blast
  have "copy_on_page nv off len from to = Some (Parsed 0 (f2\<lparr>copy_page := None\<rparr>, t))"
    unfolding copy_on_page_def Let_def e(1) p_def [symmetric] on using src(2) e(2) l f1(1) f2(1) t(1)
    by (simp add: rbind_def copy_unmap_def)
  then show ?thesis using f2(2) t(2) by auto
qed

definition at_end :: "bool \<Rightarrow> bytes \<Rightarrow> u32 \<Rightarrow> u32 \<Rightarrow> XdFileHandle \<Rightarrow> XdFileHandle \<Rightarrow> bool" where
  "at_end nv D off len from to \<longleftrightarrow> unat off = length D \<and> length D mod XD_PAGE_SIZE \<noteq> 0 \<and> 0 < len \<and> out_gz to \<and>
     (\<exists>k. page_inv nv D k from) \<and> copy_page from = None"

lemma copy_at_end_never: "at_end nv D off len from to \<Longrightarrow> copy_pages nv off len from to = None"
proof (rule ccontr)
  assume e: "at_end nv D off len from to" and "copy_pages nv off len from to \<noteq> None"
  then obtain res where "copy_pages nv off len from to = Some res" by blast
  then have "\<not> at_end nv D off len from to"
  proof (rule copy_pages.raw_induct [where P = "\<lambda>nv off len from to res. \<not> at_end nv D off len from to", rotated])
    fix f nv and off len :: u32 and "from" to res
    assume IH: "\<And>nv off len from to res. f nv off len from to = Some res \<Longrightarrow> \<not> at_end nv D off len from to"
      and eq: "(if len = 0 then Some (Parsed () (from, to))
        else Option.bind (copy_on_page nv off len from to) (\<lambda>r. case r of
          Parsed copy (from, to) \<Rightarrow> f nv (off + copy) (len - copy) from to
        | Refused \<Rightarrow> Some Refused
        | Wild \<Rightarrow> Some Wild)) = Some res"
    show "\<not> at_end nv D off len from to"
    proof
      assume a: "at_end nv D off len from to"
      then obtain k where k: "page_inv nv D k from" by (auto simp: at_end_def)
      obtain g t where s: "copy_on_page nv off len from to = Some (Parsed 0 (g, t))" "page_inv nv D k g" "copy_page g = None" "out_gz t"
        using copy_nothing [OF k, of to off] a unfolding at_end_def by blast
      have "len \<noteq> 0" using a by (auto simp: at_end_def)
      then have "f nv off len g t = Some res" using eq s(1) by simp
      then have "\<not> at_end nv D off len g t" by (rule IH)
      then show False using a s by (auto simp: at_end_def)
    qed
  qed
  then show False using e by blast
qed

section \<open>The checksum of an opened file\<close>

text \<open>C3: Whatever pages of a file are mapped and unmapped before, in any legal order, each mapping gives the bytes of the page, and the
  checksum of the handle is then the MD5 digest of the text of the file.\<close>

theorem checksum_any_order:
  assumes d: "content fs name = Some d" "gzipped d \<longrightarrow> snd (gunz d)" "length (file_text gunz d) < 2 ^ 31"
    and h: "open_read_seek_handle gunz tmpname name fs = Ret (Some (h, z), fs')"
    and es: "users (length (file_text gunz d) div XD_PAGE_SIZE) es (\<lambda>_. 0) = Some k"
  shows "\<exists>h1 h2. page_ops (xd_handle_map_page False) xd_handle_unmap_page es h =
      Some (Parsed (mapped (\<lambda>p. (page_mem (file_text gunz d) p, page_len (file_text gunz d) p)) es) h1) \<and>
    xd_handle_checksum_md5 False h1 = Some (Parsed (md5_digest (file_text gunz d)) h2)"
proof -
  have "page_inv False (file_text gunz d) (\<lambda>_. 0) h"
    using open_read_seek [of fs name d gunz tmpname False, OF d(1, 2) open_read_seek_writable [OF d(1) h] d(3)] h by auto
  from pages.page_ops_run [OF this es] obtain h1 where
    "page_ops (xd_handle_map_page False) xd_handle_unmap_page es h = Some (Parsed (mapped (\<lambda>p. (page_mem (file_text gunz d) p, page_len (file_text gunz d) p)) es) h1)"
    "page_inv False (file_text gunz d) k h1"
    by blast
  then show ?thesis using checksum_md5_ok by blast
qed

text \<open>C27: An instruction whose offset is the length of the file, where that is not a multiple of the size of a page, makes the copying into a compressed output run forever.\<close>

theorem copy_at_end_hangs:
  assumes "content fs name = Some d" "gzipped d \<longrightarrow> snd (gunz d)" "length (file_text gunz d) < 2 ^ 31" "length (file_text gunz d) mod XD_PAGE_SIZE \<noteq> 0"
    and "open_read_seek_handle gunz tmpname name fs = Ret (Some (h, z), fs')" "0 < len" "out_gz to"
  shows "xd_handle_copy nv (of_nat (length (file_text gunz d))) len h to = None"
proof -
  let ?D = "file_text gunz d"
  have h: "page_inv nv ?D (\<lambda>_. 0) h" "copy_page h = None" using open_read_seek [of fs name d gunz tmpname nv, OF assms(1, 2) open_read_seek_writable [OF assms(1, 5)] assms(3)] assms(5) by auto
  have "length ?D < 2 ^ 32" using assms(3) by simp
  then have "unat (of_nat (length ?D) :: u32) = length ?D" by (simp add: unat_of_nat)
  then have "at_end nv ?D (of_nat (length ?D)) len h to" using h assms(4, 6, 7) by (auto simp: at_end_def)
  from copy_at_end_never [OF this] show ?thesis using h(1) by (simp add: xd_handle_copy_def page_inv_def file_handle_def)
qed


definition example_fs :: fsys where
  "example_fs = \<lparr>content = [''rom'' \<mapsto> [97, 98, 99]], writable = (\<lambda>_. True)\<rparr>"

definition no_zlib :: zlib_read where
  "no_zlib d = (d, True)"

lemma example_text: "content example_fs ''rom'' = Some [97, 98, 99]" "\<not> gzipped [97, 98, 99]" "file_text no_zlib [97, 98, 99] = [97, 98, 99]"
  by (simp_all add: example_fs_def gzipped_def file_text_def)

lemma example_open: "\<exists>h. open_read_seek_handle no_zlib (\<lambda>_. ''tmp'') ''rom'' example_fs = Ret (Some (h, False), example_fs)"
  using open_read_seek [OF example_text(1), of no_zlib "\<lambda>_. ''tmp''"] example_text by (auto simp: example_fs_def)

theorem checksum_any_order_witness:
  "\<exists>h ms h1 h2. open_read_seek_handle no_zlib (\<lambda>_. ''tmp'') ''rom'' example_fs = Ret (Some (h, False), example_fs) \<and>
     page_ops (xd_handle_map_page False) xd_handle_unmap_page [Map_page 0, Map_page 0, Unmap_page 0] h = Some (Parsed ms h1) \<and>
     xd_handle_checksum_md5 False h1 =
       Some (Parsed [0x90, 0x01, 0x50, 0x98, 0x3c, 0xd2, 0x4f, 0xb0, 0xd6, 0x96, 0x3f, 0x7d, 0x28, 0xe1, 0x7f, 0x72] h2)"
proof -
  obtain h where h: "open_read_seek_handle no_zlib (\<lambda>_. ''tmp'') ''rom'' example_fs = Ret (Some (h, False), example_fs)" using example_open by blast
  have u: "users (length (file_text no_zlib [97, 98, 99]) div XD_PAGE_SIZE) [Map_page 0, Map_page 0, Unmap_page 0] (\<lambda>_. 0) =
      Some ((((\<lambda>_. 0)(0 := 1))(0 := 2))(0 := 1))"
    by (simp add: fun_eq_iff numeral_2_eq_2)
  show ?thesis
    using checksum_any_order [OF example_text(1) _ _ h u] example_text h md5_abc by fastforce
qed

theorem copy_at_end_hangs_witness:
  "\<exists>h. open_read_seek_handle no_zlib (\<lambda>_. ''tmp'') ''rom'' example_fs = Ret (Some (h, False), example_fs) \<and>
     xd_handle_copy False 3 1 h (open_write_handle\<lparr>out_gz := True\<rparr>) = None"
proof -
  obtain h where h: "open_read_seek_handle no_zlib (\<lambda>_. ''tmp'') ''rom'' example_fs = Ret (Some (h, False), example_fs)" using example_open by blast
  show ?thesis
    using copy_at_end_hangs [OF example_text(1) _ _ _ h, of 1 "open_write_handle\<lparr>out_gz := True\<rparr>" False] example_text h
    by (auto simp: XD_PAGE_SIZE_def)
qed

end
