(* ===== verification/Xd1_Patch.thy ===== *)
theory Xd1_Patch
  imports Xd1_Copy
begin

text \<open>
  Controls and patches of xdelta 1: the part of \<^verbatim>\<open>xdelta.c\<close> that reads and writes controls, \<^verbatim>\<open>xdapply.c\<close>, and \<^verbatim>\<open>process_patch\<close> and
  \<^verbatim>\<open>patch_command\<close> of \<^verbatim>\<open>xdmain.c\<close>, which the application calls through \<^verbatim>\<open>nativelink.c\<close>.  The results are in \<open>Xd1_Control\<close> and \<open>Xd1_Apply\<close>.
\<close>

unbundle bit_operations_syntax

section \<open>Controls\<close>

text \<open>\<^verbatim>\<open>control_copy\<close> works on the list of instructions a generator builds; \<open>source\<close> is the part of \<^verbatim>\<open>XdeltaSource\<close> it uses.\<close>

record XdeltaSource =
  src_name :: bytes
  source_index :: u32
  used :: bool
  src_sequential :: bool
  src_position :: u32

definition control_copy :: "XdeltaInstruction list \<Rightarrow> XdeltaSource \<Rightarrow> u32 \<Rightarrow> u32 \<Rightarrow> XdeltaInstruction list \<times> XdeltaSource" where
  "control_copy inst_array src from to =
     (if inst_array \<noteq> [] \<and> i_index (last inst_array) = source_index src \<and> i_offset (last inst_array) + i_length (last inst_array) = from
      then (butlast inst_array @ [(last inst_array)\<lparr>i_length := i_length (last inst_array) + (to - from)\<rparr>], src)
      else (inst_array @ [\<lparr>i_index = source_index src, i_offset = from, i_length = to - from, output_start = 0\<rparr>],
            src\<lparr>used := True, src_sequential := (if src_position src \<noteq> from then False else src_sequential src), src_position := to\<rparr>))"

definition control_reindex :: "u32 \<Rightarrow> XdeltaSource \<Rightarrow> XdeltaInstruction list \<Rightarrow> XdeltaInstruction list" where
  "control_reindex new_index src = map (\<lambda>i. if i_index i = source_index src then i\<lparr>i_index := new_index\<rparr> else i)"

definition control_add_info :: "XdeltaControl \<Rightarrow> XdeltaSource \<Rightarrow> bytes \<Rightarrow> u32 \<Rightarrow> XdeltaControl" where
  "control_add_info cont src m len =
     (if \<not> used src then cont
      else cont\<lparr>inst := control_reindex (of_nat (length (source_info cont))) src (inst cont),
        source_info := source_info cont @ [\<lparr>si_name = src_name src, si_md5 = m, si_len = len, isdata = (source_index src = 0),
          sequential = src_sequential src, position = 0, copies = 0, copy_length = 0\<rparr>]\<rparr>)"

definition reset_info :: "XdeltaSourceInfo \<Rightarrow> XdeltaSourceInfo" where
  "reset_info s = s\<lparr>position := 0, copies := 0, copy_length := 0\<rparr>"

text \<open>A sequential source gets its offsets by counting.\<close>

fun unpack_loop :: "XdeltaSourceInfo list \<Rightarrow> u32 \<Rightarrow> XdeltaInstruction list \<Rightarrow> (XdeltaSourceInfo list \<times> XdeltaInstruction list) option" where
  "unpack_loop infos output_pos [] = Some (infos, [])"
| "unpack_loop infos output_pos (i # is) =
     (if length infos \<le> unat (i_index i) then None
      else
        let info = infos ! unat (i_index i);
            i = (if sequential info then i\<lparr>i_offset := position info\<rparr> else i);
            info = (if sequential info then info\<lparr>position := i_offset i + i_length i\<rparr> else info);
            i = i\<lparr>output_start := output_pos\<rparr>;
            info = info\<lparr>copies := copies info + 1, copy_length := copy_length info + i_length i\<rparr>
        in map_option (\<lambda>(infos, is). (infos, i # is)) (unpack_loop (infos[unat (i_index i) := info]) (output_pos + i_length i) is))"

definition unpack_instructions :: "XdeltaControl \<Rightarrow> XdeltaControl option" where
  "unpack_instructions cont =
     map_option (\<lambda>(infos, is). cont\<lparr>source_info := infos, inst := is\<rparr>) (unpack_loop (map reset_info (source_info cont)) 0 (inst cont))"

fun pack_loop :: "XdeltaSourceInfo list \<Rightarrow> XdeltaInstruction list \<Rightarrow> (XdeltaSourceInfo list \<times> XdeltaInstruction list) option" where
  "pack_loop infos [] = Some (infos, [])"
| "pack_loop infos (i # is) =
     (if length infos \<le> unat (i_index i) then None
      else
        let info = infos ! unat (i_index i);
            i' = (if sequential info then i\<lparr>i_offset := 0\<rparr> else i);
            info = (if sequential info then info\<lparr>position := position info + i_length i\<rparr> else info);
            info = info\<lparr>copies := copies info + 1, copy_length := copy_length info + i_length i\<rparr>
        in map_option (\<lambda>(infos, is). (infos, i' # is)) (pack_loop (infos[unat (i_index i) := info]) is))"

definition pack_instructions :: "XdeltaControl \<Rightarrow> XdeltaControl option" where
  "pack_instructions cont =
     map_option (\<lambda>(infos, is). cont\<lparr>source_info := infos, inst := is\<rparr>) (pack_loop (map reset_info (source_info cont)) (inst cont))"

definition xdp_control_write :: "bool \<Rightarrow> XdeltaControl \<Rightarrow> XdFileHandle \<Rightarrow> (XdeltaControl \<times> XdFileHandle) option" where
  "xdp_control_write no_verify cont cont_out =
     Option.bind (pack_instructions cont) (\<lambda>cont.
     map_option (\<lambda>h. (cont, xd_handle_close h)) (serialize_xdeltacontrol (xd_handle_write no_verify) cont cont_out))"

text \<open>The controls of version 1.0.  An instruction of a kind that is no longer known ends the process.\<close>

definition OLD_QUERY_SIZE :: nat where "OLD_QUERY_SIZE = 4"

definition old_unpack :: "Version0Instruction \<Rightarrow> Version0Instruction" where
  "old_unpack i =
     (let kind = (if v0i_length i AND 3 = 0 then 78 else if v0i_length i AND 3 = 1 then 69 else if v0i_length i AND 3 = 2 then 67 else 73);
          len = drop_bit 2 (v0i_length i)
      in i\<lparr>v0i_type := kind, v0i_index := ucast (len AND of_nat OLD_QUERY_SIZE), v0i_length := drop_bit OLD_QUERY_SIZE len\<rparr>)"

definition old_instruction :: "Version0Instruction \<Rightarrow> XdeltaInstruction option" where
  "old_instruction i =
     (if v0i_type i = 78 \<or> v0i_type i = 69 then None
      else Some \<lparr>i_index = (if v0i_type i = 67 then 1 else 0), i_offset = v0i_offset i, i_length = v0i_length i, output_start = 0\<rparr>)"

primrec old_instructions :: "Version0Instruction list \<Rightarrow> XdeltaInstruction list option" where
  "old_instructions [] = Some []"
| "old_instructions (i # is) = Option.bind (old_instruction (old_unpack i)) (\<lambda>x. map_option ((#) x) (old_instructions is))"

definition info_new0 :: XdeltaSourceInfo where
  "info_new0 = \<lparr>si_name = [], si_md5 = replicate 16 0, si_len = 0, isdata = False, sequential = False, position = 0, copies = 0, copy_length = 0\<rparr>"

definition ascii :: "string \<Rightarrow> bytes" where
  "ascii = map of_char"

definition control_version_0 :: "Version0Control \<Rightarrow> XdeltaControl option" where
  "control_version_0 ocont =
     map_option (\<lambda>is.
       \<lparr>to_md5 = v0_real_md5 (to_info ocont), to_len = v0_length (to_info ocont), has_data = True,
        source_info =
          info_new0\<lparr>si_name := ascii ''(patch data)'', si_md5 := take 15 (v0_md5 (to_info ocont)) @ [0], si_len := data_len ocont, isdata := True\<rparr> #
          map (\<lambda>s. info_new0\<lparr>si_name := ascii ''unnamed'', si_md5 := v0_md5 s, si_len := v0_length s\<rparr>) (v0_source_info ocont),
        inst = is\<rparr>) (old_instructions (v0_inst ocont))"

text \<open>\<open>Wild\<close> also stands for the end of the process by \<^verbatim>\<open>abort\<close>, and for the use of another object as a control.\<close>

definition xdp_control_read :: "bool \<Rightarrow> XdFileHandle \<Rightarrow> (XdeltaControl, XdFileHandle) run" where
  "xdp_control_read no_verify cont_in =
     rbind (serializeio_unserialize_generic_acceptable (xd_handle_read no_verify) (2 ^ 15 + 2 ^ 13 + 3) cont_in) (\<lambda>(type, x) h.
       case (case x of Control c \<Rightarrow> Some c | Control0 ocont \<Rightarrow> control_version_0 ocont | Other \<Rightarrow> None) of
         None \<Rightarrow> Some Wild
       | Some c \<Rightarrow>
           (case unpack_instructions c of
              None \<Rightarrow> Some Refused
            | Some c \<Rightarrow> Some (Parsed c h)))"

section \<open>Applying a delta\<close>

text \<open>The sources are the handles the source infos point to, in their order.\<close>

fun copy_delta_region :: "bool \<Rightarrow> XdeltaInstruction list \<Rightarrow> XdFileHandle list \<Rightarrow> XdFileHandle \<Rightarrow> (unit, XdFileHandle list \<times> XdFileHandle) run" where
  "copy_delta_region no_verify [] ins out = Some (Parsed () (ins, out))"
| "copy_delta_region no_verify (i # is) ins out =
     (if length ins \<le> unat (i_index i) then Some Refused
      else rbind (xd_handle_copy no_verify (i_offset i) (i_length i) (ins ! unat (i_index i)) out) (\<lambda>_ (f, out).
        copy_delta_region no_verify is (ins[unat (i_index i) := f]) out))"

definition check_stream_integrity :: "bool \<Rightarrow> XdFileHandle \<Rightarrow> bytes \<Rightarrow> u32 \<Rightarrow> (bool, XdFileHandle) run" where
  "check_stream_integrity no_verify str m len =
     (if len \<noteq> xd_handle_length str then Some (Parsed False str)
      else case xd_handle_checksum_md5 no_verify str of
          None \<Rightarrow> None
        | Some Refused \<Rightarrow> Some (Parsed False str)
        | Some Wild \<Rightarrow> Some Wild
        | Some (Parsed act str) \<Rightarrow> Some (Parsed (m = act) str))"

text \<open>After a failed check the sources are checked too, for the messages.\<close>

fun check_sources :: "bool \<Rightarrow> XdeltaSourceInfo list \<Rightarrow> XdFileHandle list \<Rightarrow> (unit, XdFileHandle list) run" where
  "check_sources no_verify (s # ss) (h # hs) =
     rbind (check_stream_integrity no_verify h (si_md5 s) (si_len s)) (\<lambda>_ h.
     rbind (check_sources no_verify ss hs) (\<lambda>_ hs. Some (Parsed () (h # hs))))"
| "check_sources no_verify _ hs = Some (Parsed () hs)"

definition xdp_apply_delta :: "bool \<Rightarrow> XdeltaControl \<Rightarrow> XdFileHandle list \<Rightarrow> XdFileHandle \<Rightarrow> (unit, XdFileHandle list \<times> XdFileHandle) run" where
  "xdp_apply_delta no_verify cont ins res =
     rbind (copy_delta_region no_verify (inst cont) ins res) (\<lambda>_ (ins, res).
     rbind (check_stream_integrity no_verify (xd_handle_close res) (to_md5 cont) (to_len cont)) (\<lambda>ok res.
       if ok then Some (Parsed () (ins, res))
       else rbind (check_sources no_verify (source_info cont) ins) (\<lambda>_ _. Some Refused)))"

section \<open>Reading a patch\<close>

definition XDELTA_110_PREFIX :: bytes where "XDELTA_110_PREFIX = ascii ''%XDZ004%''"
definition XDELTA_104_PREFIX :: bytes where "XDELTA_104_PREFIX = ascii ''%XDZ003%''"
definition XDELTA_100_PREFIX :: bytes where "XDELTA_100_PREFIX = ascii ''%XDZ002%''"
definition XDELTA_PREFIX_LEN :: nat where "XDELTA_PREFIX_LEN = 8"
definition HEADER_SPACE :: nat where "HEADER_SPACE = 24"
definition FLAG_NO_VERIFY :: nat where "FLAG_NO_VERIFY = 0"
definition FLAG_TO_COMPRESSED :: nat where "FLAG_TO_COMPRESSED = 2"
definition FLAG_PATCH_COMPRESSED :: nat where "FLAG_PATCH_COMPRESSED = 3"

text \<open>The flags are given by their bit; \<open>data_source\<close> and \<open>from_source\<close> tell which of the source infos these are.\<close>

record XdeltaPatch =
  patch_in :: XdFileHandle
  patch_flags :: u32
  data_source :: "nat option"
  from_source :: "nat option"
  cont :: XdeltaControl

definition rread :: "bool \<Rightarrow> nat \<Rightarrow> XdFileHandle \<Rightarrow> (bytes, XdFileHandle) run" where
  "rread no_verify n h = Some (source_next_bytes_known (xd_handle_read no_verify) n h)"

definition lift_opt :: "'s option \<Rightarrow> (unit, 's) run" where
  "lift_opt r = Some (case r of None \<Rightarrow> Refused | Some s \<Rightarrow> Parsed () s)"

definition which_sources :: "XdeltaSourceInfo list \<Rightarrow> (nat option \<times> nat option) option" where
  "which_sources infos =
     (if infos = [] then Some (None, None)
      else if length infos > 2 then None
      else if isdata (infos ! 0) then Some (Some 0, if length infos > 1 then Some 1 else None)
      else if length infos > 1 then None
      else Some (None, Some 0))"

text \<open>The lengths of the names are signed 16-bit numbers: with a negative one the allocation gives a null pointer or ends the process.
  \<open>nv0\<close> is the value an earlier call left in \<^verbatim>\<open>no_verify\<close>.\<close>

definition read_delta :: "zlib_read \<Rightarrow> bool \<Rightarrow> XdFileHandle \<Rightarrow> (XdeltaPatch, unit) run" where
  "read_delta gunz nv0 h =
     rbind (rread nv0 XDELTA_PREFIX_LEN h) (\<lambda>magic h.
     rbind (rread nv0 HEADER_SPACE h) (\<lambda>header h.
     let flags = of_nat (be_val (take 4 header)) :: u32;
         lens = of_nat (be_val (take 4 (drop 4 header))) :: u32;
         no_verify = bit flags FLAG_NO_VERIFY;
         compressed = bit flags FLAG_PATCH_COMPRESSED;
         has_trailer = (magic = XDELTA_110_PREFIX \<or> magic = XDELTA_104_PREFIX);
         from_name_len = sint (ucast (drop_bit 16 lens) :: u16);
         to_name_len = sint (ucast lens :: u16)
     in if \<not> has_trailer \<and> magic \<noteq> XDELTA_100_PREFIX then Some Refused
     else if from_name_len < 0 \<or> to_name_len < 0 then Some Wild
     else
     rbind (rread no_verify (nat from_name_len) h) (\<lambda>_ h.
     rbind (rread no_verify (nat to_name_len) h) (\<lambda>_ h.
     let header_offset = xd_handle_get_pos h;
         total_trailer = (if has_trailer then 12 else 4);
         end_offset = xd_handle_length h - total_trailer
     in
     rbind (lift_opt (xd_handle_set_pos end_offset h)) (\<lambda>_ h.
     rbind (rread no_verify 4 h) (\<lambda>off h.
     let control_offset = of_nat (be_val off) :: u32
     in
     rbind (if has_trailer
            then rbind (rread no_verify XDELTA_PREFIX_LEN h) (\<lambda>trailer h. if trailer \<noteq> magic then Some Refused else Some (Parsed () h))
            else Some (Parsed () h)) (\<lambda>_ h.
     rbind (lift_opt (xd_handle_narrow gunz control_offset end_offset compressed h)) (\<lambda>_ h.
     rbind (xdp_control_read no_verify h) (\<lambda>c h.
       case which_sources (source_info c) of
         None \<Rightarrow> Some Refused
       | Some (d, f) \<Rightarrow>
           rbind (lift_opt (xd_handle_narrow gunz header_offset control_offset compressed h)) (\<lambda>_ h.
             Some (Parsed \<lparr>patch_in = h, patch_flags = flags, data_source = d, from_source = f, cont = c\<rparr> ())))))))))))"

definition process_patch :: "zlib_read \<Rightarrow> (fsys \<Rightarrow> string) \<Rightarrow> bool \<Rightarrow> string \<Rightarrow> fsys \<Rightarrow> (XdeltaPatch, unit) run \<times> fsys" where
  "process_patch gunz tmpname nv0 name fs =
     (case open_read_noseek_handle gunz tmpname name True fs of
        Ret (None, fs) \<Rightarrow> (Some Refused, fs)
      | Ret (Some (h, _), fs) \<Rightarrow> (read_delta gunz nv0 h, fs)
      | _ \<Rightarrow> (Some Wild, fs))"

section \<open>The command\<close>

text \<open>The output goes to a file or, for the name \<^verbatim>\<open>-\<close>, to the standard output; the state after a run holds the files and the bytes
  written there.\<close>

definition deliver :: "string \<Rightarrow> bytes \<Rightarrow> fsys \<Rightarrow> fsys \<times> bytes" where
  "deliver to_name b fs = (if to_name = ''-'' then (fs, b) else (put_file to_name b fs, []))"

text \<open>\<open>left\<close> is what a run that fails leaves in the output.  The three names are those the application gives.  The output has its name
  before the temporary files lose theirs.\<close>

definition apply_and_close ::
  "zlib_write \<Rightarrow> bytes \<Rightarrow> string \<Rightarrow> XdeltaPatch \<Rightarrow> XdFileHandle list \<Rightarrow> XdFileHandle \<Rightarrow> fsys \<Rightarrow> (fsys \<times> bytes) outcome option" where
  "apply_and_close gzip left to_name patch ins to_out fs =
     (case xdp_apply_delta (bit (patch_flags patch) FLAG_NO_VERIFY) (cont patch) ins to_out of
        None \<Rightarrow> None
      | Some Wild \<Rightarrow> Some Undefined
      | Some Refused \<Rightarrow> Some (Returned 12 (deliver to_name left fs))
      | Some (Parsed _ (ins, to_out)) \<Rightarrow>
          let (fs, printed) = deliver to_name (xd_handle_really_close gzip (-1) to_out) fs;
              fs = (case from_source patch of None \<Rightarrow> fs | Some k \<Rightarrow> xd_read_close (ins ! k) fs);
              fs = xd_read_close (patch_in patch) fs
          in Some (Returned 0 (fs, printed)))"

text \<open>Opening the output empties it.  An output that is the file the patch is read from, the patch itself or what it was decompressed
  to, would be emptied and written while it is read: such a run has no result.  \<open>seekable\<close> tells whether the standard output
  has a position, which the compression of the output asks for.\<close>

definition patch_file :: "string \<Rightarrow> XdeltaPatch \<Rightarrow> string" where
  "patch_file patch_name patch = (case cleanup (patch_in patch) of None \<Rightarrow> patch_name | Some t \<Rightarrow> t)"

definition patch_command ::
  "zlib_read \<Rightarrow> zlib_write \<Rightarrow> (fsys \<Rightarrow> string) \<Rightarrow> bool \<Rightarrow> bytes \<Rightarrow> bool \<Rightarrow> string \<Rightarrow> string \<Rightarrow> string \<Rightarrow> fsys \<Rightarrow> (fsys \<times> bytes) outcome option" where
  "patch_command gunz gzip tmpname seekable left nv0 patch_name from_name to_name fs =
     (case process_patch gunz tmpname nv0 patch_name fs of
        (None, _) \<Rightarrow> None
      | (Some Wild, _) \<Rightarrow> Some Undefined
      | (Some Refused, fs) \<Rightarrow> Some (Returned 7 (fs, []))
      | (Some (Parsed patch _), fs) \<Rightarrow>
          if to_name \<noteq> ''-'' \<and> \<not> writable fs to_name then Some (Returned 8 (fs, []))
          else if to_name \<noteq> ''-'' \<and> to_name = patch_file patch_name patch then Some Undefined
          else if to_name = ''-'' \<and> bit (patch_flags patch) FLAG_TO_COMPRESSED \<and> \<not> seekable then Some (Returned 9 (fs, []))
          else
            let fs = (if to_name = ''-'' then fs else put_file to_name [] fs);
                to_out = open_write_handle;
                to_out = (if bit (patch_flags patch) FLAG_TO_COMPRESSED then snd (xd_begin_compression gzip (-1) to_out) else to_out);
                data = (case data_source patch of None \<Rightarrow> [] | Some _ \<Rightarrow> [patch_in patch])
            in (case from_source patch of
                  None \<Rightarrow> apply_and_close gzip left to_name patch data to_out fs
                | Some k \<Rightarrow>
                    (case open_read_seek_handle gunz tmpname from_name fs of
                       Ret (None, fs) \<Rightarrow> Some (Returned 10 (deliver to_name left fs))
                     | Ret (Some (from_in, _), fs) \<Rightarrow>
                         if xd_handle_length from_in \<noteq> si_len (source_info (cont patch) ! k) then Some (Returned 11 (deliver to_name left fs))
                         else apply_and_close gzip left to_name patch (data @ [from_in]) to_out fs
                     | _ \<Rightarrow> Some Undefined)))"

text \<open>The function the application calls.  \<^verbatim>\<open>main\<close> first reads options up to the first argument that is none: what it does when
  the name of the patch looks like one is the parameter \<open>as_option\<close>.\<close>

definition is_option :: "string \<Rightarrow> bool" where
  "is_option arg \<longleftrightarrow> take 1 arg = ''-'' \<and> arg \<noteq> ''-''"

definition xdelta1PatchRom ::
  "(string \<Rightarrow> fsys \<Rightarrow> (fsys \<times> bytes) outcome option) \<Rightarrow> zlib_read \<Rightarrow> zlib_write \<Rightarrow> (fsys \<Rightarrow> string) \<Rightarrow> bool \<Rightarrow> bytes \<Rightarrow> bool \<Rightarrow>
     string \<Rightarrow> string \<Rightarrow> string \<Rightarrow> fsys \<Rightarrow> (fsys \<times> bytes) outcome option" where
  "xdelta1PatchRom as_option gunz gzip tmpname seekable left nv0 romPath patchPath outputFile fs =
     (if is_option patchPath then as_option patchPath fs
      else patch_command gunz gzip tmpname seekable left nv0 patchPath romPath outputFile fs)"

end
