(* ===== verification/Xd1_Control.thy ===== *)
theory Xd1_Control
  imports Xd1_Patch
begin

text \<open>
  A control that \<^verbatim>\<open>xdp_control_write\<close> wrote is read back by \<^verbatim>\<open>xdp_control_read\<close>, with the offsets it had before they were packed.
\<close>

section \<open>A control is read back\<close>

text \<open>The offsets into a sequential source are those that counting gives; \<^verbatim>\<open>pack_instructions\<close> asserts it.\<close>

definition moved :: "XdeltaInstruction \<Rightarrow> XdeltaSourceInfo \<Rightarrow> XdeltaSourceInfo" where
  "moved i info = info\<lparr>position := (if sequential info then position info + i_length i else position info)\<rparr>"

fun offsets_ok :: "XdeltaSourceInfo list \<Rightarrow> XdeltaInstruction list \<Rightarrow> bool" where
  "offsets_ok infos [] \<longleftrightarrow> True"
| "offsets_ok infos (i # is) \<longleftrightarrow>
     (let k = unat (i_index i); info = infos ! k
      in k < length infos \<and> (sequential info \<longrightarrow> i_offset i = position info) \<and>
         offsets_ok (infos[k := moved i info]) is)"

definition key :: "XdeltaInstruction \<Rightarrow> u32 \<times> u32 \<times> u32" where
  "key i = (i_index i, i_offset i, i_length i)"

definition reset_inst :: "XdeltaInstruction \<Rightarrow> XdeltaInstruction" where
  "reset_inst i = i\<lparr>output_start := 0\<rparr>"

definition reset_control :: "XdeltaControl \<Rightarrow> XdeltaControl" where
  "reset_control c = c\<lparr>source_info := map reset_info (source_info c), inst := map reset_inst (inst c)\<rparr>"

text \<open>The counters of copies do not matter for the offsets.\<close>

definition place :: "XdeltaSourceInfo \<Rightarrow> bool \<times> u32" where
  "place s = (sequential s, position s)"

lemma offsets_ok_cong: "offsets_ok infos is \<Longrightarrow> map place infos = map place infos' \<Longrightarrow> offsets_ok infos' is"
proof (induction "is" arbitrary: infos infos')
  case (Cons i "is")
  define k where "k = unat (i_index i)"
  have step: "offsets_ok infos (i # is) \<longleftrightarrow>
      k < length infos \<and> (sequential (infos ! k) \<longrightarrow> i_offset i = position (infos ! k)) \<and> offsets_ok (infos[k := moved i (infos ! k)]) is" for infos
    unfolding offsets_ok.simps Let_def k_def by (rule refl)
  have l: "length infos' = length infos" using Cons.prems(2) by (metis length_map)
  have k: "k < length infos" using Cons.prems(1) unfolding step by blast
  have "map place infos ! k = map place infos' ! k" by (simp only: Cons.prems(2))
  then have e: "place (infos ! k) = place (infos' ! k)" using k l by simp
  then have e2: "sequential (infos ! k) = sequential (infos' ! k)" "position (infos ! k) = position (infos' ! k)" by (simp_all add: place_def)
  have "place (moved i (infos ! k)) = place (moved i (infos' ! k))" using e2 by (simp add: place_def moved_def)
  then have "map place (infos[k := moved i (infos ! k)]) = map place (infos'[k := moved i (infos' ! k)])"
    unfolding map_update Cons.prems(2) by (rule arg_cong)
  then have "offsets_ok (infos'[k := moved i (infos' ! k)]) is" using Cons.IH Cons.prems(1) unfolding step by blast
  then show ?case using Cons.prems(1) e2 l unfolding step by simp
qed simp

lemma pack_unpack:
  "offsets_ok infos is \<Longrightarrow> \<exists>infos' is'. pack_loop infos is = Some (infos', is') \<and> map reset_info infos' = map reset_info infos \<and> length is' = length is \<and>
     (\<forall>pos. \<exists>is2. unpack_loop infos pos (map reset_inst is') = Some (infos', is2) \<and> unpack_loop infos pos is = Some (infos', is2) \<and> map key is2 = map key is)"
proof (induction "is" arbitrary: infos)
  case (Cons i "is")
  define k where "k = unat (i_index i)"
  define info where "info = infos ! k"
  have k: "k < length infos" and o: "sequential info \<longrightarrow> i_offset i = position info" using Cons.prems by (simp_all add: k_def info_def Let_def)
  define new where "new = info\<lparr>position := (if sequential info then position info + i_length i else position info), copies := copies info + 1,
      copy_length := copy_length info + i_length i\<rparr>"
  have "offsets_ok (infos[k := moved i info]) is"
    using Cons.prems by (simp add: k_def info_def Let_def)
  then have "offsets_ok (infos[k := new]) is"
    by (rule offsets_ok_cong) (simp add: map_update new_def moved_def place_def)
  from Cons.IH [OF this] obtain infos' is' where r: "pack_loop (infos[k := new]) is = Some (infos', is')"
    "map reset_info infos' = map reset_info (infos[k := new])" "length is' = length is"
    and u: "\<forall>pos. \<exists>is2. unpack_loop (infos[k := new]) pos (map reset_inst is') = Some (infos', is2) \<and> unpack_loop (infos[k := new]) pos is = Some (infos', is2) \<and>
      map key is2 = map key is"
    by blast
  let ?i' = "if sequential info then i\<lparr>i_offset := 0\<rparr> else i"
  have p: "pack_loop infos (i # is) = Some (infos', ?i' # is')"
    using k r(1) by (auto simp: k_def [symmetric] info_def [symmetric] Let_def new_def)
  have n: "map reset_info infos' = map reset_info infos"
  proof -
    have "reset_info new = reset_info info" by (simp add: reset_info_def new_def)
    then show ?thesis using r(2) k by (simp add: map_update info_def list_update_same_conv)
  qed
  have "\<exists>is2. unpack_loop infos pos (map reset_inst (?i' # is')) = Some (infos', is2) \<and> unpack_loop infos pos (i # is) = Some (infos', is2) \<and>
      map key is2 = map key (i # is)" for pos
  proof -
    obtain is2 where is2: "unpack_loop (infos[k := new]) (pos + i_length i) (map reset_inst is') = Some (infos', is2)"
      "unpack_loop (infos[k := new]) (pos + i_length i) is = Some (infos', is2)" "map key is2 = map key is"
      using u by blast
    have j: "reset_inst ?i' = (if sequential info then i\<lparr>i_offset := 0, output_start := 0\<rparr> else i\<lparr>output_start := 0\<rparr>)" by (simp add: reset_inst_def)
    have f: "i_index (reset_inst ?i') = i_index i" "i_length (reset_inst ?i') = i_length i"
      "(if sequential info then (reset_inst ?i')\<lparr>i_offset := position info\<rparr> else reset_inst ?i')\<lparr>output_start := pos\<rparr> = i\<lparr>output_start := pos\<rparr>"
      using o by (auto simp: reset_inst_def)
    have g: "(if sequential info then i\<lparr>i_offset := position info\<rparr> else i) = i" using o by (cases i) auto
    have "unpack_loop infos pos (reset_inst ?i' # map reset_inst is') = Some (infos', i\<lparr>output_start := pos\<rparr> # is2)"
      using k is2(1) o by (auto simp: f k_def [symmetric] info_def [symmetric] Let_def new_def reset_inst_def split: if_splits)
    moreover have "unpack_loop infos pos (i # is) = Some (infos', i\<lparr>output_start := pos\<rparr> # is2)"
      using k is2(2) o g by (auto simp: k_def [symmetric] info_def [symmetric] Let_def new_def split: if_splits)
    ultimately show ?thesis using is2(3) by (simp add: key_def)
  qed
  then show ?case using p n r(3) by (intro exI [of _ infos'] exI [of _ "?i' # is'"]) simp
qed simp

text \<open>What is written does not depend on the fields that are not stored.\<close>

lemma write_elements_map: "(\<And>x s. put (f x) s = put x s) \<Longrightarrow> write_elements put (map f xs) s = write_elements put xs s"
  by (induction xs arbitrary: s) (auto split: bind_split)

lemma fields_reset [simp]:
  "si_name (reset_info x) = si_name x" "si_md5 (reset_info x) = si_md5 x" "si_len (reset_info x) = si_len x" "isdata (reset_info x) = isdata x"
  "sequential (reset_info x) = sequential x" "i_index (reset_inst i) = i_index i" "i_offset (reset_inst i) = i_offset i" "i_length (reset_inst i) = i_length i"
  "reset_info (reset_info x) = reset_info x"
  by (simp_all add: reset_info_def reset_inst_def)

lemma serialize_reset: "serialize_xdeltacontrol wr (reset_control c) s = serialize_xdeltacontrol wr c s"
proof -
  have "serializeio_count_xdeltasourceinfo \<circ> reset_info = serializeio_count_xdeltasourceinfo" by (simp add: fun_eq_iff serializeio_count_xdeltasourceinfo_def)
  then have "serializeio_count_xdeltacontrol (reset_control c) = serializeio_count_xdeltacontrol c"
    by (simp add: serializeio_count_xdeltacontrol_def reset_control_def foldl_map serializeio_count_xdeltasourceinfo_def serializeio_count_xdeltainstruction_def)
  moreover have "write_elements (serialize_xdeltasourceinfo wr) (map reset_info xs) = write_elements (serialize_xdeltasourceinfo wr) xs" for xs
    by (rule ext, rule write_elements_map) (simp add: serialize_xdeltasourceinfo_def)
  moreover have "write_elements (serialize_xdeltainstruction wr) (map reset_inst xs) = write_elements (serialize_xdeltainstruction wr) xs" for xs
    by (rule ext, rule write_elements_map) (simp add: serialize_xdeltainstruction_def)
  ultimately show ?thesis
    by (simp add: serialize_xdeltacontrol_def serialize_xdeltacontrol_internal_def [abs_def] reset_control_def)
qed

text \<open>The condition for a control to be written: arrays that are not empty and fit the address space, proper names, and offsets as above.\<close>

definition writable_control :: "XdeltaControl \<Rightarrow> bool" where
  "writable_control c \<longleftrightarrow> control_ok (reset_control c) \<and> offsets_ok (map reset_info (source_info c)) (inst c)"

lemma pack_writable:
  assumes "writable_control c"
  shows "\<exists>d e. pack_instructions c = Some d \<and> control_ok (reset_control d) \<and> unpack_instructions (reset_control d) = Some e \<and>
     unpack_instructions c = Some e \<and> map key (inst e) = map key (inst c) \<and> map reset_info (source_info e) = map reset_info (source_info c)"
proof -
  let ?infos = "map reset_info (source_info c)"
  have ok: "control_ok (reset_control c)" "offsets_ok ?infos (inst c)" using assms by (simp_all add: writable_control_def)
  from pack_unpack [OF ok(2)] obtain infos' is' where p: "pack_loop ?infos (inst c) = Some (infos', is')" "map reset_info infos' = map reset_info ?infos"
    "length is' = length (inst c)"
    and "\<forall>pos. \<exists>is2. unpack_loop ?infos pos (map reset_inst is') = Some (infos', is2) \<and> unpack_loop ?infos pos (inst c) = Some (infos', is2) \<and>
      map key is2 = map key (inst c)"
    by blast
  then obtain is2 where u: "unpack_loop ?infos 0 (map reset_inst is') = Some (infos', is2)" "unpack_loop ?infos 0 (inst c) = Some (infos', is2)"
    "map key is2 = map key (inst c)"
    by blast
  let ?d = "c\<lparr>source_info := infos', inst := is'\<rparr>" and ?e = "c\<lparr>source_info := infos', inst := is2\<rparr>"
  have m: "map reset_info infos' = map reset_info (source_info c)" using p(2) by simp
  have "pack_instructions c = Some ?d" using p(1) by (simp add: pack_instructions_def)
  moreover have "control_ok (reset_control ?d)"
  proof -
    have l: "length infos' = length (source_info c)" using m by (metis length_map)
    have "set (source_info (reset_control ?d)) = set (source_info (reset_control c))" unfolding reset_control_def using m by simp
    then show ?thesis using ok(1) p(3) l by (auto simp: control_ok_def reset_control_def reset_inst_def)
  qed
  moreover have "unpack_instructions (reset_control ?d) = Some ?e"
    using u(1) m by (simp add: unpack_instructions_def reset_control_def comp_def)
  moreover have "unpack_instructions c = Some ?e" using u(2) by (simp add: unpack_instructions_def)
  ultimately show ?thesis using u(3) m by (intro exI [of _ ?d] exI [of _ ?e]) simp
qed

text \<open>The bytes of a control in a file.\<close>

definition control_segment :: "XdeltaControl \<Rightarrow> bytes" where
  "control_segment c = (case pack_instructions c of None \<Rightarrow> [] | Some d \<Rightarrow> type_bytes (reset_control d) @ control_bytes (reset_control d))"

lemma control_written:
  assumes "writable_control c"
  shows "\<exists>d out'. xdp_control_write nv c out = Some (d, out') \<and> out_buf out' = out_buf out @ control_segment c"
proof -
  obtain d where d: "pack_instructions c = Some d" "control_ok (reset_control d)" using pack_writable [OF assms] by blast
  obtain h where "serialize_xdeltacontrol (xd_handle_write nv) (reset_control d) out = Some h" "out_buf h = out_buf out @ control_segment c"
    using write_handle.writes_control [OF d(2), of nv] d(1) unfolding write_handle.writes_def control_segment_def by auto
  then have "xdp_control_write nv c out = Some (d, xd_handle_close h)" "out_buf (xd_handle_close h) = out_buf out @ control_segment c"
    using d(1) by (auto simp: xdp_control_write_def serialize_reset xd_handle_close_def Let_def split: prod.splits)
  then show ?thesis by blast
qed

lemma control_reads:
  assumes "writable_control c" "handle_rest h = control_segment c @ r"
  shows "\<exists>e h'. xdp_control_read nv h = Some (Parsed e h') \<and> handle_rest h' = r \<and> file_of h' = file_of h \<and> unpack_instructions c = Some e \<and> map key (inst e) = map key (inst c) \<and>
     map reset_info (source_info e) = map reset_info (source_info c)"
proof -
  obtain d e where d: "pack_instructions c = Some d" "control_ok (reset_control d)" "unpack_instructions (reset_control d) = Some e"
    "unpack_instructions c = Some e" "map key (inst e) = map key (inst c)" "map reset_info (source_info e) = map reset_info (source_info c)"
    using pack_writable [OF assms(1)] by blast
  have "handle_at (file_of h) h (type_bytes (reset_control d) @ control_bytes (reset_control d) @ r)"
    using assms(2) d(1) by (simp add: control_segment_def handle_at_def)
  from read_handle.reads_type [OF d(2) this, of nv] obtain h' where
    "serializeio_unserialize_generic_acceptable (xd_handle_read nv) (2 ^ 15 + 2 ^ 13 + 3) h = Some (Parsed (ST_XdeltaControl, Control (reset_control d)) h')"
    "handle_rest h' = r" "file_of h' = file_of h"
    unfolding handle_at_def by blast
  then show ?thesis using d by (auto simp: xdp_control_read_def rbind_def)
qed

text \<open>C12: A control that is written is read back, whatever follows it: every instruction has its source, offset and length again, also those
  whose offsets were packed away, and the handle stands behind the control.\<close>

theorem control_roundtrip:
  assumes "writable_control c"
  shows "\<exists>d out' bs. xdp_control_write nv c out = Some (d, out') \<and> out_buf out' = out_buf out @ bs \<and>
     (\<forall>h r. handle_rest h = bs @ r \<longrightarrow> (\<exists>e h'. xdp_control_read nv' h = Some (Parsed e h') \<and> handle_rest h' = r \<and>
        unpack_instructions c = Some e \<and> map key (inst e) = map key (inst c)))"
  using control_written [OF assms, of nv out] control_reads [OF assms, of _ _ nv'] by blast

definition example_control :: XdeltaControl where
  "example_control =
     \<lparr>to_md5 = [0x90, 0x01, 0x50, 0x98, 0x3c, 0xd2, 0x4f, 0xb0, 0xd6, 0x96, 0x3f, 0x7d, 0x28, 0xe1, 0x7f, 0x72], to_len = 3, has_data = True,
      source_info = [info_new0\<lparr>si_name := [112], si_len := 2, isdata := True, sequential := True\<rparr>, info_new0\<lparr>si_name := [111], si_len := 3\<rparr>],
      inst = [\<lparr>i_index = 0, i_offset = 0, i_length = 1, output_start = 0\<rparr>, \<lparr>i_index = 1, i_offset = 1, i_length = 1, output_start = 0\<rparr>,
              \<lparr>i_index = 0, i_offset = 1, i_length = 1, output_start = 0\<rparr>]\<rparr>"

lemma example_writable: "writable_control example_control"
  by (simp add: writable_control_def example_control_def reset_control_def control_ok_def source_info_ok_def reset_info_def reset_inst_def info_new0_def
    cstring_def moved_def Let_def)

theorem control_roundtrip_witness:
  "\<exists>d out' bs. xdp_control_write False example_control open_write_handle = Some (d, out') \<and> out_buf out' = out_buf open_write_handle @ bs \<and>
     (\<forall>h r. handle_rest h = bs @ r \<longrightarrow> (\<exists>e h'. xdp_control_read False h = Some (Parsed e h') \<and> handle_rest h' = r \<and>
        unpack_instructions example_control = Some e \<and> map key (inst e) = map key (inst example_control)))"
  by (rule control_roundtrip [OF example_writable])

section \<open>Controls that are not what they seem\<close>

lemma source_type_read:
  assumes "handle_rest h = be_bytes 4 n @ sz @ r" "length sz = 4" "n < 2 ^ 31"
  shows "\<exists>h'. handle_source_type (xd_handle_read nv) h = Parsed (int n) h' \<and> handle_rest h' = r"
proof -
  have s: "sint (of_nat n :: u32) = int n" using assms(3) by (simp add: signed_of_nat take_bit_nat_eq_self signed_take_bit_int_eq_self)
  obtain h1 where h1: "xd_handle_read nv 4 h = Some (be_bytes 4 n, h1)" "handle_rest h1 = sz @ r" using read_bytes [OF assms(1), of 4 nv] by auto
  obtain h2 where h2: "xd_handle_read nv 4 h1 = Some (sz, h2)" "handle_rest h2 = r" using read_bytes [OF h1(2), of 4 nv] assms(2) by auto
  have "be_val (be_bytes 4 n) = n" using assms(3) by (intro codec_simps) simp
  then show ?thesis using h1(1) h2 s by (simp add: handle_source_type_def source_next_uint32_def source_next_bytes_known_def)
qed

text \<open>C28: A library is known, but the type is below all types that are registered: the search for it never ends.\<close>

theorem control_of_unknown_type:
  assumes "handle_rest h = be_bytes 4 n @ sz @ r" "length sz = 4" "n mod 256 = 3 \<or> n mod 256 = 6" "n < 2 ^ 9 + 3"
  shows "xdp_control_read nv h = None"
proof -
  obtain h' where "handle_source_type (xd_handle_read nv) h = Parsed (int n) h'" using source_type_read [OF assms(1, 2), of nv] assms(4) by auto
  moreover have "edsio_library_check (int n mod 256)"
    using assms(3) zmod_int [of n 256] by (auto simp: edsio_library_check_def)
  moreover have "find_loop ser_array (int n) 0 (int (length ser_array)) = None"
    using find_unregistered [of "int n"] assms(4) by (simp add: ST_XdeltaChecksum_def ser_array_def)
  ultimately show ?thesis
    by (simp add: xdp_control_read_def serializeio_unserialize_generic_acceptable_def serializeio_unserialize_generic_def rbind_def)
qed

theorem control_of_unknown_type_witness:
  "xdp_control_read False (handle_new0\<lparr>fh_in := Gz_in (be_bytes 4 259 @ [0, 0, 0, 0])\<rparr>) = None"
  by (rule control_of_unknown_type [where n = 259 and sz = "[0, 0, 0, 0]" and r = "[]"]) (simp_all add: handle_rest_def)

lemma groups_overrun:
  "handle_rest h = gs @ r \<Longrightarrow> length gs = Suc room \<Longrightarrow> \<forall>g \<in> set (take room gs). g AND 0x80 \<noteq> 0 \<Longrightarrow> uint_groups (xd_handle_read nv) room h = Wild"
proof (induction room arbitrary: h gs)
  case 0
  then obtain g where "gs = [g]" by (cases gs) auto
  then obtain h' where "xd_handle_read nv 1 h = Some ([g], h')" using read_bytes [of h "[g]" r 1 nv] 0 by auto
  then show ?case by (simp add: source_next_uint8_def source_next_bytes_known_def)
next
  case (Suc room)
  then obtain g gs' where g: "gs = g # gs'" by (cases gs) auto
  then obtain h' where h': "xd_handle_read nv 1 h = Some ([g], h')" "handle_rest h' = gs' @ r" using read_bytes [of h "[g]" "gs' @ r" 1 nv] Suc.prems(1) by auto
  have "uint_groups (xd_handle_read nv) room h' = Wild" using Suc.IH [OF h'(2)] Suc.prems(2, 3) g by simp
  then show ?case using h'(1) Suc.prems(3) g by (simp add: source_next_uint8_def source_next_bytes_known_def)
qed

text \<open>C26: A length of the output with more than sixteen groups is stored behind the end of an array.\<close>

theorem control_long_number:
  assumes "handle_rest h = be_bytes 4 (2 ^ 15 + 3) @ sz @ m @ gs @ r" "length sz = 4" "length m = 16" "length gs = 17"
    and "\<forall>g \<in> set (take 16 gs). g AND 0x80 \<noteq> 0"
  shows "xdp_control_read nv h = Some Wild"
proof -
  obtain h1 where h1: "handle_source_type (xd_handle_read nv) h = Parsed ST_XdeltaControl h1" "handle_rest h1 = m @ gs @ r"
    using source_type_read [OF assms(1, 2), of nv] by (auto simp: ST_XdeltaControl_def)
  obtain h2 where h2: "xd_handle_read nv 16 h1 = Some (m, h2)" "handle_rest h2 = gs @ r" using read_bytes [OF h1(2), of 16 nv] assms(3) by auto
  have "uint_groups (xd_handle_read nv) 16 h2 = Wild" using groups_overrun [OF h2(2), of 16 nv] assms(4, 5) by simp
  then have "unserialize_xdeltacontrol (xd_handle_read nv) h1 = Wild"
    using h2(1) by (simp add: unserialize_xdeltacontrol_def source_next_bytes_known_def source_next_uint_def)
  moreover have "ST_XdeltaControl mod 256 = 3" "\<not> ST_XdeltaControl < 0" by (simp_all add: ST_XdeltaControl_def)
  ultimately show ?thesis
    using h1(1) find_control
    by (simp add: xdp_control_read_def serializeio_unserialize_generic_acceptable_def serializeio_unserialize_generic_def edsio_library_check_def
      unserialize_func_def parse_map_def ser_array_def rbind_def)
qed

theorem control_long_number_witness:
  "xdp_control_read False (handle_new0\<lparr>fh_in := Gz_in (be_bytes 4 (2 ^ 15 + 3) @ [0, 0, 0, 0] @ replicate 16 0 @ replicate 17 0x80)\<rparr>) = Some Wild"
  by (rule control_long_number [where sz = "[0, 0, 0, 0]" and m = "replicate 16 0" and gs = "replicate 17 0x80" and r = "[]"]) (simp_all add: handle_rest_def)

lemma find_checksum: "find_loop ser_array ST_XdeltaChecksum 0 10 = Some (Some 0)"
  by (simp add: find_loop.simps half_def ser_array_def ST_XdeltaControl_def ST_XdeltaChecksum_def ST_XdeltaIndex_def ST_XdeltaSourceInfo_def
    ST_Version0SourceInfo_def ST_Version0Control_def ST_Version0Instruction_def ST_XdeltaInstruction_def ST_RsyncIndexElt_def ST_RsyncIndex_def)

text \<open>C40: An object of another type is accepted, and then used as a control.\<close>

theorem control_of_other_type:
  assumes "handle_rest h = be_bytes 4 (2 ^ 9 + 3) @ sz @ a @ b @ r" "length sz = 4" "length a = 2" "length b = 2"
  shows "xdp_control_read nv h = Some Wild"
proof -
  obtain h1 where h1: "handle_source_type (xd_handle_read nv) h = Parsed ST_XdeltaChecksum h1" "handle_rest h1 = a @ b @ r"
    using source_type_read [OF assms(1, 2), of nv] by (auto simp: ST_XdeltaChecksum_def)
  obtain h2 where h2: "xd_handle_read nv 2 h1 = Some (a, h2)" "handle_rest h2 = b @ r" using read_bytes [OF h1(2), of 2 nv] assms(3) by auto
  obtain h3 where h3: "xd_handle_read nv 2 h2 = Some (b, h3)" using read_bytes [OF h2(2), of 2 nv] assms(4) by auto
  have "unserialize_xdeltachecksum (xd_handle_read nv) h1 = Parsed \<lparr>ck_high = of_nat (be_val a), ck_low = of_nat (be_val b)\<rparr> h3"
    using h2(1) h3 by (simp add: unserialize_xdeltachecksum_def unserialize_checksum_at_def source_next_uint16_def source_next_bytes_known_def inside_def)
  moreover have "ST_XdeltaChecksum mod 256 = 3" "\<not> ST_XdeltaChecksum < 0" "ST_XdeltaChecksum div 256 \<noteq> 0" by (simp_all add: ST_XdeltaChecksum_def)
  ultimately show ?thesis
    using h1(1) find_checksum
    by (simp add: xdp_control_read_def serializeio_unserialize_generic_acceptable_def serializeio_unserialize_generic_def edsio_library_check_def
      unserialize_func_def parse_map_def ser_array_def rbind_def)
qed

theorem control_of_other_type_witness:
  "xdp_control_read False (handle_new0\<lparr>fh_in := Gz_in (be_bytes 4 (2 ^ 9 + 3) @ [0, 0, 0, 0, 1, 2, 3, 4])\<rparr>) = Some Wild"
  by (rule control_of_other_type [where sz = "[0, 0, 0, 0]" and a = "[1, 2]" and b = "[3, 4]" and r = "[]"]) (simp_all add: handle_rest_def)

end
