(* ===== verification/Xd1_Apply.thy ===== *)
theory Xd1_Apply
  imports Xd1_Control
begin

text \<open>
  Applying a patch of xdelta 1: the meaning of its instructions, a run of the whole command on a well-formed patch, and what a return
  code of zero promises for any patch.
\<close>

section \<open>The meaning of the instructions\<close>

text \<open>\<open>ks\<close> tells for each source whether it is the data of the patch, which is taken as it comes, or the old file, from which ranges are
  taken.\<close>

fun assemble :: "bool list \<Rightarrow> bytes \<Rightarrow> bytes \<Rightarrow> XdeltaInstruction list \<Rightarrow> bytes option" where
  "assemble ks dt ft [] = Some []"
| "assemble ks dt ft (i # is) =
     (let k = unat (i_index i); off = unat (i_offset i); n = unat (i_length i)
      in if length ks \<le> k then None
         else if ks ! k then (if n \<le> length dt then map_option ((@) (take n dt)) (assemble ks (drop n dt) ft is) else None)
         else if off + n \<le> length ft then map_option ((@) (take n (drop off ft))) (assemble ks dt ft is)
         else None)"

text \<open>The handles of the sources: at most one reads the data.\<close>

definition source_at :: "bool \<Rightarrow> bytes \<Rightarrow> bytes \<Rightarrow> bool \<Rightarrow> XdFileHandle \<Rightarrow> bool" where
  "source_at nv dr ft isd h \<longleftrightarrow>
     (if isd then handle_rest h = dr \<and> fh_in h \<noteq> No_in else page_inv nv ft (\<lambda>_. 0) h \<and> copy_page h = None)"

definition sources_at :: "bool \<Rightarrow> bool list \<Rightarrow> bytes \<Rightarrow> bytes \<Rightarrow> XdFileHandle list \<Rightarrow> bool" where
  "sources_at nv ks dr ft ins \<longleftrightarrow> list_all2 (source_at nv dr ft) ks ins"

definition one_stream :: "bool list \<Rightarrow> bool" where
  "one_stream ks \<longleftrightarrow> (\<forall>j < length ks. \<forall>k < length ks. ks ! j \<longrightarrow> ks ! k \<longrightarrow> j = k)"

lemma page_inv_no_in: "page_inv nv D k h \<Longrightarrow> fh_in h = No_in"
  by (simp add: page_inv_def file_handle_def)

lemma sources_update:
  assumes "sources_at nv ks dr ft ins" "k < length ks" "one_stream ks" "source_at nv dr' ft (ks ! k) h" "\<not> ks ! k \<longrightarrow> dr' = dr"
  shows "sources_at nv ks dr' ft (ins[k := h])"
proof -
  have "source_at nv dr' ft (ks ! j) (ins[k := h] ! j)" if "j < length ks" for j
  proof (cases "j = k")
    case True
    then show ?thesis using assms(1, 4) that by (simp add: sources_at_def list_all2_lengthD [symmetric])
  next
    case False
    then have "\<not> (ks ! j \<and> ks ! k)" using assms(2, 3) that unfolding one_stream_def by blast
    then have "ks ! j \<longrightarrow> dr' = dr" using assms(5) by blast
    moreover have "source_at nv dr ft (ks ! j) (ins ! j)" using assms(1) that by (simp add: sources_at_def list_all2_nthD)
    ultimately show ?thesis using False by (auto simp: source_at_def)
  qed
  then show ?thesis using assms(1) unfolding sources_at_def by (intro list_all2_all_nthI) (auto dest: list_all2_lengthD)
qed

lemma copy_delta_region_ok:
  assumes "assemble ks dt ft is = Some T" "sources_at nv ks (dt @ r) ft ins" "one_stream ks" "writer nv W B out"
  shows "\<exists>ins' out'. copy_delta_region nv is ins out = Some (Parsed () (ins', out')) \<and> map cleanup ins' = map cleanup ins \<and>
     writer nv (W @ T) (B @ T) out' \<and> out_gz out' = out_gz out \<and> out_done out' = out_done out"
  using assms
proof (induction "is" arbitrary: dt ins out W B T)
  case (Cons i "is")
  define k where "k = unat (i_index i)"
  define off where "off = unat (i_offset i)"
  define n where "n = unat (i_length i)"
  have l: "length ins = length ks" using Cons.prems(2) by (simp add: sources_at_def list_all2_lengthD)
  have k: "k < length ks" using Cons.prems(1) by (auto simp: k_def Let_def split: if_splits)
  have s: "source_at nv (dt @ r) ft (ks ! k) (ins ! k)" using Cons.prems(2) k by (simp add: sources_at_def list_all2_nthD)
  have "\<exists>X dt' T' f t. assemble ks dt' ft is = Some T' \<and> T = X @ T' \<and> xd_handle_copy nv (i_offset i) (i_length i) (ins ! k) out = Some (Parsed () (f, t)) \<and>
      source_at nv (dt' @ r) ft (ks ! k) f \<and> (\<not> ks ! k \<longrightarrow> dt' = dt) \<and> cleanup f = cleanup (ins ! k) \<and> writer nv (W @ X) (B @ X) t \<and> out_gz t = out_gz out \<and>
      out_done t = out_done out"
  proof (cases "ks ! k")
    case True
    then obtain T' where T': "n \<le> length dt" "assemble ks (drop n dt) ft is = Some T'" "T = take n dt @ T'"
      using Cons.prems(1) k by (auto simp: k_def [symmetric] n_def [symmetric] Let_def split: if_splits)
    have h: "handle_rest (ins ! k) = take n dt @ (drop n dt @ r)" "fh_in (ins ! k) \<noteq> No_in" using s True by (simp_all add: source_at_def)
    have len: "length (take n dt) = unat (i_length i)" using T'(1) by (simp add: n_def)
    obtain f t where "copy_stream nv (i_length i) (ins ! k) out = Some (Parsed () (f, t))" "handle_rest f = drop n dt @ r" "fh_in f \<noteq> No_in"
      "cleanup f = cleanup (ins ! k)" "writer nv (W @ take n dt) (B @ take n dt) t" "out_gz t = out_gz out" "out_done t = out_done out"
      using copy_stream_ok [OF h(1) len h(2) Cons.prems(4)] by blast
    then show ?thesis using T' h(2) True
      by (intro exI [of _ "take n dt"] exI [of _ "drop n dt"] exI [of _ T'] exI [of _ f] exI [of _ t]) (simp add: xd_handle_copy_def source_at_def)
  next
    case False
    then obtain T' where T': "off + n \<le> length ft" "assemble ks dt ft is = Some T'" "T = take n (drop off ft) @ T'"
      using Cons.prems(1) k by (auto simp: k_def [symmetric] n_def [symmetric] off_def [symmetric] Let_def split: if_splits)
    have h: "page_inv nv ft (\<lambda>_. 0) (ins ! k)" "copy_page (ins ! k) = None" using s False by (simp_all add: source_at_def)
    obtain f t where "copy_pages nv (i_offset i) (i_length i) (ins ! k) out = Some (Parsed () (f, t))" "page_inv nv ft (\<lambda>_. 0) f" "copy_page f = None"
      "cleanup f = cleanup (ins ! k)" "writer nv (W @ take n (drop off ft)) (B @ take n (drop off ft)) t" "out_gz t = out_gz out" "out_done t = out_done out"
      using copy_pages_ok [OF h Cons.prems(4), of "i_offset i" "i_length i"] T'(1) unfolding n_def off_def by blast
    then show ?thesis using T' page_inv_no_in [OF h(1)] False
      by (intro exI [of _ "take n (drop off ft)"] exI [of _ dt] exI [of _ T'] exI [of _ f] exI [of _ t]) (simp add: xd_handle_copy_def source_at_def)
  qed
  then obtain X dt' T' f t where x: "assemble ks dt' ft is = Some T'" "T = X @ T'"
    "xd_handle_copy nv (i_offset i) (i_length i) (ins ! k) out = Some (Parsed () (f, t))" "source_at nv (dt' @ r) ft (ks ! k) f" "\<not> ks ! k \<longrightarrow> dt' = dt"
    "cleanup f = cleanup (ins ! k)" "writer nv (W @ X) (B @ X) t" "out_gz t = out_gz out" "out_done t = out_done out"
    by blast
  have "sources_at nv ks (dt' @ r) ft (ins[k := f])" using sources_update [OF Cons.prems(2) k Cons.prems(3) x(4)] x(5) by blast
  from Cons.IH [OF x(1) this Cons.prems(3) x(7)] obtain ins' out' where r: "copy_delta_region nv is (ins[k := f]) t = Some (Parsed () (ins', out'))"
    "map cleanup ins' = map cleanup (ins[k := f])" "writer nv ((W @ X) @ T') ((B @ X) @ T') out'" "out_gz out' = out_gz t" "out_done out' = out_done t"
    by blast
  have "map cleanup (ins[k := f]) = map cleanup ins" using x(6) k l by (simp add: map_update list_update_same_conv)
  moreover have "copy_delta_region nv (i # is) ins out = Some (Parsed () (ins', out'))"
    using r(1) x(3) k l by (simp add: k_def [symmetric] rbind_def)
  ultimately show ?case using r x(2, 8, 9) by auto
qed (auto simp: writer_def)

section \<open>The output is checked\<close>

text \<open>What the check of the output says, when there was something to close.\<close>

lemma close_checked:
  assumes w: "writer False W B out"
  shows "\<exists>res. check_stream_integrity False (xd_handle_close out) m5 len = Some (Parsed (len = of_nat (length W) \<and> m5 = md5_digest W) res) \<and>
     out_buf res = B \<and> out_gz res = out_gz out \<and> out_done res = out_done out"
proof -
  let ?res = "xd_handle_close out"
  have h: "fh_type out = WRITE_TYPE" "fh_in out = No_in" "\<not> in_compressed out" "\<not> reset_length_next_write out" "narrow_low out = 0"
    "narrow_high out = of_nat (length W)" "absorbed W (fh_ctx out)" "out_buf out = B"
    using w by (auto simp: writer_def)
  have f: "edsio_md5_final (fh_ctx out) = (md5_digest W, md5_zero)" by (rule md5_final_digest [OF h(7)])
  have "xd_handle_length ?res = of_nat (length W)" "xd_handle_checksum_md5 False ?res = Some (Parsed (md5_digest W) ?res)" "out_buf ?res = B"
    "out_gz ?res = out_gz out" "out_done ?res = out_done out"
    using h f by (simp_all add: xd_handle_close_def xd_handle_length_def xd_handle_checksum_md5_def)
  then show ?thesis by (auto simp: check_stream_integrity_def)
qed

section \<open>Reading a patch\<close>

text \<open>A handle that reads a plain file from position \<open>p\<close> on.\<close>

definition plain_at :: "bytes \<Rightarrow> nat \<Rightarrow> XdFileHandle \<Rightarrow> bool" where
  "plain_at P p h \<longleftrightarrow> (\<exists>f. fh_in h = Plain_in f \<and> sdata f = P \<and> spos f = p) \<and> fd_data h = P \<and> length P < 2 ^ 31 \<and> p \<le> length P \<and> current_pos h = of_nat p \<and>
     narrow_low h = 0 \<and> narrow_high h = of_nat (length P) \<and> fh_length h = of_nat (length P) \<and> \<not> in_compressed h"

lemma plain_rest: "plain_at P p h \<Longrightarrow> handle_rest h = drop p P"
  by (auto simp: plain_at_def handle_rest_def srest_def)

lemma plain_read:
  assumes "plain_at P p h" "p + n \<le> length P"
  shows "\<exists>h'. rread nv n h = Some (Parsed (take n (drop p P)) h') \<and> plain_at P (p + n) h' \<and> cleanup h' = cleanup h"
proof (cases "n = 0")
  case True
  then show ?thesis using assms by (simp add: rread_def source_next_bytes_known_def xd_handle_read_def)
next
  case False
  obtain f where f: "fh_in h = Plain_in f" "sdata f = P" "spos f = p" using assms(1) by (auto simp: plain_at_def)
  have "n \<le> length (srest f)" using f assms(2) by (simp add: srest_def)
  from fread_enough [OF this] have "fread n f = (take n (drop p P), advance n f)" using f by (simp add: srest_def)
  then show ?thesis using False f assms
    by (auto simp: rread_def source_next_bytes_known_def xd_handle_read_def in_read_def plain_at_def advance_def)
qed

lemma plain_set_pos:
  assumes "plain_at P p h" "q \<le> length P"
  shows "\<exists>h'. xd_handle_set_pos (of_nat q) h = Some h' \<and> plain_at P q h' \<and> cleanup h' = cleanup h"
proof -
  obtain f where f: "fh_in h = Plain_in f" "sdata f = P" "spos f = p" using assms(1) by (auto simp: plain_at_def)
  have P: "length P < 2 ^ 31" "p \<le> length P" using assms(1) by (auto simp: plain_at_def)
  have u: "unat (of_nat x :: u32) = x" if "x \<le> length P" for x using that P(1) by (simp add: unat_of_nat)
  have eq: "(of_nat p :: u32) = of_nat q \<longleftrightarrow> p = q" using u [OF P(2)] u [OF assms(2)] by metis
  have le: "\<not> (of_nat q :: u32) > of_nat (length P)" unfolding word_less_nat_alt using u [OF assms(2)] u [of "length P"] assms(2) by simp
  have s: "sint (of_nat q :: u32) = int q" using assms(2) P(1) by (simp add: signed_of_nat take_bit_nat_eq_self signed_take_bit_int_eq_self)
  show ?thesis
  proof (cases "p = q")
    case True
    then show ?thesis using assms(1) by (auto simp: xd_handle_set_pos_def plain_at_def)
  next
    case False
    then show ?thesis using assms f eq le s
      by (auto simp: xd_handle_set_pos_def plain_at_def fseek_set_nonneg Let_def)
  qed
qed

text \<open>What a segment gives: the bytes from its start, or what zlib makes of them; \<open>t\<close> comes first.\<close>

definition segment :: "zlib_read \<Rightarrow> bool \<Rightarrow> nat \<Rightarrow> bytes \<Rightarrow> bytes \<Rightarrow> bool" where
  "segment gunz compressed off P t \<longleftrightarrow> (\<exists>r. (if compressed then fst (gunz (drop off P)) else drop off P) = t @ r)"

text \<open>A handle whose file is known; the position matters only while no segment is chosen.\<close>

definition on_file :: "bytes \<Rightarrow> XdFileHandle \<Rightarrow> bool" where
  "on_file P h \<longleftrightarrow> fd_data h = P \<and> length P < 2 ^ 31 \<and> fh_length h = of_nat (length P) \<and> fh_in h \<noteq> No_in \<and> (\<forall>f. fh_in h = Plain_in f \<longrightarrow> sdata f = P)"

lemma plain_on_file: "plain_at P p h \<Longrightarrow> on_file P h"
  by (auto simp: plain_at_def on_file_def)

lemma on_file_of: "file_of h' = file_of h \<Longrightarrow> on_file P h \<Longrightarrow> on_file P h'"
  by (auto simp: file_of_def on_file_def split: reader.splits)

text \<open>An uncompressed segment needs a plain stream at the position the handle believes it has.\<close>

definition in_step :: "XdFileHandle \<Rightarrow> bool" where
  "in_step h \<longleftrightarrow> (\<exists>f. fh_in h = Plain_in f \<and> spos f \<le> length (sdata f) \<and> current_pos h = of_nat (spos f))"

lemma plain_in_step: "plain_at P p h \<Longrightarrow> in_step h"
  by (auto simp: plain_at_def in_step_def)

lemma in_step_of: "file_of h' = file_of h \<Longrightarrow> in_step h \<Longrightarrow> in_step h'"
  by (auto simp: file_of_def in_step_def split: reader.splits)

lemma narrow_ok:
  assumes h: "on_file P h" and b: "low \<le> high" "high \<le> length P" and plain: "\<not> compressed \<longrightarrow> in_step h" and t: "segment gunz compressed low P t"
  shows "\<exists>h' r. xd_handle_narrow gunz (of_nat low) (of_nat high) compressed h = Some h' \<and> handle_rest h' = t @ r \<and> on_file P h' \<and> cleanup h' = cleanup h \<and>
     (\<not> compressed \<longrightarrow> in_step h')"
proof -
  have P: "length P < 2 ^ 31" "fh_length h = of_nat (length P)" "fd_data h = P" using h by (auto simp: on_file_def)
  have u: "unat (of_nat x :: u32) = x" if "x \<le> length P" for x using that P(1) by (simp add: unat_of_nat)
  have hi: "\<not> (of_nat high :: u32) > of_nat (length P)" unfolding word_less_nat_alt using u [OF b(2)] u [of "length P"] b(2) by simp
  have low: "low \<le> length P" using b by simp
  have s: "sint (of_nat low :: u32) = int low" using low P(1) by (simp add: signed_of_nat take_bit_nat_eq_self signed_take_bit_int_eq_self)
  have lh: "\<not> (of_nat low :: u32) > of_nat high" unfolding word_less_nat_alt using u [OF b(2)] u [OF low] b(1) by simp
  show ?thesis
  proof (cases compressed)
    case True
    then show ?thesis using t h P hi s u [OF low]
      by (auto simp: xd_handle_narrow_def segment_def handle_rest_def on_file_def Let_def)
  next
    case False
    then obtain f where f: "fh_in h = Plain_in f" "spos f \<le> length (sdata f)" "current_pos h = of_nat (spos f)" using plain by (auto simp: in_step_def)
    have d: "sdata f = P" using h f(1) by (auto simp: on_file_def)
    obtain r where r: "drop low P = t @ r" using t False by (auto simp: segment_def)
    let ?h = "h\<lparr>narrow_low := of_nat low, narrow_high := of_nat high, fh_ctx := edsio_md5_init (fh_ctx h)\<rparr>"
    show ?thesis
    proof (cases "spos f = low")
      case True
      then have "xd_handle_narrow gunz (of_nat low) (of_nat high) compressed h = Some ?h"
        using False P hi f by (simp add: xd_handle_narrow_def xd_handle_set_pos_def)
      then show ?thesis using f d r True h P by (auto simp: handle_rest_def srest_def on_file_def in_step_def)
    next
      case neq: False
      have "unat (of_nat (spos f) :: u32) = spos f" using u [of "spos f"] f(2) d by simp
      then have "current_pos h \<noteq> of_nat low" using neq f(3) u [OF low] by metis
      then have "xd_handle_narrow gunz (of_nat low) (of_nat high) compressed h =
          Some (?h\<lparr>current_pos := of_nat low, fh_in := Plain_in (f\<lparr>spos := low, seof := False\<rparr>)\<rparr>)"
        using False P hi lh f s by (simp add: xd_handle_narrow_def xd_handle_set_pos_def fseek_set_nonneg Let_def)
      then show ?thesis using d r h P low by (simp add: handle_rest_def srest_def on_file_def in_step_def)
    qed
  qed
qed

section \<open>The format of a patch\<close>

definition header_end :: "bytes \<Rightarrow> bytes \<Rightarrow> nat" where
  "header_end fn tn = 32 + length fn + length tn"

definition xd1_header :: "u32 \<Rightarrow> bytes \<Rightarrow> bytes \<Rightarrow> bytes" where
  "xd1_header flags fn tn = be_bytes 4 (unat flags) @ be_bytes 4 (length fn * 2 ^ 16 + length tn) @ replicate 16 0"

definition xd1_file :: "u32 \<Rightarrow> bytes \<Rightarrow> bytes \<Rightarrow> bytes \<Rightarrow> bytes \<Rightarrow> bytes" where
  "xd1_file flags fn tn dseg cseg =
     XDELTA_110_PREFIX @ xd1_header flags fn tn @ fn @ tn @ dseg @ cseg @ be_bytes 4 (header_end fn tn + length dseg) @ XDELTA_110_PREFIX"

lemma name_lengths:
  assumes "a < 2 ^ 15" "b < 2 ^ 15"
  defines "w \<equiv> (of_nat (a * 2 ^ 16 + b) :: u32)"
  shows "sint (ucast (drop_bit 16 w) :: u16) = int a" "sint (ucast w :: u16) = int b"
proof -
  have small: "a * 2 ^ 16 + b < 2 ^ 32" using assms by simp
  then have w: "unat w = a * 2 ^ 16 + b" unfolding w_def by (intro unat_word_of_nat_id) simp
  have s: "sint (of_nat n :: u16) = int n" if "n < 2 ^ 15" for n
    using that by (simp add: signed_of_nat take_bit_nat_eq_self signed_take_bit_int_eq_self)
  have "unat (drop_bit 16 w) = a" unfolding unat_drop_bit w using assms(2) by simp
  then have "(ucast (drop_bit 16 w) :: u16) = of_nat a" by (metis of_nat_unat)
  then show "sint (ucast (drop_bit 16 w) :: u16) = int a" using s assms(1) by simp
  have "(ucast w :: u16) = of_nat (a * 2 ^ 16 + b)" using w by (metis of_nat_unat)
  also have "\<dots> = of_nat b" unfolding word_of_nat_eq_iff take_bit_eq_mod by simp
  finally show "sint (ucast w :: u16) = int b" using s assms(2) by simp
qed

lemma xd1_layout:
  assumes P: "P = xd1_file flags fn tn dseg cseg"
  shows "length P = header_end fn tn + length dseg + length cseg + 12" "take 8 (drop 0 P) = XDELTA_110_PREFIX" "take 24 (drop 8 P) = xd1_header flags fn tn"
    "take 4 (drop (length P - 12) P) = be_bytes 4 (header_end fn tn + length dseg)" "take 8 (drop (length P - 8) P) = XDELTA_110_PREFIX"
proof -
  have l: "length XDELTA_110_PREFIX = 8" "length (xd1_header flags fn tn) = 24" by (simp_all add: XDELTA_110_PREFIX_def ascii_def xd1_header_def)
  show len: "length P = header_end fn tn + length dseg + length cseg + 12" unfolding P xd1_file_def header_end_def using l by simp
  show "take 8 (drop 0 P) = XDELTA_110_PREFIX" "take 24 (drop 8 P) = xd1_header flags fn tn" unfolding P xd1_file_def using l by simp_all
  have e: "P = (XDELTA_110_PREFIX @ xd1_header flags fn tn @ fn @ tn @ dseg @ cseg) @ be_bytes 4 (header_end fn tn + length dseg) @ XDELTA_110_PREFIX"
    by (simp add: P xd1_file_def)
  have "length P - 12 = length (XDELTA_110_PREFIX @ xd1_header flags fn tn @ fn @ tn @ dseg @ cseg)"
    unfolding len header_end_def using l by simp
  then have d: "drop (length P - 12) P = be_bytes 4 (header_end fn tn + length dseg) @ XDELTA_110_PREFIX"
    by (subst (2) e) simp
  then show "take 4 (drop (length P - 12) P) = be_bytes 4 (header_end fn tn + length dseg)" by simp
  have "drop (length P - 8) P = drop 4 (drop (length P - 12) P)" unfolding drop_drop len by (simp add: add.commute)
  then show "take 8 (drop (length P - 8) P) = XDELTA_110_PREFIX" using d l by simp
qed

lemma read_delta_ok:
  assumes P: "P = xd1_file flags fn tn dseg cseg" and names: "length fn < 2 ^ 15" "length tn < 2 ^ 15"
    and h: "plain_at P 0 h"
    and c: "writable_control c" "segment gunz (bit flags 3) (header_end fn tn + length dseg) P (control_segment c)"
    and dt: "segment gunz (bit flags 3) (header_end fn tn) P dt"
    and src: "which_sources (source_info c) = Some (d, f)"
  shows "\<exists>p r. read_delta gunz nv0 h = Some (Parsed p ()) \<and> patch_flags p = flags \<and> data_source p = d \<and> from_source p = f \<and>
     handle_rest (patch_in p) = dt @ r \<and> fh_in (patch_in p) \<noteq> No_in \<and> cleanup (patch_in p) = cleanup h \<and>
     map key (inst (cont p)) = map key (inst c) \<and> map reset_info (source_info (cont p)) = map reset_info (source_info c) \<and>
     to_md5 (cont p) = to_md5 c \<and> to_len (cont p) = to_len c"
proof -
  define H where "H = header_end fn tn"
  define C where "C = H + length dseg"
  note lay = xd1_layout [OF P, folded H_def, folded C_def]
  let ?nv = "bit flags 0" and ?z = "bit flags 3"
  have len: "length P < 2 ^ 31" using h by (simp add: plain_at_def)
  have HP: "H = 32 + length fn + length tn" by (simp add: H_def header_end_def)
  have bounds: "H \<le> C" "C \<le> length P - 12" "32 \<le> H" "12 \<le> length P" "H + 12 \<le> length P" using lay(1) HP by (simp_all add: C_def)
  obtain h1 where h1: "rread nv0 8 h = Some (Parsed XDELTA_110_PREFIX h1)" "plain_at P 8 h1" "cleanup h1 = cleanup h"
    using plain_read [OF h, of 8 nv0] lay(2) bounds by auto
  obtain h2 where h2: "rread nv0 24 h1 = Some (Parsed (xd1_header flags fn tn) h2)" "plain_at P 32 h2" "cleanup h2 = cleanup h"
    using plain_read [OF h1(2), of 24 nv0] lay(3) bounds h1(3) by auto
  obtain h3 b3 where h3: "rread ?nv (length fn) h2 = Some (Parsed b3 h3)" "plain_at P (32 + length fn) h3" "cleanup h3 = cleanup h"
    using plain_read [OF h2(2), of "length fn" ?nv] bounds HP h2(3) by auto
  obtain h4 b4 where h4: "rread ?nv (length tn) h3 = Some (Parsed b4 h4)" "plain_at P H h4" "cleanup h4 = cleanup h"
    using plain_read [OF h3(2), of "length tn" ?nv] bounds HP h3(3) by auto
  obtain h5 where h5: "xd_handle_set_pos (of_nat (length P - 12)) h4 = Some h5" "plain_at P (length P - 12) h5" "cleanup h5 = cleanup h"
    using plain_set_pos [OF h4(2), of "length P - 12"] h4(3) by auto
  obtain h6 where h6: "rread ?nv 4 h5 = Some (Parsed (be_bytes 4 C) h6)" "plain_at P (length P - 8) h6" "cleanup h6 = cleanup h"
    using plain_read [OF h5(2), of 4 ?nv] bounds h5(3) lay(4) by auto
  obtain h7 where h7: "rread ?nv 8 h6 = Some (Parsed XDELTA_110_PREFIX h7)" "plain_at P (length P) h7" "cleanup h7 = cleanup h"
    using plain_read [OF h6(2), of 8 ?nv] bounds h6(3) lay(5) by auto
  obtain h8 r8 where h8: "xd_handle_narrow gunz (of_nat C) (of_nat (length P - 12)) ?z h7 = Some h8" "handle_rest h8 = control_segment c @ r8" "on_file P h8"
    "cleanup h8 = cleanup h" "\<not> ?z \<longrightarrow> in_step h8"
    using narrow_ok [OF plain_on_file [OF h7(2)] bounds(2) _ _ c(2) [folded H_def C_def]] plain_in_step [OF h7(2)] h7(3) by auto
  obtain e h9 where h9: "xdp_control_read ?nv h8 = Some (Parsed e h9)" "file_of h9 = file_of h8" "unpack_instructions c = Some e"
    "map key (inst e) = map key (inst c)" "map reset_info (source_info e) = map reset_info (source_info c)"
    using control_reads [OF c(1) h8(2), of ?nv] by blast
  have c9: "cleanup h9 = cleanup h" using h9(2) h8(4) by (simp add: file_of_def)
  have HC: "H \<le> C" "C \<le> length P" using bounds by simp_all
  obtain h10 r where h10: "xd_handle_narrow gunz (of_nat H) (of_nat C) ?z h9 = Some h10" "handle_rest h10 = dt @ r" "on_file P h10" "cleanup h10 = cleanup h"
    using narrow_ok [OF on_file_of [OF h9(2) h8(3)] HC _ dt [folded H_def]] in_step_of [OF h9(2)] h8(5) c9 by auto
  have fl: "(of_nat (be_val (take 4 (xd1_header flags fn tn))) :: u32) = flags"
    using unat_bound [of flags] by (simp add: xd1_header_def codec_simps)
  have small: "length fn * 2 ^ 16 + length tn < 256 ^ 4" using names by simp
  have ln: "(of_nat (be_val (take 4 (drop 4 (xd1_header flags fn tn)))) :: u32) = of_nat (length fn * 2 ^ 16 + length tn)"
    using small by (simp add: xd1_header_def codec_simps)
  have cb: "be_val (be_bytes 4 C) = C" using bounds(2) len by (intro codec_simps) simp
  have pos: "xd_handle_get_pos h4 = of_nat H" "xd_handle_length h4 = of_nat (length P)"
    using h4(2) by (auto simp: plain_at_def xd_handle_get_pos_def xd_handle_length_def)
  have end_offset: "(of_nat (length P) - 12 :: u32) = of_nat (length P - 12)" using bounds(4) by simp
  have w: "which_sources (source_info e) = Some (d, f)"
  proof -
    have "length (source_info e) = length (source_info c)" using h9(5) by (metis length_map)
    moreover have "source_info e \<noteq> [] \<Longrightarrow> isdata (source_info e ! 0) = isdata (source_info c ! 0)"
      using h9(5) by (metis fields_reset(4) length_greater_0_conv length_map nth_map)
    ultimately show ?thesis using src by (auto simp: which_sources_def split: if_splits)
  qed
  have "to_md5 e = to_md5 c" "to_len e = to_len c" using h9(3) by (auto simp: unpack_instructions_def)
  then show ?thesis
    using h10 h9 name_lengths [OF names]
    by (simp add: read_delta_def rbind_def lift_opt_def XDELTA_PREFIX_LEN_def HEADER_SPACE_def FLAG_NO_VERIFY_def FLAG_PATCH_COMPRESSED_def
      h1(1) h2(1) h3(1) h4(1) h5(1) h6(1) h7(1) h8(1) h9(1) h10(1) fl ln cb pos end_offset w Let_def on_file_def)
qed

section \<open>The whole command\<close>

lemma open_read_noseek:
  assumes d: "content fs name = Some d" and ok: "gzipped d \<longrightarrow> snd (gunz d)" "gzipped d \<longrightarrow> writable fs (tmpname fs)" and small: "length (file_text gunz d) < 2 ^ 31"
  shows "\<exists>h. open_read_noseek_handle gunz tmpname name True fs = Ret (Some (h, gzipped d), if gzipped d then put_file (tmpname fs) (fst (gunz d)) fs else fs) \<and>
    plain_at (file_text gunz d) 0 h \<and> cleanup h = (if gzipped d then Some (tmpname fs) else None)"
proof -
  let ?D = "file_text gunz d"
  let ?h = "handle_new0\<lparr>fd_data := ?D, fh_length := of_nat (length ?D), narrow_high := of_nat (length ?D), fh_type := READ_NOSEEK_TYPE,
    fh_ctx := edsio_md5_init md5_zero, cleanup := (if gzipped d then Some (tmpname fs) else None), fh_in := Plain_in (sopen ?D)\<rparr>"
  have c: "fh_ctx handle_new0 = md5_zero" by (simp add: handle_new0_def)
  have z: "file_gzipped name fs = Some (gzipped d)" using d by (simp add: file_gzipped_def gzipped_def)
  have "open_read_noseek_handle gunz tmpname name True fs = Ret (Some (?h, gzipped d), if gzipped d then put_file (tmpname fs) (fst (gunz d)) fs else fs)"
    using d ok by (cases "gunz d"; cases "gzipped d")
      (simp_all add: open_read_noseek_handle_def z file_gunzip_def open_common_def file_text_def stdio_simps c Let_def)
  moreover have "plain_at ?D 0 ?h" using small by (simp add: plain_at_def handle_new0_def stdio_simps sopen_def)
  ultimately show ?thesis by (intro exI [of _ ?h]) (simp add: handle_new0_def)
qed

text \<open>A patch: header, names, data and control, either plain or compressed, and the place of the control.\<close>

definition xd1_patch :: "zlib_read \<Rightarrow> bytes \<Rightarrow> u32 \<Rightarrow> XdeltaControl \<Rightarrow> bytes \<Rightarrow> bool" where
  "xd1_patch gunz P flags c dt \<longleftrightarrow> length P < 2 ^ 31 \<and> writable_control c \<and>
     (\<exists>fn tn dseg cseg. P = xd1_file flags fn tn dseg cseg \<and> length fn < 2 ^ 15 \<and> length tn < 2 ^ 15 \<and>
        segment gunz (bit flags FLAG_PATCH_COMPRESSED) (header_end fn tn) P dt \<and>
        segment gunz (bit flags FLAG_PATCH_COMPRESSED) (header_end fn tn + length dseg) P (control_segment c))"

definition source_kinds :: "nat option \<times> nat option \<Rightarrow> bool list" where
  "source_kinds df = (if fst df = None then [] else [True]) @ (if snd df = None then [] else [False])"

definition fresh_names :: "(fsys \<Rightarrow> string) \<Rightarrow> bool" where
  "fresh_names tmpname \<longleftrightarrow> (\<forall>fs. finite (dom (content fs)) \<longrightarrow> content fs (tmpname fs) = None)"

text \<open>The files \<^verbatim>\<open>xd_tmpname\<close> names can be written.\<close>

definition temp_writable :: "(fsys \<Rightarrow> string) \<Rightarrow> fsys \<Rightarrow> bool" where
  "temp_writable tmpname fs \<longleftrightarrow> (\<forall>g. writable g = writable fs \<longrightarrow> writable fs (tmpname g))"

lemma process_patch_ok:
  assumes "content fs name = Some pd" "gzipped pd \<longrightarrow> snd (gunz pd)" "gzipped pd \<longrightarrow> writable fs (tmpname fs)" "xd1_patch gunz (file_text gunz pd) flags c dt" "which_sources (source_info c) = Some (d, f)"
  shows "\<exists>p r. process_patch gunz tmpname nv0 name fs = (Some (Parsed p ()), if gzipped pd then put_file (tmpname fs) (fst (gunz pd)) fs else fs) \<and>
     patch_flags p = flags \<and> data_source p = d \<and> from_source p = f \<and>
     handle_rest (patch_in p) = dt @ r \<and> fh_in (patch_in p) \<noteq> No_in \<and> cleanup (patch_in p) = (if gzipped pd then Some (tmpname fs) else None) \<and>
     map key (inst (cont p)) = map key (inst c) \<and> map reset_info (source_info (cont p)) = map reset_info (source_info c) \<and>
     to_md5 (cont p) = to_md5 c \<and> to_len (cont p) = to_len c"
proof -
  let ?P = "file_text gunz pd"
  obtain fn tn dseg cseg where P: "?P = xd1_file flags fn tn dseg cseg" "length fn < 2 ^ 15" "length tn < 2 ^ 15" "length ?P < 2 ^ 31" "writable_control c"
    "segment gunz (bit flags 3) (header_end fn tn) ?P dt" "segment gunz (bit flags 3) (header_end fn tn + length dseg) ?P (control_segment c)"
    using assms(4) unfolding xd1_patch_def FLAG_PATCH_COMPRESSED_def by blast
  obtain h where h: "open_read_noseek_handle gunz tmpname name True fs = Ret (Some (h, gzipped pd), if gzipped pd then put_file (tmpname fs) (fst (gunz pd)) fs else fs)"
    "plain_at ?P 0 h" "cleanup h = (if gzipped pd then Some (tmpname fs) else None)"
    using open_read_noseek [of fs name pd gunz tmpname, OF assms(1-3) P(4)] by blast
  show ?thesis
    using read_delta_ok [OF P(1, 2, 3) h(2) P(5, 7, 6) assms(5), of nv0] h(1, 3) unfolding process_patch_def by fastforce
qed

lemma assemble_key: "map key is = map key is' \<Longrightarrow> assemble ks dt ft is = assemble ks dt ft is'"
proof (induction "is" arbitrary: is' dt)
  case (Cons i "is")
  then obtain i' js where js: "is' = i' # js" "key i = key i'" "map key is = map key js" by (cases is') auto
  then have e: "i_index i = i_index i'" "i_offset i = i_offset i'" "i_length i = i_length i'" by (simp_all add: key_def)
  show ?case using Cons.IH [OF js(3)] by (simp add: js(1) e Let_def)
qed simp

lemma apply_and_close_ok:
  assumes p: "\<not> bit (patch_flags p) FLAG_NO_VERIFY" "to_md5 (cont p) = md5_digest T" "to_len (cont p) = of_nat (length T)"
    and ins: "sources_at False ks (dt @ r) ft ins" "one_stream ks" "assemble ks dt ft (inst (cont p)) = Some T" and w: "writer False [] [] out" "out_done out = []"
    and k: "\<forall>k. from_source p = Some k \<longrightarrow> k < length ins" and name: "to_name \<noteq> ''-''"
    and fs': "fs' = put_file to_name (if out_gz out then gzip (-1) T else T) fs"
  shows "apply_and_close gzip left to_name p ins out fs =
    Some (Returned 0 (xd_read_close (patch_in p) (case from_source p of None \<Rightarrow> fs' | Some k \<Rightarrow> xd_read_close (ins ! k) fs'), []))"
proof -
  obtain ins' out' where c: "copy_delta_region False (inst (cont p)) ins out = Some (Parsed () (ins', out'))" "map cleanup ins' = map cleanup ins"
    "writer False T T out'" "out_gz out' = out_gz out" "out_done out' = []"
    using copy_delta_region_ok [OF ins(3, 1, 2) w(1)] w(2) by auto
  obtain res where res: "check_stream_integrity False (xd_handle_close out') (to_md5 (cont p)) (to_len (cont p)) = Some (Parsed True res)"
    "out_buf res = T" "out_gz res = out_gz out" "out_done res = []"
    using close_checked [OF c(3), of "to_md5 (cont p)" "to_len (cont p)"] p(2, 3) c(4, 5) by auto
  have a: "xdp_apply_delta False (cont p) ins out = Some (Parsed () (ins', res))" using c(1) res(1) by (simp add: xdp_apply_delta_def rbind_def)
  have "cleanup (ins' ! k) = cleanup (ins ! k)" if "from_source p = Some k" for k
    using c(2) assms(9) that by (metis length_map nth_map)
  then have "xd_read_close (ins' ! k) fs' = xd_read_close (ins ! k) fs'" if "from_source p = Some k" for k
    using that by (simp add: xd_read_close_def)
  moreover have "xd_handle_really_close gzip (-1) res = (if out_gz out then gzip (-1) T else T)"
    using res by (simp add: xd_handle_really_close_def out_close_def)
  ultimately show ?thesis using p(1) a name by (cases "from_source p") (simp_all add: apply_and_close_def deliver_def fs' Let_def)
qed

lemma kinds_of:
  assumes "which_sources infos = Some (d, f)"
  shows "one_stream (source_kinds (d, f))" "f \<noteq> None \<Longrightarrow> f = Some (length (source_kinds (d, f)) - 1)" "f \<noteq> None \<longleftrightarrow> False \<in> set (source_kinds (d, f))"
  using assms by (auto simp: which_sources_def source_kinds_def one_stream_def less_Suc_eq split: if_splits)

text \<open>The output handle at the start.\<close>

definition output_handle :: "zlib_write \<Rightarrow> bool \<Rightarrow> XdFileHandle" where
  "output_handle gzip z = (if z then snd (xd_begin_compression gzip (-1) open_write_handle) else open_write_handle)"

lemma output_handle: "writer False [] [] (output_handle gzip z)" "out_gz (output_handle gzip z) = z" "out_done (output_handle gzip z) = []"
  using writer_new [of False]
  by (simp_all add: output_handle_def xd_begin_compression_def out_close_def writer_def Let_def) (simp_all add: open_write_handle_def handle_new0_def)

lemma patch_runs:
  assumes patch: "content fs patch = Some pd" "gzipped pd \<longrightarrow> snd (gunz pd)" "xd1_patch gunz (file_text gunz pd) flags c dt" "\<not> bit flags FLAG_NO_VERIFY"
    and src: "which_sources (source_info c) = Some (d, f)"
    and rom: "content fs rom = Some rd" "gzipped rd \<longrightarrow> snd (gunz rd)" "length (file_text gunz rd) < 2 ^ 31"
      "\<forall>k. f = Some k \<longrightarrow> si_len (source_info c ! k) = of_nat (length (file_text gunz rd))"
    and target: "assemble (source_kinds (d, f)) dt (file_text gunz rd) (inst c) = Some T" "to_len c = of_nat (length T)" "to_md5 c = md5_digest T"
    and paths: "writable fs out" "out \<noteq> rom" "out \<noteq> patch" "finite (dom (content fs))" "fresh_names tmpname" "tmpname fs \<noteq> out"
      "out \<noteq> ''-''" "\<not> is_option patch" "gzipped pd \<or> gzipped rd \<longrightarrow> temp_writable tmpname fs"
  shows "\<exists>fs'. xdelta1PatchRom as_option gunz gzip tmpname seekable left nv0 rom patch out fs = Some (Returned 0 (fs', [])) \<and>
    content fs' = (content fs)(out \<mapsto> if bit flags FLAG_TO_COMPRESSED then gzip (-1) T else T)"
proof -
  have tmp: "gzipped pd \<longrightarrow> writable fs (tmpname fs)" "gzipped rd \<longrightarrow> (\<forall>g. writable g = writable fs \<longrightarrow> writable fs (tmpname g))"
    using paths(9) by (auto simp: temp_writable_def)
  define fs1 where "fs1 = (if gzipped pd then put_file (tmpname fs) (fst (gunz pd)) fs else fs)"
  define fs2 where "fs2 = put_file out [] fs1"
  define to_out where "to_out = output_handle gzip (bit flags FLAG_TO_COMPRESSED)"
  obtain p r where p: "process_patch gunz tmpname nv0 patch fs = (Some (Parsed p ()), fs1)" "patch_flags p = flags" "data_source p = d" "from_source p = f"
    "handle_rest (patch_in p) = dt @ r" "fh_in (patch_in p) \<noteq> No_in" "cleanup (patch_in p) = (if gzipped pd then Some (tmpname fs) else None)"
    "map key (inst (cont p)) = map key (inst c)" "map reset_info (source_info (cont p)) = map reset_info (source_info c)"
    "to_md5 (cont p) = to_md5 c" "to_len (cont p) = to_len c"
    using process_patch_ok [of fs patch pd gunz tmpname, OF patch(1, 2) tmp(1) patch(3) src, of nv0] unfolding fs1_def by auto
  have fresh: "content fs (tmpname fs) = None" using paths(4, 5) by (simp add: fresh_names_def)
  then have names: "tmpname fs \<noteq> patch" "tmpname fs \<noteq> rom" using patch(1) rom(1) by auto
  have w1: "writable fs1 out" using paths(1) by (simp add: fs1_def stdio_simps)
  have rom2: "content fs2 rom = Some rd" using rom(1) paths(2) names by (simp add: fs2_def fs1_def stdio_simps)
  have own: "out \<noteq> patch_file patch p" using paths(3, 6) p(7) by (simp add: patch_file_def)
  have fin: "finite (dom (content fs2))" using paths(4) by (simp add: fs2_def fs1_def put_file_def)
  then have fresh2: "content fs2 (tmpname fs2) = None" using paths(5) by (simp add: fresh_names_def)
  then have out2: "tmpname fs2 \<noteq> out" by (auto simp: fs2_def stdio_simps)
  have "writable fs2 = writable fs" by (simp add: fs2_def fs1_def stdio_simps)
  then have tmp2: "gzipped rd \<longrightarrow> writable fs2 (tmpname fs2)" using tmp(2) by auto
  have asm: "assemble (source_kinds (d, f)) dt (file_text gunz rd) (inst (cont p)) = Some T" using target(1) assemble_key [OF p(8)] by metis
  have out: "writer False [] [] to_out" "out_done to_out = []" "out_gz to_out = bit flags FLAG_TO_COMPRESSED" by (simp_all add: to_out_def output_handle)
  have to: "(if bit (patch_flags p) FLAG_TO_COMPRESSED then snd (xd_begin_compression gzip (-1) open_write_handle) else open_write_handle) = to_out"
    by (simp add: to_out_def output_handle_def p(2))
  define data where "data = (case d of None \<Rightarrow> [] | Some _ \<Rightarrow> [patch_in p])"
  have data: "list_all2 (source_at False (dt @ r) ft) (if d = None then [] else [True]) data" for ft
    using p(5, 6) by (cases d) (simp_all add: data_def source_at_def)
  have nv: "\<not> bit (patch_flags p) FLAG_NO_VERIFY" using patch(4) p(2) by simp
  have tgt: "to_md5 (cont p) = md5_digest T" "to_len (cont p) = of_nat (length T)" using p(10, 11) target by simp_all
  let ?res = "if bit flags FLAG_TO_COMPRESSED then gzip (-1) T else T"
  show ?thesis
  proof (cases f)
    case None
    have "sources_at False (source_kinds (d, f)) (dt @ r) (file_text gunz rd) data" using data None by (simp add: sources_at_def source_kinds_def)
    from apply_and_close_ok [OF nv tgt this kinds_of(1) [OF src] asm out(1, 2) _ paths(7) refl, of gzip left fs2]
    have "apply_and_close gzip left out p data to_out fs2 = Some (Returned 0 (xd_read_close (patch_in p) (put_file out ?res fs2), []))"
      using p(4) None out(3) by simp
    then have "xdelta1PatchRom as_option gunz gzip tmpname seekable left nv0 rom patch out fs = Some (Returned 0 (xd_read_close (patch_in p) (put_file out ?res fs2), []))"
      using p(1, 3, 4) w1 None to paths(7, 8) own by (simp add: xdelta1PatchRom_def patch_command_def fs2_def [symmetric] data_def Let_def)
    moreover have "content (xd_read_close (patch_in p) (put_file out ?res fs2)) = (content fs)(out \<mapsto> ?res)"
      using p(7) fresh paths(6) by (auto simp: xd_read_close_def fs2_def fs1_def put_file_def unlink_def fun_eq_iff)
    ultimately show ?thesis by blast
  next
    case (Some k)
    define fs3 where "fs3 = (if gzipped rd then put_file (tmpname fs2) (fst (gunz rd)) fs2 else fs2)"
    obtain h where h: "open_read_seek_handle gunz tmpname rom fs2 = Ret (Some (h, gzipped rd), fs3)" "page_inv False (file_text gunz rd) (\<lambda>_. 0) h"
      "cleanup h = (if gzipped rd then Some (tmpname fs2) else None)" "copy_page h = None" "xd_handle_length h = of_nat (length (file_text gunz rd))"
      using open_read_seek [of fs2 rom rd gunz tmpname False, OF rom2 rom(2) tmp2 rom(3)] unfolding fs3_def by blast
    have srcs: "sources_at False (source_kinds (d, f)) (dt @ r) (file_text gunz rd) (data @ [h])"
    proof -
      have "list_all2 (source_at False (dt @ r) (file_text gunz rd)) [False] [h]" using h(2, 4) by (simp add: source_at_def)
      then show ?thesis unfolding sources_at_def source_kinds_def using list_all2_appendI [OF data] Some by simp
    qed
    have len: "length (data @ [h]) = length (source_kinds (d, f))" using srcs by (simp add: sources_at_def list_all2_lengthD)
    have k: "k = length data" using kinds_of(2) [OF src] Some len by simp
    have k2: "k < length (source_info c)" using src Some by (auto simp: which_sources_def split: if_splits)
    have "length (source_info (cont p)) = length (source_info c)" using p(9) by (metis length_map)
    then have "si_len (source_info (cont p) ! k) = si_len (source_info c ! k)" using k2 p(9) by (metis fields_reset(3) nth_map)
    then have sl: "si_len (source_info (cont p) ! k) = of_nat (length (file_text gunz rd))" using rom(4) Some by simp
    from apply_and_close_ok [OF nv tgt srcs kinds_of(1) [OF src] asm out(1, 2) _ paths(7) refl, of gzip left fs3]
    have "apply_and_close gzip left out p (data @ [h]) to_out fs3 =
        Some (Returned 0 (xd_read_close (patch_in p) (xd_read_close h (put_file out ?res fs3)), []))"
      using p(4) Some out(3) k by simp
    then have "xdelta1PatchRom as_option gunz gzip tmpname seekable left nv0 rom patch out fs =
        Some (Returned 0 (xd_read_close (patch_in p) (xd_read_close h (put_file out ?res fs3)), []))"
      using p(1, 3, 4) w1 Some to h(1, 5) sl paths(7, 8) own by (simp add: xdelta1PatchRom_def patch_command_def fs2_def [symmetric] data_def Let_def)
    moreover have "content (xd_read_close (patch_in p) (xd_read_close h (put_file out ?res fs3))) = (content fs)(out \<mapsto> ?res)"
    proof -
      have "content (xd_read_close h (put_file out ?res fs3)) = (content fs2)(out \<mapsto> ?res)"
        using h(3) fresh2 out2 by (auto simp: xd_read_close_def fs3_def put_file_def unlink_def fun_eq_iff)
      moreover have "content (xd_read_close (patch_in p) g) = (content fs)(out \<mapsto> ?res)" if "content g = (content fs2)(out \<mapsto> ?res)" for g
        using that p(7) fresh paths(6) by (auto simp: xd_read_close_def fs2_def fs1_def put_file_def unlink_def fun_eq_iff)
      ultimately show ?thesis by blast
    qed
    ultimately show ?thesis by blast
  qed
qed

text \<open>C2: A well-formed patch, plain or compressed, of a file that may be compressed itself: zero is returned, the output file has the text the instructions
  assemble from the old file and the data of the patch, compressed when the patch says so, no other file has changed and nothing is printed.  The three
  names are different, the output is not the standard output, and temporary files can be written when something is compressed.\<close>

theorem xdelta1_patch:
  assumes patch: "content fs patch = Some pd" "gzipped pd \<longrightarrow> snd (gunz pd)" "xd1_patch gunz (file_text gunz pd) flags c dt" "\<not> bit flags FLAG_NO_VERIFY"
    and src: "which_sources (source_info c) = Some (d, f)"
    and rom: "content fs rom = Some rd" "gzipped rd \<longrightarrow> snd (gunz rd)" "length (file_text gunz rd) < 2 ^ 31"
      "\<forall>k. f = Some k \<longrightarrow> si_len (source_info c ! k) = of_nat (length (file_text gunz rd))"
    and target: "assemble (source_kinds (d, f)) dt (file_text gunz rd) (inst c) = Some T" "to_len c = of_nat (length T)" "to_md5 c = md5_digest T"
    and paths: "writable fs out" "out \<noteq> rom" "out \<noteq> patch" "finite (dom (content fs))" "fresh_names tmpname" "tmpname fs \<noteq> out"
      "out \<noteq> ''-''" "\<not> is_option patch" "gzipped pd \<or> gzipped rd \<longrightarrow> temp_writable tmpname fs"
  shows "\<exists>fs'. xdelta1PatchRom as_option gunz gzip tmpname seekable left nv0 rom patch out fs = Some (Returned 0 (fs', [])) \<and>
    content fs' = (content fs)(out \<mapsto> if bit flags FLAG_TO_COMPRESSED then gzip (-1) T else T)"
  by (rule patch_runs [OF assms])

lemma example_segment: "length (control_segment example_control) < 1000"
  by (simp add: control_segment_def example_control_def pack_instructions_def reset_control_def reset_info_def reset_inst_def info_new0_def Let_def
    type_bytes_def control_bytes_def array_bytes_def source_info_bytes_def instruction_bytes_def string_bytes_def bool_bytes_def uint_bytes.simps)

definition example_patch :: bytes where
  "example_patch = xd1_file 0 [111] [110] [97, 99] (control_segment example_control)"

lemma example_xd1_patch: "xd1_patch no_zlib example_patch 0 example_control [97, 99]"
proof -
  let ?c = "control_segment example_control"
  have l: "length XDELTA_110_PREFIX = 8" "length (xd1_header 0 [111] [110]) = 24" by (simp_all add: XDELTA_110_PREFIX_def ascii_def xd1_header_def)
  have d: "drop 34 example_patch = [97, 99] @ ?c @ be_bytes 4 36 @ XDELTA_110_PREFIX" "drop 36 example_patch = ?c @ be_bytes 4 36 @ XDELTA_110_PREFIX"
    unfolding example_patch_def xd1_file_def header_end_def using l by simp_all
  have "length example_patch < 2 ^ 31" unfolding example_patch_def xd1_file_def using l example_segment by simp
  moreover have "segment no_zlib False 34 example_patch [97, 99]" "segment no_zlib False 36 example_patch ?c"
    unfolding segment_def using d by simp_all
  ultimately show ?thesis
    unfolding xd1_patch_def using example_writable
    by (intro conjI exI [of _ "[111]"] exI [of _ "[110]"] exI [of _ "[97, 99]"] exI [of _ ?c]) (simp_all add: example_patch_def header_end_def)
qed

definition long_name :: "fsys \<Rightarrow> string" where
  "long_name fs = replicate (Suc (Max (insert 0 (length ` dom (content fs))))) CHR ''x''"

lemma fresh_long_name: "fresh_names long_name"
  unfolding fresh_names_def
proof (intro allI impI, rule ccontr)
  fix fs assume f: "finite (dom (content fs))" and "content fs (long_name fs) \<noteq> None"
  then have "length (long_name fs) \<in> insert 0 (length ` dom (content fs))" by blast
  then have "length (long_name fs) \<le> Max (insert 0 (length ` dom (content fs)))" using f by (intro Max_ge) simp_all
  then show False by (simp add: long_name_def)
qed

definition example_files :: fsys where
  "example_files = \<lparr>content = [''rom'' \<mapsto> [97, 98, 99], ''patch'' \<mapsto> example_patch], writable = (\<lambda>_. True)\<rparr>"

lemma example_patch_text: "\<not> gzipped example_patch" "file_text no_zlib example_patch = example_patch"
  by (simp_all add: file_text_def gzipped_def example_patch_def xd1_file_def XDELTA_110_PREFIX_def ascii_def)

lemma example_hyps:
  "content example_files ''patch'' = Some example_patch" "gzipped example_patch \<longrightarrow> snd (no_zlib example_patch)"
  "xd1_patch no_zlib (file_text no_zlib example_patch) 0 example_control [97, 99]" "\<not> bit (0 :: u32) FLAG_NO_VERIFY"
  "which_sources (source_info example_control) = Some (Some 0, Some 1)" "content example_files ''rom'' = Some [97, 98, 99]"
  "gzipped [97, 98, 99] \<longrightarrow> snd (no_zlib [97, 98, 99])" "length (file_text no_zlib [97, 98, 99]) < 2 ^ 31"
  "\<forall>k. Some (1 :: nat) = Some k \<longrightarrow> si_len (source_info example_control ! k) = of_nat (length (file_text no_zlib [97, 98, 99]))"
  "assemble (source_kinds (Some 0, Some 1)) [97, 99] (file_text no_zlib [97, 98, 99]) (inst example_control) = Some [97, 98, 99]"
  "to_len example_control = of_nat (length ([97, 98, 99] :: bytes))" "to_md5 example_control = md5_digest [97, 98, 99]" "writable example_files ''out''"
  "''out'' \<noteq> ''rom''" "''out'' \<noteq> ''patch''" "finite (dom (content example_files))" "fresh_names long_name" "long_name example_files \<noteq> ''out''"
  "''out'' \<noteq> ''-''" "\<not> is_option ''patch''" "gzipped example_patch \<or> gzipped [97, 98, 99] \<longrightarrow> temp_writable long_name example_files"
proof -
  have "''out'' \<noteq> CHR ''x'' # xs" for xs by simp
  then show "long_name example_files \<noteq> ''out''" by (metis long_name_def replicate_Suc)
  show "fresh_names long_name" by (rule fresh_long_name)
qed (use example_xd1_patch example_patch_text example_text in \<open>simp_all add: example_files_def FLAG_NO_VERIFY_def which_sources_def example_control_def
    source_kinds_def md5_abc info_new0_def is_option_def temp_writable_def\<close>)

lemma example_run:
  "\<exists>fs'. xdelta1PatchRom (\<lambda>_ _. None) no_zlib (\<lambda>_ b. b) long_name False [] False ''rom'' ''patch'' ''out'' example_files = Some (Returned 0 (fs', []))"
  using patch_runs [OF example_hyps] by blast

theorem xdelta1_patch_witness:
  "\<exists>fs'. xdelta1PatchRom (\<lambda>_ _. None) no_zlib (\<lambda>_ b. b) long_name False [] False ''rom'' ''patch'' ''out'' example_files = Some (Returned 0 (fs', [])) \<and>
     content fs' ''out'' = Some [97, 98, 99]"
  using xdelta1_patch [OF example_hyps, of "\<lambda>_ _. None" "\<lambda>_ b. b" False "[]" False] by auto

section \<open>What zero means\<close>

lemma region_copied:
  "copy_delta_region nv is ins out = Some (Parsed u io) \<Longrightarrow> map cleanup (fst io) = map cleanup ins \<and> appended nv out (snd io)"
proof (induction "is" arbitrary: ins out)
  case (Cons i "is")
  then obtain f t where c: "xd_handle_copy nv (i_offset i) (i_length i) (ins ! unat (i_index i)) out = Some (Parsed () (f, t))"
    "copy_delta_region nv is (ins[unat (i_index i) := f]) t = Some (Parsed u io)" "unat (i_index i) < length ins"
    by (auto simp: rbind_Parsed split: if_splits)
  have "cleanup f = cleanup (ins ! unat (i_index i))" "appended nv out t" using copy_copied [OF c(1)] by (simp_all add: copied_def)
  then show ?case using Cons.IH [OF c(2)] c(3) appended_trans by (auto simp: map_update list_update_same_conv)
qed auto

text \<open>No name the source handle or the patch handle has to remove is the output's.\<close>

lemma apply_and_close_0:
  assumes a0: "apply_and_close gzip left to_name p ins out fs = Some (Returned 0 (fs', printed))" and v: "\<not> bit (patch_flags p) FLAG_NO_VERIFY"
    and w: "writer False [] [] out" "out_done out = []"
    and names: "to_name \<noteq> ''-'' \<longrightarrow> cleanup (patch_in p) \<noteq> Some to_name"
      "\<And>k. from_source p = Some k \<Longrightarrow> to_name \<noteq> ''-'' \<Longrightarrow> k < length ins \<and> cleanup (ins ! k) \<noteq> Some to_name"
  shows "\<exists>T. (if to_name = ''-'' then printed = (if out_gz out then gzip (-1) T else T)
       else content fs' to_name = Some (if out_gz out then gzip (-1) T else T)) \<and>
    to_len (cont p) = of_nat (length T) \<and> to_md5 (cont p) = md5_digest T"
proof -
  obtain ins' res where a: "xdp_apply_delta False (cont p) ins out = Some (Parsed () (ins', res))"
    and r: "(let (fs, printed) = deliver to_name (xd_handle_really_close gzip (-1) res) fs;
          fs = (case from_source p of None \<Rightarrow> fs | Some k \<Rightarrow> xd_read_close (ins' ! k) fs)
        in (xd_read_close (patch_in p) fs, printed)) = (fs', printed)"
    using a0 v unfolding apply_and_close_def Let_def by (auto split: option.splits parse.splits prod.splits)
  obtain ins1 t where c: "copy_delta_region False (inst (cont p)) ins out = Some (Parsed () (ins1, t))"
    "check_stream_integrity False (xd_handle_close t) (to_md5 (cont p)) (to_len (cont p)) = Some (Parsed True res)" "ins' = ins1"
    using a by (auto simp: xdp_apply_delta_def rbind_Parsed split: if_splits)
  have ap: "appended False out t" "map cleanup ins' = map cleanup ins" using region_copied [OF c(1)] c(3) by simp_all
  then obtain T where T: "writer False T T t" using w(1) unfolding appended_def by fastforce
  have "out_gz t = out_gz out" "out_done t = []" using ap w(2) by (simp_all add: appended_def)
  then have T2: "to_len (cont p) = of_nat (length T) \<and> to_md5 (cont p) = md5_digest T" "out_buf res = T" "out_gz res = out_gz out" "out_done res = []"
    using close_checked [OF T, of "to_md5 (cont p)" "to_len (cont p)"] c(2) by auto
  have X: "xd_handle_really_close gzip (-1) res = (if out_gz out then gzip (-1) T else T)" using T2 by (simp add: xd_handle_really_close_def out_close_def)
  have "if to_name = ''-'' then printed = (if out_gz out then gzip (-1) T else T) else content fs' to_name = Some (if out_gz out then gzip (-1) T else T)"
  proof (cases "to_name = ''-''")
    case True
    then show ?thesis using r unfolding X by (simp add: deliver_def Let_def)
  next
    case False
    have k: "cleanup (ins' ! k) \<noteq> Some to_name" if "from_source p = Some k" for k
      using names(2) [OF that False] ap(2) by (metis length_map nth_map)
    have keep: "content (xd_read_close h f) to_name = content f to_name" if "cleanup h \<noteq> Some to_name" for h f
      using that by (auto simp: xd_read_close_def unlink_def split: option.split)
    show ?thesis using r False names(1) k unfolding X
      by (auto simp: deliver_def Let_def keep stdio_simps split: option.splits)
  qed
  then show ?thesis using T2(1) by blast
qed

lemma rbind_last: "rbind r f = Some (Parsed a s) \<Longrightarrow> (\<And>x t. f x t = Some (Parsed a s) \<Longrightarrow> Q) \<Longrightarrow> Q"
  by (auto simp: rbind_Parsed)

lemma refuse_last: "(if b then Some r else y) = Some (Parsed a s) \<Longrightarrow> (b \<Longrightarrow> r = Parsed a s \<Longrightarrow> Q) \<Longrightarrow> (y = Some (Parsed a s) \<Longrightarrow> Q) \<Longrightarrow> Q"
  by (auto split: if_splits)

lemma read_delta_sources:
  assumes "read_delta gunz nv0 h = Some (Parsed p ())"
  shows "which_sources (source_info (cont p)) = Some (data_source p, from_source p)"
  using assms unfolding read_delta_def Let_def
  apply -
  apply (erule rbind_last)+
  apply (erule refuse_last, simp)+
  apply (erule rbind_last)+
  apply (simp split: option.splits)
  apply (clarsimp elim!: rbind_last)
  done
lemma noseek_finite: "open_read_noseek_handle gunz tmpname name True fs = Ret (x, fs1) \<Longrightarrow> finite (dom (content fs)) \<Longrightarrow> finite (dom (content fs1))"
proof -
  assume a: "open_read_noseek_handle gunz tmpname name True fs = Ret (x, fs1)" "finite (dom (content fs))"
  have "fs1 = fs \<or> (\<exists>b. fs1 = put_file (tmpname fs) b fs)"
    using a(1) unfolding open_read_noseek_handle_def file_gunzip_def Let_def
    by (cases "file_gzipped name fs") (auto simp: cbind_eq_Ret split: if_splits prod.splits)
  then show ?thesis using a(2) by (auto simp: put_file_def)
qed

lemma process_patch_parsed:
  assumes "process_patch gunz tmpname nv0 name fs = (Some (Parsed p ()), fs1)"
  shows "which_sources (source_info (cont p)) = Some (data_source p, from_source p)" "finite (dom (content fs)) \<Longrightarrow> finite (dom (content fs1))"
proof -
  obtain h z where h: "open_read_noseek_handle gunz tmpname name True fs = Ret (Some (h, z), fs1)" "read_delta gunz nv0 h = Some (Parsed p ())"
    using assms unfolding process_patch_def by (auto split: cresult.splits option.splits prod.splits)
  show "which_sources (source_info (cont p)) = Some (data_source p, from_source p)"
    by (rule read_delta_sources [OF h(2)])
  show "finite (dom (content fs)) \<Longrightarrow> finite (dom (content fs1))" by (rule noseek_finite [OF h(1)])
qed

lemma which_sources_from: "which_sources infos = Some (d, Some k) \<Longrightarrow> k = (case d of None \<Rightarrow> 0 | Some _ \<Rightarrow> 1)"
  by (auto simp: which_sources_def split: if_splits)

lemma open_read_seek_cleanup:
  assumes "open_read_seek_handle gunz tmpname name fs = Ret (Some (h, z), fs')"
  shows "cleanup h = None \<or> cleanup h = Some (tmpname fs)"
proof -
  obtain c where c: "file_gzipped name fs = Some c" using assms by (auto simp: open_read_seek_handle_def split: option.splits)
  have name: "n = tmpname fs" if "file_gunzip gunz tmpname name fs = Ret (Some n, f)" for n f
    using that by (auto simp: file_gunzip_def Let_def split: if_splits prod.splits)
  show ?thesis using assms c name by (cases c) (auto simp: open_read_seek_handle_def cbind_eq_Ret split: option.splits)
qed

text \<open>C4: Whatever the files hold: when zero is returned, a control was read, and unless the patch asks for no verification what was written
  to the output, or to the standard output for the name \<^verbatim>\<open>-\<close>, has the length and the MD5 digest the control announces.  The file
  system holds finitely many files, a temporary file has a name that no file has, and the name of the patch is not read as an option.\<close>

theorem xdelta1_returns_0:
  assumes "xdelta1PatchRom as_option gunz gzip tmpname seekable left nv0 rom patch out fs = Some (Returned 0 (fs', printed))"
    and "fresh_names tmpname" "finite (dom (content fs))" "\<not> is_option patch"
  shows "\<exists>p fs1. process_patch gunz tmpname nv0 patch fs = (Some (Parsed p ()), fs1) \<and>
    (\<not> bit (patch_flags p) FLAG_NO_VERIFY \<longrightarrow>
      (\<exists>T. (if out = ''-'' then printed = (if bit (patch_flags p) FLAG_TO_COMPRESSED then gzip (-1) T else T)
           else content fs' out = Some (if bit (patch_flags p) FLAG_TO_COMPRESSED then gzip (-1) T else T)) \<and>
        to_len (cont p) = of_nat (length T) \<and> to_md5 (cont p) = md5_digest T))"
proof -
  obtain p fs1 where p: "process_patch gunz tmpname nv0 patch fs = (Some (Parsed p ()), fs1)"
    using assms(1, 4) unfolding xdelta1PatchRom_def patch_command_def by (auto split: option.splits parse.splits prod.splits)
  define to_out where "to_out = output_handle gzip (bit (patch_flags p) FLAG_TO_COMPRESSED)"
  define fs2 where "fs2 = (if out = ''-'' then fs1 else put_file out [] fs1)"
  define data where "data = (case data_source p of None \<Rightarrow> [] | Some _ \<Rightarrow> [patch_in p])"
  have run: "(case from_source p of
      None \<Rightarrow> apply_and_close gzip left out p data to_out fs2
    | Some k \<Rightarrow>
        (case open_read_seek_handle gunz tmpname rom fs2 of
           Ret (None, fs) \<Rightarrow> Some (Returned 10 (deliver out left fs))
         | Ret (Some (from_in, _), fs) \<Rightarrow>
             if xd_handle_length from_in \<noteq> si_len (source_info (cont p) ! k) then Some (Returned 11 (deliver out left fs))
             else apply_and_close gzip left out p (data @ [from_in]) to_out fs
         | _ \<Rightarrow> Some Undefined)) = Some (Returned 0 (fs', printed))"
    and own: "out \<noteq> ''-'' \<longrightarrow> cleanup (patch_in p) \<noteq> Some out"
    using assms(1, 4) p unfolding xdelta1PatchRom_def patch_command_def to_out_def output_handle_def fs2_def data_def Let_def patch_file_def
    by (auto split: if_splits option.splits)
  note pp = process_patch_parsed [OF p]
  obtain ins fs3 where a: "apply_and_close gzip left out p ins to_out fs3 = Some (Returned 0 (fs', printed))"
    and ins: "\<And>k. from_source p = Some k \<Longrightarrow> out \<noteq> ''-'' \<Longrightarrow> k < length ins \<and> cleanup (ins ! k) \<noteq> Some out"
  proof (cases "from_source p")
    case None
    then show thesis using that [of data fs2] run by simp
  next
    case (Some k)
    then obtain h z fs3 where h: "open_read_seek_handle gunz tmpname rom fs2 = Ret (Some (h, z), fs3)"
      "apply_and_close gzip left out p (data @ [h]) to_out fs3 = Some (Returned 0 (fs', printed))"
      using run by (auto split: cresult.splits option.splits prod.splits if_splits)
    have "k = length data" using which_sources_from [of "source_info (cont p)" "data_source p" k] pp(1) Some by (simp add: data_def split: option.splits)
    moreover have "cleanup h \<noteq> Some out" if "out \<noteq> ''-''"
    proof -
      have "finite (dom (content fs2))" using pp(2) assms(3) by (simp add: fs2_def put_file_def)
      then have "content fs2 (tmpname fs2) = None" using assms(2) by (simp add: fresh_names_def)
      then show ?thesis using open_read_seek_cleanup [OF h(1)] that by (auto simp: fs2_def stdio_simps split: if_splits)
    qed
    ultimately show thesis using that [OF h(2)] Some by simp
  qed
  have w: "writer False [] [] to_out" "out_done to_out = []" by (simp_all add: to_out_def output_handle)
  have "\<exists>T. (if out = ''-'' then printed = (if bit (patch_flags p) FLAG_TO_COMPRESSED then gzip (-1) T else T)
           else content fs' out = Some (if bit (patch_flags p) FLAG_TO_COMPRESSED then gzip (-1) T else T)) \<and>
        to_len (cont p) = of_nat (length T) \<and> to_md5 (cont p) = md5_digest T" if "\<not> bit (patch_flags p) FLAG_NO_VERIFY"
    using apply_and_close_0 [OF a that w own ins] unfolding to_out_def output_handle by blast
  then show ?thesis using p by blast
qed

theorem xdelta1_returns_0_witness:
  "\<exists>fs' p fs1 T. xdelta1PatchRom (\<lambda>_ _. None) no_zlib (\<lambda>_ b. b) long_name False [] False ''rom'' ''patch'' ''out'' example_files = Some (Returned 0 (fs', [])) \<and>
     process_patch no_zlib long_name False ''patch'' example_files = (Some (Parsed p ()), fs1) \<and> \<not> bit (patch_flags p) FLAG_NO_VERIFY \<and>
     content fs' ''out'' = Some T \<and> to_md5 (cont p) = md5_digest T"
proof -
  obtain fs' where r: "xdelta1PatchRom (\<lambda>_ _. None) no_zlib (\<lambda>_ b. b) long_name False [] False ''rom'' ''patch'' ''out'' example_files = Some (Returned 0 (fs', []))"
    using example_run by blast
  have g: "gzipped example_patch \<longrightarrow> writable example_files (long_name example_files)" using example_patch_text by simp
  from process_patch_ok [of example_files "''patch''" example_patch no_zlib long_name, OF example_hyps(1, 2) g example_hyps(3, 5), of False] obtain p where
    p: "process_patch no_zlib long_name False ''patch'' example_files = (Some (Parsed p ()), example_files)" "patch_flags p = 0"
    using example_patch_text by auto
  show ?thesis using xdelta1_returns_0 [OF r example_hyps(17, 16, 20)] r p by (auto simp: FLAG_NO_VERIFY_def FLAG_TO_COMPRESSED_def)
qed

end
