(* ===== verification/Spec2Isabelle.thy ===== *)
theory Spec2Isabelle
  imports Ips32 Aps_Make Ppf_Make Ecm_Roundtrip Dps Xpc Dldi Bsdiff Xd3_File Xd1_Apply
begin

text \<open>
  A verification library for the native patchers of the Android ROM Patcher.

  \<^bold>\<open>The program.\<close>  A Java user interface hands the paths of a ROM image, a patch and sometimes an output file to one of
  several native libraries under \<^verbatim>\<open>jni/\<close>, one per patch format; each returns an error number.  The libraries do
  not call each other; they share the C library.  Some of them carry the matching patch maker.

  \<^bold>\<open>Conventions.\<close>  The targets are the 32-bit little-endian Android systems: \<^verbatim>\<open>int\<close>, \<^verbatim>\<open>long\<close> and \<^verbatim>\<open>off_t\<close> have 32 bits, and
  \<^verbatim>\<open>ftell\<close> fails beyond 2 GB.  A function maps the file system to an \<open>outcome\<close>: a returned number, an exit, or undefined behaviour
  (an access outside an object, a null stream, a signed overflow).  Local variables start with arbitrary content,
  taken from a parameter \<open>junk\<close>, and every result holds for all of it.  Allocation and writing do not fail; messages on the console and
  the conversion of Java strings are left out, except where printing reads outside an object.  A loop is a \<open>function\<close> with a measure, a recursion on the number of rounds
  left, or, where it may run forever, a \<open>partial_function\<close> in the option type whose value \<open>None\<close> is the run
  without end.  No fuel is used.

  \<^bold>\<open>Names that coincide.\<close>  Different names are different files.  Where a program can be given one name twice, the model says what happens:
  opening a file for writing empties a stream that already reads it (\<open>truncated\<close> of \<open>CStdio\<close>: the ROM that is its own backup in \<open>Ips\<close> and \<open>Ips32\<close>,
  the ROM that is the output in \<open>Xpc\<close> and \<open>Dps\<close>), and a file that is written while it is still read as the patch makes the run undefined, since
  what is read then depends on the buffers of the C library (\<open>Aps\<close>, \<open>Ppf\<close>, \<open>Ppf_Make\<close>, \<open>Ips\<close>, \<open>Ips32\<close>, \<open>Xd1_Patch\<close>).  Where an entry point is not given
  such a case, and where a result needs it, the theorem assumes different names.

  \<^bold>\<open>The theories.\<close>

  \<^item> \<open>Prelude\<close>: results of C functions, integers in memory, shifts, and \<open>overwrite\<close>, the effect of writing bytes at a position.
  \<^item> \<open>CStdio\<close>: streams (\<^verbatim>\<open>fread\<close>, \<^verbatim>\<open>fwrite\<close>, \<^verbatim>\<open>fseek\<close>, \<^verbatim>\<open>fgetc\<close>, ...) and files.  The locales \<open>byte_source\<close> and \<open>byte_sink\<close> are what the
    patchers rely on; they are interpreted on the streams.
  \<^item> \<open>Runs\<close>: the abstract meaning of the simple formats, a list of byte runs put at positions.  The locale \<open>record_loop\<close> lifts
    the correctness of one record to the loop over a patch, the locale \<open>run_differ\<close> is what a patch maker has to find; the components
    interpret them.
  \<^item> \<open>Ips\<close>, \<open>Ips32\<close>: \<^verbatim>\<open>jni/ipspatcher\<close> and \<^verbatim>\<open>jni/ips32patcher\<close>.  The records \<open>IPSPatch\<close> and \<open>IPSRecord\<close> are the structs; one definition per
    function.  A well-formed patch refines the list of its runs, a backup is kept, every run ends, and other files are refused.
  \<^item> \<open>Aps\<close>, \<open>Aps_Make\<close>: \<^verbatim>\<open>jni/apsn64patcher\<close>, the applier \<^verbatim>\<open>n64aps.c\<close> and the maker \<^verbatim>\<open>n64caps.c\<close> with its state machine over
    blocks.  A made patch turns the original into the modified image; other cartridges and other files are refused.
  \<^item> \<open>Ppf\<close>, \<open>Ppf_Make\<close>: \<^verbatim>\<open>jni/ppfpatcher\<close>, versions 1 to 3 with validation, undo and file id.  The record \<open>c_impl\<close> is what the code takes from
    the compiler and the C library: whether the byte behind the array of the description, where every applier stores a zero, is there, and
    the number \<^verbatim>\<open>memcmp\<close> returns for unequal blocks, which is cut to a \<^verbatim>\<open>char\<close>.  Without that byte the run is undefined.  Making and applying, and applying and
    undoing, are inverse; a patch without records never ends.
  \<^item> \<open>Ecm\<close>, \<open>Ecm_File\<close>, \<open>Ecm_Roundtrip\<close>: \<^verbatim>\<open>jni/ecmpatcher/ecm.c\<close>.  \<open>Ecm\<close> has the tables, the checksum, the parity and the recognition and
    rebuilding of sectors; \<open>Ecm_File\<close> the encoder with its queue and the decoder.  The table-driven checksum is the
    bitwise one, a recognised sector is rebuilt, the encoder keeps its invariant, and decoding an encoded image gives it back.
  \<^item> \<open>Dps\<close>: \<^verbatim>\<open>jni/dpspatcher\<close>.  The output is the one the records describe, once the stream the code leaves open is written out.  A text of the
    header without its end is printed beyond its array, which is undefined.
  \<^item> \<open>Xpc\<close>: \<^verbatim>\<open>jni/xpcpatcher\<close>, reader, writer and applier.  What was written is read back; what is read is well formed and has bounded
    positions; an overlong description overruns the buffer.
  \<^item> \<open>Dldi\<close>: \<^verbatim>\<open>jni/dldipatcher\<close>.  The word-wise search equals the plain one; whatever the files hold only the
    reserved section of the application changes; the pointers of a driver are moved.
  \<^item> \<open>Bspatch\<close>: \<^verbatim>\<open>jni/bsdiffpatcher/bspatch.c\<close> with the offset writer of \<^verbatim>\<open>bsdiff.c\<close>.  The decompressor is a parameter; that it
    undoes the compressor is a hypothesis, which an escape code satisfies in the examples.  A well-formed patch
    rebuilds the new file, and the output never exceeds the announced size.
  \<^item> \<open>Qsufsort\<close>, \<open>Suffix_Ranks\<close>, \<open>Qsufsort_Split\<close>, \<open>Qsufsort_Correct\<close>, \<open>Bsdiff\<close>: the patch maker \<^verbatim>\<open>jni/bsdiffpatcher/bsdiff.c\<close>.  \<open>Qsufsort\<close> has its suffix
    sort, with every access to the two index arrays checked; \<open>Suffix_Ranks\<close> the order of suffixes, ranks that agree with it
    up to a depth, and the layout of sorted and unsorted groups; \<open>Qsufsort_Split\<close> and \<open>Qsufsort_Correct\<close> show that one group, one pass
    and the whole sort are correct for every file.  \<open>Bsdiff\<close> has the binary search, the scan with its forward and backward
    extensions and the writer: a reported match is a real one, and a made patch applied to the old file gives the new
    one.  Numbers are unbounded there, which is exact for files below one gigabyte; the compressor is a parameter.

  \<^item> \<open>Xd3_Int\<close>, \<open>Xd3_Table\<close>, \<open>Adler32\<close>, \<open>Xd3_Decode\<close>: the model of \<^verbatim>\<open>jni/xdelta3patcher\<close>.  \<open>Xd3_Int\<close> has the variable-length numbers of
    \<^verbatim>\<open>xdelta3-internal.h\<close>; \<open>Xd3_Table\<close> the instruction table, the choice of codes and the address cache of \<^verbatim>\<open>xdelta3.c\<close>, both for reading and for
    writing; \<open>Adler32\<close> the checksum; \<open>Xd3_Decode\<close> the record \<open>xd3_stream\<close>, the whole state machine of \<^verbatim>\<open>xdelta3-decode.h\<close> with one
    definition per state, and the driver loop of \<^verbatim>\<open>nativelink.c\<close>.  A step continues, stops with a code and a state to
    resume from, or is undefined.  \<^verbatim>\<open>usize_t\<close> and \<^verbatim>\<open>xoff_t\<close> have 64 bits, the argument of the allocator 32.  The result of initialising
    the LZMA decoder is a parameter.
  \<^item> \<open>Vcdiff\<close>: the meaning of a VCDIFF window, after RFC 3284: a list of instructions over a source window and the target so far.
  \<^item> \<open>Xd3_Emit\<close>, \<open>Xd3_Window\<close>, \<open>Xd3_Sections\<close>: the decoder refines it.  One instruction writes its bytes, stopping at each
    missing block of the source; the loop over a window writes the target and compares its checksum; the sections give the
    instructions the encoding stands for.
  \<^item> \<open>Xd3_Feed\<close>, \<open>Xd3_Header\<close>, \<open>Xd3_Stream\<close>, \<open>Xd3_File\<close>: the decoder is fed in pieces and every field may be cut anywhere.  The locale
    \<open>field_reader\<close> of \<open>Xd3_Feed\<close> is a reader that can be resumed; it is interpreted on the readers of a number, of a block and of a byte,
    and gives one rule per kind of field.  \<open>Xd3_Header\<close> and \<open>Xd3_Stream\<close> run the header and the sections of a window, and \<open>Xd3_File\<close> a
    whole patch: it writes exactly its targets, a wrong checksum or signature is refused, a truncated patch is
    accepted, and a section of four gigabytes overruns its buffer.

  \<^item> \<open>Md5\<close>, \<open>Edsio\<close>: \<^verbatim>\<open>jni/libedsio\<close>, as far as xdelta 1 uses it.  \<open>Md5\<close> is \<^verbatim>\<open>md5c.c\<close>; a message added in pieces gets the digest of RFC 1321.
    \<open>Edsio\<close> has the readers and writers of \<^verbatim>\<open>default.c\<close>, \<^verbatim>\<open>fh.c\<close> and \<^verbatim>\<open>generic.c\<close> and the objects of \<^verbatim>\<open>xd_edsio.c\<close>.  A reader gives an object, a
    failure, or a crash (a store outside an object).  The locales \<open>serial_source\<close> and \<open>serial_sink\<close> are what the library needs of a handle, and
    show that what was written is read back; they are interpreted on the handles of \<open>Xd1_Copy\<close>.
  \<^item> \<open>Xd1_Handle\<close>, \<open>Xd1_Patch\<close>: the model of \<^verbatim>\<open>jni/xdelta1patcher\<close>.  \<open>Xd1_Handle\<close> has the file handles of \<^verbatim>\<open>xdmain.c\<close>, the record \<open>XdFileHandle\<close>: pages and
    their list of least recent use, reading, writing, copying, checksums, and switching compression on and off.
    \<open>Xd1_Patch\<close> has the controls of \<^verbatim>\<open>xdelta.c\<close>, \<^verbatim>\<open>xdapply.c\<close>, and \<^verbatim>\<open>process_patch\<close> and \<^verbatim>\<open>patch_command\<close> of \<^verbatim>\<open>xdmain.c\<close>.  The output goes to a file or, for the name \<^verbatim>\<open>-\<close>, to the
    standard output.  zlib, the names of temporary files, whether the standard output has a position, what an option in place of the
    patch does, and what a failing run leaves in its output are parameters.  A temporary file that cannot be created is used without a
    test, which is undefined.
  \<^item> \<open>Xd1_Pages\<close>, \<open>Xd1_Copy\<close>: the linked pages of a handle refine a list of page numbers with their users; the locale \<open>page_source\<close> is
    what a client of the pages relies on, interpreted on the handles.  The checksum of a file does not depend on the order in which
    its pages were mapped, a copied range is the range of the file, and a copy from its end into a compressed output never ends.
  \<^item> \<open>Xd1_Control\<close>, \<open>Xd1_Apply\<close>: a written control is read back; crafted controls make the reader run forever, write outside an array,
    or use an object of another type.  A well-formed patch produces the text its instructions assemble, and zero is only
    returned for an output with the announced length and digest.

  Each theory starts with its model, in the order of the code, and goes on with the results.  The text before a
  result states it in words.

  \<^bold>\<open>Not modelled.\<close>  The vendored libraries \<^verbatim>\<open>glib\<close>, \<^verbatim>\<open>liblzma\<close> and \<^verbatim>\<open>bzip2\<close>, and of \<^verbatim>\<open>libedsio\<close> the events, times, base64, SHA and memory sources; the
  generator, the listing and the rsync mode of xdelta1, and the match finder and the output of the encoder of xdelta3, which the
  application does not call; the patchers in C++ (UPS, BPS, xkas, Asar and the native copy of the PPF applier), the Visual C variants of
  the PPF tools, the unused archive of the ECM tools, and the Java application.  Option parsing with \<^verbatim>\<open>getopt\<close>, assertions of glib and the
  progress counters are left out of the modelled parts.

  \<^bold>\<open>Plan.\<close>  The generators of xdelta1 (\<^verbatim>\<open>xdp_generate_delta\<close>) and of xdelta3 (\<^verbatim>\<open>xd3_encode_input\<close>) and their round trips with the appliers.
\<close>

end
